(* ===== verification/Results.thy ===== *)
theory Results
  imports Prelude
begin

section \<open>Errors and results (error.rs)\<close>

text \<open>
  \<open>error\<close> has the constructors of \<open>Error\<close> in \<open>src/error.rs\<close>, messages included. A
  fallible Rust function returns a \<open>result\<close>: \<open>Ok\<close>, \<open>Err\<close> with the error, or \<open>Fault\<close>
  where the Rust code would panic (an index or slice out of range, an \<open>assert!\<close>) or break
  the contract of an unsafe access. Faults are never caught, so a proof that a
  computation is not \<open>Fault\<close> is a proof of memory safety and panic freedom.
\<close>

datatype error =
    Generic
  | InvalidParameter string
  | DstSizeTooSmall
  | SrcSizeWrong
  | UnexpectedEof
  | BadMagic u32
  | Corruption string
  | TableLogTooLarge
  | MaxSymbolValueTooLarge
  | MaxSymbolValueTooSmall
  | WorkSpaceTooSmall
  | WindowSizeTooLarge u64 u64
  | DictionaryRequired "u32 option"
  | DictionaryMismatch u32 u32
  | OutputSizeTooLarge u64 usize
  | ContentSizeTooLarge u64
  | OutputSizeOverflow
  | ContentSizeMismatch u64 u64
  | TrailingInput usize
  | ChecksumMismatch u32 u32

datatype 'a result = Ok 'a | Err error | Fault

text \<open>The \<open>?\<close> operator: continue with the value, or return the error.\<close>

fun and_then :: "'a result \<Rightarrow> ('a \<Rightarrow> 'b result) \<Rightarrow> 'b result" where
  "and_then (Ok x) f = f x"
| "and_then (Err e) f = Err e"
| "and_then Fault f = Fault"

fun ok_or :: "'a option \<Rightarrow> error \<Rightarrow> 'a result" where
  "ok_or (Some x) e = Ok x"
| "ok_or None e = Err e"

definition demand :: "bool \<Rightarrow> error \<Rightarrow> unit result" where
  "demand c e = (if c then Ok () else Err e)"

text \<open>Checked and unchecked reads of a slice.\<close>

definition slice_get :: "'a list \<Rightarrow> usize \<Rightarrow> 'a option" where
  "slice_get xs i = (if i < length xs then Some (xs ! i) else None)"

definition get_range :: "'a list \<Rightarrow> usize \<Rightarrow> usize \<Rightarrow> 'a list option" where
  "get_range xs a b = (if a \<le> b \<and> b \<le> length xs then Some (take (b - a) (drop a xs)) else None)"

definition get_from :: "'a list \<Rightarrow> usize \<Rightarrow> 'a list option" where
  "get_from xs a = (if a \<le> length xs then Some (drop a xs) else None)"

definition idx :: "'a list \<Rightarrow> usize \<Rightarrow> 'a result" where
  "idx xs i = (if i < length xs then Ok (xs ! i) else Fault)"

definition upd :: "'a list \<Rightarrow> usize \<Rightarrow> 'a \<Rightarrow> 'a list result" where
  "upd xs i x = (if i < length xs then Ok (xs[i := x]) else Fault)"

definition idx_range :: "'a list \<Rightarrow> usize \<Rightarrow> usize \<Rightarrow> 'a list result" where
  "idx_range xs a b = (if a \<le> b \<and> b \<le> length xs then Ok (take (b - a) (drop a xs)) else Fault)"

definition idx_from :: "'a list \<Rightarrow> usize \<Rightarrow> 'a list result" where
  "idx_from xs a = (if a \<le> length xs then Ok (drop a xs) else Fault)"

text \<open>\<open>dst[pos..pos + src.len()].copy_from_slice(src)\<close>\<close>

definition copy_into :: "'a list \<Rightarrow> usize \<Rightarrow> 'a list \<Rightarrow> 'a list result" where
  "copy_into dst pos src =
     (if pos + length src \<le> length dst
      then Ok (take pos dst @ src @ drop (pos + length src) dst) else Fault)"

subsection \<open>Inversion\<close>

lemma and_then_cong [fundef_cong]:
  "m = m' \<Longrightarrow> (\<And>x. m' = Ok x \<Longrightarrow> f x = g x) \<Longrightarrow> and_then m f = and_then m' g"
  by (cases m') auto

lemma and_then_Ok [simp, unfold_ok]:
  "and_then m f = Ok y \<longleftrightarrow> (\<exists>x. m = Ok x \<and> f x = Ok y)"
  by (cases m) auto

lemma and_then_Err [simp]:
  "and_then m f = Err e \<longleftrightarrow> m = Err e \<or> (\<exists>x. m = Ok x \<and> f x = Err e)"
  by (cases m) auto

lemma and_then_Fault [simp]:
  "and_then m f = Fault \<longleftrightarrow> m = Fault \<or> (\<exists>x. m = Ok x \<and> f x = Fault)"
  by (cases m) auto

lemma and_then_assoc: "and_then (and_then m f) g = and_then m (\<lambda>x. and_then (f x) g)"
  by (cases m) auto

lemma and_then_Ok_right [simp]: "and_then m Ok = m"
  by (cases m) auto

lemma if_Err_Ok: "(if c then Err e else m) = Ok x \<longleftrightarrow> \<not> c \<and> m = Ok x"
  by simp

lemma if_Fault_Ok: "(if c then Fault else m) = Ok x \<longleftrightarrow> \<not> c \<and> m = Ok x"
  by simp

lemma if_Ok_Err: "(if c then m else Err e) = Ok x \<longleftrightarrow> c \<and> m = Ok x"
  by simp

lemma if_Ok_Fault: "(if c then m else Fault) = Ok x \<longleftrightarrow> c \<and> m = Ok x"
  by simp

text \<open>Inverting a successful run without splitting the conditions inside its steps.\<close>

lemmas run_simps = and_then_Ok if_Err_Ok if_Fault_Ok if_Ok_Err if_Ok_Fault split_paired_Ex prod.case
  result.inject

lemma ok_or_Ok [simp, unfold_ok]: "ok_or v e = Ok x \<longleftrightarrow> v = Some x"
  by (cases v) auto

lemma ok_or_Err [simp]: "ok_or v e = Err e' \<longleftrightarrow> v = None \<and> e' = e"
  by (cases v) auto

lemma ok_or_Fault [simp]: "ok_or v e \<noteq> Fault"
  by (cases v) auto

lemma demand_Ok [simp, unfold_ok]: "demand c e = Ok u \<longleftrightarrow> c"
  by (simp add: demand_def)

lemma demand_Err [simp]: "demand c e = Err e' \<longleftrightarrow> \<not> c \<and> e' = e"
  by (auto simp: demand_def)

lemma demand_Fault [simp]: "demand c e \<noteq> Fault"
  by (simp add: demand_def)

lemma slice_get_Some [simp]: "slice_get xs i = Some x \<longleftrightarrow> i < length xs \<and> x = xs ! i"
  by (auto simp: slice_get_def)

lemma slice_get_None [simp]: "slice_get xs i = None \<longleftrightarrow> length xs \<le> i"
  by (auto simp: slice_get_def)

lemma get_range_Some [simp]:
  "get_range xs a b = Some ys \<longleftrightarrow> a \<le> b \<and> b \<le> length xs \<and> ys = take (b - a) (drop a xs)"
  by (auto simp: get_range_def)

lemma get_range_None [simp]: "get_range xs a b = None \<longleftrightarrow> \<not> (a \<le> b \<and> b \<le> length xs)"
  by (auto simp: get_range_def)

lemma get_from_Some [simp]: "get_from xs a = Some ys \<longleftrightarrow> a \<le> length xs \<and> ys = drop a xs"
  by (auto simp: get_from_def)

lemma get_from_None [simp]: "get_from xs a = None \<longleftrightarrow> length xs < a"
  by (auto simp: get_from_def)

lemma idx_Ok [simp, unfold_ok]: "idx xs i = Ok x \<longleftrightarrow> i < length xs \<and> x = xs ! i"
  by (auto simp: idx_def)

lemma idx_Err [simp]: "idx xs i \<noteq> Err e"
  by (simp add: idx_def)

lemma idx_Fault [simp]: "idx xs i = Fault \<longleftrightarrow> length xs \<le> i"
  by (auto simp: idx_def)

lemma upd_Ok [simp, unfold_ok]: "upd xs i x = Ok ys \<longleftrightarrow> i < length xs \<and> ys = xs[i := x]"
  by (auto simp: upd_def)

lemma upd_Err [simp]: "upd xs i x \<noteq> Err e"
  by (simp add: upd_def)

lemma upd_Fault [simp]: "upd xs i x = Fault \<longleftrightarrow> length xs \<le> i"
  by (auto simp: upd_def)

lemma idx_range_Ok [simp, unfold_ok]:
  "idx_range xs a b = Ok ys \<longleftrightarrow> a \<le> b \<and> b \<le> length xs \<and> ys = take (b - a) (drop a xs)"
  by (auto simp: idx_range_def)

lemma idx_range_Err [simp]: "idx_range xs a b \<noteq> Err e"
  by (simp add: idx_range_def)

lemma idx_range_Fault [simp]: "idx_range xs a b = Fault \<longleftrightarrow> \<not> (a \<le> b \<and> b \<le> length xs)"
  by (simp add: idx_range_def)

lemma idx_from_Ok [simp, unfold_ok]: "idx_from xs a = Ok ys \<longleftrightarrow> a \<le> length xs \<and> ys = drop a xs"
  by (auto simp: idx_from_def)

lemma idx_from_Err [simp]: "idx_from xs a \<noteq> Err e"
  by (simp add: idx_from_def)

lemma idx_from_Fault [simp]: "idx_from xs a = Fault \<longleftrightarrow> length xs < a"
  by (auto simp: idx_from_def)

lemma copy_into_Ok [simp, unfold_ok]:
  "copy_into dst pos src = Ok ys \<longleftrightarrow>
     pos + length src \<le> length dst \<and> ys = take pos dst @ src @ drop (pos + length src) dst"
  by (auto simp: copy_into_def)

lemma copy_into_Err [simp]: "copy_into dst pos src \<noteq> Err e"
  by (simp add: copy_into_def)

lemma copy_into_Fault [simp]: "copy_into dst pos src = Fault \<longleftrightarrow> length dst < pos + length src"
  by (auto simp: copy_into_def)

subsection \<open>Postconditions\<close>

text \<open>
  \<open>meets m P\<close>: the computation does not fault, and a value it returns satisfies \<open>P\<close>.
  The rules below compute it through \<open>and_then\<close>, so a component states one
  \<open>meets\<close> lemma per operation and its callers use it as a weakest precondition.
\<close>

fun meets :: "'a result \<Rightarrow> ('a \<Rightarrow> bool) \<Rightarrow> bool" where
  "meets (Ok x) P = P x"
| "meets (Err e) P = True"
| "meets Fault P = False"

lemma meets_and_then [simp, wp]: "meets (and_then m f) P \<longleftrightarrow> meets m (\<lambda>x. meets (f x) P)"
  by (cases m) auto

lemma meets_ok_or [simp, wp]: "meets (ok_or v e) P \<longleftrightarrow> (\<forall>x. v = Some x \<longrightarrow> P x)"
  by (cases v) auto

lemma meets_demand [simp, wp]: "meets (demand c e) P \<longleftrightarrow> (c \<longrightarrow> P ())"
  by (simp add: demand_def)

lemma meets_idx [simp, wp]: "meets (idx xs i) P \<longleftrightarrow> i < length xs \<and> P (xs ! i)"
  by (simp add: idx_def)

lemma meets_upd [simp, wp]: "meets (upd xs i x) P \<longleftrightarrow> i < length xs \<and> P (xs[i := x])"
  by (simp add: upd_def)

lemma meets_idx_range [simp, wp]:
  "meets (idx_range xs a b) P \<longleftrightarrow> a \<le> b \<and> b \<le> length xs \<and> P (take (b - a) (drop a xs))"
  by (auto simp: idx_range_def)

lemma meets_idx_from [simp, wp]: "meets (idx_from xs a) P \<longleftrightarrow> a \<le> length xs \<and> P (drop a xs)"
  by (simp add: idx_from_def)

lemma meets_copy_into [simp, wp]:
  "meets (copy_into dst pos src) P \<longleftrightarrow>
     pos + length src \<le> length dst \<and> P (take pos dst @ src @ drop (pos + length src) dst)"
  by (simp add: copy_into_def)

lemma meets_if [wp]: "meets (if c then a else b) P \<longleftrightarrow> (c \<longrightarrow> meets a P) \<and> (\<not> c \<longrightarrow> meets b P)"
  by simp

lemma meets_mono: "meets m P \<Longrightarrow> (\<And>x. m = Ok x \<Longrightarrow> P x \<Longrightarrow> Q x) \<Longrightarrow> meets m Q"
  by (cases m) auto

lemma meets_Ok_D: "meets m P \<Longrightarrow> m = Ok x \<Longrightarrow> P x"
  by simp

lemma meets_no_fault: "meets m P \<Longrightarrow> m \<noteq> Fault"
  by auto

lemma meets_conj: "meets m (\<lambda>x. P x \<and> Q x) \<longleftrightarrow> meets m P \<and> meets m Q"
  by (cases m) auto

lemma meetsI: "m \<noteq> Fault \<Longrightarrow> (\<And>x. m = Ok x \<Longrightarrow> P x) \<Longrightarrow> meets m P"
  by (cases m) auto

lemma meets_iff: "meets m P \<longleftrightarrow> m \<noteq> Fault \<and> (\<forall>x. m = Ok x \<longrightarrow> P x)"
  by (cases m) auto

subsection \<open>Loops over a list\<close>

text \<open>A \<open>for\<close> loop whose body updates a state and may fail.\<close>

fun loop_over :: "('a \<Rightarrow> 's \<Rightarrow> 's result) \<Rightarrow> 'a list \<Rightarrow> 's \<Rightarrow> 's result" where
  "loop_over f [] s = Ok s"
| "loop_over f (x # xs) s = and_then (f x s) (\<lambda>s'. loop_over f xs s')"

lemma loop_over_append:
  "loop_over f (xs @ ys) s = and_then (loop_over f xs s) (\<lambda>s'. loop_over f ys s')"
proof (induction xs arbitrary: s)
  case (Cons x xs)
  then show ?case by (cases "f x s") auto
qed simp

text \<open>The invariant rule: \<open>I ds s\<close> holds when the elements \<open>ds\<close> have been processed.\<close>

lemma loop_over_meets:
  assumes "\<And>ds x rs s. xs = ds @ x # rs \<Longrightarrow> I ds s \<Longrightarrow> meets (f x s) (I (ds @ [x]))"
    and "I [] s"
  shows "meets (loop_over f xs s) (I xs)"
proof -
  have "I ds s \<Longrightarrow> xs = ds @ ys \<Longrightarrow> meets (loop_over f ys s) (I xs)" for ds ys s
  proof (induction ys arbitrary: ds s)
    case (Cons y ys)
    have m: "meets (f y s) (I (ds @ [y]))" using assms(1) Cons.prems by blast
    have "meets (f y s) (\<lambda>s'. meets (loop_over f ys s') (I xs))"
      by (rule meets_mono [OF m]) (use Cons.IH [of "ds @ [y]"] Cons.prems(2) in simp)
    then show ?case by simp
  qed simp
  from this [OF assms(2), of xs] show ?thesis by simp
qed

text \<open>The same rule for a loop that always succeeds.\<close>

lemma loop_over_Ok:
  assumes "\<And>ds x rs s. xs = ds @ x # rs \<Longrightarrow> I ds s \<Longrightarrow> \<exists>s'. f x s = Ok s' \<and> I (ds @ [x]) s'"
    and "I [] s"
  shows "\<exists>s'. loop_over f xs s = Ok s' \<and> I xs s'"
proof -
  have "I ds s \<Longrightarrow> xs = ds @ ys \<Longrightarrow> \<exists>s'. loop_over f ys s = Ok s' \<and> I xs s'" for ds ys s
  proof (induction ys arbitrary: ds s)
    case (Cons y ys)
    obtain s1 where s1: "f y s = Ok s1" "I (ds @ [y]) s1" using assms(1) Cons.prems by blast
    from Cons.IH [OF s1(2)] Cons.prems(2) s1(1) show ?case by simp
  qed simp
  from this [OF assms(2), of xs] show ?thesis by simp
qed

text \<open>For a loop over indices, the invariant in terms of the index reached.\<close>

lemma loop_upt_Ok:
  assumes "\<And>i s. i < n \<Longrightarrow> I i s \<Longrightarrow> \<exists>s'. f i s = Ok s' \<and> I (Suc i) s'" and "I 0 s"
  shows "\<exists>s'. loop_over f [0..<n] s = Ok s' \<and> I n s'"
proof -
  have "\<exists>s'. loop_over f [0..<n] s = Ok s' \<and> I (length [0..<n]) s'"
  proof (rule loop_over_Ok [where I = "\<lambda>ds s. I (length ds) s"])
    fix ds x rs s
    assume e: "[0..<n] = ds @ x # rs" and I: "I (length ds) s"
    have "x = [0..<n] ! length ds" "length ds < length [0..<n]" by (simp_all only: e) (simp_all add: nth_append)
    then have "x = length ds" "length ds < n" by simp_all
    then show "\<exists>s'. f x s = Ok s' \<and> I (length (ds @ [x])) s'" using assms(1) I by simp
  qed (use assms(2) in simp)
  then show ?thesis by simp
qed

text \<open>And the same for a loop that may return an error.\<close>

lemma loop_upt_meets:
  assumes "\<And>i s. i < n \<Longrightarrow> I i s \<Longrightarrow> meets (f i s) (I (Suc i))" and "I 0 s"
  shows "meets (loop_over f [0..<n] s) (I n)"
proof -
  have "meets (loop_over f [0..<n] s) (\<lambda>s. I (length [0..<n]) s)"
  proof (rule loop_over_meets [where I = "\<lambda>ds s. I (length ds) s"])
    fix ds x rs s
    assume e: "[0..<n] = ds @ x # rs" and I: "I (length ds) s"
    have "x = [0..<n] ! length ds" "length ds < length [0..<n]" by (simp_all only: e) (simp_all add: nth_append)
    then have "x = length ds" "length ds < n" by simp_all
    then show "meets (f x s) (I (length (ds @ [x])))" using assms(1) I by simp
  qed (use assms(2) in simp)
  then show ?thesis by simp
qed

text \<open>The same for the range \<open>[a..<n]\<close>.\<close>

lemma loop_from_Ok:
  assumes "a \<le> n" and "\<And>i s. a \<le> i \<Longrightarrow> i < n \<Longrightarrow> I i s \<Longrightarrow> \<exists>s'. f i s = Ok s' \<and> I (Suc i) s'" and "I a s"
  shows "\<exists>s'. loop_over f [a..<n] s = Ok s' \<and> I n s'"
proof -
  have "\<exists>s'. loop_over f [a..<n] s = Ok s' \<and> I (a + length [a..<n]) s'"
  proof (rule loop_over_Ok [where I = "\<lambda>ds s. I (a + length ds) s"])
    fix ds x rs s
    assume e: "[a..<n] = ds @ x # rs" and I: "I (a + length ds) s"
    have "x = [a..<n] ! length ds" "length ds < length [a..<n]" by (simp_all only: e) (simp_all add: nth_append)
    then have "x = a + length ds" "a + length ds < n" by simp_all
    then show "\<exists>s'. f x s = Ok s' \<and> I (a + length (ds @ [x])) s'" using assms(2) I by simp
  qed (use assms(3) in simp)
  then show ?thesis using assms(1) by simp
qed

lemma loop_from_meets:
  assumes "a \<le> n" and "\<And>i s. a \<le> i \<Longrightarrow> i < n \<Longrightarrow> I i s \<Longrightarrow> meets (f i s) (I (Suc i))" and "I a s"
  shows "meets (loop_over f [a..<n] s) (I n)"
proof -
  have "meets (loop_over f [a..<n] s) (\<lambda>s. I (a + length [a..<n]) s)"
  proof (rule loop_over_meets [where I = "\<lambda>ds s. I (a + length ds) s"])
    fix ds x rs s
    assume e: "[a..<n] = ds @ x # rs" and I: "I (a + length ds) s"
    have "x = [a..<n] ! length ds" "length ds < length [a..<n]" by (simp_all only: e) (simp_all add: nth_append)
    then have "x = a + length ds" "a + length ds < n" by simp_all
    then show "meets (f x s) (I (a + length (ds @ [x])))" using assms(2) I by simp
  qed (use assms(3) in simp)
  then show ?thesis using assms(1) by simp
qed

end
