(* ===== verification/Mem.thy ===== *)
theory Mem
  imports Results
begin

section \<open>Word readers (entropy/mem.rs, frame.rs)\<close>

text \<open>
  The little-endian readers of \<open>src/src/entropy/mem.rs\<close> and the header readers of
  \<open>src/src/frame.rs\<close>. Reads index the slice and fault where the Rust indexing panics; an
  unchecked read faults where its safety contract is broken.
\<close>

fun log2 :: "nat \<Rightarrow> nat" where
  "log2 n = (if n < 2 then 0 else Suc (log2 (n div 2)))"

declare log2.simps [simp del]

text \<open>\<open>31 ^ value.leading_zeros()\<close>, with its \<open>debug_assert!(value != 0)\<close>.\<close>

definition highbit32 :: "nat \<Rightarrow> nat result" where
  "highbit32 v = (if v = 0 then Fault else Ok (log2 v))"

definition read_u24_le :: "bytes \<Rightarrow> u32 result" where
  "read_u24_le src =
     and_then (idx src 0) (\<lambda>b0.
     and_then (idx src 1) (\<lambda>b1.
     and_then (idx src 2) (\<lambda>b2.
       Ok (ucast b0 OR push_bit 8 (ucast b1) OR push_bit 16 (ucast b2)))))"

definition read_u32_le :: "bytes \<Rightarrow> u32 result" where
  "read_u32_le src = and_then (idx_range src 0 4) (\<lambda>bs. Ok (word_of_nat (le_nat bs)))"

definition read_u32 :: "bytes \<Rightarrow> usize \<Rightarrow> u32 result" where
  "read_u32 input offset =
     and_then (idx_from input offset) (\<lambda>rest.
     and_then (idx_range rest 0 4) (\<lambda>bs. Ok (word_of_nat (le_nat bs))))"

definition read_u64 :: "bytes \<Rightarrow> usize \<Rightarrow> u64 result" where
  "read_u64 input offset =
     and_then (idx_from input offset) (\<lambda>rest.
     and_then (idx_range rest 0 8) (\<lambda>bs. Ok (word_of_nat (le_nat bs))))"

definition write_u64 :: "bytes \<Rightarrow> usize \<Rightarrow> u64 \<Rightarrow> bytes result" where
  "write_u64 output offset v = copy_into output offset (le_bytes 8 (unat v))"

subsection \<open>Binary logarithm\<close>

lemma log2_le: "0 < n \<Longrightarrow> 2 ^ log2 n \<le> n"
proof (induction n rule: log2.induct)
  case (1 n)
  show ?case
  proof (cases "n < 2")
    case True
    with "1.prems" show ?thesis by (simp add: log2.simps [of n])
  next
    case False
    then have "2 * 2 ^ log2 (n div 2) \<le> 2 * (n div 2)"
      using "1.IH" by simp
    also have "\<dots> \<le> n" by simp
    finally show ?thesis using False by (simp add: log2.simps [of n])
  qed
qed

lemma log2_less: "n < 2 ^ Suc (log2 n)"
proof (induction n rule: log2.induct)
  case (1 n)
  show ?case
  proof (cases "n < 2")
    case True
    then show ?thesis by (simp add: log2.simps [of n])
  next
    case False
    then have "n div 2 < 2 ^ Suc (log2 (n div 2))"
      using "1.IH" by simp
    then have "n < 2 * 2 ^ Suc (log2 (n div 2))" by simp
    with False show ?thesis by (simp add: log2.simps [of n])
  qed
qed

lemma log2_unique:
  assumes "2 ^ k \<le> n" and "n < 2 ^ Suc k"
  shows "log2 n = k"
proof -
  have "(0::nat) < 2 ^ k" by simp
  with assms(1) have n: "0 < n" by linarith
  have "(2::nat) ^ log2 n < 2 ^ Suc k" using log2_le [OF n] assms(2) by linarith
  then have "log2 n < Suc k" by (rule power_less_imp_less_exp [rotated]) simp
  moreover have "(2::nat) ^ k < 2 ^ Suc (log2 n)" using log2_less [of n] assms(1) by linarith
  then have "k < Suc (log2 n)" by (rule power_less_imp_less_exp [rotated]) simp
  ultimately show ?thesis by simp
qed

lemma log2_power [simp]: "log2 (2 ^ k) = k"
  by (rule log2_unique) auto

lemma log2_less_iff: "0 < n \<Longrightarrow> log2 n < k \<longleftrightarrow> n < 2 ^ k"
proof
  assume "0 < n" "log2 n < k"
  then have "Suc (log2 n) \<le> k" by simp
  then have "(2::nat) ^ Suc (log2 n) \<le> 2 ^ k" by (rule power_increasing) simp
  with log2_less [of n] show "n < 2 ^ k" by linarith
next
  assume n: "0 < n" and "n < 2 ^ k"
  then have "(2::nat) ^ log2 n < 2 ^ k" using log2_le [OF n] by linarith
  then show "log2 n < k" by (rule power_less_imp_less_exp [rotated]) simp
qed

lemma log2_mono: "m \<le> n \<Longrightarrow> log2 m \<le> log2 n"
proof (cases "m = 0")
  case True
  then show ?thesis by (simp add: log2.simps [of 0])
next
  case False
  assume "m \<le> n"
  then have "m < 2 ^ Suc (log2 n)" using log2_less [of n] by linarith
  then have "log2 m < Suc (log2 n)" using False log2_less_iff [of m "Suc (log2 n)"] by simp
  then show ?thesis by simp
qed

lemma highbit32_Ok [simp, unfold_ok]: "highbit32 v = Ok k \<longleftrightarrow> v \<noteq> 0 \<and> k = log2 v"
  by (auto simp: highbit32_def)

lemma highbit32_Err [simp]: "highbit32 v \<noteq> Err e"
  by (simp add: highbit32_def)

lemma highbit32_Fault [simp]: "highbit32 v = Fault \<longleftrightarrow> v = 0"
  by (simp add: highbit32_def)

lemma meets_highbit32 [simp, wp]: "meets (highbit32 v) P \<longleftrightarrow> v \<noteq> 0 \<and> P (log2 v)"
  by (simp add: highbit32_def)

subsection \<open>Readers\<close>

lemma or_push_bit_add:
  "\<lbrakk>take_bit k a = a\<rbrakk> \<Longrightarrow> a OR push_bit k b = a + push_bit k (b :: 'a :: len word)"
proof -
  assume a: "take_bit k a = a"
  have "a AND push_bit k b = 0"
  proof (rule bit_word_eqI)
    fix n
    show "bit (a AND push_bit k b) n = bit (0 :: 'a word) n"
      using a by (auto simp: bit_simps) (metis bit_take_bit_iff not_le)
  qed
  then show ?thesis by (simp add: disjunctive_add_eq_or)
qed

lemma take_bit_ucast_u8: "8 \<le> k \<Longrightarrow> take_bit k (ucast (b :: u8) :: u32) = ucast b"
  by (rule bit_word_eqI) (auto simp: bit_simps dest: bit_imp_le_length)

lemma word_of_nat_unat_u8: "(word_of_nat (unat (b :: u8)) :: u32) = ucast b"
  by (simp add: unsigned_def)

lemma read_u24_le_eq:
  assumes "3 \<le> length src"
  shows "read_u24_le src = Ok (word_of_nat (le_nat (take 3 src)))"
proof -
  obtain b0 b1 b2 rest where src: "src = b0 # b1 # b2 # rest"
    using assms by (auto simp: numeral_3_eq_3 Suc_le_length_iff)
  let ?b0 = "ucast b0 :: u32" and ?b1 = "ucast b1 :: u32" and ?b2 = "ucast b2 :: u32"
  have 1: "?b0 OR push_bit 8 ?b1 = ?b0 + push_bit 8 ?b1"
    by (rule or_push_bit_add) (simp add: take_bit_ucast_u8)
  have "take_bit 16 (?b0 OR push_bit 8 ?b1) = ?b0 OR push_bit 8 ?b1"
    by (rule bit_word_eqI) (auto simp: bit_simps dest: bit_imp_le_length)
  then have "(?b0 OR push_bit 8 ?b1) OR push_bit 16 ?b2 = (?b0 OR push_bit 8 ?b1) + push_bit 16 ?b2"
    by (rule or_push_bit_add)
  then have "?b0 OR push_bit 8 ?b1 OR push_bit 16 ?b2 = ?b0 + push_bit 8 ?b1 + push_bit 16 ?b2"
    by (simp only: 1 or.assoc [symmetric])
  also have "\<dots> = word_of_nat (le_nat [b0, b1, b2])"
    by (simp add: push_bit_eq_mult word_of_nat_unat_u8 algebra_simps)
  finally show ?thesis
    by (simp add: read_u24_le_def src idx_def numeral_3_eq_3)
qed

lemma read_u24_le_Ok [simp]:
  "read_u24_le src = Ok v \<longleftrightarrow> 3 \<le> length src \<and> v = word_of_nat (le_nat (take 3 src))"
  by (cases "3 \<le> length src") (auto simp: read_u24_le_eq, auto simp: read_u24_le_def)

lemma meets_read_u24_le [simp, wp]:
  "meets (read_u24_le src) P \<longleftrightarrow> 3 \<le> length src \<and> P (word_of_nat (le_nat (take 3 src)))"
  by (cases "3 \<le> length src") (auto simp: read_u24_le_eq, auto simp: read_u24_le_def)

lemma read_u32_le_Ok [simp]:
  "read_u32_le src = Ok v \<longleftrightarrow> 4 \<le> length src \<and> v = word_of_nat (le_nat (take 4 src))"
  by (auto simp: read_u32_le_def)

lemma meets_read_u32_le [simp, wp]:
  "meets (read_u32_le src) P \<longleftrightarrow> 4 \<le> length src \<and> P (word_of_nat (le_nat (take 4 src)))"
  by (auto simp: read_u32_le_def)

lemma meets_read_u64 [simp, wp]:
  "meets (read_u64 src i) P \<longleftrightarrow> i + 8 \<le> length src \<and> P (word_of_nat (le_nat (take 8 (drop i src))))"
  by (auto simp: read_u64_def)

text \<open>A word written at an offset reads back, and the bytes around it are untouched.\<close>

lemma read_write_u64:
  assumes "write_u64 out i v = Ok out'"
  shows "read_u64 out' i = Ok v"
proof -
  have out': "i + 8 \<le> length out" "out' = take i out @ le_bytes 8 (unat v) @ drop (i + 8) out"
    using assms by (auto simp: write_u64_def)
  have "take 8 (drop i out') = le_bytes 8 (unat v)"
    using out' by simp
  moreover have "le_nat (le_bytes 8 (unat v)) = unat v"
    using unat_u64_less [of v] by (simp add: le_nat_le_bytes)
  ultimately show ?thesis
    using out' by (simp add: read_u64_def idx_from_def idx_range_def)
qed

end
