(* ===== verification/FseSpread.thy ===== *)
theory FseSpread
  imports Mem "HOL-Library.Multiset"
begin

section \<open>Spreading symbols over an FSE table (entropy/fse.rs)\<close>

text \<open>
  The part that the four table builders of \<open>src/src/entropy/fse.rs\<close> share word for word:
  symbols of probability below one take the top slots, the others are dealt out in steps of
  \<open>table_step\<close>. A normalized counter is an \<open>int\<close> (the code's \<open>i16\<close>), a symbol a \<open>nat\<close>. The loop
  that skips the top slots has no bound in the code; the model gives it the table size as
  fuel, which is exact, because the position is periodic with at most that period:
  running out means that the loop would not end.
\<close>

definition TABLELOG_MAX :: nat where "TABLELOG_MAX = 9"
definition SYMBOLVALUE_MAX :: nat where "SYMBOLVALUE_MAX = 255"
definition MIN_TABLELOG :: nat where "MIN_TABLELOG = 5"
definition TABLESIZE_MAX :: nat where "TABLESIZE_MAX = 512"

definition table_step :: "nat \<Rightarrow> nat" where
  "table_step table_size = table_size div 2 + table_size div 8 + 3"

text \<open>The first pass: low-probability symbols from the top, and each symbol's first state.\<close>

definition place_symbol :: "int list \<Rightarrow> nat \<Rightarrow> nat list \<times> nat list \<times> nat \<Rightarrow> (nat list \<times> nat list \<times> nat) result" where
  "place_symbol counts s st =
     (case st of (ts, sn, high) \<Rightarrow>
      and_then (idx counts s) (\<lambda>c.
      if c = -1 then
        and_then (upd ts high (s mod 256)) (\<lambda>ts.
        and_then (upd sn s 1) (\<lambda>sn. Ok (ts, sn, high - 1)))
      else
        and_then (upd sn s (nat (max c 0) mod 65536)) (\<lambda>sn. Ok (ts, sn, high))))"

text \<open>\<open>while position > high_threshold\<close>\<close>

fun settle :: "nat \<Rightarrow> nat \<Rightarrow> nat \<Rightarrow> nat \<Rightarrow> nat \<Rightarrow> nat result" where
  "settle fuel step sz high pos =
     (if pos \<le> high then Ok pos
      else case fuel of 0 \<Rightarrow> Fault | Suc f \<Rightarrow> settle f step sz high ((pos + step) mod sz))"

declare settle.simps [simp del]

definition put_symbol :: "nat \<Rightarrow> nat \<Rightarrow> nat \<Rightarrow> nat \<Rightarrow> nat list \<times> nat \<Rightarrow> (nat list \<times> nat) result" where
  "put_symbol step sz high s st =
     (case st of (ts, pos) \<Rightarrow>
      and_then (upd ts pos (s mod 256)) (\<lambda>ts.
      and_then (settle sz step sz high ((pos + step) mod sz)) (\<lambda>pos. Ok (ts, pos))))"

definition spread_symbol :: "int list \<Rightarrow> nat \<Rightarrow> nat \<Rightarrow> nat \<Rightarrow> nat \<Rightarrow> nat list \<times> nat \<Rightarrow> (nat list \<times> nat) result" where
  "spread_symbol counts step sz high s st =
     and_then (idx counts s) (\<lambda>c.
       loop_over (\<lambda>_. put_symbol step sz high s) [0..<nat (max c 0)] st)"

definition spread_symbols :: "int list \<Rightarrow> nat \<Rightarrow> nat \<Rightarrow> nat list \<Rightarrow> (nat list \<times> nat list) result" where
  "spread_symbols counts max_symbol_index table_log ts0 =
     (let sz = 2 ^ table_log in
      and_then (loop_over (place_symbol counts) [0..<max_symbol_index + 1]
                  (ts0, replicate (SYMBOLVALUE_MAX + 1) 0, sz - 1)) (\<lambda>(ts, sn, high).
      and_then (loop_over (spread_symbol counts (table_step sz) sz high) [0..<max_symbol_index + 1]
                  (ts, 0)) (\<lambda>(ts, pos).
        if pos \<noteq> 0 then Err Generic else Ok (ts, sn))))"

subsection \<open>The walk\<close>

definition walk :: "nat \<Rightarrow> nat \<Rightarrow> nat" where
  "walk L i = (i * table_step (2 ^ L)) mod 2 ^ L"

lemma table_step_coprime:
  assumes "4 \<le> L"
  shows "coprime (2 ^ L) (table_step (2 ^ L))"
proof -
  obtain k where k: "L = k + 4" using assms by (metis add.commute le_Suc_ex)
  have "table_step (2 ^ L) = 2 * (2 ^ (k + 2) + 2 ^ k + 1) + 1"
    by (simp add: table_step_def k power_add)
  then have "odd (table_step (2 ^ L))" by simp
  then show ?thesis by (simp add: coprime_commute)
qed

lemma walk_0 [simp]: "walk L 0 = 0"
  by (simp add: walk_def)

lemma walk_size [simp]: "walk L (2 ^ L) = 0"
  by (simp add: walk_def)

lemma walk_less [simp]: "walk L i < 2 ^ L"
  by (simp add: walk_def)

lemma walk_Suc: "(walk L i + table_step (2 ^ L)) mod 2 ^ L = walk L (Suc i)"
  by (simp add: walk_def mod_simps add.commute)

lemma walk_inj:
  assumes "4 \<le> L"
  shows "inj_on (walk L) {0..<2 ^ L}"
proof -
  have "i = j" if "i \<le> j" "j < 2 ^ L" "walk L i = walk L j" for i j
  proof -
    have "(2 :: nat) ^ L dvd j * table_step (2 ^ L) - i * table_step (2 ^ L)"
      using that(3) mod_eq_dvd_iff_nat [of "i * table_step (2 ^ L)" "j * table_step (2 ^ L)" "2 ^ L"] that(1)
      unfolding walk_def by (metis mult_le_mono1)
    then have "2 ^ L dvd (j - i) * table_step (2 ^ L)" by (simp add: diff_mult_distrib)
    then have "2 ^ L dvd j - i"
      using coprime_dvd_mult_left_iff [OF table_step_coprime [OF assms]] by blast
    moreover have "j - i < 2 ^ L" using that(2) by simp
    ultimately have "j - i = 0" using nat_dvd_not_less by blast
    then show "i = j" using that(1) by simp
  qed
  then show ?thesis by (intro inj_onI) (metis atLeastLessThan_iff nat_le_linear)
qed

lemma walk_image:
  assumes "4 \<le> L"
  shows "walk L ` {0..<2 ^ L} = {0..<2 ^ L}"
  by (rule endo_inj_surj [OF _ _ walk_inj [OF assms]]) auto

text \<open>The slots in the order they are visited, from the \<open>i\<close>-th step on; the last is slot 0 again.\<close>

definition visits :: "nat \<Rightarrow> nat \<Rightarrow> nat \<Rightarrow> nat list" where
  "visits L high i = filter (\<lambda>j. walk L j \<le> high) [i..<2 ^ L + 1]"

lemma visits_last: "i \<le> 2 ^ L \<Longrightarrow> visits L high i \<noteq> [] \<and> last (visits L high i) = 2 ^ L"
  by (simp add: visits_def)

lemma settle_walk:
  "i \<le> 2 ^ L \<Longrightarrow> 2 ^ L - i \<le> fuel \<Longrightarrow>
   settle fuel (table_step (2 ^ L)) (2 ^ L) high (walk L i) = Ok (walk L (hd (visits L high i)))
   \<and> visits L high (hd (visits L high i)) = visits L high i \<and> hd (visits L high i) \<le> 2 ^ L"
proof (induction fuel arbitrary: i)
  case 0
  then have "i = 2 ^ L" by simp
  moreover have "[2 ^ L..<2 ^ L + 1] = [2 ^ L]" by simp
  ultimately show ?case by (simp add: settle.simps visits_def del: upt_Suc)
next
  case (Suc fuel)
  show ?case
  proof (cases "walk L i \<le> high")
    case True
    have "[i..<2 ^ L + 1] = i # [i + 1..<2 ^ L + 1]" using Suc.prems(1) by (simp add: upt_rec)
    then have "hd (visits L high i) = i" using True by (simp add: visits_def del: upt_Suc)
    then show ?thesis using True Suc.prems(1) by (simp add: settle.simps)
  next
    case False
    then have "i \<noteq> 2 ^ L" by auto
    then have i: "Suc i \<le> 2 ^ L" using Suc.prems(1) by simp
    have "[i..<2 ^ L + 1] = i # [i + 1..<2 ^ L + 1]" using Suc.prems(1) by (simp add: upt_rec)
    then have "visits L high i = visits L high (Suc i)" using False by (simp add: visits_def del: upt_Suc)
    moreover have "settle (Suc fuel) (table_step (2 ^ L)) (2 ^ L) high (walk L i)
        = settle fuel (table_step (2 ^ L)) (2 ^ L) high (walk L (Suc i))"
      using False by (subst settle.simps) (simp add: walk_Suc)
    ultimately show ?thesis using Suc.IH [OF i] Suc.prems(2) by simp
  qed
qed

lemma visits_0: "visits L high 0 = 0 # tl (visits L high 0)"
proof -
  have "[0..<2 ^ L + 1] = 0 # [1..<2 ^ L + 1]" by (simp add: upt_rec)
  then show ?thesis by (simp add: visits_def del: upt_Suc)
qed

lemma visits_split: "visits L high 0 = filter (\<lambda>j. walk L j \<le> high) [0..<2 ^ L] @ [2 ^ L]"
  by (simp add: visits_def)

subsection \<open>Assignments to distinct slots\<close>

fun assign :: "'a list \<Rightarrow> (nat \<times> 'a) list \<Rightarrow> 'a list" where
  "assign ts [] = ts"
| "assign ts ((p, s) # ps) = assign (ts[p := s]) ps"

lemma assign_append [simp]: "assign ts (ps @ qs) = assign (assign ts ps) qs"
  by (induction ts ps rule: assign.induct) auto

lemma length_assign [simp]: "length (assign ts ps) = length ts"
  by (induction ts ps rule: assign.induct) auto

lemma assign_other: "p \<notin> fst ` set ps \<Longrightarrow> assign ts ps ! p = ts ! p"
  by (induction ts ps rule: assign.induct) auto

lemma assign_nth:
  "distinct (map fst ps) \<Longrightarrow> (p, s) \<in> set ps \<Longrightarrow> p < length ts \<Longrightarrow> assign ts ps ! p = s"
proof (induction ts ps rule: assign.induct)
  case (2 ts q t ps)
  then show ?case
    by (cases "(p, s) = (q, t)") (auto simp: assign_other image_iff)
qed simp

text \<open>Assignments to the slots \<open>0..<n\<close>, each once: the table holds exactly the values assigned.\<close>

lemma mset_assign:
  assumes "distinct (map fst ps)" and "fst ` set ps = {0..<n}" and "n \<le> length ts"
  shows "mset (take n (assign ts ps)) = mset (map snd ps)"
proof -
  let ?r = "assign ts ps"
  have "mset (map fst ps) = mset [0..<n]"
    using assms(1,2) by (intro set_eq_iff_mset_eq_distinct [THEN iffD1]) auto
  then have a: "mset (map ((!) ?r) (map fst ps)) = mset (map ((!) ?r) [0..<n])" by (metis mset_map)
  have b: "map ((!) ?r) [0..<n] = take n ?r"
    using assms(3) by (intro nth_equalityI) auto
  have c: "map ((!) ?r) (map fst ps) = map snd ps"
  proof -
    have "?r ! fst q = snd q" if "q \<in> set ps" for q
    proof -
      have "fst q < n" using that assms(2) by auto
      then show ?thesis using assign_nth [OF assms(1), of "fst q" "snd q" ts] that assms(3) by simp
    qed
    then show ?thesis by simp
  qed
  show ?thesis using a by (simp only: b c)
qed

subsection \<open>The two passes\<close>

definition low_symbols :: "int list \<Rightarrow> nat \<Rightarrow> nat list" where
  "low_symbols counts n = filter (\<lambda>s. counts ! s = -1) [0..<n]"

definition flat_symbols :: "int list \<Rightarrow> nat \<Rightarrow> nat list" where
  "flat_symbols counts n = concat (map (\<lambda>s. replicate (nat (max (counts ! s) 0)) s) [0..<n])"

definition low_slots :: "nat \<Rightarrow> nat \<Rightarrow> nat list" where
  "low_slots sz m = map (\<lambda>t. sz - 1 - t) [0..<m]"

definition first_state :: "int \<Rightarrow> nat" where
  "first_state c = (if c = -1 then 1 else nat (max c 0) mod 65536)"

lemma low_symbols_Suc:
  "low_symbols counts (Suc n) = low_symbols counts n @ (if counts ! n = -1 then [n] else [])"
  by (simp add: low_symbols_def)

lemma low_slots_Suc: "low_slots sz (Suc m) = low_slots sz m @ [sz - 1 - m]"
  by (simp add: low_slots_def)

lemma length_low_mono: "k \<le> n \<Longrightarrow> length (low_symbols counts k) \<le> length (low_symbols counts n)"
  by (induction rule: dec_induct) (auto simp: low_symbols_Suc)

lemma place_symbols:
  assumes "n \<le> length counts" and "n \<le> 256" and "length (low_symbols counts n) \<le> sz" and "0 < sz"
    and "sz \<le> length ts0"
  shows "\<exists>sn. loop_over (place_symbol counts) [0..<n] (ts0, replicate 256 0, sz - 1)
      = Ok (assign ts0 (zip (low_slots sz (length (low_symbols counts n))) (low_symbols counts n)), sn,
            sz - 1 - length (low_symbols counts n))
    \<and> length sn = 256 \<and> (\<forall>s < n. sn ! s = first_state (counts ! s))"
proof -
  let ?I = "\<lambda>k (ts, sn, high). ts = assign ts0 (zip (low_slots sz (length (low_symbols counts k))) (low_symbols counts k))
      \<and> high = sz - 1 - length (low_symbols counts k) \<and> length sn = 256 \<and> (\<forall>s < k. sn ! s = first_state (counts ! s))"
  have "\<exists>st. loop_over (place_symbol counts) [0..<n] (ts0, replicate 256 0, sz - 1) = Ok st \<and> ?I n st"
  proof (rule loop_upt_Ok [where I = ?I])
    fix k st
    assume k: "k < n" and I: "?I k st"
    obtain ts sn high where st: "st = (ts, sn, high)" by (cases st)
    let ?m = "length (low_symbols counts k)"
    have ts: "ts = assign ts0 (zip (low_slots sz ?m) (low_symbols counts k))" and high: "high = sz - 1 - ?m"
      and sn: "length sn = 256" "\<forall>s<k. sn ! s = first_state (counts ! s)" using I by (simp_all add: st)
    show "\<exists>s'. place_symbol counts k st = Ok s' \<and> ?I (Suc k) s'"
    proof (cases "counts ! k = -1")
      case True
      have hl: "high < length ts" using assms(4,5) by (simp add: high ts)
      have "ts[high := k] = assign ts0 (zip (low_slots sz (length (low_symbols counts (Suc k)))) (low_symbols counts (Suc k)))"
        using True by (simp add: low_symbols_Suc low_slots_Suc low_slots_def ts high)
      then show ?thesis
        using True k assms(1,2) hl sn by (auto simp: st place_symbol_def idx_def upd_def low_symbols_Suc high
            first_state_def nth_list_update less_Suc_eq)
    next
      case False
      then show ?thesis
        using k assms(1,2) sn by (auto simp: st place_symbol_def idx_def upd_def low_symbols_Suc high ts
            first_state_def nth_list_update less_Suc_eq)
    qed
  qed (simp add: low_symbols_def low_slots_def)
  then show ?thesis by auto
qed

lemma loop_over_const: "loop_over (\<lambda>_. g s) xs st = loop_over g (replicate (length xs) s) st"
proof (induction xs arbitrary: st)
  case (Cons x xs)
  then show ?case by (cases "g s st") auto
qed simp

lemma loop_over_concat: "loop_over f (concat xss) st = loop_over (loop_over f) xss st"
proof (induction xss arbitrary: st)
  case (Cons xs xss)
  then show ?case by (cases "loop_over f xs st") (auto simp: loop_over_append)
qed simp

lemma loop_over_cong: "(\<And>x s. x \<in> set xs \<Longrightarrow> f x s = g x s) \<Longrightarrow> loop_over f xs s = loop_over g xs s"
proof (induction xs arbitrary: s)
  case (Cons x xs)
  then show ?case by (cases "g x s") auto
qed simp

lemma loop_over_map: "loop_over f (map g xs) s = loop_over (\<lambda>x. f (g x)) xs s"
proof (induction xs arbitrary: s)
  case (Cons x xs)
  then show ?case by (cases "f (g x) s") auto
qed simp

lemma spread_flat:
  assumes "n \<le> length counts"
  shows "loop_over (spread_symbol counts step sz high) [0..<n] st
    = loop_over (put_symbol step sz high) (flat_symbols counts n) st"
proof -
  have "loop_over (spread_symbol counts step sz high) [0..<n] st
      = loop_over (\<lambda>s. loop_over (put_symbol step sz high) (replicate (nat (max (counts ! s) 0)) s)) [0..<n] st"
    using assms by (intro loop_over_cong)
      (simp add: spread_symbol_def idx_def loop_over_const [of "put_symbol step sz high"])
  then show ?thesis by (simp add: flat_symbols_def loop_over_concat loop_over_map)
qed

lemma put_symbols:
  "visits L high i = i # js \<Longrightarrow> i \<le> 2 ^ L \<Longrightarrow> length ss \<le> length js \<Longrightarrow> 2 ^ L \<le> length ts \<Longrightarrow>
   \<forall>s \<in> set ss. s < 256 \<Longrightarrow>
   loop_over (put_symbol (table_step (2 ^ L)) (2 ^ L) high) ss (ts, walk L i)
     = Ok (assign ts (zip (map (walk L) (i # js)) ss), walk L ((i # js) ! length ss))"
proof (induction ss arbitrary: ts i js)
  case (Cons s ss)
  let ?i' = "hd (visits L high (Suc i))"
  have "i < 2 ^ L"
  proof -
    have "i \<noteq> 2 ^ L"
    proof
      assume "i = 2 ^ L"
      then have "visits L high i = [2 ^ L]" by (simp add: visits_def)
      then show False using Cons.prems(1,3) by simp
    qed
    then show ?thesis using Cons.prems(2) by simp
  qed
  have "[i..<2 ^ L + 1] = i # [Suc i..<2 ^ L + 1]" using Cons.prems(2) by (simp add: upt_rec)
  moreover have "i \<in> set (visits L high i)" using Cons.prems(1) by simp
  then have "walk L i \<le> high" by (simp add: visits_def)
  ultimately have js: "visits L high (Suc i) = js"
    using Cons.prems(1) by (auto simp: visits_def split: if_splits simp del: upt_Suc)
  have "settle (2 ^ L) (table_step (2 ^ L)) (2 ^ L) high (walk L (Suc i)) = Ok (walk L ?i')
      \<and> visits L high ?i' = visits L high (Suc i) \<and> ?i' \<le> 2 ^ L"
    by (rule settle_walk) (use \<open>i < 2 ^ L\<close> in auto)
  then have st: "settle (2 ^ L) (table_step (2 ^ L)) (2 ^ L) high (walk L (Suc i)) = Ok (walk L ?i')"
    and v: "visits L high ?i' = js" "?i' \<le> 2 ^ L" using js by auto
  obtain i' js' where js': "js = i' # js'" using Cons.prems(3) by (cases js) auto
  have i': "?i' = i'" using js js' by simp
  have "loop_over (put_symbol (table_step (2 ^ L)) (2 ^ L) high) ss (ts[walk L i := s], walk L i')
     = Ok (assign (ts[walk L i := s]) (zip (map (walk L) (i' # js')) ss), walk L ((i' # js') ! length ss))"
    by (rule Cons.IH) (use v i' js' Cons.prems in auto)
  moreover have "walk L i < length ts" using Cons.prems(4) walk_less [of L i] by linarith
  then have "put_symbol (table_step (2 ^ L)) (2 ^ L) high s (ts, walk L i) = Ok (ts[walk L i := s], walk L i')"
    using Cons.prems(5) by (simp add: put_symbol_def upd_def walk_Suc st i')
  ultimately show ?case by (simp add: js')
qed simp

subsection \<open>Valid counts fill the table\<close>

definition counts_valid :: "nat \<Rightarrow> int list \<Rightarrow> nat \<Rightarrow> bool" where
  "counts_valid L counts n \<longleftrightarrow> 4 \<le> L \<and> L \<le> 9 \<and> 0 < n \<and> n \<le> 256 \<and> n \<le> length counts
     \<and> (\<forall>s < n. -1 \<le> counts ! s) \<and> (\<Sum>s\<leftarrow>[0..<n]. nat \<bar>counts ! s\<bar>) = 2 ^ L"

definition fse_slots :: "nat \<Rightarrow> int list \<Rightarrow> nat \<Rightarrow> (nat \<times> nat) list" where
  "fse_slots L counts n =
     (let m = length (low_symbols counts n)
      in zip (low_slots (2 ^ L) m) (low_symbols counts n)
         @ (if m < 2 ^ L then zip (map (walk L) (visits L (2 ^ L - 1 - m) 0)) (flat_symbols counts n) else []))"

lemma count_symbols:
  "\<forall>s < n. -1 \<le> counts ! s \<Longrightarrow>
   count (mset (low_symbols counts n @ flat_symbols counts n)) x = (if x < n then nat \<bar>counts ! x\<bar> else 0)"
proof (induction n)
  case 0
  then show ?case by (simp add: low_symbols_def flat_symbols_def)
next
  case (Suc n)
  have c: "-1 \<le> counts ! n" using Suc.prems by simp
  have "counts ! n = -1 \<or> 0 \<le> counts ! n" using c by auto
  then show ?case
    using Suc by (auto simp: low_symbols_Suc flat_symbols_def less_Suc_eq)
qed

lemma length_symbols:
  "\<forall>s < n. -1 \<le> counts ! s \<Longrightarrow>
   length (low_symbols counts n) + length (flat_symbols counts n) = (\<Sum>s\<leftarrow>[0..<n]. nat \<bar>counts ! s\<bar>)"
proof (induction n)
  case 0
  then show ?case by (simp add: low_symbols_def flat_symbols_def)
next
  case (Suc n)
  have c: "-1 \<le> counts ! n" using Suc.prems by simp
  have "counts ! n = -1 \<or> 0 \<le> counts ! n" using c by auto
  then show ?case
    using Suc by (auto simp: low_symbols_Suc flat_symbols_def)
qed

lemma walked_slots:
  assumes "4 \<le> L" and "high < 2 ^ L"
  shows "distinct (map (walk L) (filter (\<lambda>j. walk L j \<le> high) [0..<2 ^ L]))"
    and "walk L ` {j \<in> {0..<2 ^ L}. walk L j \<le> high} = {0..<Suc high}"
    and "length (filter (\<lambda>j. walk L j \<le> high) [0..<2 ^ L]) = Suc high"
proof -
  show d: "distinct (map (walk L) (filter (\<lambda>j. walk L j \<le> high) [0..<2 ^ L]))"
    using inj_on_subset [OF walk_inj [OF assms(1)], of "{j. j < 2 ^ L \<and> walk L j \<le> high}"]
    by (simp add: distinct_map subset_iff)
  show s: "walk L ` {j \<in> {0..<2 ^ L}. walk L j \<le> high} = {0..<Suc high}"
  proof -
    have "p \<in> walk L ` {j \<in> {0..<2 ^ L}. walk L j \<le> high}" if "p \<le> high" for p
    proof -
      have "p \<in> walk L ` {0..<2 ^ L}" using that assms(2) by (simp add: walk_image [OF assms(1)])
      then show ?thesis using that by auto
    qed
    note onto = this
    show ?thesis
    proof (intro set_eqI iffI)
      fix p
      assume "p \<in> walk L ` {j \<in> {0..<2 ^ L}. walk L j \<le> high}"
      then show "p \<in> {0..<Suc high}" by (elim imageE) simp
    next
      fix p
      assume "p \<in> {0..<Suc high}"
      then show "p \<in> walk L ` {j \<in> {0..<2 ^ L}. walk L j \<le> high}" by (intro onto) simp
    qed
  qed
  have "length (filter (\<lambda>j. walk L j \<le> high) [0..<2 ^ L])
      = card (set (map (walk L) (filter (\<lambda>j. walk L j \<le> high) [0..<2 ^ L])))"
    using distinct_card [OF d] by (simp only: length_map)
  also have "set (map (walk L) (filter (\<lambda>j. walk L j \<le> high) [0..<2 ^ L])) = {0..<Suc high}"
    using s by simp
  finally show "length (filter (\<lambda>j. walk L j \<le> high) [0..<2 ^ L]) = Suc high" by simp
qed

lemma visits_walked:
  assumes "4 \<le> L" and "high < 2 ^ L"
  obtains js where "visits L high 0 = 0 # js" and "length js = Suc high" and "(0 # js) ! Suc high = 2 ^ L"
    and "distinct (map (walk L) (take (Suc high) (visits L high 0)))"
    and "set (map (walk L) (take (Suc high) (visits L high 0))) = {0..<Suc high}"
proof -
  note w = walked_slots [OF assms]
  let ?f = "filter (\<lambda>j. walk L j \<le> high) [0..<2 ^ L]"
  have v: "visits L high 0 = ?f @ [2 ^ L]" by (rule visits_split)
  have t: "take (Suc high) (visits L high 0) = ?f" by (simp add: v w(3))
  have n: "visits L high 0 ! Suc high = 2 ^ L" by (simp only: v nth_append w(3)) simp
  have l: "length (visits L high 0) = Suc (Suc high)" by (simp only: v length_append w(3)) simp
  show thesis
    by (rule that [OF visits_0]) (use w t n l visits_0 [of L high] in \<open>simp_all del: upt_Suc\<close>)
qed

lemma fse_slots_props:
  assumes "counts_valid L counts n"
  shows "distinct (map fst (fse_slots L counts n))" and "fst ` set (fse_slots L counts n) = {0..<2 ^ L}"
    and "map snd (fse_slots L counts n) = low_symbols counts n @ flat_symbols counts n"
proof -
  let ?m = "length (low_symbols counts n)" and ?f = "flat_symbols counts n" and ?sz = "2 ^ L :: nat"
  have v: "4 \<le> L" "\<forall>s < n. -1 \<le> counts ! s" and tot: "?m + length ?f = ?sz"
    using assms length_symbols [of n counts] by (auto simp: counts_valid_def)
  have low: "distinct (low_slots ?sz ?m)" "set (low_slots ?sz ?m) = {?sz - ?m..<?sz}"
  proof -
    show "distinct (low_slots ?sz ?m)" using tot by (auto simp: low_slots_def distinct_map inj_on_def)
    have "x \<in> set (low_slots ?sz ?m)" if "?sz - ?m \<le> x" "x < ?sz" for x
    proof -
      have "x = ?sz - 1 - (?sz - 1 - x)" "?sz - 1 - x < ?m" using that tot by auto
      then show ?thesis by (auto simp: low_slots_def)
    qed
    moreover have "?sz - ?m \<le> x \<and> x < ?sz" if "x \<in> set (low_slots ?sz ?m)" for x
      using that tot by (auto simp: low_slots_def)
    ultimately show "set (low_slots ?sz ?m) = {?sz - ?m..<?sz}" by auto
  qed
  have ll: "length (low_slots ?sz ?m) = ?m" by (simp add: low_slots_def)
  have "distinct (map fst (fse_slots L counts n)) \<and> fst ` set (fse_slots L counts n) = {0..<2 ^ L}
    \<and> map snd (fse_slots L counts n) = low_symbols counts n @ ?f"
  proof (cases "?m < ?sz")
    case False
    then have m: "?m = ?sz" and "length ?f = 0" using tot by linarith+
    then have "?f = []" by simp
    then have "map fst (fse_slots L counts n) = low_slots ?sz ?sz" "map snd (fse_slots L counts n) = low_symbols counts n"
      using ll m by (simp_all add: fse_slots_def Let_def)
    then show ?thesis
      using low \<open>?m = ?sz\<close> \<open>?f = []\<close> by (metis append_Nil2 diff_self_eq_0 list.set_map)
  next
    case True
    let ?high = "?sz - 1 - ?m"
    have h: "?high < ?sz" and lf: "length ?f = Suc ?high" using True tot by auto
    from visits_walked [OF v(1) h] obtain js where js: "visits L ?high 0 = 0 # js" "length js = Suc ?high"
      "distinct (map (walk L) (take (Suc ?high) (visits L ?high 0)))"
      "set (map (walk L) (take (Suc ?high) (visits L ?high 0))) = {0..<Suc ?high}" by blast
    let ?w = "map (walk L) (take (Suc ?high) (visits L ?high 0))"
    have "length (visits L ?high 0) = Suc (Suc ?high)" using js by simp
    then have "map fst (zip (map (walk L) (visits L ?high 0)) ?f) = ?w"
      "map snd (zip (map (walk L) (visits L ?high 0)) ?f) = ?f"
      by (simp_all only: map_fst_zip_take map_snd_zip_take length_map lf) (simp_all add: take_map lf)
    then have f: "map fst (fse_slots L counts n) = low_slots ?sz ?m @ ?w"
      and s: "map snd (fse_slots L counts n) = low_symbols counts n @ ?f"
      using True ll by (simp_all add: fse_slots_def Let_def)
    have "{0..<Suc ?high} \<inter> {?sz - ?m..<?sz} = {}" "{0..<Suc ?high} \<union> {?sz - ?m..<?sz} = {0..<?sz}"
      using True by auto
    then have "distinct (low_slots ?sz ?m @ ?w)" "set (low_slots ?sz ?m @ ?w) = {0..<?sz}"
      unfolding distinct_append set_append low(2) js(4) using low(1) js(3) by blast+
    then show ?thesis using f s by (metis list.set_map)
  qed
  then show "distinct (map fst (fse_slots L counts n))" and "fst ` set (fse_slots L counts n) = {0..<2 ^ L}"
    and "map snd (fse_slots L counts n) = low_symbols counts n @ flat_symbols counts n" by auto
qed

lemma symbols_less:
  "x \<in> set (low_symbols counts n @ flat_symbols counts n) \<Longrightarrow> x < n"
  by (auto simp: low_symbols_def flat_symbols_def)

lemma count_le_size:
  assumes "counts_valid L counts n" and "s < n"
  shows "nat \<bar>counts ! s\<bar> \<le> 2 ^ L" and "first_state (counts ! s) = nat \<bar>counts ! s\<bar>"
proof -
  have "nat \<bar>counts ! s\<bar> \<le> (\<Sum>s\<leftarrow>[0..<n]. nat \<bar>counts ! s\<bar>)"
    using assms(2) by (intro member_le_sum_list) auto
  then show le: "nat \<bar>counts ! s\<bar> \<le> 2 ^ L" using assms(1) by (simp add: counts_valid_def)
  have "(2 :: nat) ^ L \<le> 2 ^ 9" using assms(1) by (intro power_increasing) (auto simp: counts_valid_def)
  then have "nat \<bar>counts ! s\<bar> \<le> 2 ^ 9" by (rule le_trans [OF le])
  then have "nat \<bar>counts ! s\<bar> < 65536" by (rule le_less_trans) simp
  moreover have "-1 \<le> counts ! s" using assms by (simp add: counts_valid_def)
  ultimately show "first_state (counts ! s) = nat \<bar>counts ! s\<bar>"
    by (auto simp: first_state_def)
qed

text \<open>The second pass, from the table in which the low-probability symbols are placed.\<close>

definition low_area :: "nat \<Rightarrow> int list \<Rightarrow> nat \<Rightarrow> (nat \<times> nat) list" where
  "low_area L counts n = zip (low_slots (2 ^ L) (length (low_symbols counts n))) (low_symbols counts n)"

lemma spread_pass:
  assumes v: "counts_valid L counts n" and ts0: "2 ^ L \<le> length ts0"
  shows "loop_over (spread_symbol counts (table_step (2 ^ L)) (2 ^ L) (2 ^ L - 1 - length (low_symbols counts n))) [0..<n]
      (assign ts0 (low_area L counts n), 0) = Ok (assign ts0 (fse_slots L counts n), 0)"
proof -
  let ?sz = "2 ^ L :: nat"
  let ?m = "length (low_symbols counts n)" and ?f = "flat_symbols counts n"
  have v': "4 \<le> L" "n \<le> 256" "n \<le> length counts" "\<forall>s < n. -1 \<le> counts ! s"
    and tot: "?m + length ?f = ?sz"
    using v length_symbols [of n counts] by (auto simp: counts_valid_def)
  have f256: "\<forall>s \<in> set ?f. s < 256" using symbols_less [of _ counts n] v'(2) by fastforce
  show ?thesis
  proof (cases "?m < ?sz")
    case True
    let ?high = "?sz - 1 - ?m"
    have h: "?high < ?sz" and lf: "length ?f = Suc ?high" using True tot by auto
    from visits_walked [OF v'(1) h] obtain js where js: "visits L ?high 0 = 0 # js" "length js = Suc ?high"
      "(0 # js) ! Suc ?high = 2 ^ L" by blast
    have "loop_over (put_symbol (table_step ?sz) ?sz ?high) ?f (assign ts0 (low_area L counts n), walk L 0)
        = Ok (assign (assign ts0 (low_area L counts n)) (zip (map (walk L) (0 # js)) ?f), walk L ((0 # js) ! length ?f))"
      by (rule put_symbols [OF js(1)]) (use lf js(2) ts0 f256 in auto)
    moreover have "walk L ((0 # js) ! length ?f) = 0" by (simp only: lf js(3) walk_size)
    moreover have "visits L (2 ^ L - Suc ?m) 0 = 0 # js" using js(1) by simp
    ultimately show ?thesis
      using True by (simp add: spread_flat [OF v'(3)] fse_slots_def low_area_def Let_def del: upt_Suc)
  next
    case False
    then have "length ?f = 0" using tot by linarith
    then have "?f = []" by simp
    then show ?thesis using False by (simp add: spread_flat [OF v'(3)] fse_slots_def low_area_def Let_def del: upt_Suc)
  qed
qed

lemma low_symbols_fit:
  assumes "counts_valid L counts n"
  shows "length (low_symbols counts n) \<le> 2 ^ L"
  using assms length_symbols [of n counts] by (simp add: counts_valid_def)

lemma spread_symbols_spec:
  assumes v: "counts_valid L counts (Suc msi)" and ts0: "2 ^ L \<le> length ts0"
  obtains sn where "spread_symbols counts msi L ts0 = Ok (assign ts0 (fse_slots L counts (Suc msi)), sn)"
    and "length sn = 256" and "\<forall>s \<le> msi. sn ! s = nat \<bar>counts ! s\<bar>"
proof -
  let ?n = "Suc msi" and ?sz = "2 ^ L :: nat"
  let ?m = "length (low_symbols counts ?n)"
  have v': "?n \<le> 256" "?n \<le> length counts" using v by (auto simp: counts_valid_def)
  from place_symbols [OF v'(2,1) low_symbols_fit [OF v] _ ts0] obtain sn where
    pl: "loop_over (place_symbol counts) [0..<?n] (ts0, replicate 256 0, ?sz - 1)
      = Ok (assign ts0 (low_area L counts ?n), sn, ?sz - 1 - ?m)"
    and sn: "length sn = 256" "\<forall>s < ?n. sn ! s = first_state (counts ! s)" by (auto simp: low_area_def)
  show thesis
  proof (rule that [OF _ sn(1)])
    show "spread_symbols counts msi L ts0 = Ok (assign ts0 (fse_slots L counts ?n), sn)"
      using pl spread_pass [OF v ts0] by (simp add: spread_symbols_def Let_def SYMBOLVALUE_MAX_def del: upt_Suc)
    show "\<forall>s \<le> msi. sn ! s = nat \<bar>counts ! s\<bar>"
      using sn(2) count_le_size(2) [OF v] by simp
  qed
qed

text \<open>The symbols of a filled table: each appears as often as its count says.\<close>

lemma spread_counts:
  assumes v: "counts_valid L counts n" and ts0: "2 ^ L \<le> length ts0"
  shows "count (mset (take (2 ^ L) (assign ts0 (fse_slots L counts n)))) s
      = (if s < n then nat \<bar>counts ! s\<bar> else 0)"
    and "u < 2 ^ L \<Longrightarrow> assign ts0 (fse_slots L counts n) ! u < n"
    and "2 ^ L \<le> length ts1 \<Longrightarrow>
      take (2 ^ L) (assign ts0 (fse_slots L counts n)) = take (2 ^ L) (assign ts1 (fse_slots L counts n))"
proof -
  note p = fse_slots_props [OF v]
  have v': "\<forall>s < n. -1 \<le> counts ! s" using v by (simp add: counts_valid_def)
  have m: "mset (take (2 ^ L) (assign ts (fse_slots L counts n))) = mset (low_symbols counts n @ flat_symbols counts n)"
    if "2 ^ L \<le> length ts" for ts
    by (simp only: mset_assign [OF p(1,2) that] p(3))
  show "count (mset (take (2 ^ L) (assign ts0 (fse_slots L counts n)))) s
      = (if s < n then nat \<bar>counts ! s\<bar> else 0)"
    by (simp only: m [OF ts0] count_symbols [OF v'])
  show "assign ts0 (fse_slots L counts n) ! u < n" if "u < 2 ^ L"
  proof -
    have "assign ts0 (fse_slots L counts n) ! u \<in> set (take (2 ^ L) (assign ts0 (fse_slots L counts n)))"
      using that ts0 by (auto simp: in_set_conv_nth)
    then have "assign ts0 (fse_slots L counts n) ! u \<in># mset (low_symbols counts n @ flat_symbols counts n)"
      by (simp only: m [OF ts0, symmetric] set_mset_mset)
    then show ?thesis using symbols_less by (metis set_mset_mset)
  qed
  show "take (2 ^ L) (assign ts0 (fse_slots L counts n)) = take (2 ^ L) (assign ts1 (fse_slots L counts n))"
    if ts1: "2 ^ L \<le> length ts1"
  proof (rule nth_equalityI)
    show "length (take (2 ^ L) (assign ts0 (fse_slots L counts n))) = length (take (2 ^ L) (assign ts1 (fse_slots L counts n)))"
      using ts0 ts1 by simp
    fix u
    assume "u < length (take (2 ^ L) (assign ts0 (fse_slots L counts n)))"
    then have u: "u < 2 ^ L" by simp
    then have "u \<in> fst ` set (fse_slots L counts n)" by (simp only: p(2)) simp
    then obtain s where "(u, s) \<in> set (fse_slots L counts n)" by auto
    then show "take (2 ^ L) (assign ts0 (fse_slots L counts n)) ! u = take (2 ^ L) (assign ts1 (fse_slots L counts n)) ! u"
      using u ts0 ts1 by (simp add: assign_nth [OF p(1)])
  qed
qed

end
