(* ===== verification/FseTable.thy ===== *)
theory FseTable
  imports FseSpread
begin

section \<open>FSE decoding tables (entropy/fse.rs)\<close>

text \<open>
  The decoding tables of \<open>src/src/entropy/fse.rs\<close>: \<open>DTable\<close> and its sequence variant with
  embedded baselines, and their builders. Table fields are natural numbers in the range of
  the Rust field, with the casts that could cut them written out; every array access of the
  builders is checked, so a \<open>Fault\<close> is a panic or an out-of-bounds unchecked access. A builder
  that fails returns only the error: the table it was filling is dropped by every caller.
\<close>

record decode_entry =
  de_new_state :: nat
  de_symbol :: nat
  de_nb_bits :: nat

record dtable =
  dt_table_log :: nat
  dt_fast_mode :: bool
  dt_entries :: "decode_entry list"

record seq_entry =
  se_new_state :: nat
  se_nb_bits :: nat
  se_nb_additional_bits :: nat
  se_baseline :: nat

record seq_dtable =
  st_table_log :: nat
  st_entries :: "seq_entry list"

definition decode_entry_default :: decode_entry where
  "decode_entry_default = \<lparr>de_new_state = 0, de_symbol = 0, de_nb_bits = 0\<rparr>"

definition dtable_default :: dtable where
  "dtable_default = \<lparr>dt_table_log = 0, dt_fast_mode = False,
     dt_entries = replicate TABLESIZE_MAX decode_entry_default\<rparr>"

definition seq_entry_default :: seq_entry where
  "seq_entry_default = \<lparr>se_new_state = 0, se_nb_bits = 0, se_nb_additional_bits = 0, se_baseline = 0\<rparr>"

definition seq_dtable_default :: seq_dtable where
  "seq_dtable_default = \<lparr>st_table_log = 0, st_entries = replicate TABLESIZE_MAX seq_entry_default\<rparr>"

definition table_entries_size :: "nat \<Rightarrow> nat" where
  "table_entries_size table_log = (if table_log = 0 then 1 else 2 ^ table_log)"

definition avg_symbol :: "dtable \<Rightarrow> nat result" where
  "avg_symbol dt =
     (let table_size = table_entries_size (dt_table_log dt) in
      and_then (loop_over (\<lambda>i total. and_then (idx (dt_entries dt) i) (\<lambda>e. Ok (total + de_symbol e)))
                  [0..<table_size] 0) (\<lambda>total. Ok (total div table_size)))"

definition copy_active_from :: "dtable \<Rightarrow> dtable \<Rightarrow> nat \<Rightarrow> dtable result" where
  "copy_active_from self src table_size =
     and_then (idx_range (dt_entries src) 0 table_size) (\<lambda>active.
     and_then (copy_into (dt_entries self) 0 active) (\<lambda>es.
       Ok \<lparr>dt_table_log = dt_table_log src, dt_fast_mode = dt_fast_mode src, dt_entries = es\<rparr>))"

text \<open>The argument checks the builders open with.\<close>

definition check_table_args :: "int list \<Rightarrow> nat \<Rightarrow> nat \<Rightarrow> unit result" where
  "check_table_args counts max_symbol_value table_log =
     (if SYMBOLVALUE_MAX < max_symbol_value \<or> length counts \<le> max_symbol_value then Err MaxSymbolValueTooLarge
      else if table_log = 0 then Err (Corruption ''FSE table log must be non-zero'')
      else if TABLELOG_MAX < table_log then Err TableLogTooLarge else Ok ())"

text \<open>The entry of a state: the bits to read and the base of the next state.\<close>

definition fse_state :: "nat \<Rightarrow> nat \<Rightarrow> (nat \<times> nat) result" where
  "fse_state table_log next_state =
     and_then (highbit32 next_state) (\<lambda>hb.
     if table_log < hb then Fault else
     let nb_bits = (table_log - hb) mod 256;
         shifted = next_state * 2 ^ nb_bits
     in if shifted < 2 ^ table_log then Fault
        else Ok (nb_bits, (shifted - 2 ^ table_log) mod 65536))"

definition fill_entry ::
    "(nat \<Rightarrow> nat \<Rightarrow> nat \<Rightarrow> 'e) \<Rightarrow> nat \<Rightarrow> nat list \<Rightarrow> nat \<Rightarrow> nat list \<times> 'e list \<Rightarrow> (nat list \<times> 'e list) result" where
  "fill_entry mk table_log ts index st =
     (case st of (sn, es) \<Rightarrow>
      and_then (idx ts index) (\<lambda>symb.
      and_then (idx sn symb) (\<lambda>next_state.
      and_then (upd sn symb ((next_state + 1) mod 65536)) (\<lambda>sn.
      and_then (fse_state table_log next_state) (\<lambda>(nb_bits, new_state).
      and_then (upd es index (mk symb nb_bits new_state)) (\<lambda>es. Ok (sn, es)))))))"

definition fast_mode_of :: "int list \<Rightarrow> nat \<Rightarrow> nat \<Rightarrow> bool" where
  "fast_mode_of counts max_symbol_index table_log =
     list_all (\<lambda>s. counts ! s = -1 \<or> counts ! s < 2 ^ (table_log - 1)) [0..<max_symbol_index + 1]"

definition mk_decode_entry :: "nat \<Rightarrow> nat \<Rightarrow> nat \<Rightarrow> decode_entry" where
  "mk_decode_entry symb nb ns = \<lparr>de_new_state = ns, de_symbol = symb, de_nb_bits = nb\<rparr>"

definition build_dtable :: "dtable \<Rightarrow> int list \<Rightarrow> nat \<Rightarrow> nat \<Rightarrow> dtable result" where
  "build_dtable dt counts max_symbol_value table_log =
     and_then (check_table_args counts max_symbol_value table_log) (\<lambda>_.
     and_then (spread_symbols counts max_symbol_value table_log (map de_symbol (dt_entries dt))) (\<lambda>(ts, sn).
     and_then (loop_over (fill_entry mk_decode_entry table_log ts) [0..<2 ^ table_log] (sn, dt_entries dt)) (\<lambda>(sn, es).
       Ok \<lparr>dt_table_log = table_log, dt_fast_mode = fast_mode_of counts max_symbol_value table_log,
           dt_entries = es\<rparr>)))"

definition build_rle_dtable :: "dtable \<Rightarrow> nat \<Rightarrow> dtable result" where
  "build_rle_dtable dt symbol =
     and_then (upd (dt_entries dt) 0 \<lparr>de_new_state = 0, de_symbol = symbol, de_nb_bits = 0\<rparr>) (\<lambda>es.
       Ok \<lparr>dt_table_log = 0, dt_fast_mode = False, dt_entries = es\<rparr>)"

text \<open>A lookup that reads 0 past the end of a slice.\<close>

definition or_zero :: "nat list \<Rightarrow> nat \<Rightarrow> nat" where
  "or_zero xs i = (if i < length xs then xs ! i else 0)"

definition mk_seq_entry :: "nat list \<Rightarrow> nat list \<Rightarrow> nat \<Rightarrow> nat \<Rightarrow> nat \<Rightarrow> seq_entry" where
  "mk_seq_entry baselines extra_bits symb nb ns =
     \<lparr>se_new_state = ns, se_nb_bits = nb, se_nb_additional_bits = or_zero extra_bits symb,
      se_baseline = or_zero baselines symb\<rparr>"

definition mk_offset_entry :: "nat \<Rightarrow> nat \<Rightarrow> nat \<Rightarrow> seq_entry" where
  "mk_offset_entry symb nb ns =
     \<lparr>se_new_state = ns, se_nb_bits = nb, se_nb_additional_bits = symb, se_baseline = 0\<rparr>"

definition build_rle_sequence_dtable :: "seq_dtable \<Rightarrow> nat \<Rightarrow> nat list \<Rightarrow> nat list \<Rightarrow> seq_dtable result" where
  "build_rle_sequence_dtable out symbol baselines extra_bits =
     and_then (upd (st_entries out) 0 (mk_seq_entry baselines extra_bits symbol 0 0)) (\<lambda>es.
       Ok \<lparr>st_table_log = 0, st_entries = es\<rparr>)"

definition build_rle_offset_sequence_dtable :: "seq_dtable \<Rightarrow> nat \<Rightarrow> seq_dtable result" where
  "build_rle_offset_sequence_dtable out symbol =
     and_then (upd (st_entries out) 0 (mk_offset_entry symbol 0 0)) (\<lambda>es.
       Ok \<lparr>st_table_log = 0, st_entries = es\<rparr>)"

text \<open>Converting a \<open>DTable\<close>, active entries only.\<close>

definition convert_entry :: "(nat \<Rightarrow> nat \<Rightarrow> nat \<Rightarrow> seq_entry) \<Rightarrow> dtable \<Rightarrow> nat \<Rightarrow> seq_entry list \<Rightarrow> seq_entry list result" where
  "convert_entry mk dt i es =
     and_then (idx (dt_entries dt) i) (\<lambda>e. upd es i (mk (de_symbol e) (de_nb_bits e) (de_new_state e)))"

definition build_sequence_dtable_from :: "dtable \<Rightarrow> nat list \<Rightarrow> nat list \<Rightarrow> seq_dtable \<Rightarrow> seq_dtable result" where
  "build_sequence_dtable_from dt baselines extra_bits out =
     and_then (loop_over (convert_entry (mk_seq_entry baselines extra_bits) dt)
                 [0..<table_entries_size (dt_table_log dt)] (st_entries out)) (\<lambda>es.
       Ok \<lparr>st_table_log = dt_table_log dt, st_entries = es\<rparr>)"

definition build_offset_sequence_dtable_from :: "dtable \<Rightarrow> seq_dtable \<Rightarrow> seq_dtable result" where
  "build_offset_sequence_dtable_from dt out =
     and_then (loop_over (convert_entry mk_offset_entry dt)
                 [0..<table_entries_size (dt_table_log dt)] (st_entries out)) (\<lambda>es.
       Ok \<lparr>st_table_log = dt_table_log dt, st_entries = es\<rparr>)"

text \<open>The fused builders.\<close>

definition build_sequence_dtable_direct ::
    "seq_dtable \<Rightarrow> int list \<Rightarrow> nat \<Rightarrow> nat \<Rightarrow> nat list \<Rightarrow> nat list \<Rightarrow> seq_dtable result" where
  "build_sequence_dtable_direct out counts max_symbol_value table_log baselines extra_bits =
     and_then (check_table_args counts max_symbol_value table_log) (\<lambda>_.
     and_then (spread_symbols counts max_symbol_value table_log (replicate TABLESIZE_MAX 0)) (\<lambda>(ts, sn).
     and_then (loop_over (fill_entry (mk_seq_entry baselines extra_bits) table_log ts) [0..<2 ^ table_log]
                 (sn, st_entries out)) (\<lambda>(sn, es).
       Ok \<lparr>st_table_log = table_log, st_entries = es\<rparr>)))"

definition build_offset_sequence_dtable_direct ::
    "seq_dtable \<Rightarrow> int list \<Rightarrow> nat \<Rightarrow> nat \<Rightarrow> seq_dtable result" where
  "build_offset_sequence_dtable_direct out counts max_symbol_value table_log =
     and_then (check_table_args counts max_symbol_value table_log) (\<lambda>_.
     and_then (spread_symbols counts max_symbol_value table_log (replicate TABLESIZE_MAX 0)) (\<lambda>(ts, sn).
     and_then (loop_over (fill_entry mk_offset_entry table_log ts) [0..<2 ^ table_log]
                 (sn, st_entries out)) (\<lambda>(sn, es).
       Ok \<lparr>st_table_log = table_log, st_entries = es\<rparr>)))"

subsection \<open>Raw entries\<close>

definition get_entry_unchecked :: "seq_dtable \<Rightarrow> nat \<Rightarrow> seq_entry result" where
  "get_entry_unchecked t state = (if state < TABLESIZE_MAX then idx (st_entries t) state else Fault)"

text \<open>The eight bytes of an entry in the layout \<open>repr(C)\<close> gives it, little-endian.\<close>

definition get_entry_raw :: "seq_dtable \<Rightarrow> nat \<Rightarrow> u64 result" where
  "get_entry_raw t state =
     and_then (get_entry_unchecked t state) (\<lambda>e.
       Ok (word_of_nat (se_new_state e + 2 ^ 16 * se_nb_bits e + 2 ^ 24 * se_nb_additional_bits e
             + 2 ^ 32 * se_baseline e)))"

definition raw_entry_nb_additional_bits :: "u64 \<Rightarrow> nat" where
  "raw_entry_nb_additional_bits raw = unat (drop_bit 24 raw AND 0xFF)"

definition raw_entry_nb_bits :: "u64 \<Rightarrow> nat" where
  "raw_entry_nb_bits raw = unat (drop_bit 16 raw AND 0xFF)"

definition raw_entry_new_state :: "u64 \<Rightarrow> nat" where
  "raw_entry_new_state raw = unat (raw AND 0xFFFF)"

definition raw_entry_baseline :: "u64 \<Rightarrow> nat" where
  "raw_entry_baseline raw = unat (drop_bit 32 raw) mod 2 ^ 32"

subsection \<open>The states of a filled table\<close>

definition rank_in :: "nat list \<Rightarrow> nat \<Rightarrow> nat" where
  "rank_in ts u = count (mset (take u ts)) (ts ! u)"

definition state_of :: "int list \<Rightarrow> nat list \<Rightarrow> nat \<Rightarrow> nat" where
  "state_of counts ts u = nat \<bar>counts ! (ts ! u)\<bar> + rank_in ts u"

definition bits_of :: "nat \<Rightarrow> int list \<Rightarrow> nat list \<Rightarrow> nat \<Rightarrow> nat" where
  "bits_of L counts ts u = L - log2 (state_of counts ts u)"

definition base_of :: "nat \<Rightarrow> int list \<Rightarrow> nat list \<Rightarrow> nat \<Rightarrow> nat" where
  "base_of L counts ts u = state_of counts ts u * 2 ^ bits_of L counts ts u - 2 ^ L"

lemma count_take_Suc:
  "u < length ts \<Longrightarrow> count (mset (take (Suc u) ts)) s = count (mset (take u ts)) s + of_bool (ts ! u = s)"
  by (simp add: take_Suc_conv_app_nth)

lemma count_take_le: "count (mset (take u ts)) s \<le> count (mset (take v ts)) s" if "u \<le> v"
proof -
  have "take v ts = take u ts @ take (v - u) (drop u ts)" using that by (simp add: take_add [symmetric])
  then show ?thesis by (metis count_union le_add1 mset_append)
qed

lemma rank_less:
  assumes "u < n" and "n \<le> length ts"
  shows "rank_in ts u < count (mset (take n ts)) (ts ! u)"
proof -
  have "Suc (rank_in ts u) = count (mset (take (Suc u) ts)) (ts ! u)"
    using assms by (simp add: rank_in_def count_take_Suc)
  also have "\<dots> \<le> count (mset (take n ts)) (ts ! u)" using assms by (intro count_take_le) simp
  finally show ?thesis by simp
qed

text \<open>What holds of a table of symbols that is filled according to its counts.\<close>

definition filled :: "nat \<Rightarrow> int list \<Rightarrow> nat \<Rightarrow> nat list \<Rightarrow> bool" where
  "filled L counts n ts \<longleftrightarrow> counts_valid L counts n \<and> 2 ^ L \<le> length ts
     \<and> (\<forall>u < 2 ^ L. ts ! u < n)
     \<and> (\<forall>s < n. count (mset (take (2 ^ L) ts)) s = nat \<bar>counts ! s\<bar>)"

lemma filled_spread:
  "counts_valid L counts n \<Longrightarrow> 2 ^ L \<le> length ts0 \<Longrightarrow> filled L counts n (assign ts0 (fse_slots L counts n))"
proof -
  assume v: "counts_valid L counts n" and l: "2 ^ L \<le> length ts0"
  show "filled L counts n (assign ts0 (fse_slots L counts n))"
    using v l spread_counts(2) [OF v l] by (simp add: filled_def spread_counts(1) [OF v l])
qed

lemma state_bounds:
  assumes "filled L counts n ts" and "u < 2 ^ L"
  defines "c \<equiv> nat \<bar>counts ! (ts ! u)\<bar>"
  shows "0 < c" and "c \<le> state_of counts ts u" and "state_of counts ts u < 2 * c" and "c \<le> 2 ^ L"
    and "log2 (state_of counts ts u) \<le> L"
    and "2 ^ L \<le> state_of counts ts u * 2 ^ bits_of L counts ts u"
    and "base_of L counts ts u + 2 ^ bits_of L counts ts u \<le> 2 ^ L"
proof -
  let ?x = "state_of counts ts u" and ?nb = "bits_of L counts ts u"
  have s: "ts ! u < n" and len: "2 ^ L \<le> length ts" using assms by (auto simp: filled_def)
  have "rank_in ts u < c"
    using rank_less [OF assms(2) len] assms(1) s by (simp add: filled_def c_def)
  then show c: "0 < c" "c \<le> ?x" "?x < 2 * c" by (auto simp: state_of_def c_def)
  show cL: "c \<le> 2 ^ L" using count_le_size(1) assms(1) s by (auto simp: filled_def c_def)
  have x: "0 < ?x" using c by simp
  have "?x < 2 ^ Suc L" using c(3) cL by simp
  then have "log2 ?x < Suc L" using log2_less_iff [OF x] by simp
  then show lg: "log2 ?x \<le> L" by simp
  then have L: "log2 ?x + ?nb = L" by (simp add: bits_of_def)
  have "2 ^ L = (2 :: nat) ^ log2 ?x * 2 ^ ?nb" by (simp flip: power_add add: L)
  also have "\<dots> \<le> ?x * 2 ^ ?nb" using log2_le [OF x] by simp
  finally show lo: "2 ^ L \<le> ?x * 2 ^ ?nb" .
  have "(?x + 1) * 2 ^ ?nb \<le> 2 ^ Suc (log2 ?x) * 2 ^ ?nb"
    using log2_less [of ?x] by (intro mult_right_mono) auto
  also have "\<dots> = 2 * 2 ^ L" by (simp flip: power_add add: L)
  finally have "?x * 2 ^ ?nb + 2 ^ ?nb \<le> 2 * 2 ^ L" by simp
  then show "base_of L counts ts u + 2 ^ ?nb \<le> 2 ^ L" using lo by (simp add: base_of_def)
qed

lemma fse_state_value:
  assumes "filled L counts n ts" and "u < 2 ^ L"
  shows "fse_state L (state_of counts ts u) = Ok (bits_of L counts ts u, base_of L counts ts u)"
proof -
  note b = state_bounds [OF assms]
  have L: "L \<le> 9" using assms(1) by (simp add: filled_def counts_valid_def)
  have "(2 :: nat) ^ L \<le> 2 ^ 9" using L by (intro power_increasing) auto
  moreover have "base_of L counts ts u \<le> 2 ^ L" using b(7) by linarith
  ultimately have "base_of L counts ts u \<le> 2 ^ 9" by (rule le_trans [rotated])
  then have "base_of L counts ts u < 65536" by simp
  moreover have "state_of counts ts u \<noteq> 0" using b(1,2) by simp
  moreover have "bits_of L counts ts u mod 256 = bits_of L counts ts u" using L by (simp add: bits_of_def)
  ultimately show ?thesis
    using b(5,6) by (simp add: fse_state_def highbit32_def Let_def bits_of_def base_of_def)
qed

lemma fill_entries:
  assumes f: "filled L counts (Suc msi) ts" and sn: "length sn = 256" "\<forall>s \<le> msi. sn ! s = nat \<bar>counts ! s\<bar>"
    and es: "2 ^ L \<le> length es"
  obtains sn' es' where "loop_over (fill_entry mk L ts) [0..<2 ^ L] (sn, es) = Ok (sn', es')"
    and "length es' = length es"
    and "\<And>u. u < 2 ^ L \<Longrightarrow> es' ! u = mk (ts ! u) (bits_of L counts ts u) (base_of L counts ts u)"
    and "\<And>u. 2 ^ L \<le> u \<Longrightarrow> u < length es \<Longrightarrow> es' ! u = es ! u"
proof -
  have v: "Suc msi \<le> 256" "2 ^ L \<le> length ts" "\<forall>u < 2 ^ L. ts ! u \<le> msi"
    using f by (auto simp: filled_def counts_valid_def)
  let ?I = "\<lambda>k (sn', es'). length sn' = 256 \<and> length es' = length es
      \<and> (\<forall>s \<le> msi. sn' ! s = nat \<bar>counts ! s\<bar> + count (mset (take k ts)) s)
      \<and> (\<forall>u < k. es' ! u = mk (ts ! u) (bits_of L counts ts u) (base_of L counts ts u))
      \<and> (\<forall>u < length es. k \<le> u \<longrightarrow> es' ! u = es ! u)"
  have "\<exists>st. loop_over (fill_entry mk L ts) [0..<2 ^ L] (sn, es) = Ok st \<and> ?I (2 ^ L) st"
  proof (rule loop_upt_Ok [where I = ?I])
    fix k st
    assume k: "k < 2 ^ L" and I: "?I k st"
    obtain sn' es' where st: "st = (sn', es')" by (cases st)
    from I have I': "length sn' = 256" "length es' = length es"
      "\<forall>s \<le> msi. sn' ! s = nat \<bar>counts ! s\<bar> + count (mset (take k ts)) s"
      "\<forall>u < k. es' ! u = mk (ts ! u) (bits_of L counts ts u) (base_of L counts ts u)"
      "\<forall>u < length es. k \<le> u \<longrightarrow> es' ! u = es ! u" by (simp_all add: st)
    have s: "ts ! k \<le> msi" using v(3) k by simp
    have kl: "k < length ts" "k < length es'" using k v(2) es I'(2) by auto
    have sk: "sn' ! (ts ! k) = state_of counts ts k" using I'(3) s by (simp add: state_of_def rank_in_def)
    note b = state_bounds [OF f k]
    have L: "L \<le> 9" using f by (simp add: filled_def counts_valid_def)
    have "(2 :: nat) ^ L \<le> 2 ^ 9" using L by (intro power_increasing) auto
    then have "state_of counts ts k < 2 * 2 ^ 9" using b(3,4) by linarith
    then have "Suc (state_of counts ts k) < 65536" by simp
    then have m: "Suc (state_of counts ts k) mod 65536 = Suc (state_of counts ts k)" by (rule mod_less)
    let ?es = "es'[k := mk (ts ! k) (bits_of L counts ts k) (base_of L counts ts k)]"
    let ?sn = "sn'[ts ! k := Suc (state_of counts ts k)]"
    have "fill_entry mk L ts k st = Ok (?sn, ?es)"
      using kl I'(1) s v(1) by (simp add: st fill_entry_def idx_def upd_def sk fse_state_value [OF f k] m)
    moreover have "?I (Suc k) (?sn, ?es)"
      using I' kl s v(1) sk
      by (auto simp: nth_list_update less_Suc_eq count_take_Suc state_of_def rank_in_def)
    ultimately show "\<exists>s'. fill_entry mk L ts k st = Ok s' \<and> ?I (Suc k) s'" by blast
  qed (use sn in simp)
  then obtain sn' es' where "loop_over (fill_entry mk L ts) [0..<2 ^ L] (sn, es) = Ok (sn', es')" "?I (2 ^ L) (sn', es')"
    by auto
  with that [of sn' es'] show thesis by auto
qed

end
