(* ===== verification/FseBuild.thy ===== *)
theory FseBuild
  imports FseTable
begin

section \<open>What the FSE table builders build\<close>

text \<open>
  From valid counts every builder of \<open>src/src/entropy/fse.rs\<close> succeeds, the table of symbols
  is the same whatever the table held before, and each state reads a number of bits that
  keeps the next state inside the table. The fused builders agree with the unfused ones.
\<close>

definition fse_table :: "nat \<Rightarrow> int list \<Rightarrow> nat \<Rightarrow> nat list" where
  "fse_table L counts n = take (2 ^ L) (assign (replicate TABLESIZE_MAX 0) (fse_slots L counts n))"

lemma two_power_le_512: "L \<le> 9 \<Longrightarrow> (2 :: nat) ^ L \<le> 512"
  using power_increasing [of L 9 "2 :: nat"] by simp

lemma valid_size: "counts_valid L counts n \<Longrightarrow> (2 :: nat) ^ L \<le> 512"
  by (simp add: counts_valid_def two_power_le_512)

lemma fse_table_spread:
  assumes "counts_valid L counts n" and "2 ^ L \<le> length ts0"
  shows "take (2 ^ L) (assign ts0 (fse_slots L counts n)) = fse_table L counts n"
  unfolding fse_table_def
  by (rule spread_counts(3) [OF assms]) (use valid_size [OF assms(1)] in \<open>simp add: TABLESIZE_MAX_def\<close>)

lemma length_fse_table: "counts_valid L counts n \<Longrightarrow> length (fse_table L counts n) = 2 ^ L"
  using valid_size [of L counts n] by (simp add: fse_table_def TABLESIZE_MAX_def)

lemma filled_fse_table: "counts_valid L counts n \<Longrightarrow> filled L counts n (fse_table L counts n)"
proof -
  assume v: "counts_valid L counts n"
  have l: "2 ^ L \<le> length (replicate TABLESIZE_MAX (0 :: nat))"
    using valid_size [OF v] by (simp add: TABLESIZE_MAX_def)
  from filled_spread [OF v l] length_fse_table [OF v] show ?thesis
    by (simp add: filled_def fse_table_def)
qed

lemma fse_table_nth:
  assumes "counts_valid L counts n" and "2 ^ L \<le> length ts0" and "u < 2 ^ L"
  defines "ts \<equiv> assign ts0 (fse_slots L counts n)"
  shows "ts ! u = fse_table L counts n ! u"
    and "bits_of L counts ts u = bits_of L counts (fse_table L counts n) u"
    and "base_of L counts ts u = base_of L counts (fse_table L counts n) u"
proof -
  have t: "take (2 ^ L) ts = fse_table L counts n"
    unfolding ts_def by (rule fse_table_spread [OF assms(1,2)])
  show n: "ts ! u = fse_table L counts n ! u" using assms(3) by (simp flip: t)
  have "take u (fse_table L counts n) = take u ts" using assms(3) by (simp flip: t)
  then have "state_of counts ts u = state_of counts (fse_table L counts n) u"
    by (simp add: state_of_def rank_in_def n)
  then show "bits_of L counts ts u = bits_of L counts (fse_table L counts n) u"
    "base_of L counts ts u = base_of L counts (fse_table L counts n) u"
    by (simp_all add: bits_of_def base_of_def)
qed

definition entry_spec :: "(nat \<Rightarrow> nat \<Rightarrow> nat \<Rightarrow> 'e) \<Rightarrow> nat \<Rightarrow> int list \<Rightarrow> nat \<Rightarrow> nat \<Rightarrow> 'e" where
  "entry_spec mk L counts n u =
     (let ts = fse_table L counts n in mk (ts ! u) (bits_of L counts ts u) (base_of L counts ts u))"

lemma check_table_args_valid:
  "counts_valid L counts (Suc msi) \<Longrightarrow> check_table_args counts msi L = Ok ()"
  by (auto simp: counts_valid_def check_table_args_def SYMBOLVALUE_MAX_def TABLELOG_MAX_def)

text \<open>The shared core of the three builders.\<close>

lemma build_core:
  assumes v: "counts_valid L counts (Suc msi)" and ts0: "2 ^ L \<le> length ts0" and es: "2 ^ L \<le> length es"
  obtains ts sn sn' es' where "spread_symbols counts msi L ts0 = Ok (ts, sn)"
    and "loop_over (fill_entry mk L ts) [0..<2 ^ L] (sn, es) = Ok (sn', es')" and "length es' = length es"
    and "\<And>u. u < 2 ^ L \<Longrightarrow> es' ! u = entry_spec mk L counts (Suc msi) u"
    and "\<And>u. 2 ^ L \<le> u \<Longrightarrow> u < length es \<Longrightarrow> es' ! u = es ! u"
proof -
  let ?ts = "assign ts0 (fse_slots L counts (Suc msi))"
  from spread_symbols_spec [OF v ts0] obtain sn where sn: "spread_symbols counts msi L ts0 = Ok (?ts, sn)"
    "length sn = 256" "\<forall>s \<le> msi. sn ! s = nat \<bar>counts ! s\<bar>" by blast
  from fill_entries [OF filled_spread [OF v ts0] sn(2,3) es, of mk] obtain sn' es' where
    e: "loop_over (fill_entry mk L ?ts) [0..<2 ^ L] (sn, es) = Ok (sn', es')" "length es' = length es"
    "\<And>u. u < 2 ^ L \<Longrightarrow> es' ! u = mk (?ts ! u) (bits_of L counts ?ts u) (base_of L counts ?ts u)"
    "\<And>u. 2 ^ L \<le> u \<Longrightarrow> u < length es \<Longrightarrow> es' ! u = es ! u" by blast
  have "es' ! u = entry_spec mk L counts (Suc msi) u" if "u < 2 ^ L" for u
    using e(3) [OF that] fse_table_nth [OF v ts0 that] by (simp add: entry_spec_def Let_def)
  with that [OF sn(1) e(1,2)] e(4) show thesis by blast
qed

text \<open>A decoding table whose states never lead out of it.\<close>

definition dtable_ok :: "dtable \<Rightarrow> bool" where
  "dtable_ok dt \<longleftrightarrow> length (dt_entries dt) = TABLESIZE_MAX \<and> dt_table_log dt \<le> 9
     \<and> (\<forall>u < 2 ^ dt_table_log dt. de_new_state (dt_entries dt ! u) + 2 ^ de_nb_bits (dt_entries dt ! u)
            \<le> 2 ^ dt_table_log dt \<and> de_symbol (dt_entries dt ! u) < 256
          \<and> de_nb_bits (dt_entries dt ! u) \<le> 9)
     \<and> (dt_fast_mode dt \<longrightarrow> (\<forall>u < 2 ^ dt_table_log dt. 1 \<le> de_nb_bits (dt_entries dt ! u)))"

lemma entry_spec_decode:
  assumes v: "counts_valid L counts n" and u: "u < 2 ^ L"
  defines "e \<equiv> entry_spec mk_decode_entry L counts n u"
  shows "de_new_state e + 2 ^ de_nb_bits e \<le> 2 ^ L" and "de_symbol e < n" and "de_nb_bits e \<le> L"
  using state_bounds(7) [OF filled_fse_table [OF v] u] filled_fse_table [OF v] u
  by (simp_all add: e_def entry_spec_def Let_def mk_decode_entry_def filled_def bits_of_def)

lemma fast_mode_bits:
  assumes v: "counts_valid L counts (Suc msi)" and fm: "fast_mode_of counts msi L" and u: "u < 2 ^ L"
  shows "1 \<le> bits_of L counts (fse_table L counts (Suc msi)) u"
proof -
  let ?ts = "fse_table L counts (Suc msi)"
  note f = filled_fse_table [OF v] and b = state_bounds [OF filled_fse_table [OF v] u]
  have L: "4 \<le> L" using v by (simp add: counts_valid_def)
  have s0: "?ts ! u < Suc msi" using f u unfolding filled_def by blast
  then have s: "?ts ! u \<in> set [0..<Suc msi]" by (simp only: set_upt atLeastLessThan_iff le0 simp_thms)
  then have c: "counts ! (?ts ! u) = -1 \<or> counts ! (?ts ! u) < 2 ^ (L - 1)"
    using fm by (auto simp: fast_mode_of_def list_all_iff)
  have p: "(2 :: nat) * 2 ^ (L - 1) = 2 ^ L" using L by (cases L) auto
  have "nat \<bar>counts ! (?ts ! u)\<bar> \<le> 2 ^ (L - 1)"
  proof (cases "counts ! (?ts ! u) = -1")
    case False
    have "-1 \<le> counts ! (?ts ! u)" using v s0 unfolding counts_valid_def by blast
    then have "0 \<le> counts ! (?ts ! u)" using False by simp
    moreover have "counts ! (?ts ! u) < 2 ^ (L - 1)" using c False by simp
    ultimately show ?thesis by (simp add: nat_le_iff)
  qed simp
  then have "state_of counts ?ts u < 2 ^ L" using b(3) p by linarith
  then have "log2 (state_of counts ?ts u) < L"
    using log2_less_iff [of "state_of counts ?ts u" L] b(1,2) by simp
  then show ?thesis by (simp add: bits_of_def)
qed

lemma build_dtable_spec:
  assumes v: "counts_valid L counts (Suc msi)" and dt: "length (dt_entries dt) = TABLESIZE_MAX"
  obtains dt' where "build_dtable dt counts msi L = Ok dt'" and "dtable_ok dt'" and "dt_table_log dt' = L"
    and "\<And>u. u < 2 ^ L \<Longrightarrow> dt_entries dt' ! u = entry_spec mk_decode_entry L counts (Suc msi) u"
proof -
  have l: "2 ^ L \<le> length (dt_entries dt)" "2 ^ L \<le> length (map de_symbol (dt_entries dt))"
    using valid_size [OF v] dt by (simp_all add: TABLESIZE_MAX_def)
  obtain ts sn sn' es' where
    b: "spread_symbols counts msi L (map de_symbol (dt_entries dt)) = Ok (ts, sn)"
    "loop_over (fill_entry mk_decode_entry L ts) [0..<2 ^ L] (sn, dt_entries dt) = Ok (sn', es')"
    "length es' = length (dt_entries dt)"
    "\<And>u. u < 2 ^ L \<Longrightarrow> es' ! u = entry_spec mk_decode_entry L counts (Suc msi) u"
    "\<And>u. 2 ^ L \<le> u \<Longrightarrow> u < length (dt_entries dt) \<Longrightarrow> es' ! u = dt_entries dt ! u"
    by (rule build_core [OF v l(2,1), of mk_decode_entry]) (rule that)
  let ?dt = "\<lparr>dt_table_log = L, dt_fast_mode = fast_mode_of counts msi L, dt_entries = es'\<rparr>"
  have L: "L \<le> 9" "Suc msi \<le> 256" using v by (auto simp: counts_valid_def)
  have r: "build_dtable dt counts msi L = Ok ?dt"
    by (simp only: build_dtable_def check_table_args_valid [OF v] b(1,2) and_then.simps prod.case)
  have "dtable_ok ?dt"
    unfolding dtable_ok_def dtable.simps
  proof (intro conjI allI impI)
    fix u :: nat
    assume u: "u < 2 ^ L"
    note e = entry_spec_decode [OF v u]
    show "de_new_state (es' ! u) + 2 ^ de_nb_bits (es' ! u) \<le> 2 ^ L" using e(1) by (simp add: b(4) u)
    show "de_symbol (es' ! u) < 256" using e(2) L(2) by (simp add: b(4) u)
    show "de_nb_bits (es' ! u) \<le> 9" using e(3) L(1) by (simp add: b(4) u)
    show "1 \<le> de_nb_bits (es' ! u)" if "fast_mode_of counts msi L"
      using fast_mode_bits [OF v that u] by (simp add: b(4) u entry_spec_def Let_def mk_decode_entry_def)
  qed (use b(3) dt L in auto)
  from that [OF r this] b(4) show thesis by simp
qed

lemma build_seq_spec:
  assumes v: "counts_valid L counts (Suc msi)" and out: "length (st_entries out) = TABLESIZE_MAX"
  obtains t where "and_then (check_table_args counts msi L) (\<lambda>_.
      and_then (spread_symbols counts msi L (replicate TABLESIZE_MAX 0)) (\<lambda>(ts, sn).
      and_then (loop_over (fill_entry mk L ts) [0..<2 ^ L] (sn, st_entries out)) (\<lambda>(sn, es).
        Ok \<lparr>st_table_log = L, st_entries = es\<rparr>))) = Ok t"
    and "st_table_log t = L" and "length (st_entries t) = TABLESIZE_MAX"
    and "\<And>u. u < 2 ^ L \<Longrightarrow> st_entries t ! u = entry_spec mk L counts (Suc msi) u"
    and "\<And>u. 2 ^ L \<le> u \<Longrightarrow> u < TABLESIZE_MAX \<Longrightarrow> st_entries t ! u = st_entries out ! u"
proof -
  have l: "2 ^ L \<le> length (st_entries out)" "2 ^ L \<le> length (replicate TABLESIZE_MAX (0 :: nat))"
    using valid_size [OF v] out by (simp_all add: TABLESIZE_MAX_def)
  from build_core [OF v l(2,1), of mk] obtain ts sn sn' es' where
    b: "spread_symbols counts msi L (replicate TABLESIZE_MAX 0) = Ok (ts, sn)"
    "loop_over (fill_entry mk L ts) [0..<2 ^ L] (sn, st_entries out) = Ok (sn', es')"
    "length es' = length (st_entries out)"
    "\<And>u. u < 2 ^ L \<Longrightarrow> es' ! u = entry_spec mk L counts (Suc msi) u"
    "\<And>u. 2 ^ L \<le> u \<Longrightarrow> u < length (st_entries out) \<Longrightarrow> es' ! u = st_entries out ! u" by blast
  show thesis
    by (rule that [of "\<lparr>st_table_log = L, st_entries = es'\<rparr>"])
      (use b out in \<open>simp_all add: check_table_args_valid [OF v]\<close>)
qed

lemma convert_entries:
  assumes "n \<le> length (dt_entries dt)" and "n \<le> length es"
  obtains es' where "loop_over (convert_entry mk dt) [0..<n] es = Ok es'" and "length es' = length es"
    and "\<And>u. u < n \<Longrightarrow> es' ! u = (let e = dt_entries dt ! u in mk (de_symbol e) (de_nb_bits e) (de_new_state e))"
    and "\<And>u. n \<le> u \<Longrightarrow> u < length es \<Longrightarrow> es' ! u = es ! u"
proof -
  let ?e = "\<lambda>u. let e = dt_entries dt ! u in mk (de_symbol e) (de_nb_bits e) (de_new_state e)"
  let ?I = "\<lambda>k es'. length es' = length es \<and> (\<forall>u < k. es' ! u = ?e u)
      \<and> (\<forall>u < length es. k \<le> u \<longrightarrow> es' ! u = es ! u)"
  have "\<exists>es'. loop_over (convert_entry mk dt) [0..<n] es = Ok es' \<and> ?I n es'"
  proof (rule loop_upt_Ok [where I = ?I])
    fix k es'
    assume "k < n" "?I k es'"
    then show "\<exists>s'. convert_entry mk dt k es' = Ok s' \<and> ?I (Suc k) s'"
      using assms by (auto simp: convert_entry_def idx_def upd_def nth_list_update less_Suc_eq Let_def)
  qed simp
  with that show thesis by blast
qed

lemma table_entries_size_pos: "0 < L \<Longrightarrow> table_entries_size L = 2 ^ L"
  by (simp add: table_entries_size_def)

text \<open>The fused builder gives the table of \<open>build_dtable\<close> with the baselines embedded.\<close>

lemma direct_is_from:
  assumes v: "counts_valid L counts (Suc msi)" and out: "length (st_entries out) = TABLESIZE_MAX"
    and dt: "length (dt_entries dt) = TABLESIZE_MAX"
  shows "build_sequence_dtable_direct out counts msi L baselines extra =
      and_then (build_dtable dt counts msi L) (\<lambda>dt. build_sequence_dtable_from dt baselines extra out)"
    and "build_offset_sequence_dtable_direct out counts msi L =
      and_then (build_dtable dt counts msi L) (\<lambda>dt. build_offset_sequence_dtable_from dt out)"
proof -
  from build_dtable_spec [OF v dt] obtain dt' where d: "build_dtable dt counts msi L = Ok dt'" "dtable_ok dt'"
    "dt_table_log dt' = L" "\<And>u. u < 2 ^ L \<Longrightarrow> dt_entries dt' ! u = entry_spec mk_decode_entry L counts (Suc msi) u"
    by blast
  have L: "table_entries_size L = 2 ^ L" using v by (simp add: counts_valid_def table_entries_size_def)
  have same: "and_then (check_table_args counts msi L) (\<lambda>_.
      and_then (spread_symbols counts msi L (replicate TABLESIZE_MAX 0)) (\<lambda>(ts, sn).
      and_then (loop_over (fill_entry mk L ts) [0..<2 ^ L] (sn, st_entries out)) (\<lambda>(sn, es).
        Ok \<lparr>st_table_log = L, st_entries = es\<rparr>)))
    = and_then (loop_over (convert_entry mk dt') [0..<table_entries_size (dt_table_log dt')] (st_entries out))
        (\<lambda>es. Ok \<lparr>st_table_log = dt_table_log dt', st_entries = es\<rparr>)" for mk
  proof -
    from build_seq_spec [OF v out, of mk] obtain t where t: "and_then (check_table_args counts msi L) (\<lambda>_.
      and_then (spread_symbols counts msi L (replicate TABLESIZE_MAX 0)) (\<lambda>(ts, sn).
      and_then (loop_over (fill_entry mk L ts) [0..<2 ^ L] (sn, st_entries out)) (\<lambda>(sn, es).
        Ok \<lparr>st_table_log = L, st_entries = es\<rparr>))) = Ok t" "st_table_log t = L" "length (st_entries t) = TABLESIZE_MAX"
      "\<And>u. u < 2 ^ L \<Longrightarrow> st_entries t ! u = entry_spec mk L counts (Suc msi) u"
      "\<And>u. 2 ^ L \<le> u \<Longrightarrow> u < TABLESIZE_MAX \<Longrightarrow> st_entries t ! u = st_entries out ! u" by blast
    have "2 ^ L \<le> length (dt_entries dt')" "2 ^ L \<le> length (st_entries out)"
      using d(2) out valid_size [OF v] by (simp_all add: dtable_ok_def TABLESIZE_MAX_def)
    from convert_entries [OF this, of mk] obtain es' where
      c: "loop_over (convert_entry mk dt') [0..<2 ^ L] (st_entries out) = Ok es'" "length es' = length (st_entries out)"
      "\<And>u. u < 2 ^ L \<Longrightarrow> es' ! u = (let e = dt_entries dt' ! u in mk (de_symbol e) (de_nb_bits e) (de_new_state e))"
      "\<And>u. 2 ^ L \<le> u \<Longrightarrow> u < length (st_entries out) \<Longrightarrow> es' ! u = st_entries out ! u" by blast
    have "es' = st_entries t"
    proof (rule nth_equalityI)
      fix u
      assume u: "u < length es'"
      show "es' ! u = st_entries t ! u"
      proof (cases "u < 2 ^ L")
        case True
        then show ?thesis
          by (simp add: c(3) t(4) d(4) entry_spec_def Let_def mk_decode_entry_def)
      next
        case False
        then show ?thesis using u c(2,4) t(5) out by simp
      qed
    qed (use c(2) t(3) out in simp)
    then have "\<lparr>st_table_log = L, st_entries = es'\<rparr> = t" using t(2) by (cases t) simp
    then show ?thesis unfolding t(1) by (simp only: d(3) L c(1) and_then.simps)
  qed
  show "build_sequence_dtable_direct out counts msi L baselines extra =
      and_then (build_dtable dt counts msi L) (\<lambda>dt. build_sequence_dtable_from dt baselines extra out)"
    using same by (simp only: build_sequence_dtable_direct_def build_sequence_dtable_from_def d(1) and_then.simps)
  show "build_offset_sequence_dtable_direct out counts msi L =
      and_then (build_dtable dt counts msi L) (\<lambda>dt. build_offset_sequence_dtable_from dt out)"
    using same by (simp only: build_offset_sequence_dtable_direct_def build_offset_sequence_dtable_from_def d(1) and_then.simps)
qed

subsection \<open>Properties\<close>

text \<open>C20. From valid counts the decoding table is built without a fault, whatever the table held before;
  every symbol below the alphabet size owns as many states as its count says, a state's bits keep
  the next state inside the table, and fast mode is set only when every state reads a bit.\<close>

theorem fse_table_built:
  assumes "counts_valid L counts (Suc msi)" and "length (dt_entries dt) = TABLESIZE_MAX"
  shows "\<exists>dt'. build_dtable dt counts msi L = Ok dt' \<and> dtable_ok dt' \<and> dt_table_log dt' = L
    \<and> (\<forall>s \<le> msi. count_list (map de_symbol (take (2 ^ L) (dt_entries dt'))) s = nat \<bar>counts ! s\<bar>)"
proof -
  from build_dtable_spec [OF assms] obtain dt' where
    b: "build_dtable dt counts msi L = Ok dt'" "dtable_ok dt'" "dt_table_log dt' = L"
    "\<And>u. u < 2 ^ L \<Longrightarrow> dt_entries dt' ! u = entry_spec mk_decode_entry L counts (Suc msi) u" by blast
  have l: "2 ^ L \<le> length (dt_entries dt')"
    using b(2) valid_size [OF assms(1)] by (simp add: dtable_ok_def TABLESIZE_MAX_def)
  have "map de_symbol (take (2 ^ L) (dt_entries dt')) = fse_table L counts (Suc msi)"
    using l by (intro nth_equalityI)
      (simp_all add: length_fse_table [OF assms(1)] b(4) entry_spec_def Let_def mk_decode_entry_def)
  moreover have "count_list (fse_table L counts (Suc msi)) s = nat \<bar>counts ! s\<bar>" if "s \<le> msi" for s
    using filled_fse_table [OF assms(1)] length_fse_table [OF assms(1)] that
    by (simp add: filled_def count_mset)
  ultimately show ?thesis using b(1-3) by auto
qed

definition sample_counts :: "int list" where
  "sample_counts = [8, 5, 2, -1]"

lemma sample_counts_valid: "counts_valid 4 sample_counts 4"
proof -
  have "\<forall>s < (4 :: nat). s = 0 \<or> s = 1 \<or> s = 2 \<or> s = 3" by auto
  then show ?thesis by (auto simp: counts_valid_def sample_counts_def numeral_eq_Suc)
qed

theorem fse_table_built_witness:
  "\<exists>dt'. build_dtable dtable_default sample_counts 3 4 = Ok dt' \<and> dtable_ok dt'"
  using fse_table_built [of 4 sample_counts 3 dtable_default] sample_counts_valid
  by (auto simp: dtable_default_def)

text \<open>C25. The fused builder of the sequence tables, which fills the baselines and the extra bits in the
  same pass, builds what the two-pass builder does: the plain table, then its conversion.\<close>

theorem fused_builder_agrees:
  assumes "counts_valid L counts (Suc msi)" and "length (st_entries out) = TABLESIZE_MAX"
    and "length (dt_entries dt) = TABLESIZE_MAX"
  shows "build_sequence_dtable_direct out counts msi L baselines extra =
      and_then (build_dtable dt counts msi L) (\<lambda>dt. build_sequence_dtable_from dt baselines extra out)
    \<and> build_offset_sequence_dtable_direct out counts msi L =
      and_then (build_dtable dt counts msi L) (\<lambda>dt. build_offset_sequence_dtable_from dt out)"
  using direct_is_from [OF assms] by blast

theorem fused_builder_agrees_witness:
  "build_offset_sequence_dtable_direct seq_dtable_default sample_counts 3 4 =
     and_then (build_dtable dtable_default sample_counts 3 4)
       (\<lambda>dt. build_offset_sequence_dtable_from dt seq_dtable_default)"
  using fused_builder_agrees [of 4 sample_counts 3 seq_dtable_default dtable_default] sample_counts_valid
  by (auto simp: dtable_default_def seq_dtable_default_def)

end
