(* ===== verification/FseCount.thy ===== *)
theory FseCount
  imports FseBuild
begin

section \<open>Reading the normalized counts (entropy/fse.rs)\<close>

text \<open>
  \<open>read_ncount\<close> of \<open>src/src/entropy/fse.rs\<close>, the parser of an FSE table description. The
  code's \<open>i32\<close> counters are integers, the 32-bit window a natural number; casts, masks and
  shifts are written as the code has them, and a shift by 32 or more is the fault it is in
  a checked build. The two loops that skip runs of zeros and the main loop are recursive
  functions. The halving loop would never end on a negative \<open>remaining\<close>; the model makes
  this a fault, and the proof shows that it does not occur.
\<close>

definition as_i16 :: "int \<Rightarrow> int" where
  "as_i16 x = (x + 32768) mod 65536 - 32768"

definition as_u32 :: "int \<Rightarrow> nat" where
  "as_u32 x = nat (x mod 2 ^ 32)"

definition as_usize :: "int \<Rightarrow> usize" where
  "as_usize x = nat (x mod 2 ^ 64)"

definition load_u32 :: "bytes \<Rightarrow> usize \<Rightarrow> nat result" where
  "load_u32 src ip = and_then (idx_range src ip (ip + 4)) (\<lambda>bs. Ok (le_nat bs))"

definition shr32 :: "nat \<Rightarrow> int \<Rightarrow> nat result" where
  "shr32 w n = (if 0 \<le> n \<and> n < 32 then Ok (w div 2 ^ nat n) else Fault)"

definition can_reload_u32 :: "usize \<Rightarrow> usize \<Rightarrow> int \<Rightarrow> bool" where
  "can_reload_u32 src_len ip bit_count =
     (let advance = as_usize (bit_count div 8) in
      case checked_add ip advance of None \<Rightarrow> False
      | Some next_ip \<Rightarrow> (case checked_add next_ip 4 of None \<Rightarrow> False | Some end_pos \<Rightarrow> end_pos \<le> src_len))"

text \<open>\<open>while (bit_stream & 0xFFFF) == 0xFFFF\<close>\<close>

lemma and_self_pos: "(bs :: nat) AND 65535 = 65535 \<Longrightarrow> 0 < bs"
  by (cases "bs = 0") auto

function skip24 :: "bytes \<Rightarrow> nat \<Rightarrow> usize \<Rightarrow> nat \<Rightarrow> int \<Rightarrow> (nat \<times> usize \<times> nat \<times> int) result" where
  "skip24 src n0 ip bs bc =
     (if bs AND 65535 = 65535 then
        if ip + 6 \<le> length src then
          and_then (load_u32 src (ip + 2)) (\<lambda>w.
          and_then (shr32 w bc) (\<lambda>bs. skip24 src (n0 + 24) (ip + 2) bs bc))
        else skip24 src (n0 + 24) ip (bs div 65536) (bc + 16)
      else Ok (n0, ip, bs, bc))"
  by pat_completeness auto

termination
  by (relation "measures [\<lambda>(src, n0, ip, bs, bc). length src - ip, \<lambda>(src, n0, ip, bs, bc). bs]")
    (auto dest: and_self_pos)

declare skip24.simps [simp del]

text \<open>\<open>while (bit_stream & 3) == 3\<close>\<close>

lemma and_3_pos: "(bs :: nat) AND 3 = 3 \<Longrightarrow> 0 < bs"
  by (cases "bs = 0") auto

function skip3 :: "nat \<Rightarrow> nat \<Rightarrow> int \<Rightarrow> nat \<times> nat \<times> int" where
  "skip3 n0 bs bc = (if bs AND 3 = 3 then skip3 (n0 + 3) (bs div 4) (bc + 2) else (n0, bs, bc))"
  by pat_completeness auto

termination
  by (relation "measure (\<lambda>(n0, bs, bc). bs)") (auto dest: and_3_pos)

declare skip3.simps [simp del]

text \<open>\<open>while remaining < threshold\<close>\<close>

function shrink :: "int \<Rightarrow> int \<Rightarrow> int \<Rightarrow> (int \<times> int) result" where
  "shrink remaining nb_bits threshold =
     (if remaining < threshold then
        if threshold \<le> 0 then Fault else shrink remaining (nb_bits - 1) (threshold div 2)
      else Ok (nb_bits, threshold))"
  by pat_completeness auto

termination
  by (relation "measure (\<lambda>(r, n, t). nat t)") auto

declare shrink.simps [simp del]

record ncount_state =
  nc_counts :: "int list"
  nc_bit_stream :: nat
  nc_nb_bits :: int
  nc_bit_count :: int
  nc_remaining :: int
  nc_threshold :: int
  nc_charnum :: nat
  nc_previous0 :: bool
  nc_ip :: usize

text \<open>The block under \<open>if previous0\<close>.\<close>

definition read_zero_run :: "bytes \<Rightarrow> nat \<Rightarrow> ncount_state \<Rightarrow> ncount_state result" where
  "read_zero_run src msi st =
     (if \<not> nc_previous0 st then Ok st else
      and_then (skip24 src (nc_charnum st) (nc_ip st) (nc_bit_stream st) (nc_bit_count st)) (\<lambda>(n0, ip, bs, bc).
      case skip3 n0 bs bc of (n0, bs, bc) \<Rightarrow>
      let n0 = n0 + (bs AND 3); bc = bc + 2 in
      if msi < n0 then Err MaxSymbolValueTooSmall else
      and_then (loop_over (\<lambda>i cs. upd cs i 0) [nc_charnum st..<n0] (nc_counts st)) (\<lambda>counts.
      and_then (if can_reload_u32 (length src) ip bc then
                  let ip = ip + as_usize (bc div 8); bc = bc mod 8 in
                  and_then (load_u32 src ip) (\<lambda>w. and_then (shr32 w bc) (\<lambda>bs. Ok (ip, bs, bc)))
                else Ok (ip, bs div 4, bc)) (\<lambda>(ip, bs, bc).
        Ok (st\<lparr>nc_counts := counts, nc_charnum := max (nc_charnum st) n0, nc_ip := ip,
               nc_bit_stream := bs, nc_bit_count := bc\<rparr>)))))"

text \<open>The value read and the bits it takes.\<close>

definition read_count_value :: "ncount_state \<Rightarrow> (int \<times> int) result" where
  "read_count_value st =
     (let max_v = (2 * nc_threshold st - 1) - nc_remaining st;
          bs = nc_bit_stream st
      in if as_u32 (nc_threshold st) = 0 then Fault
         else if (bs AND (as_u32 (nc_threshold st) - 1)) < as_u32 max_v
         then Ok (int (bs AND (as_u32 (nc_threshold st) - 1)), nc_nb_bits st - 1)
         else let count = int (bs AND as_u32 (2 * nc_threshold st - 1))
              in Ok (if nc_threshold st \<le> count then count - max_v else count, nc_nb_bits st))"

text \<open>One iteration of the main loop.\<close>

definition ncount_step :: "bytes \<Rightarrow> nat \<Rightarrow> ncount_state \<Rightarrow> ncount_state result" where
  "ncount_step src msi st =
     and_then (read_zero_run src msi st) (\<lambda>st.
     and_then (read_count_value st) (\<lambda>(count, used).
     let bc = nc_bit_count st + used;
         count = count - 1;
         remaining = nc_remaining st - (if count < 0 then - count else count)
     in and_then (upd (nc_counts st) (nc_charnum st) (as_i16 count)) (\<lambda>counts.
        and_then (shrink remaining (nc_nb_bits st) (nc_threshold st)) (\<lambda>(nb_bits, threshold).
        let (ip, bc) = (if can_reload_u32 (length src) (nc_ip st) bc
                        then (nc_ip st + as_usize (bc div 8), bc mod 8)
                        else (length src - 4, bc - 8 * int (length src - 4 - nc_ip st)))
        in and_then (load_u32 src ip) (\<lambda>w.
           and_then (shr32 w (bc mod 32)) (\<lambda>bs.
             Ok (st\<lparr>nc_counts := counts, nc_bit_stream := bs, nc_nb_bits := nb_bits, nc_bit_count := bc,
                    nc_remaining := remaining, nc_threshold := threshold, nc_charnum := nc_charnum st + 1,
                    nc_previous0 := (count = 0), nc_ip := ip\<rparr>)))))))"

lemma ncount_step_charnum: "ncount_step src msi st = Ok st' \<Longrightarrow> nc_charnum st < nc_charnum st'"
proof -
  have z: "read_zero_run src msi st = Ok st1 \<Longrightarrow> nc_charnum st \<le> nc_charnum st1" for st1
    by (cases "nc_previous0 st"; auto simp only: read_zero_run_def Let_def split_beta run_simps
        if_True if_False simp_thms order_refl; simp)
  assume "ncount_step src msi st = Ok st'"
  then show ?thesis
    by (auto simp only: ncount_step_def Let_def split_beta run_simps; simp add: z less_Suc_eq_le)
qed

function ncount_loop :: "bytes \<Rightarrow> nat \<Rightarrow> ncount_state \<Rightarrow> ncount_state result" where
  "ncount_loop src msi st =
     (if 1 < nc_remaining st \<and> nc_charnum st \<le> msi
      then and_then (ncount_step src msi st) (\<lambda>st'. ncount_loop src msi st')
      else Ok st)"
  by pat_completeness auto

termination
  by (relation "measure (\<lambda>(src, msi, st). Suc msi - nc_charnum st)") (auto dest: ncount_step_charnum)

declare ncount_loop.simps [simp del]

text \<open>The result: the counters, the largest symbol, the table log, and the bytes consumed.\<close>

type_synonym ncount_result = "int list \<times> nat \<times> nat \<times> usize"

definition read_ncount_window :: "int list \<Rightarrow> nat \<Rightarrow> bytes \<Rightarrow> nat \<Rightarrow> ncount_result result" where
  "read_ncount_window counts msi src max_table_log =
     and_then (copy_into counts 0 (replicate (msi + 1) 0)) (\<lambda>counts.
     and_then (load_u32 src 0) (\<lambda>bs.
     let nb_bits = int (bs AND 15) + int MIN_TABLELOG in
     if int max_table_log < nb_bits then Err TableLogTooLarge else
     and_then (ncount_loop src msi
         \<lparr>nc_counts = counts, nc_bit_stream = bs div 16, nc_nb_bits = nb_bits + 1, nc_bit_count = 4,
          nc_remaining = 2 ^ nat nb_bits + 1, nc_threshold = 2 ^ nat nb_bits, nc_charnum = 0,
          nc_previous0 = False, nc_ip = 0\<rparr>) (\<lambda>st.
       if nc_remaining st \<noteq> 1 \<or> 32 < nc_bit_count st then Err (Corruption ''invalid FSE ncount'')
       else if nc_charnum st = 0 then Fault
       else Ok (nc_counts st, nc_charnum st - 1, as_u32 nb_bits,
                nc_ip st + as_usize ((nc_bit_count st + 7) div 8)))))"

definition read_ncount :: "int list \<Rightarrow> nat \<Rightarrow> bytes \<Rightarrow> nat \<Rightarrow> ncount_result result" where
  "read_ncount counts max_symbol_value src max_table_log =
     (if SYMBOLVALUE_MAX < max_symbol_value \<or> length counts \<le> max_symbol_value then Err MaxSymbolValueTooLarge
      else if TABLELOG_MAX < max_table_log then Err TableLogTooLarge
      else if length src < 4 then
        and_then (read_ncount_window counts max_symbol_value (src @ replicate (4 - length src) 0) max_table_log)
          (\<lambda>(counts, msv, log, count_size).
             if length src < count_size then Err (Corruption ''truncated FSE ncount'')
             else Ok (counts, msv, log, count_size))
      else read_ncount_window counts max_symbol_value src max_table_log)"

end
