(* ===== verification/FseCountProps.thy ===== *)
theory FseCountProps
  imports FseCount
begin

section \<open>Reading the counts is safe and yields valid counts\<close>

text \<open>
  \<open>read_ncount\<close> of \<open>src/src/entropy/fse.rs\<close> on arbitrary input: no load leaves the input, no shift
  is too wide, the halving loop ends, and what it accepts are counts from which the table
  builders succeed. The proof follows the loop: a bound for the bits consumed, the
  remaining probability between the threshold and its double, and the sum of the counts.
\<close>

lemma load_u32_meets [wp]:
  assumes "ip + 4 \<le> length src"
  shows "\<exists>w. load_u32 src ip = Ok w \<and> w < 2 ^ 32"
proof -
  let ?b = "take 4 (drop ip src)"
  have "le_nat ?b < 256 ^ length ?b" by (rule le_nat_less)
  moreover have "length ?b = 4" using assms by simp
  ultimately have "le_nat ?b < 2 ^ 32" by simp
  then show ?thesis using assms by (simp add: load_u32_def)
qed

lemma div_power_less: "(w :: nat) < m \<Longrightarrow> w div 2 ^ k < m"
  by (rule le_less_trans [OF div_le_dividend])

lemma shr32_Ok: "0 \<le> n \<Longrightarrow> n < 32 \<Longrightarrow> w < 2 ^ 32 \<Longrightarrow> \<exists>v. shr32 w n = Ok v \<and> v < 2 ^ 32"
  by (simp add: shr32_def div_power_less)

lemma as_usize_small: "0 \<le> n \<Longrightarrow> n < 2 ^ 64 \<Longrightarrow> as_usize n = nat n"
  by (simp add: as_usize_def)

lemma as_u32_small: "0 \<le> n \<Longrightarrow> n < 2 ^ 32 \<Longrightarrow> as_u32 n = nat n"
  by (simp add: as_u32_def)

lemma as_i16_small: "-1 \<le> n \<Longrightarrow> n < 32768 \<Longrightarrow> as_i16 n = n"
  by (simp add: as_i16_def)

lemma can_reload_iff:
  assumes "0 \<le> bc" and "bc < 2 ^ 40" and "len \<le> usize_max"
  shows "can_reload_u32 len ip bc \<longleftrightarrow> ip + nat (bc div 8) + 4 \<le> len"
proof -
  have "as_usize (bc div 8) = nat (bc div 8)" using assms(1,2) by (intro as_usize_small) auto
  then show ?thesis using assms(3) by (auto simp: can_reload_u32_def checked_add_def Let_def)
qed

subsection \<open>Runs of zeros\<close>

lemma and_ones: "(bs :: nat) AND (2 ^ n - 1) = bs mod 2 ^ n"
  using take_bit_eq_mask [of n bs] by (simp add: take_bit_eq_mod mask_eq_exp_minus_1)

lemma and_ones_le: "(bs :: nat) AND (2 ^ n - 1) = 2 ^ n - 1 \<Longrightarrow> 2 ^ n - 1 \<le> bs"
  unfolding and_ones by (metis mod_less_eq_dividend)

lemma skip24_meets:
  "ip + 4 \<le> length src \<Longrightarrow> (ip + 6 \<le> length src \<longrightarrow> bc \<le> 7) \<Longrightarrow> 0 \<le> bc \<Longrightarrow> bs < 2 ^ k \<Longrightarrow> k \<le> 32 \<Longrightarrow>
   meets (skip24 src n0 ip bs bc) (\<lambda>(n0', ip', bs', bc').
     n0 \<le> n0' \<and> ip' + 4 \<le> length src \<and> bs' < 2 ^ 32 \<and> 0 \<le> bc' \<and> bc' \<le> max (bc + int k) 39)"
proof (induction src n0 ip bs bc arbitrary: k rule: skip24.induct)
  case (1 src n0 ip bs bc)
  show ?case
  proof (cases "bs AND 65535 = 65535")
    case stop: False
    have "(2 :: nat) ^ k \<le> 2 ^ 32" using "1.prems"(5) by (rule power_increasing) simp
    then have "bs < 2 ^ 32" using "1.prems"(4) by simp
    then show ?thesis
      using "1.prems" stop by (subst skip24.simps) simp
  next
    case go: True
    show ?thesis
    proof (cases "ip + 6 \<le> length src")
      case True
      then have bc: "bc \<le> 7" using "1.prems"(2) by simp
      obtain w where w: "load_u32 src (ip + 2) = Ok w" "w < 2 ^ 32" using load_u32_meets [of "ip + 2" src] True by auto
      obtain v where v: "shr32 w bc = Ok v" "v < 2 ^ 32" using shr32_Ok [OF "1.prems"(3) _ w(2)] bc by auto
      have "meets (skip24 src (n0 + 24) (ip + 2) v bc) (\<lambda>(n0', ip', bs', bc').
         n0 + 24 \<le> n0' \<and> ip' + 4 \<le> length src \<and> bs' < 2 ^ 32 \<and> 0 \<le> bc' \<and> bc' \<le> max (bc + int 32) 39)"
        using "1.IH"(1) [OF go True w(1) v(1), of 32] True bc "1.prems"(3) v(2) by simp
      then show ?thesis
        by (subst skip24.simps) (use go True w(1) v(1) bc in \<open>auto elim!: meets_mono\<close>)
    next
      case False
      have "65535 \<le> bs" using and_ones_le [of bs 16] go by simp
      have "16 \<le> k"
      proof (rule ccontr)
        assume "\<not> 16 \<le> k"
        then have "(2 :: nat) ^ k \<le> 2 ^ 15" by (intro power_increasing) auto
        then show False using "1.prems"(4) \<open>65535 \<le> bs\<close> by simp
      qed
      then have k: "(2 :: nat) ^ k = 2 ^ (k - 16) * 65536"
        using power_add [of "2 :: nat" "k - 16" 16] by simp
      have "bs div 65536 < 2 ^ (k - 16)"
        using "1.prems"(4) by (intro less_mult_imp_div_less) (simp add: k)
      then have "meets (skip24 src (n0 + 24) ip (bs div 65536) (bc + 16)) (\<lambda>(n0', ip', bs', bc').
         n0 + 24 \<le> n0' \<and> ip' + 4 \<le> length src \<and> bs' < 2 ^ 32 \<and> 0 \<le> bc' \<and> bc' \<le> max (bc + 16 + int (k - 16)) 39)"
        using "1.IH"(2) [OF go False, of "k - 16"] "1.prems" False by simp
      then show ?thesis
        by (subst skip24.simps) (use go False \<open>16 \<le> k\<close> in \<open>auto elim!: meets_mono\<close>)
    qed
  qed
qed

lemma skip3_bounds:
  "bs < 2 ^ k \<Longrightarrow> skip3 n0 bs bc = (n0', bs', bc') \<Longrightarrow>
   n0 \<le> n0' \<and> bs' \<le> bs \<and> bc \<le> bc' \<and> bc' \<le> bc + int k"
proof (induction n0 bs bc arbitrary: k rule: skip3.induct)
  case (1 n0 bs bc)
  show ?case
  proof (cases "bs AND 3 = 3")
    case True
    then have bs: "3 \<le> bs" using and_ones_le [of bs 2] by simp
    have "2 \<le> k"
    proof (rule ccontr)
      assume "\<not> 2 \<le> k"
      then have "(2 :: nat) ^ k \<le> 2 ^ 1" by (intro power_increasing) auto
      then show False using "1.prems"(1) bs by simp
    qed
    then obtain j where j: "k = j + 2" using le_iff_add by (metis add.commute)
    have "bs div 4 < 2 ^ j" using "1.prems"(1) by (intro less_mult_imp_div_less) (simp add: j)
    moreover have "skip3 (n0 + 3) (bs div 4) (bc + 2) = (n0', bs', bc')"
      using "1.prems"(2) True by (subst (asm) skip3.simps) simp
    ultimately have "n0 + 3 \<le> n0' \<and> bs' \<le> bs div 4 \<and> bc + 2 \<le> bc' \<and> bc' \<le> bc + 2 + int j"
      using "1.IH" [OF True] by blast
    moreover have "bs div 4 \<le> bs" by simp
    ultimately show ?thesis using j by linarith
  next
    case False
    then have "skip3 n0 bs bc = (n0, bs, bc)" by (subst skip3.simps) simp
    then show ?thesis using "1.prems" by simp
  qed
qed


lemma write_zeros:
  assumes "c \<le> n" and "n \<le> length counts"
  obtains cs where "loop_over (\<lambda>i cs. upd cs i (0 :: int)) [c..<n] counts = Ok cs" and "length cs = length counts"
    and "\<And>s. s < c \<Longrightarrow> cs ! s = counts ! s" and "\<And>s. c \<le> s \<Longrightarrow> s < n \<Longrightarrow> cs ! s = 0"
proof -
  let ?I = "\<lambda>ds cs. length cs = length counts \<and> (\<forall>s < c. cs ! s = counts ! s) \<and> (\<forall>s \<in> set ds. cs ! s = 0)"
  have "\<exists>cs. loop_over (\<lambda>i cs. upd cs i (0 :: int)) [c..<n] counts = Ok cs \<and> ?I [c..<n] cs"
  proof (rule loop_over_Ok [where I = ?I])
    fix ds x rs cs
    assume e: "[c..<n] = ds @ x # rs" and I: "?I ds cs"
    have "x \<in> set [c..<n]" by (simp only: e) simp
    then have x: "c \<le> x" "x < length cs" using I assms(2) by auto
    then show "\<exists>s'. upd cs x 0 = Ok s' \<and> ?I (ds @ [x]) s'"
      using I by (auto simp: upd_def nth_list_update)
  qed simp
  then obtain cs where "loop_over (\<lambda>i cs. upd cs i (0 :: int)) [c..<n] counts = Ok cs" "?I [c..<n] cs" by blast
  with that [of cs] show thesis by simp
qed

subsection \<open>The loop invariant\<close>

definition total_count :: "int list \<Rightarrow> nat \<Rightarrow> nat" where
  "total_count counts n = (\<Sum>s\<leftarrow>[0..<n]. nat \<bar>counts ! s\<bar>)"

lemma total_count_zeros:
  assumes "c \<le> n" and "\<And>s. s < c \<Longrightarrow> cs ! s = counts ! s" and "\<And>s. c \<le> s \<Longrightarrow> s < n \<Longrightarrow> cs ! s = 0"
  shows "total_count cs n = total_count counts c"
proof -
  have "[0..<n] = [0..<c] @ [c..<n]" using assms(1) upt_add_eq_append [of 0 c "n - c"] by simp
  moreover have "map (\<lambda>s. nat \<bar>cs ! s\<bar>) [0..<c] = map (\<lambda>s. nat \<bar>counts ! s\<bar>) [0..<c]" using assms(2) by simp
  moreover have "map (\<lambda>s. nat \<bar>cs ! s\<bar>) [c..<n] = map (\<lambda>s. 0) [c..<n]" using assms(3) by simp
  ultimately show ?thesis by (simp only: total_count_def map_append sum_list_append) simp
qed

lemma total_count_upd:
  "c < length counts \<Longrightarrow> total_count (counts[c := v]) (Suc c) = total_count counts c + nat \<bar>v\<bar>"
proof -
  assume "c < length counts"
  moreover have "map (\<lambda>s. nat \<bar>counts[c := v] ! s\<bar>) [0..<c] = map (\<lambda>s. nat \<bar>counts ! s\<bar>) [0..<c]" by simp
  ultimately show ?thesis by (simp add: total_count_def del: map_eq_conv)
qed

text \<open>What holds between the parts of an iteration; \<open>b\<close> bounds the bits consumed.\<close>

definition ncount_mid :: "bytes \<Rightarrow> nat \<Rightarrow> nat \<Rightarrow> int \<Rightarrow> ncount_state \<Rightarrow> bool" where
  "ncount_mid src L msi b st \<longleftrightarrow>
     1 \<le> nc_nb_bits st \<and> nc_nb_bits st \<le> int L + 1 \<and> nc_threshold st = 2 ^ nat (nc_nb_bits st - 1)
     \<and> nc_threshold st \<le> nc_remaining st \<and> nc_remaining st < 2 * nc_threshold st
     \<and> msi < length (nc_counts st) \<and> nc_charnum st \<le> Suc msi
     \<and> (\<forall>s < nc_charnum st. -1 \<le> nc_counts st ! s)
     \<and> int (total_count (nc_counts st) (nc_charnum st)) + nc_remaining st = 2 ^ L + 1
     \<and> nc_ip st + 4 \<le> length src \<and> nc_bit_stream st < 2 ^ 32
     \<and> 0 \<le> nc_bit_count st \<and> nc_bit_count st \<le> 100 * int (nc_charnum st) + b"

definition ncount_inv :: "bytes \<Rightarrow> nat \<Rightarrow> nat \<Rightarrow> ncount_state \<Rightarrow> bool" where
  "ncount_inv src L msi st \<longleftrightarrow>
     ncount_mid src L msi 7 st \<and> (nc_bit_count st \<le> 7 \<or> nc_ip st + 4 = length src)"

lemma read_zero_run_meets:
  assumes inv: "ncount_inv src L msi st" and c: "nc_charnum st \<le> msi" and msi: "msi \<le> 255"
    and len: "length src \<le> usize_max"
  shows "meets (read_zero_run src msi st) (\<lambda>st1. ncount_mid src L msi 82 st1 \<and> nc_charnum st1 \<le> msi
    \<and> nc_remaining st1 = nc_remaining st)"
proof (cases "nc_previous0 st")
  case False
  then show ?thesis
    using inv c by (simp add: read_zero_run_def ncount_inv_def ncount_mid_def)
next
  case True
  note m = inv [unfolded ncount_inv_def ncount_mid_def]
  have ip: "nc_ip st + 4 \<le> length src" "nc_ip st + 6 \<le> length src \<longrightarrow> nc_bit_count st \<le> 7"
    "0 \<le> nc_bit_count st" "nc_bit_stream st < 2 ^ 32" using m by auto
  from skip24_meets [OF ip(1-4), of "nc_charnum st"]
  have 1: "meets (skip24 src (nc_charnum st) (nc_ip st) (nc_bit_stream st) (nc_bit_count st)) (\<lambda>(n0', ip', bs', bc').
     nc_charnum st \<le> n0' \<and> ip' + 4 \<le> length src \<and> bs' < 2 ^ 32 \<and> 0 \<le> bc' \<and> bc' \<le> max (nc_bit_count st + int 32) 39)"
    by simp
  show ?thesis
  proof (cases "skip24 src (nc_charnum st) (nc_ip st) (nc_bit_stream st) (nc_bit_count st)")
    case (Ok r)
    obtain n1 ip1 bs1 bc1 where r: "r = (n1, ip1, bs1, bc1)" by (cases r)
    with 1 Ok have b1: "nc_charnum st \<le> n1" "ip1 + 4 \<le> length src" "bs1 < 2 ^ 32" "0 \<le> bc1"
      "bc1 \<le> max (nc_bit_count st + 32) 39" by simp_all
    obtain n2 bs2 bc2 where r2: "skip3 n1 bs1 bc1 = (n2, bs2, bc2)" by (cases "skip3 n1 bs1 bc1")
    from skip3_bounds [OF b1(3) r2] have b2: "n1 \<le> n2" "bs2 \<le> bs1" "bc1 \<le> bc2" "bc2 \<le> bc1 + 32" by auto
    define n3 where "n3 = n2 + (bs2 AND 3)"
    define bc3 where "bc3 = bc2 + 2"
    have b3: "nc_charnum st \<le> n3" "0 \<le> bc3" "bc3 < 2 ^ 40" "bc3 \<le> 100 * int (nc_charnum st) + 82"
      using b1 b2 m c msi by (auto simp: n3_def bc3_def)
    show ?thesis
    proof (cases "msi < n3")
      case True
      then show ?thesis
        using \<open>nc_previous0 st\<close> by (simp add: read_zero_run_def Ok r r2 Let_def n3_def)
    next
      case False
      have "n3 \<le> length (nc_counts st)" using False m by simp
      from write_zeros [OF b3(1) this] obtain cs where
        cs: "loop_over (\<lambda>i cs. upd cs i 0) [nc_charnum st..<n3] (nc_counts st) = Ok cs" "length cs = length (nc_counts st)"
        "\<And>s. s < nc_charnum st \<Longrightarrow> cs ! s = nc_counts st ! s"
        "\<And>s. nc_charnum st \<le> s \<Longrightarrow> s < n3 \<Longrightarrow> cs ! s = 0" by blast
      have ge: "\<forall>s < n3. -1 \<le> cs ! s" using cs(3,4) m by (metis not_le neg_le_0_iff_le zero_le_one)
      have reload: "\<exists>ip bs bc. (if can_reload_u32 (length src) ip1 bc3 then
            let ip = ip1 + as_usize (bc3 div 8); bc = bc3 mod 8 in
            and_then (load_u32 src ip) (\<lambda>w. and_then (shr32 w bc) (\<lambda>bs. Ok (ip, bs, bc)))
          else Ok (ip1, bs2 div 4, bc3)) = Ok (ip, bs, bc) \<and> ip + 4 \<le> length src \<and> bs < 2 ^ 32 \<and> 0 \<le> bc \<and> bc \<le> bc3"
      proof (cases "can_reload_u32 (length src) ip1 bc3")
        case True
        have a: "as_usize (bc3 div 8) = nat (bc3 div 8)" using b3 by (intro as_usize_small) auto
        have i: "ip1 + nat (bc3 div 8) + 4 \<le> length src" using True can_reload_iff [OF b3(2,3) len] by blast
        from load_u32_meets [OF this] obtain w where w: "load_u32 src (ip1 + nat (bc3 div 8)) = Ok w" "w < 2 ^ 32" by blast
        from shr32_Ok [OF _ _ w(2), of "bc3 mod 8"] obtain v where v: "shr32 w (bc3 mod 8) = Ok v" "v < 2 ^ 32"
          using pos_mod_bound [of 8 bc3] pos_mod_sign [of 8 bc3] by fastforce
        have "bc3 mod 8 \<le> bc3" using b3(2) by (rule zmod_le_nonneg_dividend)
        then show ?thesis using True i w v a by (simp add: Let_def)
      next
        case False
        have "bs2 div 4 \<le> bs2" by simp
        then have "bs2 div 4 < 2 ^ 32" using b2(2) b1(3) by linarith
        then show ?thesis using False b1(2) b3(2) by simp
      qed
      then obtain ip bs bc where rl: "(if can_reload_u32 (length src) ip1 bc3 then
            let ip = ip1 + as_usize (bc3 div 8); bc = bc3 mod 8 in
            and_then (load_u32 src ip) (\<lambda>w. and_then (shr32 w bc) (\<lambda>bs. Ok (ip, bs, bc)))
          else Ok (ip1, bs2 div 4, bc3)) = Ok (ip, bs, bc)"
        and b4: "ip + 4 \<le> length src" "bs < 2 ^ 32" "0 \<le> bc" "bc \<le> bc3" by blast
      have run: "read_zero_run src msi st = Ok (st\<lparr>nc_counts := cs, nc_charnum := max (nc_charnum st) n3,
          nc_ip := ip, nc_bit_stream := bs, nc_bit_count := bc\<rparr>)"
        unfolding read_zero_run_def Ok r and_then.simps prod.case r2
        using \<open>nc_previous0 st\<close> False cs(1) rl by (simp only: Let_def n3_def [symmetric] bc3_def [symmetric]
          not_True_eq_False if_False and_then.simps prod.case)
      have "total_count cs n3 = total_count (nc_counts st) (nc_charnum st)"
        using cs b3(1) by (intro total_count_zeros)
      then show ?thesis
        unfolding run meets.simps ncount_mid_def
        using m b3 b4 cs(2) ge False by (simp add: max_absorb2)
    qed
  next
    case (Err e)
    then show ?thesis using True by (simp add: read_zero_run_def)
  next
    case Fault
    then show ?thesis using 1 by simp
  qed
qed

subsection \<open>One iteration\<close>

lemma read_count_value_spec:
  assumes mid: "ncount_mid src L msi b st" and rem: "1 < nc_remaining st" and L: "L \<le> 9"
  obtains count used where "read_count_value st = Ok (count, used)" and "0 \<le> count" and "count \<le> nc_remaining st"
    and "0 \<le> used" and "used \<le> 10"
proof -
  note m = mid [unfolded ncount_mid_def]
  define k where "k = nat (nc_nb_bits st - 1)"
  define M where "M = 2 * nc_threshold st - 1 - nc_remaining st"
  define low where "low = nc_bit_stream st mod 2 ^ k"
  define high where "high = nc_bit_stream st mod 2 ^ (k + 1)"
  have k: "k \<le> 9" unfolding k_def using m L by linarith
  have T: "nc_threshold st = 2 ^ k" using m by (simp add: k_def)
  have "(2 :: int) ^ k \<le> 2 ^ 9" using k by (intro power_increasing) auto
  then have T512: "nc_threshold st \<le> 512" by (simp add: T)
  have M: "0 \<le> M" "M < nc_threshold st" "M \<le> 2 ^ 31" using m T512 by (auto simp: M_def)
  have uT: "as_u32 (nc_threshold st) = 2 ^ k"
    using T512 by (subst as_u32_small) (simp_all add: T nat_power_eq)
  have "0 \<le> 2 * nc_threshold st - 1" "2 * nc_threshold st - 1 < 2 ^ 32" using T512 M by auto
  then have "as_u32 (2 * nc_threshold st - 1) = nat (2 * nc_threshold st - 1)" by (rule as_u32_small)
  moreover have "2 * nc_threshold st - 1 = int (2 ^ (k + 1) - 1)" by (simp add: T of_nat_diff)
  ultimately have uTT: "as_u32 (2 * nc_threshold st - 1) = 2 ^ (k + 1) - 1" by (simp only: nat_int)
  have uM: "as_u32 M = nat M" using M by (intro as_u32_small) auto
  have lowT: "int low < nc_threshold st" using T by (simp add: low_def)
  have high2: "int high < 2 * nc_threshold st"
  proof -
    have "high < 2 ^ (k + 1)" by (simp add: high_def)
    then have "int high < int (2 ^ (k + 1))" by (simp only: of_nat_less_iff)
    then show ?thesis by (simp add: T)
  qed
  have nb: "1 \<le> nc_nb_bits st" "nc_nb_bits st \<le> 10" using m L by auto
  have run: "read_count_value st = (if low < nat M then Ok (int low, nc_nb_bits st - 1)
      else Ok (if nc_threshold st \<le> int high then int high - M else int high, nc_nb_bits st))"
    unfolding read_count_value_def Let_def M_def [symmetric] uT uTT uM and_ones low_def [symmetric] high_def [symmetric]
    by simp
  show thesis
  proof (cases "low < nat M")
    case True
    then have "int low \<le> nc_remaining st" using lowT m by linarith
    then show thesis using True nb by (intro that [of "int low" "nc_nb_bits st - 1"]) (auto simp: run)
  next
    case False
    let ?c = "if nc_threshold st \<le> int high then int high - M else int high"
    have "nc_threshold st \<le> nc_remaining st" using m by blast
    then have "0 \<le> ?c \<and> ?c \<le> nc_remaining st"
      using high2 M(1,2) M_def by (cases "nc_threshold st \<le> int high") auto
    then show thesis using False nb by (intro that [of ?c "nc_nb_bits st"]) (auto simp: run)
  qed
qed

lemma shrink_spec:
  "1 \<le> r \<Longrightarrow> 1 \<le> n \<Longrightarrow> t = 2 ^ nat (n - 1) \<Longrightarrow> r < 2 * t \<Longrightarrow>
   \<exists>n' t'. shrink r n t = Ok (n', t') \<and> 1 \<le> n' \<and> n' \<le> n \<and> t' = 2 ^ nat (n' - 1) \<and> t' \<le> r \<and> r < 2 * t'"
proof (induction r n t rule: shrink.induct)
  case (1 r n t)
  show ?case
  proof (cases "r < t")
    case False
    then show ?thesis using "1.prems" by (subst shrink.simps) simp
  next
    case True
    have t0: "\<not> t \<le> 0" using "1.prems"(3) by simp
    have n: "2 \<le> n"
    proof (rule ccontr)
      assume "\<not> 2 \<le> n"
      then have "n = 1" using "1.prems"(2) by simp
      then show False using True "1.prems"(1,3) by simp
    qed
    then have "nat (n - 1) = Suc (nat (n - 2))" by simp
    then have t: "t = 2 * 2 ^ nat (n - 2)" using "1.prems"(3) by simp
    then have "t div 2 = 2 ^ nat (n - 1 - 1)" by simp
    from "1.IH" [OF True t0 "1.prems"(1) _ this] n True t obtain n' t' where
      "shrink r (n - 1) (t div 2) = Ok (n', t')" "1 \<le> n'" "n' \<le> n - 1" "t' = 2 ^ nat (n' - 1)" "t' \<le> r" "r < 2 * t'"
      by auto
    then show ?thesis using True t0 by (subst shrink.simps) auto
  qed
qed

lemma ncount_step_meets:
  assumes inv: "ncount_inv src L msi st" and rem: "1 < nc_remaining st" and c: "nc_charnum st \<le> msi"
    and msi: "msi \<le> 255" and L: "L \<le> 9" and len: "length src \<le> usize_max"
  shows "meets (ncount_step src msi st) (ncount_inv src L msi)"
proof (cases "read_zero_run src msi st")
  case Fault
  then show ?thesis using read_zero_run_meets [OF inv c msi len] by simp
next
  case (Err e)
  then show ?thesis by (simp add: ncount_step_def)
next
  case (Ok s1)
  from read_zero_run_meets [OF inv c msi len] Ok have
    mid: "ncount_mid src L msi 82 s1" and c1: "nc_charnum s1 \<le> msi" and r1: "nc_remaining s1 = nc_remaining st" by simp_all
  note m = mid [unfolded ncount_mid_def]
  have rem1: "1 < nc_remaining s1" using rem r1 by simp
  from read_count_value_spec [OF mid rem1 L] obtain count used where
    v: "read_count_value s1 = Ok (count, used)" "0 \<le> count" "count \<le> nc_remaining s1" "0 \<le> used" "used \<le> 10" .
  define x where "x = count - 1"
  define r where "r = nc_remaining s1 - (if x < 0 then - x else x)"
  have absx: "(if x < 0 then - x else x) = \<bar>x\<bar>" by simp
  have r: "1 \<le> r" "r + \<bar>x\<bar> = nc_remaining s1" using v(2,3) rem1 by (auto simp: r_def x_def)
  have T: "nc_remaining s1 < 2 * nc_threshold s1" using m by simp
  then have "r < 2 * nc_threshold s1" using r by linarith
  with shrink_spec [OF r(1), of "nc_nb_bits s1" "nc_threshold s1"] m obtain nb T' where
    sh: "shrink r (nc_nb_bits s1) (nc_threshold s1) = Ok (nb, T')" "1 \<le> nb" "nb \<le> nc_nb_bits s1"
    "T' = 2 ^ nat (nb - 1)" "T' \<le> r" "r < 2 * T'" by blast
  have "nc_remaining s1 \<le> 2 ^ L + 1" using m by linarith
  moreover have "(2 :: int) ^ L \<le> 2 ^ 9" using L by (intro power_increasing) auto
  ultimately have x: "-1 \<le> x" "x < 32768" using v(2,3) by (auto simp: x_def)
  define bc where "bc = nc_bit_count s1 + used"
  have bc: "0 \<le> bc" "bc < 2 ^ 40" "bc \<le> 100 * int (nc_charnum s1 + 1) + 7"
    using m v(4,5) c1 msi by (auto simp: bc_def)
  define ip' where "ip' = (if can_reload_u32 (length src) (nc_ip s1) bc then nc_ip s1 + as_usize (bc div 8) else length src - 4)"
  define bc' where "bc' = (if can_reload_u32 (length src) (nc_ip s1) bc then bc mod 8
    else bc - 8 * int (length src - 4 - nc_ip s1))"
  have au: "as_usize (bc div 8) = nat (bc div 8)" using bc by (intro as_usize_small) auto
  have pos: "ip' + 4 \<le> length src" "0 \<le> bc'" "bc' \<le> bc" "bc' \<le> 7 \<or> ip' + 4 = length src"
  proof -
    have ip: "nc_ip s1 + 4 \<le> length src" using m by simp
    show "ip' + 4 \<le> length src" "bc' \<le> 7 \<or> ip' + 4 = length src"
      using can_reload_iff [OF bc(1,2) len, of "nc_ip s1"] ip pos_mod_bound [of 8 bc] by (auto simp: ip'_def bc'_def au)
    show "bc' \<le> bc" using bc(1) zmod_le_nonneg_dividend [of bc 8] by (simp add: bc'_def)
    show "0 \<le> bc'"
    proof (cases "can_reload_u32 (length src) (nc_ip s1) bc")
      case False
      then have "length src < nc_ip s1 + nat (bc div 8) + 4" using can_reload_iff [OF bc(1,2) len] by simp
      then have "int (length src - 4 - nc_ip s1) < bc div 8" using bc(1) ip by linarith
      then show ?thesis using False by (simp add: bc'_def)
    qed (simp add: bc'_def)
  qed
  from load_u32_meets [OF pos(1)] obtain w where w: "load_u32 src ip' = Ok w" "w < 2 ^ 32" by blast
  have "0 \<le> bc' mod 32" "bc' mod 32 < 32" by simp_all
  from shr32_Ok [OF this w(2)] obtain bs where bs: "shr32 w (bc' mod 32) = Ok bs" "bs < 2 ^ 32" by blast
  let ?counts = "(nc_counts s1)[nc_charnum s1 := x]"
  have lc: "nc_charnum s1 < length (nc_counts s1)" using m c1 by linarith
  have step: "ncount_step src msi st = Ok (s1\<lparr>nc_counts := ?counts, nc_bit_stream := bs, nc_nb_bits := nb,
      nc_bit_count := bc', nc_remaining := r, nc_threshold := T', nc_charnum := nc_charnum s1 + 1,
      nc_previous0 := (x = 0), nc_ip := ip'\<rparr>)"
  proof -
    have "(if can_reload_u32 (length src) (nc_ip s1) bc then (nc_ip s1 + as_usize (bc div 8), bc mod 8)
        else (length src - 4, bc - 8 * int (length src - 4 - nc_ip s1))) = (ip', bc')"
      by (simp add: ip'_def bc'_def)
    moreover have "upd (nc_counts s1) (nc_charnum s1) (as_i16 x) = Ok ?counts" using lc as_i16_small [OF x] by simp
    ultimately show ?thesis
      unfolding ncount_step_def Ok and_then.simps v(1) prod.case Let_def x_def [symmetric] bc_def [symmetric] r_def [symmetric]
      by (simp only: sh(1) w(1) bs(1) and_then.simps prod.case)
  qed
  have "total_count ?counts (nc_charnum s1 + 1) = total_count (nc_counts s1) (nc_charnum s1) + nat \<bar>x\<bar>"
    using total_count_upd [OF lc] by simp
  then have "int (total_count ?counts (nc_charnum s1 + 1)) + r = 2 ^ L + 1" using m r by linarith
  moreover have "\<forall>s < nc_charnum s1 + 1. -1 \<le> ?counts ! s" using m x(1) lc by (simp add: nth_list_update less_Suc_eq)
  ultimately show ?thesis
    unfolding step meets.simps ncount_inv_def ncount_mid_def using m c1 sh pos bs bc by simp
qed

subsection \<open>The whole\<close>

lemma ncount_loop_meets:
  "ncount_inv src L msi st \<Longrightarrow> msi \<le> 255 \<Longrightarrow> L \<le> 9 \<Longrightarrow> length src \<le> usize_max \<Longrightarrow>
   meets (ncount_loop src msi st) (\<lambda>st'. ncount_inv src L msi st' \<and> (nc_charnum st < nc_charnum st'
     \<or> \<not> (1 < nc_remaining st \<and> nc_charnum st \<le> msi)))"
proof (induction src msi st rule: ncount_loop.induct)
  case (1 src msi st)
  show ?case
  proof (cases "1 < nc_remaining st \<and> nc_charnum st \<le> msi")
    case False
    have "ncount_loop src msi st = Ok st" by (subst ncount_loop.simps) (simp only: False if_False)
    then show ?thesis using "1.prems" False by simp
  next
    case True
    have step: "meets (ncount_step src msi st) (ncount_inv src L msi)"
      using ncount_step_meets [OF "1.prems"(1)] True "1.prems"(2-4) by blast
    show ?thesis
    proof (cases "ncount_step src msi st")
      case (Ok s1)
      have "meets (ncount_loop src msi s1) (\<lambda>st'. ncount_inv src L msi st' \<and> (nc_charnum s1 < nc_charnum st'
          \<or> \<not> (1 < nc_remaining s1 \<and> nc_charnum s1 \<le> msi)))"
        using "1.IH" [OF True Ok] step Ok "1.prems"(2-4) by simp
      moreover have "nc_charnum s1 \<le> nc_charnum s'" if "ncount_loop src msi s1 = Ok s'" for s'
        using that by (cases "1 < nc_remaining s1 \<and> nc_charnum s1 \<le> msi")
          (use calculation in \<open>auto simp: ncount_loop.simps [of src msi s1]\<close>)
      ultimately show ?thesis
        using True Ok ncount_step_charnum [OF Ok]
        by (subst ncount_loop.simps) (fastforce simp: meets_iff)
    qed (use True step in \<open>subst ncount_loop.simps; simp\<close>)+
  qed
qed

text \<open>What a result of the reader promises.\<close>

definition ncount_ok :: "nat \<Rightarrow> nat \<Rightarrow> usize \<Rightarrow> ncount_result \<Rightarrow> bool" where
  "ncount_ok msv mtl len r = (case r of (counts, msv', log, used) \<Rightarrow>
     counts_valid log counts (Suc msv') \<and> msv' \<le> msv \<and> log \<le> mtl \<and> used \<le> len)"

lemma read_ncount_window_meets:
  assumes src: "4 \<le> length src" "length src \<le> usize_max" and msi: "msi \<le> 255" "msi < length counts" and mtl: "mtl \<le> 9"
  shows "meets (read_ncount_window counts msi src mtl) (ncount_ok msi mtl (length src))"
proof -
  define zeroed where "zeroed = replicate (msi + 1) 0 @ drop (msi + 1) counts"
  have z: "copy_into counts 0 (replicate (msi + 1) 0) = Ok zeroed" "length zeroed = length counts"
    using msi by (auto simp: zeroed_def copy_into_def)
  from load_u32_meets [of 0 src] src(1) obtain bs where bs: "load_u32 src 0 = Ok bs" "bs < 2 ^ 32" by auto
  define L where "L = (bs AND 15) + MIN_TABLELOG"
  have L5: "5 \<le> L" by (simp add: L_def MIN_TABLELOG_def)
  have nb: "int (bs AND 15) + int MIN_TABLELOG = int L" by (simp add: L_def)
  define s0 where "s0 = \<lparr>nc_counts = zeroed, nc_bit_stream = bs div 16, nc_nb_bits = int L + 1, nc_bit_count = 4,
      nc_remaining = 2 ^ L + 1, nc_threshold = 2 ^ L, nc_charnum = 0, nc_previous0 = False, nc_ip = 0\<rparr>"
  show ?thesis
  proof (cases "mtl < L")
    case True
    then have "int mtl < int L" by simp
    then show ?thesis unfolding read_ncount_window_def z bs and_then.simps Let_def nb by simp
  next
    case False
    then have L9: "L \<le> 9" using mtl by simp
    have "(2 :: int) ^ 5 \<le> 2 ^ L" using L5 by (intro power_increasing) auto
    then have p: "(32 :: int) \<le> 2 ^ L" by simp
    have "bs div 16 < 2 ^ 32" using div_power_less [OF bs(2), of 4] by simp
    then have "ncount_inv src L msi s0"
      using z(2) msi src(1) L5 p by (simp add: ncount_inv_def ncount_mid_def s0_def total_count_def)
    from ncount_loop_meets [OF this msi(1) L9 src(2)] p have
      loop: "meets (ncount_loop src msi s0) (\<lambda>st'. ncount_inv src L msi st' \<and> 0 < nc_charnum st')"
      by (auto simp: s0_def elim!: meets_mono)
    have run: "read_ncount_window counts msi src mtl = and_then (ncount_loop src msi s0) (\<lambda>st.
       if nc_remaining st \<noteq> 1 \<or> 32 < nc_bit_count st then Err (Corruption ''invalid FSE ncount'')
       else if nc_charnum st = 0 then Fault
       else Ok (nc_counts st, nc_charnum st - 1, as_u32 (int L), nc_ip st + as_usize ((nc_bit_count st + 7) div 8)))"
      unfolding read_ncount_window_def z bs and_then.simps Let_def nb using False by (simp add: s0_def)
    have lg: "as_u32 (int L) = L" using L9 by (subst as_u32_small) auto
    have fin: "ncount_ok msi mtl (length src)
        (nc_counts st, nc_charnum st - 1, L, nc_ip st + as_usize ((nc_bit_count st + 7) div 8))"
      if inv: "ncount_inv src L msi st" and c: "0 < nc_charnum st" and e: "nc_remaining st = 1" "nc_bit_count st \<le> 32" for st
    proof -
      note m = inv [unfolded ncount_inv_def ncount_mid_def]
      have "as_usize ((nc_bit_count st + 7) div 8) = nat ((nc_bit_count st + 7) div 8)"
        using m e by (intro as_usize_small) auto
      moreover have "nc_ip st + nat ((nc_bit_count st + 7) div 8) \<le> length src"
        using m e by auto
      moreover have "int (total_count (nc_counts st) (nc_charnum st)) = 2 ^ L" using m e(1) by simp
      then have "total_count (nc_counts st) (nc_charnum st) = 2 ^ L" by (metis of_nat_eq_iff of_nat_numeral of_nat_power)
      moreover have "nc_charnum st \<le> Suc msi" "msi < length (nc_counts st)" "\<forall>s < nc_charnum st. -1 \<le> nc_counts st ! s"
        using m by auto
      ultimately have "counts_valid L (nc_counts st) (nc_charnum st)" "nc_ip st + as_usize ((nc_bit_count st + 7) div 8) \<le> length src"
        using c L5 L9 msi(1) by (simp_all add: counts_valid_def total_count_def)
      moreover have "Suc (nc_charnum st - 1) = nc_charnum st" "nc_charnum st - 1 \<le> msi" using c m by auto
      ultimately show ?thesis
        using False by (simp add: ncount_ok_def)
    qed
    show ?thesis
      unfolding run lg meets_and_then by (rule meets_mono [OF loop]) (use fin in auto)
  qed
qed

lemma read_ncount_meets:
  assumes "length src \<le> usize_max"
  shows "meets (read_ncount counts msv src mtl) (ncount_ok msv mtl (length src))"
proof (cases "SYMBOLVALUE_MAX < msv \<or> length counts \<le> msv \<or> TABLELOG_MAX < mtl")
  case True
  then show ?thesis by (auto simp: read_ncount_def)
next
  case False
  then have b: "msv \<le> 255" "msv < length counts" "mtl \<le> 9"
    by (auto simp: SYMBOLVALUE_MAX_def TABLELOG_MAX_def)
  show ?thesis
  proof (cases "length src < 4")
    case True
    let ?src = "src @ replicate (4 - length src) 0"
    have "length ?src = 4" using True by simp
    then have "4 \<le> length ?src" "length ?src \<le> usize_max" by (simp_all only: usize_max_def) simp_all
    from read_ncount_window_meets [OF this b] have
      "meets (read_ncount_window counts msv ?src mtl) (ncount_ok msv mtl (length ?src))" .
    then show ?thesis
      using True False b(2)
      by (simp add: read_ncount_def) (auto simp: ncount_ok_def elim!: meets_mono)
  next
    case long: False
    then show ?thesis
      using read_ncount_window_meets [OF _ assms b] False by (simp add: read_ncount_def)
  qed
qed

subsection \<open>Properties\<close>

text \<open>C23. The reader of an FSE table description is safe on every input: it never loads outside the input,
  shifts too far or loops for ever, and what it accepts is within the limits asked for, uses no more
  bytes than there are, and is a valid distribution: at least -1 everywhere, summing to the table
  size, from which every table builder succeeds.\<close>

theorem read_ncount_safe:
  assumes "length src \<le> usize_max"
  shows "read_ncount counts msv src mtl \<noteq> Fault
    \<and> (\<forall>counts' msv' log used. read_ncount counts msv src mtl = Ok (counts', msv', log, used) \<longrightarrow>
         counts_valid log counts' (Suc msv') \<and> msv' \<le> msv \<and> log \<le> mtl \<and> used \<le> length src)"
  using read_ncount_meets [OF assms, of counts msv mtl] by (auto simp: meets_iff ncount_ok_def)

theorem read_ncount_safe_witness:
  "read_ncount (replicate 36 0) 35 [16, 255, 255, 255, 255, 255, 255] 9 \<noteq> Fault"
  by (rule conjunct1 [OF read_ncount_safe]) (simp add: usize_max_def)

end
