(* ===== verification/BitStream.thy ===== *)
theory BitStream
  imports Mem
begin

section \<open>The entropy bitstream (entropy/bitstream.rs)\<close>

text \<open>
  \<open>BitCStream\<close> and \<open>BitDStream\<close> of \<open>src/src/entropy/bitstream.rs\<close>. The accumulators are 64-bit
  words; a pointer is a position in the slice it came from, and a load or store outside the
  slice, a position below its start, and a failing \<open>debug_assert!\<close> are faults. The writer's state
  stands for a number and a count of bits, the reader's for the number its bytes spell and
  the count of bits not yet read; each operation acts on these as on a stack of bits.
\<close>

datatype dstream_status = Unfinished | EndOfBuffer | Completed | Overflow

definition CONTAINER_BYTES :: usize where
  "CONTAINER_BYTES = 8"

definition CONTAINER_BITS :: nat where
  "CONTAINER_BITS = 64"

definition BIT_MASK :: "u64 list" where
  "BIT_MASK = map mask [0..<32]"

subsection \<open>The writer\<close>

record cstream =
  c_container :: u64
  c_bit_pos :: nat
  c_dst :: bytes
  c_byte_pos :: usize
  c_end_pos :: usize

definition cstream_new :: "bytes \<Rightarrow> cstream result" where
  "cstream_new dst =
     (if length dst \<le> CONTAINER_BYTES then Err DstSizeTooSmall
      else Ok \<lparr>c_container = 0, c_bit_pos = 0, c_dst = dst, c_byte_pos = 0,
               c_end_pos = length dst - CONTAINER_BYTES\<rparr>)"

definition add_bits :: "cstream \<Rightarrow> u64 \<Rightarrow> nat \<Rightarrow> cstream result" where
  "add_bits s v nb =
     (if \<not> (nb < length BIT_MASK \<and> nb + c_bit_pos s < CONTAINER_BITS) then Fault else
      and_then (idx BIT_MASK nb) (\<lambda>m.
        Ok (s\<lparr>c_container := c_container s OR push_bit (c_bit_pos s) (v AND m),
              c_bit_pos := c_bit_pos s + nb\<rparr>)))"

definition add_bits_fast :: "cstream \<Rightarrow> u64 \<Rightarrow> nat \<Rightarrow> cstream result" where
  "add_bits_fast s v nb =
     (if \<not> (nb + c_bit_pos s < CONTAINER_BITS \<and> drop_bit nb v = 0) then Fault else
        Ok (s\<lparr>c_container := c_container s OR push_bit (c_bit_pos s) v,
              c_bit_pos := c_bit_pos s + nb\<rparr>))"

definition flush_bits_fast :: "cstream \<Rightarrow> cstream result" where
  "flush_bits_fast s =
     (let nb_bytes = c_bit_pos s div 8 in
      if \<not> c_byte_pos s \<le> c_end_pos s then Fault else
      and_then (write_u64 (c_dst s) (c_byte_pos s) (c_container s)) (\<lambda>dst.
        Ok (s\<lparr>c_dst := dst, c_byte_pos := c_byte_pos s + nb_bytes, c_bit_pos := c_bit_pos s mod 8,
              c_container := drop_bit (nb_bytes * 8) (c_container s)\<rparr>)))"

definition flush_bits :: "cstream \<Rightarrow> cstream result" where
  "flush_bits s =
     (let nb_bytes = c_bit_pos s div 8 in
      if \<not> c_byte_pos s \<le> c_end_pos s then Fault else
      and_then (write_u64 (c_dst s) (c_byte_pos s) (c_container s)) (\<lambda>dst.
        Ok (s\<lparr>c_dst := dst, c_byte_pos := min (c_byte_pos s + nb_bytes) (c_end_pos s),
              c_bit_pos := c_bit_pos s mod 8,
              c_container := drop_bit (nb_bytes * 8) (c_container s)\<rparr>)))"

text \<open>\<open>close\<close> consumes the stream; the bytes written stay in the slice, returned with the count.\<close>

definition cstream_close :: "cstream \<Rightarrow> (usize \<times> bytes) result" where
  "cstream_close s =
     and_then (add_bits_fast s 1 1) (\<lambda>s.
     and_then (flush_bits s) (\<lambda>s.
       Ok (if c_end_pos s \<le> c_byte_pos s then 0 else c_byte_pos s + of_bool (0 < c_bit_pos s), c_dst s)))"

subsection \<open>The reader\<close>

record dstream =
  bit_container :: u64
  bits_consumed :: nat
  ptr_pos :: usize
  stream_src :: bytes

text \<open>The loop that assembles a short stream's container byte by byte.\<close>

fun gather_bytes :: "u64 \<Rightarrow> nat \<Rightarrow> bytes \<Rightarrow> u64" where
  "gather_bytes acc index [] = acc"
| "gather_bytes acc index (b # bs) = gather_bytes (acc OR push_bit (index * 8) (ucast b)) (index + 1) bs"

definition dstream_new :: "bytes \<Rightarrow> dstream result" where
  "dstream_new src =
     (if src = [] then Err SrcSizeWrong else
      and_then (idx src (length src - 1)) (\<lambda>last_byte.
      if last_byte = 0 then Err (Corruption ''bitstream end marker is zero'') else
      and_then (highbit32 (unat last_byte)) (\<lambda>hb.
      let consumed = 8 - hb in
      if CONTAINER_BYTES \<le> length src then
        and_then (read_u64 src (length src - CONTAINER_BYTES)) (\<lambda>c.
          Ok \<lparr>bit_container = c, bits_consumed = consumed, ptr_pos = length src - CONTAINER_BYTES,
              stream_src = src\<rparr>)
      else
        Ok \<lparr>bit_container = gather_bytes 0 0 src,
            bits_consumed = consumed + (CONTAINER_BYTES - length src) * 8, ptr_pos = 0,
            stream_src = src\<rparr>)))"

definition get_middle_bits :: "dstream \<Rightarrow> nat \<Rightarrow> nat \<Rightarrow> u64 result" where
  "get_middle_bits s start nb =
     (if \<not> nb < length BIT_MASK then Fault else
      and_then (idx BIT_MASK nb) (\<lambda>m. Ok (drop_bit (start mod 64) (bit_container s) AND m)))"

definition look_bits :: "dstream \<Rightarrow> nat \<Rightarrow> u64 result" where
  "look_bits s nb =
     (let start = nat ((int CONTAINER_BITS - int (bits_consumed s) - int nb) mod 2 ^ 32)
      in get_middle_bits s start nb)"

definition look_bits_fast :: "dstream \<Rightarrow> nat \<Rightarrow> u64 result" where
  "look_bits_fast s nb =
     (if nb < 1 \<or> 64 < nb then Fault
      else Ok (drop_bit ((64 - nb) mod 64) (push_bit (bits_consumed s mod 64) (bit_container s))))"

definition skip_bits :: "dstream \<Rightarrow> nat \<Rightarrow> dstream" where
  "skip_bits s nb = s\<lparr>bits_consumed := bits_consumed s + nb\<rparr>"

definition can_read_fast :: "dstream \<Rightarrow> nat \<Rightarrow> bool" where
  "can_read_fast s nb \<longleftrightarrow> nb \<noteq> 0 \<and> bits_consumed s + nb \<le> CONTAINER_BITS"

definition read_bits_fast :: "dstream \<Rightarrow> nat \<Rightarrow> (u64 \<times> dstream) result" where
  "read_bits_fast s nb = and_then (look_bits_fast s nb) (\<lambda>v. Ok (v, skip_bits s nb))"

definition read_bits :: "dstream \<Rightarrow> nat \<Rightarrow> (u64 \<times> dstream) result" where
  "read_bits s nb =
     (if nb = 0 then Ok (0, s)
      else if can_read_fast s nb then read_bits_fast s nb
      else and_then (look_bits s nb) (\<lambda>v. Ok (v, skip_bits s nb)))"

definition read_bits_fast_zero_safe :: "dstream \<Rightarrow> nat \<Rightarrow> (u64 \<times> dstream) result" where
  "read_bits_fast_zero_safe s nb =
     (if 64 \<le> nb then Fault else
      let raw = drop_bit ((64 - nb) mod 64) (push_bit (bits_consumed s mod 64) (bit_container s));
          v = raw AND (push_bit nb 1 - 1)
      in Ok (v, skip_bits s nb))"

text \<open>The container load at \<open>ptr_pos\<close>, with the bounds its assertion checks.\<close>

definition load_container :: "dstream \<Rightarrow> dstream result" where
  "load_container s =
     (if ptr_pos s + CONTAINER_BYTES \<le> length (stream_src s)
      then and_then (read_u64 (stream_src s) (ptr_pos s)) (\<lambda>c. Ok (s\<lparr>bit_container := c\<rparr>))
      else Fault)"

definition reload_fast :: "dstream \<Rightarrow> (dstream_status \<times> dstream) result" where
  "reload_fast s =
     (if ptr_pos s < CONTAINER_BYTES then Ok (Overflow, s) else
      let consumed_bytes = bits_consumed s div 8 in
      if ptr_pos s < consumed_bytes then Fault else
      and_then (load_container (s\<lparr>ptr_pos := ptr_pos s - consumed_bytes,
                                  bits_consumed := bits_consumed s mod 8\<rparr>)) (\<lambda>s.
        Ok (Unfinished, s)))"

definition reload_at_start :: "nat \<Rightarrow> dstream_status" where
  "reload_at_start consumed = (if consumed < CONTAINER_BITS then EndOfBuffer else Completed)"

definition reload :: "dstream \<Rightarrow> (dstream_status \<times> dstream) result" where
  "reload s =
     (if CONTAINER_BITS < bits_consumed s then Ok (Overflow, s)
      else if CONTAINER_BYTES \<le> ptr_pos s then reload_fast s
      else if ptr_pos s = 0 then Ok (reload_at_start (bits_consumed s), s)
      else
        let nb_bytes = bits_consumed s div 8;
            available = ptr_pos s;
            (nb_bytes, status) = (if available < nb_bytes then (available, EndOfBuffer)
                                  else (nb_bytes, Unfinished))
        in and_then (load_container (s\<lparr>ptr_pos := ptr_pos s - nb_bytes,
                                       bits_consumed := bits_consumed s - nb_bytes * 8\<rparr>)) (\<lambda>s.
             Ok (status, s)))"

definition end_of_stream :: "dstream \<Rightarrow> bool" where
  "end_of_stream s \<longleftrightarrow> ptr_pos s = 0 \<and> bits_consumed s = CONTAINER_BITS"

subsection \<open>Words as numbers\<close>

lemma unat_or_push:
  fixes a b :: u64
  assumes "unat a < 2 ^ k" and "unat b < 2 ^ n" and "k + n \<le> 64"
  shows "unat (a OR push_bit k b) = unat a + 2 ^ k * unat b"
    and "unat a + 2 ^ k * unat b < 2 ^ (k + n)"
proof -
  have "unat a + 2 ^ k * unat b < 2 ^ k + 2 ^ k * unat b" using assms(1) by simp
  also have "\<dots> = 2 ^ k * Suc (unat b)" by simp
  also have "\<dots> \<le> 2 ^ k * 2 ^ n" using assms(2) by (intro mult_left_mono) auto
  finally show 1: "unat a + 2 ^ k * unat b < 2 ^ (k + n)" by (simp add: power_add)
  also have "(2 :: nat) ^ (k + n) \<le> 2 ^ 64" using assms(3) by (intro power_increasing) auto
  finally have small: "unat a + 2 ^ k * unat b < 2 ^ 64" .
  have p: "unat (push_bit k b) = 2 ^ k * unat b"
    using small by (simp add: unat_push_bit_mod mult.commute)
  have "a OR push_bit k b = a + push_bit k b"
    by (rule or_push_bit_add) (rule take_bit_word_self [OF assms(1)])
  then show "unat (a OR push_bit k b) = unat a + 2 ^ k * unat b"
    using small by (simp only: unat_word_ariths(1) p) simp
qed

lemma BIT_MASK_nth [simp]: "n < 32 \<Longrightarrow> BIT_MASK ! n = mask n"
  by (simp add: BIT_MASK_def del: upt_rec_numeral)

lemma length_BIT_MASK [simp]: "length BIT_MASK = 32"
  by (simp add: BIT_MASK_def)

lemma le_nat_take: "le_nat (take k xs) = le_nat xs mod 256 ^ k"
proof (cases "k \<le> length xs")
  case True
  then have l: "length (take k xs) = k" by simp
  have "le_nat xs = le_nat (take k xs) + 256 ^ k * le_nat (drop k xs)"
    using le_nat_append [of "take k xs" "drop k xs"] by (simp only: append_take_drop_id l)
  then have "le_nat xs mod 256 ^ k = le_nat (take k xs) mod 256 ^ k"
    by (simp only: mod_mult_self2)
  moreover have "le_nat (take k xs) < 256 ^ k" using le_nat_less [of "take k xs"] by (simp only: l)
  ultimately show ?thesis by (simp only: mod_less)
next
  case False
  have "le_nat xs < 256 ^ length xs" by (rule le_nat_less)
  also have "(256 :: nat) ^ length xs \<le> 256 ^ k" using False by (intro power_increasing) auto
  finally show ?thesis using False by simp
qed

lemma le_nat_drop: "le_nat (drop k xs) = le_nat xs div 256 ^ k"
proof (cases "k \<le> length xs")
  case True
  have "le_nat xs = le_nat (take k xs) + 256 ^ k * le_nat (drop k xs)"
    using True le_nat_append [of "take k xs" "drop k xs"] by simp
  then show ?thesis using le_nat_less [of "take k xs"] True by simp
next
  case False
  then have "le_nat xs < 256 ^ k"
    using le_nat_less [of xs] by (meson less_le_trans nat_le_linear one_le_numeral power_increasing)
  then show ?thesis using False by simp
qed

lemma take_le_bytes: "k \<le> n \<Longrightarrow> take k (le_bytes n v) = le_bytes k v"
proof (induction n arbitrary: k v)
  case (Suc n)
  then show ?case by (cases k) auto
qed simp

lemma power_256: "(256 :: nat) ^ n = 2 ^ (8 * n)"
  by (simp add: power_mult)

lemma gather_bytes_le_nat:
  assumes "index + length bs \<le> 8" and "unat acc < 2 ^ (8 * index)"
  shows "unat (gather_bytes acc index bs) = unat acc + 2 ^ (8 * index) * le_nat bs"
  using assms
proof (induction bs arbitrary: acc index)
  case (Cons b bs)
  have ub: "unat (ucast b :: u64) = unat b"
    using unat_u8_less [of b] by (simp add: unsigned_ucast_eq take_bit_nat_eq_self)
  have "unat (ucast b :: u64) < 2 ^ 8" using unat_u8_less [of b] by (simp add: ub)
  from unat_or_push [OF Cons.prems(2) this] Cons.prems(1)
  have step: "unat (acc OR push_bit (8 * index) (ucast b)) = unat acc + 2 ^ (8 * index) * unat b"
    "unat acc + 2 ^ (8 * index) * unat b < 2 ^ (8 * index + 8)" by (simp_all only: ub) auto
  have "8 * (index + 1) = 8 * index + 8" by simp
  then have "unat (gather_bytes (acc OR push_bit (8 * index) (ucast b)) (index + 1) bs)
      = unat (acc OR push_bit (8 * index) (ucast b)) + 2 ^ (8 * (index + 1)) * le_nat bs"
    using step Cons.prems(1) by (intro Cons.IH) (auto simp: add.commute)
  moreover have "(2 :: nat) ^ (8 * (index + 1)) = 2 ^ (8 * index) * 256" by (simp add: power_add)
  ultimately show ?case
    by (simp only: gather_bytes.simps mult.commute [of index 8] step(1) le_nat.simps distrib_left
        mult.assoc add.assoc)
qed simp

end
