(* ===== verification/BitStack.thy ===== *)
theory BitStack
  imports BitStream
begin

section \<open>The bitstream is a stack of bits\<close>

text \<open>
  The meaning of the writer and the reader of \<open>src/src/entropy/bitstream.rs\<close>: what the writer
  holds is a number of so many bits, the reader gives the bits of its slice from the
  top down. What was added last is read first; reloading changes neither.
\<close>

subsection \<open>The writer\<close>

definition cinv :: "cstream \<Rightarrow> bool" where
  "cinv s \<longleftrightarrow> c_byte_pos s \<le> c_end_pos s \<and> c_end_pos s + 8 = length (c_dst s) \<and> c_bit_pos s < 64
     \<and> unat (c_container s) < 2 ^ c_bit_pos s"

definition c_value :: "cstream \<Rightarrow> nat" where
  "c_value s = le_nat (take (c_byte_pos s) (c_dst s)) + 256 ^ c_byte_pos s * unat (c_container s)"

definition c_bits :: "cstream \<Rightarrow> nat" where
  "c_bits s = 8 * c_byte_pos s + c_bit_pos s"

lemma cstream_new_inv:
  "cstream_new dst = Ok s \<Longrightarrow> cinv s \<and> c_value s = 0 \<and> c_bits s = 0 \<and> length (c_dst s) = length dst"
  by (auto simp: cstream_new_def cinv_def c_value_def c_bits_def CONTAINER_BYTES_def split: if_splits)

lemma c_value_add:
  assumes "cinv s" and "nb + c_bit_pos s < 64" and "unat w < 2 ^ nb"
  shows "cinv (s\<lparr>c_container := c_container s OR push_bit (c_bit_pos s) w, c_bit_pos := c_bit_pos s + nb\<rparr>)"
    and "c_value (s\<lparr>c_container := c_container s OR push_bit (c_bit_pos s) w, c_bit_pos := c_bit_pos s + nb\<rparr>)
      = c_value s + 2 ^ c_bits s * unat w"
proof -
  have "unat (c_container s) < 2 ^ c_bit_pos s" using assms(1) by (simp add: cinv_def)
  note o = unat_or_push [OF this assms(3)]
  show "cinv (s\<lparr>c_container := c_container s OR push_bit (c_bit_pos s) w, c_bit_pos := c_bit_pos s + nb\<rparr>)"
    using assms o by (simp add: cinv_def)
  show "c_value (s\<lparr>c_container := c_container s OR push_bit (c_bit_pos s) w, c_bit_pos := c_bit_pos s + nb\<rparr>)
      = c_value s + 2 ^ c_bits s * unat w"
    using assms o by (simp add: c_value_def c_bits_def power_add power_256 algebra_simps)
qed

lemma add_bits_spec:
  assumes "cinv s" and "add_bits s v nb = Ok s'"
  shows "cinv s'" and "c_value s' = c_value s + 2 ^ c_bits s * (unat v mod 2 ^ nb)"
    and "c_bits s' = c_bits s + nb" and "c_byte_pos s' = c_byte_pos s \<and> c_end_pos s' = c_end_pos s"
    and "length (c_dst s') = length (c_dst s)" and "nb < 32"
proof -
  have c: "nb < 32" "nb + c_bit_pos s < 64"
    and s': "s' = s\<lparr>c_container := c_container s OR push_bit (c_bit_pos s) (v AND mask nb), c_bit_pos := c_bit_pos s + nb\<rparr>"
    using assms(2) by (auto simp: add_bits_def CONTAINER_BITS_def split: if_splits)
  have "unat (v AND mask nb) < 2 ^ nb" by (simp add: unat_and_mask)
  note a = c_value_add [OF assms(1) c(2) this]
  show "cinv s'" "c_value s' = c_value s + 2 ^ c_bits s * (unat v mod 2 ^ nb)"
    using a by (simp_all only: s' unat_and_mask)
  show "c_bits s' = c_bits s + nb" "c_byte_pos s' = c_byte_pos s \<and> c_end_pos s' = c_end_pos s"
    "length (c_dst s') = length (c_dst s)" "nb < 32" using c by (simp_all add: s' c_bits_def)
qed

lemma add_bits_fast_spec:
  assumes "cinv s" and "add_bits_fast s v nb = Ok s'"
  shows "cinv s'" and "c_value s' = c_value s + 2 ^ c_bits s * (unat v mod 2 ^ nb)"
    and "c_bits s' = c_bits s + nb" and "c_byte_pos s' = c_byte_pos s \<and> c_end_pos s' = c_end_pos s"
    and "length (c_dst s') = length (c_dst s)"
proof -
  have c: "nb + c_bit_pos s < 64" "drop_bit nb v = 0"
    and s': "s' = s\<lparr>c_container := c_container s OR push_bit (c_bit_pos s) v, c_bit_pos := c_bit_pos s + nb\<rparr>"
    using assms(2) by (auto simp: add_bits_fast_def CONTAINER_BITS_def split: if_splits)
  have "unat v div 2 ^ nb = 0" using c(2) unat_drop_bit_div [of nb v] by simp
  then have v: "unat v < 2 ^ nb" by (simp add: div_eq_0_iff)
  note a = c_value_add [OF assms(1) c(1) v]
  show "cinv s'" "c_value s' = c_value s + 2 ^ c_bits s * (unat v mod 2 ^ nb)"
    using a v by (simp_all only: s' mod_less)
  show "c_bits s' = c_bits s + nb" "c_byte_pos s' = c_byte_pos s \<and> c_end_pos s' = c_end_pos s"
    "length (c_dst s') = length (c_dst s)" by (simp_all add: s' c_bits_def)
qed

text \<open>The bytes after a flush, up to and including the partial one.\<close>

definition flushed :: "cstream \<Rightarrow> bytes" where
  "flushed s = take (c_byte_pos s) (c_dst s) @ le_bytes 8 (unat (c_container s)) @ drop (c_byte_pos s + 8) (c_dst s)"

lemma le_nat_flushed:
  assumes "cinv s" and "k \<le> 8"
  shows "le_nat (take (c_byte_pos s + k) (flushed s))
    = le_nat (take (c_byte_pos s) (c_dst s)) + 256 ^ c_byte_pos s * (unat (c_container s) mod 256 ^ k)"
proof -
  have "c_byte_pos s \<le> length (c_dst s)" using assms(1) by (simp add: cinv_def)
  then have "take (c_byte_pos s + k) (flushed s)
      = take (c_byte_pos s) (c_dst s) @ le_bytes k (unat (c_container s))"
    using assms(2) by (simp add: flushed_def take_le_bytes)
  then show ?thesis
    using \<open>c_byte_pos s \<le> length (c_dst s)\<close> by (simp add: le_nat_append bytes_simps)
qed

lemma flush_bits_eq:
  assumes "cinv s"
  shows "flush_bits s = Ok (s\<lparr>c_dst := flushed s,
      c_byte_pos := min (c_byte_pos s + c_bit_pos s div 8) (c_end_pos s), c_bit_pos := c_bit_pos s mod 8,
      c_container := drop_bit (c_bit_pos s div 8 * 8) (c_container s)\<rparr>)"
  using assms by (simp add: flush_bits_def write_u64_def copy_into_def flushed_def cinv_def Let_def)

lemma flush_bits_spec:
  assumes "cinv s"
  obtains s' where "flush_bits s = Ok s'" and "cinv s'" and "length (c_dst s') = length (c_dst s)"
    and "c_end_pos s' = c_end_pos s"
    and "c_byte_pos s + c_bit_pos s div 8 \<le> c_end_pos s \<Longrightarrow> c_value s' = c_value s \<and> c_bits s' = c_bits s"
    and "c_end_pos s < c_byte_pos s + c_bit_pos s div 8 \<Longrightarrow> c_byte_pos s' = c_end_pos s"
    and "c_byte_pos s \<le> c_byte_pos s'"
proof -
  let ?q = "c_bit_pos s div 8"
  let ?s' = "s\<lparr>c_dst := flushed s, c_byte_pos := min (c_byte_pos s + ?q) (c_end_pos s),
      c_bit_pos := c_bit_pos s mod 8, c_container := drop_bit (?q * 8) (c_container s)\<rparr>"
  have b: "c_byte_pos s \<le> c_end_pos s" "c_end_pos s + 8 = length (c_dst s)" "c_bit_pos s < 64"
    "unat (c_container s) < 2 ^ c_bit_pos s" using assms by (auto simp: cinv_def)
  have len: "length (flushed s) = length (c_dst s)" using b by (simp add: flushed_def)
  have q: "?q \<le> 8" "?q * 8 + c_bit_pos s mod 8 = c_bit_pos s" using b(3) by auto
  have u: "unat (drop_bit (?q * 8) (c_container s)) = unat (c_container s) div 256 ^ ?q"
    by (simp add: unat_drop_bit_div power_256 mult.commute)
  have "unat (c_container s) < 256 ^ ?q * 2 ^ (c_bit_pos s mod 8)"
    using b(4) q(2) by (simp add: power_256 mult.commute [of 8] flip: power_add)
  then have cont: "unat (c_container s) div 256 ^ ?q < 2 ^ (c_bit_pos s mod 8)"
    by (simp add: less_mult_imp_div_less mult.commute)
  have inv: "cinv ?s'"
    using b len cont by (simp add: cinv_def u)
  show thesis
  proof (rule that [of ?s'])
    show "flush_bits s = Ok ?s'" by (rule flush_bits_eq [OF assms])
    assume fit: "c_byte_pos s + ?q \<le> c_end_pos s"
    then have m: "min (c_byte_pos s + ?q) (c_end_pos s) = c_byte_pos s + ?q" by simp
    have "c_value ?s' = le_nat (take (c_byte_pos s) (c_dst s))
        + 256 ^ c_byte_pos s * (unat (c_container s) mod 256 ^ ?q)
        + 256 ^ (c_byte_pos s + ?q) * (unat (c_container s) div 256 ^ ?q)"
      by (simp add: c_value_def m u le_nat_flushed [OF assms q(1)])
    also have "\<dots> = c_value s"
      by (simp add: c_value_def power_add mult.assoc flip: distrib_left)
    finally show "c_value ?s' = c_value s \<and> c_bits ?s' = c_bits s"
      using m q(2) by (simp add: c_bits_def)
  qed (use inv len b in auto)
qed

subsection \<open>A run of the writer\<close>

datatype bit_op = Add u64 nat | AddFast u64 nat | Flush

fun cstream_step :: "cstream \<Rightarrow> bit_op \<Rightarrow> cstream result" where
  "cstream_step s (Add v nb) = add_bits s v nb"
| "cstream_step s (AddFast v nb) = add_bits_fast s v nb"
| "cstream_step s Flush = flush_bits s"

fun cstream_run :: "cstream \<Rightarrow> bit_op list \<Rightarrow> cstream result" where
  "cstream_run s [] = Ok s"
| "cstream_run s (a # as) = and_then (cstream_step s a) (\<lambda>s'. cstream_run s' as)"

text \<open>A stack of values with their widths, the last one added first.\<close>

fun stack_bits :: "(nat \<times> nat) list \<Rightarrow> nat" where
  "stack_bits [] = 0"
| "stack_bits ((v, n) # st) = stack_bits st + n"

fun stack_value :: "(nat \<times> nat) list \<Rightarrow> nat" where
  "stack_value [] = 0"
| "stack_value ((v, n) # st) = stack_value st + 2 ^ stack_bits st * (v mod 2 ^ n)"

fun stack_op :: "bit_op \<Rightarrow> (nat \<times> nat) list \<Rightarrow> (nat \<times> nat) list" where
  "stack_op (Add v nb) st = (unat v, nb) # st"
| "stack_op (AddFast v nb) st = (unat v, nb) # st"
| "stack_op Flush st = st"

lemma stack_value_less: "stack_value st < 2 ^ stack_bits st"
proof (induction st)
  case (Cons a st)
  obtain v n where a: "a = (v, n)" by force
  have "stack_value st + 2 ^ stack_bits st * (v mod 2 ^ n) < 2 ^ stack_bits st * Suc (v mod 2 ^ n)"
    using Cons by simp
  also have "\<dots> \<le> 2 ^ stack_bits st * 2 ^ n" by (intro mult_left_mono) (auto simp: Suc_le_eq)
  finally show ?case by (simp add: a power_add)
qed simp

text \<open>The writer holds the stack, or it has run into the end of the slice.\<close>

definition holds :: "(nat \<times> nat) list \<Rightarrow> cstream \<Rightarrow> bool" where
  "holds st s \<longleftrightarrow> cinv s \<and> (c_byte_pos s = c_end_pos s \<or> c_value s = stack_value st \<and> c_bits s = stack_bits st)"

lemma holds_step:
  assumes "holds st s" and "cstream_step s a = Ok s'"
  shows "holds (stack_op a st) s'" and "length (c_dst s') = length (c_dst s)"
proof -
  have inv: "cinv s" using assms(1) by (simp add: holds_def)
  have "holds (stack_op a st) s' \<and> length (c_dst s') = length (c_dst s)"
  proof (cases a)
    case (Add v nb)
    then show ?thesis
      using add_bits_spec [OF inv, of v nb s'] assms by (auto simp: holds_def)
  next
    case (AddFast v nb)
    then show ?thesis
      using add_bits_fast_spec [OF inv, of v nb s'] assms by (auto simp: holds_def)
  next
    case Flush
    from flush_bits_spec [OF inv] obtain t where t: "flush_bits s = Ok t" "cinv t"
      "length (c_dst t) = length (c_dst s)" "c_end_pos t = c_end_pos s"
      "c_byte_pos s + c_bit_pos s div 8 \<le> c_end_pos s \<Longrightarrow> c_value t = c_value s \<and> c_bits t = c_bits s"
      "c_end_pos s < c_byte_pos s + c_bit_pos s div 8 \<Longrightarrow> c_byte_pos t = c_end_pos s"
      "c_byte_pos s \<le> c_byte_pos t" by blast
    then have "s' = t" using assms(2) Flush by simp
    moreover have "c_byte_pos t \<le> c_end_pos t" using t(2) by (simp add: cinv_def)
    ultimately show ?thesis
      using t assms(1) Flush by (cases "c_byte_pos s + c_bit_pos s div 8 \<le> c_end_pos s") (auto simp: holds_def)
  qed
  then show "holds (stack_op a st) s'" and "length (c_dst s') = length (c_dst s)" by auto
qed

lemma holds_run:
  "holds st s \<Longrightarrow> cstream_run s as = Ok s' \<Longrightarrow>
   holds (fold stack_op as st) s' \<and> length (c_dst s') = length (c_dst s)"
proof (induction as arbitrary: st s)
  case (Cons a as)
  from Cons.prems(2) obtain s1 where s1: "cstream_step s a = Ok s1" "cstream_run s1 as = Ok s'" by auto
  from holds_step [OF Cons.prems(1) s1(1)] Cons.IH [OF _ s1(2)] show ?case by auto
qed simp

text \<open>Closing adds the end mark: the bytes spell the stack with a one on top.\<close>

lemma close_spec:
  assumes "holds st s" and "cstream_close s = Ok (n, dst)" and "n \<noteq> 0"
  shows "n = stack_bits st div 8 + 1" and "n \<le> length dst"
    and "le_nat (take n dst) = stack_value st + 2 ^ stack_bits st"
proof -
  have inv: "cinv s" using assms(1) by (simp add: holds_def)
  from assms(2) obtain s1 s2 where s1: "add_bits_fast s 1 1 = Ok s1" and s2: "flush_bits s1 = Ok s2"
    and n: "n = (if c_end_pos s2 \<le> c_byte_pos s2 then 0 else c_byte_pos s2 + of_bool (0 < c_bit_pos s2))"
    and dst: "dst = c_dst s2"
    by (auto simp: cstream_close_def)
  note a = add_bits_fast_spec [OF inv s1]
  let ?q = "c_bit_pos s1 div 8"
  have s2e: "s2 = s1\<lparr>c_dst := flushed s1, c_byte_pos := min (c_byte_pos s1 + ?q) (c_end_pos s1),
      c_bit_pos := c_bit_pos s1 mod 8, c_container := drop_bit (?q * 8) (c_container s1)\<rparr>"
    using s2 flush_bits_eq [OF a(1)] by simp
  have fit: "c_byte_pos s1 + ?q < c_end_pos s1"
    using n assms(3) by (auto simp: s2e split: if_splits)
  then have b2: "c_byte_pos s2 = c_byte_pos s1 + ?q" "c_bit_pos s2 = c_bit_pos s1 mod 8" by (simp_all add: s2e)
  have v: "c_value s = stack_value st" "c_bits s = stack_bits st"
    using assms(1) a(4) fit by (auto simp: holds_def)
  let ?k = "?q + of_bool (0 < c_bit_pos s1 mod 8)"
  have nk: "n = c_byte_pos s1 + ?k" using n assms(3) b2 by (auto split: if_splits)
  have k: "?k \<le> 8" "c_bit_pos s1 \<le> 8 * ?k" using a(1) by (auto simp: cinv_def)
  have bits: "8 * c_byte_pos s1 + c_bit_pos s1 = stack_bits st + 1"
    using a(3) v by (simp add: c_bits_def)
  have "0 < c_bit_pos s1 \<Longrightarrow> ?k = (c_bit_pos s1 - 1) div 8 + 1"
  proof -
    assume "0 < c_bit_pos s1"
    then obtain m where m: "c_bit_pos s1 = Suc m" by (cases "c_bit_pos s1") auto
    show ?thesis by (simp add: m) presburger
  qed
  moreover have "0 < c_bit_pos s1"
    using s1 by (auto simp: add_bits_fast_def split: if_splits)
  ultimately have k': "?k = (c_bit_pos s1 - 1) div 8 + 1" by simp
  have "stack_bits st = (c_bit_pos s1 - 1) + 8 * c_byte_pos s1"
    using bits \<open>0 < c_bit_pos s1\<close> by simp
  then have "stack_bits st div 8 = c_byte_pos s1 + (c_bit_pos s1 - 1) div 8" by simp
  then show "n = stack_bits st div 8 + 1" using nk k' by simp
  have len: "length (flushed s1) = length (c_dst s1)"
    using a(1) by (simp add: flushed_def cinv_def)
  then show "n \<le> length dst"
    using nk fit k(1) a(1) by (simp add: dst s2e cinv_def)
  have "unat (c_container s1) < 2 ^ c_bit_pos s1" using a(1) by (simp add: cinv_def)
  also have "(2 :: nat) ^ c_bit_pos s1 \<le> 2 ^ (8 * ?k)" using k(2) by (intro power_increasing) auto
  finally have "unat (c_container s1) mod 256 ^ ?k = unat (c_container s1)" by (simp add: power_256)
  then have "le_nat (take n dst) = c_value s1"
    using le_nat_flushed [OF a(1) k(1)] by (simp add: nk dst s2e c_value_def)
  then show "le_nat (take n dst) = stack_value st + 2 ^ stack_bits st"
    using a(2) v by simp
qed

text \<open>The fast flush does not stop at the end of the slice: past it the writer has overrun, and the
  next flush faults.\<close>

definition writes :: "(nat \<times> nat) list \<Rightarrow> cstream \<Rightarrow> bool" where
  "writes st s \<longleftrightarrow> holds st s \<or> c_end_pos s < c_byte_pos s"

lemma writes_add_bits:
  assumes "writes st s" and "add_bits s v nb = Ok s'"
  shows "writes ((unat v, nb) # st) s'"
proof (cases "holds st s")
  case True
  then show ?thesis using holds_step(1) [OF True, of "Add v nb"] assms(2) by (simp add: writes_def)
next
  case False
  then show ?thesis using assms by (auto simp: writes_def add_bits_def split: if_splits)
qed

lemma writes_flush:
  assumes "writes st s" and "flush_bits s = Ok s'"
  shows "writes st s'"
proof (cases "holds st s")
  case True
  then show ?thesis using holds_step(1) [OF True, of Flush] assms(2) by (simp add: writes_def)
next
  case False
  then show ?thesis using assms by (auto simp: writes_def flush_bits_def)
qed

lemma writes_flush_fast:
  assumes "writes st s" and "flush_bits_fast s = Ok s'"
  shows "writes st s'"
proof (cases "holds st s")
  case True
  then have inv: "cinv s" by (simp add: holds_def)
  show ?thesis
  proof (cases "c_byte_pos s + c_bit_pos s div 8 \<le> c_end_pos s")
    case True
    then have "flush_bits s = flush_bits_fast s"
      by (simp add: flush_bits_def flush_bits_fast_def Let_def min_absorb1)
    then show ?thesis using writes_flush [OF assms(1)] assms(2) by simp
  next
    case False
    then show ?thesis using assms(2) by (auto simp: writes_def flush_bits_fast_def Let_def split: if_splits)
  qed
next
  case False
  then show ?thesis using assms by (auto simp: writes_def flush_bits_fast_def)
qed

lemma writes_close:
  assumes "writes st s" and "cstream_close s = Ok r"
  shows "holds st s"
proof (rule ccontr)
  assume "\<not> holds st s"
  then have "c_end_pos s < c_byte_pos s" using assms(1) by (simp add: writes_def)
  then show False
    using assms(2) by (auto simp: cstream_close_def add_bits_fast_def flush_bits_def split: if_splits)
qed

end
