(* ===== verification/BitReader.thy ===== *)
theory BitReader
  imports BitStack
begin

section \<open>Reading the stack back\<close>

text \<open>
  The reader of \<open>src/src/entropy/bitstream.rs\<close>: its container is the eight bytes at the pointer,
  and the number of bits left is determined by the pointer and the bits consumed. A read
  within the container returns the top bits that are left; a reload moves the pointer
  and keeps what is left; no operation loads outside the slice.
\<close>

definition dinv :: "dstream \<Rightarrow> bool" where
  "dinv s \<longleftrightarrow> unat (bit_container s) = le_nat (take 8 (drop (ptr_pos s) (stream_src s)))
     \<and> (ptr_pos s + 8 \<le> length (stream_src s) \<or> ptr_pos s = 0 \<and> length (stream_src s) < 8)"

definition bits_left :: "dstream \<Rightarrow> int" where
  "bits_left s = 8 * int (ptr_pos s) + 64 - int (bits_consumed s)"

lemma dinv_skip [simp]: "dinv (skip_bits s n) = dinv s"
  by (simp add: dinv_def skip_bits_def)

lemma skip_bits_simps [simp]:
  "bit_container (skip_bits s n) = bit_container s" "ptr_pos (skip_bits s n) = ptr_pos s"
  "stream_src (skip_bits s n) = stream_src s" "bits_consumed (skip_bits s n) = bits_consumed s + n"
  "bits_left (skip_bits s n) = bits_left s - int n"
  by (simp_all add: skip_bits_def bits_left_def)

lemma mod_div_mod:
  "k + n \<le> m \<Longrightarrow> ((x :: nat) mod 2 ^ m) div 2 ^ k mod 2 ^ n = x div 2 ^ k mod 2 ^ n"
  unfolding take_bit_eq_mod [symmetric] drop_bit_eq_div [symmetric]
  by (rule bit_eqI) (auto simp: bit_simps)

lemma container_bits:
  assumes "dinv s" and "bits_consumed s + nb \<le> 64"
  shows "unat (bit_container s) div 2 ^ (64 - bits_consumed s - nb) mod 2 ^ nb
    = le_nat (stream_src s) div 2 ^ (nat (bits_left s) - nb) mod 2 ^ nb"
proof -
  have c: "unat (bit_container s) = (le_nat (stream_src s) div 2 ^ (8 * ptr_pos s)) mod 2 ^ 64"
    using assms(1) by (simp add: dinv_def le_nat_take le_nat_drop power_256)
  have e: "nat (bits_left s) - nb = 8 * ptr_pos s + (64 - bits_consumed s - nb)"
    using assms(2) by (simp add: bits_left_def)
  have "unat (bit_container s) div 2 ^ (64 - bits_consumed s - nb) mod 2 ^ nb
      = (le_nat (stream_src s) div 2 ^ (8 * ptr_pos s)) div 2 ^ (64 - bits_consumed s - nb) mod 2 ^ nb"
    using assms(2) by (simp only: c) (rule mod_div_mod, simp)
  then show ?thesis by (simp add: e power_add div_mult2_eq)
qed

lemma look_fast_value:
  assumes "c + nb \<le> 64" and "1 \<le> nb"
  shows "unat (drop_bit ((64 - nb) mod 64) (push_bit (c mod 64) (w :: u64))) = unat w div 2 ^ (64 - c - nb) mod 2 ^ nb"
proof -
  have m: "c mod 64 = c" "(64 - nb) mod 64 = 64 - nb" using assms by auto
  have p1: "(2 :: nat) ^ 64 = 2 ^ nb * 2 ^ (64 - nb)" using assms by (simp flip: power_add)
  have p2: "(2 :: nat) ^ (64 - nb) = 2 ^ c * 2 ^ (64 - c - nb)" using assms by (simp flip: power_add)
  have "unat (drop_bit ((64 - nb) mod 64) (push_bit (c mod 64) w)) = (unat w * 2 ^ c) mod 2 ^ 64 div 2 ^ (64 - nb)"
    by (simp only: m unat_drop_bit_div unat_push_bit_mod) simp
  also have "\<dots> = (unat w * 2 ^ c div 2 ^ (64 - nb)) mod 2 ^ nb"
    by (simp only: p1) (simp add: mod_mult2_eq mult.commute [of "2 ^ nb"])
  also have "unat w * 2 ^ c div 2 ^ (64 - nb) = unat w div 2 ^ (64 - c - nb)"
    by (simp add: p2 div_mult2_eq)
  finally show ?thesis .
qed

lemma look_bits_total: "nb < 32 \<Longrightarrow> \<exists>v. look_bits s nb = Ok v \<and> unat v < 2 ^ nb"
  by (auto simp: look_bits_def get_middle_bits_def Let_def unat_and_mask)

lemma look_bits_fast_value:
  assumes "dinv s" and "bits_consumed s + nb \<le> 64" and "1 \<le> nb"
  shows "\<exists>v. look_bits_fast s nb = Ok v
    \<and> unat v = le_nat (stream_src s) div 2 ^ (nat (bits_left s) - nb) mod 2 ^ nb"
  using assms look_fast_value [OF assms(2,3), of "bit_container s"] container_bits [OF assms(1,2)]
  by (simp add: look_bits_fast_def)

lemma look_bits_value:
  assumes "dinv s" and "bits_consumed s + nb \<le> 64" and "nb < 32"
  shows "\<exists>v. look_bits s nb = Ok v
    \<and> unat v = le_nat (stream_src s) div 2 ^ (nat (bits_left s) - nb) mod 2 ^ nb"
proof (cases "bits_consumed s + nb = 0")
  case True
  then show ?thesis
    using look_bits_total [of nb s] assms(3) by auto
next
  case False
  have "(int CONTAINER_BITS - int (bits_consumed s) - int nb) mod 2 ^ 32
      = int (64 - bits_consumed s - nb)"
    using assms(2) by (simp add: CONTAINER_BITS_def)
  then have "nat ((int CONTAINER_BITS - int (bits_consumed s) - int nb) mod 2 ^ 32) = 64 - bits_consumed s - nb"
    by simp
  moreover have "(64 - bits_consumed s - nb) mod 64 = 64 - bits_consumed s - nb" using False by simp
  ultimately show ?thesis
    using assms container_bits [OF assms(1,2)]
    by (simp add: look_bits_def get_middle_bits_def Let_def idx_def unat_and_mask unat_drop_bit_div)
qed

text \<open>A read within the container.\<close>

lemma read_bits_value:
  assumes "dinv s" and "bits_consumed s + nb \<le> 64" and "nb < 32"
  shows "\<exists>v. read_bits s nb = Ok (v, skip_bits s nb)
    \<and> unat v = le_nat (stream_src s) div 2 ^ (nat (bits_left s) - nb) mod 2 ^ nb"
proof (cases "nb = 0")
  case True
  then show ?thesis by (simp add: read_bits_def skip_bits_def)
next
  case False
  then show ?thesis
    using look_bits_fast_value [OF assms(1,2)] assms(2)
    by (simp add: read_bits_def can_read_fast_def CONTAINER_BITS_def read_bits_fast_def)
qed

lemma read_bits_total:
  assumes "nb < 32"
  shows "\<exists>v. read_bits s nb = Ok (v, skip_bits s nb) \<and> unat v < 2 ^ nb"
proof -
  consider "nb = 0" | "nb \<noteq> 0" "can_read_fast s nb" | "nb \<noteq> 0" "\<not> can_read_fast s nb" by blast
  then show ?thesis
  proof cases
    case 1
    then show ?thesis by (simp add: read_bits_def skip_bits_def)
  next
    case 2
    then have b: "bits_consumed s + nb \<le> 64" "1 \<le> nb"
      by (auto simp: can_read_fast_def CONTAINER_BITS_def)
    have "unat (drop_bit ((64 - nb) mod 64) (push_bit (bits_consumed s mod 64) (bit_container s))) < 2 ^ nb"
      by (simp only: look_fast_value [OF b] mod_less_divisor zero_less_power zero_less_numeral)
    then show ?thesis
      using 2 assms by (simp add: read_bits_def read_bits_fast_def look_bits_fast_def)
  next
    case 3
    then show ?thesis
      using look_bits_total [OF assms, of s] by (auto simp: read_bits_def)
  qed
qed

subsection \<open>Reloading\<close>

lemma unat_read_u64: "i + 8 \<le> length src \<Longrightarrow>
    \<exists>c. read_u64 src i = Ok c \<and> unat c = le_nat (take 8 (drop i src))"
proof -
  assume "i + 8 \<le> length src"
  moreover have "le_nat (take 8 (drop i src)) < 2 ^ 64"
    by (simp only: le_nat_take power_256) simp
  ultimately show ?thesis
    by (simp add: read_u64_def idx_from_def idx_range_def unat_of_nat)
qed

lemma load_container_spec:
  assumes "ptr_pos s + 8 \<le> length (stream_src s)"
  shows "\<exists>s'. load_container s = Ok s' \<and> dinv s' \<and> stream_src s' = stream_src s
    \<and> ptr_pos s' = ptr_pos s \<and> bits_consumed s' = bits_consumed s"
  using unat_read_u64 [OF assms] assms by (auto simp: load_container_def CONTAINER_BYTES_def dinv_def)

text \<open>\<open>reload\<close> never faults, keeps the bits that are left, and moves back only.\<close>

lemma reload_spec:
  assumes "dinv s"
  obtains st s' where "reload s = Ok (st, s')" and "dinv s'" and "stream_src s' = stream_src s"
    and "bits_left s' = bits_left s" and "ptr_pos s' \<le> ptr_pos s"
    and "st = Overflow \<longleftrightarrow> 64 < bits_consumed s"
    and "64 < bits_consumed s \<Longrightarrow> s' = s"
    and "bits_consumed s \<le> 64 \<Longrightarrow> bits_consumed s' \<le> 64 \<and> (bits_consumed s' < 8 \<or> ptr_pos s' = 0)"
    and "st = Completed \<longleftrightarrow> bits_consumed s = 64 \<and> ptr_pos s = 0"
    and "st = Unfinished \<Longrightarrow> bits_consumed s' < 8"
    and "st = EndOfBuffer \<Longrightarrow> ptr_pos s' = 0 \<and> bits_consumed s' < 64"
proof -
  consider (over) "64 < bits_consumed s" | (fast) "bits_consumed s \<le> 64" "8 \<le> ptr_pos s"
    | (start) "bits_consumed s \<le> 64" "ptr_pos s = 0"
    | (near) "bits_consumed s \<le> 64" "0 < ptr_pos s" "ptr_pos s < 8" by linarith
  then show thesis
  proof cases
    case over
    then show thesis
      using assms by (intro that [of Overflow s]) (auto simp: reload_def CONTAINER_BITS_def)
  next
    case start
    then show thesis
      using assms by (intro that [of "reload_at_start (bits_consumed s)" s])
        (auto simp: reload_def reload_at_start_def CONTAINER_BITS_def CONTAINER_BYTES_def split: if_splits)
  next
    case fast
    let ?t = "s\<lparr>ptr_pos := ptr_pos s - bits_consumed s div 8, bits_consumed := bits_consumed s mod 8\<rparr>"
    have "ptr_pos ?t + 8 \<le> length (stream_src ?t)"
      using assms fast by (auto simp: dinv_def)
    from load_container_spec [OF this] obtain s' where s': "load_container ?t = Ok s'" "dinv s'"
      "stream_src s' = stream_src s" "ptr_pos s' = ptr_pos s - bits_consumed s div 8"
      "bits_consumed s' = bits_consumed s mod 8" by auto
    have q8: "bits_consumed s div 8 \<le> 8" using fast(1) by simp
    have "bits_consumed s = 8 * (bits_consumed s div 8) + bits_consumed s mod 8" by simp
    then have left: "bits_left s' = bits_left s"
      using q8 fast(2) unfolding bits_left_def s' by linarith
    show thesis
      using fast s' left q8
      by (intro that [of Unfinished s'])
        (auto simp: reload_def reload_fast_def CONTAINER_BITS_def CONTAINER_BYTES_def)
  next
    case near
    let ?nb = "if ptr_pos s < bits_consumed s div 8 then ptr_pos s else bits_consumed s div 8"
    let ?st = "if ptr_pos s < bits_consumed s div 8 then EndOfBuffer else Unfinished"
    let ?t = "s\<lparr>ptr_pos := ptr_pos s - ?nb, bits_consumed := bits_consumed s - ?nb * 8\<rparr>"
    have nb: "?nb \<le> ptr_pos s" "?nb * 8 \<le> bits_consumed s" "?nb \<noteq> ptr_pos s \<Longrightarrow> bits_consumed s - ?nb * 8 < 8"
      by (auto simp: minus_div_mult_eq_mod)
    have "ptr_pos ?t + 8 \<le> length (stream_src ?t)"
      using assms near by (auto simp: dinv_def)
    from load_container_spec [OF this] obtain s' where s': "load_container ?t = Ok s'" "dinv s'"
      "stream_src s' = stream_src s" "ptr_pos s' = ptr_pos s - ?nb"
      "bits_consumed s' = bits_consumed s - ?nb * 8" by auto
    have left: "bits_left s' = bits_left s"
      using nb(1,2) by (simp add: bits_left_def s'(4,5) of_nat_diff)
    have r: "reload s = Ok (?st, s')"
      using near s'(1) by (auto simp: reload_def CONTAINER_BITS_def CONTAINER_BYTES_def Let_def)
    have e: "?st = EndOfBuffer \<Longrightarrow> ptr_pos s' = 0" "?st = Unfinished \<Longrightarrow> bits_consumed s' < 8"
      using s'(4,5) by (auto split: if_splits simp: minus_div_mult_eq_mod)
    show thesis
    proof (rule that [OF r s'(2,3) left])
      show "bits_consumed s' \<le> 64 \<and> (bits_consumed s' < 8 \<or> ptr_pos s' = 0)"
        using near(1) s'(4,5) e by (auto split: if_splits)
      show "?st = EndOfBuffer \<Longrightarrow> ptr_pos s' = 0 \<and> bits_consumed s' < 64"
        using e near s'(4,5) by (auto split: if_splits)
    qed (use near s'(4) e in \<open>auto split: if_splits\<close>)
  qed
qed

lemma reload_fast_spec:
  assumes "dinv s" and "bits_consumed s \<le> 64"
  obtains st s' where "reload_fast s = Ok (st, s')" and "dinv s'" and "stream_src s' = stream_src s"
    and "bits_left s' = bits_left s" and "ptr_pos s' \<le> ptr_pos s" and "st \<noteq> Overflow \<Longrightarrow> bits_consumed s' < 8"
    and "bits_consumed s' \<le> bits_consumed s"
proof (cases "8 \<le> ptr_pos s")
  case False
  then show thesis
    using assms by (intro that [of Overflow s]) (auto simp: reload_fast_def CONTAINER_BYTES_def)
next
  case True
  then have "reload s = reload_fast s" using assms(2) by (simp add: reload_def CONTAINER_BITS_def CONTAINER_BYTES_def)
  moreover from reload_spec [OF assms(1)] obtain st s' where "reload s = Ok (st, s')" "dinv s'"
    "stream_src s' = stream_src s" "bits_left s' = bits_left s" "ptr_pos s' \<le> ptr_pos s"
    "bits_consumed s' \<le> 64 \<and> (bits_consumed s' < 8 \<or> ptr_pos s' = 0)" by (metis assms(2))
  moreover have "bits_consumed s' = bits_consumed s mod 8"
    if "reload_fast s = Ok (st, s')" for st s'
    using that True by (auto simp: reload_fast_def Let_def load_container_def CONTAINER_BYTES_def split: if_splits)
  ultimately show thesis
    using that [of st s'] by (metis mod_less_divisor mod_less_eq_dividend zero_less_numeral)
qed

subsection \<open>Opening a stream\<close>

definition ready :: "dstream \<Rightarrow> bool" where
  "ready s \<longleftrightarrow> dinv s \<and> bits_consumed s \<le> 64 \<and> (bits_consumed s \<le> 8 \<or> ptr_pos s = 0)"

lemma ready_room: "ready s \<Longrightarrow> int nb \<le> bits_left s \<Longrightarrow> nb \<le> 56 \<Longrightarrow> bits_consumed s + nb \<le> 64"
  by (auto simp: ready_def bits_left_def)

lemma log2_le_nat:
  assumes "src \<noteq> []" and "last src \<noteq> 0"
  shows "log2 (le_nat src) = 8 * (length src - 1) + log2 (unat (last src))" and "0 < le_nat src"
    and "log2 (unat (last src)) \<le> 7"
proof -
  let ?b = "unat (last src)" and ?n = "length src - 1"
  have l: "length (butlast src) = ?n" by simp
  have e: "le_nat src = le_nat (butlast src) + 256 ^ ?n * ?b"
    using le_nat_append [of "butlast src" "[last src]"] assms(1) by (simp only: append_butlast_last_id l) simp
  have lo: "le_nat (butlast src) < 256 ^ ?n" using le_nat_less [of "butlast src"] by (simp only: l)
  have b: "0 < ?b" using assms(2) by (simp add: unat_gt_0)
  have "log2 ?b < 8" using log2_less_iff [OF b, of 8] unat_u8_less [of "last src"] by simp
  then show "log2 ?b \<le> 7" by simp
  show "0 < le_nat src" using e b by simp
  show "log2 (le_nat src) = 8 * ?n + log2 ?b"
  proof (rule log2_unique)
    have "(2 :: nat) ^ (8 * ?n + log2 ?b) = 256 ^ ?n * 2 ^ log2 ?b" by (simp add: power_add power_256)
    also have "\<dots> \<le> 256 ^ ?n * ?b" using log2_le [OF b] by simp
    finally show "2 ^ (8 * ?n + log2 ?b) \<le> le_nat src" by (simp add: e)
    have "le_nat src < 256 ^ ?n * Suc ?b" using e lo by simp
    also have "\<dots> \<le> 256 ^ ?n * 2 ^ Suc (log2 ?b)"
      using log2_less [of ?b] by (intro mult_left_mono) auto
    also have "\<dots> = 2 ^ Suc (8 * ?n + log2 ?b)" by (simp add: power_add power_256)
    finally show "le_nat src < 2 ^ Suc (8 * ?n + log2 ?b)" .
  qed
qed

lemma dstream_new_spec:
  assumes "src \<noteq> []" and "last src \<noteq> 0"
  obtains s where "dstream_new src = Ok s" and "ready s" and "stream_src s = src"
    and "bits_left s = int (log2 (le_nat src))"
proof -
  note L = log2_le_nat [OF assms]
  have last: "src ! (length src - 1) = last src" using assms(1) by (simp add: last_conv_nth)
  have b: "unat (last src) \<noteq> 0" using assms(2) by (simp add: unat_eq_0)
  have len: "0 < length src" using assms(1) by simp
  show thesis
  proof (cases "8 \<le> length src")
    case True
    from unat_read_u64 [of "length src - 8" src] True obtain c where
      c: "read_u64 src (length src - 8) = Ok c" "unat c = le_nat (take 8 (drop (length src - 8) src))" by auto
    let ?s = "\<lparr>bit_container = c, bits_consumed = 8 - log2 (unat (last src)), ptr_pos = length src - 8, stream_src = src\<rparr>"
    have "dstream_new src = Ok ?s"
      using assms b True c(1) last by (simp add: dstream_new_def idx_def CONTAINER_BYTES_def highbit32_def)
    moreover have "ready ?s" using c(2) True by (auto simp: ready_def dinv_def)
    moreover have "bits_left ?s = int (log2 (le_nat src))"
      using L(1,3) True by (simp add: bits_left_def of_nat_diff)
    ultimately show thesis using that by simp
  next
    case False
    let ?s = "\<lparr>bit_container = gather_bytes 0 0 src,
        bits_consumed = 8 - log2 (unat (last src)) + (8 - length src) * 8, ptr_pos = 0, stream_src = src\<rparr>"
    have "dstream_new src = Ok ?s"
      using assms b False last by (simp add: dstream_new_def idx_def CONTAINER_BYTES_def highbit32_def)
    moreover have "(8 - length src) * 8 \<le> 56" "8 - log2 (unat (last src)) \<le> 8" using len by linarith+
    then have "8 - log2 (unat (last src)) + (8 - length src) * 8 \<le> 64" by linarith
    then have "ready ?s"
      using gather_bytes_le_nat [of 0 src 0] False len by (auto simp: ready_def dinv_def)
    moreover have "8 - log2 (unat (last src)) + (8 - length src) * 8
        + (8 * (length src - 1) + log2 (unat (last src))) = 64"
      using L(3) False len by linarith
    then have "bits_left ?s = int (log2 (le_nat src))"
      unfolding bits_left_def L(1) dstream.simps by linarith
    ultimately show thesis using that by simp
  qed
qed

lemma dstream_new_no_fault: "dstream_new src \<noteq> Fault"
proof (cases "src \<noteq> [] \<and> last src \<noteq> 0")
  case True
  then show ?thesis using dstream_new_spec [of src] by (metis result.distinct(3))
next
  case False
  then show ?thesis by (auto simp: dstream_new_def idx_def last_conv_nth)
qed

lemma dstream_new_Ok:
  assumes "dstream_new src = Ok s"
  shows "src \<noteq> []" and "last src \<noteq> 0" and "ready s" and "stream_src s = src"
    and "bits_left s = int (log2 (le_nat src))"
proof -
  show c: "src \<noteq> []" "last src \<noteq> 0"
    using assms by (auto simp: dstream_new_def idx_def last_conv_nth split: if_splits)
  from dstream_new_spec [OF c] show "ready s" "stream_src s = src" "bits_left s = int (log2 (le_nat src))"
    using assms by (metis result.inject(1))+
qed

lemma reload_unfinished: "reload s = Ok (Unfinished, s') \<Longrightarrow> bits_consumed s' < 8"
  by (auto simp: reload_def reload_fast_def load_container_def reload_at_start_def Let_def split: if_splits)

subsection \<open>Popping the stack\<close>

definition reads :: "(nat \<times> nat) list \<Rightarrow> dstream \<Rightarrow> bool" where
  "reads st s \<longleftrightarrow> dinv s \<and> bits_left s = int (stack_bits st)
     \<and> le_nat (stream_src s) mod 2 ^ stack_bits st = stack_value st"

lemma reads_pop_room:
  assumes "reads ((v, n) # st) s" and room: "bits_consumed s + n \<le> 64" and "n < 32"
  shows "\<exists>x. read_bits s n = Ok (x, skip_bits s n) \<and> unat x = v mod 2 ^ n \<and> reads st (skip_bits s n)"
proof -
  let ?k = "stack_bits st"
  let ?S = "le_nat (stream_src s)"
  have left: "bits_left s = int (?k + n)" and m: "?S mod 2 ^ (?k + n) = stack_value st + 2 ^ ?k * (v mod 2 ^ n)"
    and inv: "dinv s"
    using assms(1) by (simp_all add: reads_def)
  have "?S div 2 ^ ?k mod 2 ^ n = (?S mod 2 ^ (?k + n)) div 2 ^ ?k mod 2 ^ n"
    using mod_div_mod [of ?k n "?k + n" ?S] by simp
  also have "\<dots> = v mod 2 ^ n" using stack_value_less [of st] by (simp add: m)
  finally have val: "?S div 2 ^ ?k mod 2 ^ n = v mod 2 ^ n" .
  have "?S mod 2 ^ ?k = (?S mod 2 ^ (?k + n)) mod 2 ^ ?k" by (simp add: mod_mod_cancel le_imp_power_dvd)
  also have "\<dots> = stack_value st" using stack_value_less [of st] by (simp add: m)
  finally have "reads st (skip_bits s n)" using inv left by (simp add: reads_def)
  moreover have "nat (bits_left s) - n = ?k" using left by simp
  ultimately show ?thesis
    using read_bits_value [OF inv room assms(3)] val by auto
qed

lemma reads_pop:
  assumes "reads ((v, n) # st) s" and "ready s" and "n < 32"
  shows "\<exists>x. read_bits s n = Ok (x, skip_bits s n) \<and> unat x = v mod 2 ^ n \<and> reads st (skip_bits s n)
    \<and> bits_consumed s + n \<le> 64"
proof -
  have "bits_consumed s + n \<le> 64"
    using ready_room [OF assms(2), of n] assms(1,3) by (simp add: reads_def)
  with reads_pop_room [OF assms(1) this assms(3)] show ?thesis by blast
qed

lemma ready_reload:
  assumes "reads st s" and "bits_consumed s \<le> 64"
  obtains t s' where "reload s = Ok (t, s')" and "reads st s'" and "ready s'" and "t \<noteq> Overflow"
proof -
  have inv: "dinv s" using assms(1) by (simp add: reads_def)
  from reload_spec [OF inv] assms(2) obtain t s' where r: "reload s = Ok (t, s')" "dinv s'"
    "stream_src s' = stream_src s" "bits_left s' = bits_left s" "t = Overflow \<longleftrightarrow> 64 < bits_consumed s"
    "bits_consumed s' \<le> 64 \<and> (bits_consumed s' < 8 \<or> ptr_pos s' = 0)" by metis
  show thesis
    using that [OF r(1)] r assms by (auto simp: reads_def ready_def)
qed

fun read_widths :: "dstream \<Rightarrow> nat list \<Rightarrow> (u64 list \<times> dstream) result" where
  "read_widths s [] = Ok ([], s)"
| "read_widths s (n # ns) =
     and_then (read_bits s n) (\<lambda>(v, s).
     and_then (reload s) (\<lambda>(st, s).
     and_then (read_widths s ns) (\<lambda>(vs, s). Ok (v # vs, s))))"

lemma read_widths_stack:
  "reads st s \<Longrightarrow> ready s \<Longrightarrow> \<forall>(v, n) \<in> set st. n < 32 \<Longrightarrow>
   \<exists>vs s'. read_widths s (map snd st) = Ok (vs, s') \<and> map unat vs = map (\<lambda>(v, n). v mod 2 ^ n) st
     \<and> reads [] s' \<and> ready s'"
proof (induction st arbitrary: s)
  case (Cons a st)
  obtain v n where a: "a = (v, n)" by force
  have n: "n < 32" using Cons.prems(3) by (simp add: a)
  from reads_pop [OF Cons.prems(1) [unfolded a] Cons.prems(2) n] obtain x where
    x: "read_bits s n = Ok (x, skip_bits s n)" "unat x = v mod 2 ^ n" "reads st (skip_bits s n)"
    "bits_consumed s + n \<le> 64" by blast
  have "bits_consumed (skip_bits s n) \<le> 64" using x(4) by simp
  from ready_reload [OF x(3) this] obtain t s1 where
    s1: "reload (skip_bits s n) = Ok (t, s1)" "reads st s1" "ready s1" by blast
  from Cons.IH [OF s1(2,3)] Cons.prems(3) obtain vs s' where
    "read_widths s1 (map snd st) = Ok (vs, s')" "map unat vs = map (\<lambda>(v, n). v mod 2 ^ n) st"
    "reads [] s'" "ready s'" by auto
  then show ?case using x s1 by (simp add: a)
qed simp

lemma reads_empty_end: "reads [] s \<Longrightarrow> ready s \<Longrightarrow> end_of_stream s"
  by (auto simp: reads_def ready_def end_of_stream_def bits_left_def CONTAINER_BITS_def)

text \<open>The bytes of a closed writer open as a reader of its stack.\<close>

lemma le_nat_last_zero: "xs \<noteq> [] \<Longrightarrow> last xs = 0 \<Longrightarrow> le_nat xs < 256 ^ (length xs - 1)"
proof -
  assume "xs \<noteq> []" "last xs = 0"
  then have "butlast xs @ [0] = xs" by (metis append_butlast_last_id)
  then have "le_nat xs = le_nat (butlast xs)"
    using le_nat_append [of "butlast xs" "[0]"] by simp
  then show ?thesis using le_nat_less [of "butlast xs"] by simp
qed

lemma open_closed:
  assumes "holds st s" and "cstream_close s = Ok (n, dst)" and "n \<noteq> 0"
  obtains r where "dstream_new (take n dst) = Ok r" and "reads st r" and "ready r"
proof -
  note c = close_spec [OF assms]
  let ?src = "take n dst" and ?k = "stack_bits st"
  have lt: "stack_value st < 2 ^ ?k" by (rule stack_value_less)
  have len: "length ?src = ?k div 8 + 1" using c(1,2) by simp
  then have ne: "?src \<noteq> []" by auto
  have "256 ^ (length ?src - 1) \<le> (2 :: nat) ^ ?k"
    by (simp only: len power_256) (rule power_increasing, auto)
  then have last: "last ?src \<noteq> 0"
    using le_nat_last_zero [OF ne] c(3) by linarith
  have log: "log2 (le_nat ?src) = ?k" using lt by (intro log2_unique) (simp_all add: c(3))
  from dstream_new_spec [OF ne last] obtain r where r: "dstream_new ?src = Ok r" "ready r" "stream_src r = ?src"
    "bits_left r = int (log2 (le_nat ?src))" by blast
  have "le_nat ?src mod 2 ^ ?k = stack_value st" using lt by (simp add: c(3))
  then have "reads st r" using r log by (simp add: reads_def ready_def)
  with that r show thesis by blast
qed

lemma holds_new: "cstream_new dst = Ok s \<Longrightarrow> holds [] s"
  using cstream_new_inv [of dst s] by (simp add: holds_def)

subsection \<open>Properties\<close>

text \<open>C5. The bitstream round trip: after any run of additions and flushes that trips no assertion, if
  closing reports success, the bytes written open as a stream, and reading the same widths in
  reverse order, with a reload after each, returns the values in reverse order, cut to their
  widths, and ends exactly at the end of the stream.\<close>

theorem bitstream_roundtrip:
  assumes "cstream_new dst = Ok s0" and "cstream_run s0 ops = Ok s" and "cstream_close s = Ok (n, out)"
    and "n \<noteq> 0" and "st = fold stack_op ops []" and "\<forall>(v, w) \<in> set st. w < 32"
  shows "\<exists>r vs r'. dstream_new (take n out) = Ok r \<and> read_widths r (map snd st) = Ok (vs, r')
    \<and> map unat vs = map (\<lambda>(v, w). v mod 2 ^ w) st \<and> end_of_stream r'"
proof -
  have "holds st s" using holds_run [OF holds_new [OF assms(1)] assms(2)] assms(5) by simp
  from open_closed [OF this assms(3,4)] obtain r where
    r: "dstream_new (take n out) = Ok r" "reads st r" "ready r" by blast
  from read_widths_stack [OF r(2,3) assms(6)] r(1) show ?thesis
    using reads_empty_end by blast
qed

definition sample_ops :: "bit_op list" where
  "sample_ops = [Add 5 3, Flush, AddFast 2 2]"

theorem bitstream_roundtrip_witness:
  "\<exists>r vs r'. dstream_new [53] = Ok r \<and> read_widths r [2, 3] = Ok (vs, r') \<and> map unat vs = [2, 5] \<and> end_of_stream r'"
proof -
  let ?dst = "replicate 9 0 :: bytes"
  define s0 where "s0 = \<lparr>c_container = 0, c_bit_pos = 0, c_dst = ?dst, c_byte_pos = 0, c_end_pos = 1\<rparr>"
  define s where "s = \<lparr>c_container = 21, c_bit_pos = 5, c_dst = [5, 0, 0, 0, 0, 0, 0, 0, 0],
      c_byte_pos = 0, c_end_pos = 1\<rparr>"
  have new: "cstream_new ?dst = Ok s0" by (simp add: cstream_new_def CONTAINER_BYTES_def s0_def)
  have run: "cstream_run s0 sample_ops = Ok s"
    by (simp add: sample_ops_def s0_def s_def add_bits_def add_bits_fast_def flush_bits_def CONTAINER_BITS_def
        write_u64_def copy_into_def idx_def le_bytes_8 le_bytes_4 mask_eq_exp_minus_1)
  have close: "cstream_close s = Ok (1, [53, 0, 0, 0, 0, 0, 0, 0, 0])"
    by (simp add: cstream_close_def s_def add_bits_fast_def flush_bits_def CONTAINER_BITS_def
        write_u64_def copy_into_def le_bytes_8 le_bytes_4)
  have "fold stack_op sample_ops [] = [(2, 2), (5, 3)]" by (simp add: sample_ops_def)
  from bitstream_roundtrip [OF new run close _ this [symmetric]] show ?thesis by simp
qed



end
