(* ===== verification/FseDecode.thy ===== *)
theory FseDecode
  imports FseCountProps BitReader
begin

section \<open>FSE decoding (entropy/fse.rs)\<close>

text \<open>
  The decoder's state machine of \<open>src/src/entropy/fse.rs\<close>: a state is an index into the table, and
  decoding a symbol reads the bits that complete the next state. The two interleaved
  states of \<open>decompress_using_dtable_generic\<close> fill the destination until the bitstream is
  used up; running past its start is how the end is recognised. The conditions on
  \<open>CONTAINER_BITS\<close> that the source leaves to the compiler are kept. On arbitrary input
  decompression does not fault, so the table is never left and no load leaves the input.
\<close>

type_synonym dstate = nat

definition init_dstate :: "dtable \<Rightarrow> dstream \<Rightarrow> (dstate \<times> dstream) result" where
  "init_dstate dt s =
     and_then (read_bits s (dt_table_log dt)) (\<lambda>(v, s).
     and_then (reload s) (\<lambda>(_, s). Ok (unat v, s)))"

definition init_dstate_seq :: "seq_dtable \<Rightarrow> dstream \<Rightarrow> (dstate \<times> dstream) result" where
  "init_dstate_seq dt s =
     and_then (read_bits s (st_table_log dt)) (\<lambda>(v, s).
     and_then (reload s) (\<lambda>(_, s). Ok (unat v, s)))"

definition entry_at :: "dtable \<Rightarrow> nat \<Rightarrow> decode_entry result" where
  "entry_at dt state =
     and_then (ok_or (slice_get (dt_entries dt) state) (Corruption ''FSE state exceeds table size'')) (\<lambda>entry.
       if table_entries_size (dt_table_log dt) \<le> state then Err (Corruption ''FSE state exceeds table size'')
       else Ok entry)"

definition peek_entry :: "dstate \<Rightarrow> dtable \<Rightarrow> decode_entry result" where
  "peek_entry state dt =
     (if table_entries_size (dt_table_log dt) \<le> state then Err (Corruption ''FSE state exceeds table size'')
      else idx (dt_entries dt) state)"

definition peek_symbol :: "dstate \<Rightarrow> dtable \<Rightarrow> nat result" where
  "peek_symbol state dt = and_then (idx (dt_entries dt) state) (\<lambda>e. Ok (de_symbol e))"

definition peek_entry_fast :: "dstate \<Rightarrow> dtable \<Rightarrow> decode_entry result" where
  "peek_entry_fast state dt =
     (if table_entries_size (dt_table_log dt) \<le> state then Fault else idx (dt_entries dt) state)"

definition read_state_bits :: "dstream \<Rightarrow> nat \<Rightarrow> (u64 \<times> dstream) result" where
  "read_state_bits s nb = (if can_read_fast s nb then read_bits_fast s nb else read_bits s nb)"

definition update_state_with_entry :: "dstream \<Rightarrow> decode_entry \<Rightarrow> (dstate \<times> dstream) result" where
  "update_state_with_entry s e =
     and_then (read_state_bits s (de_nb_bits e)) (\<lambda>(low_bits, s). Ok (de_new_state e + unat low_bits, s))"

definition update_state_with_entry_fast :: "dstream \<Rightarrow> decode_entry \<Rightarrow> (dstate \<times> dstream) result" where
  "update_state_with_entry_fast s e =
     and_then (read_bits_fast_zero_safe s (de_nb_bits e)) (\<lambda>(low_bits, s). Ok (de_new_state e + unat low_bits, s))"

definition update_state_with_seq_entry_fast :: "dstream \<Rightarrow> seq_entry \<Rightarrow> (dstate \<times> dstream) result" where
  "update_state_with_seq_entry_fast s e =
     and_then (read_bits_fast_zero_safe s (se_nb_bits e)) (\<lambda>(low_bits, s). Ok (se_new_state e + unat low_bits, s))"

definition update_state :: "dstate \<Rightarrow> dstream \<Rightarrow> dtable \<Rightarrow> (dstate \<times> dstream) result" where
  "update_state state s dt = and_then (idx (dt_entries dt) state) (update_state_with_entry s)"

definition decode_symbol :: "dstate \<Rightarrow> dstream \<Rightarrow> dtable \<Rightarrow> (nat \<times> dstate \<times> dstream) result" where
  "decode_symbol state s dt =
     and_then (idx (dt_entries dt) state) (\<lambda>info.
     and_then (read_state_bits s (de_nb_bits info)) (\<lambda>(low_bits, s).
       Ok (de_symbol info, de_new_state info + unat low_bits, s)))"

definition decode_symbol_fast :: "dstate \<Rightarrow> dstream \<Rightarrow> dtable \<Rightarrow> (nat \<times> dstate \<times> dstream) result" where
  "decode_symbol_fast state s dt =
     and_then (idx (dt_entries dt) state) (\<lambda>info.
     and_then (read_bits_fast s (de_nb_bits info)) (\<lambda>(low_bits, s).
       Ok (de_symbol info, de_new_state info + unat low_bits, s)))"

definition end_of_dstate :: "dstate \<Rightarrow> bool" where
  "end_of_dstate state \<longleftrightarrow> state = 0"

subsection \<open>Two interleaved states\<close>

text \<open>One use of the macro \<open>get_symbol\<close> with the store of its result.\<close>

definition get_symbol ::
    "bool \<Rightarrow> dtable \<Rightarrow> dstate \<Rightarrow> bytes \<Rightarrow> usize \<Rightarrow> dstream \<Rightarrow> (bytes \<times> dstate \<times> dstream) result" where
  "get_symbol fast dt state dst op s =
     and_then (if fast then decode_symbol_fast state s dt else decode_symbol state s dt) (\<lambda>(sym, state, s).
     and_then (upd dst op (word_of_nat sym)) (\<lambda>dst. Ok (dst, state, s)))"

definition reload_when :: "bool \<Rightarrow> dstream \<Rightarrow> dstream result" where
  "reload_when c s = (if c then and_then (reload s) (\<lambda>(_, s). Ok s) else Ok s)"

definition get_pair ::
    "bool \<Rightarrow> dtable \<Rightarrow> dstate \<Rightarrow> dstate \<Rightarrow> bytes \<Rightarrow> usize \<Rightarrow> dstream \<Rightarrow> (bytes \<times> dstate \<times> dstate \<times> dstream) result" where
  "get_pair fast dt state1 state2 dst op s =
     and_then (get_symbol fast dt state1 dst op s) (\<lambda>(dst, state1, s).
     and_then (reload_when (CONTAINER_BITS < TABLELOG_MAX * 2 + 7) s) (\<lambda>s.
     and_then (get_symbol fast dt state2 dst (op + 1) s) (\<lambda>(dst, state2, s).
       Ok (dst, state1, state2, s))))"

text \<open>The loop that decodes four symbols per reload.\<close>

function decode_quads ::
    "bool \<Rightarrow> dtable \<Rightarrow> usize \<Rightarrow> dstate \<Rightarrow> dstate \<Rightarrow> bytes \<Rightarrow> usize \<Rightarrow> dstream
      \<Rightarrow> (dstate \<times> dstate \<times> bytes \<times> usize \<times> dstream) result" where
  "decode_quads fast dt olimit state1 state2 dst op s =
     and_then (reload s) (\<lambda>(status, s).
       if status = Unfinished \<and> op < olimit then
         and_then (get_pair fast dt state1 state2 dst op s) (\<lambda>(dst, state1, state2, s).
         and_then (if CONTAINER_BITS < TABLELOG_MAX * 4 + 7
                   then and_then (reload s) (\<lambda>(status, s). Ok (status \<noteq> Unfinished, s))
                   else Ok (False, s)) (\<lambda>(stop, s).
           if stop then Ok (state1, state2, dst, op + 2, s) else
           and_then (get_pair fast dt state1 state2 dst (op + 2) s) (\<lambda>(dst, state1, state2, s).
             decode_quads fast dt olimit state1 state2 dst (op + 4) s)))
       else Ok (state1, state2, dst, op, s))"
  by pat_completeness auto
termination
  by (relation "measure (\<lambda>(fast, dt, olimit, state1, state2, dst, op, s). olimit - op)") auto

declare decode_quads.simps [simp del]

lemma get_symbol_length: "get_symbol fast dt state dst op s = Ok (dst', state', s') \<Longrightarrow> length dst' = length dst"
  by (auto simp: get_symbol_def split_beta)

text \<open>The loop that decodes the rest, one symbol per reload.\<close>

function decode_tail ::
    "bool \<Rightarrow> dtable \<Rightarrow> dstate \<Rightarrow> dstate \<Rightarrow> bytes \<Rightarrow> usize \<Rightarrow> dstream \<Rightarrow> (bytes \<times> usize) result" where
  "decode_tail fast dt state1 state2 dst op s =
     (if length dst - 2 < op then Err DstSizeTooSmall else
      and_then (get_symbol fast dt state1 dst op s) (\<lambda>(dst, state1, s).
      and_then (reload s) (\<lambda>(status, s).
        if status = Overflow then
          and_then (get_symbol fast dt state2 dst (op + 1) s) (\<lambda>(dst, state2, s). Ok (dst, op + 2))
        else if length dst - 2 < op + 1 then Err DstSizeTooSmall else
        and_then (get_symbol fast dt state2 dst (op + 1) s) (\<lambda>(dst, state2, s).
        and_then (reload s) (\<lambda>(status, s).
          if status = Overflow then
            and_then (get_symbol fast dt state1 dst (op + 2) s) (\<lambda>(dst, state1, s). Ok (dst, op + 3))
          else decode_tail fast dt state1 state2 dst (op + 2) s)))))"
  by pat_completeness auto
termination
  by (relation "measure (\<lambda>(fast, dt, state1, state2, dst, op, s). length dst - op)")
    (auto dest!: get_symbol_length)

declare decode_tail.simps [simp del]

definition decompress_using_dtable_generic :: "bytes \<Rightarrow> bytes \<Rightarrow> dtable \<Rightarrow> bool \<Rightarrow> (bytes \<times> usize) result" where
  "decompress_using_dtable_generic dst src dt fast =
     (if dt_table_log dt = 0 then Err (Corruption ''FSE interleaved decode does not support RLE tables'') else
      and_then (dstream_new src) (\<lambda>s.
      and_then (init_dstate dt s) (\<lambda>(state1, s).
      and_then (init_dstate dt s) (\<lambda>(state2, s).
      and_then (reload s) (\<lambda>(status, s).
        if status = Overflow then Err (Corruption ''FSE bitstream is too short to hold both initial states'') else
        and_then (decode_quads fast dt (length dst - 3) state1 state2 dst 0 s) (\<lambda>(state1, state2, dst, op, s).
          decode_tail fast dt state1 state2 dst op s))))))"

definition decompress_interleaved2 :: "bytes \<Rightarrow> bytes \<Rightarrow> dtable \<Rightarrow> (bytes \<times> usize) result" where
  "decompress_interleaved2 dst src dt = decompress_using_dtable_generic dst src dt (dt_fast_mode dt)"

definition fse_decompress :: "bytes \<Rightarrow> bytes \<Rightarrow> nat \<Rightarrow> nat \<Rightarrow> (bytes \<times> usize) result" where
  "fse_decompress dst src max_symbol_value max_table_log =
     and_then (read_ncount (replicate (SYMBOLVALUE_MAX + 1) 0) max_symbol_value src max_table_log)
       (\<lambda>(normalized, max_symbol_value, table_log, ncount_len).
     and_then (build_dtable dtable_default normalized max_symbol_value table_log) (\<lambda>dtable.
     and_then (idx_from src ncount_len) (\<lambda>rest. decompress_interleaved2 dst rest dtable)))"

subsection \<open>Decoding stays inside the table\<close>

lemma read_state_bits_eq [simp]: "read_state_bits s nb = read_bits s nb"
  by (auto simp: read_state_bits_def read_bits_def can_read_fast_def)

lemma read_bits_fast_total:
  assumes "1 \<le> nb" and "nb \<le> 32"
  shows "\<exists>v. read_bits_fast s nb = Ok (v, skip_bits s nb) \<and> unat v < 2 ^ nb"
proof -
  let ?w = "push_bit (bits_consumed s mod 64) (bit_container s)"
  have "(64 - nb) mod 64 = 64 - nb" using assms by simp
  moreover have "unat (drop_bit (64 - nb) ?w) < 2 ^ nb"
  proof -
    have "unat ?w < 2 ^ nb * 2 ^ (64 - nb)" using assms unat_u64_less [of ?w] by (simp flip: power_add)
    then show ?thesis by (simp add: unat_drop_bit_div less_mult_imp_div_less)
  qed
  ultimately show ?thesis
    using assms by (simp add: read_bits_fast_def look_bits_fast_def)
qed

lemma zero_safe_total:
  assumes "nb \<le> 32"
  shows "\<exists>v. read_bits_fast_zero_safe s nb = Ok (v, skip_bits s nb) \<and> unat v < 2 ^ nb"
proof -
  have m: "2 ^ nb - 1 = (mask nb :: u64)" by (simp add: mask_eq_exp_minus_1)
  show ?thesis
    using assms by (simp add: read_bits_fast_zero_safe_def Let_def m unat_and_mask)
qed

definition entry_of :: "dtable \<Rightarrow> dstate \<Rightarrow> decode_entry" where
  "entry_of dt state = dt_entries dt ! state"

lemma dtable_ok_entry:
  assumes "dtable_ok dt" and "state < 2 ^ dt_table_log dt"
  shows "state < length (dt_entries dt)"
    and "de_new_state (entry_of dt state) + 2 ^ de_nb_bits (entry_of dt state) \<le> 2 ^ dt_table_log dt"
    and "de_nb_bits (entry_of dt state) \<le> 9" and "de_symbol (entry_of dt state) < 256"
    and "dt_fast_mode dt \<Longrightarrow> 1 \<le> de_nb_bits (entry_of dt state)"
proof -
  have "dt_table_log dt \<le> 9" using assms(1) by (simp add: dtable_ok_def)
  then have "(2 :: nat) ^ dt_table_log dt \<le> 512" by (rule two_power_le_512)
  then show "state < length (dt_entries dt)" using assms by (simp add: dtable_ok_def TABLESIZE_MAX_def)
qed (use assms in \<open>auto simp: dtable_ok_def entry_of_def\<close>)

text \<open>One symbol: it is the state's, its bits are consumed, the next state is in the table.\<close>

lemma get_symbol_spec:
  assumes dt: "dtable_ok dt" and st: "state < 2 ^ dt_table_log dt" and op: "op < length dst"
    and fast: "fast \<longrightarrow> dt_fast_mode dt"
  obtains v where "get_symbol fast dt state dst op s =
      Ok (dst[op := word_of_nat (de_symbol (entry_of dt state))], de_new_state (entry_of dt state) + unat v,
        skip_bits s (de_nb_bits (entry_of dt state)))"
    and "read_bits s (de_nb_bits (entry_of dt state)) = Ok (v, skip_bits s (de_nb_bits (entry_of dt state))) \<or> fast"
    and "de_new_state (entry_of dt state) + unat v < 2 ^ dt_table_log dt"
proof -
  note e = dtable_ok_entry [OF dt st]
  let ?e = "entry_of dt state"
  have i: "idx (dt_entries dt) state = Ok ?e" using e(1) by (simp add: entry_of_def)
  have nb: "de_nb_bits ?e < 32" "de_nb_bits ?e \<le> 32" using e(3) by auto
  show thesis
  proof (cases fast)
    case True
    then have "1 \<le> de_nb_bits ?e" using e(5) fast by blast
    from read_bits_fast_total [OF this nb(2), of s] obtain v where
      "read_bits_fast s (de_nb_bits ?e) = Ok (v, skip_bits s (de_nb_bits ?e))" "unat v < 2 ^ de_nb_bits ?e" by blast
    with that [of v] e(2) op True show thesis
      by (simp add: get_symbol_def decode_symbol_fast_def i)
  next
    case False
    from read_bits_total [OF nb(1), of s] obtain v where
      "read_bits s (de_nb_bits ?e) = Ok (v, skip_bits s (de_nb_bits ?e))" "unat v < 2 ^ de_nb_bits ?e" by blast
    with that [of v] e(2) op False show thesis
      by (simp add: get_symbol_def decode_symbol_def i)
  qed
qed

lemma get_symbol_ex:
  assumes "dtable_ok dt" and "state < 2 ^ dt_table_log dt" and "op < length dst" and "fast \<longrightarrow> dt_fast_mode dt"
  shows "\<exists>v. get_symbol fast dt state dst op s =
      Ok (dst[op := word_of_nat (de_symbol (entry_of dt state))], de_new_state (entry_of dt state) + unat v,
        skip_bits s (de_nb_bits (entry_of dt state)))
    \<and> de_new_state (entry_of dt state) + unat (v :: u64) < 2 ^ dt_table_log dt"
  by (rule get_symbol_spec [OF assms, of s]) (rule exI, rule conjI)

lemma init_dstate_spec:
  assumes "dtable_ok dt" and "dinv s"
  obtains st s' where "init_dstate dt s = Ok (st, s')" and "st < 2 ^ dt_table_log dt" and "dinv s'"
proof -
  have "dt_table_log dt < 32" using assms(1) by (simp add: dtable_ok_def)
  from read_bits_total [OF this, of s] obtain v where
    v: "read_bits s (dt_table_log dt) = Ok (v, skip_bits s (dt_table_log dt))" "unat v < 2 ^ dt_table_log dt" by blast
  have "dinv (skip_bits s (dt_table_log dt))" using assms(2) by simp
  from reload_spec [OF this] obtain t s' where
    "reload (skip_bits s (dt_table_log dt)) = Ok (t, s')" "dinv s'" by blast
  with that [of "unat v" s'] v show thesis by (simp add: init_dstate_def)
qed

lemma get_pair_spec:
  assumes dt: "dtable_ok dt" and st: "state1 < 2 ^ dt_table_log dt" "state2 < 2 ^ dt_table_log dt"
    and op: "op + 1 < length dst" and fast: "fast \<longrightarrow> dt_fast_mode dt" and s: "dinv s"
  obtains st1 st2 dst' s' where "get_pair fast dt state1 state2 dst op s = Ok (dst', st1, st2, s')"
    and "st1 < 2 ^ dt_table_log dt" and "st2 < 2 ^ dt_table_log dt" and "length dst' = length dst" and "dinv s'"
proof -
  have op1: "op < length dst" using op by simp
  obtain v1 :: u64 where 1: "get_symbol fast dt state1 dst op s =
      Ok (dst[op := word_of_nat (de_symbol (entry_of dt state1))], de_new_state (entry_of dt state1) + unat v1,
        skip_bits s (de_nb_bits (entry_of dt state1)))"
    "de_new_state (entry_of dt state1) + unat v1 < 2 ^ dt_table_log dt"
    using get_symbol_ex [OF dt st(1) op1 fast, of s] by blast
  let ?dst = "dst[op := word_of_nat (de_symbol (entry_of dt state1))]"
  let ?s = "skip_bits s (de_nb_bits (entry_of dt state1))"
  have op2: "op + 1 < length ?dst" using op by simp
  obtain v2 :: u64 where 2: "get_symbol fast dt state2 ?dst (op + 1) ?s =
      Ok (?dst[op + 1 := word_of_nat (de_symbol (entry_of dt state2))], de_new_state (entry_of dt state2) + unat v2,
        skip_bits ?s (de_nb_bits (entry_of dt state2)))"
    "de_new_state (entry_of dt state2) + unat v2 < 2 ^ dt_table_log dt"
    using get_symbol_ex [OF dt st(2) op2 fast, of ?s] by blast
  have c: "\<not> CONTAINER_BITS < TABLELOG_MAX * 2 + 7" by (simp add: CONTAINER_BITS_def TABLELOG_MAX_def)
  have "get_pair fast dt state1 state2 dst op s = Ok (?dst[op + 1 := word_of_nat (de_symbol (entry_of dt state2))],
      de_new_state (entry_of dt state1) + unat v1, de_new_state (entry_of dt state2) + unat v2,
      skip_bits ?s (de_nb_bits (entry_of dt state2)))"
    by (simp only: get_pair_def 1(1) 2(1) and_then.simps prod.case reload_when_def c if_False)
  from that [OF this 1(2) 2(2)] s show thesis by simp
qed

lemma decode_quads_spec:
  "dtable_ok dt \<Longrightarrow> state1 < 2 ^ dt_table_log dt \<Longrightarrow> state2 < 2 ^ dt_table_log dt \<Longrightarrow>
   olimit + 3 \<le> length dst \<or> olimit \<le> op \<Longrightarrow> (fast \<longrightarrow> dt_fast_mode dt) \<Longrightarrow> dinv s \<Longrightarrow>
   \<exists>st1 st2 dst' op' s'. decode_quads fast dt olimit state1 state2 dst op s = Ok (st1, st2, dst', op', s')
     \<and> st1 < 2 ^ dt_table_log dt \<and> st2 < 2 ^ dt_table_log dt \<and> length dst' = length dst \<and> dinv s'"
proof (induction fast dt olimit state1 state2 dst op s rule: decode_quads.induct)
  case (1 fast dt olimit state1 state2 dst op s)
  note dt = "1.prems"(1) and fast = "1.prems"(5)
  from reload_spec [OF "1.prems"(6)] obtain t s1 where s1: "reload s = Ok (t, s1)" "dinv s1" by blast
  have c: "\<not> CONTAINER_BITS < TABLELOG_MAX * 4 + 7" by (simp add: CONTAINER_BITS_def TABLELOG_MAX_def)
  show ?case
  proof (cases "t = Unfinished \<and> op < olimit")
    case False
    then have "decode_quads fast dt olimit state1 state2 dst op s = Ok (state1, state2, dst, op, s1)"
      by (subst decode_quads.simps) (simp only: s1(1) and_then.simps prod.case if_False)
    then show ?thesis using "1.prems" s1(2) by blast
  next
    case True
    then have len: "olimit + 3 \<le> length dst" using "1.prems"(4) by simp
    have op: "op + 1 < length dst" using True len by simp
    from get_pair_spec [OF dt "1.prems"(2,3) op fast s1(2)] obtain st1 st2 dst1 s2 where
      p1: "get_pair fast dt state1 state2 dst op s1 = Ok (dst1, st1, st2, s2)" "st1 < 2 ^ dt_table_log dt"
      "st2 < 2 ^ dt_table_log dt" "length dst1 = length dst" "dinv s2" .
    have op2: "op + 2 + 1 < length dst1" using True len p1(4) by simp
    from get_pair_spec [OF dt p1(2,3) op2 fast p1(5)] obtain st3 st4 dst2 s3 where
      p2: "get_pair fast dt st1 st2 dst1 (op + 2) s2 = Ok (dst2, st3, st4, s3)" "st3 < 2 ^ dt_table_log dt"
      "st4 < 2 ^ dt_table_log dt" "length dst2 = length dst1" "dinv s3" .
    have step: "decode_quads fast dt olimit state1 state2 dst op s = decode_quads fast dt olimit st3 st4 dst2 (op + 4) s3"
      by (subst decode_quads.simps)
        (simp only: s1(1) and_then.simps prod.case True simp_thms if_True p1(1) c if_False p2(1))
    have len2: "olimit + 3 \<le> length dst2 \<or> olimit \<le> op + 4" using len p1(4) p2(4) by simp
    have IH: "\<exists>st1 st2 dst' op' s'. decode_quads fast dt olimit st3 st4 dst2 (op + 4) s3 = Ok (st1, st2, dst', op', s')
     \<and> st1 < 2 ^ dt_table_log dt \<and> st2 < 2 ^ dt_table_log dt \<and> length dst' = length dst2 \<and> dinv s'"
      by (rule "1.IH" [OF s1(1) refl True p1(1) refl refl refl _ refl _ p2(1) refl refl refl dt p2(2,3) len2 fast p2(5), of False])
        (simp_all only: c if_False simp_thms)
    then show ?thesis by (simp only: step p2(4) p1(4))
  qed
qed

lemma decode_tail_spec:
  "dtable_ok dt \<Longrightarrow> state1 < 2 ^ dt_table_log dt \<Longrightarrow> state2 < 2 ^ dt_table_log dt \<Longrightarrow> 2 \<le> length dst \<Longrightarrow>
   (fast \<longrightarrow> dt_fast_mode dt) \<Longrightarrow> dinv s \<Longrightarrow>
   meets (decode_tail fast dt state1 state2 dst op s) (\<lambda>(dst', n). length dst' = length dst \<and> n \<le> length dst)"
proof (induction fast dt state1 state2 dst op s rule: decode_tail.induct)
  case (1 fast dt state1 state2 dst op s)
  note dt = "1.prems"(1) and len = "1.prems"(4) and fast = "1.prems"(5)
  let ?Q = "\<lambda>(dst', n). length dst' = length dst \<and> n \<le> length dst"
  show ?case
  proof (cases "length dst - 2 < op")
    case True
    then show ?thesis by (subst decode_tail.simps) simp
  next
    case room: False
    then have op: "op < length dst" using len by simp
    from get_symbol_ex [OF dt "1.prems"(2) op fast, of s] obtain v1 :: u64 where g1: "get_symbol fast dt state1 dst op s =
        Ok (dst[op := word_of_nat (de_symbol (entry_of dt state1))], de_new_state (entry_of dt state1) + unat v1,
          skip_bits s (de_nb_bits (entry_of dt state1)))"
      "de_new_state (entry_of dt state1) + unat v1 < 2 ^ dt_table_log dt" by blast
    define dst1 where "dst1 = dst[op := word_of_nat (de_symbol (entry_of dt state1))]"
    define st1 where "st1 = de_new_state (entry_of dt state1) + unat v1"
    have st1: "st1 < 2 ^ dt_table_log dt" using g1(2) by (simp add: st1_def)
    have l1: "length dst1 = length dst" by (simp add: dst1_def)
    have inv1: "dinv (skip_bits s (de_nb_bits (entry_of dt state1)))" using "1.prems"(6) by simp
    note g1' = g1(1) [folded dst1_def st1_def]
    from reload_spec [OF inv1] obtain t1 s1 where
      r1: "reload (skip_bits s (de_nb_bits (entry_of dt state1))) = Ok (t1, s1)" "dinv s1" by blast
    have op2: "op + 1 < length dst1" using room len l1 by simp
    from get_symbol_ex [OF dt "1.prems"(3) op2 fast, of s1] obtain v2 :: u64 where
      g2: "get_symbol fast dt state2 dst1 (op + 1) s1 =
        Ok (dst1[op + 1 := word_of_nat (de_symbol (entry_of dt state2))], de_new_state (entry_of dt state2) + unat v2,
          skip_bits s1 (de_nb_bits (entry_of dt state2)))"
      "de_new_state (entry_of dt state2) + unat v2 < 2 ^ dt_table_log dt" by blast
    define dst2 where "dst2 = dst1[op + 1 := word_of_nat (de_symbol (entry_of dt state2))]"
    define st2 where "st2 = de_new_state (entry_of dt state2) + unat v2"
    have st2: "st2 < 2 ^ dt_table_log dt" using g2(2) by (simp add: st2_def)
    have l2: "length dst2 = length dst" by (simp add: dst2_def l1)
    note g2' = g2(1) [folded dst2_def st2_def]
    have inv2: "dinv (skip_bits s1 (de_nb_bits (entry_of dt state2)))" using r1(2) by simp
    from reload_spec [OF inv2] obtain t2 s2 where
      r2: "reload (skip_bits s1 (de_nb_bits (entry_of dt state2))) = Ok (t2, s2)" "dinv s2" by blast
    note unfold = decode_tail.simps [of fast dt state1 state2 dst op s, unfolded if_not_P [OF room] g1' and_then.simps
        prod.case r1(1) g2']
    consider "t1 = Overflow" | "t1 \<noteq> Overflow" "length dst1 - 2 < op + 1" |
      "t1 \<noteq> Overflow" "\<not> length dst1 - 2 < op + 1" "t2 = Overflow" |
      "t1 \<noteq> Overflow" "\<not> length dst1 - 2 < op + 1" "t2 \<noteq> Overflow" by blast
    then show ?thesis
    proof cases
      case 1
      then show ?thesis using op2 l1 l2 by (simp add: unfold)
    next
      case 2
      then show ?thesis by (simp add: unfold)
    next
      case 3
      have op3: "op + 2 < length dst2" using 3(2) l1 l2 len by simp
      from get_symbol_ex [OF dt st1 op3 fast, of s2] obtain v3 :: u64 where
        g3: "get_symbol fast dt st1 dst2 (op + 2) s2 =
          Ok (dst2[op + 2 := word_of_nat (de_symbol (entry_of dt st1))], de_new_state (entry_of dt st1) + unat v3,
            skip_bits s2 (de_nb_bits (entry_of dt st1)))" by blast
      then show ?thesis using 3 op3 l2 r2(1) by (simp add: unfold)
    next
      case 4
      have len2: "2 \<le> length dst2" using len l2 by simp
      have "meets (decode_tail fast dt st1 st2 dst2 (op + 2) s2) (\<lambda>(dst', n). length dst' = length dst2 \<and> n \<le> length dst2)"
        by (rule "1.IH" [OF room g1' refl refl r1(1) refl 4(1,2) g2' refl refl r2(1) refl 4(3) dt st1 st2 len2 fast r2(2)])
      then show ?thesis using 4 r2(1) by (simp add: unfold l2)
    qed
  qed
qed

lemma decompress_generic_meets:
  assumes "dtable_ok dt" and "2 \<le> length dst" and "fast \<longrightarrow> dt_fast_mode dt"
  shows "meets (decompress_using_dtable_generic dst src dt fast) (\<lambda>(dst', n). length dst' = length dst \<and> n \<le> length dst)"
proof (cases "dstream_new src")
  case (Ok s)
  have s: "dinv s" using dstream_new_Ok(3) [OF Ok] by (simp add: ready_def)
  from init_dstate_spec [OF assms(1) s] obtain st1 s1 where
    i1: "init_dstate dt s = Ok (st1, s1)" "st1 < 2 ^ dt_table_log dt" "dinv s1" .
  from init_dstate_spec [OF assms(1) i1(3)] obtain st2 s2 where
    i2: "init_dstate dt s1 = Ok (st2, s2)" "st2 < 2 ^ dt_table_log dt" "dinv s2" .
  from reload_spec [OF i2(3)] obtain t s3 where r: "reload s2 = Ok (t, s3)" "dinv s3" by blast
  have "length dst - 3 + 3 \<le> length dst \<or> length dst - 3 \<le> 0" by arith
  from decode_quads_spec [OF assms(1) i1(2) i2(2) this assms(3) r(2)] obtain st3 st4 dst1 op s4 where
    q: "decode_quads fast dt (length dst - 3) st1 st2 dst 0 s3 = Ok (st3, st4, dst1, op, s4)"
    "st3 < 2 ^ dt_table_log dt" "st4 < 2 ^ dt_table_log dt" "length dst1 = length dst" "dinv s4" by blast
  have "2 \<le> length dst1" using assms(2) q(4) by simp
  from decode_tail_spec [OF assms(1) q(2,3) this assms(3) q(5), of op] show ?thesis
    by (simp add: decompress_using_dtable_generic_def Ok i1(1) i2(1) r(1) q(1,4))
next
  case Fault
  then show ?thesis using dstream_new_no_fault by simp
qed (simp add: decompress_using_dtable_generic_def)

lemma fse_decompress_meets:
  assumes "length src \<le> usize_max" and "2 \<le> length dst"
  shows "meets (fse_decompress dst src msv mtl) (\<lambda>(dst', n). length dst' = length dst \<and> n \<le> length dst)"
proof (cases "read_ncount (replicate (SYMBOLVALUE_MAX + 1) 0) msv src mtl")
  case (Ok r)
  obtain counts msv' log used where r: "r = (counts, msv', log, used)" by (cases r)
  from read_ncount_meets [OF assms(1), of "replicate (SYMBOLVALUE_MAX + 1) 0" msv mtl] Ok r have
    v: "counts_valid log counts (Suc msv')" "used \<le> length src" by (simp_all add: ncount_ok_def)
  have "length (dt_entries dtable_default) = TABLESIZE_MAX" by (simp add: dtable_default_def)
  from build_dtable_spec [OF v(1) this] obtain dt where dt: "build_dtable dtable_default counts msv' log = Ok dt"
    "dtable_ok dt" by blast
  have "fse_decompress dst src msv mtl = decompress_interleaved2 dst (drop used src) dt"
    unfolding fse_decompress_def Ok r and_then.simps prod.case dt(1) using v(2) by (simp add: idx_from_def)
  then show ?thesis
    using decompress_generic_meets [OF dt(2) assms(2), of "dt_fast_mode dt"] by (simp add: decompress_interleaved2_def)
next
  case Fault
  then show ?thesis using read_ncount_meets [OF assms(1), of "replicate (SYMBOLVALUE_MAX + 1) 0" msv mtl] by simp
qed (simp add: fse_decompress_def)

subsection \<open>Properties\<close>

text \<open>C22. FSE decompression is memory safe on every input: whatever bytes follow, the table description
  is read, the table built and the two interleaved states run without leaving the table, the input
  or the destination, and the number of bytes reported lies within the destination.\<close>

theorem fse_decompress_safe:
  assumes "length src \<le> usize_max" and "2 \<le> length dst"
  shows "fse_decompress dst src msv mtl \<noteq> Fault
    \<and> (\<forall>dst' n. fse_decompress dst src msv mtl = Ok (dst', n) \<longrightarrow> length dst' = length dst \<and> n \<le> length dst)"
  using fse_decompress_meets [OF assms, of msv mtl] by (auto simp: meets_iff)

theorem fse_decompress_safe_witness:
  "fse_decompress (replicate 255 0) [16, 255, 3, 77, 1, 200, 9] 12 6 \<noteq> Fault"
  by (rule conjunct1 [OF fse_decompress_safe]) (simp_all add: usize_max_def)

end
