(* ===== verification/FseEncode.thy ===== *)
theory FseEncode
  imports FseBuild BitReader
begin

section \<open>FSE encoding (entropy/fse.rs)\<close>

text \<open>
  The encoding side of \<open>src/src/entropy/fse.rs\<close>: \<open>CTable\<close> and its builder, the encoder's state and
  its transitions, and the interleaved compressor. Arithmetic of \<open>u16\<close> and \<open>u32\<close> that could
  overflow is a fault, casts that could cut are written out, and an index computed in
  \<open>i32\<close> is cast to \<open>usize\<close> as the code does, so a negative one is far out of range.
\<close>

record symbol_transform =
  delta_find_state :: int
  delta_nb_bits :: nat

record ctable =
  ct_table_log :: nat
  ct_max_symbol_value :: nat
  ct_state_table :: "nat list"
  ct_symbol_tt :: "symbol_transform list"

definition transform_default :: symbol_transform where
  "transform_default = \<lparr>delta_find_state = 0, delta_nb_bits = 0\<rparr>"

definition ctable_default :: ctable where
  "ctable_default = \<lparr>ct_table_log = 0, ct_max_symbol_value = 0, ct_state_table = replicate TABLESIZE_MAX 0,
     ct_symbol_tt = replicate (SYMBOLVALUE_MAX + 1) transform_default\<rparr>"

definition max_nb_bits :: "ctable \<Rightarrow> nat \<Rightarrow> nat result" where
  "max_nb_bits ct symbol =
     and_then (idx (ct_symbol_tt ct) symbol) (\<lambda>t. Ok ((delta_nb_bits t + (2 ^ 16 - 1)) mod 2 ^ 32 div 2 ^ 16))"

definition add_u16 :: "nat \<Rightarrow> nat \<Rightarrow> nat result" where
  "add_u16 a b = (if a + b < 65536 then Ok (a + b) else Fault)"

definition sub_u32 :: "nat \<Rightarrow> nat \<Rightarrow> nat result" where
  "sub_u32 a b = (if b \<le> a then Ok (a - b) else Fault)"

subsection \<open>The builder\<close>

text \<open>The first pass: the cumulated counts, and the low-probability symbols at the top.\<close>

definition place_cumul :: "int list \<Rightarrow> nat \<Rightarrow> nat list \<times> nat list \<times> nat \<Rightarrow> (nat list \<times> nat list \<times> nat) result" where
  "place_cumul counts s st =
     (case st of (cumul, ts, high) \<Rightarrow>
      and_then (idx counts s) (\<lambda>c.
      and_then (idx cumul s) (\<lambda>prev.
      if c = -1 then
        and_then (add_u16 prev 1) (\<lambda>next.
        and_then (upd cumul (s + 1) next) (\<lambda>cumul.
        and_then (upd ts high (s mod 256)) (\<lambda>ts. Ok (cumul, ts, high - 1))))
      else if c < 0 then Err (Corruption ''invalid normalized FSE count'')
      else
        and_then (add_u16 prev (nat c mod 65536)) (\<lambda>next.
        and_then (upd cumul (s + 1) next) (\<lambda>cumul. Ok (cumul, ts, high))))))"

text \<open>One state of the table: the next slot of its symbol.\<close>

definition place_state :: "nat \<Rightarrow> nat list \<Rightarrow> nat \<Rightarrow> nat list \<times> nat list \<Rightarrow> (nat list \<times> nat list) result" where
  "place_state table_size ts u st =
     (case st of (cumul, states) \<Rightarrow>
      and_then (idx ts u) (\<lambda>s.
      and_then (idx cumul s) (\<lambda>slot.
      and_then (upd states slot ((table_size + u) mod 65536)) (\<lambda>states.
      and_then (upd cumul s ((slot + 1) mod 65536)) (\<lambda>cumul. Ok (cumul, states))))))"

definition zero_count_delta :: "nat \<Rightarrow> nat result" where
  "zero_count_delta table_log = sub_u32 ((table_log + 1) * 2 ^ 16) (2 ^ table_log)"

text \<open>The transform of a symbol.\<close>

definition symbol_transform_of :: "nat \<Rightarrow> int \<Rightarrow> nat \<Rightarrow> (symbol_transform \<times> nat) result" where
  "symbol_transform_of table_log cnt acc =
     (if cnt = 0 then
        and_then (zero_count_delta table_log) (\<lambda>d. Ok (\<lparr>delta_find_state = 0, delta_nb_bits = d\<rparr>, acc))
      else if cnt = -1 \<or> cnt = 1 then
        and_then (sub_u32 (table_log * 2 ^ 16) (2 ^ table_log)) (\<lambda>d.
          Ok (\<lparr>delta_find_state = int acc - 1, delta_nb_bits = d\<rparr>, acc + 1))
      else if 1 < cnt then
        and_then (highbit32 (nat cnt - 1)) (\<lambda>hb.
        and_then (sub_u32 table_log hb) (\<lambda>max_bits_out.
        let min_state_plus = nat cnt * 2 ^ max_bits_out in
        and_then (sub_u32 (max_bits_out * 2 ^ 16) min_state_plus) (\<lambda>d.
          Ok (\<lparr>delta_find_state = int acc - cnt, delta_nb_bits = d\<rparr>, acc + nat cnt))))
      else Err (Corruption ''invalid normalized FSE count''))"

definition add_transform :: "nat \<Rightarrow> int list \<Rightarrow> nat \<Rightarrow> symbol_transform list \<times> nat \<Rightarrow> (symbol_transform list \<times> nat) result" where
  "add_transform table_log counts s st =
     (case st of (tts, acc) \<Rightarrow>
      and_then (idx counts s) (\<lambda>cnt.
      and_then (symbol_transform_of table_log cnt acc) (\<lambda>(t, acc).
      and_then (upd tts s t) (\<lambda>tts. Ok (tts, acc)))))"

definition set_delta :: "nat \<Rightarrow> nat \<Rightarrow> symbol_transform list \<Rightarrow> symbol_transform list result" where
  "set_delta d s tts = and_then (idx tts s) (\<lambda>t. upd tts s (t\<lparr>delta_nb_bits := d\<rparr>))"

definition build_ctable :: "ctable \<Rightarrow> int list \<Rightarrow> nat \<Rightarrow> nat \<Rightarrow> ctable result" where
  "build_ctable ct counts max_symbol_value table_log =
     and_then (check_table_args counts max_symbol_value table_log) (\<lambda>_.
     let table_size = 2 ^ table_log; max_sv1 = max_symbol_value + 1 in
     and_then (loop_over (place_cumul counts) [0..<max_sv1]
                 (replicate (SYMBOLVALUE_MAX + 2) 0, replicate TABLESIZE_MAX 0, table_size - 1)) (\<lambda>(cumul, ts, high).
     and_then (add_u16 (table_size mod 65536) 1) (\<lambda>sentinel.
     and_then (upd cumul max_sv1 sentinel) (\<lambda>cumul.
     and_then (loop_over (spread_symbol counts (table_step table_size) table_size high) [0..<max_sv1] (ts, 0)) (\<lambda>(ts, pos).
     if pos \<noteq> 0 then Err Generic else
     and_then (loop_over (place_state table_size ts) [0..<table_size]
                 (cumul, map (\<lambda>_. 0) (ct_state_table ct))) (\<lambda>(cumul, states).
     and_then (loop_over (add_transform table_log counts) [0..<max_sv1]
                 (map (\<lambda>_. transform_default) (ct_symbol_tt ct), 0)) (\<lambda>(tts, acc).
     and_then (zero_count_delta table_log) (\<lambda>d.
     and_then (loop_over (set_delta d) [max_sv1..<length tts] tts) (\<lambda>tts.
       Ok \<lparr>ct_table_log = table_log, ct_max_symbol_value = max_symbol_value mod 65536,
           ct_state_table = states, ct_symbol_tt = tts\<rparr>)))))))))"

definition build_rle_ctable :: "ctable \<Rightarrow> nat \<Rightarrow> ctable result" where
  "build_rle_ctable ct symbol =
     and_then (upd (map (\<lambda>_. transform_default) (ct_symbol_tt ct)) symbol transform_default) (\<lambda>tts.
       Ok \<lparr>ct_table_log = 0, ct_max_symbol_value = symbol, ct_state_table = map (\<lambda>_. 0) (ct_state_table ct),
           ct_symbol_tt = tts\<rparr>)"

subsection \<open>The encoder's state\<close>

type_synonym cstate = nat

definition symbol_check :: "ctable \<Rightarrow> nat \<Rightarrow> unit result" where
  "symbol_check ct symbol =
     demand (symbol \<le> ct_max_symbol_value ct) (Corruption ''FSE symbol exceeds compression table'')"

text \<open>The state-table entry of an index computed in \<open>i32\<close>.\<close>

definition next_cstate :: "ctable \<Rightarrow> int \<Rightarrow> cstate result" where
  "next_cstate ct i =
     ok_or (slice_get (ct_state_table ct) (nat (i mod 2 ^ 64))) (Corruption ''FSE compression state exceeds table size'')"

definition ctable_bit_cost :: "ctable \<Rightarrow> nat \<Rightarrow> nat \<Rightarrow> nat result" where
  "ctable_bit_cost ct symbol accuracy_log =
     and_then (symbol_check ct symbol) (\<lambda>_.
     and_then (idx (ct_symbol_tt ct) symbol) (\<lambda>t.
     let min_nb_bits = delta_nb_bits t div 2 ^ 16;
         threshold = (min_nb_bits + 1) * 2 ^ 16;
         table_size = 2 ^ ct_table_log ct in
     and_then (sub_u32 threshold (delta_nb_bits t + table_size)) (\<lambda>delta.
     let normalized = delta * 2 ^ accuracy_log mod 2 ^ 32 div 2 ^ ct_table_log ct in
       sub_u32 ((min_nb_bits + 1) * 2 ^ accuracy_log) normalized)))"

definition init_cstate :: "ctable \<Rightarrow> cstate" where
  "init_cstate ct = 2 ^ ct_table_log ct"

definition init_cstate2 :: "ctable \<Rightarrow> nat \<Rightarrow> cstate result" where
  "init_cstate2 ct symbol =
     and_then (symbol_check ct symbol) (\<lambda>_.
     and_then (idx (ct_symbol_tt ct) symbol) (\<lambda>t.
     let nb_bits_out = (delta_nb_bits t + 2 ^ 15) div 2 ^ 16 in
     and_then (sub_u32 (nb_bits_out * 2 ^ 16) (delta_nb_bits t)) (\<lambda>value.
       next_cstate ct (int (value div 2 ^ nb_bits_out) + delta_find_state t))))"

definition encode_symbol :: "cstream \<Rightarrow> cstate \<Rightarrow> ctable \<Rightarrow> nat \<Rightarrow> (cstream \<times> cstate) result" where
  "encode_symbol bit_c state ct symbol =
     and_then (symbol_check ct symbol) (\<lambda>_.
     and_then (idx (ct_symbol_tt ct) symbol) (\<lambda>t.
     let nb_bits_out = (state + delta_nb_bits t) div 2 ^ 16 in
     and_then (add_bits bit_c (word_of_nat state) nb_bits_out) (\<lambda>bit_c.
     and_then (next_cstate ct (int (state div 2 ^ nb_bits_out) + delta_find_state t)) (\<lambda>state.
       Ok (bit_c, state)))))"

text \<open>The variant without checks: an index out of range breaks its contract.\<close>

definition encode_symbol_unchecked :: "cstream \<Rightarrow> cstate \<Rightarrow> ctable \<Rightarrow> nat \<Rightarrow> (cstream \<times> cstate) result" where
  "encode_symbol_unchecked bit_c state ct symbol =
     and_then (idx (ct_symbol_tt ct) symbol) (\<lambda>t.
     let nb_bits_out = (state + delta_nb_bits t) div 2 ^ 16 in
     and_then (add_bits bit_c (word_of_nat state) nb_bits_out) (\<lambda>bit_c.
     and_then (idx (ct_state_table ct) (nat ((int (state div 2 ^ nb_bits_out) + delta_find_state t) mod 2 ^ 64))) (\<lambda>state.
       Ok (bit_c, state))))"

definition ctable_log :: "ctable \<Rightarrow> nat" where
  "ctable_log ct = ct_table_log ct"

definition ctable_max_symbol_value :: "ctable \<Rightarrow> nat" where
  "ctable_max_symbol_value ct = ct_max_symbol_value ct"

definition flush_cstate :: "cstream \<Rightarrow> cstate \<Rightarrow> ctable \<Rightarrow> cstream result" where
  "flush_cstate bit_c state ct = and_then (add_bits bit_c (word_of_nat state) (ct_table_log ct)) flush_bits"

subsection \<open>The interleaved compressor\<close>

definition block_bound :: "usize \<Rightarrow> usize" where
  "block_bound n = n + n div 128 + 4 + CONTAINER_BYTES"

definition flush_either :: "bool \<Rightarrow> cstream \<Rightarrow> cstream result" where
  "flush_either fast bit_c = (if fast then flush_bits_fast bit_c else flush_bits bit_c)"

definition flush_when :: "bool \<Rightarrow> bool \<Rightarrow> cstream \<Rightarrow> cstream result" where
  "flush_when c fast bit_c = (if c then flush_either fast bit_c else Ok bit_c)"

text \<open>The symbol before a position; a position of zero would underflow.\<close>

definition src_before :: "bytes \<Rightarrow> usize \<Rightarrow> nat result" where
  "src_before src ip = (if ip = 0 then Fault else and_then (idx src (ip - 1)) (\<lambda>x. Ok (unat x)))"

text \<open>Two symbols before position \<open>ip\<close>: the second state's, then the first's.\<close>

definition encode_pair ::
    "bool \<Rightarrow> bool \<Rightarrow> ctable \<Rightarrow> bytes \<Rightarrow> usize \<Rightarrow> cstream \<times> cstate \<times> cstate \<Rightarrow> (cstream \<times> cstate \<times> cstate) result" where
  "encode_pair mid_flush fast ct src ip st =
     (case st of (bit_c, state1, state2) \<Rightarrow>
      and_then (src_before src ip) (\<lambda>x.
      and_then (encode_symbol bit_c state2 ct x) (\<lambda>(bit_c, state2).
      and_then (flush_when mid_flush fast bit_c) (\<lambda>bit_c.
      and_then (src_before src (ip - 1)) (\<lambda>y.
      and_then (encode_symbol bit_c state1 ct y) (\<lambda>(bit_c, state1).
        Ok (bit_c, state1, state2)))))))"

definition flush_triple :: "bool \<Rightarrow> cstream \<times> cstate \<times> cstate \<Rightarrow> (cstream \<times> cstate \<times> cstate) result" where
  "flush_triple fast st =
     (case st of (bit_c, state1, state2) \<Rightarrow> and_then (flush_either fast bit_c) (\<lambda>bit_c. Ok (bit_c, state1, state2)))"

text \<open>The states before the main loop: the last two or three symbols.\<close>

definition encode_start ::
    "bool \<Rightarrow> ctable \<Rightarrow> bytes \<Rightarrow> cstream \<Rightarrow> ((cstream \<times> cstate \<times> cstate) \<times> usize) result" where
  "encode_start fast ct src bit_c =
     (let ip = length src in
      if length src mod 2 \<noteq> 0 then
        and_then (src_before src ip) (\<lambda>x. and_then (init_cstate2 ct x) (\<lambda>state1.
        and_then (src_before src (ip - 1)) (\<lambda>y. and_then (init_cstate2 ct y) (\<lambda>state2.
        and_then (src_before src (ip - 2)) (\<lambda>z. and_then (encode_symbol bit_c state1 ct z) (\<lambda>(bit_c, state1).
        and_then (flush_either fast bit_c) (\<lambda>bit_c. Ok ((bit_c, state1, state2), ip - 3))))))))
      else
        and_then (src_before src ip) (\<lambda>x. and_then (init_cstate2 ct x) (\<lambda>state2.
        and_then (src_before src (ip - 1)) (\<lambda>y. and_then (init_cstate2 ct y) (\<lambda>state1.
          Ok ((bit_c, state1, state2), ip - 2))))))"

definition wide_container :: bool where
  "wide_container \<longleftrightarrow> TABLELOG_MAX * 4 + 7 < CONTAINER_BITS"

function encode_blocks ::
    "bool \<Rightarrow> ctable \<Rightarrow> bytes \<Rightarrow> usize \<Rightarrow> cstream \<times> cstate \<times> cstate \<Rightarrow> (cstream \<times> cstate \<times> cstate) result" where
  "encode_blocks fast ct src ip st =
     (if ip = 0 then Ok st else
      and_then (encode_pair (CONTAINER_BITS < TABLELOG_MAX * 2 + 7) fast ct src ip st) (\<lambda>st.
      and_then (if wide_container then encode_pair False fast ct src (ip - 2) st else Ok st) (\<lambda>st.
      and_then (flush_triple fast st) (\<lambda>st.
        encode_blocks fast ct src (if wide_container then ip - 4 else ip - 2) st))))"
  by pat_completeness auto
termination
  by (relation "measure (\<lambda>(fast, ct, src, ip, st). ip)") auto

declare encode_blocks.simps [simp del]

definition compress_using_ctable_generic :: "bytes \<Rightarrow> bytes \<Rightarrow> ctable \<Rightarrow> bool \<Rightarrow> (usize \<times> bytes) result" where
  "compress_using_ctable_generic dst src ct fast =
     (if length src \<le> 2 then Ok (0, dst) else
      case cstream_new dst of
        Err e \<Rightarrow> if e = DstSizeTooSmall then Ok (0, dst) else Err e
      | Fault \<Rightarrow> Fault
      | Ok bit_c \<Rightarrow>
        and_then (encode_start fast ct src bit_c) (\<lambda>(st, ip).
        and_then (if wide_container \<and> (length src - 2) AND 2 \<noteq> 0
                  then and_then (encode_pair False fast ct src ip st) (\<lambda>st.
                       and_then (flush_triple fast st) (\<lambda>st. Ok (st, ip - 2)))
                  else Ok (st, ip)) (\<lambda>(st, ip).
        and_then (encode_blocks fast ct src ip st) (\<lambda>(bit_c, state1, state2).
        and_then (flush_cstate bit_c state2 ct) (\<lambda>bit_c.
        and_then (flush_cstate bit_c state1 ct) cstream_close)))))"

definition compress_using_ctable :: "bytes \<Rightarrow> bytes \<Rightarrow> ctable \<Rightarrow> (usize \<times> bytes) result" where
  "compress_using_ctable dst src ct =
     compress_using_ctable_generic dst src ct (block_bound (length src) \<le> length dst)"

end
