(* ===== verification/FseTans.thy ===== *)
theory FseTans
  imports FseDecode FseEncode
begin

section \<open>The FSE coder is inverse to the decoder\<close>

text \<open>
  The tables of \<open>src/src/entropy/fse.rs\<close> belong together: the encoder's table sends a state and a
  symbol to the state of the decoding table whose entry gives the symbol back and
  leads, with the bits the encoder wrote, to the state the encoder came from. From this
  the interleaved compressor and decompressor are inverse.
\<close>

subsection \<open>Slots of the state table\<close>

lemma total_count_Suc [simp]: "total_count counts (Suc n) = total_count counts n + nat \<bar>counts ! n\<bar>"
  by (simp add: total_count_def)

lemma total_count_0 [simp]: "total_count counts 0 = 0"
  by (simp add: total_count_def)

lemma total_count_mono: "m \<le> n \<Longrightarrow> total_count counts m \<le> total_count counts n"
  by (induction rule: dec_induct) auto

lemma total_count_valid: "counts_valid L counts n \<Longrightarrow> total_count counts n = 2 ^ L"
  by (simp add: counts_valid_def total_count_def)

definition slot_of :: "int list \<Rightarrow> nat list \<Rightarrow> nat \<Rightarrow> nat" where
  "slot_of counts ts u = total_count counts (ts ! u) + rank_in ts u"

lemma slot_bounds:
  assumes "filled L counts n ts" and "u < 2 ^ L"
  shows "slot_of counts ts u < total_count counts (Suc (ts ! u))" and "slot_of counts ts u < 2 ^ L"
proof -
  have s: "ts ! u < n" "2 ^ L \<le> length ts" using assms by (auto simp: filled_def)
  have "rank_in ts u < nat \<bar>counts ! (ts ! u)\<bar>"
    using rank_less [OF assms(2) s(2)] assms(1) s(1) by (simp add: filled_def)
  then show lt: "slot_of counts ts u < total_count counts (Suc (ts ! u))" by (simp add: slot_of_def)
  have "total_count counts (Suc (ts ! u)) \<le> 2 ^ L"
    using total_count_mono [of "Suc (ts ! u)" n counts] s(1) assms(1) total_count_valid [of L counts n]
    by (simp add: filled_def)
  then show "slot_of counts ts u < 2 ^ L" using lt by linarith
qed

lemma slot_inj:
  assumes f: "filled L counts n ts" and u: "u < v" "v < 2 ^ L"
  shows "slot_of counts ts u \<noteq> slot_of counts ts v"
proof -
  have u2: "u < 2 ^ L" using u by simp
  consider "ts ! u = ts ! v" | "ts ! u < ts ! v" | "ts ! v < ts ! u" by linarith
  then show ?thesis
  proof cases
    case 1
    have "Suc (rank_in ts u) = count (mset (take (Suc u) ts)) (ts ! v)"
      using f u2 1 by (simp add: rank_in_def count_take_Suc filled_def)
    also have "\<dots> \<le> rank_in ts v" using u(1) unfolding rank_in_def by (intro count_take_le) simp
    finally show ?thesis by (simp add: slot_of_def 1)
  next
    case 2
    then have "total_count counts (Suc (ts ! u)) \<le> total_count counts (ts ! v)" by (intro total_count_mono) simp
    then show ?thesis using slot_bounds(1) [OF f u2] by (simp add: slot_of_def [of _ _ v])
  next
    case 3
    then have "total_count counts (Suc (ts ! v)) \<le> total_count counts (ts ! u)" by (intro total_count_mono) simp
    then show ?thesis using slot_bounds(1) [OF f u(2)] by (simp add: slot_of_def [of _ _ u])
  qed
qed

lemma rank_onto:
  "r < count (mset (take k ts)) s \<Longrightarrow> k \<le> length ts \<Longrightarrow> \<exists>u < k. ts ! u = s \<and> rank_in ts u = r"
proof (induction k)
  case (Suc k)
  show ?case
  proof (cases "r < count (mset (take k ts)) s")
    case True
    then show ?thesis using Suc less_Suc_eq by (metis Suc_leD)
  next
    case False
    then have "ts ! k = s" "count (mset (take k ts)) s = r"
      using Suc.prems by (cases "ts ! k = s"; simp add: count_take_Suc)+
    then show ?thesis by (auto simp: rank_in_def)
  qed
qed simp

subsection \<open>The builder\<close>

lemma place_cumuls:
  assumes v: "counts_valid L counts n" and cu: "n < length cu0" "cu0 ! 0 = 0" and ts0: "2 ^ L \<le> length ts0"
  shows "\<exists>cu. loop_over (place_cumul counts) [0..<n] (cu0, ts0, 2 ^ L - 1)
      = Ok (cu, assign ts0 (low_area L counts n), 2 ^ L - 1 - length (low_symbols counts n))
    \<and> length cu = length cu0 \<and> (\<forall>s \<le> n. cu ! s = total_count counts s)"
proof -
  have v': "n \<le> 256" "n \<le> length counts" "\<forall>s < n. -1 \<le> counts ! s" using v by (auto simp: counts_valid_def)
  let ?I = "\<lambda>k (cu, ts, high). ts = assign ts0 (zip (low_slots (2 ^ L) (length (low_symbols counts k))) (low_symbols counts k))
      \<and> high = 2 ^ L - 1 - length (low_symbols counts k) \<and> length cu = length cu0
      \<and> (\<forall>s \<le> k. cu ! s = total_count counts s)"
  have "\<exists>st. loop_over (place_cumul counts) [0..<n] (cu0, ts0, 2 ^ L - 1) = Ok st \<and> ?I n st"
  proof (rule loop_upt_Ok [where I = ?I])
    fix k st
    assume k: "k < n" and I: "?I k st"
    obtain cu ts high where st: "st = (cu, ts, high)" by (cases st)
    let ?m = "length (low_symbols counts k)"
    have ts: "ts = assign ts0 (zip (low_slots (2 ^ L) ?m) (low_symbols counts k))" and high: "high = 2 ^ L - 1 - ?m"
      and l: "length cu = length cu0" "\<forall>s \<le> k. cu ! s = total_count counts s" using I by (simp_all add: st)
    have "total_count counts (Suc k) \<le> 2 ^ L"
      using total_count_mono [of "Suc k" n counts] k total_count_valid [OF v] by simp
    then have small: "total_count counts k + nat \<bar>counts ! k\<bar> < 65536"
      using valid_size [OF v] by simp
    have "-1 \<le> counts ! k" using v'(3) k by blast
    then have c: "counts ! k = -1 \<or> 0 \<le> counts ! k" by linarith
    show "\<exists>s'. place_cumul counts k st = Ok s' \<and> ?I (Suc k) s'"
    proof (cases "counts ! k = -1")
      case True
      have "high < 2 ^ L" by (simp add: high)
      then have hl: "high < length ts" using ts0 by (simp add: ts)
      have "ts[high := k] = assign ts0 (zip (low_slots (2 ^ L) (length (low_symbols counts (Suc k)))) (low_symbols counts (Suc k)))"
        using True by (simp add: low_symbols_Suc low_slots_Suc low_slots_def ts high)
      then show ?thesis
        using True k v'(1,2) hl l small cu by (auto simp: st place_cumul_def idx_def upd_def low_symbols_Suc high
            add_u16_def nth_list_update le_Suc_eq)
    next
      case False
      then have "0 \<le> counts ! k" using c by simp
      then show ?thesis
        using False k v'(1,2) l small cu by (auto simp: st place_cumul_def idx_def upd_def low_symbols_Suc high ts
            add_u16_def nth_list_update le_Suc_eq)
    qed
  qed (use cu in \<open>simp add: low_symbols_def low_slots_def\<close>)
  then show ?thesis by (auto simp: low_area_def)
qed

lemma place_states:
  assumes f: "filled L counts n ts" and cu: "n \<le> length cu" "\<forall>s < n. cu ! s = total_count counts s"
    and states: "2 ^ L \<le> length states"
  obtains cu' states' where "loop_over (place_state (2 ^ L) ts) [0..<2 ^ L] (cu, states) = Ok (cu', states')"
    and "length states' = length states" and "\<And>u. u < 2 ^ L \<Longrightarrow> states' ! slot_of counts ts u = 2 ^ L + u"
proof -
  have v: "counts_valid L counts n" "2 ^ L \<le> length ts" "\<forall>u < 2 ^ L. ts ! u < n" using f by (auto simp: filled_def)
  let ?I = "\<lambda>k (cu', states'). length cu' = length cu \<and> length states' = length states
      \<and> (\<forall>s < n. cu' ! s = total_count counts s + count (mset (take k ts)) s)
      \<and> (\<forall>u < k. states' ! slot_of counts ts u = 2 ^ L + u)"
  have "\<exists>st. loop_over (place_state (2 ^ L) ts) [0..<2 ^ L] (cu, states) = Ok st \<and> ?I (2 ^ L) st"
  proof (rule loop_upt_Ok [where I = ?I])
    fix k st
    assume k: "k < 2 ^ L" and I: "?I k st"
    obtain cu' states' where st: "st = (cu', states')" by (cases st)
    have I': "length cu' = length cu" "length states' = length states"
      "\<forall>s < n. cu' ! s = total_count counts s + count (mset (take k ts)) s"
      "\<forall>u < k. states' ! slot_of counts ts u = 2 ^ L + u" using I by (simp_all add: st)
    have s: "ts ! k < n" "k < length ts" using v k by auto
    have slot: "cu' ! (ts ! k) = slot_of counts ts k" using I'(3) s(1) by (simp add: slot_of_def rank_in_def)
    note sb = slot_bounds [OF f k]
    have "slot_of counts ts k < 512" using sb(2) valid_size [OF v(1)] by linarith
    then have m: "Suc (slot_of counts ts k) mod 65536 = Suc (slot_of counts ts k)" by (intro mod_less) simp
    have "2 ^ L + k < 65536" using k valid_size [OF v(1)] by simp
    then have mk: "(2 ^ L + k) mod 65536 = 2 ^ L + k" by (rule mod_less)
    let ?st = "states'[slot_of counts ts k := 2 ^ L + k]"
    let ?cu = "cu'[ts ! k := Suc (slot_of counts ts k)]"
    have step: "place_state (2 ^ L) ts k st = Ok (?cu, ?st)"
      using s I'(1,2) cu(1) states sb(2) by (simp add: st place_state_def idx_def upd_def slot m mk)
    have "?st ! slot_of counts ts u = 2 ^ L + u" if "u < Suc k" for u
    proof (cases "u = k")
      case True
      then show ?thesis using sb(2) states I'(2) by simp
    next
      case False
      then have "u < k" using that by simp
      then show ?thesis using slot_inj [OF f _ k, of u] I'(4) by (metis nth_list_update_neq)
    qed
    moreover have "?cu ! t = total_count counts t + count (mset (take (Suc k) ts)) t" if "t < n" for t
      using I'(1,3) that s cu(1) slot by (auto simp: nth_list_update count_take_Suc)
    ultimately show "\<exists>s'. place_state (2 ^ L) ts k st = Ok s' \<and> ?I (Suc k) s'"
      using step I'(1,2) by auto
  qed (use cu in simp)
  then obtain cu' states' where "loop_over (place_state (2 ^ L) ts) [0..<2 ^ L] (cu, states) = Ok (cu', states')"
    "?I (2 ^ L) (cu', states')" by auto
  with that show thesis by auto
qed

text \<open>The transform of a symbol, as a function of its count and of the counts before it.\<close>

definition bits_out :: "nat \<Rightarrow> nat \<Rightarrow> nat" where
  "bits_out L c = (if c = 1 then L else L - log2 (c - 1))"

definition transform_spec :: "nat \<Rightarrow> int list \<Rightarrow> nat \<Rightarrow> symbol_transform" where
  "transform_spec L counts s =
     (let c = nat \<bar>counts ! s\<bar> in
      if c = 0 then \<lparr>delta_find_state = 0, delta_nb_bits = (L + 1) * 2 ^ 16 - 2 ^ L\<rparr>
      else \<lparr>delta_find_state = int (total_count counts s) - int c,
            delta_nb_bits = bits_out L c * 2 ^ 16 - c * 2 ^ bits_out L c\<rparr>)"

lemma bits_out_bounds:
  assumes "1 < c" and "c \<le> 2 ^ L"
  shows "log2 (c - 1) < L" and "1 \<le> bits_out L c" and "bits_out L c + log2 (c - 1) = L"
    and "c * 2 ^ bits_out L c \<le> 2 ^ (L + 1)" and "2 ^ L < c * 2 ^ bits_out L c"
proof -
  have "c - 1 < 2 ^ L" using assms by linarith
  then show k: "log2 (c - 1) < L" using log2_less_iff [of "c - 1" L] assms(1) by simp
  then show b: "bits_out L c + log2 (c - 1) = L" "1 \<le> bits_out L c" using assms by (auto simp: bits_out_def)
  have p: "(2 :: nat) ^ Suc (log2 (c - 1)) * 2 ^ bits_out L c = 2 ^ (L + 1)"
    using b(1) by (simp flip: power_add add: add.commute)
  have p': "(2 :: nat) ^ log2 (c - 1) * 2 ^ bits_out L c = 2 ^ L" using b(1) by (simp flip: power_add add: add.commute)
  have "c - 1 < 2 ^ Suc (log2 (c - 1))" using log2_less [of "c - 1"] by simp
  then have "c \<le> 2 ^ Suc (log2 (c - 1))" by linarith
  then have "c * 2 ^ bits_out L c \<le> 2 ^ Suc (log2 (c - 1)) * 2 ^ bits_out L c" by (rule mult_right_mono) simp
  then show "c * 2 ^ bits_out L c \<le> 2 ^ (L + 1)" by (simp only: p)
  have "2 ^ log2 (c - 1) \<le> c - 1" using log2_le [of "c - 1"] assms(1) by simp
  then have "2 ^ log2 (c - 1) < c" using assms(1) by linarith
  then have "2 ^ log2 (c - 1) * 2 ^ bits_out L c < c * 2 ^ bits_out L c" by (rule mult_strict_right_mono) simp
  then show "2 ^ L < c * 2 ^ bits_out L c" by (simp only: p')
qed

lemma symbol_transform_value:
  assumes v: "counts_valid L counts n" and s: "s < n"
  shows "symbol_transform_of L (counts ! s) (total_count counts s)
    = Ok (transform_spec L counts s, total_count counts (Suc s))"
proof -
  let ?c = "counts ! s"
  have L: "4 \<le> L" "(2 :: nat) ^ L \<le> 512" using v valid_size [OF v] by (auto simp: counts_valid_def)
  have "-1 \<le> ?c" using v s by (simp add: counts_valid_def)
  then consider "?c = 0" | "?c = -1 \<or> ?c = 1" | "1 < ?c" by linarith
  then show ?thesis
  proof cases
    case 1
    have "2 ^ L \<le> (L + 1) * 65536" using L by simp
    then show ?thesis
      using 1 by (simp add: symbol_transform_of_def zero_count_delta_def sub_u32_def transform_spec_def)
  next
    case 2
    then have "?c \<noteq> 0" and c1: "nat \<bar>?c\<bar> = 1" by auto
    have "2 ^ L \<le> L * 65536" using L by linarith
    then show ?thesis
      using 2 \<open>?c \<noteq> 0\<close> c1 by (simp add: symbol_transform_of_def sub_u32_def transform_spec_def bits_out_def)
  next
    case 3
    define c where "c = nat ?c"
    have c: "1 < c" "?c = int c" "nat \<bar>?c\<bar> = c" using 3 by (auto simp: c_def)
    have cL: "c \<le> 2 ^ L" using count_le_size(1) [OF v s] c(3) by simp
    note b = bits_out_bounds [OF c(1) cL]
    have bo: "bits_out L c = L - log2 (c - 1)" using c(1) by (simp add: bits_out_def)
    have "c * 2 ^ bits_out L c \<le> 1024" using b(4) L(2) by simp
    also have "(1024 :: nat) \<le> bits_out L c * 65536" using b(2) by simp
    finally have fit: "c * 2 ^ bits_out L c \<le> bits_out L c * 65536" .
    show ?thesis
      using b(1) fit c(1) by (simp add: symbol_transform_of_def highbit32_def sub_u32_def Let_def c(2) transform_spec_def bo)
  qed
qed

lemma add_transforms:
  assumes v: "counts_valid L counts n" and tts: "n \<le> length tts0"
  obtains tts where "loop_over (add_transform L counts) [0..<n] (tts0, 0) = Ok (tts, total_count counts n)"
    and "length tts = length tts0" and "\<And>s. s < n \<Longrightarrow> tts ! s = transform_spec L counts s"
proof -
  have n: "n \<le> length counts" using v by (simp add: counts_valid_def)
  let ?I = "\<lambda>k (tts, acc). acc = total_count counts k \<and> length tts = length tts0 \<and> (\<forall>s < k. tts ! s = transform_spec L counts s)"
  have "\<exists>st. loop_over (add_transform L counts) [0..<n] (tts0, 0) = Ok st \<and> ?I n st"
  proof (rule loop_upt_Ok [where I = ?I])
    fix k st
    assume k: "k < n" and I: "?I k st"
    then show "\<exists>s'. add_transform L counts k st = Ok s' \<and> ?I (Suc k) s'"
      using n tts symbol_transform_value [OF v k]
      by (cases st) (auto simp: add_transform_def idx_def upd_def nth_list_update less_Suc_eq)
  qed simp
  with that show thesis by auto
qed

lemma set_deltas:
  assumes "n \<le> length tts"
  obtains tts' where "loop_over (set_delta d) [n..<length tts] tts = Ok tts'" and "length tts' = length tts"
    and "\<And>s. s < n \<Longrightarrow> tts' ! s = tts ! s"
proof -
  let ?I = "\<lambda>ds tts'. length tts' = length tts \<and> (\<forall>s < n. tts' ! s = tts ! s)"
  have "\<exists>tts'. loop_over (set_delta d) [n..<length tts] tts = Ok tts' \<and> ?I [n..<length tts] tts'"
  proof (rule loop_over_Ok [where I = ?I])
    fix ds x rs tts'
    assume e: "[n..<length tts] = ds @ x # rs" and I: "?I ds tts'"
    have "x \<in> set [n..<length tts]" by (simp only: e) simp
    then show "\<exists>s'. set_delta d x tts' = Ok s' \<and> ?I (ds @ [x]) s'"
      using I by (auto simp: set_delta_def idx_def upd_def nth_list_update)
  qed simp
  with that show thesis by blast
qed

text \<open>A table that encodes for the decoding table of the same counts.\<close>

definition ctable_ok :: "nat \<Rightarrow> int list \<Rightarrow> nat \<Rightarrow> ctable \<Rightarrow> bool" where
  "ctable_ok L counts n ct \<longleftrightarrow> counts_valid L counts n \<and> ct_table_log ct = L \<and> ct_max_symbol_value ct = n - 1
     \<and> length (ct_state_table ct) = TABLESIZE_MAX \<and> length (ct_symbol_tt ct) = 256
     \<and> (\<forall>u < 2 ^ L. ct_state_table ct ! slot_of counts (fse_table L counts n) u = 2 ^ L + u)
     \<and> (\<forall>s < n. ct_symbol_tt ct ! s = transform_spec L counts s)"

lemma build_ctable_spec:
  assumes v: "counts_valid L counts (Suc msi)" and ct: "length (ct_state_table ct) = TABLESIZE_MAX"
    "length (ct_symbol_tt ct) = 256"
  obtains ct' where "build_ctable ct counts msi L = Ok ct'" and "ctable_ok L counts (Suc msi) ct'"
proof -
  let ?n = "Suc msi"
  let ?ts0 = "replicate TABLESIZE_MAX (0 :: nat)"
  have L: "(2 :: nat) ^ L \<le> 512" "?n \<le> 256" using v valid_size [OF v] by (auto simp: counts_valid_def)
  have ts0: "2 ^ L \<le> length ?ts0" using L by (simp add: TABLESIZE_MAX_def)
  have "?n < length (replicate 257 (0 :: nat))" "replicate 257 (0 :: nat) ! 0 = 0" using L(2) by auto
  from place_cumuls [OF v this ts0] obtain cu where
    pc: "loop_over (place_cumul counts) [0..<?n] (replicate 257 0, ?ts0, 2 ^ L - 1)
      = Ok (cu, assign ?ts0 (low_area L counts ?n), 2 ^ L - 1 - length (low_symbols counts ?n))"
    "length cu = 257" "\<forall>s \<le> ?n. cu ! s = total_count counts s" by auto
  let ?cu = "cu[?n := 2 ^ L + 1]"
  let ?ts = "assign ?ts0 (fse_slots L counts ?n)"
  have f: "filled L counts ?n ?ts" by (rule filled_spread [OF v ts0])
  have "?n \<le> length ?cu" "\<forall>s < ?n. ?cu ! s = total_count counts s" using pc(2,3) L(2) by auto
  moreover have "2 ^ L \<le> length (map (\<lambda>_. 0 :: nat) (ct_state_table ct))" using L ct by (simp add: TABLESIZE_MAX_def)
  ultimately obtain cu' states where
    ps: "loop_over (place_state (2 ^ L) ?ts) [0..<2 ^ L] (?cu, map (\<lambda>_. 0) (ct_state_table ct)) = Ok (cu', states)"
    "length states = length (map (\<lambda>_. 0 :: nat) (ct_state_table ct))"
    "\<And>u. u < 2 ^ L \<Longrightarrow> states ! slot_of counts ?ts u = 2 ^ L + u"
    using place_states [OF f] by blast
  have "?n \<le> length (map (\<lambda>_. transform_default) (ct_symbol_tt ct))" using L ct by simp
  from add_transforms [OF v this] obtain tts where
    at: "loop_over (add_transform L counts) [0..<?n] (map (\<lambda>_. transform_default) (ct_symbol_tt ct), 0)
      = Ok (tts, total_count counts ?n)" "length tts = length (map (\<lambda>_. transform_default) (ct_symbol_tt ct))"
    "\<And>s. s < ?n \<Longrightarrow> tts ! s = transform_spec L counts s" by blast
  have "2 ^ L \<le> (L + 1) * 65536" using L(1) by simp
  then have z: "zero_count_delta L = Ok ((L + 1) * 65536 - 2 ^ L)" by (simp add: zero_count_delta_def sub_u32_def)
  have "?n \<le> length tts" using at(2) ct L by simp
  from set_deltas [OF this, of "(L + 1) * 65536 - 2 ^ L"] obtain tts' where
    sd: "loop_over (set_delta ((L + 1) * 65536 - 2 ^ L)) [?n..<length tts] tts = Ok tts'" "length tts' = length tts"
    "\<And>s. s < ?n \<Longrightarrow> tts' ! s = tts ! s" by blast
  have sent: "add_u16 (2 ^ L mod 65536) 1 = Ok (2 ^ L + 1)" "upd cu ?n (2 ^ L + 1) = Ok ?cu"
    using L pc(2) by (simp_all add: add_u16_def)
  have m: "msi mod 65536 = msi" "SYMBOLVALUE_MAX + 2 = 257" "msi + 1 = ?n" using L(2) by (simp_all add: SYMBOLVALUE_MAX_def)
  let ?ct = "\<lparr>ct_table_log = L, ct_max_symbol_value = msi, ct_state_table = states, ct_symbol_tt = tts'\<rparr>"
  have pos: "\<not> (0 :: nat) \<noteq> 0" by simp
  have r: "build_ctable ct counts msi L = Ok ?ct"
    unfolding build_ctable_def check_table_args_valid [OF v] and_then.simps Let_def m(2,3) pc(1) prod.case sent
      spread_pass [OF v ts0] if_not_P [OF pos] ps(1) at(1) z sd(1) m(1) ..
  have "slot_of counts ?ts u = slot_of counts (fse_table L counts ?n) u" if "u < 2 ^ L" for u
  proof -
    note t = fse_table_nth(1) [OF v ts0 that]
    have "take u (fse_table L counts ?n) = take u ?ts" using that by (simp add: fse_table_def)
    then show ?thesis by (simp add: slot_of_def rank_in_def t)
  qed
  then have "ctable_ok L counts ?n ?ct"
    using v ps(2,3) ct sd(2,3) at(2,3) by (simp add: ctable_ok_def)
  with that r show thesis by blast
qed

subsection \<open>One symbol\<close>

lemma log2_div_power: "2 ^ k \<le> x \<Longrightarrow> log2 (x div 2 ^ k) = log2 x - k"
proof -
  assume k: "2 ^ k \<le> x"
  then have x: "0 < x" by (metis gr0I less_numeral_extra(3) not_le power_eq_0_iff zero_less_power zero_neq_numeral le_zero_eq)
  have "2 ^ k \<le> x \<Longrightarrow> k \<le> log2 x"
    using log2_less_iff [OF x, of k] by (meson not_le)
  then have kl: "k \<le> log2 x" using k by simp
  then have p: "(2 :: nat) ^ log2 x = 2 ^ (log2 x - k) * 2 ^ k" "(2 :: nat) ^ Suc (log2 x) = 2 ^ Suc (log2 x - k) * 2 ^ k"
    by (simp_all flip: power_add)
  have "2 ^ (log2 x - k) \<le> x div 2 ^ k" using log2_le [OF x] by (simp add: p less_eq_div_iff_mult_less_eq)
  moreover have "x div 2 ^ k < 2 ^ Suc (log2 x - k)" using log2_less [of x] by (simp only: p(2)) (simp add: less_mult_imp_div_less)
  ultimately show ?thesis by (rule log2_unique)
qed

text \<open>The number of bits a state gives up is the one that brings it to the symbol's range.\<close>

lemma encode_bits:
  assumes c: "0 < c" "c \<le> 2 ^ L" and L: "L \<le> 9" and x: "2 ^ L \<le> x" "x < 2 ^ (L + 1)"
  defines "nb \<equiv> (x + (bits_out L c * 2 ^ 16 - c * 2 ^ bits_out L c)) div 2 ^ 16"
  shows "c \<le> x div 2 ^ nb" and "x div 2 ^ nb < 2 * c" and "nb \<le> L"
proof -
  let ?m = "bits_out L c"
  have P: "(2 :: nat) ^ L \<le> 512" using L by (rule two_power_le_512)
  have "c \<le> x div 2 ^ nb \<and> x div 2 ^ nb < 2 * c \<and> nb \<le> L"
  proof (cases "c = 1")
    case True
    then have m: "?m = L" by (simp add: bits_out_def)
    show ?thesis
    proof (cases "L = 0")
      case True
      then have "x = 1" using x by simp
      then show ?thesis using \<open>c = 1\<close> True by (simp add: nb_def bits_out_def)
    next
      case False
      then have "2 ^ L \<le> L * 65536" using P by simp
      then have e: "x + (L * 65536 - 2 ^ L) = (x - 2 ^ L) + L * 65536" using x by linarith
      have "x - 2 ^ L < 65536" using x P by simp
      then have "((x - 2 ^ L) + L * 65536) div 65536 = L" by simp
      then have "(x + (L * 65536 - 2 ^ L)) div 65536 = L" by (simp only: e)
      then have nb: "nb = L" unfolding nb_def m by (simp add: True)
      have "x div 2 ^ L = 1" using x by (intro div_nat_eqI) auto
      then show ?thesis using nb True by simp
    qed
  next
    case False
    then have c1: "1 < c" using c by simp
    note b = bits_out_bounds [OF c1 c(2)]
    have fit: "c * 2 ^ ?m \<le> 1024" using b(4) P by simp
    have e: "x + (?m * 65536 - c * 2 ^ ?m) = x + ?m * 65536 - c * 2 ^ ?m" using fit b(2) by simp
    have k2: "c \<le> 2 ^ Suc (log2 (c - 1))" "2 ^ log2 (c - 1) < c"
      using log2_less [of "c - 1"] log2_le [of "c - 1"] c1 by auto
    show ?thesis
    proof (cases "c * 2 ^ ?m \<le> x")
      case True
      have "x - c * 2 ^ ?m < 65536" using x P by simp
      moreover have "x + ?m * 65536 - c * 2 ^ ?m = (x - c * 2 ^ ?m) + ?m * 65536" using True by simp
      ultimately have nb: "nb = ?m" by (simp add: nb_def e)
      have "Suc (log2 (c - 1)) + ?m = L + 1" using b(3) by linarith
      then have "(2 :: nat) ^ Suc (log2 (c - 1)) * 2 ^ ?m = 2 ^ (L + 1)" by (simp only: power_add [symmetric])
      then have "x < 2 ^ Suc (log2 (c - 1)) * 2 ^ ?m" using x(2) by (simp only:)
      then have "x div 2 ^ ?m < 2 ^ Suc (log2 (c - 1))" by (rule less_mult_imp_div_less)
      also have "\<dots> \<le> 2 * (c - 1)" using k2(2) by simp
      finally have "x div 2 ^ ?m < 2 * c" by simp
      moreover have "c \<le> x div 2 ^ ?m" using True by (simp add: less_eq_div_iff_mult_less_eq)
      moreover have "?m \<le> L" using b(3) by linarith
      ultimately show ?thesis using nb by simp
    next
      case False
      obtain j where j: "?m = Suc j" using b(2) by (metis Suc_le_D numeral_One One_nat_def)
      have "x + ?m * 65536 - c * 2 ^ ?m = (x + 65536 - c * 2 ^ ?m) + j * 65536" using j fit by simp
      moreover have "x + 65536 - c * 2 ^ ?m < 65536" using False fit by linarith
      ultimately have nb: "nb = j" by (simp add: nb_def e)
      have "x < 2 * c * 2 ^ j" using False j by simp
      then have "x div 2 ^ j < 2 * c" by (rule less_mult_imp_div_less)
      moreover have "2 ^ Suc (log2 (c - 1)) * 2 ^ j = (2 :: nat) ^ L"
        using b(3) j by (simp flip: power_add power_Suc add: add.commute)
      then have "2 ^ Suc (log2 (c - 1)) * 2 ^ j \<le> x" using x(1) by (simp only:)
      then have "2 ^ Suc (log2 (c - 1)) \<le> x div 2 ^ j" by (simp only: less_eq_div_iff_mult_less_eq zero_less_power zero_less_numeral)
      then have "c \<le> x div 2 ^ j" using k2(1) by linarith
      moreover have "j \<le> L" using b(3) j by linarith
      ultimately show ?thesis using nb by simp
    qed
  qed
  then show "c \<le> x div 2 ^ nb" and "x div 2 ^ nb < 2 * c" and "nb \<le> L" by auto
qed

text \<open>The state of a symbol's rank.\<close>

lemma state_of_rank:
  assumes v: "counts_valid L counts n" and s: "s < n" and r: "r < nat \<bar>counts ! s\<bar>"
  obtains u where "u < 2 ^ L" and "fse_table L counts n ! u = s" and "rank_in (fse_table L counts n) u = r"
proof -
  have f: "filled L counts n (fse_table L counts n)" by (rule filled_fse_table [OF v])
  then have "r < count (mset (take (2 ^ L) (fse_table L counts n))) s" using s r by (simp add: filled_def)
  from rank_onto [OF this] f that show thesis by (auto simp: filled_def)
qed

lemma next_cstate_Ok: "i < length (ct_state_table ct) \<Longrightarrow> i < 2 ^ 64 \<Longrightarrow> next_cstate ct (int i) = Ok (ct_state_table ct ! i)"
  by (simp add: next_cstate_def slice_get_def nat_mod_distrib)

text \<open>
  A table state \<open>u\<close> is worth the number \<open>2 ^ L + u\<close>. The coder goes from the value of \<open>u'\<close> to the
  value of \<open>u\<close>; the decoder's entry of \<open>u\<close> gives the symbol and, with the bits, \<open>u'\<close> back.
\<close>

lemma tans_step:
  assumes ok: "ctable_ok L counts n ct" and s: "s < n" and c: "counts ! s \<noteq> 0" and u': "u' < 2 ^ L"
  defines "nb \<equiv> (2 ^ L + u' + delta_nb_bits (ct_symbol_tt ct ! s)) div 2 ^ 16"
  obtains u where "u < 2 ^ L"
    and "next_cstate ct (int ((2 ^ L + u') div 2 ^ nb) + delta_find_state (ct_symbol_tt ct ! s)) = Ok (2 ^ L + u)"
    and "nb \<le> L" and "fse_table L counts n ! u = s" and "bits_of L counts (fse_table L counts n) u = nb"
    and "base_of L counts (fse_table L counts n) u + (2 ^ L + u') mod 2 ^ nb = u'"
proof -
  let ?ts = "fse_table L counts n" and ?c = "nat \<bar>counts ! s\<bar>" and ?x = "2 ^ L + u'"
  have v: "counts_valid L counts n" using ok by (simp add: ctable_ok_def)
  have L: "L \<le> 9" "n \<le> 256" using v by (auto simp: counts_valid_def)
  have c0: "0 < ?c" using c by simp
  have cL: "?c \<le> 2 ^ L" using count_le_size(1) [OF v s] .
  have tt: "ct_symbol_tt ct ! s = transform_spec L counts s" using ok s by (simp add: ctable_ok_def)
  have x: "2 ^ L \<le> ?x" "?x < 2 ^ (L + 1)" using u' by auto
  have nb: "nb = (?x + (bits_out L ?c * 2 ^ 16 - ?c * 2 ^ bits_out L ?c)) div 2 ^ 16"
    using c by (simp add: nb_def tt transform_spec_def Let_def)
  note e = encode_bits [OF c0 cL L(1) x, folded nb]
  let ?y = "?x div 2 ^ nb"
  have "?y - ?c < ?c" using e(1,2) by linarith
  from state_of_rank [OF v s this] obtain u where
    u: "u < 2 ^ L" "?ts ! u = s" "rank_in ?ts u = ?y - ?c" .
  have y: "state_of counts ?ts u = ?y" using u(2,3) e(1) by (simp add: state_of_def)
  have slot: "int ?y + delta_find_state (ct_symbol_tt ct ! s) = int (slot_of counts ?ts u)"
    using c u(2,3) e(1) by (simp add: tt transform_spec_def Let_def slot_of_def)
  have "slot_of counts ?ts u < 2 ^ L" using slot_bounds(2) [OF filled_fse_table [OF v] u(1)] .
  then have "slot_of counts ?ts u < 512" using valid_size [OF v] by linarith
  then have "next_cstate ct (int (slot_of counts ?ts u)) = Ok (2 ^ L + u)"
    using ok u(1) by (subst next_cstate_Ok) (simp_all add: ctable_ok_def TABLESIZE_MAX_def)
  note next_ok = this [folded slot]
  have "2 ^ nb \<le> (2 :: nat) ^ L" using e(3) by (intro power_increasing) auto
  then have le: "2 ^ nb \<le> ?x" by linarith
  have "log2 ?x = L" using x by (intro log2_unique) auto
  then have "log2 ?y = L - nb" using log2_div_power [OF le] by simp
  then have bits: "bits_of L counts ?ts u = nb" using e(3) by (simp add: bits_of_def y)
  have "?y * 2 ^ nb + ?x mod 2 ^ nb = ?x" by (rule div_mult_mod_eq)
  moreover have "2 ^ L \<le> ?y * 2 ^ nb" using state_bounds(6) [OF filled_fse_table [OF v] u(1)] by (simp add: y bits)
  ultimately have "base_of L counts ?ts u + ?x mod 2 ^ nb = u'" by (simp add: base_of_def y bits)
  with that u next_ok e(3) bits show thesis by blast
qed

lemma ctable_symbol:
  assumes "ctable_ok L counts n ct" and "s < n"
  shows "symbol_check ct s = Ok ()" and "idx (ct_symbol_tt ct) s = Ok (ct_symbol_tt ct ! s)"
proof -
  have "s \<le> ct_max_symbol_value ct" "s < length (ct_symbol_tt ct)"
    using assms by (simp_all add: ctable_ok_def counts_valid_def)
  then show "symbol_check ct s = Ok ()" and "idx (ct_symbol_tt ct) s = Ok (ct_symbol_tt ct ! s)"
    by (simp_all add: symbol_check_def)
qed

lemma half_up:
  assumes "(a :: nat) \<le> 1024" and "1 \<le> m"
  shows "(m * 65536 - a + 32768) div 65536 = m"
proof -
  have "m * 65536 - a + 32768 = (32768 - a) + m * 65536" using assms by simp
  then show ?thesis by simp
qed

text \<open>The first symbol costs no bits; its state is one that reads at least one when other symbols exist.\<close>

lemma init_cstate2_spec:
  assumes ok: "ctable_ok L counts n ct" and s: "s < n" and c: "counts ! s \<noteq> 0"
  obtains u where "u < 2 ^ L" and "init_cstate2 ct s = Ok (2 ^ L + u)" and "fse_table L counts n ! u = s"
    and "nat \<bar>counts ! s\<bar> < 2 ^ L \<Longrightarrow> 1 \<le> bits_of L counts (fse_table L counts n) u"
proof -
  let ?ts = "fse_table L counts n" and ?c = "nat \<bar>counts ! s\<bar>"
  have v: "counts_valid L counts n" using ok by (simp add: ctable_ok_def)
  have L: "L \<le> 9" "4 \<le> L" "n \<le> 256" "(2 :: nat) ^ L \<le> 512" using v valid_size [OF v] by (auto simp: counts_valid_def)
  have c0: "0 < ?c" using c by simp
  have cL: "?c \<le> 2 ^ L" using count_le_size(1) [OF v s] .
  have tt: "ct_symbol_tt ct ! s = transform_spec L counts s" using ok s by (simp add: ctable_ok_def)
  from state_of_rank [OF v s c0] obtain u where u: "u < 2 ^ L" "?ts ! u = s" "rank_in ?ts u = 0" .
  let ?m = "bits_out L ?c"
  have m: "1 \<le> ?m" "?c * 2 ^ ?m \<le> 1024"
  proof -
    have "1 \<le> ?m \<and> ?c * 2 ^ ?m \<le> 1024"
    proof (cases "?c = 1")
      case True
      then have "?m = L" by (simp add: bits_out_def)
      then show ?thesis using True L by simp
    next
      case False
      then have c1: "1 < ?c" using c0 by linarith
      show ?thesis using bits_out_bounds(2,4) [OF c1 cL] L(4) by simp
    qed
    then show "1 \<le> ?m" "?c * 2 ^ ?m \<le> 1024" by auto
  qed
  have d: "delta_nb_bits (ct_symbol_tt ct ! s) = ?m * 65536 - ?c * 2 ^ ?m"
    using c by (simp add: tt transform_spec_def Let_def)
  have fit: "?c * 2 ^ ?m \<le> ?m * 65536" using m by linarith
  have nb: "(delta_nb_bits (ct_symbol_tt ct ! s) + 2 ^ 15) div 2 ^ 16 = ?m"
    using half_up [OF m(2,1)] by (simp only: d) simp
  have sub: "sub_u32 (?m * 2 ^ 16) (delta_nb_bits (ct_symbol_tt ct ! s)) = Ok (?c * 2 ^ ?m)"
    using fit by (simp add: sub_u32_def d)
  have slot: "int (?c * 2 ^ ?m div 2 ^ ?m) + delta_find_state (ct_symbol_tt ct ! s) = int (slot_of counts ?ts u)"
    using c u(2,3) by (simp add: tt transform_spec_def Let_def slot_of_def)
  have "slot_of counts ?ts u < 2 ^ L" using slot_bounds(2) [OF filled_fse_table [OF v] u(1)] .
  then have "slot_of counts ?ts u < 512" using L(4) by linarith
  then have nx: "next_cstate ct (int (slot_of counts ?ts u)) = Ok (2 ^ L + u)"
    using ok u(1) by (subst next_cstate_Ok) (simp_all add: ctable_ok_def TABLESIZE_MAX_def)
  have "symbol_check ct s = Ok ()" "idx (ct_symbol_tt ct) s = Ok (ct_symbol_tt ct ! s)"
    by (rule ctable_symbol [OF ok s])+
  then have "init_cstate2 ct s = Ok (2 ^ L + u)"
    by (simp only: init_cstate2_def and_then.simps Let_def nb sub slot nx)
  moreover have "1 \<le> bits_of L counts ?ts u" if "?c < 2 ^ L"
  proof -
    have "state_of counts ?ts u = ?c" using u(2,3) by (simp add: state_of_def)
    then show ?thesis using log2_less_iff [OF c0, of L] that by (simp add: bits_of_def)
  qed
  ultimately show thesis using that u by blast
qed

end
