(* ===== verification/FseRoundtrip.thy ===== *)
theory FseRoundtrip
  imports FseTans
begin

section \<open>FSE compression and decompression are inverse\<close>

text \<open>
  The interleaved compressor of \<open>src/src/entropy/fse.rs\<close> against the decompressor. What is left to
  decode is described by the two states and the stack of bits below them; the
  compressor, going backwards, adds one symbol on top, and the decompressor takes it
  off. The last symbol's state reads a bit that is no longer there, and this
  overflow is what stops the decompressor.
\<close>

definition matching :: "nat \<Rightarrow> int list \<Rightarrow> nat \<Rightarrow> dtable \<Rightarrow> bool" where
  "matching L counts n dt \<longleftrightarrow> dtable_ok dt \<and> dt_table_log dt = L
     \<and> (\<forall>u < 2 ^ L. entry_of dt u = entry_spec mk_decode_entry L counts n u)"

fun coded :: "dtable \<Rightarrow> nat list \<Rightarrow> dstate \<Rightarrow> dstate \<Rightarrow> (nat \<times> nat) list \<Rightarrow> bool" where
  "coded dt (x # y # z # xs) a b ((v, n) # st) \<longleftrightarrow>
     a < 2 ^ dt_table_log dt \<and> de_symbol (entry_of dt a) = x \<and> n = de_nb_bits (entry_of dt a)
     \<and> coded dt (y # z # xs) b (de_new_state (entry_of dt a) + v mod 2 ^ n) st"
| "coded dt [x, y] a b [] \<longleftrightarrow>
     a < 2 ^ dt_table_log dt \<and> b < 2 ^ dt_table_log dt \<and> de_symbol (entry_of dt a) = x
     \<and> de_symbol (entry_of dt b) = y \<and> 1 \<le> de_nb_bits (entry_of dt a)"
| "coded dt _ _ _ _ \<longleftrightarrow> False"

lemma coded_Cons:
  "coded dt xs a b st \<Longrightarrow> a' < 2 ^ dt_table_log dt \<Longrightarrow> de_symbol (entry_of dt a') = x \<Longrightarrow>
   de_new_state (entry_of dt a') + v mod 2 ^ de_nb_bits (entry_of dt a') = b \<Longrightarrow>
   coded dt (x # xs) a' a ((v, de_nb_bits (entry_of dt a')) # st)"
  by (cases "(dt, xs, a, b, st)" rule: coded.cases) auto

lemma coded_length: "coded dt xs a b st \<Longrightarrow> length xs = length st + 2"
  by (induction dt xs a b st rule: coded.induct) auto

lemma coded_states: "coded dt xs a b st \<Longrightarrow> a < 2 ^ dt_table_log dt \<and> b < 2 ^ dt_table_log dt"
  by (induction dt xs a b st rule: coded.induct) auto

lemma coded_bits: "coded dt xs a b st \<Longrightarrow> dtable_ok dt \<Longrightarrow> stack_bits st \<le> 9 * length st"
  by (induction dt xs a b st rule: coded.induct) (auto dest!: dtable_ok_entry(3))

subsection \<open>The compressor\<close>

lemma unat_word_of_nat_u64: "x < 2 ^ 64 \<Longrightarrow> unat (word_of_nat x :: u64) = x"
  by (simp add: unat_of_nat)

lemma encode_symbol_coded:
  assumes ok: "ctable_ok L counts n ct" and m: "matching L counts n dt" and s: "s < n" "counts ! s \<noteq> 0"
    and w: "writes st bc" and u': "u' < 2 ^ L" and coded: "coded dt xs a u' st"
    and r: "encode_symbol bc (2 ^ L + u') ct s = Ok (bc', c')"
  obtains u nb where "c' = 2 ^ L + u" and "u < 2 ^ L" and "writes ((2 ^ L + u', nb) # st) bc'"
    and "coded dt (s # xs) u a ((2 ^ L + u', nb) # st)"
proof -
  have v: "counts_valid L counts n" using ok by (simp add: ctable_ok_def)
  from tans_step [OF ok s u'] obtain u where u: "u < 2 ^ L"
    "next_cstate ct (int ((2 ^ L + u') div 2 ^ ((2 ^ L + u' + delta_nb_bits (ct_symbol_tt ct ! s)) div 2 ^ 16))
      + delta_find_state (ct_symbol_tt ct ! s)) = Ok (2 ^ L + u)"
    "fse_table L counts n ! u = s"
    "bits_of L counts (fse_table L counts n) u = (2 ^ L + u' + delta_nb_bits (ct_symbol_tt ct ! s)) div 2 ^ 16"
    "base_of L counts (fse_table L counts n) u
      + (2 ^ L + u') mod 2 ^ ((2 ^ L + u' + delta_nb_bits (ct_symbol_tt ct ! s)) div 2 ^ 16) = u'" by blast
  define nb where "nb = (2 ^ L + u' + delta_nb_bits (ct_symbol_tt ct ! s)) div 2 ^ 16"
  note u = u [folded nb_def]
  note sym = ctable_symbol [OF ok s(1)]
  from r have step: "add_bits bc (word_of_nat (2 ^ L + u')) nb = Ok bc'" "c' = 2 ^ L + u"
    unfolding encode_symbol_def sym and_then.simps Let_def nb_def [symmetric] u(2)
    by (auto simp only: run_simps and_then.simps)
  have "2 ^ L + u' < 1024" using u' valid_size [OF v] by linarith
  then have "unat (word_of_nat (2 ^ L + u') :: u64) = 2 ^ L + u'" by (intro unat_word_of_nat_u64) simp
  then have w': "writes ((2 ^ L + u', nb) # st) bc'" using writes_add_bits [OF w step(1)] by simp
  have e: "de_symbol (entry_of dt u) = s" "de_nb_bits (entry_of dt u) = nb"
    "de_new_state (entry_of dt u) + (2 ^ L + u') mod 2 ^ nb = u'"
    using m u(1,3-5) by (simp_all add: matching_def entry_spec_def Let_def mk_decode_entry_def)
  have L: "dt_table_log dt = L" using m by (simp add: matching_def)
  have "coded dt (s # xs) u a ((2 ^ L + u', nb) # st)"
    using coded_Cons [OF coded, of u s "2 ^ L + u'"] u(1) e L by simp
  with that step(2) u(1) w' show thesis by blast
qed

lemma init_coded:
  assumes ok: "ctable_ok L counts n ct" and m: "matching L counts n dt" and s: "s < n" "counts ! s \<noteq> 0"
    and full: "nat \<bar>counts ! s\<bar> < 2 ^ L"
  obtains u where "u < 2 ^ L" and "init_cstate2 ct s = Ok (2 ^ L + u)" and "de_symbol (entry_of dt u) = s"
    and "1 \<le> de_nb_bits (entry_of dt u)"
proof -
  show thesis
  proof (rule init_cstate2_spec [OF ok s])
    fix u
    assume u: "u < 2 ^ L" "init_cstate2 ct s = Ok (2 ^ L + u)" "fse_table L counts n ! u = s"
      "nat \<bar>counts ! s\<bar> < 2 ^ L \<Longrightarrow> 1 \<le> bits_of L counts (fse_table L counts n) u"
    have "entry_of dt u = entry_spec mk_decode_entry L counts n u" using m u(1) by (simp add: matching_def)
    then have "de_symbol (entry_of dt u) = s" "1 \<le> de_nb_bits (entry_of dt u)"
      using u(3) u(4) [OF full] by (simp_all add: entry_spec_def Let_def mk_decode_entry_def)
    with that u(1,2) show thesis by blast
  qed
qed

text \<open>Every symbol of the input has a state, and no symbol has them all.\<close>

definition encodable :: "nat \<Rightarrow> int list \<Rightarrow> nat \<Rightarrow> bytes \<Rightarrow> bool" where
  "encodable L counts n src \<longleftrightarrow>
     (\<forall>x \<in> set src. unat x < n \<and> counts ! unat x \<noteq> 0 \<and> nat \<bar>counts ! unat x\<bar> < 2 ^ L)"

text \<open>What is coded at a position: from an even one the first state is next.\<close>

definition coded_at :: "dtable \<Rightarrow> nat \<Rightarrow> bytes \<Rightarrow> usize \<Rightarrow> cstream \<times> cstate \<times> cstate \<Rightarrow> bool" where
  "coded_at dt L src ip t \<longleftrightarrow> (case t of (bc, s1, s2) \<Rightarrow>
     \<exists>a b st. coded dt (map unat (drop ip src)) a b st \<and> writes st bc \<and> a < 2 ^ L \<and> b < 2 ^ L \<and>
       (if even ip then s1 = 2 ^ L + a \<and> s2 = 2 ^ L + b else s2 = 2 ^ L + a \<and> s1 = 2 ^ L + b))"

lemma drop_before: "0 < ip \<Longrightarrow> ip \<le> length src \<Longrightarrow> drop (ip - 1) src = src ! (ip - 1) # drop ip src"
  using Cons_nth_drop_Suc [of "ip - 1" src] by simp

lemma flush_either_writes:
  assumes "writes st bc" and "flush_either fast bc = Ok bc'"
  shows "writes st bc'"
  using assms(2) writes_flush [OF assms(1)] writes_flush_fast [OF assms(1)] by (simp add: flush_either_def split: if_splits)

lemma coded_at_flush:
  assumes "coded_at dt L src ip (bc, s1, s2)" and "flush_either fast bc = Ok bc'"
  shows "coded_at dt L src ip (bc', s1, s2)"
proof -
  from assms(1) obtain a b st where c: "coded dt (map unat (drop ip src)) a b st" "writes st bc" "a < 2 ^ L" "b < 2 ^ L"
    "if even ip then s1 = 2 ^ L + a \<and> s2 = 2 ^ L + b else s2 = 2 ^ L + a \<and> s1 = 2 ^ L + b"
    by (auto simp: coded_at_def)
  from flush_either_writes [OF c(2) assms(2)] c show ?thesis unfolding coded_at_def prod.case by blast
qed

lemma encode_one:
  assumes ok: "ctable_ok L counts n ct" and m: "matching L counts n dt" and enc: "encodable L counts n src"
    and at: "coded_at dt L src ip (bc, s1, s2)" and ip: "0 < ip" "ip \<le> length src"
    and r: "encode_symbol bc (if even ip then s2 else s1) ct (unat (src ! (ip - 1))) = Ok (bc', c')"
  shows "coded_at dt L src (ip - 1) (if even ip then (bc', s1, c') else (bc', c', s2))"
proof -
  let ?x = "src ! (ip - 1)"
  from at obtain a b st where c: "coded dt (map unat (drop ip src)) a b st" "writes st bc" "a < 2 ^ L" "b < 2 ^ L"
    "if even ip then s1 = 2 ^ L + a \<and> s2 = 2 ^ L + b else s2 = 2 ^ L + a \<and> s1 = 2 ^ L + b"
    by (auto simp: coded_at_def)
  have x: "unat ?x < n" "counts ! unat ?x \<noteq> 0" using enc ip by (auto simp: encodable_def)
  have "(if even ip then s2 else s1) = 2 ^ L + b" using c(5) by (simp split: if_splits)
  from encode_symbol_coded [OF ok m x c(2,4,1) r [unfolded this]] obtain u nb where
    u: "c' = 2 ^ L + u" "u < 2 ^ L" "writes ((2 ^ L + b, nb) # st) bc'"
    "coded dt (unat ?x # map unat (drop ip src)) u a ((2 ^ L + b, nb) # st)" .
  have "map unat (drop (ip - 1) src) = unat ?x # map unat (drop ip src)" using drop_before [OF ip] by simp
  moreover have "even (ip - 1) \<longleftrightarrow> \<not> even ip" using ip(1) by (cases ip) auto
  ultimately show ?thesis using u c(3,5) by (cases "even ip") (auto simp: coded_at_def)
qed

lemma src_before_Ok: "0 < ip \<Longrightarrow> ip \<le> length src \<Longrightarrow> src_before src ip = Ok (unat (src ! (ip - 1)))"
  by (simp add: src_before_def idx_def)

lemma encode_pair_coded:
  assumes ok: "ctable_ok L counts n ct" and m: "matching L counts n dt" and enc: "encodable L counts n src"
    and at: "coded_at dt L src ip t" and ip: "2 \<le> ip" "ip \<le> length src" "even ip"
    and r: "encode_pair mid fast ct src ip t = Ok t'"
  shows "coded_at dt L src (ip - 2) t'"
proof -
  obtain bc s1 s2 where t: "t = (bc, s1, s2)" by (cases t)
  have ip1: "0 < ip" "0 < ip - 1" "ip - 1 \<le> length src" "odd (ip - 1)" "ip - 1 - 1 = ip - 2" using ip by auto
  from r obtain bc1 c2 bc2 bc3 c1 where
    r1: "encode_symbol bc s2 ct (unat (src ! (ip - 1))) = Ok (bc1, c2)" and f: "flush_when mid fast bc1 = Ok bc2"
    and r2: "encode_symbol bc2 s1 ct (unat (src ! (ip - 1 - 1))) = Ok (bc3, c1)" and t': "t' = (bc3, c1, c2)"
    unfolding encode_pair_def t src_before_Ok [OF ip1(1) ip(2)] src_before_Ok [OF ip1(2,3)] and_then.simps prod.case
    by (auto simp only: run_simps)
  have "coded_at dt L src (ip - 1) (bc1, s1, c2)"
    using encode_one [OF ok m enc at [unfolded t] ip1(1) ip(2)] r1 ip(3) by simp
  then have "coded_at dt L src (ip - 1) (bc2, s1, c2)"
    using f coded_at_flush by (cases mid) (auto simp: flush_when_def)
  from encode_one [OF ok m enc this ip1(2,3)] r2 ip1(4,5) show ?thesis by (simp add: t')
qed

lemma flush_triple_coded:
  assumes "coded_at dt L src ip t" and "flush_triple fast t = Ok t'"
  shows "coded_at dt L src ip t'"
proof -
  obtain bc s1 s2 where t: "t = (bc, s1, s2)" by (cases t)
  from assms(2) obtain bc' where "flush_either fast bc = Ok bc'" "t' = (bc', s1, s2)"
    by (auto simp: flush_triple_def t)
  with coded_at_flush assms(1) show ?thesis by (simp add: t)
qed

lemma encode_blocks_coded:
  "encode_blocks fast ct src ip t = Ok t' \<Longrightarrow> ctable_ok L counts n ct \<Longrightarrow> matching L counts n dt \<Longrightarrow>
   encodable L counts n src \<Longrightarrow> coded_at dt L src ip t \<Longrightarrow> ip \<le> length src \<Longrightarrow> ip mod 4 = 0 \<Longrightarrow>
   coded_at dt L src 0 t'"
proof (induction fast ct src ip t arbitrary: rule: encode_blocks.induct)
  case (1 fast ct src ip t)
  have wide: "wide_container" by (simp add: wide_container_def TABLELOG_MAX_def CONTAINER_BITS_def)
  note ok = "1.prems"(2) and m = "1.prems"(3) and enc = "1.prems"(4)
  show ?case
  proof (cases "ip = 0")
    case True
    then show ?thesis using "1.prems"(1,5) by (simp add: encode_blocks.simps)
  next
    case False
    then have ip: "4 \<le> ip" "even ip" using "1.prems"(7) by presburger+
    from "1.prems"(1) [unfolded encode_blocks.simps [of fast ct src ip t] if_not_P [OF False]] wide
    obtain t1 t2 t3 where
      r1: "encode_pair (CONTAINER_BITS < TABLELOG_MAX * 2 + 7) fast ct src ip t = Ok t1"
      and r2: "encode_pair False fast ct src (ip - 2) t1 = Ok t2" and r3: "flush_triple fast t2 = Ok t3"
      and r4: "encode_blocks fast ct src (ip - 4) t3 = Ok t'" by auto
    have c1: "coded_at dt L src (ip - 2) t1"
      by (rule encode_pair_coded [OF ok m enc "1.prems"(5) _ "1.prems"(6) ip(2) r1]) (use ip in simp)
    have "2 \<le> ip - 2" "ip - 2 \<le> length src" "even (ip - 2)" using ip "1.prems"(6) by auto
    from encode_pair_coded [OF ok m enc c1 this r2] have "coded_at dt L src (ip - 4) t2" by (simp add: diff_diff_left)
    from flush_triple_coded [OF this r3] have c3: "coded_at dt L src (ip - 4) t3" .
    have b: "ip - 4 \<le> length src" "(ip - 4) mod 4 = 0" using "1.prems"(6,7) ip by presburger+
    show ?thesis
      by (rule "1.IH" [OF False r1 _ r3]) (simp_all add: wide r2 r4 c3 b ok m enc)
  qed
qed

lemma encode_start_coded:
  assumes ok: "ctable_ok L counts n ct" and m: "matching L counts n dt" and enc: "encodable L counts n src"
    and len: "2 < length src" and w: "writes [] bc" and r: "encode_start fast ct src bc = Ok (t, ip)"
  shows "coded_at dt L src ip t \<and> ip = (if even (length src) then length src - 2 else length src - 3)"
proof -
  let ?n = "length src"
  have L: "dt_table_log dt = L" using m by (simp add: matching_def)
  have init: "\<exists>u. u < 2 ^ L \<and> init_cstate2 ct (unat (src ! i)) = Ok (2 ^ L + u) \<and> de_symbol (entry_of dt u) = unat (src ! i)
      \<and> 1 \<le> de_nb_bits (entry_of dt u)" if "i < ?n" for i
  proof -
    have "src ! i \<in> set src" using that by simp
    then have "unat (src ! i) < n" "counts ! unat (src ! i) \<noteq> 0" "nat \<bar>counts ! unat (src ! i)\<bar> < 2 ^ L"
      using enc by (auto simp: encodable_def)
    from init_coded [OF ok m this] show ?thesis by metis
  qed
  have i: "?n - 1 < ?n" "?n - 2 < ?n" using len by linarith+
  obtain u where u: "u < 2 ^ L" "init_cstate2 ct (unat (src ! (?n - 1))) = Ok (2 ^ L + u)"
    "de_symbol (entry_of dt u) = unat (src ! (?n - 1))" using init [OF i(1)] by blast
  obtain v where v: "v < 2 ^ L" "init_cstate2 ct (unat (src ! (?n - 2))) = Ok (2 ^ L + v)"
    "de_symbol (entry_of dt v) = unat (src ! (?n - 2))" "1 \<le> de_nb_bits (entry_of dt v)" using init [OF i(2)] by blast
  have "drop (?n - 2) src = [src ! (?n - 2), src ! (?n - 1)]"
  proof -
    have "src \<noteq> []" "0 < ?n - 1" using len by auto
    then show ?thesis using drop_before [of "?n - 1" src] drop_before [of ?n src] by (simp add: numeral_2_eq_2)
  qed
  then have base: "coded dt (map unat (drop (?n - 2) src)) v u []"
    using u v L by simp
  have b1: "src_before src ?n = Ok (unat (src ! (?n - 1)))" "src_before src (?n - 1) = Ok (unat (src ! (?n - 2)))"
  proof -
    have "0 < ?n" "0 < ?n - 1" "?n - 1 \<le> ?n" "?n - 1 - 1 = ?n - 2" using len by linarith+
    then show "src_before src ?n = Ok (unat (src ! (?n - 1)))" "src_before src (?n - 1) = Ok (unat (src ! (?n - 2)))"
      using src_before_Ok [of ?n src] src_before_Ok [of "?n - 1" src] by (metis order_refl, metis)
  qed
  show ?thesis
  proof (cases "even ?n")
    case True
    then have "t = (bc, 2 ^ L + v, 2 ^ L + u)" "ip = ?n - 2"
      using r True unfolding encode_start_def Let_def b1 u(2) v(2) and_then.simps by (simp_all add: mod_2_eq_odd)
    moreover have "even (?n - 2)" using True len by simp
    ultimately show ?thesis using base w u(1) v(1) True by (auto simp: coded_at_def)
  next
    case False
    have b2: "src_before src (?n - 2) = Ok (unat (src ! (?n - 2 - 1)))" using len by (intro src_before_Ok) auto
    from r have "\<exists>bc1 c bc2. encode_symbol bc (2 ^ L + u) ct (unat (src ! (?n - 2 - 1))) = Ok (bc1, c)
        \<and> flush_either fast bc1 = Ok bc2 \<and> t = (bc2, c, 2 ^ L + v) \<and> ip = ?n - 3"
      using False unfolding encode_start_def Let_def b1 b2 u(2) v(2) and_then.simps
      by (auto simp only: mod_2_eq_odd of_bool_eq run_simps one_neq_zero if_True simp_thms)
    then obtain bc1 c bc2 where s: "encode_symbol bc (2 ^ L + u) ct (unat (src ! (?n - 2 - 1))) = Ok (bc1, c)"
      "flush_either fast bc1 = Ok bc2" "t = (bc2, c, 2 ^ L + v)" "ip = ?n - 3" by blast
    have odd: "odd (?n - 2)" "0 < ?n - 2" "?n - 2 \<le> ?n" using False len by auto
    have "coded_at dt L src (?n - 2) (bc, 2 ^ L + u, 2 ^ L + v)"
      using base w u(1) v(1) odd(1) by (auto simp: coded_at_def)
    from encode_one [OF ok m enc this odd(2,3)] s(1) odd(1) have "coded_at dt L src (?n - 2 - 1) (bc1, c, 2 ^ L + v)" by simp
    then have "coded_at dt L src (?n - 3) (bc1, c, 2 ^ L + v)" by (simp add: numeral_3_eq_3 numeral_2_eq_2)
    from coded_at_flush [OF this s(2)] show ?thesis using s(3,4) False by simp
  qed
qed

lemma start_parity:
  assumes "2 < (n :: nat)" and "ip = (if even n then n - 2 else n - 3)"
  shows "even ip" and "ip \<le> n" and "odd ((n - 2) div 2) \<longleftrightarrow> ip mod 4 = 2" and "ip mod 4 = 0 \<or> ip mod 4 = 2"
proof -
  have "\<exists>m. n = m + 3" using assms(1) by (intro exI [of _ "n - 3"]) simp
  then obtain m where n: "n = m + 3" by blast
  have ip: "ip = (if even m then m else m + 1)" using assms(2) by (auto simp: n)
  have n2: "n - 2 = m + 1" by (simp add: n)
  show "even ip" and "ip \<le> n" and "ip mod 4 = 0 \<or> ip mod 4 = 2" by (simp_all only: ip n split: if_split) presburger+
  show "odd ((n - 2) div 2) \<longleftrightarrow> ip mod 4 = 2" by (simp only: ip n2 split: if_split) presburger
qed

text \<open>The whole compressor: what it closes is the two states on top of the coded symbols.\<close>

lemma compress_coded:
  assumes ok: "ctable_ok L counts n ct" and m: "matching L counts n dt" and enc: "encodable L counts n src"
    and r: "compress_using_ctable_generic dst src ct fast = Ok (k, out)" and k: "k \<noteq> 0"
  obtains a b st bc where "coded dt (map unat src) a b st"
    and "holds ((2 ^ L + a, L) # (2 ^ L + b, L) # st) bc" and "cstream_close bc = Ok (k, out)"
    and "2 < length src"
proof -
  have len: "2 < length src" using r k by (auto simp: compress_using_ctable_generic_def split: if_splits)
  then have len': "\<not> length src \<le> 2" by simp
  have "cstream_new dst \<noteq> Fault \<and> (\<forall>e. cstream_new dst \<noteq> Err e)"
    using r k len by (auto simp: compress_using_ctable_generic_def split: result.splits if_splits)
  then obtain bc0 where bc0: "cstream_new dst = Ok bc0" by (cases "cstream_new dst") auto
  have w0: "writes [] bc0" using holds_new [OF bc0] by (simp add: writes_def)
  have wide: "wide_container" by (simp add: wide_container_def TABLELOG_MAX_def CONTAINER_BITS_def)
  from r obtain t0 ip0 t1 ip1 bc1 s1 s2 bc2 bc3 where
    start: "encode_start fast ct src bc0 = Ok (t0, ip0)"
    and join: "(if wide_container \<and> (length src - 2) AND 2 \<noteq> 0
        then and_then (encode_pair False fast ct src ip0 t0) (\<lambda>st.
             and_then (flush_triple fast st) (\<lambda>st. Ok (st, ip0 - 2))) else Ok (t0, ip0)) = Ok (t1, ip1)"
    and blocks: "encode_blocks fast ct src ip1 t1 = Ok (bc1, s1, s2)"
    and f2: "flush_cstate bc1 s2 ct = Ok bc2" and f1: "flush_cstate bc2 s1 ct = Ok bc3"
    and close: "cstream_close bc3 = Ok (k, out)"
    unfolding compress_using_ctable_generic_def if_not_P [OF len'] bc0 result.case
    by (auto simp only: run_simps)
  from encode_start_coded [OF ok m enc len w0 start] have
    c0: "coded_at dt L src ip0 t0" and ip0: "ip0 = (if even (length src) then length src - 2 else length src - 3)" by auto
  have two: "(length src - 2) AND 2 \<noteq> 0 \<longleftrightarrow> odd ((length src - 2) div 2)"
    using bit_iff_and_push_bit_not_eq_0 [of "length src - 2" 1] by (simp add: bit_iff_odd)
  have ip0': "even ip0" "ip0 \<le> length src" "(length src - 2) AND 2 \<noteq> 0 \<longleftrightarrow> ip0 mod 4 = 2" "ip0 mod 4 = 0 \<or> ip0 mod 4 = 2"
    using start_parity [OF len ip0] two by auto
  have c1: "coded_at dt L src ip1 t1 \<and> ip1 \<le> length src \<and> ip1 mod 4 = 0"
  proof (cases "(length src - 2) AND 2 \<noteq> 0")
    case True
    then obtain t' where t': "encode_pair False fast ct src ip0 t0 = Ok t'" "flush_triple fast t' = Ok t1" "ip1 = ip0 - 2"
      using join wide by auto
    have "ip0 mod 4 = 2" using True ip0'(3) by blast
    then have "2 \<le> ip0" by presburger
    from encode_pair_coded [OF ok m enc c0 this ip0'(2,1) t'(1)] have "coded_at dt L src ip1 t'" by (simp add: t'(3))
    from flush_triple_coded [OF this t'(2)] have "coded_at dt L src ip1 t1" .
    moreover have "ip1 mod 4 = 0" using \<open>ip0 mod 4 = 2\<close> by (simp only: t'(3)) presburger
    ultimately show ?thesis using ip0'(2) by (simp add: t'(3))
  next
    case False
    then show ?thesis using join c0 ip0' by auto
  qed
  then have "coded_at dt L src 0 (bc1, s1, s2)"
    by (elim conjE) (rule encode_blocks_coded [OF blocks ok m enc])
  then obtain a b st where c: "coded dt (map unat src) a b st" "writes st bc1" "a < 2 ^ L" "b < 2 ^ L"
    "s1 = 2 ^ L + a" "s2 = 2 ^ L + b" by (auto simp: coded_at_def)
  have v: "counts_valid L counts n" and lg: "ct_table_log ct = L" using ok by (auto simp: ctable_ok_def)
  have st: "unat (word_of_nat (2 ^ L + a) :: u64) = 2 ^ L + a" "unat (word_of_nat (2 ^ L + b) :: u64) = 2 ^ L + b"
    using c(3,4) valid_size [OF v] by (intro unat_word_of_nat_u64, simp)+
  have push: "writes ((unat (word_of_nat s :: u64), L) # st) bc'" if "flush_cstate bc s ct = Ok bc'" "writes st bc" for bc bc' s st
  proof -
    from that(1) obtain bc'' where "add_bits bc (word_of_nat s) L = Ok bc''" "flush_bits bc'' = Ok bc'"
      by (auto simp: flush_cstate_def lg)
    then show ?thesis using writes_flush [OF writes_add_bits [OF that(2)]] by blast
  qed
  have "writes ((2 ^ L + a, L) # (2 ^ L + b, L) # st) bc3"
    using push [OF f1 push [OF f2 c(2)]] by (simp only: c(5,6) st)
  from that [OF c(1) writes_close [OF this close] close len] show thesis .
qed

subsection \<open>The decompressor\<close>

lemma get_symbol_coded:
  assumes dt: "dtable_ok dt" and c: "coded dt (x # y # z # xs) a b ((v, n) # st)" and s: "reads ((v, n) # st) s"
    and room: "bits_consumed s + n \<le> 64" and op: "op < length dst" and fast: "fast \<longrightarrow> dt_fast_mode dt"
  shows "get_symbol fast dt a dst op s = Ok (dst[op := word_of_nat x], de_new_state (entry_of dt a) + v mod 2 ^ n, skip_bits s n)"
    and "reads st (skip_bits s n)" and "n \<le> 9"
    and "coded dt (y # z # xs) b (de_new_state (entry_of dt a) + v mod 2 ^ n) st"
proof -
  from c have a: "a < 2 ^ dt_table_log dt" "de_symbol (entry_of dt a) = x" "n = de_nb_bits (entry_of dt a)" by auto
  note e = dtable_ok_entry [OF dt a(1)]
  have n: "n < 32" "n \<le> 9" using e(3) a(3) by auto
  from reads_pop_room [OF s room n(1)] obtain w where
    w: "read_bits s n = Ok (w, skip_bits s n)" "unat w = v mod 2 ^ n" "reads st (skip_bits s n)" by blast
  have i: "idx (dt_entries dt) a = Ok (entry_of dt a)" using e(1) by (simp add: entry_of_def)
  have "read_bits_fast s n = Ok (w, skip_bits s n)" if fast
  proof -
    have "n \<noteq> 0" using e(5) fast that a(3) by auto
    then have "can_read_fast s n" using room by (simp add: can_read_fast_def CONTAINER_BITS_def)
    then show ?thesis using w(1) \<open>n \<noteq> 0\<close> by (simp add: read_bits_def)
  qed
  then show "get_symbol fast dt a dst op s = Ok (dst[op := word_of_nat x], de_new_state (entry_of dt a) + v mod 2 ^ n, skip_bits s n)"
    using w(1,2) op a(2) by (cases fast) (simp_all add: get_symbol_def decode_symbol_fast_def decode_symbol_def i a(3) [symmetric])
  show "reads st (skip_bits s n)" "n \<le> 9" by (fact w(3) n(2))+
  from c show "coded dt (y # z # xs) b (de_new_state (entry_of dt a) + v mod 2 ^ n) st" unfolding coded.simps by blast
qed

text \<open>The invariant of the decoding loops: what has been written, and what is left.\<close>

definition decoded :: "dtable \<Rightarrow> nat list \<Rightarrow> dstate \<Rightarrow> dstate \<Rightarrow> bytes \<Rightarrow> usize \<Rightarrow> dstream \<Rightarrow> bool" where
  "decoded dt ys a b dst op s \<longleftrightarrow> op \<le> length ys \<and> length ys \<le> length dst \<and> take op dst = map word_of_nat (take op ys)
     \<and> (\<exists>st. coded dt (drop op ys) a b st \<and> reads st s)"

lemma decoded_step:
  assumes dt: "dtable_ok dt" and d: "decoded dt ys a b dst op s" and more: "op + 3 \<le> length ys"
    and room: "bits_consumed s + 9 \<le> 64 \<or> ready s" and fast: "fast \<longrightarrow> dt_fast_mode dt"
  obtains dst' a' s' where "get_symbol fast dt a dst op s = Ok (dst', a', s')" and "decoded dt ys b a' dst' (op + 1) s'"
    and "bits_consumed s' \<le> bits_consumed s + 9" and "bits_consumed s' \<le> 64" and "length dst' = length dst"
proof -
  from d obtain st where c: "coded dt (drop op ys) a b st" "reads st s" by (auto simp: decoded_def)
  have lens: "length ys \<le> length dst" "take op dst = map word_of_nat (take op ys)" using d by (auto simp: decoded_def)
  obtain x y z xs where ys: "drop op ys = x # y # z # xs"
  proof -
    have "3 \<le> length (drop op ys)" using more by simp
    then show thesis using that by (cases "drop op ys" rule: remdups_adj.cases) (auto simp: Suc_le_length_iff numeral_3_eq_3)
  qed
  have "length st = length xs + 1" using coded_length [OF c(1)] ys by simp
  then obtain v n st' where st: "st = (v, n) # st'" by (cases st) auto
  note c = c [unfolded ys st]
  have "n = de_nb_bits (entry_of dt a)" "a < 2 ^ dt_table_log dt" using c(1) by auto
  then have n9: "n \<le> 9" using dtable_ok_entry(3) [OF dt] by simp
  have fits: "bits_consumed s + n \<le> 64"
    using room
  proof
    assume "ready s"
    then show ?thesis using ready_room [of s n] c(2) n9 by (simp add: reads_def)
  qed (use n9 in simp)
  have op: "op < length dst" using more lens by simp
  note g = get_symbol_coded [OF dt c fits op fast]
  have x: "x = ys ! op" "op < length ys" using ys more hd_drop_conv_nth [of op ys] by auto
  have rest: "drop (op + 1) ys = y # z # xs" using ys by (metis drop_drop add.commute drop_Suc drop_0 list.sel(3) tl_drop plus_1_eq_Suc)
  have "take (op + 1) (dst[op := word_of_nat x]) = take op dst @ [word_of_nat x]"
    using op by (simp add: take_Suc_conv_app_nth)
  also have "\<dots> = map word_of_nat (take (op + 1) ys)" using lens(2) x by (simp add: take_Suc_conv_app_nth)
  finally have t: "take (op + 1) (dst[op := word_of_nat x]) = map word_of_nat (take (op + 1) ys)" .
  have "\<exists>st. coded dt (drop (op + 1) ys) b (de_new_state (entry_of dt a) + v mod 2 ^ n) st \<and> reads st (skip_bits s n)"
    unfolding rest using g(2,4) by blast
  then have "decoded dt ys b (de_new_state (entry_of dt a) + v mod 2 ^ n) (dst[op := word_of_nat x]) (op + 1) (skip_bits s n)"
    using t lens more by (simp add: decoded_def)
  from that [OF g(1) this] fits n9 show thesis by simp
qed

text \<open>The last two symbols: the bits are used up, so reading the next state overflows.\<close>

lemma decoded_last:
  assumes dt: "dtable_ok dt" and d: "decoded dt ys a b dst op s" and last: "length ys = op + 2"
    and ready: "ready s" and fast: "fast \<longrightarrow> dt_fast_mode dt"
  obtains dst1 a1 s1 s2 dst2 b2 s3 where "get_symbol fast dt a dst op s = Ok (dst1, a1, s1)"
    and "reload s1 = Ok (Overflow, s2)" and "get_symbol fast dt b dst1 (op + 1) s2 = Ok (dst2, b2, s3)"
    and "take (op + 2) dst2 = map word_of_nat ys" and "length dst1 = length dst" and "length dst2 = length dst"
proof -
  from d obtain st where c: "coded dt (drop op ys) a b st" "reads st s" by (auto simp: decoded_def)
  have lens: "length ys \<le> length dst" "take op dst = map word_of_nat (take op ys)" using d by (auto simp: decoded_def)
  have ys: "drop op ys = [ys ! op, ys ! (op + 1)]"
    using last Cons_nth_drop_Suc [of op ys] Cons_nth_drop_Suc [of "op + 1" ys] by simp
  have "length st = 0" using coded_length [OF c(1)] ys by simp
  then have st: "st = []" by simp
  have sym: "a < 2 ^ dt_table_log dt" "b < 2 ^ dt_table_log dt" "de_symbol (entry_of dt a) = ys ! op"
    "de_symbol (entry_of dt b) = ys ! (op + 1)" "1 \<le> de_nb_bits (entry_of dt a)"
    using c(1) unfolding ys st by auto
  have op: "op < length dst" using last lens by simp
  from get_symbol_ex [OF dt sym(1) op fast, of s] obtain v1 :: u64 where
    g1: "get_symbol fast dt a dst op s = Ok (dst[op := word_of_nat (ys ! op)], de_new_state (entry_of dt a) + unat v1,
      skip_bits s (de_nb_bits (entry_of dt a)))" by (auto simp: sym(3))
  let ?s1 = "skip_bits s (de_nb_bits (entry_of dt a))" and ?dst1 = "dst[op := word_of_nat (ys ! op)]"
  have inv: "dinv s" "bits_left s = 0" using c(2) by (simp_all add: reads_def st)
  then have "64 < bits_consumed ?s1" using ready sym(5) by (auto simp: ready_def bits_left_def)
  moreover have "dinv ?s1" using inv by simp
  ultimately have r: "reload ?s1 = Ok (Overflow, ?s1)" by (simp add: reload_def CONTAINER_BITS_def)
  have op1: "op + 1 < length ?dst1" using last lens by simp
  from get_symbol_ex [OF dt sym(2) op1 fast, of ?s1] obtain v2 :: u64 where
    g2: "get_symbol fast dt b ?dst1 (op + 1) ?s1 = Ok (?dst1[op + 1 := word_of_nat (ys ! (op + 1))],
      de_new_state (entry_of dt b) + unat v2, skip_bits ?s1 (de_nb_bits (entry_of dt b)))" by (auto simp: sym(4))
  have "take (op + 2) (?dst1[op + 1 := word_of_nat (ys ! (op + 1))])
      = take op dst @ [word_of_nat (ys ! op), word_of_nat (ys ! (op + 1))]"
    using op op1 by (simp add: take_Suc_conv_app_nth numeral_2_eq_2 nth_list_update)
  also have "\<dots> = map word_of_nat (take op ys @ drop op ys)" using lens(2) by (simp only: map_append ys list.map)
  finally have "take (op + 2) (?dst1[op + 1 := word_of_nat (ys ! (op + 1))]) = map word_of_nat ys" by simp
  with that [OF g1 r g2] show thesis by simp
qed

lemma decoded_reload:
  assumes "decoded dt ys a b dst op s" and "bits_consumed s \<le> 64"
  obtains t s' where "reload s = Ok (t, s')" and "t \<noteq> Overflow" and "decoded dt ys a b dst op s'" and "ready s'"
proof -
  from assms(1) obtain st where c: "coded dt (drop op ys) a b st" "reads st s" by (auto simp: decoded_def)
  from ready_reload [OF c(2) assms(2)] obtain t s' where
    r: "reload s = Ok (t, s')" "reads st s'" "ready s'" "t \<noteq> Overflow" .
  from that [OF r(1,4) _ r(3)] assms(1) c(1) r(2) show thesis by (auto simp: decoded_def)
qed

lemma decoded_pair:
  assumes dt: "dtable_ok dt" and d: "decoded dt ys a b dst op s" and more: "op + 4 \<le> length ys"
    and room: "bits_consumed s + 18 \<le> 64" and fast: "fast \<longrightarrow> dt_fast_mode dt"
  obtains dst' a' b' s' where "get_pair fast dt a b dst op s = Ok (dst', a', b', s')"
    and "decoded dt ys a' b' dst' (op + 2) s'" and "bits_consumed s' \<le> bits_consumed s + 18" and "length dst' = length dst"
proof -
  have m1: "op + 3 \<le> length ys" "op + 1 + 3 \<le> length ys" using more by auto
  have r0: "bits_consumed s + 9 \<le> 64 \<or> ready s" using room by simp
  obtain dst1 a' s1 where
    1: "get_symbol fast dt a dst op s = Ok (dst1, a', s1)" "decoded dt ys b a' dst1 (op + 1) s1"
    "bits_consumed s1 \<le> bits_consumed s + 9" "length dst1 = length dst"
    by (rule decoded_step [OF dt d m1(1) r0 fast]) (rule that)
  have r1: "bits_consumed s1 + 9 \<le> 64 \<or> ready s1" using 1(3) room by simp
  obtain dst2 b' s2 where
    2: "get_symbol fast dt b dst1 (op + 1) s1 = Ok (dst2, b', s2)" "decoded dt ys a' b' dst2 (op + 1 + 1) s2"
    "bits_consumed s2 \<le> bits_consumed s1 + 9" "length dst2 = length dst1"
    by (rule decoded_step [OF dt 1(2) m1(2) r1 fast]) (rule that)
  have c: "\<not> CONTAINER_BITS < TABLELOG_MAX * 2 + 7" by (simp add: CONTAINER_BITS_def TABLELOG_MAX_def)
  have "get_pair fast dt a b dst op s = Ok (dst2, a', b', s2)"
    by (simp only: get_pair_def 1(1) 2(1) and_then.simps prod.case reload_when_def c if_False)
  moreover have "decoded dt ys a' b' dst2 (op + 2) s2" using 2(2) by (simp add: numeral_2_eq_2)
  ultimately show thesis using that 1(3,4) 2(3,4) by simp
qed

lemma unfinished_many:
  assumes dt: "dtable_ok dt" and d: "decoded dt ys a b dst op s" and "bits_consumed s < 8"
  shows "op + 9 \<le> length ys"
proof -
  from d obtain st where c: "coded dt (drop op ys) a b st" "reads st s" and op: "op \<le> length ys" by (auto simp: decoded_def)
  have "57 \<le> bits_left s" using assms(3) by (simp add: bits_left_def)
  then have "57 \<le> stack_bits st" using c(2) by (simp add: reads_def)
  then have "7 \<le> length st" using coded_bits [OF c(1) dt] by linarith
  then show ?thesis using coded_length [OF c(1)] op by simp
qed

lemma decode_quads_coded:
  "dtable_ok dt \<Longrightarrow> decoded dt ys a b dst op s \<Longrightarrow> bits_consumed s \<le> 64 \<Longrightarrow> (fast \<longrightarrow> dt_fast_mode dt) \<Longrightarrow>
   \<exists>a' b' dst' op' s'. decode_quads fast dt olimit a b dst op s = Ok (a', b', dst', op', s')
     \<and> decoded dt ys a' b' dst' op' s' \<and> ready s' \<and> length dst' = length dst"
proof (induction fast dt olimit a b dst op s rule: decode_quads.induct)
  case (1 fast dt olimit a b dst op s)
  note dt = "1.prems"(1) and fast = "1.prems"(4)
  from decoded_reload [OF "1.prems"(2,3)] obtain t s1 where
    s1: "reload s = Ok (t, s1)" "decoded dt ys a b dst op s1" "ready s1" by metis
  have c: "\<not> CONTAINER_BITS < TABLELOG_MAX * 4 + 7" by (simp add: CONTAINER_BITS_def TABLELOG_MAX_def)
  show ?case
  proof (cases "t = Unfinished \<and> op < olimit")
    case False
    then have "decode_quads fast dt olimit a b dst op s = Ok (a, b, dst, op, s1)"
      by (subst decode_quads.simps) (simp only: s1(1) and_then.simps prod.case if_False)
    then show ?thesis using s1 by blast
  next
    case True
    then have c8: "bits_consumed s1 < 8" using reload_unfinished s1(1) by simp
    have more: "op + 9 \<le> length ys" by (rule unfinished_many [OF dt s1(2) c8])
    have m: "op + 4 \<le> length ys" "op + 2 + 4 \<le> length ys" using more by auto
    have room: "bits_consumed s1 + 18 \<le> 64" using c8 by simp
    from decoded_pair [OF dt s1(2) m(1) room fast] obtain dst1 a1 b1 s2 where
      p1: "get_pair fast dt a b dst op s1 = Ok (dst1, a1, b1, s2)" "decoded dt ys a1 b1 dst1 (op + 2) s2"
      "bits_consumed s2 \<le> bits_consumed s1 + 18" "length dst1 = length dst" .
    have room2: "bits_consumed s2 + 18 \<le> 64" using p1(3) c8 by simp
    from decoded_pair [OF dt p1(2) m(2) room2 fast] obtain dst2 a2 b2 s3 where
      p2: "get_pair fast dt a1 b1 dst1 (op + 2) s2 = Ok (dst2, a2, b2, s3)" "decoded dt ys a2 b2 dst2 (op + 2 + 2) s3"
      "bits_consumed s3 \<le> bits_consumed s2 + 18" "length dst2 = length dst1" .
    have step: "decode_quads fast dt olimit a b dst op s = decode_quads fast dt olimit a2 b2 dst2 (op + 4) s3"
      by (subst decode_quads.simps)
        (simp only: s1(1) and_then.simps prod.case True simp_thms if_True p1(1) c if_False p2(1))
    have d4: "decoded dt ys a2 b2 dst2 (op + 4) s3" using p2(2) by (simp add: numeral_eq_Suc)
    have c64: "bits_consumed s3 \<le> 64" using p1(3) p2(3) c8 by simp
    have "\<exists>a' b' dst' op' s'. decode_quads fast dt olimit a2 b2 dst2 (op + 4) s3 = Ok (a', b', dst', op', s')
     \<and> decoded dt ys a' b' dst' op' s' \<and> ready s' \<and> length dst' = length dst2"
      by (rule "1.IH" [OF s1(1) refl True p1(1) refl refl refl _ refl _ p2(1) refl refl refl dt d4 c64 fast, of False])
        (simp_all only: c if_False simp_thms)
    then show ?thesis by (simp only: step p2(4) p1(4))
  qed
qed

lemma decode_tail_coded:
  "dtable_ok dt \<Longrightarrow> decoded dt ys a b dst op s \<Longrightarrow> ready s \<Longrightarrow> (fast \<longrightarrow> dt_fast_mode dt) \<Longrightarrow>
   \<exists>dst'. decode_tail fast dt a b dst op s = Ok (dst', length ys) \<and> take (length ys) dst' = map word_of_nat ys
     \<and> length dst' = length dst"
proof (induction fast dt a b dst op s rule: decode_tail.induct)
  case (1 fast dt a b dst op s)
  note dt = "1.prems"(1) and fast = "1.prems"(4)
  have two: "op + 2 \<le> length ys" if "decoded dt ys a b dst op s" for a b dst op s
    using that coded_length by (fastforce simp: decoded_def)
  have len: "length ys \<le> length dst" using "1.prems"(2) by (simp add: decoded_def)
  have room: "\<not> length dst - 2 < op" using two [OF "1.prems"(2)] len by linarith
  note unfold = decode_tail.simps [of fast dt a b dst op s, unfolded if_not_P [OF room]]
  show ?case
  proof (cases "length ys = op + 2")
    case True
    from decoded_last [OF dt "1.prems"(2) True "1.prems"(3) fast] obtain dst1 a1 s1 s2 dst2 b2 s3 where
      l: "get_symbol fast dt a dst op s = Ok (dst1, a1, s1)" "reload s1 = Ok (Overflow, s2)"
      "get_symbol fast dt b dst1 (op + 1) s2 = Ok (dst2, b2, s3)" "take (op + 2) dst2 = map word_of_nat ys"
      "length dst2 = length dst" .
    then show ?thesis using True by (simp add: unfold)
  next
    case False
    then have more: "op + 3 \<le> length ys" using two [OF "1.prems"(2)] by simp
    obtain dst1 a1 s1 where
      g1: "get_symbol fast dt a dst op s = Ok (dst1, a1, s1)" "decoded dt ys b a1 dst1 (op + 1) s1"
      "bits_consumed s1 \<le> 64" "length dst1 = length dst"
      by (rule decoded_step [OF dt "1.prems"(2) more disjI2 [OF "1.prems"(3)] fast]) (rule that)
    from decoded_reload [OF g1(2,3)] obtain t1 s2 where
      r1: "reload s1 = Ok (t1, s2)" "t1 \<noteq> Overflow" "decoded dt ys b a1 dst1 (op + 1) s2" "ready s2" .
    have room2: "\<not> length dst1 - 2 < op + 1" using more len g1(4) by linarith
    note unfold2 = unfold [unfolded g1(1) and_then.simps prod.case r1(1) if_not_P [OF r1(2)] if_not_P [OF room2]]
    show ?thesis
    proof (cases "length ys = op + 1 + 2")
      case True
      from decoded_last [OF dt r1(3) True r1(4) fast] obtain dst2 b2 s3 s4 dst3 a2 s5 where
        l: "get_symbol fast dt b dst1 (op + 1) s2 = Ok (dst2, b2, s3)" "reload s3 = Ok (Overflow, s4)"
        "get_symbol fast dt a1 dst2 (op + 1 + 1) s4 = Ok (dst3, a2, s5)" "take (op + 1 + 2) dst3 = map word_of_nat ys"
        "length dst3 = length dst1" .
      then show ?thesis using True g1(4) by (simp add: unfold2 numeral_eq_Suc)
    next
      case False
      then have more2: "op + 1 + 3 \<le> length ys" using more by simp
      obtain dst2 b2 s3 where
        g2: "get_symbol fast dt b dst1 (op + 1) s2 = Ok (dst2, b2, s3)" "decoded dt ys a1 b2 dst2 (op + 1 + 1) s3"
        "bits_consumed s3 \<le> 64" "length dst2 = length dst1"
        by (rule decoded_step [OF dt r1(3) more2 disjI2 [OF r1(4)] fast]) (rule that)
      from decoded_reload [OF g2(2,3)] obtain t2 s4 where
        r2: "reload s3 = Ok (t2, s4)" "t2 \<noteq> Overflow" "decoded dt ys a1 b2 dst2 (op + 1 + 1) s4" "ready s4" .
      have d2: "decoded dt ys a1 b2 dst2 (op + 2) s4" using r2(3) by (simp add: numeral_2_eq_2)
      have "\<exists>dst'. decode_tail fast dt a1 b2 dst2 (op + 2) s4 = Ok (dst', length ys)
          \<and> take (length ys) dst' = map word_of_nat ys \<and> length dst' = length dst2"
        by (rule "1.IH" [OF room g1(1) refl refl r1(1) refl r1(2) room2 g2(1) refl refl r2(1) refl r2(2) dt d2 r2(4) fast])
      then show ?thesis using g1(4) g2(4) by (simp only: unfold2 g2(1) and_then.simps prod.case r2(1) if_not_P [OF r2(2)])
    qed
  qed
qed

lemma init_dstate_pop:
  assumes "reads ((v, n) # st) s" and "ready s" and "dt_table_log dt = n" and "n < 32"
  obtains s' where "init_dstate dt s = Ok (v mod 2 ^ n, s')" and "reads st s'" and "ready s'"
proof -
  from reads_pop [OF assms(1,2,4)] obtain x where
    x: "read_bits s n = Ok (x, skip_bits s n)" "unat x = v mod 2 ^ n" "reads st (skip_bits s n)" "bits_consumed s + n \<le> 64"
    by blast
  have "bits_consumed (skip_bits s n) \<le> 64" using x(4) by simp
  from ready_reload [OF x(3) this] obtain t s' where "reload (skip_bits s n) = Ok (t, s')" "reads st s'" "ready s'" .
  with that x(1,2) assms(3) show thesis by (simp add: init_dstate_def)
qed

lemma fse_roundtrip:
  assumes ok: "ctable_ok L counts n ct" and m: "matching L counts n dt" and enc: "encodable L counts n src"
    and r: "compress_using_ctable dst src ct = Ok (k, out)" and k: "k \<noteq> 0" and room: "length src \<le> length dst'"
  shows "\<exists>dec. decompress_interleaved2 dst' (take k out) dt = Ok (dec, length src) \<and> take (length src) dec = src
    \<and> length dec = length dst'"
proof -
  from compress_coded [OF ok m enc r [unfolded compress_using_ctable_def] k] obtain a b st bc where
    c: "coded dt (map unat src) a b st" "holds ((2 ^ L + a, L) # (2 ^ L + b, L) # st) bc" "cstream_close bc = Ok (k, out)" .
  from open_closed [OF c(2,3) k] obtain s where
    s: "dstream_new (take k out) = Ok s" "reads ((2 ^ L + a, L) # (2 ^ L + b, L) # st) s" "ready s" .
  have dt: "dtable_ok dt" "dt_table_log dt = L" using m by (simp_all add: matching_def)
  have L: "L < 32" "L \<noteq> 0" using ok by (auto simp: ctable_ok_def counts_valid_def)
  from coded_states [OF c(1)] have ab: "a < 2 ^ L" "b < 2 ^ L" using dt(2) by auto
  from init_dstate_pop [OF s(2,3) dt(2) L(1)] obtain s1 where
    i1: "init_dstate dt s = Ok ((2 ^ L + a) mod 2 ^ L, s1)" "reads ((2 ^ L + b, L) # st) s1" "ready s1" .
  from init_dstate_pop [OF i1(2,3) dt(2) L(1)] obtain s2 where
    i2: "init_dstate dt s1 = Ok ((2 ^ L + b) mod 2 ^ L, s2)" "reads st s2" "ready s2" .
  have mod: "(2 ^ L + a) mod 2 ^ L = a" "(2 ^ L + b) mod 2 ^ L = b" using ab by simp_all
  have "bits_consumed s2 \<le> 64" using i2(3) by (simp add: ready_def)
  from ready_reload [OF i2(2) this] obtain t s3 where r3: "reload s2 = Ok (t, s3)" "reads st s3" "ready s3" "t \<noteq> Overflow" .
  have d: "decoded dt (map unat src) a b dst' 0 s3" using c(1) r3(2) room by (auto simp: decoded_def)
  have "bits_consumed s3 \<le> 64" using r3(3) by (simp add: ready_def)
  from decode_quads_coded [OF dt(1) d this, of "dt_fast_mode dt" "length dst' - 3"] obtain a' b' dst1 op s4 where
    q: "decode_quads (dt_fast_mode dt) dt (length dst' - 3) a b dst' 0 s3 = Ok (a', b', dst1, op, s4)"
    "decoded dt (map unat src) a' b' dst1 op s4" "ready s4" "length dst1 = length dst'" by auto
  from decode_tail_coded [OF dt(1) q(2,3), of "dt_fast_mode dt"] obtain dec where
    t: "decode_tail (dt_fast_mode dt) dt a' b' dst1 op s4 = Ok (dec, length src)"
    "take (length src) dec = map word_of_nat (map unat src)" "length dec = length dst1" by auto
  have "decompress_interleaved2 dst' (take k out) dt = Ok (dec, length src)"
    unfolding decompress_interleaved2_def decompress_using_dtable_generic_def s(1) and_then.simps i1(1) prod.case i2(1)
      r3(1) mod q(1) t(1) using L(2) dt(2) r3(4) by simp
  moreover have "map word_of_nat (map unat src) = src" by (simp add: map_idI)
  ultimately show ?thesis using t q(4) by simp
qed

end
