(* ===== verification/FseTotal.thy ===== *)
theory FseTotal
  imports FseRoundtrip
begin

section \<open>FSE compression succeeds when there is room\<close>

text \<open>
  The compressor of \<open>src/src/entropy/fse.rs\<close> neither faults nor gives up when the output has nine
  bits for every symbol, the most a table of the largest size writes. What is carried
  through it is a budget: the bits that may still be written fit below the limit that the
  bit stream keeps for its eight-byte stores, and the container never fills up. With the
  round trip this gives the coder's contract in full.
\<close>

definition roomy :: "nat \<Rightarrow> nat \<Rightarrow> cstream \<Rightarrow> bool" where
  "roomy p N bc \<longleftrightarrow> cinv bc \<and> c_bit_pos bc \<le> p \<and> c_bits bc + N \<le> 8 * c_end_pos bc"

lemma roomy_add_bits:
  assumes "roomy p (N + 9) bc" and "nb \<le> 9" and "p + 9 < 64"
  obtains bc' where "add_bits bc v nb = Ok bc'" and "roomy (p + 9) N bc'"
proof -
  have "c_bit_pos bc \<le> p" "cinv bc" using assms(1) by (auto simp: roomy_def)
  then obtain bc' where bc': "add_bits bc v nb = Ok bc'" "c_bit_pos bc' = c_bit_pos bc + nb"
    using assms(2,3) by (auto simp: add_bits_def CONTAINER_BITS_def)
  from add_bits_spec [OF \<open>cinv bc\<close> bc'(1)] have "roomy (p + 9) N bc'"
    using assms(1,2) bc'(2) by (auto simp: roomy_def)
  with that bc'(1) show thesis .
qed

lemma roomy_flush:
  assumes "roomy p N bc"
  obtains bc' where "flush_either fast bc = Ok bc'" and "roomy 7 N bc'" and "c_bits bc' = c_bits bc"
    and "c_end_pos bc' = c_end_pos bc"
proof -
  have inv: "cinv bc" and "c_bits bc + N \<le> 8 * c_end_pos bc" using assms by (auto simp: roomy_def)
  then have fit: "c_byte_pos bc + c_bit_pos bc div 8 \<le> c_end_pos bc" by (simp add: c_bits_def)
  obtain bc' where bc': "flush_bits bc = Ok bc'" "cinv bc'" "c_end_pos bc' = c_end_pos bc" "c_bits bc' = c_bits bc"
    using flush_bits_spec [OF inv] fit by metis
  have "flush_bits_fast bc = flush_bits bc"
    using fit by (simp add: flush_bits_fast_def flush_bits_def Let_def min_absorb1)
  moreover have "c_bit_pos bc' \<le> 7"
    using bc'(1) flush_bits_eq [OF inv] by auto
  ultimately show thesis using that [of bc'] bc' assms by (simp add: flush_either_def roomy_def)
qed

lemma encode_symbol_room:
  assumes ok: "ctable_ok L counts n ct" and s: "s < n" "counts ! s \<noteq> 0" and u': "u' < 2 ^ L"
    and room: "roomy p (N + 9) bc" "p + 9 < 64"
  obtains bc' u where "encode_symbol bc (2 ^ L + u') ct s = Ok (bc', 2 ^ L + u)" and "u < 2 ^ L" and "roomy (p + 9) N bc'"
proof -
  let ?nb = "(2 ^ L + u' + delta_nb_bits (ct_symbol_tt ct ! s)) div 2 ^ 16"
  have L: "L \<le> 9" using ok by (simp add: ctable_ok_def counts_valid_def)
  from tans_step [OF ok s u'] obtain u where u: "u < 2 ^ L"
    "next_cstate ct (int ((2 ^ L + u') div 2 ^ ?nb) + delta_find_state (ct_symbol_tt ct ! s)) = Ok (2 ^ L + u)"
    "?nb \<le> L" by blast
  from u(3) L have "?nb \<le> 9" by simp
  from roomy_add_bits [OF room(1) this room(2)] obtain bc' where
    "add_bits bc (word_of_nat (2 ^ L + u')) ?nb = Ok bc'" "roomy (p + 9) N bc'" .
  with that u(1,2) show thesis
    by (simp only: encode_symbol_def ctable_symbol [OF ok s(1)] and_then.simps Let_def prod.case)
qed

definition roomy_at :: "nat \<Rightarrow> nat \<Rightarrow> nat \<Rightarrow> cstream \<times> cstate \<times> cstate \<Rightarrow> bool" where
  "roomy_at L p N t \<longleftrightarrow> (case t of (bc, s1, s2) \<Rightarrow>
     roomy p N bc \<and> (\<exists>a < 2 ^ L. s1 = 2 ^ L + a) \<and> (\<exists>b < 2 ^ L. s2 = 2 ^ L + b))"

lemma encodable_nth:
  assumes "encodable L counts n src" and "i < length src"
  shows "unat (src ! i) < n" and "counts ! unat (src ! i) \<noteq> 0" and "nat \<bar>counts ! unat (src ! i)\<bar> < 2 ^ L"
  using assms by (auto simp: encodable_def)

lemma encode_pair_room:
  assumes ok: "ctable_ok L counts n ct" and enc: "encodable L counts n src"
    and at: "roomy_at L p (N + 18) t" and p: "p + 18 < 64" and ip: "2 \<le> ip" "ip \<le> length src"
  obtains t' where "encode_pair False fast ct src ip t = Ok t'" and "roomy_at L (p + 18) N t'"
proof -
  from at obtain bc a b where t: "t = (bc, 2 ^ L + a, 2 ^ L + b)" "a < 2 ^ L" "b < 2 ^ L" "roomy p (N + 9 + 9) bc"
    by (auto simp: roomy_at_def add.assoc)
  have i: "0 < ip" "0 < ip - 1" "ip - 1 \<le> length src" "ip - 1 < length src" "ip - 1 - 1 < length src"
    using ip by auto
  have p1: "p + 9 < 64" "p + 9 + 9 < 64" using p by auto
  note sym1 = encodable_nth(1,2) [OF enc i(4)] and sym2 = encodable_nth(1,2) [OF enc i(5)]
  from encode_symbol_room [OF ok sym1 t(3,4) p1(1)] obtain bc1 b' where
    1: "encode_symbol bc (2 ^ L + b) ct (unat (src ! (ip - 1))) = Ok (bc1, 2 ^ L + b')" "b' < 2 ^ L"
    "roomy (p + 9) (N + 9) bc1" .
  from encode_symbol_room [OF ok sym2 t(2) 1(3) p1(2)] obtain bc2 a' where
    2: "encode_symbol bc1 (2 ^ L + a) ct (unat (src ! (ip - 1 - 1))) = Ok (bc2, 2 ^ L + a')" "a' < 2 ^ L"
    "roomy (p + 9 + 9) N bc2" .
  have "encode_pair False fast ct src ip t = Ok (bc2, 2 ^ L + a', 2 ^ L + b')"
    by (simp only: encode_pair_def t(1) prod.case src_before_Ok [OF i(1) ip(2)] src_before_Ok [OF i(2,3)]
        and_then.simps 1(1) 2(1) flush_when_def if_False)
  moreover have "roomy (p + 18) N bc2" using 2(3) by (simp add: add.assoc)
  ultimately show thesis using that 1(2) 2(2) by (auto simp: roomy_at_def)
qed

lemma flush_triple_room:
  assumes "roomy_at L p N t"
  obtains t' where "flush_triple fast t = Ok t'" and "roomy_at L 7 N t'"
proof -
  obtain bc s1 s2 where t: "t = (bc, s1, s2)" by (cases t)
  then have "roomy p N bc" using assms by (simp add: roomy_at_def)
  from roomy_flush [OF this] obtain bc' where "flush_either fast bc = Ok bc'" "roomy 7 N bc'" .
  with that [of "(bc', s1, s2)"] assms show thesis by (simp add: flush_triple_def roomy_at_def t)
qed

lemma wide [simp]: "wide_container"
  by (simp add: wide_container_def TABLELOG_MAX_def CONTAINER_BITS_def)

lemma encode_blocks_room:
  assumes ok: "ctable_ok L counts n ct" and enc: "encodable L counts n src"
  shows "roomy_at L 7 (N + 9 * ip) t \<Longrightarrow> ip \<le> length src \<Longrightarrow> ip mod 4 = 0 \<Longrightarrow>
    \<exists>t'. encode_blocks fast ct src ip t = Ok t' \<and> roomy_at L 7 N t'"
proof (induction ip arbitrary: t rule: less_induct)
  case (less ip)
  show ?case
  proof (cases "ip = 0")
    case True
    then show ?thesis using less.prems by (simp add: encode_blocks.simps)
  next
    case False
    then have ip: "4 \<le> ip" using less.prems(3) by presburger
    define M where "M = N + 9 * (ip - 4)"
    have M: "N + 9 * ip = M + 18 + 18" using ip by (simp add: M_def)
    have i: "2 \<le> ip" "2 \<le> ip - 2" "ip - 2 \<le> length src" "ip - 4 < ip" "ip - 4 \<le> length src"
      using ip less.prems(2) by auto
    have i4: "(ip - 4) mod 4 = 0" using ip less.prems(3) by presburger
    obtain t1 where t1: "encode_pair False fast ct src ip t = Ok t1" "roomy_at L (7 + 18) (M + 18) t1"
      by (rule encode_pair_room [OF ok enc less.prems(1) [unfolded M] _ i(1) less.prems(2)]) simp_all
    obtain t2 where t2: "encode_pair False fast ct src (ip - 2) t1 = Ok t2" "roomy_at L (7 + 18 + 18) M t2"
      by (rule encode_pair_room [OF ok enc t1(2) _ i(2,3)]) simp_all
    from flush_triple_room [OF t2(2)] obtain t3 where t3: "flush_triple fast t2 = Ok t3" "roomy_at L 7 M t3" .
    have narrow: "(CONTAINER_BITS < TABLELOG_MAX * 2 + 7) = False" by (simp add: CONTAINER_BITS_def TABLELOG_MAX_def)
    have "encode_blocks fast ct src ip t = encode_blocks fast ct src (ip - 4) t3"
      by (subst encode_blocks.simps) (simp only: if_not_P [OF False] narrow t1(1) wide if_True t2(1) t3(1) and_then.simps)
    then show ?thesis using less.IH [OF i(4) t3(2) [unfolded M_def] i(5) i4] by simp
  qed
qed

lemma encode_start_room:
  assumes ok: "ctable_ok L counts n ct" and enc: "encodable L counts n src" and len: "2 < length src"
    and room: "roomy 0 (N + 9 * length src) bc"
  obtains t ip where "encode_start fast ct src bc = Ok (t, ip)" and "roomy_at L 7 (N + 9 * ip) t"
    and "ip = (if even (length src) then length src - 2 else length src - 3)"
proof -
  let ?n = "length src"
  have i: "?n - 1 < ?n" "?n - 1 - 1 < ?n" "?n - 2 - 1 < ?n" "0 < ?n" "0 < ?n - 1" "0 < ?n - 2" "?n - 1 \<le> ?n" "?n - 2 \<le> ?n"
    using len by auto
  obtain u where u: "u < 2 ^ L" "init_cstate2 ct (unat (src ! (?n - 1))) = Ok (2 ^ L + u)"
    using init_cstate2_spec [OF ok encodable_nth(1,2) [OF enc i(1)]] by metis
  obtain v where v: "v < 2 ^ L" "init_cstate2 ct (unat (src ! (?n - 1 - 1))) = Ok (2 ^ L + v)"
    using init_cstate2_spec [OF ok encodable_nth(1,2) [OF enc i(2)]] by metis
  note before = src_before_Ok [OF i(4) order_refl] src_before_Ok [OF i(5,7)] src_before_Ok [OF i(6,8)]
  show thesis
  proof (cases "even ?n")
    case True
    then have "encode_start fast ct src bc = Ok ((bc, 2 ^ L + v, 2 ^ L + u), ?n - 2)"
      by (simp only: encode_start_def Let_def before and_then.simps u(2) v(2) even_iff_mod_2_eq_zero simp_thms if_False)
    moreover have "roomy_at L 7 (N + 9 * (?n - 2)) (bc, 2 ^ L + v, 2 ^ L + u)"
      using room u(1) v(1) len by (auto simp: roomy_at_def roomy_def)
    ultimately show thesis using that True by simp
  next
    case False
    have "9 * ?n = 9 * (?n - 3) + 18 + 9" using len by simp
    then have r: "roomy 0 (N + 9 * (?n - 3) + 18 + 9) bc" using room by (simp only: add.assoc)
    obtain bc' w where w: "encode_symbol bc (2 ^ L + u) ct (unat (src ! (?n - 2 - 1))) = Ok (bc', 2 ^ L + w)" "w < 2 ^ L"
      "roomy (0 + 9) (N + 9 * (?n - 3) + 18) bc'"
      by (rule encode_symbol_room [OF ok encodable_nth(1,2) [OF enc i(3)] u(1) r]) simp_all
    from roomy_flush [OF w(3)] obtain bc2 where f: "flush_either fast bc' = Ok bc2" "roomy 7 (N + 9 * (?n - 3) + 18) bc2" .
    have "?n mod 2 \<noteq> 0" using False by presburger
    then have "encode_start fast ct src bc = Ok ((bc2, 2 ^ L + w, 2 ^ L + v), ?n - 3)"
      by (simp only: encode_start_def Let_def before and_then.simps u(2) v(2) w(1) f(1) prod.case if_True not_False_eq_True)
    moreover have "roomy_at L 7 (N + 9 * (?n - 3)) (bc2, 2 ^ L + w, 2 ^ L + v)"
      using f(2) w(2) v(1) by (auto simp: roomy_at_def roomy_def)
    ultimately show thesis using that False by simp
  qed
qed

lemma flush_cstate_room:
  assumes "ctable_ok L counts n ct" and "roomy 7 (N + 9) bc"
  obtains bc' where "flush_cstate bc c ct = Ok bc'" and "roomy 7 N bc'"
proof -
  have "ct_table_log ct \<le> 9" using assms(1) by (simp add: ctable_ok_def counts_valid_def)
  from roomy_add_bits [OF assms(2) this, of "word_of_nat c"] obtain bc1 where
    1: "add_bits bc (word_of_nat c) (ct_table_log ct) = Ok bc1" "roomy (7 + 9) N bc1" by auto
  from roomy_flush [OF 1(2), of False] obtain bc2 where "flush_bits bc1 = Ok bc2" "roomy 7 N bc2"
    by (auto simp: flush_either_def)
  with that 1(1) show thesis by (simp add: flush_cstate_def)
qed

lemma close_room:
  assumes "roomy 7 9 bc"
  obtains k out where "cstream_close bc = Ok (k, out)" and "k \<noteq> 0"
proof -
  have inv: "cinv bc" and bits: "c_bits bc + 9 \<le> 8 * c_end_pos bc" "c_bit_pos bc \<le> 7" using assms by (auto simp: roomy_def)
  have "drop_bit 1 (1 :: u64) = 0" by simp
  then obtain bc1 where 1: "add_bits_fast bc 1 1 = Ok bc1" "c_bit_pos bc1 = c_bit_pos bc + 1"
    using bits(2) by (simp add: add_bits_fast_def CONTAINER_BITS_def)
  note spec = add_bits_fast_spec [OF inv 1(1)]
  have "roomy 8 8 bc1" using spec bits 1(2) by (auto simp: roomy_def)
  from roomy_flush [OF this, of False] obtain bc2 where
    2: "flush_bits bc1 = Ok bc2" "roomy 7 8 bc2" "c_bits bc2 = c_bits bc1" by (auto simp: flush_either_def)
  have "c_byte_pos bc2 < c_end_pos bc2" "0 < c_bits bc2"
    using 2(2,3) spec(3) by (auto simp: roomy_def c_bits_def)
  then have "cstream_close bc = Ok (c_byte_pos bc2 + of_bool (0 < c_bit_pos bc2), c_dst bc2)"
    "c_byte_pos bc2 + of_bool (0 < c_bit_pos bc2) \<noteq> 0"
    using 1(1) 2(1) by (auto simp: cstream_close_def c_bits_def)
  with that show thesis .
qed

lemma compress_room:
  assumes ok: "ctable_ok L counts n ct" and enc: "encodable L counts n src" and len: "2 < length src"
    and dst: "9 * length src + 91 \<le> 8 * length dst"
  obtains k out where "compress_using_ctable dst src ct = Ok (k, out)" and "k \<noteq> 0"
proof -
  define fast where "fast = (block_bound (length src) \<le> length dst)"
  have "\<not> length dst \<le> CONTAINER_BYTES" using dst by (simp add: CONTAINER_BYTES_def)
  then obtain bc where bc: "cstream_new dst = Ok bc" "c_bit_pos bc = 0" "c_end_pos bc = length dst - 8"
    by (simp add: cstream_new_def CONTAINER_BYTES_def)
  have r0: "roomy 0 (27 + 9 * length src) bc" using cstream_new_inv [OF bc(1)] bc dst by (simp add: roomy_def)
  from encode_start_room [OF ok enc len r0] obtain t ip where
    start: "encode_start fast ct src bc = Ok (t, ip)" "roomy_at L 7 (27 + 9 * ip) t"
    and ip: "ip = (if even (length src) then length src - 2 else length src - 3)" .
  have two: "(length src - 2) AND 2 \<noteq> 0 \<longleftrightarrow> odd ((length src - 2) div 2)"
    using bit_iff_and_push_bit_not_eq_0 [of "length src - 2" 1] by (simp add: bit_iff_odd)
  have ip': "ip \<le> length src" "(length src - 2) AND 2 \<noteq> 0 \<longleftrightarrow> ip mod 4 = 2" "ip mod 4 = 0 \<or> ip mod 4 = 2"
    using start_parity [OF len ip] two by auto
  define join where "join = (if wide_container \<and> (length src - 2) AND 2 \<noteq> 0
      then and_then (encode_pair False fast ct src ip t) (\<lambda>st. and_then (flush_triple fast st) (\<lambda>st. Ok (st, ip - 2)))
      else Ok (t, ip))"
  have "\<exists>t1 ip1. join = Ok (t1, ip1) \<and> roomy_at L 7 (27 + 9 * ip1) t1 \<and> ip1 \<le> length src \<and> ip1 mod 4 = 0"
  proof (cases "ip mod 4 = 2")
    case True
    then have two_le: "2 \<le> ip" by presburger
    then have "27 + 9 * ip = 27 + 9 * (ip - 2) + 18" by simp
    note room = start(2) [unfolded this]
    obtain t' where t': "encode_pair False fast ct src ip t = Ok t'" "roomy_at L (7 + 18) (27 + 9 * (ip - 2)) t'"
      by (rule encode_pair_room [OF ok enc room _ two_le ip'(1)]) simp_all
    from flush_triple_room [OF t'(2)] obtain t1 where "flush_triple fast t' = Ok t1" "roomy_at L 7 (27 + 9 * (ip - 2)) t1" .
    moreover have "(ip - 2) mod 4 = 0" using True by presburger
    ultimately show ?thesis using True t'(1) ip'(1,2) by (simp add: join_def)
  next
    case False
    then show ?thesis using start(2) ip' by (simp add: join_def)
  qed
  then obtain t1 ip1 where j: "join = Ok (t1, ip1)" "roomy_at L 7 (27 + 9 * ip1) t1" "ip1 \<le> length src" "ip1 mod 4 = 0" by (elim exE conjE)
  obtain t2 where t2: "encode_blocks fast ct src ip1 t1 = Ok t2" "roomy_at L 7 27 t2"
    using encode_blocks_room [OF ok enc j(2,3,4)] by blast
  obtain bc1 s1 s2 where b: "encode_blocks fast ct src ip1 t1 = Ok (bc1, s1, s2)" "roomy_at L 7 27 (bc1, s1, s2)"
    using t2 by (cases t2) auto
  have "27 = 9 + 9 + (9 :: nat)" by simp
  then have blocks: "encode_blocks fast ct src ip1 t1 = Ok (bc1, s1, s2)" "roomy 7 (9 + 9 + 9) bc1"
    using b by (simp_all add: roomy_at_def)
  from flush_cstate_room [OF ok blocks(2)] obtain bc2 where f2: "flush_cstate bc1 s2 ct = Ok bc2" "roomy 7 (9 + 9) bc2" .
  from flush_cstate_room [OF ok f2(2)] obtain bc3 where f1: "flush_cstate bc2 s1 ct = Ok bc3" "roomy 7 9 bc3" .
  from close_room [OF f1(2)] obtain k out where c: "cstream_close bc3 = Ok (k, out)" "k \<noteq> 0" .
  have len': "\<not> length src \<le> 2" using len by simp
  have "compress_using_ctable dst src ct = Ok (k, out)"
    by (simp only: compress_using_ctable_def fast_def [symmetric] compress_using_ctable_generic_def if_not_P [OF len'] bc(1)
        result.case start(1) prod.case and_then.simps join_def [symmetric] j(1) blocks(1) f2(1) f1(1) c(1))
  with c(2) that show thesis by blast
qed

subsection \<open>The contract of the coder\<close>

lemma matching_built:
  assumes v: "counts_valid L counts (Suc msi)" and dt: "length (dt_entries dt) = TABLESIZE_MAX"
  obtains dt' where "build_dtable dt counts msi L = Ok dt'" and "matching L counts (Suc msi) dt'"
proof -
  from build_dtable_spec [OF assms] obtain dt' where
    b: "build_dtable dt counts msi L = Ok dt'" "dtable_ok dt'" "dt_table_log dt' = L"
    "\<And>u. u < 2 ^ L \<Longrightarrow> dt_entries dt' ! u = entry_spec mk_decode_entry L counts (Suc msi) u" by blast
  have "matching L counts (Suc msi) dt'" using b by (auto simp: matching_def entry_of_def)
  with that b(1) show thesis .
qed

lemma unchecked_symbol:
  assumes ok: "ctable_ok L counts n ct" and s: "s < n" "counts ! s \<noteq> 0" and u': "u' < 2 ^ L"
  shows "encode_symbol_unchecked bc (2 ^ L + u') ct s = encode_symbol bc (2 ^ L + u') ct s"
proof -
  from tans_step [OF ok s u'] obtain u where
    "next_cstate ct (int ((2 ^ L + u') div 2 ^ ((2 ^ L + u' + delta_nb_bits (ct_symbol_tt ct ! s)) div 2 ^ 16))
       + delta_find_state (ct_symbol_tt ct ! s)) = Ok (2 ^ L + u)" by blast
  then show ?thesis
    unfolding encode_symbol_unchecked_def encode_symbol_def ctable_symbol [OF ok s(1)] and_then.simps Let_def
    by (simp add: next_cstate_def idx_def slice_get_def split: if_splits)
qed

text \<open>C24. With a table built from valid counts, the encoding step without bounds checks does what the checked
  one does, for every symbol that has a state and every state of the table: its contract is met.\<close>

theorem unchecked_encoder_agrees:
  assumes "counts_valid L counts (Suc msi)" and "s \<le> msi" and "counts ! s \<noteq> 0" and "2 ^ L \<le> state" and "state < 2 ^ (L + 1)"
  shows "\<exists>ct. build_ctable ctable_default counts msi L = Ok ct
    \<and> (\<forall>bc. encode_symbol_unchecked bc state ct s = encode_symbol bc state ct s)"
proof -
  obtain ct where ct: "build_ctable ctable_default counts msi L = Ok ct" "ctable_ok L counts (Suc msi) ct"
    by (rule build_ctable_spec [OF assms(1), of ctable_default]) (simp_all add: ctable_default_def SYMBOLVALUE_MAX_def)
  have "s < Suc msi" "state - 2 ^ L < 2 ^ L" "2 ^ L + (state - 2 ^ L) = state" using assms by auto
  from unchecked_symbol [OF ct(2) this(1) assms(3) this(2)] this(3) ct(1) show ?thesis by auto
qed

theorem unchecked_encoder_agrees_witness:
  "\<exists>ct. build_ctable ctable_default sample_counts 3 4 = Ok ct
    \<and> (\<forall>bc. encode_symbol_unchecked bc 21 ct 2 = encode_symbol bc 21 ct 2)"
  using unchecked_encoder_agrees [of 4 sample_counts 3 2 21] sample_counts_valid by (simp add: sample_counts_def)

text \<open>C21. From valid counts both tables build, and an input of at least three bytes whose values all have a
  state (and none all of them) compresses, when there are nine bits of room for each, to a nonempty
  stream from which the decompressor, given any buffer that is large enough, gives the input back.\<close>

theorem fse_compress_roundtrip:
  assumes "counts_valid L counts (Suc msi)" and "encodable L counts (Suc msi) src" and "2 < length src"
    and "9 * length src + 91 \<le> 8 * length dst" and "length src \<le> length dst'"
  shows "\<exists>ct dt k out dec. build_ctable ctable_default counts msi L = Ok ct \<and> build_dtable dtable_default counts msi L = Ok dt
    \<and> compress_using_ctable dst src ct = Ok (k, out) \<and> k \<noteq> 0
    \<and> decompress_interleaved2 dst' (take k out) dt = Ok (dec, length src) \<and> take (length src) dec = src"
proof -
  obtain ct where ct: "build_ctable ctable_default counts msi L = Ok ct" "ctable_ok L counts (Suc msi) ct"
    by (rule build_ctable_spec [OF assms(1), of ctable_default]) (simp_all add: ctable_default_def SYMBOLVALUE_MAX_def)
  obtain dt where dt: "build_dtable dtable_default counts msi L = Ok dt" "matching L counts (Suc msi) dt"
    by (rule matching_built [OF assms(1), of dtable_default]) (simp_all add: dtable_default_def)
  from compress_room [OF ct(2) assms(2-4)] obtain k out where
    k: "compress_using_ctable dst src ct = Ok (k, out)" "k \<noteq> 0" .
  from fse_roundtrip [OF ct(2) dt(2) assms(2) k assms(5)] ct(1) dt(1) k show ?thesis by blast
qed

theorem fse_compress_roundtrip_witness:
  "\<exists>ct dt k out dec. build_ctable ctable_default sample_counts 3 4 = Ok ct \<and> build_dtable dtable_default sample_counts 3 4 = Ok dt
    \<and> compress_using_ctable (replicate 32 0) [0, 1, 0, 3, 2, 1] ct = Ok (k, out) \<and> k \<noteq> 0
    \<and> decompress_interleaved2 (replicate 6 0) (take k out) dt = Ok (dec, 6) \<and> take 6 dec = [0, 1, 0, 3, 2, 1]"
proof -
  have "encodable 4 sample_counts (Suc 3) [0, 1, 0, 3, 2, 1]" by (simp add: encodable_def sample_counts_def)
  from fse_compress_roundtrip [OF _ this, of "replicate 32 0" "replicate 6 0"] sample_counts_valid
  show ?thesis by (simp add: numeral_eq_Suc)
qed

end
