(* ===== verification/Hist.thy ===== *)
theory Hist
  imports Mem
begin

section \<open>Byte histograms (entropy/hist.rs)\<close>

text \<open>
  The byte counters of \<open>src/src/entropy/hist.rs\<close>: the simple loop, and the one that counts into four
  tables in parallel, four bytes to a load with the next word read ahead, and then merges them.
  A count is a \<open>u32\<close> whose increment may not overflow; the workspace is the one array of 1024
  counters that the source splits by pointer arithmetic, so that an access out of its range
  would be a \<open>Fault\<close>. The workspace is scratch and is not returned.
\<close>

datatype check_input = TrustInput | CheckMaxSymbolValue

definition HIST_WKSP_SIZE_U32 :: nat where
  "HIST_WKSP_SIZE_U32 = 1024"

definition add_u32 :: "nat \<Rightarrow> nat \<Rightarrow> nat result" where
  "add_u32 a b = (if a + b < 2 ^ 32 then Ok (a + b) else Fault)"

definition bump :: "nat \<Rightarrow> nat list \<Rightarrow> nat list result" where
  "bump i counts = and_then (idx counts i) (\<lambda>c. and_then (add_u32 c 1) (upd counts i))"

text \<open>The greatest index at most \<open>m\<close> with a count that is not zero; \<open>stop\<close> says what happens at zero.\<close>

fun last_counted :: "nat result \<Rightarrow> nat list \<Rightarrow> nat \<Rightarrow> nat result" where
  "last_counted stop counts 0 = and_then (idx counts 0) (\<lambda>c. if c = 0 then stop else Ok 0)"
| "last_counted stop counts (Suc m) =
     and_then (idx counts (Suc m)) (\<lambda>c. if c = 0 then last_counted stop counts m else Ok (Suc m))"

definition count_simple :: "nat list \<Rightarrow> nat \<Rightarrow> bytes \<Rightarrow> (nat list \<times> nat \<times> nat) result" where
  "count_simple counts max_symbol_value src =
     (if length counts \<le> max_symbol_value then Fault else
      let counts = replicate (max_symbol_value + 1) 0 @ drop (max_symbol_value + 1) counts in
      if src = [] then Ok (counts, 0, 0) else
      and_then (loop_over (\<lambda>b counts. if max_symbol_value < unat b then Fault else bump (unat b) counts) src counts) (\<lambda>counts.
      and_then (last_counted (Ok 0) counts max_symbol_value) (\<lambda>m.
      and_then (idx_range counts 0 (m + 1)) (\<lambda>cs.
        Ok (counts, m, foldl max 0 cs)))))"

definition inc4 :: "u32 \<Rightarrow> nat list \<Rightarrow> nat list result" where
  "inc4 v ws =
     and_then (bump (unat (v AND 255)) ws) (\<lambda>ws.
     and_then (bump (256 + unat (drop_bit 8 v AND 255)) ws) (\<lambda>ws.
     and_then (bump (512 + unat (drop_bit 16 v AND 255)) ws) (\<lambda>ws.
       bump (768 + unat (drop_bit 24 v)) ws)))"

text \<open>Load the next word, then count the one loaded before.\<close>

definition count_word :: "bytes \<Rightarrow> usize \<Rightarrow> u32 \<times> nat list \<Rightarrow> (u32 \<times> nat list) result" where
  "count_word source offset st =
     (case st of (cached, ws) \<Rightarrow>
      and_then (read_u32 source offset) (\<lambda>v. and_then (inc4 cached ws) (\<lambda>ws. Ok (v, ws))))"

function count_blocks :: "bytes \<Rightarrow> usize \<Rightarrow> u32 \<times> nat list \<Rightarrow> (usize \<times> nat list) result" where
  "count_blocks source offset st =
     (if offset + 15 < length source then
        and_then (count_word source offset st) (\<lambda>st.
        and_then (count_word source (offset + 4) st) (\<lambda>st.
        and_then (count_word source (offset + 8) st) (\<lambda>st.
        and_then (count_word source (offset + 12) st) (\<lambda>st.
          count_blocks source (offset + 16) st))))
      else Ok (offset - 4, snd st))"
  by pat_completeness auto
termination
  by (relation "measure (\<lambda>(source, offset, st). length source - offset)") auto

declare count_blocks.simps [simp del]

text \<open>One cell of the merge: the first table takes the sum, and the largest is kept.\<close>

definition merge_cell :: "nat \<Rightarrow> nat list \<times> nat \<Rightarrow> (nat list \<times> nat) result" where
  "merge_cell i st =
     (case st of (ws, largest) \<Rightarrow>
      and_then (idx ws i) (\<lambda>a. and_then (idx ws (256 + i)) (\<lambda>b.
      and_then (idx ws (512 + i)) (\<lambda>c. and_then (idx ws (768 + i)) (\<lambda>d.
      and_then (add_u32 b c) (\<lambda>s. and_then (add_u32 s d) (\<lambda>s. and_then (add_u32 a s) (\<lambda>s.
      and_then (upd ws i s) (\<lambda>ws. Ok (ws, max largest s))))))))))"

definition count_parallel_wksp ::
    "nat list \<Rightarrow> nat \<Rightarrow> bytes \<Rightarrow> check_input \<Rightarrow> nat list \<Rightarrow> (nat list \<times> nat \<times> nat) result" where
  "count_parallel_wksp counts max_symbol_value source check workspace =
     (if \<not> max_symbol_value \<le> 255 then Fault else
      if source = [] then Ok (map (\<lambda>_. 0) counts, 0, 0) else
      let ws = map (\<lambda>_. 0) workspace; len = length source in
      and_then (if 4 \<le> len then and_then (read_u32 source 0) (\<lambda>cached. count_blocks source 4 (cached, ws)) else Ok (0, ws)) (\<lambda>(offset, ws).
      and_then (idx_from source offset) (\<lambda>rest.
      and_then (loop_over (\<lambda>b. bump (unat b)) rest ws) (\<lambda>ws.
      and_then (loop_over merge_cell [0..<256] (ws, 0)) (\<lambda>(ws, max_count).
      and_then (last_counted Fault ws 255) (\<lambda>m.
      if check = CheckMaxSymbolValue \<and> max_symbol_value < m then Err MaxSymbolValueTooSmall else
      and_then (idx_range ws 0 (m + 1)) (\<lambda>cs.
      and_then (copy_into counts 0 cs) (\<lambda>counts. Ok (counts, m, max_count)))))))))"

definition count_fast_wksp :: "nat list \<Rightarrow> nat \<Rightarrow> bytes \<Rightarrow> nat list \<Rightarrow> (nat list \<times> nat \<times> nat) result" where
  "count_fast_wksp counts max_symbol_value source workspace =
     (if length source < 1500 then count_simple counts max_symbol_value source
      else count_parallel_wksp counts max_symbol_value source TrustInput workspace)"

definition count_wksp :: "nat list \<Rightarrow> nat \<Rightarrow> bytes \<Rightarrow> nat list \<Rightarrow> (nat list \<times> nat \<times> nat) result" where
  "count_wksp counts max_symbol_value source workspace =
     (if max_symbol_value < 255 then count_parallel_wksp counts max_symbol_value source CheckMaxSymbolValue workspace
      else count_fast_wksp counts 255 source workspace)"

subsection \<open>Counting\<close>

text \<open>The histogram and its largest symbol; \<open>histogram_of\<close> is what every counter must return.\<close>

definition byte_count :: "bytes \<Rightarrow> nat \<Rightarrow> nat" where
  "byte_count src i = count_list (map unat src) i"

definition largest_byte :: "bytes \<Rightarrow> nat" where
  "largest_byte src = (if src = [] then 0 else Max (unat ` set src))"

definition histogram_of :: "bytes \<Rightarrow> nat list \<times> nat \<times> nat \<Rightarrow> bool" where
  "histogram_of src r \<longleftrightarrow> (case r of (counts, m, largest) \<Rightarrow>
     length counts = 256 \<and> m = largest_byte src \<and> (\<forall>i \<le> m. counts ! i = byte_count src i)
     \<and> largest = Max (byte_count src ` {..255}))"

lemma byte_count_le: "byte_count src i \<le> length src"
  using count_le_length [of "map unat src" i] by (simp add: byte_count_def)

lemma byte_count_Nil [simp]: "byte_count [] i = 0"
  by (simp add: byte_count_def)

lemma byte_count_snoc [simp]: "byte_count (src @ [b]) i = byte_count src i + of_bool (i = unat b)"
  by (simp add: byte_count_def)

lemma byte_count_0: "byte_count src i = 0 \<longleftrightarrow> i \<notin> unat ` set src"
  by (simp add: byte_count_def count_list_0_iff)

lemma byte_less: "unat (b :: u8) < 256"
  by (rule unat_u8_less)

lemma largest_byte_max: "src \<noteq> [] \<Longrightarrow> largest_byte src \<in> unat ` set src"
  using Max_in [of "unat ` set src"] by (simp add: largest_byte_def)

lemma largest_byte_ge: "b \<in> set src \<Longrightarrow> unat b \<le> largest_byte src"
  by (auto simp: largest_byte_def)

lemma largest_byte_less: "largest_byte src < 256"
proof (cases "src = []")
  case False
  then obtain b :: u8 where "largest_byte src = unat b" using largest_byte_max by blast
  then show ?thesis using byte_less by simp
qed (simp add: largest_byte_def)

lemma last_counted_largest:
  assumes "src \<noteq> []" and "\<forall>i \<le> m. counts ! i = byte_count src i" and "m < length counts"
    and "largest_byte src \<le> m"
  shows "last_counted stop counts m = Ok (largest_byte src)"
  using assms(2-4)
proof (induction m)
  case 0
  then show ?case using largest_byte_max [OF assms(1)] by (auto simp: idx_def byte_count_0)
next
  case (Suc m)
  show ?case
  proof (cases "largest_byte src = Suc m")
    case True
    then have "counts ! Suc m \<noteq> 0" using Suc.prems(1) largest_byte_max [OF assms(1)] by (simp add: byte_count_0)
    then show ?thesis using True Suc.prems(2) by (simp add: idx_def)
  next
    case False
    then have "Suc m \<notin> unat ` set src" using Suc.prems(3) largest_byte_ge by fastforce
    then have "counts ! Suc m = 0" using Suc.prems(1) by (simp add: byte_count_0)
    then show ?thesis using Suc False by (simp add: idx_def)
  qed
qed

lemma Max_counts:
  assumes "largest_byte src \<le> m" and "m < 256"
  shows "Max (byte_count src ` {..m}) = Max (byte_count src ` {..255})"
proof (rule antisym)
  show "Max (byte_count src ` {..m}) \<le> Max (byte_count src ` {..255})"
    using assms(2) by (intro Max_mono image_mono) auto
  have "byte_count src i \<le> Max (byte_count src ` {..m})" for i
  proof (cases "i \<le> m")
    case False
    then have "byte_count src i = 0" using assms(1) largest_byte_ge [of _ src] by (fastforce simp: byte_count_0)
    then show ?thesis by simp
  qed simp
  then show "Max (byte_count src ` {..255}) \<le> Max (byte_count src ` {..m})" by (auto intro!: Max.boundedI)
qed

lemma foldl_max: "foldl max a xs = Max (set (a # xs))" for a :: nat
proof (induction xs arbitrary: a)
  case (Cons x xs)
  show ?case using Cons [of "max a x"] by (cases "xs = []") (auto simp: Max.insert_remove max.assoc)
qed simp

lemma largest_count:
  assumes "\<forall>i \<le> m. counts ! i = byte_count src i" and "m < length counts" and "largest_byte src \<le> m" and "m < 256"
  shows "foldl max 0 (take (m + 1) counts) = Max (byte_count src ` {..255})"
proof -
  have "take (m + 1) counts = map (byte_count src) [0..<m + 1]"
    using assms(1,2) by (intro nth_equalityI) (auto simp del: upt_Suc)
  then have "set (take (m + 1) counts) = byte_count src ` {..m}" by (simp only: set_map set_upt) auto
  then have "foldl max 0 (take (m + 1) counts) = Max (insert 0 (byte_count src ` {..m}))" by (simp add: foldl_max)
  also have "\<dots> = Max (byte_count src ` {..m})" by (subst Max_insert) auto
  finally show ?thesis using Max_counts [OF assms(3,4)] by simp
qed

subsection \<open>The simple loop\<close>

lemma add_u32_Ok: "a + b < 2 ^ 32 \<Longrightarrow> add_u32 a b = Ok (a + b)"
  by (simp add: add_u32_def)

lemma bump_Ok: "i < length counts \<Longrightarrow> counts ! i + 1 < 2 ^ 32 \<Longrightarrow> bump i counts = Ok (counts[i := counts ! i + 1])"
  by (simp add: bump_def idx_def upd_def add_u32_Ok)

lemma count_simple_histogram:
  assumes "length counts = 256" and "msv < 256" and "\<forall>b \<in> set src. unat b \<le> msv" and "length src < 2 ^ 32"
  shows "\<exists>r. count_simple counts msv src = Ok r \<and> histogram_of src r"
proof -
  let ?c0 = "replicate (msv + 1) 0 @ drop (msv + 1) counts"
  have c0: "length ?c0 = 256" "\<forall>i \<le> msv. ?c0 ! i = 0" using assms(1,2) by (auto simp: nth_append simp del: replicate_Suc)
  have nf: "\<not> length counts \<le> msv" using assms(1,2) by simp
  show ?thesis
  proof (cases "src = []")
    case True
    then have "count_simple counts msv src = Ok (?c0, 0, 0)" using nf by (simp add: count_simple_def Let_def)
    moreover have "histogram_of src (?c0, 0, 0)" using True c0 by (auto simp: histogram_of_def largest_byte_def)
    ultimately show ?thesis by blast
  next
    case False
    let ?I = "\<lambda>ds cs. length cs = 256 \<and> (\<forall>i \<le> msv. cs ! i = byte_count ds i)"
    have "\<exists>cs. loop_over (\<lambda>b counts. if msv < unat b then Fault else bump (unat b) counts) src ?c0 = Ok cs \<and> ?I src cs"
    proof (rule loop_over_Ok [where I = ?I])
      fix ds b rs cs
      assume e: "src = ds @ b # rs" and I: "?I ds cs"
      then have b: "unat b \<le> msv" using assms(3) by simp
      then have "cs ! unat b + 1 < 2 ^ 32" using I e byte_count_le [of ds "unat b"] assms(4) by simp
      then have "bump (unat b) cs = Ok (cs[unat b := cs ! unat b + 1])" using I byte_less by (intro bump_Ok) simp_all
      then show "\<exists>cs'. (if msv < unat b then Fault else bump (unat b) cs) = Ok cs' \<and> ?I (ds @ [b]) cs'"
        using b I byte_less by (auto simp: nth_list_update)
    qed (use c0 in simp)
    then obtain cs where cs: "loop_over (\<lambda>b counts. if msv < unat b then Fault else bump (unat b) counts) src ?c0 = Ok cs"
      "length cs = 256" "\<forall>i \<le> msv. cs ! i = byte_count src i" by blast
    let ?m = "largest_byte src"
    have m: "?m \<le> msv" using largest_byte_max [OF False] assms(3) by auto
    have "last_counted (Ok 0) cs msv = Ok ?m" using last_counted_largest [OF False cs(3) _ m] cs(2) assms(2) by simp
    moreover have "foldl max 0 (take (?m + 1) cs) = Max (byte_count src ` {..255})"
      using cs(2,3) m largest_byte_less by (intro largest_count) auto
    ultimately have "count_simple counts msv src = Ok (cs, ?m, Max (byte_count src ` {..255}))"
      using nf False cs(1,2) largest_byte_less [of src] by (simp add: count_simple_def Let_def idx_range_def)
    moreover have "histogram_of src (cs, ?m, Max (byte_count src ` {..255}))" using cs m by (auto simp: histogram_of_def)
    ultimately show ?thesis by blast
  qed
qed

subsection \<open>The parallel loop\<close>

text \<open>The four counters of a byte add up to its number of occurrences so far.\<close>

definition cells :: "nat list \<Rightarrow> nat \<Rightarrow> nat" where
  "cells ws i = ws ! i + ws ! (256 + i) + ws ! (512 + i) + ws ! (768 + i)"

definition tally :: "bytes \<Rightarrow> nat list \<Rightarrow> bool" where
  "tally ds ws \<longleftrightarrow> length ws = HIST_WKSP_SIZE_U32 \<and> (\<forall>i < 256. cells ws i = byte_count ds i)"

lemma bump_tally:
  assumes "tally ds ws" and "length ds < 2 ^ 32 - 1" and "k \<in> {0, 256, 512, 768}"
  obtains ws' where "bump (k + unat b) ws = Ok ws'" and "tally (ds @ [b]) ws'"
proof -
  have len: "length ws = 1024" using assms(1) by (simp add: tally_def HIST_WKSP_SIZE_U32_def)
  have b: "unat b < 256" by (rule byte_less)
  have "ws ! (k + unat b) \<le> cells ws (unat b)" using assms(3) by (auto simp: cells_def)
  also have "\<dots> \<le> length ds" using assms(1) b byte_count_le by (simp add: tally_def)
  finally have "bump (k + unat b) ws = Ok (ws[k + unat b := ws ! (k + unat b) + 1])"
    using assms(2,3) b len by (intro bump_Ok) auto
  moreover have "tally (ds @ [b]) (ws[k + unat b := ws ! (k + unat b) + 1])"
    unfolding tally_def
  proof (intro conjI allI impI)
    fix i :: nat
    assume i: "i < 256"
    have "cells (ws[k + unat b := ws ! (k + unat b) + 1]) i = cells ws i + of_bool (i = unat b)"
      using assms(3) b i len by (auto simp: cells_def nth_list_update)
    then show "cells (ws[k + unat b := ws ! (k + unat b) + 1]) i = byte_count (ds @ [b]) i"
      using assms(1) i by (simp add: tally_def)
  qed (use len in \<open>simp add: HIST_WKSP_SIZE_U32_def\<close>)
  ultimately show thesis by (rule that)
qed

lemma word_bytes:
  fixes a b c d :: u8
  defines "v \<equiv> word_of_nat (le_nat [a, b, c, d]) :: u32"
  shows "unat (v AND 255) = unat a" and "unat (drop_bit 8 v AND 255) = unat b"
    and "unat (drop_bit 16 v AND 255) = unat c" and "unat (drop_bit 24 v) = unat d"
proof -
  have l: "unat a < 256" "unat b < 256" "unat c < 256" "unat d < 256" by (simp_all add: byte_less)
  have v: "unat v = unat a + 256 * (unat b + 256 * (unat c + 256 * unat d))"
  proof -
    have n: "le_nat [a, b, c, d] = unat a + 256 * (unat b + 256 * (unat c + 256 * unat d))" by simp
    have "le_nat [a, b, c, d] < 2 ^ LENGTH(32)" using l unfolding n by simp
    then show ?thesis by (simp only: v_def unat_of_nat mod_less n)
  qed
  have m: "unat (w AND 255) = unat w mod 256" for w :: u32
    using unat_and_mask [of w 8] by (simp add: mask_eq_exp_minus_1)
  have d: "(x + 256 * y) mod 256 = x" "(x + 256 * y) div 256 = y" if "x < 256" for x y :: nat using that by simp_all
  have p: "n div 2 ^ 8 = n div 256" "n div 2 ^ 16 = n div 256 div 256" "n div 2 ^ 24 = n div 256 div 256 div 256" for n :: nat
    by (simp_all flip: div_mult2_eq)
  show "unat (v AND 255) = unat a" "unat (drop_bit 8 v AND 255) = unat b"
    "unat (drop_bit 16 v AND 255) = unat c" "unat (drop_bit 24 v) = unat d"
    by (simp_all only: m unat_drop_bit_div v p d l)
qed

lemma take_drop_4: "off + 4 \<le> length src \<Longrightarrow>
  take 4 (drop off src) = [src ! off, src ! (off + 1), src ! (off + 2), src ! (off + 3)]"
  by (rule nth_equalityI) (auto simp: less_Suc_eq numeral_eq_Suc)

text \<open>The word loaded ahead of position \<open>p\<close>.\<close>

definition word_at :: "bytes \<Rightarrow> nat \<Rightarrow> u32" where
  "word_at src p = word_of_nat (le_nat (take 4 (drop p src)))"

lemma inc4_tally:
  assumes "tally (take p src) ws" and "p + 4 \<le> length src" and "length src < 2 ^ 32"
  obtains ws' where "inc4 (word_at src p) ws = Ok ws'" and "tally (take (p + 4) src) ws'"
proof -
  note w = word_bytes [of "src ! p" "src ! (p + 1)" "src ! (p + 2)" "src ! (p + 3)"]
  have v: "word_at src p = word_of_nat (le_nat [src ! p, src ! (p + 1), src ! (p + 2), src ! (p + 3)])"
    by (simp only: word_at_def take_drop_4 [OF assms(2)])
  have t: "take (Suc q) src = take q src @ [src ! q]" if "q < length src" for q
    using that by (rule take_Suc_conv_app_nth)
  have l: "length (take q src) < 2 ^ 32 - 1" if "q < length src" for q using that assms(3) by simp
  have q: "p < length src" "p + 1 < length src" "p + 2 < length src" "p + 3 < length src" using assms(2) by auto
  obtain w1 where 1: "bump (0 + unat (src ! p)) ws = Ok w1" "tally (take p src @ [src ! p]) w1"
    by (rule bump_tally [OF assms(1) l [OF q(1)]]) (rule insertI1)
  have 1: "bump (unat (src ! p)) ws = Ok w1" "tally (take (p + 1) src) w1" using 1 t [OF q(1)] by simp_all
  obtain w2 where 2: "bump (256 + unat (src ! (p + 1))) w1 = Ok w2" "tally (take (p + 1) src @ [src ! (p + 1)]) w2"
    by (rule bump_tally [OF 1(2) l [OF q(2)], of 256]) auto
  have 2: "bump (256 + unat (src ! (p + 1))) w1 = Ok w2" "tally (take (p + 2) src) w2" using 2 t [OF q(2)] by simp_all
  obtain w3 where 3: "bump (512 + unat (src ! (p + 2))) w2 = Ok w3" "tally (take (p + 2) src @ [src ! (p + 2)]) w3"
    by (rule bump_tally [OF 2(2) l [OF q(3)], of 512]) auto
  have 3: "bump (512 + unat (src ! (p + 2))) w2 = Ok w3" "tally (take (p + 3) src) w3"
    using 3 t [OF q(3)] by (simp_all add: numeral_eq_Suc)
  obtain w4 where 4: "bump (768 + unat (src ! (p + 3))) w3 = Ok w4" "tally (take (p + 3) src @ [src ! (p + 3)]) w4"
    by (rule bump_tally [OF 3(2) l [OF q(4)], of 768]) auto
  have 4: "bump (768 + unat (src ! (p + 3))) w3 = Ok w4" "tally (take (p + 4) src) w4"
    using 4 t [OF q(4)] by (simp_all add: numeral_eq_Suc)
  show thesis
    by (rule that [OF _ 4(2)]) (simp only: inc4_def v w 1(1) 2(1) 3(1) 4(1) and_then.simps)
qed

lemma count_word_tally:
  assumes "tally (take p src) ws" and "p + 8 \<le> length src" and "length src < 2 ^ 32"
  obtains ws' where "count_word src (p + 4) (word_at src p, ws) = Ok (word_at src (p + 4), ws')" and "tally (take (p + 4) src) ws'"
proof -
  have "p + 4 \<le> length src" using assms(2) by simp
  from inc4_tally [OF assms(1) this assms(3)] obtain ws' where
    "inc4 (word_at src p) ws = Ok ws'" "tally (take (p + 4) src) ws'" .
  moreover have "read_u32 src (p + 4) = Ok (word_at src (p + 4))"
    using assms(2) by (simp add: read_u32_def idx_from_def idx_range_def word_at_def)
  ultimately show thesis by (intro that) (simp_all add: count_word_def)
qed

lemma count_blocks_tally:
  assumes "length src < 2 ^ 32"
  shows "tally (take p src) ws \<Longrightarrow> p + 4 \<le> length src \<Longrightarrow>
    \<exists>off ws'. count_blocks src (p + 4) (word_at src p, ws) = Ok (off, ws') \<and> off \<le> length src \<and> tally (take off src) ws'"
proof (induction "length src - p" arbitrary: p ws rule: less_induct)
  case less
  show ?case
  proof (cases "p + 4 + 15 < length src")
    case False
    then show ?thesis using less.prems by (simp add: count_blocks.simps)
  next
    case True
    have r: "p + 8 \<le> length src" "p + 4 + 8 \<le> length src" "p + 8 + 8 \<le> length src" "p + 12 + 8 \<le> length src"
      using True by auto
    have q: "p + 4 + 4 = p + 8" "p + 8 + 4 = p + 12" "p + 12 + 4 = p + 16" "p + 4 + 8 = p + 12" "p + 4 + 12 = p + 16"
      "p + 4 + 16 = p + 20" "p + 16 + 4 = p + 20" by simp_all
    from count_word_tally [OF less.prems(1) r(1) assms] obtain w1 where
      1: "count_word src (p + 4) (word_at src p, ws) = Ok (word_at src (p + 4), w1)" "tally (take (p + 4) src) w1" .
    from count_word_tally [OF 1(2) r(2) assms, unfolded q] obtain w2 where
      2: "count_word src (p + 8) (word_at src (p + 4), w1) = Ok (word_at src (p + 8), w2)" "tally (take (p + 8) src) w2" .
    from count_word_tally [OF 2(2) r(3) assms, unfolded q] obtain w3 where
      3: "count_word src (p + 12) (word_at src (p + 8), w2) = Ok (word_at src (p + 12), w3)" "tally (take (p + 12) src) w3" .
    from count_word_tally [OF 3(2) r(4) assms, unfolded q] obtain w4 where
      4: "count_word src (p + 16) (word_at src (p + 12), w3) = Ok (word_at src (p + 16), w4)" "tally (take (p + 16) src) w4" .
    have "count_blocks src (p + 4) (word_at src p, ws) = count_blocks src (p + 16 + 4) (word_at src (p + 16), w4)"
      by (subst count_blocks.simps) (simp only: True if_True 1(1) q 2(1) 3(1) 4(1) and_then.simps)
    moreover have "length src - (p + 16) < length src - p" "p + 16 + 4 \<le> length src" using True by auto
    ultimately show ?thesis using less.hyps [OF _ 4(2)] by simp
  qed
qed

lemma merge_loop:
  assumes "tally src ws" and "length src < 2 ^ 32"
  shows "\<exists>ws'. loop_over merge_cell [0..<256] (ws, 0) = Ok (ws', Max (byte_count src ` {..255}))
    \<and> length ws' = 1024 \<and> (\<forall>i < 256. ws' ! i = byte_count src i)"
proof -
  let ?I = "\<lambda>n (ws', m). length ws' = 1024 \<and> (\<forall>i < n. ws' ! i = byte_count src i)
    \<and> (\<forall>i. n \<le> i \<longrightarrow> ws' ! i = ws ! i) \<and> m = Max (insert 0 (byte_count src ` {..<n}))"
  have len: "length ws = 1024" using assms(1) by (simp add: tally_def HIST_WKSP_SIZE_U32_def)
  have "\<exists>s. loop_over merge_cell [0..<256] (ws, 0) = Ok s \<and> ?I 256 s"
  proof (rule loop_upt_Ok [where I = ?I])
    fix n s
    assume n: "n < 256" and "?I n s"
    then obtain ws' m where s: "s = (ws', m)" and I: "?I n (ws', m)" by (cases s) auto
    have w: "ws' ! n = ws ! n" "ws' ! (256 + n) = ws ! (256 + n)" "ws' ! (512 + n) = ws ! (512 + n)"
      "ws' ! (768 + n) = ws ! (768 + n)" "length ws' = 1024" using I by auto
    have c: "ws ! n + (ws ! (256 + n) + ws ! (512 + n) + ws ! (768 + n)) = byte_count src n"
      using assms(1) n by (auto simp: tally_def cells_def)
    then have "byte_count src n < 2 ^ 32" using byte_count_le [of src n] assms(2) by simp
    then have "ws ! (256 + n) + ws ! (512 + n) < 2 ^ 32"
      "ws ! (256 + n) + ws ! (512 + n) + ws ! (768 + n) < 2 ^ 32"
      "ws ! n + (ws ! (256 + n) + ws ! (512 + n) + ws ! (768 + n)) < 2 ^ 32" using c by linarith+
    then have "merge_cell n s = Ok (ws'[n := byte_count src n], max m (byte_count src n))"
      using n by (simp add: merge_cell_def s idx_def upd_def add_u32_Ok w flip: c)
    moreover have "insert 0 (byte_count src ` {..<Suc n}) = insert (byte_count src n) (insert 0 (byte_count src ` {..<n}))"
      by (auto simp: lessThan_Suc)
    then have "Max (insert 0 (byte_count src ` {..<Suc n})) = max (byte_count src n) (Max (insert 0 (byte_count src ` {..<n})))"
      by (simp only:) (rule Max_insert, auto)
    then have "max m (byte_count src n) = Max (insert 0 (byte_count src ` {..<Suc n}))"
      using I by (simp only: prod.case max.commute)
    then have "?I (Suc n) (ws'[n := byte_count src n], max m (byte_count src n))"
      using I n by (auto simp: nth_list_update less_Suc_eq)
    ultimately show "\<exists>s'. merge_cell n s = Ok s' \<and> ?I (Suc n) s'" by blast
  qed (use len in simp)
  then obtain ws' m where r: "loop_over merge_cell [0..<256] (ws, 0) = Ok (ws', m)" "?I 256 (ws', m)" by auto
  have "{..<256} = {..255 :: nat}" by auto
  then have "m = max 0 (Max (byte_count src ` {..255}))" using r(2) by (simp add: Max_insert)
  then show ?thesis using r by auto
qed

lemma count_parallel_histogram:
  assumes "length counts = 256" and "length ws = HIST_WKSP_SIZE_U32" and "msv < 256" and "length src < 2 ^ 32"
  shows "if src \<noteq> [] \<and> check = CheckMaxSymbolValue \<and> msv < largest_byte src
    then count_parallel_wksp counts msv src check ws = Err MaxSymbolValueTooSmall
    else \<exists>r. count_parallel_wksp counts msv src check ws = Ok r \<and> histogram_of src r"
proof (cases "src = []")
  case True
  then have "count_parallel_wksp counts msv src check ws = Ok (map (\<lambda>_. 0) counts, 0, 0)"
    using assms(3) by (simp add: count_parallel_wksp_def)
  then show ?thesis using True assms(1) by (auto simp: histogram_of_def largest_byte_def)
next
  case False
  let ?w0 = "map (\<lambda>_. 0) ws" and ?m = "largest_byte src"
  define start where "start = (if 4 \<le> length src
    then and_then (read_u32 src 0) (\<lambda>cached. count_blocks src 4 (cached, ?w0)) else Ok (0, ?w0))"
  have t0: "tally (take 0 src) ?w0" using assms(2) by (simp add: tally_def cells_def HIST_WKSP_SIZE_U32_def)
  have "\<exists>off w1. start = Ok (off, w1) \<and> off \<le> length src \<and> tally (take off src) w1"
  proof (cases "4 \<le> length src")
    case True
    then have "read_u32 src 0 = Ok (word_at src 0)" by (simp add: read_u32_def idx_from_def idx_range_def word_at_def)
    with count_blocks_tally [OF assms(4) t0] True show ?thesis by (simp add: start_def)
  next
    case False
    then show ?thesis using t0 by (simp add: start_def)
  qed
  then obtain off w1 where s: "start = Ok (off, w1)" "off \<le> length src" "tally (take off src) w1" by blast
  have "\<exists>w2. loop_over (\<lambda>b. bump (unat b)) (drop off src) w1 = Ok w2 \<and> tally (take off src @ drop off src) w2"
  proof (rule loop_over_Ok [where I = "\<lambda>ds w. tally (take off src @ ds) w"])
    fix ds b rs w
    assume e: "drop off src = ds @ b # rs" and I: "tally (take off src @ ds) w"
    have "length ds < length (drop off src)" by (simp add: e)
    then have "length (take off src @ ds) < 2 ^ 32 - 1" using assms(4) s(2) by simp
    from bump_tally [OF I this, of 0 b] show "\<exists>w'. bump (unat b) w = Ok w' \<and> tally (take off src @ ds @ [b]) w'"
      by (metis (no_types, lifting) add_0 append.assoc insertI1)
  qed (use s(3) in simp)
  then obtain w2 where w2: "loop_over (\<lambda>b. bump (unat b)) (drop off src) w1 = Ok w2" "tally src w2" by auto
  from merge_loop [OF w2(2) assms(4)] obtain w3 where
    w3: "loop_over merge_cell [0..<256] (w2, 0) = Ok (w3, Max (byte_count src ` {..255}))"
    "length w3 = 1024" "\<forall>i < 256. w3 ! i = byte_count src i" by blast
  have m: "?m < 256" by (rule largest_byte_less)
  have last: "last_counted Fault w3 255 = Ok ?m" using w3(2,3) m by (intro last_counted_largest [OF False]) auto
  have sym: "\<not> \<not> msv \<le> 255" using assms(3) by simp
  note run = count_parallel_wksp_def if_not_P [OF sym] if_not_P [OF False] Let_def start_def [symmetric] s(1) and_then.simps prod.case
    idx_from_def if_P [OF s(2)] w2(1) w3(1) last
  show ?thesis
  proof (cases "check = CheckMaxSymbolValue \<and> msv < ?m")
    case True
    then show ?thesis using False by (simp add: run)
  next
    case nocheck: False
    have "count_parallel_wksp counts msv src check ws
        = Ok (take (?m + 1) w3 @ drop (?m + 1) counts, ?m, Max (byte_count src ` {..255}))"
      unfolding run if_not_P [OF nocheck] using m w3(2) assms(1) by (simp add: idx_range_def copy_into_def)
    moreover have "histogram_of src (take (?m + 1) w3 @ drop (?m + 1) counts, ?m, Max (byte_count src ` {..255}))"
      using m w3(2,3) assms(1) by (auto simp: histogram_of_def nth_append)
    moreover have "(src \<noteq> [] \<and> check = CheckMaxSymbolValue \<and> msv < ?m) = False" using nocheck by blast
    ultimately show ?thesis by (simp only: if_False) blast
  qed
qed

text \<open>C27. Counting a source of less than 4 GiB gives its histogram: every count up to the largest byte value that
  occurs is the number of occurrences, and the largest count is returned. It fails only when a
  limit below 255 was given and a byte exceeds it. No count overflows, and the parallel counter never
  leaves its workspace.\<close>

theorem count_wksp_histogram:
  assumes "length counts = 256" and "length ws = HIST_WKSP_SIZE_U32" and "msv < 256" and "length src < 2 ^ 32"
  shows "if \<exists>b \<in> set src. msv < unat b then count_wksp counts msv src ws = Err MaxSymbolValueTooSmall
    else \<exists>r. count_wksp counts msv src ws = Ok r \<and> histogram_of src r"
proof (cases "msv < 255")
  case True
  have "(\<exists>b \<in> set src. msv < unat b) \<longleftrightarrow> src \<noteq> [] \<and> msv < largest_byte src"
    using largest_byte_max [of src] largest_byte_ge [of _ src] by fastforce
  moreover have "count_wksp counts msv src ws = count_parallel_wksp counts msv src CheckMaxSymbolValue ws"
    using True by (simp add: count_wksp_def)
  ultimately show ?thesis
    using count_parallel_histogram [OF assms, of CheckMaxSymbolValue] by (simp only: simp_thms)
next
  case False
  then have msv: "msv = 255" using assms(3) by simp
  have "unat b \<le> 255" for b :: u8 using byte_less [of b] by simp
  then have no: "\<not> (\<exists>b \<in> set src. msv < unat b)" "\<forall>b \<in> set src. unat b \<le> 255" by (auto simp: msv not_less)
  have "\<exists>r. count_fast_wksp counts 255 src ws = Ok r \<and> histogram_of src r"
    using count_simple_histogram [OF assms(1) _ no(2) assms(4)] count_parallel_histogram [OF assms(1,2) _ assms(4), of 255 TrustInput]
    by (simp add: count_fast_wksp_def)
  then show ?thesis using no(1) False by (simp add: count_wksp_def)
qed

theorem count_wksp_histogram_witness:
  "\<exists>r. count_wksp (replicate 256 0) 16 [3, 1, 3] (replicate 1024 0) = Ok r \<and> histogram_of [3, 1, 3] r"
  using count_wksp_histogram [of "replicate 256 0" "replicate 1024 0" 16 "[3, 1, 3]"] by (simp add: HIST_WKSP_SIZE_U32_def)

end
