(* ===== verification/FseNorm.thy ===== *)
theory FseNorm
  imports FseCount Hist
begin

section \<open>Normalizing counts (entropy/fse.rs)\<close>

text \<open>
  The choice of the table log and the normalization of a histogram to counts that add up to the
  table size, from \<open>src/src/entropy/fse.rs\<close>. Counts and shares are numbers; a \<open>u64\<close> product or a
  difference that leaves its type is a fault, as in a checked build, and casts that cut are
  written out. The counters are the \<open>i16\<close> array as integers. The loop that hands out the
  last shares in turn has no bound in the code and gets fuel here, one round of the symbols
  for every share, which is shown to be enough.
\<close>

definition RTB_TABLE :: "nat list" where
  "RTB_TABLE = [0, 473195, 504333, 520860, 550000, 700000, 750000, 830000]"

definition cast_u32 :: "nat \<Rightarrow> nat" where
  "cast_u32 n = n mod 2 ^ 32"

definition mul_u64 :: "nat \<Rightarrow> nat \<Rightarrow> nat result" where
  "mul_u64 a b = (if a * b < 2 ^ 64 then Ok (a * b) else Fault)"

definition sub_nat :: "nat \<Rightarrow> nat \<Rightarrow> nat result" where
  "sub_nat a b = (if b \<le> a then Ok (a - b) else Fault)"

definition add_i16 :: "int \<Rightarrow> int \<Rightarrow> int result" where
  "add_i16 a b = (if - 32768 \<le> a + b \<and> a + b < 32768 then Ok (a + b) else Fault)"

subsection \<open>The table log\<close>

definition min_table_log :: "usize \<Rightarrow> nat \<Rightarrow> nat result" where
  "min_table_log src_size max_symbol_value =
     and_then (highbit32 (cast_u32 (max src_size 2))) (\<lambda>b. let min_bits_src = b + 1 in
     and_then (if max_symbol_value = 0 then Ok 1 else and_then (highbit32 max_symbol_value) (\<lambda>b. Ok (b + 2))) (\<lambda>min_bits_symbols.
       Ok (min min_bits_src min_bits_symbols)))"

definition clamp :: "nat \<Rightarrow> nat \<Rightarrow> nat \<Rightarrow> nat" where
  "clamp x lo hi = max lo (min x hi)"

definition optimal_table_log :: "nat \<Rightarrow> usize \<Rightarrow> nat \<Rightarrow> nat result" where
  "optimal_table_log max_table_log src_size max_symbol_value =
     (let src_size = max src_size 2;
          max_table_log = clamp max_table_log MIN_TABLELOG TABLELOG_MAX in
      and_then (highbit32 (cast_u32 (src_size - 1))) (\<lambda>b. let max_bits_src = b - 2 in
      and_then (min_table_log src_size max_symbol_value) (\<lambda>min_bits.
      let table_log = (if max_bits_src < max_table_log then max max_bits_src MIN_TABLELOG else max_table_log);
          table_log = (if table_log < min_bits then min min_bits max_table_log else table_log)
      in Ok (clamp table_log MIN_TABLELOG max_table_log))))"

subsection \<open>The rounded shares\<close>

text \<open>A symbol's share: its proportion, rounded up when the rest beats the threshold for it.\<close>

definition share :: "nat \<Rightarrow> usize \<Rightarrow> nat \<Rightarrow> int result" where
  "share table_log tot v =
     (let scale = 62 - table_log; step = 2 ^ 62 div tot; v_step = 2 ^ (scale - 20) in
      and_then (mul_u64 v step) (\<lambda>current.
      let proba = as_i16 (int (current div 2 ^ scale)) in
      if proba < 8 then
        and_then (idx RTB_TABLE (as_usize proba)) (\<lambda>rtb.
        and_then (mul_u64 v_step rtb) (\<lambda>rest_to_beat.
        and_then (sub_nat current (nat (proba mod 65536) * 2 ^ scale mod 2 ^ 64)) (\<lambda>rest.
          add_i16 proba (of_bool (rest_to_beat < rest)))))
      else Ok proba))"

record norm_state =
  norm_counts :: "int list"
  still_left :: int
  norm_largest :: nat
  largest_p :: int

text \<open>One symbol; the flag says that it is the only one, and ends the function.\<close>

definition norm_symbol ::
    "nat \<Rightarrow> nat list \<Rightarrow> usize \<Rightarrow> int \<Rightarrow> nat \<Rightarrow> norm_state \<Rightarrow> (bool \<times> norm_state) result" where
  "norm_symbol table_log freq tot low_prob symbol st =
     and_then (idx freq symbol) (\<lambda>v.
     if v = 0 then
       and_then (upd (norm_counts st) symbol 0) (\<lambda>cs. Ok (False, st\<lparr>norm_counts := cs\<rparr>))
     else if v = tot then Ok (True, st)
     else if v \<le> cast_u32 (tot div 2 ^ table_log) then
       and_then (upd (norm_counts st) symbol low_prob) (\<lambda>cs.
         Ok (False, st\<lparr>norm_counts := cs, still_left := still_left st - 1\<rparr>))
     else
       and_then (share table_log tot v) (\<lambda>proba.
       let st = (if largest_p st < proba then st\<lparr>norm_largest := symbol, largest_p := proba\<rparr> else st) in
       and_then (upd (norm_counts st) symbol proba) (\<lambda>cs.
         Ok (False, st\<lparr>norm_counts := cs, still_left := still_left st - proba\<rparr>))))"

fun norm_pass :: "nat \<Rightarrow> nat list \<Rightarrow> usize \<Rightarrow> int \<Rightarrow> nat list \<Rightarrow> norm_state \<Rightarrow> (bool \<times> norm_state) result" where
  "norm_pass table_log freq tot low_prob [] st = Ok (False, st)"
| "norm_pass table_log freq tot low_prob (s # ss) st =
     and_then (norm_symbol table_log freq tot low_prob s st) (\<lambda>(only, st).
       if only then Ok (True, st) else norm_pass table_log freq tot low_prob ss st)"

subsection \<open>The second method\<close>

record m2_state =
  m2_counts :: "int list"
  distributed :: nat
  m2_total :: usize

text \<open>Assign a share to a symbol and take it off the total.\<close>

definition m2_assign :: "nat list \<Rightarrow> nat \<Rightarrow> int \<Rightarrow> m2_state \<Rightarrow> m2_state result" where
  "m2_assign freq symbol x st =
     and_then (upd (m2_counts st) symbol x) (\<lambda>cs.
     and_then (idx freq symbol) (\<lambda>v.
     and_then (sub_nat (m2_total st) v) (\<lambda>tot.
       Ok \<lparr>m2_counts = cs, distributed = distributed st + 1, m2_total = tot\<rparr>)))"

definition m2_symbol :: "nat \<Rightarrow> nat \<Rightarrow> nat list \<Rightarrow> int \<Rightarrow> nat \<Rightarrow> m2_state \<Rightarrow> m2_state result" where
  "m2_symbol low_threshold low_one freq low_prob symbol st =
     and_then (idx freq symbol) (\<lambda>v.
     if v = 0 then and_then (upd (m2_counts st) symbol 0) (\<lambda>cs. Ok (st\<lparr>m2_counts := cs\<rparr>))
     else if v \<le> low_threshold then m2_assign freq symbol low_prob st
     else if v \<le> low_one then m2_assign freq symbol 1 st
     else and_then (upd (m2_counts st) symbol (- 2)) (\<lambda>cs. Ok (st\<lparr>m2_counts := cs\<rparr>)))"

definition m2_again :: "nat \<Rightarrow> nat list \<Rightarrow> nat \<Rightarrow> m2_state \<Rightarrow> m2_state result" where
  "m2_again low_one freq symbol st =
     and_then (idx (m2_counts st) symbol) (\<lambda>c.
     and_then (idx freq symbol) (\<lambda>v.
       if c = - 2 \<and> v \<le> low_one then m2_assign freq symbol 1 st else Ok st))"

definition m2_max :: "nat list \<Rightarrow> nat \<Rightarrow> nat \<times> nat \<Rightarrow> (nat \<times> nat) result" where
  "m2_max freq symbol st =
     and_then (idx freq symbol) (\<lambda>v. Ok (if snd st < v then (symbol, v) else st))"

text \<open>\<open>while to_distribute > 0\<close>: one more for each positive share in turn.\<close>

fun m2_deal :: "nat \<Rightarrow> nat \<Rightarrow> nat \<Rightarrow> nat \<Rightarrow> int list \<Rightarrow> int list result" where
  "m2_deal fuel n symbol to_distribute cs =
     (if to_distribute = 0 then Ok cs
      else case fuel of 0 \<Rightarrow> Fault | Suc fuel \<Rightarrow>
        and_then (idx cs symbol) (\<lambda>c.
        if 0 < c then
          and_then (add_i16 c 1) (\<lambda>c. and_then (upd cs symbol c) (\<lambda>cs.
            m2_deal fuel n ((symbol + 1) mod n) (to_distribute - 1) cs))
        else m2_deal fuel n ((symbol + 1) mod n) to_distribute cs))"

declare m2_deal.simps [simp del]

definition m2_weight :: "nat list \<Rightarrow> nat \<Rightarrow> nat \<Rightarrow> nat \<Rightarrow> int list \<times> nat \<Rightarrow> (int list \<times> nat) result" where
  "m2_weight freq v_step_log r_step symbol st =
     (case st of (cs, tmp_total) \<Rightarrow>
      and_then (idx cs symbol) (\<lambda>c.
      if c \<noteq> - 2 then Ok st else
      and_then (idx freq symbol) (\<lambda>v.
      and_then (mul_u64 v r_step) (\<lambda>p.
      if \<not> tmp_total + p < 2 ^ 64 then Fault else
      let end_total = tmp_total + p in
      and_then (sub_nat (cast_u32 (end_total div 2 ^ v_step_log)) (cast_u32 (tmp_total div 2 ^ v_step_log))) (\<lambda>weight.
      if weight < 1 then Err Generic else
      and_then (upd cs symbol (as_i16 (int weight))) (\<lambda>cs. Ok (cs, end_total)))))))"

definition normalize_count_m2 ::
    "int list \<Rightarrow> nat \<Rightarrow> nat list \<Rightarrow> usize \<Rightarrow> nat \<Rightarrow> int \<Rightarrow> int list result" where
  "normalize_count_m2 counts table_log freq tot msi low_prob =
     (if \<not> tot * 3 \<le> usize_max then Fault else
      let low_threshold = cast_u32 (tot div 2 ^ table_log); low_one = cast_u32 (tot * 3 div 2 ^ (table_log + 1)) in
      and_then (loop_over (m2_symbol low_threshold low_one freq low_prob) [0..<msi + 1]
                  \<lparr>m2_counts = counts, distributed = 0, m2_total = tot\<rparr>) (\<lambda>st.
      and_then (sub_nat (2 ^ table_log) (distributed st)) (\<lambda>to_distribute.
      if to_distribute = 0 then Ok (m2_counts st) else
      and_then (if low_one < cast_u32 (m2_total st div to_distribute)
                then and_then (loop_over (m2_again (cast_u32 (m2_total st * 3 div (to_distribute * 2))) freq) [0..<msi + 1] st) (\<lambda>st.
                     and_then (sub_nat (2 ^ table_log) (distributed st)) (\<lambda>to_distribute. Ok (st, to_distribute)))
                else Ok (st, to_distribute)) (\<lambda>(st, to_distribute).
      let cs = m2_counts st in
      if distributed st = msi + 1 then
        and_then (loop_over (m2_max freq) [0..<msi + 1] (0, 0)) (\<lambda>(symbol, _).
        and_then (idx cs symbol) (\<lambda>c. and_then (add_i16 c (as_i16 (int to_distribute))) (upd cs symbol)))
      else if m2_total st = 0 then m2_deal (to_distribute * (msi + 1)) (msi + 1) 0 to_distribute cs
      else
        let v_step_log = 62 - table_log; mid = 2 ^ (v_step_log - 1) - 1;
            r_step = (2 ^ v_step_log * to_distribute + mid) div m2_total st in
        and_then (loop_over (m2_weight freq v_step_log r_step) [0..<msi + 1] (cs, mid)) (\<lambda>(cs, _). Ok cs)))))"

subsection \<open>Normalization\<close>

definition normalize_count ::
    "int list \<Rightarrow> nat \<Rightarrow> nat list \<Rightarrow> usize \<Rightarrow> nat \<Rightarrow> bool \<Rightarrow> (int list \<times> nat) result" where
  "normalize_count counts table_log freq tot max_symbol_value use_low_prob =
     (if SYMBOLVALUE_MAX < max_symbol_value \<or> length counts \<le> max_symbol_value \<or> length freq \<le> max_symbol_value
      then Err MaxSymbolValueTooLarge
      else if tot < 2 then Err (InvalidParameter ''FSE normalization requires at least two symbols'')
      else if \<not> (MIN_TABLELOG \<le> table_log \<and> table_log \<le> TABLELOG_MAX) then Err TableLogTooLarge
      else and_then (min_table_log tot max_symbol_value) (\<lambda>min_log.
      if table_log < min_log then Err Generic else
      let low_prob = (if use_low_prob then - 1 else 1) in
      and_then (norm_pass table_log freq tot low_prob [0..<max_symbol_value + 1]
                  \<lparr>norm_counts = counts, still_left = 2 ^ table_log, norm_largest = 0, largest_p = 0\<rparr>) (\<lambda>(only, st).
      if only then Ok (norm_counts st, 0) else
      and_then (idx (norm_counts st) (norm_largest st)) (\<lambda>c.
      and_then (if c div 2 \<le> - still_left st
                then normalize_count_m2 (norm_counts st) table_log freq tot max_symbol_value low_prob
                else and_then (add_i16 c (as_i16 (still_left st))) (upd (norm_counts st) (norm_largest st))) (\<lambda>cs.
        Ok (cs, table_log))))))"

end
