(* ===== verification/FseNormProps.thy ===== *)
theory FseNormProps
  imports FseNorm FseCountProps
begin

section \<open>Normalized counts fill the table\<close>

text \<open>
  Normalization in \<open>src/src/entropy/fse.rs\<close>: on a histogram that adds up to its total, with at least
  two distinct symbols, the counters returned are valid for a table of the requested size, and a
  symbol has a share exactly when it occurs. Nothing on the way overflows, no index leaves its
  array, and the loop that deals out the last shares ends. The argument that a small enough table
  log is refused first, so that there are fewer distinct symbols than slots, is what both
  methods rest on.
\<close>

subsection \<open>Arithmetic\<close>

lemma cast_u32_small: "n < 2 ^ 32 \<Longrightarrow> cast_u32 n = n"
  by (simp add: cast_u32_def)

lemma length_RTB [simp]: "length RTB_TABLE = 8"
  by (simp add: RTB_TABLE_def)

lemma RTB_bound: "i < 8 \<Longrightarrow> RTB_TABLE ! i < 2 ^ 20"
proof -
  have "\<forall>x \<in> set RTB_TABLE. x < 2 ^ 20" by (simp add: RTB_TABLE_def)
  then show "i < 8 \<Longrightarrow> RTB_TABLE ! i < 2 ^ 20" by simp
qed

definition total_ok :: "nat \<Rightarrow> nat \<Rightarrow> bool" where
  "total_ok L tot \<longleftrightarrow> 5 \<le> L \<and> L \<le> 9 \<and> 2 \<le> tot \<and> tot < 2 ^ 32"

lemma low_threshold [simp]: "total_ok L tot \<Longrightarrow> cast_u32 (tot div 2 ^ L) = tot div 2 ^ L"
proof -
  assume "total_ok L tot"
  then have "tot < 2 ^ 32" by (simp add: total_ok_def)
  then have "tot div 2 ^ L < 2 ^ 32" by (rule le_less_trans [OF div_le_dividend])
  then show ?thesis by (rule cast_u32_small)
qed

lemma share_ok:
  assumes t: "total_ok L tot" and v: "0 < v" "v < tot"
  obtains p where "share L tot v = Ok p" and "1 \<le> p" and "p \<le> 2 ^ L"
proof -
  have L: "5 \<le> L" "L \<le> 9" "0 < tot" "tot < 2 ^ 32" using t by (auto simp: total_ok_def)
  define scale step q where "scale = 62 - L" and "step = (2 :: nat) ^ 62 div tot" and "q = v * step div 2 ^ scale"
  have step: "1 \<le> step"
  proof -
    have "tot \<le> 2 ^ 62" using L(4) by simp
    then show ?thesis using L(3) by (simp add: step_def div_greater_zero_iff Suc_le_eq)
  qed
  have "tot * step \<le> 2 ^ 62" by (simp add: step_def)
  moreover have "v * step < tot * step" using v(2) step by simp
  ultimately have cur: "v * step < 2 ^ 62" by linarith
  have pow: "(2 :: nat) ^ 62 = 2 ^ L * 2 ^ scale" using L(2) by (simp add: scale_def flip: power_add)
  have q: "q < 2 ^ L" "q * 2 ^ scale \<le> v * step"
    using cur unfolding pow by (simp_all add: q_def less_mult_imp_div_less)
  have "(2 :: nat) ^ L \<le> 2 ^ 9" using L(2) by (intro power_increasing) simp_all
  then have L512: "(2 :: nat) ^ L \<le> 512" by simp
  have qi: "int q < 2 ^ L" using q(1) of_nat_less_iff [of q "2 ^ L", where 'a = int] by simp
  have L8: "(32 :: int) \<le> 2 ^ L" using power_increasing [OF L(1), of "2 :: int"] by simp
  have mul: "mul_u64 v step = Ok (v * step)" using cur by (simp add: mul_u64_def)
  have i16: "as_i16 (int q) = int q" using q(1) L512 by (intro as_i16_small) simp_all
  show thesis
  proof (cases "q < 8")
    case False
    then have big: "\<not> int q < 8" by simp
    have "share L tot v = Ok (int q)"
      unfolding share_def Let_def scale_def [symmetric] step_def [symmetric] mul and_then.simps q_def [symmetric] i16
        if_not_P [OF big] ..
    then show thesis using that [of "int q"] False qi by simp
  next
    case True
    define rtb where "rtb = RTB_TABLE ! q"
    have "rtb < 2 ^ 20" using RTB_bound [OF True] by (simp add: rtb_def)
    then have "2 ^ (scale - 20) * rtb < 2 ^ (scale - 20) * 2 ^ 20" by simp
    also have "\<dots> = 2 ^ (scale - 20 + 20)" by (simp only: power_add)
    also have "\<dots> \<le> 2 ^ 62" by (rule power_increasing) (use L in \<open>simp_all add: scale_def\<close>)
    finally have "2 ^ (scale - 20) * rtb < 2 ^ 64" by (rule less_trans) simp
    then have m2: "mul_u64 (2 ^ (scale - 20)) rtb = Ok (2 ^ (scale - 20) * rtb)" unfolding mul_u64_def by (rule if_P)
    have "q * 2 ^ scale < 2 ^ 62" using q(2) cur by (rule le_less_trans)
    then have "q * 2 ^ scale < 2 ^ 64" by (rule less_trans) simp
    moreover have "nat (int q mod 65536) = q" using True by simp
    ultimately have "nat (int q mod 65536) * 2 ^ scale mod 2 ^ 64 = q * 2 ^ scale" by (simp only: mod_less)
    then have sub: "sub_nat (v * step) (nat (int q mod 65536) * 2 ^ scale mod 2 ^ 64) = Ok (v * step - q * 2 ^ scale)"
      unfolding sub_nat_def by (simp only: q(2) if_True)
    define up where "up = (2 ^ (scale - 20) * rtb < v * step - q * 2 ^ scale)"
    have add: "add_i16 (int q) (of_bool up) = Ok (int q + of_bool up)" using True by (simp add: add_i16_def)
    have "share L tot v = Ok (int q + of_bool up)"
    proof -
      have "idx RTB_TABLE (as_usize (int q)) = Ok rtb" "int q < 8" using True by (simp_all add: as_usize_small idx_def rtb_def)
      then show ?thesis
        unfolding share_def Let_def scale_def [symmetric] step_def [symmetric] mul and_then.simps q_def [symmetric] i16
          if_P [OF \<open>int q < 8\<close>] \<open>idx RTB_TABLE _ = _\<close> m2 sub up_def [symmetric] add by simp
    qed
    moreover have "1 \<le> int q + of_bool up"
    proof (cases "q = 0")
      case True
      then have up unfolding up_def rtb_def using v(1) step by (simp add: RTB_TABLE_def)
      then show ?thesis by simp
    qed simp
    moreover have "int q + of_bool up \<le> 2 ^ L"
    proof (rule order_trans [OF _ L8])
      show "int q + of_bool up \<le> 32" using True by (cases up) simp_all
    qed
    ultimately show thesis by (rule that)
  qed
qed

subsection \<open>Sums of shares\<close>

definition absum :: "int list \<Rightarrow> nat \<Rightarrow> int" where
  "absum cs n = (\<Sum>s < n. \<bar>cs ! s\<bar>)"

lemma absum_Suc [simp]: "absum cs (Suc n) = absum cs n + \<bar>cs ! n\<bar>"
  by (simp add: absum_def)

lemma absum_0 [simp]: "absum cs 0 = 0"
  by (simp add: absum_def)

lemma absum_nonneg: "0 \<le> absum cs n"
  by (simp add: absum_def sum_nonneg)

lemma absum_upd_ge: "n \<le> i \<Longrightarrow> absum (cs[i := x]) n = absum cs n"
  by (simp add: absum_def)

lemma absum_upd:
  assumes "i < n" and "i < length cs"
  shows "absum (cs[i := x]) n = absum cs n - \<bar>cs ! i\<bar> + \<bar>x\<bar>"
proof -
  have "absum (cs[i := x]) n = \<bar>x\<bar> + (\<Sum>s \<in> {..<n} - {i}. \<bar>cs ! s\<bar>)"
    using assms by (simp add: absum_def sum.remove [of "{..<n}" i])
  moreover have "absum cs n = \<bar>cs ! i\<bar> + (\<Sum>s \<in> {..<n} - {i}. \<bar>cs ! s\<bar>)"
    using assms(1) by (simp add: absum_def sum.remove [of "{..<n}" i])
  ultimately show ?thesis by simp
qed

lemma absum_ge: "i < n \<Longrightarrow> \<bar>cs ! i\<bar> \<le> absum cs n"
  using member_le_sum [of i "{..<n}" "\<lambda>s. \<bar>cs ! s\<bar>"] by (simp add: absum_def)

lemma absum_total: "absum cs n = int (total_count cs n)"
  by (simp add: absum_def total_count_def interv_sum_list_conv_sum_set_nat atLeast0LessThan)

lemma absum_cong: "(\<And>s. s < n \<Longrightarrow> cs ! s = cs' ! s) \<Longrightarrow> absum cs n = absum cs' n"
  by (simp add: absum_def)

text \<open>What normalization returns: shares of a table of size \<open>2 ^ L\<close> for the symbols that occur.\<close>

definition shares_ok :: "nat \<Rightarrow> nat list \<Rightarrow> nat \<Rightarrow> int list \<Rightarrow> bool" where
  "shares_ok L freq n cs \<longleftrightarrow> n \<le> length cs \<and> absum cs n = 2 ^ L
     \<and> (\<forall>s < n. -1 \<le> cs ! s \<and> (cs ! s = 0 \<longleftrightarrow> freq ! s = 0))"

text \<open>The histogram: it adds up, and has fewer symbols than the table has slots.\<close>

definition occurring :: "nat list \<Rightarrow> nat \<Rightarrow> nat set" where
  "occurring freq n = {s. s < n \<and> freq ! s \<noteq> 0}"

definition hist_ok :: "nat \<Rightarrow> nat list \<Rightarrow> nat \<Rightarrow> nat \<Rightarrow> bool" where
  "hist_ok L freq tot n \<longleftrightarrow> total_ok L tot \<and> 0 < n \<and> n \<le> length freq \<and> n \<le> 256
     \<and> (\<Sum>s < n. freq ! s) = tot \<and> card (occurring freq n) < 2 ^ L"

lemma finite_occurring [simp]: "finite (occurring freq n)"
  by (simp add: occurring_def)

lemma sum_occurring: "(\<Sum>s < n. freq ! s) = (\<Sum>s \<in> occurring freq n. freq ! s)" for freq :: "nat list"
  by (rule sum.mono_neutral_right) (auto simp: occurring_def)

lemma count_le_total: "hist_ok L freq tot n \<Longrightarrow> s < n \<Longrightarrow> freq ! s \<le> tot"
  using member_le_sum [of s "{..<n}" "\<lambda>s. freq ! s"] by (auto simp: hist_ok_def)

text \<open>Some symbol is above the threshold: otherwise the symbols would not add up to the total.\<close>

lemma some_above:
  assumes "hist_ok L freq tot n"
  obtains s where "s < n" and "tot div 2 ^ L < freq ! s"
proof -
  have "\<exists>s < n. tot div 2 ^ L < freq ! s"
  proof (rule ccontr)
    assume "\<not> ?thesis"
    then have le: "freq ! s \<le> tot div 2 ^ L" if "s \<in> occurring freq n" for s
    proof -
      have "s < n" using that by (simp add: occurring_def)
      then show ?thesis using \<open>\<not> _\<close> not_less by blast
    qed
    have "tot = (\<Sum>s \<in> occurring freq n. freq ! s)" using assms sum_occurring [of freq n] by (simp add: hist_ok_def)
    also have "\<dots> \<le> card (occurring freq n) * (tot div 2 ^ L)"
      using sum_bounded_above [OF le] by simp
    finally have t: "tot \<le> card (occurring freq n) * (tot div 2 ^ L)" .
    moreover have "0 < tot" "card (occurring freq n) < 2 ^ L" using assms by (auto simp: hist_ok_def total_ok_def)
    ultimately have "0 < tot div 2 ^ L" by (cases "tot div 2 ^ L") auto
    then have "card (occurring freq n) * (tot div 2 ^ L) < 2 ^ L * (tot div 2 ^ L)"
      using \<open>card (occurring freq n) < 2 ^ L\<close> by simp
    also have "\<dots> \<le> tot" by simp
    finally show False using t by simp
  qed
  with that show thesis by blast
qed

subsection \<open>The first method\<close>

text \<open>After the symbols below \<open>k\<close>.\<close>

definition share_kind :: "nat list \<Rightarrow> nat \<Rightarrow> int \<Rightarrow> int list \<Rightarrow> nat \<Rightarrow> bool" where
  "share_kind freq thr low cs s \<longleftrightarrow>
     (if freq ! s = 0 then cs ! s = 0 else if freq ! s \<le> thr then cs ! s = low else 1 \<le> cs ! s)"

definition pass_inv :: "nat \<Rightarrow> nat list \<Rightarrow> nat \<Rightarrow> int \<Rightarrow> nat \<Rightarrow> nat \<Rightarrow> norm_state \<Rightarrow> bool" where
  "pass_inv L freq tot low n k st \<longleftrightarrow> n \<le> length (norm_counts st) \<and> (\<forall>s < k. freq ! s \<noteq> tot)
     \<and> (\<forall>s < k. share_kind freq (tot div 2 ^ L) low (norm_counts st) s)
     \<and> still_left st = 2 ^ L - absum (norm_counts st) k
     \<and> (if \<exists>s < k. tot div 2 ^ L < freq ! s
        then norm_largest st < k \<and> 1 \<le> norm_counts st ! norm_largest st \<and> largest_p st = norm_counts st ! norm_largest st
        else largest_p st = 0)"

lemma share_kind_upd:
  "s \<noteq> k \<Longrightarrow> share_kind freq thr low (cs[k := x]) s = share_kind freq thr low cs s"
  by (simp add: share_kind_def)

lemma pass_inv_Suc:
  assumes I: "pass_inv L freq tot low n k st" and k: "k < n" "freq ! k \<noteq> tot"
    and c: "norm_counts st' = (norm_counts st)[k := x]" "share_kind freq (tot div 2 ^ L) low ((norm_counts st)[k := x]) k"
    and s: "still_left st' = still_left st - \<bar>x\<bar>"
    and l: "tot div 2 ^ L < freq ! k \<Longrightarrow> 1 \<le> x"
    "if tot div 2 ^ L < freq ! k \<and> largest_p st < x then norm_largest st' = k \<and> largest_p st' = x
     else norm_largest st' = norm_largest st \<and> largest_p st' = largest_p st"
  shows "pass_inv L freq tot low n (Suc k) st'"
proof -
  have len: "k < length (norm_counts st)" using I k(1) by (simp add: pass_inv_def)
  have "share_kind freq (tot div 2 ^ L) low (norm_counts st') s" if "s < Suc k" for s
    using that I c by (cases "s = k") (auto simp: share_kind_upd pass_inv_def)
  moreover have "still_left st' = 2 ^ L - absum (norm_counts st') (Suc k)"
    using I len by (simp add: c(1) s pass_inv_def absum_upd_ge)
  moreover have "if \<exists>s < Suc k. tot div 2 ^ L < freq ! s
      then norm_largest st' < Suc k \<and> 1 \<le> norm_counts st' ! norm_largest st' \<and> largest_p st' = norm_counts st' ! norm_largest st'
      else largest_p st' = 0"
  proof (cases "tot div 2 ^ L < freq ! k \<and> largest_p st < x")
    case True
    then show ?thesis using l len by (auto simp: c(1))
  next
    case False
    then have e: "norm_largest st' = norm_largest st" "largest_p st' = largest_p st" using l(2) by auto
    show ?thesis
    proof (cases "\<exists>s < k. tot div 2 ^ L < freq ! s")
      case True
      then have "norm_largest st < k" "1 \<le> norm_counts st ! norm_largest st" "largest_p st = norm_counts st ! norm_largest st"
        using I by (auto simp: pass_inv_def)
      moreover have "\<exists>s < Suc k. tot div 2 ^ L < freq ! s" using True by (auto simp: less_Suc_eq)
      ultimately show ?thesis by (simp add: e c(1))
    next
      case none: False
      then have "largest_p st = 0" using I by (simp add: pass_inv_def)
      then have "\<not> tot div 2 ^ L < freq ! k" using False l(1) by auto
      then show ?thesis using none \<open>largest_p st = 0\<close> by (auto simp: e less_Suc_eq)
    qed
  qed
  ultimately show ?thesis using I k(2) by (simp add: pass_inv_def c(1) less_Suc_eq)
qed

lemma norm_symbol_ok:
  assumes h: "hist_ok L freq tot n" and I: "pass_inv L freq tot low n k st" and k: "k < n" and low: "low = 1 \<or> low = -1"
  obtains "norm_symbol L freq tot low k st = Ok (True, st)" and "freq ! k = tot"
    | st' where "norm_symbol L freq tot low k st = Ok (False, st')" and "pass_inv L freq tot low n (Suc k) st'"
proof -
  have t: "total_ok L tot" and len: "k < length freq" using h k by (auto simp: hist_ok_def)
  have lenc: "k < length (norm_counts st)" using I k by (simp add: pass_inv_def)
  note sp = norm_symbol_def idx_def upd_def len lenc low_threshold [OF t]
  show thesis
  proof (cases "freq ! k = tot")
    case True
    then show thesis using that(1) t by (auto simp: sp total_ok_def)
  next
    case ne: False
    show thesis
    proof (cases "freq ! k \<le> tot div 2 ^ L")
      case True
      define x where "x = (if freq ! k = 0 then 0 else low)"
      have ax: "\<bar>x\<bar> = (if freq ! k = 0 then 0 else 1)" using low by (auto simp: x_def)
      let ?st = "st\<lparr>norm_counts := (norm_counts st)[k := x], still_left := still_left st - \<bar>x\<bar>\<rparr>"
      have "norm_symbol L freq tot low k st = Ok (False, ?st)"
        using ne True ax by (auto simp: sp x_def)
      moreover have "pass_inv L freq tot low n (Suc k) ?st"
        by (rule pass_inv_Suc [OF I k ne]) (use True lenc in \<open>auto simp: share_kind_def x_def\<close>)
      ultimately show thesis by (rule that(2))
    next
      case False
      then have v: "0 < freq ! k" "freq ! k < tot" using ne count_le_total [OF h k] by linarith+
      from share_ok [OF t v] obtain p where p: "share L tot (freq ! k) = Ok p" "1 \<le> p" .
      let ?st = "(if largest_p st < p then st\<lparr>norm_largest := k, largest_p := p\<rparr> else st)
          \<lparr>norm_counts := (norm_counts st)[k := p], still_left := still_left st - p\<rparr>"
      have "norm_symbol L freq tot low k st = Ok (False, ?st)"
        using ne False v p by (simp add: sp Let_def)
      moreover have "pass_inv L freq tot low n (Suc k) ?st"
        by (rule pass_inv_Suc [OF I k ne]) (use False lenc p(2) v in \<open>auto simp: share_kind_def\<close>)
      ultimately show thesis by (rule that(2))
    qed
  qed
qed

lemma norm_pass_ok:
  assumes h: "hist_ok L freq tot n" and low: "low = 1 \<or> low = -1"
  shows "pass_inv L freq tot low n k st \<Longrightarrow> k \<le> n \<Longrightarrow>
    \<exists>only st'. norm_pass L freq tot low [k..<n] st = Ok (only, st')
      \<and> (if only then \<exists>s < n. freq ! s = tot else pass_inv L freq tot low n n st')"
proof (induction "n - k" arbitrary: k st)
  case 0
  then have "k = n" by simp
  then show ?case using "0.prems" by (intro exI [of _ False] exI [of _ st]) simp
next
  case (Suc d)
  then have k: "k < n" by simp
  then have upt: "[k..<n] = k # [Suc k..<n]" by (rule upt_conv_Cons)
  show ?case
  proof (rule norm_symbol_ok [OF h Suc.prems(1) k low])
    assume "norm_symbol L freq tot low k st = Ok (True, st)" "freq ! k = tot"
    then show ?thesis using k by (auto simp: upt)
  next
    fix st'
    assume st': "norm_symbol L freq tot low k st = Ok (False, st')" "pass_inv L freq tot low n (Suc k) st'"
    have "d = n - Suc k" "Suc k \<le> n" using Suc.hyps(2) k by auto
    from Suc.hyps(1) [OF this(1) st'(2) this(2)] show ?thesis by (simp add: upt st'(1))
  qed
qed

lemma first_method_ok:
  assumes h: "hist_ok L freq tot n" and I: "pass_inv L freq tot low n n st" and low: "low = 1 \<or> low = -1"
    and easy: "\<not> norm_counts st ! norm_largest st div 2 \<le> - still_left st"
  obtains cs where "and_then (add_i16 (norm_counts st ! norm_largest st) (as_i16 (still_left st)))
      (upd (norm_counts st) (norm_largest st)) = Ok cs" and "shares_ok L freq n cs"
proof -
  let ?cs = "norm_counts st" and ?l = "norm_largest st"
  from some_above [OF h] have "\<exists>s < n. tot div 2 ^ L < freq ! s" by blast
  then have l: "?l < n" "1 \<le> ?cs ! ?l" "n \<le> length ?cs" and still: "still_left st = 2 ^ L - absum ?cs n"
    using I by (auto simp: pass_inv_def)
  define x where "x = ?cs ! ?l + still_left st"
  have x: "1 \<le> x" using easy l(2) by (simp add: x_def)
  have "(2 :: int) ^ L \<le> 2 ^ 9" using h by (intro power_increasing) (auto simp: hist_ok_def total_ok_def)
  then have p: "(2 :: int) ^ L \<le> 512" by simp
  have "\<bar>?cs ! ?l\<bar> \<le> absum ?cs n" using l(1) by (rule absum_ge)
  then have b: "x \<le> 512" "still_left st \<le> 512" "- 512 \<le> still_left st \<or> 512 < ?cs ! ?l"
    using still p x absum_nonneg [of ?cs n] l(2) by (auto simp: x_def)
  have big: "?cs ! ?l \<le> 1024"
  proof (rule ccontr)
    assume c: "\<not> ?thesis"
    have "- still_left st < ?cs ! ?l div 2" using easy by simp
    moreover have "?cs ! ?l \<le> 2 ^ L - still_left st" using \<open>\<bar>?cs ! ?l\<bar> \<le> absum ?cs n\<close> still l(2) by simp
    ultimately show False using c p by linarith
  qed
  have "- 512 \<le> still_left st" using easy big l(2) by linarith
  then have i16: "as_i16 (still_left st) = still_left st" using b(2) by (simp add: as_i16_def)
  have "and_then (add_i16 (?cs ! ?l) (as_i16 (still_left st))) (upd ?cs ?l) = Ok (?cs[?l := x])"
    using x b(1) l by (simp add: i16 add_i16_def upd_def flip: x_def)
  moreover have "shares_ok L freq n (?cs[?l := x])"
  proof -
    have "absum (?cs[?l := x]) n = 2 ^ L" using l x still by (simp add: absum_upd x_def)
    moreover have "- 1 \<le> ?cs[?l := x] ! s \<and> (?cs[?l := x] ! s = 0 \<longleftrightarrow> freq ! s = 0)" if s: "s < n" for s
    proof -
      have kind: "share_kind freq (tot div 2 ^ L) low ?cs s" using I s by (simp add: pass_inv_def)
      show ?thesis
      proof (cases "s = ?l")
        case True
        then have "freq ! s \<noteq> 0" using kind l(2) by (auto simp: share_kind_def split: if_splits)
        then show ?thesis using True l x by simp
      next
        case False
        then show ?thesis using kind low by (auto simp: share_kind_def split: if_splits)
      qed
    qed
    ultimately show ?thesis using l by (simp add: shares_ok_def)
  qed
  ultimately show thesis by (rule that)
qed

subsection \<open>The second method\<close>

text \<open>The symbols below \<open>k\<close> that have their share; \<open>-2\<close> marks those that wait.\<close>

definition assigned :: "int list \<Rightarrow> nat \<Rightarrow> nat set" where
  "assigned cs k = {s. s < k \<and> cs ! s \<noteq> 0 \<and> cs ! s \<noteq> - 2}"

definition m2_kind :: "nat list \<Rightarrow> nat \<Rightarrow> int \<Rightarrow> int list \<Rightarrow> nat \<Rightarrow> bool" where
  "m2_kind freq thr low cs s \<longleftrightarrow>
     (if freq ! s = 0 then cs ! s = 0 else if freq ! s \<le> thr then cs ! s = low else cs ! s = 1 \<or> cs ! s = - 2)"

definition m2_inv :: "nat \<Rightarrow> nat list \<Rightarrow> nat \<Rightarrow> int \<Rightarrow> nat \<Rightarrow> nat \<Rightarrow> m2_state \<Rightarrow> bool" where
  "m2_inv L freq tot low n k st \<longleftrightarrow> n \<le> length (m2_counts st)
     \<and> (\<forall>s < k. m2_kind freq (tot div 2 ^ L) low (m2_counts st) s)
     \<and> distributed st = card (assigned (m2_counts st) k)
     \<and> m2_total st + (\<Sum>s \<in> assigned (m2_counts st) k. freq ! s) = tot"

lemma finite_assigned [simp]: "finite (assigned cs k)"
  by (simp add: assigned_def)

lemma assigned_upd_Suc:
  assumes "k < length cs"
  shows "assigned (cs[k := x]) (Suc k) = (if x \<noteq> 0 \<and> x \<noteq> - 2 then insert k (assigned cs k) else assigned cs k)"
  using assms by (auto simp: assigned_def less_Suc_eq nth_list_update)

lemma assigned_upd:
  assumes "s < k" and "s < length cs" and "cs ! s = - 2" and "x \<noteq> 0" and "x \<noteq> - 2"
  shows "assigned (cs[s := x]) k = insert s (assigned cs k)"
  using assms by (auto simp: assigned_def nth_list_update)

lemma assigned_sum_le:
  assumes "hist_ok L freq tot n" and "A \<subseteq> {..<n}"
  shows "(\<Sum>s \<in> A. freq ! s) \<le> tot"
  using assms sum_mono2 [of "{..<n}" A "\<lambda>s. freq ! s"] by (simp add: hist_ok_def)

lemma assigned_subset: "assigned cs k \<subseteq> {..<k}"
  by (auto simp: assigned_def)

lemma m2_kind_upd: "s \<noteq> k \<Longrightarrow> m2_kind freq thr low (cs[k := x]) s = m2_kind freq thr low cs s"
  by (simp add: m2_kind_def)

text \<open>A symbol that had no share gets one.\<close>

lemma m2_assign_ok:
  assumes h: "hist_ok L freq tot n" and len: "n \<le> length (m2_counts st)"
    and s: "s < n" and A: "A \<subseteq> {..<n}" "s \<notin> A" "m2_total st + (\<Sum>s \<in> A. freq ! s) = tot" "distributed st = card A"
  obtains st' where "m2_assign freq s x st = Ok st'" and "m2_counts st' = (m2_counts st)[s := x]"
    and "m2_total st' + (\<Sum>s \<in> insert s A. freq ! s) = tot" and "distributed st' = card (insert s A)"
proof -
  have fin: "finite A" using A(1) finite_subset by blast
  have "(\<Sum>s \<in> insert s A. freq ! s) \<le> tot" using s A(1) by (intro assigned_sum_le [OF h]) auto
  then have v: "freq ! s + (\<Sum>s \<in> A. freq ! s) \<le> tot" using fin A(2) by simp
  then have le: "freq ! s \<le> m2_total st" using A(3) by simp
  have "s < length freq" "s < length (m2_counts st)" using h s len by (auto simp: hist_ok_def)
  then have "m2_assign freq s x st = Ok \<lparr>m2_counts = (m2_counts st)[s := x], distributed = distributed st + 1,
      m2_total = m2_total st - freq ! s\<rparr>"
    using le by (simp add: m2_assign_def idx_def upd_def sub_nat_def)
  then show thesis by (rule that) (use A v le fin in auto)
qed

lemma m2_symbol_ok:
  assumes h: "hist_ok L freq tot n" and low: "low = 1 \<or> low = -1"
    and I: "m2_inv L freq tot low n k st" and k: "k < n"
  shows "\<exists>st'. m2_symbol (tot div 2 ^ L) low_one freq low k st = Ok st' \<and> m2_inv L freq tot low n (Suc k) st'"
proof -
  let ?thr = "tot div 2 ^ L" and ?cs = "m2_counts st"
  have len: "k < length freq" "k < length ?cs" "n \<le> length ?cs" using h I k by (auto simp: hist_ok_def m2_inv_def)
  have kind: "m2_kind freq ?thr low (?cs[k := x]) s"
    if "s < Suc k" "s = k \<Longrightarrow> m2_kind freq ?thr low (?cs[k := x]) k" for x s
    using that I by (cases "s = k") (auto simp: m2_kind_upd m2_inv_def)
  have A: "assigned ?cs k \<subseteq> {..<n}" "k \<notin> assigned ?cs k" "m2_total st + (\<Sum>s \<in> assigned ?cs k. freq ! s) = tot"
    "distributed st = card (assigned ?cs k)"
    using I k assigned_subset [of ?cs k] by (auto simp: m2_inv_def assigned_def)
  have wait: "m2_inv L freq tot low n (Suc k) (st\<lparr>m2_counts := ?cs[k := x]\<rparr>)"
    if "x = 0 \<or> x = - 2" "m2_kind freq ?thr low (?cs[k := x]) k" for x
    using that kind I len by (auto simp: m2_inv_def assigned_upd_Suc)
  have give: "\<exists>st'. m2_assign freq k x st = Ok st' \<and> m2_inv L freq tot low n (Suc k) st'"
    if "x \<noteq> 0" "x \<noteq> - 2" "m2_kind freq ?thr low (?cs[k := x]) k" for x
  proof -
    from m2_assign_ok [OF h len(3) k A, of x] obtain st' where st': "m2_assign freq k x st = Ok st'"
      "m2_counts st' = ?cs[k := x]" "m2_total st' + (\<Sum>s \<in> insert k (assigned ?cs k). freq ! s) = tot"
      "distributed st' = card (insert k (assigned ?cs k))" .
    have e: "assigned (m2_counts st') (Suc k) = insert k (assigned ?cs k)"
      using that len by (simp add: st'(2) assigned_upd_Suc)
    have "m2_inv L freq tot low n (Suc k) st'"
      using st'(3,4) kind that(3) len e by (simp add: m2_inv_def st'(2))
    with st'(1) show ?thesis by blast
  qed
  consider "freq ! k = 0" | "0 < freq ! k" "freq ! k \<le> ?thr" | "?thr < freq ! k" "freq ! k \<le> low_one"
    | "?thr < freq ! k" "low_one < freq ! k" by linarith
  then show ?thesis
  proof cases
    case 1
    then show ?thesis using wait [of 0] len by (simp add: m2_symbol_def idx_def upd_def m2_kind_def)
  next
    case 2
    then show ?thesis using give [of low] low len by (auto simp: m2_symbol_def idx_def m2_kind_def)
  next
    case 3
    then show ?thesis using give [of 1] len by (simp add: m2_symbol_def idx_def m2_kind_def)
  next
    case 4
    then show ?thesis using wait [of "- 2"] len by (simp add: m2_symbol_def idx_def upd_def m2_kind_def)
  qed
qed

lemma m2_again_ok:
  assumes h: "hist_ok L freq tot n" and low: "low = 1 \<or> low = -1"
    and I: "m2_inv L freq tot low n n st" and k: "k < n"
  shows "\<exists>st'. m2_again low_one freq k st = Ok st' \<and> m2_inv L freq tot low n n st'"
proof -
  let ?thr = "tot div 2 ^ L" and ?cs = "m2_counts st"
  have len: "k < length freq" "k < length ?cs" "n \<le> length ?cs" using h I k by (auto simp: hist_ok_def m2_inv_def)
  show ?thesis
  proof (cases "?cs ! k = - 2 \<and> freq ! k \<le> low_one")
    case False
    then show ?thesis using I len by (auto simp: m2_again_def idx_def)
  next
    case True
    have A: "assigned ?cs n \<subseteq> {..<n}" "k \<notin> assigned ?cs n" "m2_total st + (\<Sum>s \<in> assigned ?cs n. freq ! s) = tot"
      "distributed st = card (assigned ?cs n)"
      using I True by (auto simp: m2_inv_def assigned_def)
    from m2_assign_ok [OF h len(3) k A, of 1] obtain st' where st': "m2_assign freq k 1 st = Ok st'"
      "m2_counts st' = ?cs[k := 1]" "m2_total st' + (\<Sum>s \<in> insert k (assigned ?cs n). freq ! s) = tot"
      "distributed st' = card (insert k (assigned ?cs n))" .
    have "assigned (m2_counts st') n = insert k (assigned ?cs n)"
      using True k len by (simp add: st'(2) assigned_upd)
    moreover have "m2_kind freq ?thr low (?cs[k := 1]) s" if "s < n" for s
    proof (cases "s = k")
      case True
      have "m2_kind freq ?thr low ?cs k" using I k by (simp add: m2_inv_def)
      then show ?thesis using True \<open>?cs ! k = - 2 \<and> _\<close> len low by (auto simp: m2_kind_def split: if_splits)
    next
      case False
      then show ?thesis using I that by (simp add: m2_kind_upd m2_inv_def)
    qed
    ultimately have "m2_inv L freq tot low n n st'" using st' len by (simp add: m2_inv_def)
    then show ?thesis using st'(1) True len by (simp add: m2_again_def idx_def)
  qed
qed

text \<open>What the second method knows after its passes.\<close>

lemma m2_kindD:
  assumes "m2_inv L freq tot low n n st" and "low = 1 \<or> low = -1" and "s < n"
  shows "m2_counts st ! s = 0 \<longleftrightarrow> freq ! s = 0" and "m2_counts st ! s \<in> {- 2, - 1, 0, 1}"
    and "0 < freq ! s \<longleftrightarrow> m2_counts st ! s \<noteq> 0"
proof -
  have "m2_kind freq (tot div 2 ^ L) low (m2_counts st) s" using assms(1,3) by (simp add: m2_inv_def)
  then show "m2_counts st ! s = 0 \<longleftrightarrow> freq ! s = 0" "m2_counts st ! s \<in> {- 2, - 1, 0, 1}"
    "0 < freq ! s \<longleftrightarrow> m2_counts st ! s \<noteq> 0"
    using assms(2) by (auto simp: m2_kind_def split: if_splits)
qed

lemma assigned_card_le:
  assumes "m2_inv L freq tot low n n st" and low: "low = 1 \<or> low = -1"
  shows "assigned (m2_counts st) n \<subseteq> occurring freq n"
  using m2_kindD(3) [OF assms] by (auto simp: assigned_def occurring_def)

lemma m2_waiting_total:
  assumes h: "hist_ok L freq tot n" and I: "m2_inv L freq tot low n n st" and low: "low = 1 \<or> low = -1"
  shows "m2_total st = (\<Sum>s \<in> {s. s < n \<and> m2_counts st ! s = - 2}. freq ! s)"
proof -
  let ?A = "assigned (m2_counts st) n" and ?W = "{s. s < n \<and> m2_counts st ! s = - 2}"
  have "occurring freq n = ?A \<union> ?W"
    using m2_kindD(3) [OF I low] by (auto simp: assigned_def occurring_def)
  moreover have "?A \<inter> ?W = {}" by (auto simp: assigned_def)
  ultimately have "(\<Sum>s \<in> occurring freq n. freq ! s) = (\<Sum>s \<in> ?A. freq ! s) + (\<Sum>s \<in> ?W. freq ! s)"
    by (simp add: sum.union_disjoint)
  then have "tot = (\<Sum>s \<in> ?A. freq ! s) + (\<Sum>s \<in> ?W. freq ! s)" using h sum_occurring [of freq n] by (simp add: hist_ok_def)
  then show ?thesis using I by (simp add: m2_inv_def)
qed

lemma absum_assigned:
  assumes I: "m2_inv L freq tot low n n st" and low: "low = 1 \<or> low = -1"
  shows "(\<Sum>s \<in> {s. s < n \<and> m2_counts st ! s \<noteq> - 2}. \<bar>m2_counts st ! s\<bar>) = int (distributed st)"
proof -
  let ?cs = "m2_counts st"
  have one: "\<bar>?cs ! s\<bar> = 1" if "s \<in> assigned ?cs n" for s
    using that m2_kindD(2) [OF I low, of s] by (auto simp: assigned_def)
  have "(\<Sum>s \<in> {s. s < n \<and> ?cs ! s \<noteq> - 2}. \<bar>?cs ! s\<bar>) = (\<Sum>s \<in> assigned ?cs n. \<bar>?cs ! s\<bar>)"
    by (rule sum.mono_neutral_right) (auto simp: assigned_def)
  also have "\<dots> = int (card (assigned ?cs n))" using one by simp
  finally show ?thesis using I by (simp add: m2_inv_def)
qed

lemma m2_kind_shares:
  assumes "m2_inv L freq tot low n n st" and "low = 1 \<or> low = -1" and "s < n" and "m2_counts st ! s \<noteq> - 2"
  shows "-1 \<le> m2_counts st ! s \<and> (m2_counts st ! s = 0 \<longleftrightarrow> freq ! s = 0)"
  using m2_kindD [OF assms(1-3)] assms(4) by auto

text \<open>The symbol with the largest count has a positive share, when all have one.\<close>

lemma m2_max_loop:
  assumes "n \<le> length freq"
  shows "\<exists>symbol v. loop_over (m2_max freq) [0..<n] (0, 0) = Ok (symbol, v) \<and> (\<forall>s < n. freq ! s \<le> v)
    \<and> (v = 0 \<or> symbol < n \<and> freq ! symbol = v)"
proof -
  let ?I = "\<lambda>k (symbol, v). (\<forall>s < k. freq ! s \<le> v) \<and> (v = 0 \<or> symbol < k \<and> freq ! symbol = v)"
  have "\<exists>st. loop_over (m2_max freq) [0..<n] (0, 0) = Ok st \<and> ?I n st"
  proof (rule loop_upt_Ok [where I = ?I])
    fix k st
    assume k: "k < n" and I: "?I k st"
    obtain symbol v where st: "st = (symbol, v)" by force
    have "m2_max freq k st = Ok (if v < freq ! k then (k, freq ! k) else st)" using k assms by (simp add: m2_max_def idx_def st)
    moreover have "?I (Suc k) (if v < freq ! k then (k, freq ! k) else st)"
    proof (cases "v < freq ! k")
      case True
      have "freq ! s \<le> freq ! k" if "s < k" for s
      proof -
        have "freq ! s \<le> v" using I that by (simp add: st)
        then show ?thesis using True by simp
      qed
      then show ?thesis using True by (simp add: less_Suc_eq)
    next
      case False
      then show ?thesis using I by (auto simp: st less_Suc_eq)
    qed
    ultimately show "\<exists>st'. m2_max freq k st = Ok st' \<and> ?I (Suc k) st'" by (intro exI conjI)
  qed simp
  then show ?thesis by auto
qed

text \<open>Dealing out: each round meets a positive share.\<close>

lemma m2_deal_ok:
  assumes "n \<le> length cs" and "p < n" and "0 < cs ! p" and "symbol < n" and "absum cs n + int d \<le> 512"
    and "d * n + (if symbol \<le> p then p - symbol else n + p - symbol) < fuel + n"
  shows "\<exists>cs'. m2_deal fuel n symbol d cs = Ok cs' \<and> length cs' = length cs \<and> absum cs' n = absum cs n + int d
    \<and> (\<forall>s < n. cs' ! s = cs ! s \<or> 0 < cs ! s \<and> cs ! s \<le> cs' ! s)"
  using assms
proof (induction fuel n symbol d cs rule: m2_deal.induct)
  case (1 fuel n symbol d cs)
  let ?dist = "if symbol \<le> p then p - symbol else n + p - symbol"
  let ?next = "(symbol + 1) mod n"
  show ?case
  proof (cases "d = 0")
    case True
    then show ?thesis by (subst m2_deal.simps) simp
  next
    case d: False
    have "n \<le> d * n" using d by simp
    then have "0 < fuel" using "1.prems"(6) by linarith
    then obtain f where f: "fuel = Suc f" by (auto simp: gr0_conv_Suc)
    have len: "symbol < length cs" using "1.prems"(1,4) by simp
    have nxt: "?next < n" using "1.prems"(4) by simp
    have dist: "(if ?next \<le> p then p - ?next else n + p - ?next) + 1 = (if symbol = p then n else ?dist)"
      using "1.prems"(2,4) by (cases "Suc symbol = n") auto
    show ?thesis
    proof (cases "0 < cs ! symbol")
      case True
      have b: "cs ! symbol + 1 \<le> 512" using absum_ge [OF "1.prems"(4), of cs] "1.prems"(5) d by simp
      then have add: "add_i16 (cs ! symbol) 1 = Ok (cs ! symbol + 1)" using True by (simp add: add_i16_def)
      let ?cs = "cs[symbol := cs ! symbol + 1]"
      have abs: "absum ?cs n = absum cs n + 1" using "1.prems"(4) len True by (simp add: absum_upd)
      have pos: "0 < ?cs ! p" using "1.prems"(3) len by (auto simp: nth_list_update)
      have dn: "(d - 1) * n + n = d * n" using d by (cases d) auto
      have fuel: "(d - 1) * n + (if ?next \<le> p then p - ?next else n + p - ?next) < f + n"
        using "1.prems"(6) dist dn f "1.prems"(2,4) by (simp split: if_splits)
      have "\<exists>cs'. m2_deal f n ?next (d - 1) ?cs = Ok cs' \<and> length cs' = length ?cs \<and> absum cs' n = absum ?cs n + int (d - 1)
        \<and> (\<forall>s < n. cs' ! s = ?cs ! s \<or> 0 < ?cs ! s \<and> ?cs ! s \<le> cs' ! s)"
        by (rule "1.IH"(1) [OF d f _ True add])
          (use "1.prems" len abs pos fuel nxt d in \<open>auto simp: idx_def upd_def\<close>)
      then obtain cs' where cs': "m2_deal f n ?next (d - 1) ?cs = Ok cs'" "length cs' = length cs"
        "absum cs' n = absum cs n + int d" "\<forall>s < n. cs' ! s = ?cs ! s \<or> 0 < ?cs ! s \<and> ?cs ! s \<le> cs' ! s"
        using abs d by auto
      have "cs' ! s = cs ! s \<or> 0 < cs ! s \<and> cs ! s \<le> cs' ! s" if "s < n" for s
        using cs'(4) that True len by (cases "s = symbol") (fastforce simp: nth_list_update)+
      moreover have "m2_deal fuel n symbol d cs = Ok cs'"
        using d f True add len cs'(1) by (subst m2_deal.simps) (simp add: idx_def upd_def)
      ultimately show ?thesis using cs'(2,3) by blast
    next
      case False
      then have ne: "symbol \<noteq> p" using "1.prems"(3) by auto
      have fuel: "d * n + (if ?next \<le> p then p - ?next else n + p - ?next) < f + n"
        using "1.prems"(6) dist f ne by (simp split: if_splits)
      have idx: "idx cs symbol = Ok (cs ! symbol)" using len by (simp add: idx_def)
      have "\<exists>cs'. m2_deal f n ?next d cs = Ok cs' \<and> length cs' = length cs \<and> absum cs' n = absum cs n + int d
        \<and> (\<forall>s < n. cs' ! s = cs ! s \<or> 0 < cs ! s \<and> cs ! s \<le> cs' ! s)"
        by (rule "1.IH"(2) [OF d f idx False]) (use "1.prems" nxt fuel in auto)
      moreover have "m2_deal fuel n symbol d cs = m2_deal f n ?next d cs"
        using d f False len by (subst m2_deal.simps) (simp add: idx_def)
      ultimately show ?thesis by simp
    qed
  qed
qed

text \<open>The last loop: the shares of those that wait are the steps of a running total.\<close>

definition waiting :: "int list \<Rightarrow> nat \<Rightarrow> nat set" where
  "waiting cs k = {s. s < k \<and> cs ! s = - 2}"

definition weight_inv :: "nat list \<Rightarrow> nat \<Rightarrow> nat \<Rightarrow> int list \<Rightarrow> nat \<Rightarrow> nat \<Rightarrow> int list \<times> nat \<Rightarrow> bool" where
  "weight_inv freq v r cs0 n k st \<longleftrightarrow> (case st of (cs, tmp) \<Rightarrow>
     length cs = length cs0 \<and> tmp = 2 ^ (v - 1) - 1 + r * (\<Sum>s \<in> waiting cs0 k. freq ! s)
     \<and> (\<forall>s < k. if cs0 ! s = - 2 then 1 \<le> cs ! s else cs ! s = cs0 ! s) \<and> (\<forall>s. k \<le> s \<longrightarrow> cs ! s = cs0 ! s)
     \<and> absum cs k = (\<Sum>s \<in> {s. s < k \<and> cs0 ! s \<noteq> - 2}. \<bar>cs0 ! s\<bar>) + int (tmp div 2 ^ v))"

lemma waiting_Suc: "waiting cs (Suc k) = (if cs ! k = - 2 then insert k (waiting cs k) else waiting cs k)"
  by (auto simp: waiting_def less_Suc_eq)

lemma other_Suc: "{s. s < Suc k \<and> cs ! s \<noteq> - 2} =
    (if cs ! k \<noteq> - 2 then insert k {s. s < k \<and> cs ! s \<noteq> - 2} else {s. s < k \<and> cs ! s \<noteq> (- 2 :: int)})"
  by (auto simp: less_Suc_eq)

lemma finite_waiting [simp]: "finite (waiting cs k)"
  by (simp add: waiting_def)

lemma m2_weight_step:
  assumes len: "n \<le> length freq" "n \<le> length cs0" and k: "k < n" and I: "weight_inv freq v r cs0 n k st"
    and v: "53 \<le> v" "v \<le> 57" and bound: "2 ^ (v - 1) - 1 + r * (\<Sum>s \<in> waiting cs0 n. freq ! s) < 2 ^ 63"
  shows "meets (m2_weight freq v r k st) (weight_inv freq v r cs0 n (Suc k))"
proof -
  obtain cs tmp where st: "st = (cs, tmp)" by force
  note I = I [unfolded weight_inv_def st prod.case]
  have l: "k < length freq" "k < length cs" using len k I by auto
  have ck: "cs ! k = cs0 ! k" using I by auto
  show ?thesis
  proof (cases "cs0 ! k = - 2")
    case False
    then have "m2_weight freq v r k st = Ok st" using l ck by (simp add: m2_weight_def st idx_def)
    moreover have "weight_inv freq v r cs0 n (Suc k) st"
    proof -
      have "absum cs (Suc k) = (\<Sum>s \<in> {s. s < Suc k \<and> cs0 ! s \<noteq> - 2}. \<bar>cs0 ! s\<bar>) + int (tmp div 2 ^ v)"
        using I False ck by (simp add: other_Suc)
      moreover have "if cs0 ! s = - 2 then 1 \<le> cs ! s else cs ! s = cs0 ! s" if "s < Suc k" for s
        using that I False ck by (cases "s = k") auto
      ultimately show ?thesis
        unfolding weight_inv_def st prod.case using I False by (auto simp: waiting_Suc)
    qed
    ultimately show ?thesis by simp
  next
    case True
    let ?e = "tmp + freq ! k * r"
    have sub: "insert k (waiting cs0 k) \<subseteq> waiting cs0 n" using True k by (auto simp: waiting_def)
    have k0: "k \<notin> waiting cs0 k" by (simp add: waiting_def)
    have e: "?e = 2 ^ (v - 1) - 1 + r * (\<Sum>s \<in> insert k (waiting cs0 k). freq ! s)"
      using I k0 by (simp add: algebra_simps)
    have "(\<Sum>s \<in> insert k (waiting cs0 k). freq ! s) \<le> (\<Sum>s \<in> waiting cs0 n. freq ! s)"
      using sub by (intro sum_mono2) simp_all
    then have "?e \<le> 2 ^ (v - 1) - 1 + r * (\<Sum>s \<in> waiting cs0 n. freq ! s)" unfolding e by (intro add_left_mono mult_le_mono2)
    then have e63: "?e < 2 ^ 63" using bound by (rule le_less_trans)
    have "(2 :: nat) ^ 63 \<le> 2 ^ 10 * 2 ^ v" using v(1) power_increasing [of 53 v "2 :: nat"] by simp
    then have "?e < 2 ^ 10 * 2 ^ v" using e63 by (rule less_le_trans [rotated])
    then have d: "?e div 2 ^ v < 2 ^ 10" by (rule less_mult_imp_div_less)
    have mono: "tmp div 2 ^ v \<le> ?e div 2 ^ v" by (intro div_le_mono) simp
    have c: "cast_u32 (?e div 2 ^ v) = ?e div 2 ^ v" "cast_u32 (tmp div 2 ^ v) = tmp div 2 ^ v"
      using d mono by (auto intro!: cast_u32_small)
    have mul: "mul_u64 (freq ! k) r = Ok (freq ! k * r)" "\<not> \<not> ?e < 2 ^ 64"
    proof -
      have "?e < 2 ^ 64" using e63 by (rule less_trans) simp
      then show "\<not> \<not> ?e < 2 ^ 64" by simp
      have "freq ! k * r \<le> ?e" by simp
      then have "freq ! k * r < 2 ^ 64" using \<open>?e < 2 ^ 64\<close> by (rule le_less_trans)
      then show "mul_u64 (freq ! k) r = Ok (freq ! k * r)" unfolding mul_u64_def by (rule if_P)
    qed
    let ?w = "?e div 2 ^ v - tmp div 2 ^ v"
    have w: "as_i16 (int ?w) = int ?w" using d by (intro as_i16_small) auto
    have run: "m2_weight freq v r k st = (if ?w < 1 then Err Generic else Ok (cs[k := int ?w], ?e))"
      unfolding m2_weight_def st prod.case idx_def if_P [OF l(1)] if_P [OF l(2)] and_then.simps ck mul(1) Let_def
        if_not_P [OF mul(2)] c sub_nat_def if_P [OF mono] w upd_def using True by simp
    have "weight_inv freq v r cs0 n (Suc k) (cs[k := int ?w], ?e)" if "1 \<le> ?w"
    proof -
      have "absum (cs[k := int ?w]) (Suc k) = absum cs k + int ?w" using l by (simp add: absum_upd_ge)
      also have "\<dots> = (\<Sum>s \<in> {s. s < Suc k \<and> cs0 ! s \<noteq> - 2}. \<bar>cs0 ! s\<bar>) + int (?e div 2 ^ v)"
        using I True mono by (simp add: other_Suc)
      finally have A: "absum (cs[k := int ?w]) (Suc k) = (\<Sum>s \<in> {s. s < Suc k \<and> cs0 ! s \<noteq> - 2}. \<bar>cs0 ! s\<bar>) + int (?e div 2 ^ v)" .
      have B: "if cs0 ! s = - 2 then 1 \<le> cs[k := int ?w] ! s else cs[k := int ?w] ! s = cs0 ! s" if "s < Suc k" for s
      proof (cases "s = k")
        case True
        then show ?thesis using \<open>1 \<le> ?w\<close> \<open>cs0 ! k = - 2\<close> l by simp
      next
        case False
        then show ?thesis using I that by simp
      qed
      have C: "cs[k := int ?w] ! s = cs0 ! s" if "Suc k \<le> s" for s using I that by simp
      show ?thesis
        unfolding weight_inv_def prod.case waiting_Suc if_P [OF True]
      proof (intro conjI allI impI)
        show "length (cs[k := int ?w]) = length cs0" using I by simp
      qed (use e A B C in blast)+
    qed
    then show ?thesis unfolding run by simp
  qed
qed

lemma running_total_ends:
  assumes "0 < T" and "T < 2 ^ v" and "1 \<le> v"
  shows "(2 ^ (v - 1) - 1 + (2 ^ v * td + (2 ^ (v - 1) - 1)) div T * T) div 2 ^ v = (td :: nat)"
proof -
  let ?m = "2 ^ (v - 1) - 1 :: nat" and ?X = "2 ^ v * td + (2 ^ (v - 1) - 1) :: nat"
  have p: "2 * (2 :: nat) ^ (v - 1) = 2 ^ v" using assms(3) by (cases v) simp_all
  have pos: "1 \<le> (2 :: nat) ^ (v - 1)" by simp
  have up: "?X div T * T \<le> ?X" by simp
  have lo: "?X < ?X div T * T + T" using assms(1) by (metis add.commute dividend_less_times_div mult.commute)
  have a: "?m + ?X div T * T < 2 ^ v * td + 2 ^ v" using up p pos by linarith
  have b: "2 ^ v * td \<le> ?m + ?X div T * T" using lo p pos assms(2) by linarith
  show ?thesis
    by (rule div_nat_eqI) (use a b in \<open>simp_all add: mult.commute\<close>)
qed

lemma m2_weights_ok:
  assumes h: "hist_ok L freq tot n" and I: "m2_inv L freq tot low n n st" and low: "low = 1 \<or> low = -1"
    and td: "distributed st + td = 2 ^ L" and pos: "m2_total st \<noteq> 0"
  shows "meets (loop_over (m2_weight freq (62 - L) ((2 ^ (62 - L) * td + (2 ^ (62 - L - 1) - 1)) div m2_total st)) [0..<n]
      (m2_counts st, 2 ^ (62 - L - 1) - 1)) (\<lambda>(cs, _). shares_ok L freq n cs)"
proof -
  define v T r where "v = 62 - L" and "T = m2_total st" and "r = (2 ^ v * td + (2 ^ (v - 1) - 1)) div T"
  let ?cs = "m2_counts st"
  have L: "5 \<le> L" "L \<le> 9" "tot < 2 ^ 32" using h by (auto simp: hist_ok_def total_ok_def)
  have v: "53 \<le> v" "v \<le> 57" "1 \<le> v" using L by (auto simp: v_def)
  have len: "n \<le> length freq" "n \<le> length ?cs" using h I by (auto simp: hist_ok_def m2_inv_def)
  have T: "T = (\<Sum>s \<in> waiting ?cs n. freq ! s)" using m2_waiting_total [OF h I low] by (simp add: waiting_def T_def)
  have "T \<le> tot" using I by (auto simp: m2_inv_def T_def)
  then have "T < 2 ^ 32" using L(3) by simp
  moreover have "(2 :: nat) ^ 32 \<le> 2 ^ v" using v(1) by (intro power_increasing) simp_all
  ultimately have Tv: "T < 2 ^ v" by (rule less_le_trans)
  have bound: "2 ^ (v - 1) - 1 + r * (\<Sum>s \<in> waiting ?cs n. freq ! s) < 2 ^ 63"
  proof -
    have "(2 ^ (v - 1) - 1 + r * T) div 2 ^ v = td"
      unfolding r_def by (rule running_total_ends) (use pos Tv v in \<open>simp_all add: T_def\<close>)
    then have "2 ^ (v - 1) - 1 + r * T < Suc td * 2 ^ v"
      by (metis dividend_less_div_times mult_Suc zero_less_numeral zero_less_power add.commute)
    also have "\<dots> \<le> Suc (2 ^ L) * 2 ^ v" using td by (intro mult_le_mono) simp_all
    also have "\<dots> = 2 ^ v + 2 ^ (L + v)" by (simp add: power_add)
    also have "\<dots> < 2 ^ 63"
    proof -
      have "(2 :: nat) ^ v < 2 ^ 62" by (rule power_strict_increasing) (use v(2) in simp_all)
      moreover have "L + v = 62" using L by (simp add: v_def)
      ultimately show ?thesis by simp
    qed
    finally show ?thesis by (simp only: T [symmetric])
  qed
  have start: "weight_inv freq v r ?cs n 0 (?cs, 2 ^ (v - 1) - 1)"
  proof -
    have "(2 :: nat) ^ (v - 1) \<le> 2 ^ v" by (rule power_increasing) simp_all
    moreover have "0 < (2 :: nat) ^ (v - 1)" by simp
    ultimately have "(2 :: nat) ^ (v - 1) - 1 < 2 ^ v" by linarith
    then show ?thesis by (simp add: weight_inv_def waiting_def)
  qed
  have "meets (loop_over (m2_weight freq v r) [0..<n] (?cs, 2 ^ (v - 1) - 1)) (weight_inv freq v r ?cs n n)"
    by (rule loop_upt_meets [where I = "weight_inv freq v r ?cs n"])
      (use m2_weight_step [OF len _ _ v(1,2) bound] start in auto)
  then have "meets (loop_over (m2_weight freq v r) [0..<n] (?cs, 2 ^ (v - 1) - 1)) (\<lambda>(cs, _). shares_ok L freq n cs)"
  proof (rule meets_mono)
    fix x
    assume x: "weight_inv freq v r ?cs n n x"
    obtain cs tmp where xs: "x = (cs, tmp)" by force
    note x = x [unfolded weight_inv_def xs prod.case]
    have "tmp div 2 ^ v = td"
    proof -
      have "tmp = 2 ^ (v - 1) - 1 + r * T" using x T by simp
      then show ?thesis unfolding r_def by (simp only:) (rule running_total_ends, use pos Tv v in \<open>simp_all add: T_def\<close>)
    qed
    then have "absum cs n = int (distributed st) + int td" using x absum_assigned [OF I low] by simp
    also have "\<dots> = int (distributed st + td)" by simp
    also have "\<dots> = 2 ^ L" unfolding td by simp
    finally have "absum cs n = 2 ^ L" .
    moreover have "-1 \<le> cs ! s \<and> (cs ! s = 0 \<longleftrightarrow> freq ! s = 0)" if "s < n" for s
    proof (cases "?cs ! s = - 2")
      case True
      then have "1 \<le> cs ! s" "freq ! s \<noteq> 0" using x that m2_kindD(1) [OF I low that] by auto
      then show ?thesis by simp
    next
      case False
      then have "cs ! s = ?cs ! s" using x that by auto
      then show ?thesis using m2_kind_shares [OF I low that False] by simp
    qed
    ultimately show "case x of (cs, _) \<Rightarrow> shares_ok L freq n cs" using x len by (simp add: xs shares_ok_def)
  qed
  then show ?thesis by (simp only: v_def T_def r_def)
qed

lemma m2_passes:
  assumes h: "hist_ok L freq tot n" and low: "low = 1 \<or> low = -1" and len: "n \<le> length cs"
  obtains st td where "m2_inv L freq tot low n n st" and "distributed st + td = 2 ^ L" and "0 < td"
    and "\<And>g. and_then (loop_over (m2_symbol (tot div 2 ^ L) low_one freq low) [0..<n]
              \<lparr>m2_counts = cs, distributed = 0, m2_total = tot\<rparr>) (\<lambda>st.
          and_then (sub_nat (2 ^ L) (distributed st)) (\<lambda>td.
          if td = 0 then Ok (m2_counts st) else
          and_then (if low_one < cast_u32 (m2_total st div td)
                    then and_then (loop_over (m2_again (cast_u32 (m2_total st * 3 div (td * 2))) freq) [0..<n] st) (\<lambda>st.
                         and_then (sub_nat (2 ^ L) (distributed st)) (\<lambda>td. Ok (st, td)))
                    else Ok (st, td)) g)) = g (st, td)"
proof -
  have few: "distributed st < 2 ^ L" if "m2_inv L freq tot low n n st" for st
  proof -
    have "distributed st \<le> card (occurring freq n)"
      using that assigned_card_le [OF that low] by (simp add: m2_inv_def card_mono)
    then show ?thesis using h by (simp add: hist_ok_def)
  qed
  have sub: "sub_nat (2 ^ L) (distributed st) = Ok (2 ^ L - distributed st)" if "m2_inv L freq tot low n n st" for st
    using few [OF that] by (simp add: sub_nat_def)
  have "m2_inv L freq tot low n 0 \<lparr>m2_counts = cs, distributed = 0, m2_total = tot\<rparr>"
    using len by (simp add: m2_inv_def assigned_def)
  with loop_upt_Ok [where I = "m2_inv L freq tot low n" and n = n and f = "m2_symbol (tot div 2 ^ L) low_one freq low"]
  obtain st1 where st1: "loop_over (m2_symbol (tot div 2 ^ L) low_one freq low) [0..<n]
      \<lparr>m2_counts = cs, distributed = 0, m2_total = tot\<rparr> = Ok st1" "m2_inv L freq tot low n n st1"
    using m2_symbol_ok [OF h low] by blast
  let ?td = "2 ^ L - distributed st1"
  have td: "?td \<noteq> 0" using few [OF st1(2)] by simp
  note first = st1(1) and_then.simps sub [OF st1(2)] if_not_P [OF td]
  show thesis
  proof (cases "low_one < cast_u32 (m2_total st1 div ?td)")
    case False
    have "distributed st1 + ?td = 2 ^ L" "0 < ?td" using few [OF st1(2)] by simp_all
    then show thesis by (rule that [OF st1(2)]) (simp only: first if_not_P [OF False])
  next
    case True
    let ?lo = "cast_u32 (m2_total st1 * 3 div (?td * 2))"
    obtain st2 where st2: "loop_over (m2_again ?lo freq) [0..<n] st1 = Ok st2" "m2_inv L freq tot low n n st2"
      using loop_upt_Ok [where I = "\<lambda>_. m2_inv L freq tot low n n" and n = n and f = "m2_again ?lo freq"]
        m2_again_ok [OF h low] st1(2) by blast
    have "distributed st2 + (2 ^ L - distributed st2) = 2 ^ L" "0 < 2 ^ L - distributed st2"
      using few [OF st2(2)] by simp_all
    then show thesis by (rule that [OF st2(2)]) (simp only: first if_P [OF True] st2(1) sub [OF st2(2)])
  qed
qed

lemma m2_ok:
  assumes h: "hist_ok L freq tot (Suc msi)" and low: "low = 1 \<or> low = -1" and len: "Suc msi \<le> length cs"
  shows "meets (normalize_count_m2 cs L freq tot msi low) (shares_ok L freq (Suc msi))"
proof -
  let ?n = "Suc msi" and ?lo = "cast_u32 (tot * 3 div 2 ^ (L + 1))"
  have t: "total_ok L tot" and L: "L \<le> 9" using h by (auto simp: hist_ok_def total_ok_def)
  have "tot * 3 \<le> usize_max" using t by (simp add: total_ok_def usize_max_def)
  then have big: "\<not> \<not> tot * 3 \<le> usize_max" by simp
  have L512: "(2 :: nat) ^ L \<le> 512" using power_increasing [OF L, of "2 :: nat"] by simp
  obtain st td where I: "m2_inv L freq tot low ?n ?n st" and td: "distributed st + td = 2 ^ L" "0 < td"
    and run: "\<And>g. and_then (loop_over (m2_symbol (tot div 2 ^ L) ?lo freq low) [0..<?n]
              \<lparr>m2_counts = cs, distributed = 0, m2_total = tot\<rparr>) (\<lambda>st.
          and_then (sub_nat (2 ^ L) (distributed st)) (\<lambda>td.
          if td = 0 then Ok (m2_counts st) else
          and_then (if ?lo < cast_u32 (m2_total st div td)
                    then and_then (loop_over (m2_again (cast_u32 (m2_total st * 3 div (td * 2))) freq) [0..<?n] st) (\<lambda>st.
                         and_then (sub_nat (2 ^ L) (distributed st)) (\<lambda>td. Ok (st, td)))
                    else Ok (st, td)) g)) = g (st, td)"
    by (rule m2_passes [OF h low len]) (rule that)
  let ?cs = "m2_counts st"
  have lenc: "?n \<le> length ?cs" "?n \<le> length freq" using I h by (auto simp: m2_inv_def hist_ok_def)
  have td512: "td \<le> 512" "int td \<le> 512" "int (distributed st) + int td = 2 ^ L"
  proof -
    show "td \<le> 512" using td L512 by linarith
    then show "int td \<le> 512" by simp
    have "int (distributed st + td) = 2 ^ L" unfolding td(1) by simp
    then show "int (distributed st) + int td = 2 ^ L" by simp
  qed
  have whole: "normalize_count_m2 cs L freq tot msi low =
      (if distributed st = msi + 1 then
         and_then (loop_over (m2_max freq) [0..<?n] (0, 0)) (\<lambda>(symbol, _).
         and_then (idx ?cs symbol) (\<lambda>c. and_then (add_i16 c (as_i16 (int td))) (upd ?cs symbol)))
       else if m2_total st = 0 then m2_deal (td * ?n) ?n 0 td ?cs
       else and_then (loop_over (m2_weight freq (62 - L) ((2 ^ (62 - L) * td + (2 ^ (62 - L - 1) - 1)) div m2_total st)) [0..<?n]
              (?cs, 2 ^ (62 - L - 1) - 1)) (\<lambda>(cs, _). Ok cs))"
    unfolding normalize_count_m2_def if_not_P [OF big] Let_def low_threshold [OF t] Suc_eq_plus1 [symmetric, of msi] run prod.case ..
  have no_wait: "absum ?cs ?n = int (distributed st)" if "\<And>s. s < ?n \<Longrightarrow> ?cs ! s \<noteq> - 2"
  proof -
    have "{s. s < ?n \<and> ?cs ! s \<noteq> - 2} = {..<?n}" using that by auto
    then show ?thesis using absum_assigned [OF I low] by (simp add: absum_def)
  qed
  obtain p where p: "p < ?n" "tot div 2 ^ L < freq ! p" using some_above [OF h] by blast
  have kind: "?cs ! s = 1" if "s < ?n" "tot div 2 ^ L < freq ! s" "?cs ! s \<noteq> - 2" for s
    using I that by (fastforce simp: m2_inv_def m2_kind_def)
  consider "distributed st = ?n" | "distributed st \<noteq> ?n" "m2_total st = 0" | "distributed st \<noteq> ?n" "m2_total st \<noteq> 0" by blast
  then show ?thesis
  proof cases
    case 1
    have "assigned ?cs ?n = {..<?n}"
      using I 1 assigned_subset [of ?cs ?n] by (intro card_subset_eq) (simp_all add: m2_inv_def)
    then have nw: "?cs ! s \<noteq> - 2" if "s < ?n" for s using that by (auto simp: assigned_def)
    from m2_max_loop [OF lenc(2)] obtain symbol v where mx: "loop_over (m2_max freq) [0..<?n] (0, 0) = Ok (symbol, v)"
      "\<forall>s < ?n. freq ! s \<le> v" "v = 0 \<or> symbol < ?n \<and> freq ! symbol = v" by blast
    have "tot div 2 ^ L < v" using mx(2) p by (meson le_trans not_le)
    then have s: "symbol < ?n" "tot div 2 ^ L < freq ! symbol" using mx(3) by auto
    have c1: "?cs ! symbol = 1" by (rule kind [OF s nw [OF s(1)]])
    have ls: "symbol < length ?cs" using s(1) lenc(1) by simp
    have "as_i16 (int td) = int td" using td512 by (intro as_i16_small) simp_all
    then have "normalize_count_m2 cs L freq tot msi low = Ok (?cs[symbol := 1 + int td])"
      unfolding whole using 1 mx(1) c1 ls td512(2) by (simp add: idx_def add_i16_def upd_def del: upt_Suc)
    moreover have "shares_ok L freq ?n (?cs[symbol := 1 + int td])"
    proof -
      have "absum (?cs[symbol := 1 + int td]) ?n = 2 ^ L"
        using s(1) ls c1 no_wait [OF nw] td512(3) by (simp add: absum_upd del: absum_Suc)
      moreover have "-1 \<le> ?cs[symbol := 1 + int td] ! s \<and> (?cs[symbol := 1 + int td] ! s = 0 \<longleftrightarrow> freq ! s = 0)" if "s < ?n" for s
        using m2_kind_shares [OF I low that nw [OF that]] ls c1 m2_kindD(1) [OF I low s(1)]
        by (cases "s = symbol") simp_all
      ultimately show ?thesis using lenc by (simp add: shares_ok_def)
    qed
    ultimately show ?thesis by simp
  next
    case 2
    have nw: "?cs ! s \<noteq> - 2" if "s < ?n" for s
    proof
      assume "?cs ! s = - 2"
      then have "s \<in> {s. s < ?n \<and> ?cs ! s = - 2}" "freq ! s \<noteq> 0" using that m2_kindD(1) [OF I low that] by auto
      moreover have "(\<Sum>s \<in> {s. s < ?n \<and> ?cs ! s = - 2}. freq ! s) = 0" using m2_waiting_total [OF h I low] 2(2) by simp
      ultimately show False by (simp add: sum_eq_0_iff)
    qed
    have cp: "0 < ?cs ! p" using kind [OF p nw [OF p(1)]] by simp
    have abs: "absum ?cs ?n + int td \<le> 512"
    proof -
      have "int (2 ^ L) \<le> 512" using L512 by (metis of_nat_le_iff of_nat_numeral)
      then show ?thesis using no_wait [OF nw] td512(3) by simp
    qed
    have "td * ?n + (if 0 \<le> p then p - 0 else ?n + p - 0) < td * ?n + ?n" using p(1) by simp
    from m2_deal_ok [OF lenc(1) p(1) cp _ abs this] obtain cs' where cs': "m2_deal (td * ?n) ?n 0 td ?cs = Ok cs'"
      "length cs' = length ?cs" "absum cs' ?n = absum ?cs ?n + int td"
      "\<forall>s < ?n. cs' ! s = ?cs ! s \<or> 0 < ?cs ! s \<and> ?cs ! s \<le> cs' ! s" by blast
    have "normalize_count_m2 cs L freq tot msi low = Ok cs'" unfolding whole using 2 cs'(1) by simp
    moreover have "shares_ok L freq ?n cs'"
    proof -
      have "absum cs' ?n = 2 ^ L" using cs'(3) no_wait [OF nw] td512(3) by simp
      moreover have "-1 \<le> cs' ! s \<and> (cs' ! s = 0 \<longleftrightarrow> freq ! s = 0)" if "s < ?n" for s
        using m2_kind_shares [OF I low that nw [OF that]] cs'(4) that by fastforce
      ultimately show ?thesis using lenc cs'(2) by (simp add: shares_ok_def)
    qed
    ultimately show ?thesis by simp
  next
    case 3
    have ne: "\<not> distributed st = msi + 1" using 3(1) by simp
    have fst: "meets (and_then m (\<lambda>(cs, _). Ok cs)) P" if "meets m (\<lambda>(cs, _). P cs)" for m :: "(int list \<times> nat) result" and P
      using that by (cases m) auto
    from m2_weights_ok [OF h I low td(1) 3(2)] show ?thesis
      unfolding whole if_not_P [OF ne] if_not_P [OF 3(2)] by (rule fst)
  qed
qed

subsection \<open>Normalization\<close>

lemma log2_max: "n < 2 ^ (log2 n + 1)"
  using log2_less_iff [of n "log2 n + 1"] by (cases "n = 0") simp_all

text \<open>A table log that is not refused has more slots than there are symbols.\<close>

lemma min_log_enough:
  assumes m: "min_table_log tot msi = Ok m" "m \<le> L" and t: "total_ok L tot" and len: "Suc msi \<le> length freq"
    and sum: "(\<Sum>s < Suc msi. freq ! s) = tot"
  shows "card (occurring freq (Suc msi)) < 2 ^ L"
proof -
  let ?D = "occurring freq (Suc msi)"
  have tot: "2 \<le> tot" "tot < 2 ^ 32" using t by (auto simp: total_ok_def)
  have c: "cast_u32 (max tot 2) = tot" using tot by (simp add: cast_u32_small max_def)
  have "card ?D \<le> (\<Sum>s \<in> ?D. freq ! s)"
    using sum_mono [of ?D "\<lambda>_. 1" "\<lambda>s. freq ! s"] by (auto simp: occurring_def)
  then have "card ?D \<le> tot" using sum sum_occurring [of freq "Suc msi"] by simp
  also have "\<dots> < 2 ^ (log2 tot + 1)" by (rule log2_max)
  finally have 1: "card ?D < 2 ^ (log2 tot + 1)" .
  have "card ?D \<le> card {..<Suc msi}" by (rule card_mono) (auto simp: occurring_def)
  then have D: "card ?D \<le> Suc msi" by simp
  have hb: "highbit32 tot = Ok (log2 tot)" using tot by (simp add: highbit32_def)
  then have hb': "highbit32 (cast_u32 (max tot 2)) = Ok (log2 tot)" by (simp only: c)
  show ?thesis
  proof (cases "msi = 0")
    case True
    have "m \<le> L" "1 \<le> m" using m by (auto simp: min_table_log_def c hb True Let_def)
    then have "(2 :: nat) ^ 1 \<le> 2 ^ L" by (intro power_increasing) simp_all
    then show ?thesis using D True by simp
  next
    case False
    then have "m = min (log2 tot + 1) (log2 msi + 2)" using m(1)
    proof -
      have "highbit32 msi = Ok (log2 msi)" using False by (simp add: highbit32_def)
      with False show "m = min (log2 tot + 1) (log2 msi + 2)" using m(1) by (simp add: min_table_log_def hb' Let_def)
    qed
    moreover have "Suc msi < 2 ^ (log2 msi + 2)" using log2_max [of msi] False by simp
    ultimately have "card ?D < 2 ^ m" using 1 D by (simp add: min_def)
    also have "(2 :: nat) ^ m \<le> 2 ^ L" using m(2) by (intro power_increasing) simp_all
    finally show ?thesis .
  qed
qed

lemma shares_valid:
  assumes "shares_ok L freq (Suc msi) cs" and "5 \<le> L" and "L \<le> 9" and "msi \<le> 255"
  shows "counts_valid L cs (Suc msi)"
proof -
  have "int (total_count cs (Suc msi)) = 2 ^ L" using assms(1) by (simp add: shares_ok_def flip: absum_total)
  then have "int (total_count cs (Suc msi)) = int (2 ^ L)" by simp
  then have "total_count cs (Suc msi) = 2 ^ L" by (simp only: of_nat_eq_iff)
  then show ?thesis using assms by (simp add: counts_valid_def shares_ok_def total_count_def del: upt_Suc)
qed

lemma normalize_count_meets:
  assumes sum: "(\<Sum>s < Suc msi. freq ! s) = tot" and tot: "tot < 2 ^ 32"
  shows "meets (normalize_count counts L freq tot msi use_low_prob) (\<lambda>(cs, log).
    log = 0 \<and> (\<exists>s \<le> msi. freq ! s = tot) \<or> log = L \<and> L \<noteq> 0 \<and> counts_valid L cs (Suc msi)
    \<and> (\<forall>s \<le> msi. cs ! s = 0 \<longleftrightarrow> freq ! s = 0) \<and> (\<forall>s \<le> msi. freq ! s \<noteq> tot))"
proof (cases "SYMBOLVALUE_MAX < msi \<or> length counts \<le> msi \<or> length freq \<le> msi \<or> tot < 2
    \<or> \<not> (MIN_TABLELOG \<le> L \<and> L \<le> TABLELOG_MAX)")
  case True
  then show ?thesis by (auto simp: normalize_count_def)
next
  case False
  then have msi: "msi \<le> 255" "Suc msi \<le> length counts" "Suc msi \<le> length freq" and t: "total_ok L tot"
    using tot by (auto simp: SYMBOLVALUE_MAX_def MIN_TABLELOG_def TABLELOG_MAX_def total_ok_def)
  have L: "5 \<le> L" "L \<le> 9" using t by (auto simp: total_ok_def)
  have "cast_u32 (max tot 2) \<noteq> 0" using t by (simp add: total_ok_def cast_u32_small max_def)
  then have "\<exists>m. min_table_log tot msi = Ok m" by (cases "msi = 0") (simp_all add: min_table_log_def highbit32_def Let_def)
  then obtain m where m: "min_table_log tot msi = Ok m" by blast
  define low where "low = (if use_low_prob then - 1 else 1 :: int)"
  have low: "low = 1 \<or> low = - 1" by (simp add: low_def)
  let ?st = "\<lparr>norm_counts = counts, still_left = 2 ^ L, norm_largest = 0, largest_p = 0\<rparr>"
  let ?rest = "\<lambda>(only, st). if only then Ok (norm_counts st, 0) else
      and_then (idx (norm_counts st) (norm_largest st)) (\<lambda>c.
      and_then (if c div 2 \<le> - still_left st
                then normalize_count_m2 (norm_counts st) L freq tot msi low
                else and_then (add_i16 c (as_i16 (still_left st))) (upd (norm_counts st) (norm_largest st))) (\<lambda>cs.
        Ok (cs, L)))"
  have run: "normalize_count counts L freq tot msi use_low_prob =
      (if L < m then Err Generic else and_then (norm_pass L freq tot low [0..<Suc msi] ?st) ?rest)"
  proof -
    have c: "\<not> (SYMBOLVALUE_MAX < msi \<or> length counts \<le> msi \<or> length freq \<le> msi)" "\<not> tot < 2"
      "\<not> \<not> (MIN_TABLELOG \<le> L \<and> L \<le> TABLELOG_MAX)" using False by auto
    show ?thesis
      unfolding normalize_count_def Let_def if_not_P [OF c(1)] if_not_P [OF c(2)] if_not_P [OF c(3)] m and_then.simps
        low_def [symmetric] Suc_eq_plus1 [symmetric, of msi] ..
  qed
  show ?thesis
  proof (cases "L < m")
    case True
    then show ?thesis by (simp add: run)
  next
    case enough: False
    then have "card (occurring freq (Suc msi)) < 2 ^ L" using min_log_enough [OF m _ t msi(3) sum] by simp
    then have h: "hist_ok L freq tot (Suc msi)" using t msi sum by (simp add: hist_ok_def)
    have "pass_inv L freq tot low (Suc msi) 0 ?st" using msi by (simp add: pass_inv_def)
    from norm_pass_ok [OF h low this] obtain only st where
      p: "norm_pass L freq tot low [0..<Suc msi] ?st = Ok (only, st)"
      "if only then \<exists>s < Suc msi. freq ! s = tot else pass_inv L freq tot low (Suc msi) (Suc msi) st" by blast
    show ?thesis
    proof (cases only)
      case True
      then show ?thesis using p(2) unfolding run if_not_P [OF enough] p(1) by (auto simp: less_Suc_eq_le)
    next
      case False
      then have I: "pass_inv L freq tot low (Suc msi) (Suc msi) st" using p(2) by simp
      let ?cs = "norm_counts st" and ?l = "norm_largest st"
      from some_above [OF h] have "\<exists>s < Suc msi. tot div 2 ^ L < freq ! s" by blast
      then have l: "?l < length ?cs" "Suc msi \<le> length ?cs" using I by (auto simp: pass_inv_def)
      have "meets (if ?cs ! ?l div 2 \<le> - still_left st then normalize_count_m2 ?cs L freq tot msi low
          else and_then (add_i16 (?cs ! ?l) (as_i16 (still_left st))) (upd ?cs ?l)) (shares_ok L freq (Suc msi))"
      proof (cases "?cs ! ?l div 2 \<le> - still_left st")
        case True
        then show ?thesis using m2_ok [OF h low l(2)] by simp
      next
        case False
        from first_method_ok [OF h I low False] show ?thesis using False by (metis meets.simps(1))
      qed
      then have "meets (?rest (only, st)) (\<lambda>(cs, log). log = L \<and> shares_ok L freq (Suc msi) cs)"
        using False l(1) by (simp add: idx_def)
      then show ?thesis
        unfolding run if_not_P [OF enough] p(1) and_then.simps
      proof (rule meets_mono)
        fix x
        assume "case x of (cs, log) \<Rightarrow> log = L \<and> shares_ok L freq (Suc msi) cs"
        then obtain cs where x: "x = (cs, L)" and ok: "shares_ok L freq (Suc msi) cs" by (cases x) auto
        have iff: "\<forall>s \<le> msi. cs ! s = 0 \<longleftrightarrow> freq ! s = 0" using ok by (simp add: shares_ok_def less_Suc_eq_le)
        have "L \<noteq> 0" "\<forall>s \<le> msi. freq ! s \<noteq> tot" using L(1) I by (simp_all add: pass_inv_def less_Suc_eq_le)
        with iff shares_valid [OF ok L msi(1)] show "case x of (cs, log) \<Rightarrow> log = 0 \<and> (\<exists>s \<le> msi. freq ! s = tot)
            \<or> log = L \<and> L \<noteq> 0 \<and> counts_valid L cs (Suc msi) \<and> (\<forall>s \<le> msi. cs ! s = 0 \<longleftrightarrow> freq ! s = 0)
              \<and> (\<forall>s \<le> msi. freq ! s \<noteq> tot)"
          unfolding x prod.case by (intro disjI2 conjI refl)
      qed
    qed
  qed
qed

text \<open>C28. Normalizing a histogram never faults, for any table log and alphabet: the products stay within 64
  bits, no share leaves its range, and the loop that deals out the rest ends. What it returns is either
  the sign that a single symbol makes up the whole input, or counts that fill a table of exactly the requested
  size, in which a symbol has a share if and only if it occurs.\<close>

theorem normalize_count_fills_table:
  assumes "(\<Sum>s < Suc msi. freq ! s) = tot" and "tot < 2 ^ 32"
  shows "normalize_count counts L freq tot msi use_low_prob \<noteq> Fault
    \<and> (\<forall>cs log. normalize_count counts L freq tot msi use_low_prob = Ok (cs, log) \<longrightarrow>
         log = 0 \<and> (\<exists>s \<le> msi. freq ! s = tot) \<or>
         log = L \<and> L \<noteq> 0 \<and> counts_valid L cs (Suc msi) \<and> (\<forall>s \<le> msi. cs ! s = 0 \<longleftrightarrow> freq ! s = 0))"
  using normalize_count_meets [OF assms, of counts L use_low_prob] by (auto simp: meets_iff)

theorem normalize_count_fills_table_witness:
  "normalize_count [0, 0, 0] 5 [70, 2, 28] 100 2 True \<noteq> Fault"
  by (rule conjunct1 [OF normalize_count_fills_table]) (simp_all add: lessThan_Suc lessThan_nat_numeral)

end
