(* ===== verification/FsePipeline.thy ===== *)
theory FsePipeline
  imports FseTotal FseNormProps
begin

section \<open>From the input to its FSE stream and back\<close>

text \<open>
  The steps by which the encoder of \<open>src/src\<close> codes a stream of symbols with FSE, put together:
  the histogram of \<open>entropy/hist.rs\<close>, and normalization, table building, compression and
  decompression of \<open>entropy/fse.rs\<close>.
\<close>

lemma histogram_sum:
  assumes "\<forall>b \<in> set src. unat b \<le> m" and "\<forall>i \<le> m. counts ! i = byte_count src i"
  shows "(\<Sum>s < Suc m. counts ! s) = length src"
proof -
  have "set (map unat src) \<subseteq> {..<Suc m}" using assms(1) by auto
  then have "(\<Sum>s < Suc m. count_list (map unat src) s) = length (map unat src)"
    by (intro sum_count_set) simp_all
  moreover have "(\<Sum>s < Suc m. counts ! s) = (\<Sum>s < Suc m. count_list (map unat src) s)"
    using assms(2) by (intro sum.cong) (auto simp: byte_count_def less_Suc_eq_le)
  ultimately show ?thesis by simp
qed

lemma share_below_all:
  assumes v: "counts_valid L cs (Suc m)" and s: "s \<le> m" and t: "t \<le> m" "t \<noteq> s" "cs ! t \<noteq> 0"
  shows "nat \<bar>cs ! s\<bar> < 2 ^ L"
proof -
  have "absum cs (Suc m) = 2 ^ L"
    using total_count_valid [OF v] by (simp add: absum_total del: total_count_Suc)
  moreover have "\<bar>cs ! s\<bar> + \<bar>cs ! t\<bar> \<le> absum cs (Suc m)"
  proof -
    have "(\<Sum>i \<in> {s, t}. \<bar>cs ! i\<bar>) \<le> (\<Sum>i < Suc m. \<bar>cs ! i\<bar>)" using s t(1) by (intro sum_mono2) auto
    then show ?thesis using t(2) by (simp only: absum_def) simp
  qed
  ultimately have "\<bar>cs ! s\<bar> < 2 ^ L" using t(3) by simp
  then have "nat \<bar>cs ! s\<bar> < nat (2 ^ L)" by simp
  then show ?thesis by (simp add: nat_power_eq)
qed

lemma byte_count_all: "\<forall>b \<in> set src. unat b = i \<Longrightarrow> byte_count src i = length src"
  by (induction src) (auto simp: byte_count_def)

lemma normalized_encodable:
  assumes freq: "\<forall>i \<le> m. freq ! i = byte_count src i" and all: "\<forall>b \<in> set src. unat b \<le> m"
    and v: "counts_valid L cs (Suc m)" and iff: "\<forall>s \<le> m. cs ! s = 0 \<longleftrightarrow> freq ! s = 0"
    and single: "\<forall>s \<le> m. freq ! s \<noteq> length src"
  shows "encodable L cs (Suc m) src"
  unfolding encodable_def
proof (intro ballI conjI)
  fix x
  assume x: "x \<in> set src"
  then show xm: "unat x < Suc m" using all by auto
  have "freq ! unat x \<noteq> 0" using freq xm x by (simp add: byte_count_0 less_Suc_eq_le)
  then show "cs ! unat x \<noteq> 0" using iff xm by (simp add: less_Suc_eq_le)
  have "byte_count src (unat x) \<noteq> length src" using single freq xm by (simp add: less_Suc_eq_le)
  then obtain y where y: "y \<in> set src" "unat y \<noteq> unat x" using byte_count_all by blast
  then have "unat y \<le> m" "cs ! unat y \<noteq> 0" using all iff freq by (auto simp: byte_count_0)
  with y(2) show "nat \<bar>cs ! unat x\<bar> < 2 ^ L" using share_below_all [OF v, of "unat x" "unat y"] xm by simp
qed

text \<open>C26. The whole path: count the bytes of an input of at least three bytes, normalize the counts to a
  table size, build both tables, compress and decompress. Whenever normalization gives a table at all, the
  rest succeeds if the output has nine bits of room for each byte, and returns the input.\<close>

theorem fse_pipeline_roundtrip:
  assumes "2 < length src" and "length src < 2 ^ 32" and "length freq0 = 256" and "length ws = HIST_WKSP_SIZE_U32"
    and "count_wksp freq0 255 src ws = Ok (freq, m, largest)"
    and "normalize_count counts0 L freq (length src) m use_low_prob = Ok (counts, log)" and "log \<noteq> 0"
    and "9 * length src + 91 \<le> 8 * length dst" and "length src \<le> length dst'"
  shows "\<exists>ct dt k out dec. build_ctable ctable_default counts m log = Ok ct \<and> build_dtable dtable_default counts m log = Ok dt
    \<and> compress_using_ctable dst src ct = Ok (k, out) \<and> k \<noteq> 0
    \<and> decompress_interleaved2 dst' (take k out) dt = Ok (dec, length src) \<and> take (length src) dec = src"
proof -
  have no: "\<not> (\<exists>b \<in> set src. 255 < unat b)"
  proof -
    have "unat b \<le> 255" for b :: u8 using byte_less [of b] by simp
    then show ?thesis by (simp add: not_less)
  qed
  have "\<exists>r. count_wksp freq0 255 src ws = Ok r \<and> histogram_of src r"
    using count_wksp_histogram [OF assms(3,4) _ assms(2), of 255] no by simp
  then have h: "histogram_of src (freq, m, largest)" using assms(5) by simp
  then have m: "m = largest_byte src" and freq: "\<forall>i \<le> m. freq ! i = byte_count src i" by (auto simp: histogram_of_def)
  have all: "\<forall>b \<in> set src. unat b \<le> m" using m largest_byte_ge by blast
  from normalize_count_meets [OF histogram_sum [OF all freq] assms(2), of counts0 L use_low_prob] assms(6,7)
  have n: "log = L" "counts_valid L counts (Suc m)" "\<forall>s \<le> m. counts ! s = 0 \<longleftrightarrow> freq ! s = 0"
    "\<forall>s \<le> m. freq ! s \<noteq> length src" by auto
  from fse_compress_roundtrip [OF n(2) normalized_encodable [OF freq all n(2-4)] assms(1,8,9)]
  show ?thesis unfolding n(1) .
qed

lemma sample_normalized:
  assumes "length freq = 256" and "freq ! 0 = 2" and "freq ! 1 = 1"
  shows "normalize_count [0, 0] 5 freq 3 1 True = Ok ([22, 10], 5)"
proof -
  have log: "min_table_log 3 1 = Ok 2"
    by (simp add: min_table_log_def highbit32_def cast_u32_def Let_def log2.simps)
  have share: "share 5 3 2 = Ok 21" "share 5 3 1 = Ok 10"
    by (simp_all add: share_def mul_u64_def as_i16_def Let_def)
  have upt: "[0..<1 + 1] = [0, 1 :: nat]" by (simp add: upt_rec)
  have second: "[a, b][1 := c] = [a, c]" "[a, b][0 := c] = [c, b]" for a b c :: int by simp_all
  show ?thesis
    using assms unfolding normalize_count_def upt
    by (simp add: log share second norm_symbol_def idx_def upd_def cast_u32_def Let_def add_i16_def as_i16_def
        SYMBOLVALUE_MAX_def MIN_TABLELOG_def TABLELOG_MAX_def del: One_nat_def list_update.simps(2))
qed

theorem fse_pipeline_roundtrip_witness:
  "\<exists>freq m largest counts log ct dt k out dec.
    count_wksp (replicate 256 0) 255 [0, 1, 0] (replicate 1024 0) = Ok (freq, m, largest)
    \<and> normalize_count [0, 0] 5 freq 3 m True = Ok (counts, log)
    \<and> build_ctable ctable_default counts m log = Ok ct \<and> build_dtable dtable_default counts m log = Ok dt
    \<and> compress_using_ctable (replicate 16 0) [0, 1, 0] ct = Ok (k, out)
    \<and> decompress_interleaved2 [0, 0, 0] (take k out) dt = Ok (dec, 3) \<and> take 3 dec = [0, 1, 0]"
proof -
  have "\<exists>r. count_wksp (replicate 256 0) 255 [0, 1, 0] (replicate 1024 0) = Ok r \<and> histogram_of [0, 1, 0] r"
    using count_wksp_histogram [of "replicate 256 0" "replicate 1024 0" 255 "[0, 1, 0]"] by (simp add: HIST_WKSP_SIZE_U32_def)
  then obtain freq m largest where c: "count_wksp (replicate 256 0) 255 [0, 1, 0] (replicate 1024 0) = Ok (freq, m, largest)"
    and h: "histogram_of [0, 1, 0] (freq, m, largest)" by auto
  have m: "m = 1" "length freq = 256" "freq ! 0 = 2" "freq ! 1 = 1"
    using h by (auto simp: histogram_of_def largest_byte_def byte_count_def)
  note n = sample_normalized [OF m(2-4)]
  have len: "length [0, 1, 0 :: u8] = 3" "length [0, 0, 0 :: u8] = 3" by simp_all
  note p = fse_pipeline_roundtrip [of "[0, 1, 0]" "replicate 256 0" "replicate 1024 0" freq m largest "[0, 0]" 5 True
      "[22, 10]" 5 "replicate 16 0" "[0, 0, 0]", unfolded len]
  from p c n m(1) show ?thesis by (fastforce simp: HIST_WKSP_SIZE_U32_def)
qed

end
