(* ===== verification/FseWrite.thy ===== *)
theory FseWrite
  imports FseNorm FseCountProps
begin

section \<open>Writing the normalized counts (entropy/fse.rs)\<close>

text \<open>
  \<open>write_ncount\<close> of \<open>src/src/entropy/fse.rs\<close>. The 32-bit accumulator wraps as \<open>wrapping_add\<close> does and
  its shifts cut, the counters are integers, and a count of bits or a remainder that leaves its
  type is a fault. The halving loop would not end on a negative remainder, but that is refused first. The main loop
  writes one count in each round, so the size of the alphabet is fuel enough.
\<close>

definition ncount_write_bound :: "nat \<Rightarrow> nat \<Rightarrow> usize result" where
  "ncount_write_bound max_symbol_value table_log =
     (if SYMBOLVALUE_MAX < max_symbol_value then Err MaxSymbolValueTooLarge
      else if \<not> (MIN_TABLELOG \<le> table_log \<and> table_log \<le> TABLELOG_MAX) then Err TableLogTooLarge
      else Ok (((max_symbol_value + 1) * table_log + 4 + 2) div 8 + 1 + 2))"

definition NCOUNT_WRITE_BOUND_MAX :: nat where
  "NCOUNT_WRITE_BOUND_MAX = ((SYMBOLVALUE_MAX + 1) * TABLELOG_MAX + 4 + 2) div 8 + 1 + 2"

record write_state =
  w_dst :: bytes
  w_out :: usize
  w_stream :: nat
  w_count :: nat
  w_symbol :: nat
  w_remaining :: int
  w_threshold :: int
  w_nb_bits :: int
  w_zero :: bool

definition put_bits :: "nat \<Rightarrow> nat \<Rightarrow> write_state \<Rightarrow> write_state result" where
  "put_bits v nb st =
     (if 32 \<le> w_count st then Fault else
      Ok (st\<lparr>w_stream := cast_u32 (w_stream st + cast_u32 (v * 2 ^ w_count st)), w_count := w_count st + nb\<rparr>))"

definition flush_two_bytes :: "write_state \<Rightarrow> write_state result" where
  "flush_two_bytes st =
     (if length (w_dst st) < w_out st + 2 then Err DstSizeTooSmall else
      and_then (upd (w_dst st) (w_out st) (word_of_nat (w_stream st))) (\<lambda>dst.
      and_then (upd dst (w_out st + 1) (word_of_nat (w_stream st div 256))) (\<lambda>dst.
        Ok (st\<lparr>w_dst := dst, w_out := w_out st + 2, w_stream := w_stream st div 65536\<rparr>))))"

definition flush_over_16 :: "write_state \<Rightarrow> write_state result" where
  "flush_over_16 st =
     (if 16 < w_count st then and_then (flush_two_bytes st) (\<lambda>st. Ok (st\<lparr>w_count := w_count st - 16\<rparr>)) else Ok st)"

text \<open>The first symbol from \<open>s\<close> on whose count is not zero.\<close>

function skip_zeros :: "int list \<Rightarrow> nat \<Rightarrow> nat \<Rightarrow> nat result" where
  "skip_zeros counts n s =
     (if s < n then and_then (idx counts s) (\<lambda>c. if c = 0 then skip_zeros counts n (s + 1) else Ok s) else Ok s)"
  by pat_completeness auto
termination
  by (relation "measure (\<lambda>(counts, n, s). n - s)") auto

declare skip_zeros.simps [simp del]

text \<open>The length of a run of zeros: sixteen one bits for 24, two for three, and the rest.\<close>

function put_run24 :: "nat \<Rightarrow> write_state \<Rightarrow> (nat \<times> write_state) result" where
  "put_run24 skipped st =
     (if 24 \<le> skipped
      then and_then (put_bits 65535 0 st) (\<lambda>st. and_then (flush_two_bytes st) (\<lambda>st. put_run24 (skipped - 24) st))
      else Ok (skipped, st))"
  by pat_completeness auto
termination
  by (relation "measure (\<lambda>(skipped, st). skipped)") auto

declare put_run24.simps [simp del]

function put_run3 :: "nat \<Rightarrow> write_state \<Rightarrow> (nat \<times> write_state) result" where
  "put_run3 skipped st =
     (if 3 \<le> skipped then and_then (put_bits 3 2 st) (\<lambda>st. put_run3 (skipped - 3) st) else Ok (skipped, st))"
  by pat_completeness auto
termination
  by (relation "measure (\<lambda>(skipped, st). skipped)") auto

declare put_run3.simps [simp del]

definition put_zeros :: "nat \<Rightarrow> write_state \<Rightarrow> write_state result" where
  "put_zeros skipped st =
     and_then (put_run24 skipped st) (\<lambda>(skipped, st).
     and_then (put_run3 skipped st) (\<lambda>(skipped, st).
     and_then (put_bits skipped 2 st) flush_over_16))"

text \<open>The zeros before the next count; the flag is set when nothing follows them.\<close>

definition write_zeros :: "int list \<Rightarrow> nat \<Rightarrow> write_state \<Rightarrow> (bool \<times> write_state) result" where
  "write_zeros counts alphabet_size st =
     (if \<not> w_zero st then Ok (False, st) else
      and_then (skip_zeros counts alphabet_size (w_symbol st)) (\<lambda>s.
      if s = alphabet_size then Ok (True, st\<lparr>w_symbol := s\<rparr>) else
      and_then (put_zeros (s - w_symbol st) st) (\<lambda>st. Ok (False, st\<lparr>w_symbol := s\<rparr>))))"

definition write_count :: "int list \<Rightarrow> write_state \<Rightarrow> write_state result" where
  "write_count counts st =
     and_then (idx counts (w_symbol st)) (\<lambda>c.
     let max_v = (2 * w_threshold st - 1) - w_remaining st;
         remaining = w_remaining st - (if c < 0 then - c else c);
         count = (if w_threshold st \<le> c + 1 then c + 1 + max_v else c + 1) in
     and_then (put_bits (as_u32 count) (nat (w_nb_bits st) - of_bool (count < max_v)) st) (\<lambda>st.
     if remaining < 1 then Err Generic else
     and_then (shrink remaining (w_nb_bits st) (w_threshold st)) (\<lambda>(nb_bits, threshold).
       flush_over_16 (st\<lparr>w_symbol := w_symbol st + 1, w_remaining := remaining, w_threshold := threshold,
                        w_nb_bits := nb_bits, w_zero := (count = 1)\<rparr>))))"

function write_loop :: "int list \<Rightarrow> nat \<Rightarrow> nat \<Rightarrow> write_state \<Rightarrow> write_state result" where
  "write_loop counts alphabet_size fuel st =
     (if w_symbol st < alphabet_size \<and> 1 < w_remaining st then
        and_then (write_zeros counts alphabet_size st) (\<lambda>(stop, st).
        if stop then Ok st else
        case fuel of 0 \<Rightarrow> Fault | Suc fuel \<Rightarrow>
          and_then (write_count counts st) (\<lambda>st. write_loop counts alphabet_size fuel st))
      else Ok st)"
  by pat_completeness auto
termination
  by (relation "measure (\<lambda>(counts, n, fuel, st). fuel)") auto

declare write_loop.simps [simp del]

definition write_ncount :: "bytes \<Rightarrow> int list \<Rightarrow> nat \<Rightarrow> nat \<Rightarrow> (usize \<times> bytes) result" where
  "write_ncount dst counts max_symbol_value table_log =
     (if SYMBOLVALUE_MAX < max_symbol_value \<or> length counts \<le> max_symbol_value then Err MaxSymbolValueTooLarge
      else if \<not> (MIN_TABLELOG \<le> table_log \<and> table_log \<le> TABLELOG_MAX) then Err TableLogTooLarge
      else and_then (write_loop counts (max_symbol_value + 1) (max_symbol_value + 1)
          \<lparr>w_dst = dst, w_out = 0, w_stream = table_log - MIN_TABLELOG, w_count = 4, w_symbol = 0,
           w_remaining = 2 ^ table_log + 1, w_threshold = 2 ^ table_log, w_nb_bits = int table_log + 1, w_zero = False\<rparr>) (\<lambda>st.
        if w_remaining st \<noteq> 1 then Err Generic else
        and_then (flush_two_bytes st) (\<lambda>st'. Ok (w_out st + (w_count st + 7) div 8, w_dst st'))))"

end
