(* ===== verification/DecodeOut.thy ===== *)
theory DecodeOut
  imports Results
begin

section \<open>The decoder's output (decode_out.rs)\<close>

text \<open>
  \<open>DecodeOut\<close> of \<open>src/src/decode_out.rs\<close>. Both variants are a region of writable bytes and
  the number of them that have been decoded: for the fixed variant the region is the
  caller's slice, for the growable one it is the vector's capacity, whose bytes past the
  length are unspecified (the model pads with zeros and no property reads them). Growing a
  vector gives exactly the capacity asked for, the least the documentation of \<open>reserve\<close>
  promises; running out of memory is outside the model. Every write lands whole or fails
  and leaves the output alone, because the output is the match history.
\<close>

record dst_region =
  region :: bytes
  written :: usize

datatype decode_out = GrowableOut dst_region | FixedOut dst_region

fun region_of :: "decode_out \<Rightarrow> dst_region" where
  "region_of (GrowableOut r) = r"
| "region_of (FixedOut r) = r"

fun with_region :: "decode_out \<Rightarrow> dst_region \<Rightarrow> decode_out" where
  "with_region (GrowableOut _) r = GrowableOut r"
| "with_region (FixedOut _) r = FixedOut r"

definition decode_growable :: "bytes \<Rightarrow> decode_out" where
  "decode_growable b = GrowableOut \<lparr>region = b, written = length b\<rparr>"

definition decode_fixed :: "bytes \<Rightarrow> decode_out" where
  "decode_fixed b = FixedOut \<lparr>region = b, written = 0\<rparr>"

definition dout_len :: "decode_out \<Rightarrow> usize" where
  "dout_len out = written (region_of out)"

definition dout_capacity :: "decode_out \<Rightarrow> usize" where
  "dout_capacity out = length (region (region_of out))"

definition dout_slice :: "decode_out \<Rightarrow> bytes" where
  "dout_slice out = take (written (region_of out)) (region (region_of out))"

text \<open>\<open>set_len\<close>, with its safety contract (and the fixed variant's \<open>debug_assert!\<close>).\<close>

definition dout_set_len :: "decode_out \<Rightarrow> usize \<Rightarrow> decode_out result" where
  "dout_set_len out n =
     (if n \<le> dout_capacity out then Ok (with_region out ((region_of out)\<lparr>written := n\<rparr>)) else Fault)"

fun is_growable :: "decode_out \<Rightarrow> bool" where
  "is_growable (GrowableOut _) = True"
| "is_growable (FixedOut _) = False"

fun dout_clear :: "decode_out \<Rightarrow> decode_out" where
  "dout_clear (GrowableOut r) = GrowableOut (r\<lparr>written := 0\<rparr>)"
| "dout_clear (FixedOut r) = FixedOut (r\<lparr>written := 0\<rparr>)"

definition isize_max :: usize where
  "isize_max = 2 ^ 63 - 1"

text \<open>\<open>Vec::reserve\<close>: at least \<open>additional\<close> bytes past the length become writable.\<close>

definition vec_reserve :: "dst_region \<Rightarrow> usize \<Rightarrow> dst_region" where
  "vec_reserve r additional =
     r\<lparr>region := region r @ replicate (written r + additional - length (region r)) 0\<rparr>"

fun dout_try_reserve :: "decode_out \<Rightarrow> usize \<Rightarrow> decode_out result" where
  "dout_try_reserve (GrowableOut r) additional =
     (if isize_max < written r + additional then Err OutputSizeOverflow
      else Ok (GrowableOut (vec_reserve r additional)))"
| "dout_try_reserve (FixedOut r) additional = Ok (FixedOut r)"

fun ensure_room :: "decode_out \<Rightarrow> usize \<Rightarrow> decode_out result" where
  "ensure_room (GrowableOut r) additional =
     (if length (region r) - written r < additional then Ok (GrowableOut (vec_reserve r additional))
      else Ok (GrowableOut r))"
| "ensure_room (FixedOut r) additional =
     (if length (region r) < written r then Fault
      else if length (region r) - written r < additional then Err DstSizeTooSmall
      else Ok (FixedOut r))"

definition dout_append :: "decode_out \<Rightarrow> bytes \<Rightarrow> decode_out result" where
  "dout_append out bs =
     (if length bs = 0 then Ok out else
      and_then (ensure_room out (length bs)) (\<lambda>out.
      let out_len = dout_len out in
      and_then (copy_into (region (region_of out)) out_len bs) (\<lambda>mem.
        dout_set_len (with_region out ((region_of out)\<lparr>region := mem\<rparr>)) (out_len + length bs))))"

fun dout_fill :: "decode_out \<Rightarrow> usize \<Rightarrow> u8 \<Rightarrow> usize \<Rightarrow> decode_out result" where
  "dout_fill (GrowableOut r) out_len byte count =
     (let mem = take (written r) (region r) @ replicate (out_len + count - written r) byte
      in Ok (GrowableOut (r\<lparr>region := mem @ drop (length mem) (region r), written := out_len + count\<rparr>)))"
| "dout_fill (FixedOut r) out_len byte count =
     and_then (copy_into (region r) out_len (replicate count byte)) (\<lambda>mem.
       Ok (FixedOut (r\<lparr>region := mem, written := out_len + count\<rparr>)))"

definition dout_append_repeated :: "decode_out \<Rightarrow> u8 \<Rightarrow> usize \<Rightarrow> decode_out result" where
  "dout_append_repeated out byte count =
     (if count = 0 then Ok out else
      and_then (ensure_room out count) (\<lambda>out. dout_fill out (dout_len out) byte count))"

subsection \<open>Invariant\<close>

definition dout_ok :: "decode_out \<Rightarrow> bool" where
  "dout_ok out \<longleftrightarrow> written (region_of out) \<le> length (region (region_of out))"

text \<open>The number of bytes the output can hold, if it is limited.\<close>

fun dout_limit :: "decode_out \<Rightarrow> usize option" where
  "dout_limit (GrowableOut r) = None"
| "dout_limit (FixedOut r) = Some (length (region r))"

definition fits :: "usize option \<Rightarrow> usize \<Rightarrow> bool" where
  "fits lim n = (case lim of None \<Rightarrow> True | Some c \<Rightarrow> n \<le> c)"

lemma fits_mono: "fits lim n \<Longrightarrow> m \<le> n \<Longrightarrow> fits lim m"
  by (auto simp: fits_def split: option.splits)

lemma dout_ok_init [simp]: "dout_ok (decode_growable b)" "dout_ok (decode_fixed b)"
  by (simp_all add: dout_ok_def decode_growable_def decode_fixed_def)

lemma length_dout_slice: "dout_ok out \<Longrightarrow> length (dout_slice out) = dout_len out"
  by (simp add: dout_ok_def dout_slice_def dout_len_def)

lemma region_with_region [simp]: "region_of (with_region out r) = r"
  by (cases out) auto

text \<open>Room for \<open>n\<close> bytes more: the output as before, with \<open>n\<close> writable bytes.\<close>

lemma ensure_room_spec:
  assumes "dout_ok out"
  shows "if fits (dout_limit out) (dout_len out + n)
     then \<exists>out'. ensure_room out n = Ok out' \<and> dout_ok out' \<and> dout_slice out' = dout_slice out
       \<and> dout_len out' = dout_len out \<and> dout_limit out' = dout_limit out
       \<and> is_growable out' = is_growable out \<and> dout_len out + n \<le> dout_capacity out'
     else ensure_room out n = Err DstSizeTooSmall"
proof (cases out)
  case (GrowableOut r)
  then show ?thesis
    using assms by (auto simp: dout_ok_def fits_def vec_reserve_def dout_slice_def dout_len_def dout_capacity_def)
next
  case (FixedOut r)
  then show ?thesis
    using assms by (auto simp: dout_ok_def fits_def dout_len_def dout_capacity_def)
qed

lemma dout_limit_with: "length (region r) = length (region (region_of out)) \<Longrightarrow>
    dout_limit (with_region out r) = dout_limit out"
  by (cases out) auto

lemma is_growable_with [simp]: "is_growable (with_region out r) = is_growable out"
  by (cases out) auto

lemma dout_append_room:
  assumes "dout_ok out" and "dout_len out + length bs \<le> dout_capacity out"
  shows "\<exists>out'. and_then (copy_into (region (region_of out)) (dout_len out) bs) (\<lambda>mem.
        dout_set_len (with_region out ((region_of out)\<lparr>region := mem\<rparr>)) (dout_len out + length bs)) = Ok out'
     \<and> dout_ok out' \<and> dout_slice out' = dout_slice out @ bs \<and> dout_limit out' = dout_limit out"
  using assms by (auto simp: dout_len_def dout_capacity_def dout_set_len_def copy_into_def dout_ok_def
      dout_slice_def dout_limit_with)

lemma dout_append_spec:
  assumes "dout_ok out"
  shows "if fits (dout_limit out) (dout_len out + length bs)
     then \<exists>out'. dout_append out bs = Ok out' \<and> dout_ok out' \<and> dout_slice out' = dout_slice out @ bs
       \<and> dout_limit out' = dout_limit out
     else dout_append out bs = Err DstSizeTooSmall \<or> bs = []"
proof (cases "bs = []")
  case True
  then show ?thesis using assms by (auto simp: dout_append_def)
next
  case False
  show ?thesis
  proof (cases "fits (dout_limit out) (dout_len out + length bs)")
    case True
    with ensure_room_spec [OF assms, of "length bs"] obtain out1 where out1:
      "ensure_room out (length bs) = Ok out1" "dout_ok out1" "dout_slice out1 = dout_slice out"
      "dout_len out1 = dout_len out" "dout_limit out1 = dout_limit out"
      "dout_len out + length bs \<le> dout_capacity out1" by auto
    from dout_append_room [OF out1(2), of bs] out1 False True show ?thesis
      by (simp add: dout_append_def Let_def)
  next
    case False
    with ensure_room_spec [OF assms, of "length bs"] show ?thesis
      by (simp add: dout_append_def)
  qed
qed

lemma dout_fill_spec:
  assumes "dout_ok out" and "dout_len out + count \<le> dout_capacity out"
  shows "\<exists>out'. dout_fill out (dout_len out) byte count = Ok out' \<and> dout_ok out'
     \<and> dout_slice out' = dout_slice out @ replicate count byte \<and> dout_limit out' = dout_limit out"
proof (cases out)
  case (GrowableOut r)
  then show ?thesis
    using assms by (auto simp: dout_ok_def dout_len_def dout_capacity_def dout_slice_def Let_def)
next
  case (FixedOut r)
  then show ?thesis
    using assms by (auto simp: dout_ok_def dout_len_def dout_capacity_def dout_slice_def copy_into_def)
qed

lemma dout_append_repeated_spec:
  assumes "dout_ok out"
  shows "if fits (dout_limit out) (dout_len out + count)
     then \<exists>out'. dout_append_repeated out byte count = Ok out' \<and> dout_ok out'
       \<and> dout_slice out' = dout_slice out @ replicate count byte \<and> dout_limit out' = dout_limit out
     else dout_append_repeated out byte count = Err DstSizeTooSmall \<or> count = 0"
proof (cases "count = 0")
  case True
  then show ?thesis using assms by (auto simp: dout_append_repeated_def)
next
  case False
  show ?thesis
  proof (cases "fits (dout_limit out) (dout_len out + count)")
    case True
    with ensure_room_spec [OF assms, of count] obtain out1 where out1:
      "ensure_room out count = Ok out1" "dout_ok out1" "dout_slice out1 = dout_slice out"
      "dout_len out1 = dout_len out" "dout_limit out1 = dout_limit out"
      "dout_len out + count \<le> dout_capacity out1" by auto
    from dout_fill_spec [OF out1(2), of count byte] out1 False True show ?thesis
      by (simp add: dout_append_repeated_def)
  next
    case False
    with ensure_room_spec [OF assms, of count] show ?thesis
      by (simp add: dout_append_repeated_def)
  qed
qed

subsection \<open>The interface the block decoder relies on\<close>

text \<open>
  An output that stores whole pieces: a piece that fits is appended to the contents, one
  that does not is refused with \<open>DstSizeTooSmall\<close>. What follows for a run of pieces is
  that the pieces accepted are all there, in order, and the limit is never passed.
\<close>

locale history_output =
  fixes ok :: "'s \<Rightarrow> bool"
    and contents :: "'s \<Rightarrow> bytes"
    and limit :: "'s \<Rightarrow> usize option"
    and put :: "'s \<Rightarrow> 'p \<Rightarrow> 's result"
    and put_all :: "'s \<Rightarrow> 'p list \<Rightarrow> 's result"
    and bytes_of :: "'p \<Rightarrow> bytes"
  assumes put_fits: "ok s \<Longrightarrow> fits (limit s) (length (contents s) + length (bytes_of p)) \<Longrightarrow>
      \<exists>s'. put s p = Ok s' \<and> ok s' \<and> contents s' = contents s @ bytes_of p \<and> limit s' = limit s"
    and put_refused: "ok s \<Longrightarrow> \<not> fits (limit s) (length (contents s) + length (bytes_of p)) \<Longrightarrow>
      bytes_of p \<noteq> [] \<Longrightarrow> put s p = Err DstSizeTooSmall"
    and put_all_Nil [simp]: "put_all s [] = Ok s"
    and put_all_Cons [simp]: "put_all s (p # ps) = and_then (put s p) (\<lambda>s'. put_all s' ps)"
    and ok_fits: "ok s \<Longrightarrow> fits (limit s) (length (contents s))"
begin

lemma put_total:
  assumes "ok s"
  shows "(\<exists>s'. put s p = Ok s' \<and> ok s' \<and> contents s' = contents s @ bytes_of p \<and> limit s' = limit s)
    \<or> put s p = Err DstSizeTooSmall"
proof (cases "fits (limit s) (length (contents s) + length (bytes_of p))")
  case True
  then show ?thesis using put_fits assms by blast
next
  case False
  have "bytes_of p \<noteq> []" using ok_fits [OF assms] False by auto
  then show ?thesis using put_refused [OF assms False] by blast
qed

lemma put_all_total:
  "ok s \<Longrightarrow> (\<exists>s'. put_all s ps = Ok s' \<and> ok s' \<and> limit s' = limit s
      \<and> contents s' = contents s @ concat (map bytes_of ps)) \<or> put_all s ps = Err DstSizeTooSmall"
proof (induction ps arbitrary: s)
  case (Cons p ps)
  from put_total [OF Cons.prems, of p] show ?case
  proof
    assume "\<exists>s'. put s p = Ok s' \<and> ok s' \<and> contents s' = contents s @ bytes_of p \<and> limit s' = limit s"
    then obtain s' where "put s p = Ok s'" "ok s'" "contents s' = contents s @ bytes_of p" "limit s' = limit s"
      by blast
    with Cons.IH [of s'] show ?thesis by auto
  qed simp
qed simp

lemma put_all_fits:
  "ok s \<Longrightarrow> fits (limit s) (length (contents s @ concat (map bytes_of ps))) \<Longrightarrow> \<exists>s'. put_all s ps = Ok s'"
proof (induction ps arbitrary: s)
  case (Cons p ps)
  have "fits (limit s) (length (contents s) + length (bytes_of p))"
    by (rule fits_mono [OF Cons.prems(2)]) simp
  from put_fits [OF Cons.prems(1) this] obtain s' where s':
    "put s p = Ok s'" "ok s'" "contents s' = contents s @ bytes_of p" "limit s' = limit s" by blast
  with Cons.IH [of s'] Cons.prems(2) show ?case by simp
qed simp

end

datatype piece = Piece bytes | Run u8 usize

fun piece_bytes :: "piece \<Rightarrow> bytes" where
  "piece_bytes (Piece bs) = bs"
| "piece_bytes (Run b n) = replicate n b"

fun dout_put :: "decode_out \<Rightarrow> piece \<Rightarrow> decode_out result" where
  "dout_put out (Piece bs) = dout_append out bs"
| "dout_put out (Run b n) = dout_append_repeated out b n"

fun dout_puts :: "decode_out \<Rightarrow> piece list \<Rightarrow> decode_out result" where
  "dout_puts out [] = Ok out"
| "dout_puts out (p # ps) = and_then (dout_put out p) (\<lambda>out'. dout_puts out' ps)"

lemma dout_put_spec:
  assumes "dout_ok out"
  shows "if fits (dout_limit out) (dout_len out + length (piece_bytes p))
     then \<exists>out'. dout_put out p = Ok out' \<and> dout_ok out'
       \<and> dout_slice out' = dout_slice out @ piece_bytes p \<and> dout_limit out' = dout_limit out
     else dout_put out p = Err DstSizeTooSmall \<or> piece_bytes p = []"
proof (cases p)
  case (Piece bs)
  then show ?thesis using dout_append_spec [OF assms, of bs] by simp
next
  case (Run b n)
  then show ?thesis using dout_append_repeated_spec [OF assms, of n b] by simp
qed

lemma dout_ok_fits: "dout_ok out \<Longrightarrow> fits (dout_limit out) (dout_len out)"
  by (cases out) (auto simp: dout_ok_def fits_def dout_len_def)

interpretation dout: history_output dout_ok dout_slice dout_limit dout_put dout_puts piece_bytes
proof unfold_locales
  fix s p
  assume s: "dout_ok s"
  show "fits (dout_limit s) (length (dout_slice s))"
    using s dout_ok_fits by (simp add: length_dout_slice)
  assume "fits (dout_limit s) (length (dout_slice s) + length (piece_bytes p))"
  then show "\<exists>s'. dout_put s p = Ok s' \<and> dout_ok s' \<and> dout_slice s' = dout_slice s @ piece_bytes p
      \<and> dout_limit s' = dout_limit s"
    using dout_put_spec [OF s, of p] s by (simp add: length_dout_slice)
next
  fix s p
  assume "dout_ok s" "\<not> fits (dout_limit s) (length (dout_slice s) + length (piece_bytes p))" "piece_bytes p \<noteq> []"
  then show "dout_put s p = Err DstSizeTooSmall"
    using dout_put_spec [of s p] by (simp add: length_dout_slice)
qed simp_all

subsection \<open>Properties\<close>

text \<open>C19. A run of pieces written to the decoder's output ends in one of two ways: all of them are
  there, in order, after what was there before; or the destination is fixed, they do not fit, and
  the error is \<open>DstSizeTooSmall\<close>. If they fit, the first is the case.\<close>

theorem decode_out_pieces:
  assumes "dout_ok out"
  shows "if fits (dout_limit out) (length (dout_slice out @ concat (map piece_bytes ps)))
    then \<exists>out'. dout_puts out ps = Ok out' \<and> dout_ok out' \<and> dout_limit out' = dout_limit out
           \<and> dout_slice out' = dout_slice out @ concat (map piece_bytes ps)
    else dout_puts out ps = Err DstSizeTooSmall"
proof (cases "fits (dout_limit out) (length (dout_slice out @ concat (map piece_bytes ps)))")
  case True
  then show ?thesis using dout.put_all_total [OF assms, of ps] dout.put_all_fits [OF assms, of ps] by auto
next
  case False
  then show ?thesis using dout.put_all_total [OF assms, of ps] dout.ok_fits by metis
qed

theorem decode_out_pieces_witness:
  "dout_puts (decode_fixed [0, 0, 0]) [Piece [1, 2], Run 5 2] = Err DstSizeTooSmall"
  using decode_out_pieces [OF dout_ok_init(2), of "[0, 0, 0]" "[Piece [1, 2], Run 5 2]"]
  by (simp add: decode_fixed_def dout_slice_def fits_def)

end
