(* ===== verification/SeqCopy.thy ===== *)
theory SeqCopy
  imports DecodeOut
begin

section \<open>Copying matches (sequence.rs)\<close>

text \<open>
  The match copies of \<open>src/src/sequence.rs\<close> on the output's memory: a list of bytes, with positions for
  the pointers. \<open>copy_nonoverlapping\<close> has the contract of the core library: both ranges lie in the
  allocation and do not overlap, and breaking it is a \<open>Fault\<close>. The reference is the byte-wise
  definition of an LZ77 match: each byte is the one \<open>offset\<close> before it.
\<close>

definition WILDCOPY_OVERLENGTH :: nat where "WILDCOPY_OVERLENGTH = 32"
definition PATTERN_DOUBLING_MIN :: nat where "PATTERN_DOUBLING_MIN = 4096"
definition DEC32TABLE :: "nat list" where "DEC32TABLE = [0, 1, 2, 1, 4, 4, 4, 4]"
definition DEC64TABLE :: "nat list" where "DEC64TABLE = [8, 8, 8, 7, 8, 9, 10, 11]"

definition copy_nonoverlapping :: "bytes \<Rightarrow> usize \<Rightarrow> usize \<Rightarrow> usize \<Rightarrow> bytes result" where
  "copy_nonoverlapping mem src dst n =
     (if src + n \<le> length mem \<and> dst + n \<le> length mem \<and> (src + n \<le> dst \<or> dst + n \<le> src \<or> n = 0)
      then Ok (take dst mem @ take n (drop src mem) @ drop (dst + n) mem) else Fault)"

definition copy_16 :: "bytes \<Rightarrow> usize \<Rightarrow> usize \<Rightarrow> bytes result" where
  "copy_16 mem dst src = copy_nonoverlapping mem src dst 16"

definition copy_byte :: "bytes \<Rightarrow> usize \<Rightarrow> usize \<Rightarrow> bytes result" where
  "copy_byte mem dst src = and_then (idx mem src) (upd mem dst)"

subsection \<open>The copies\<close>

function double_up :: "bytes \<Rightarrow> usize \<Rightarrow> usize \<Rightarrow> usize \<Rightarrow> bytes result" where
  "double_up mem dst done_bytes match_length =
     (if done_bytes < match_length then
        let chunk = min done_bytes (match_length - done_bytes) in
        if chunk = 0 then Fault
        else and_then (copy_nonoverlapping mem dst (dst + done_bytes) chunk) (\<lambda>mem.
          double_up mem dst (done_bytes + chunk) match_length)
      else Ok mem)"
  by pat_completeness auto
termination by (relation "measure (\<lambda>(mem, dst, done_bytes, match_length). match_length - done_bytes)") auto

declare double_up.simps [simp del]

definition copy_match_by_doubling :: "bytes \<Rightarrow> usize \<Rightarrow> usize \<Rightarrow> usize \<Rightarrow> usize \<Rightarrow> bytes result" where
  "copy_match_by_doubling mem dst src offset match_length =
     (let seed = min offset match_length in
      and_then (copy_nonoverlapping mem src dst seed) (\<lambda>mem. double_up mem dst seed match_length))"

function wild16 :: "bytes \<Rightarrow> usize \<Rightarrow> usize \<Rightarrow> usize \<Rightarrow> usize \<Rightarrow> bytes result" where
  "wild16 mem dst src pos match_length =
     and_then (copy_16 mem (dst + pos) (src + pos)) (\<lambda>mem.
     and_then (copy_16 mem (dst + (pos + 16)) (src + (pos + 16))) (\<lambda>mem.
       if match_length \<le> pos + 32 then Ok mem else wild16 mem dst src (pos + 32) match_length))"
  by pat_completeness auto
termination by (relation "measure (\<lambda>(mem, dst, src, pos, match_length). match_length - pos)") auto

declare wild16.simps [simp del]

function wild8 :: "bytes \<Rightarrow> usize \<Rightarrow> usize \<Rightarrow> usize \<Rightarrow> bytes result" where
  "wild8 mem op_pos ip end_pos =
     (if op_pos < end_pos then
        and_then (copy_nonoverlapping mem ip op_pos 8) (\<lambda>mem. wild8 mem (op_pos + 8) (ip + 8) end_pos)
      else Ok mem)"
  by pat_completeness auto
termination by (relation "measure (\<lambda>(mem, op_pos, ip, end_pos). end_pos - op_pos)") auto

declare wild8.simps [simp del]

text \<open>The first eight bytes, after which source and destination are at least eight apart.\<close>

definition overlap_start :: "bytes \<Rightarrow> usize \<Rightarrow> usize \<Rightarrow> usize \<Rightarrow> (bytes \<times> usize) result" where
  "overlap_start mem dst src offset =
     (if offset < 8 then
        and_then (copy_byte mem dst src) (\<lambda>mem.
        and_then (copy_byte mem (dst + 1) (src + 1)) (\<lambda>mem.
        and_then (copy_byte mem (dst + 2) (src + 2)) (\<lambda>mem.
        and_then (copy_byte mem (dst + 3) (src + 3)) (\<lambda>mem.
        and_then (idx DEC32TABLE offset) (\<lambda>d32.
        and_then (copy_nonoverlapping mem (src + d32) (dst + 4) 4) (\<lambda>mem.
        and_then (idx DEC64TABLE offset) (\<lambda>d64.
          Ok (mem, nat (int (src + d32) + (8 - int d64))))))))))
      else and_then (copy_nonoverlapping mem src dst 8) (\<lambda>mem. Ok (mem, src + 8)))"

definition copy_match_inline :: "bytes \<Rightarrow> usize \<Rightarrow> usize \<Rightarrow> usize \<Rightarrow> bytes result" where
  "copy_match_inline mem out_pos match_src match_length =
     (if out_pos < match_src then Fault else
      let offset = out_pos - match_src in
      if PATTERN_DOUBLING_MIN \<le> match_length then copy_match_by_doubling mem out_pos match_src offset match_length
      else if 16 \<le> offset then
        and_then (copy_16 mem out_pos match_src) (\<lambda>mem.
          if 16 < match_length then wild16 mem out_pos match_src 16 match_length else Ok mem)
      else
        and_then (overlap_start mem out_pos match_src offset) (\<lambda>(mem, ip).
          if 8 < match_length then wild8 mem (out_pos + 8) ip (out_pos + match_length) else Ok mem))"

subsection \<open>The reference\<close>

text \<open>A match of \<open>n\<close> bytes at distance \<open>offset\<close> behind the history \<open>h\<close>, byte by byte.\<close>

fun lz_match :: "bytes \<Rightarrow> nat \<Rightarrow> nat \<Rightarrow> bytes" where
  "lz_match h offset 0 = h"
| "lz_match h offset (Suc n) = lz_match (h @ [h ! (length h - offset)]) offset n"

definition lz_bytes :: "bytes \<Rightarrow> nat \<Rightarrow> nat \<Rightarrow> bytes" where
  "lz_bytes h offset n = map (\<lambda>i. h ! (length h - offset + i mod offset)) [0..<n]"

lemma length_lz_bytes [simp]: "length (lz_bytes h offset n) = n"
  by (simp add: lz_bytes_def)

lemma lz_match_snoc: "lz_match h offset (Suc n) = (let g = lz_match h offset n in g @ [g ! (length g - offset)])"
proof (induction n arbitrary: h)
  case (Suc n)
  let ?h = "h @ [h ! (length h - offset)]"
  have "lz_match h offset (Suc (Suc n)) = lz_match ?h offset (Suc n)" by (rule lz_match.simps(2))
  also have "\<dots> = (let g = lz_match ?h offset n in g @ [g ! (length g - offset)])" by (rule Suc.IH)
  finally show ?case by (simp only: lz_match.simps(2) [of h offset n])
qed simp

text \<open>The copies are periodic.\<close>

lemma lz_match_bytes:
  assumes "0 < offset" and "offset \<le> length h"
  shows "lz_match h offset n = h @ lz_bytes h offset n"
proof (induction n)
  case 0
  show ?case by (simp add: lz_bytes_def)
next
  case (Suc n)
  let ?g = "h @ lz_bytes h offset n"
  have "?g ! (length ?g - offset) = h ! (length h - offset + n mod offset)"
  proof (cases "n < offset")
    case True
    have "length ?g - offset = length h - offset + n" "length h - offset + n < length h" using True assms by simp_all
    then show ?thesis using True by (simp add: nth_append)
  next
    case False
    have "length ?g - offset = length h + (n - offset)" using False assms by simp
    moreover have "(n - offset) mod offset = n mod offset" using False by (simp add: le_mod_geq)
    ultimately show ?thesis using False assms(1) by (simp add: nth_append lz_bytes_def)
  qed
  then show ?case unfolding lz_match_snoc Suc.IH Let_def by (simp add: lz_bytes_def)
qed

subsection \<open>Correctness\<close>

text \<open>After \<open>k\<close> bytes: nothing before the match's source has changed, and from there on the memory is periodic.\<close>

definition copied :: "bytes \<Rightarrow> usize \<Rightarrow> usize \<Rightarrow> nat \<Rightarrow> bytes \<Rightarrow> bool" where
  "copied mem0 src offset k mem \<longleftrightarrow> length mem = length mem0 \<and> take src mem = take src mem0
     \<and> (\<forall>i < offset + k. mem ! (src + i) = mem0 ! (src + i mod offset))"

lemma copied_0: "0 < offset \<Longrightarrow> copied mem src offset 0 mem"
  by (simp add: copied_def)

lemma copied_step:
  assumes c: "copied mem0 src offset k mem" and a: "a + n \<le> offset + k" and g: "offset dvd offset + k - a"
    and room: "src + offset + k + n \<le> length mem0" and o: "0 < offset"
  shows "\<exists>mem'. copy_nonoverlapping mem (src + a) (src + offset + k) n = Ok mem' \<and> copied mem0 src offset (k + n) mem'"
proof -
  let ?d = "src + offset + k"
  let ?mem = "take ?d mem @ take n (drop (src + a) mem) @ drop (?d + n) mem"
  have len: "length mem = length mem0" using c by (simp add: copied_def)
  have "copy_nonoverlapping mem (src + a) ?d n = Ok ?mem"
    using a room len by (simp add: copy_nonoverlapping_def)
  moreover have "copied mem0 src offset (k + n) ?mem"
    unfolding copied_def
  proof (intro conjI allI impI)
    show "length ?mem = length mem0" using room len a by simp
    show "take src ?mem = take src mem0" using c room len by (simp add: copied_def)
    fix i assume i: "i < offset + (k + n)"
    show "?mem ! (src + i) = mem0 ! (src + i mod offset)"
    proof (cases "i < offset + k")
      case True
      then show ?thesis using c room len by (simp add: nth_append copied_def)
    next
      case False
      let ?j = "i - (offset + k)"
      have j: "?j < n" using False i by simp
      have "?mem ! (src + i) = mem ! (src + (a + ?j))"
        using False j room len a by (simp add: nth_append add.assoc)
      also have "\<dots> = mem0 ! (src + (a + ?j) mod offset)" using c a j by (simp add: copied_def)
      also have "(a + ?j) mod offset = i mod offset"
      proof -
        have e: "i = (offset + k - a) + (a + ?j)" using False a by simp
        have "i mod offset = ((offset + k - a) + (a + ?j)) mod offset" using e by presburger
        also have "\<dots> = (a + ?j) mod offset" using g by (metis add.commute mod_add_self2 dvd_def mod_mult_self2)
        finally show ?thesis ..
      qed
      finally show ?thesis .
    qed
  qed
  ultimately show ?thesis by blast
qed

lemma copied_mono: "copied mem0 src offset k mem \<Longrightarrow> j \<le> k \<Longrightarrow> copied mem0 src offset j mem"
  by (simp add: copied_def)

text \<open>What has been copied is the reference.\<close>

lemma copied_reference:
  assumes "copied mem0 src offset n mem" and "0 < offset" and "src + offset + n \<le> length mem0"
  shows "take (src + offset + n) mem = lz_match (take (src + offset) mem0) offset n"
proof -
  let ?h = "take (src + offset) mem0"
  have h: "length ?h = src + offset" using assms(3) by simp
  have len: "length mem = length mem0" using assms(1) by (simp add: copied_def)
  have "take (src + offset + n) mem = ?h @ lz_bytes ?h offset n"
  proof (rule nth_equalityI)
    show "length (take (src + offset + n) mem) = length (?h @ lz_bytes ?h offset n)" using h len assms(3) by simp
    fix i assume "i < length (take (src + offset + n) mem)"
    then have i: "i < src + offset + n" using len assms(3) by simp
    show "take (src + offset + n) mem ! i = (?h @ lz_bytes ?h offset n) ! i"
    proof (cases "i < src")
      case True
      have "mem ! i = take src mem ! i" using True by simp
      also have "\<dots> = mem0 ! i" using assms(1) True by (simp add: copied_def)
      finally show ?thesis using True i h by (simp add: nth_append)
    next
      case False
      let ?j = "i - src"
      have j: "?j < offset + n" "src + ?j = i" using False i by simp_all
      have "mem ! i = mem0 ! (src + ?j mod offset)" using assms(1) j unfolding copied_def by metis
      moreover have "?j mod offset < offset" using assms(2) by simp
      moreover have "(i - (src + offset)) mod offset = ?j mod offset" if "\<not> i < src + offset"
        using that by (simp add: le_mod_geq)
      ultimately show ?thesis using i h j assms(2)
        by (cases "i < src + offset") (simp_all add: nth_append lz_bytes_def)
    qed
  qed
  then show ?thesis using h assms(2) by (simp add: lz_match_bytes)
qed

lemma double_up_copied:
  assumes "copied mem0 src offset k mem" and "k = n \<or> offset dvd k" and "0 < k" and "k \<le> n" and "0 < offset"
    and "src + offset + n \<le> length mem0"
  shows "\<exists>mem'. double_up mem (src + offset) k n = Ok mem' \<and> copied mem0 src offset n mem'"
  using assms(1-4)
proof (induction "n - k" arbitrary: mem k rule: less_induct)
  case less
  show ?case
  proof (cases "k < n")
    case True
    let ?c = "min k (n - k)"
    have c: "?c \<noteq> 0" "k + ?c \<le> n" using True less.prems by simp_all
    have d: "offset dvd k" using less.prems True by simp
    have "\<exists>mem'. copy_nonoverlapping mem (src + offset) (src + offset + k) ?c = Ok mem' \<and> copied mem0 src offset (k + ?c) mem'"
      using copied_step [OF less.prems(1), of offset ?c] d assms(5,6) c by simp
    then obtain mem' where m: "copy_nonoverlapping mem (src + offset) (src + offset + k) ?c = Ok mem'"
      "copied mem0 src offset (k + ?c) mem'" by blast
    have "k + ?c = n \<or> offset dvd k + ?c" using d True by (auto simp: min_def)
    with less.hyps [of "k + ?c" mem'] m(2) c less.prems(3) True show ?thesis
      by (simp add: double_up.simps [of mem "src + offset" k n] Let_def m(1))
  next
    case False
    then have "k = n" using less.prems by simp
    then show ?thesis using less.prems by (simp add: double_up.simps [of mem "src + offset" n n])
  qed
qed

lemma copy_by_doubling_copied:
  assumes "0 < offset" and "0 < n" and "src + offset + n \<le> length mem"
  shows "\<exists>mem'. copy_match_by_doubling mem (src + offset) src offset n = Ok mem' \<and> copied mem src offset n mem'"
proof -
  let ?s = "min offset n"
  have "\<exists>mem'. copy_nonoverlapping mem (src + 0) (src + offset + 0) ?s = Ok mem' \<and> copied mem src offset (0 + ?s) mem'"
    using assms by (intro copied_step copied_0) simp_all
  then obtain mem' where m: "copy_nonoverlapping mem src (src + offset) ?s = Ok mem'" "copied mem src offset ?s mem'" by auto
  have "?s = n \<or> offset dvd ?s" by (auto simp: min_def)
  from double_up_copied [OF m(2) this _ _ assms(1,3)] assms m(1) show ?thesis
    by (simp add: copy_match_by_doubling_def)
qed

lemma wild16_copied:
  assumes "copied mem0 src offset k mem" and "16 \<le> offset" and "k < n" and "src + offset + n + 31 \<le> length mem0"
  shows "\<exists>mem'. wild16 mem (src + offset) src k n = Ok mem' \<and> copied mem0 src offset n mem'"
  using assms(1,3)
proof (induction "n - k" arbitrary: mem k rule: less_induct)
  case less
  have "\<exists>mem'. copy_nonoverlapping mem (src + k) (src + offset + k) 16 = Ok mem' \<and> copied mem0 src offset (k + 16) mem'"
    using less.prems assms(2,4) by (intro copied_step) simp_all
  then obtain m1 where m1: "copy_16 mem (src + offset + k) (src + k) = Ok m1" "copied mem0 src offset (k + 16) m1"
    by (auto simp: copy_16_def)
  have "\<exists>mem'. copy_nonoverlapping m1 (src + (k + 16)) (src + offset + (k + 16)) 16 = Ok mem' \<and> copied mem0 src offset (k + 16 + 16) mem'"
    using less.prems assms(2,4) by (intro copied_step m1(2)) simp_all
  then obtain m2 where m2: "copy_16 m1 (src + offset + (k + 16)) (src + (k + 16)) = Ok m2" "copied mem0 src offset (k + 32) m2"
    by (auto simp: copy_16_def add.assoc)
  note unf = wild16.simps [of mem "src + offset" src k n] m1(1) m2(1) and_then.simps
  show ?case
  proof (cases "n \<le> k + 32")
    case True
    then show ?thesis unfolding unf using copied_mono [OF m2(2)] by simp
  next
    case False
    with less.hyps [of "k + 32" m2] m2(2) show ?thesis unfolding unf by simp
  qed
qed

lemma wild8_copied:
  assumes "copied mem0 src offset k mem" and "offset dvd offset + k - a" and "a + 8 \<le> offset + k" and "0 < offset"
    and "src + offset + n + 7 \<le> length mem0"
  shows "\<exists>mem'. wild8 mem (src + offset + k) (src + a) (src + offset + n) = Ok mem' \<and> copied mem0 src offset (max k n) mem'"
  using assms(1-3)
proof (induction "n - k" arbitrary: mem k a rule: less_induct)
  case less
  show ?case
  proof (cases "k < n")
    case True
    have "\<exists>mem'. copy_nonoverlapping mem (src + a) (src + offset + k) 8 = Ok mem' \<and> copied mem0 src offset (k + 8) mem'"
      using less.prems assms(4,5) True by (intro copied_step) simp_all
    then obtain m where m: "copy_nonoverlapping mem (src + a) (src + offset + k) 8 = Ok m" "copied mem0 src offset (k + 8) m" by blast
    have "offset dvd offset + (k + 8) - (a + 8)" "a + 8 + 8 \<le> offset + (k + 8)" using less.prems by simp_all
    moreover have "n - (k + 8) < n - k" using True by linarith
    ultimately obtain m' where
      "wild8 m (src + offset + (k + 8)) (src + (a + 8)) (src + offset + n) = Ok m'" "copied mem0 src offset (max (k + 8) n) m'"
      using less.hyps [of "k + 8" m "a + 8"] m(2) by blast
    note rest = this
    have "src + offset + k + 8 = src + offset + (k + 8)" "src + a + 8 = src + (a + 8)" by simp_all
    with rest(1) True have "wild8 mem (src + offset + k) (src + a) (src + offset + n) = Ok m'"
      by (subst wild8.simps) (simp only: m(1) and_then.simps if_True add_less_cancel_left)
    then show ?thesis using True copied_mono [OF rest(2), of "max k n"] by simp
  next
    case False
    then show ?thesis using less.prems by (subst wild8.simps) (simp add: max_def)
  qed
qed

lemma overlap_start_copied:
  assumes "0 < offset" and "offset < 16" and "src + offset + 8 \<le> length mem"
  shows "\<exists>mem' a. overlap_start mem (src + offset) src offset = Ok (mem', src + a) \<and> copied mem src offset 8 mem'
    \<and> offset dvd offset + 8 - a \<and> a + 8 \<le> offset + 8"
proof (cases "offset < 8")
  case False
  have "\<exists>mem'. copy_nonoverlapping mem (src + 0) (src + offset + 0) 8 = Ok mem' \<and> copied mem src offset (0 + 8) mem'"
    using assms False by (intro copied_step copied_0) simp_all
  then obtain m where "copy_nonoverlapping mem src (src + offset) 8 = Ok m" "copied mem src offset 8 m" by auto
  then show ?thesis using False by (intro exI [of _ m] exI [of _ 8]) (simp add: overlap_start_def)
next
  case True
  have byte: "\<exists>m'. copy_byte m (src + offset + k) (src + k) = Ok m' \<and> copied mem src offset (k + 1) m'"
    if "copied mem src offset k m" "k < 8" for m k
  proof -
    have l: "length m = length mem" using that by (simp add: copied_def)
    have "\<exists>m'. copy_nonoverlapping m (src + k) (src + offset + k) 1 = Ok m' \<and> copied mem src offset (k + 1) m'"
      using that assms by (intro copied_step) simp_all
    moreover have "copy_nonoverlapping m (src + k) (src + offset + k) 1 = copy_byte m (src + offset + k) (src + k)"
      using l that assms by (simp add: copy_nonoverlapping_def copy_byte_def idx_def upd_def take_Suc hd_drop_conv_nth upd_conv_take_nth_drop)
    ultimately show ?thesis by simp
  qed
  from byte [OF copied_0 [OF assms(1)]] obtain m1 where m1: "copy_byte mem (src + offset) src = Ok m1" "copied mem src offset 1 m1" by auto
  from byte [OF m1(2)] obtain m2 where m2: "copy_byte m1 (src + offset + 1) (src + 1) = Ok m2" "copied mem src offset 2 m2"
    by (auto simp: numeral_2_eq_2)
  from byte [OF m2(2)] obtain m3 where m3: "copy_byte m2 (src + offset + 2) (src + 2) = Ok m3" "copied mem src offset 3 m3"
    by (auto simp: numeral_3_eq_3)
  from byte [OF m3(2)] obtain m4 where m4: "copy_byte m3 (src + offset + 3) (src + 3) = Ok m4" "copied mem src offset 4 m4"
    by auto
  let ?a = "DEC32TABLE ! offset" let ?b = "?a + 8 - DEC64TABLE ! offset"
  have o: "offset = 1 \<or> offset = 2 \<or> offset = 3 \<or> offset = 4 \<or> offset = 5 \<or> offset = 6 \<or> offset = 7"
    using True assms(1) by linarith
  have T: "?a \<le> offset" "offset dvd offset + 4 - ?a" "DEC64TABLE ! offset \<le> ?a + 8" "?b \<le> offset"
    "offset dvd offset + 8 - ?b"
    using o by (auto simp: DEC32TABLE_def DEC64TABLE_def)
  have i: "idx DEC32TABLE offset = Ok ?a" "idx DEC64TABLE offset = Ok (DEC64TABLE ! offset)"
    using True by (simp_all add: DEC32TABLE_def DEC64TABLE_def)
  have "\<exists>m5. copy_nonoverlapping m4 (src + ?a) (src + offset + 4) 4 = Ok m5 \<and> copied mem src offset (4 + 4) m5"
    using m4(2) T assms by (intro copied_step) simp_all
  then obtain m5 where m5: "copy_nonoverlapping m4 (src + ?a) (src + offset + 4) 4 = Ok m5" "copied mem src offset 8 m5" by auto
  have n: "nat (int (src + ?a) + (8 - int (DEC64TABLE ! offset))) = src + ?b" using T(3) by simp
  have "overlap_start mem (src + offset) src offset = Ok (m5, src + ?b)"
    unfolding overlap_start_def if_P [OF True] m1(1) m2(1) m3(1) m4(1) i and_then.simps m5(1) n ..
  then show ?thesis using m5(2) T by (intro exI [of _ m5] exI [of _ ?b]) simp
qed

text \<open>C34. The three match copies are the byte-wise copy: for a match at a distance of at least one byte behind the output
  position, with the slack of a wild copy behind it, the copy never breaks the contract of the unchecked memory
  operations, and the output up to the end of the match is that of copying one byte at a
  time.\<close>

theorem copy_match_reference:
  assumes "match_src < out_pos" and "0 < match_length" and "out_pos + match_length + WILDCOPY_OVERLENGTH \<le> length mem"
  shows "\<exists>mem'. copy_match_inline mem out_pos match_src match_length = Ok mem' \<and> length mem' = length mem
    \<and> take (out_pos + match_length) mem' = lz_match (take out_pos mem) (out_pos - match_src) match_length"
proof -
  let ?o = "out_pos - match_src"
  have o: "0 < ?o" "match_src + ?o = out_pos" "\<not> out_pos < match_src" using assms(1) by simp_all
  have room: "match_src + ?o + match_length + 32 \<le> length mem" using assms(3) o by (simp add: WILDCOPY_OVERLENGTH_def)
  have "\<exists>mem'. copy_match_inline mem out_pos match_src match_length = Ok mem' \<and> copied mem match_src ?o match_length mem'"
  proof -
    consider "PATTERN_DOUBLING_MIN \<le> match_length" | "\<not> PATTERN_DOUBLING_MIN \<le> match_length" "16 \<le> ?o"
      | "\<not> PATTERN_DOUBLING_MIN \<le> match_length" "\<not> 16 \<le> ?o" by blast
    then show ?thesis
    proof cases
      case 1
      then show ?thesis using copy_by_doubling_copied [OF o(1) assms(2), of match_src mem] room o
        by (simp add: copy_match_inline_def)
    next
      case 2
      have "\<exists>m. copy_nonoverlapping mem (match_src + 0) (match_src + ?o + 0) 16 = Ok m \<and> copied mem match_src ?o (0 + 16) m"
        using room 2 o(1) by (intro copied_step copied_0) simp_all
      then obtain m where m: "copy_16 mem out_pos match_src = Ok m" "copied mem match_src ?o 16 m"
        using o by (auto simp: copy_16_def)
      note unf = copy_match_inline_def Let_def if_not_P [OF o(3)] if_not_P [OF 2(1)] if_P [OF 2(2)] m(1) and_then.simps
      show ?thesis
      proof (cases "16 < match_length")
        case True
        with wild16_copied [OF m(2) 2(2) True] room o show ?thesis unfolding unf by simp
      next
        case False
        then show ?thesis unfolding unf using copied_mono [OF m(2)] by simp
      qed
    next
      case 3
      have "?o < 16" "match_src + ?o + 8 \<le> length mem" using 3 room by simp_all
      from overlap_start_copied [OF o(1) this] obtain m a where m: "overlap_start mem out_pos match_src ?o = Ok (m, match_src + a)"
        "copied mem match_src ?o 8 m" "?o dvd ?o + 8 - a" "a + 8 \<le> ?o + 8" unfolding o(2) by blast
      note unf = copy_match_inline_def Let_def if_not_P [OF o(3)] if_not_P [OF 3(1)] if_not_P [OF 3(2)] m(1) and_then.simps prod.case
      show ?thesis
      proof (cases "8 < match_length")
        case True
        with wild8_copied [OF m(2,3,4) o(1), of match_length] room o show ?thesis unfolding unf by (simp add: max_def)
      next
        case False
        then show ?thesis unfolding unf using copied_mono [OF m(2)] by simp
      qed
    qed
  qed
  then obtain mem' where m: "copy_match_inline mem out_pos match_src match_length = Ok mem'" "copied mem match_src ?o match_length mem'"
    by blast
  moreover have "length mem' = length mem" using m(2) by (simp add: copied_def)
  ultimately show ?thesis using copied_reference [OF m(2) o(1)] room o by simp
qed

theorem copy_match_reference_witness:
  "\<exists>mem'. copy_match_inline ([1, 2, 3] @ replicate 50 0) 3 0 7 = Ok mem' \<and> take 10 mem' = [1, 2, 3, 1, 2, 3, 1, 2, 3, 1]"
proof -
  have "lz_match (take 3 ([1, 2, 3] @ replicate 50 0)) (3 - 0) 7 = [1, 2, 3, 1, 2, 3, 1, 2, 3, 1 :: u8]"
    by (simp add: eval_nat_numeral)
  then show ?thesis
    using copy_match_reference [of 0 3 7 "[1, 2, 3] @ replicate 50 0"] by (auto simp: WILDCOPY_OVERLENGTH_def)
qed

end
