(* ===== verification/OutBuf.thy ===== *)
theory OutBuf
  imports Results
begin

section \<open>The encoder's output sink (outbuf.rs)\<close>

text \<open>
  \<open>OutBuf\<close> of \<open>src/src/outbuf.rs\<close>: a growable vector, or a fixed slice that stores
  what fits and counts what does not. Every operation is one definition; a slice range
  outside the buffer is a \<open>Fault\<close>, as the Rust indexing panics. The fixed sink is shown
  to simulate the growable one: its counters are those of the whole output and its bytes
  are the output's first bytes.
\<close>

record fixed_out =
  buf :: bytes
  stored :: usize
  dropped :: usize

datatype out_buf = Growable bytes | Fixed fixed_out

definition growable :: "bytes \<Rightarrow> out_buf" where
  "growable b = Growable b"

definition fixed :: "bytes \<Rightarrow> out_buf" where
  "fixed b = Fixed \<lparr>buf = b, stored = 0, dropped = 0\<rparr>"

fun out_len :: "out_buf \<Rightarrow> usize" where
  "out_len (Growable b) = length b"
| "out_len (Fixed f) = stored f + dropped f"

fun overflowed :: "out_buf \<Rightarrow> bool" where
  "overflowed (Growable b) = False"
| "overflowed (Fixed f) = (dropped f > 0)"

fun push :: "out_buf \<Rightarrow> u8 \<Rightarrow> out_buf result" where
  "push (Growable b) byte = Ok (Growable (b @ [byte]))"
| "push (Fixed f) byte =
     (if stored f < length (buf f)
      then and_then (upd (buf f) (stored f) byte) (\<lambda>b.
             Ok (Fixed (f\<lparr>buf := b, stored := stored f + 1\<rparr>)))
      else Ok (Fixed (f\<lparr>dropped := dropped f + 1\<rparr>)))"

fun extend_from_slice :: "out_buf \<Rightarrow> bytes \<Rightarrow> out_buf result" where
  "extend_from_slice (Growable b) src = Ok (Growable (b @ src))"
| "extend_from_slice (Fixed f) src =
     (if length (buf f) < stored f then Fault else
      let room = length (buf f) - stored f;
          fits = min room (length src)
      in and_then (copy_into (buf f) (stored f) (take fits src)) (\<lambda>b.
           Ok (Fixed (f\<lparr>buf := b, stored := stored f + fits,
                        dropped := dropped f + (length src - fits)\<rparr>))))"

text \<open>The loop \<open>for _ in current..new_len\<close> that pushes \<open>value\<close>.\<close>

fun push_times :: "nat \<Rightarrow> out_buf \<Rightarrow> u8 \<Rightarrow> out_buf result" where
  "push_times 0 out v = Ok out"
| "push_times (Suc n) out v = and_then (push out v) (\<lambda>out'. push_times n out' v)"

text \<open>\<open>resize\<close> starts with \<open>debug_assert!(new_len >= current)\<close>.\<close>

fun resize :: "out_buf \<Rightarrow> usize \<Rightarrow> u8 \<Rightarrow> out_buf result" where
  "resize (Growable b) new_len v =
     (if new_len < length b then Fault else Ok (Growable (b @ replicate (new_len - length b) v)))"
| "resize (Fixed f) new_len v =
     (if new_len < stored f + dropped f then Fault
      else push_times (new_len - (stored f + dropped f)) (Fixed f) v)"

fun truncate :: "out_buf \<Rightarrow> usize \<Rightarrow> out_buf" where
  "truncate (Growable b) new_len = Growable (take new_len b)"
| "truncate (Fixed f) new_len =
     (if stored f + dropped f \<le> new_len then Fixed f
      else let st = min new_len (length (buf f))
           in Fixed (f\<lparr>stored := st, dropped := new_len - st\<rparr>))"

fun write_at :: "out_buf \<Rightarrow> usize \<Rightarrow> bytes \<Rightarrow> out_buf result" where
  "write_at (Growable b) pos src = and_then (copy_into b pos src) (\<lambda>b'. Ok (Growable b'))"
| "write_at (Fixed f) pos src =
     (if pos + length src \<le> stored f
      then and_then (copy_into (buf f) pos src) (\<lambda>b'. Ok (Fixed (f\<lparr>buf := b'\<rparr>)))
      else Ok (Fixed f))"

fun as_slice :: "out_buf \<Rightarrow> bytes" where
  "as_slice (Growable b) = b"
| "as_slice (Fixed f) = take (stored f) (buf f)"

subsection \<open>Operations as a type, and their meaning on the whole output\<close>

datatype sink_op = Push u8 | Extend bytes | Resize usize u8 | Truncate usize | WriteAt usize bytes

fun outbuf_step :: "out_buf \<Rightarrow> sink_op \<Rightarrow> out_buf result" where
  "outbuf_step out (Push b) = push out b"
| "outbuf_step out (Extend src) = extend_from_slice out src"
| "outbuf_step out (Resize n v) = resize out n v"
| "outbuf_step out (Truncate n) = Ok (truncate out n)"
| "outbuf_step out (WriteAt p src) = write_at out p src"

fun outbuf_run :: "out_buf \<Rightarrow> sink_op list \<Rightarrow> out_buf result" where
  "outbuf_run out [] = Ok out"
| "outbuf_run out (a # as) = and_then (outbuf_step out a) (\<lambda>out'. outbuf_run out' as)"

text \<open>The abstract sink: the bytes written so far.\<close>

fun spec_step :: "bytes \<Rightarrow> sink_op \<Rightarrow> bytes" where
  "spec_step g (Push b) = g @ [b]"
| "spec_step g (Extend src) = g @ src"
| "spec_step g (Resize n v) = g @ replicate (n - length g) v"
| "spec_step g (Truncate n) = take n g"
| "spec_step g (WriteAt p src) = take p g @ src @ drop (p + length src) g"

text \<open>
  The documented preconditions: \<open>resize\<close> does not shrink, \<open>write_at\<close> overwrites what has
  been written. On a fixed sink of capacity \<open>cap\<close> a backfill must also not straddle the
  capacity, because it is then skipped whole.
\<close>

fun op_pre :: "nat option \<Rightarrow> bytes \<Rightarrow> sink_op \<Rightarrow> bool" where
  "op_pre cap g (Resize n v) = (length g \<le> n)"
| "op_pre cap g (WriteAt p src) =
     (p + length src \<le> length g \<and>
      (case cap of None \<Rightarrow> True | Some c \<Rightarrow> p + length src \<le> c \<or> c \<le> p))"
| "op_pre cap g _ = True"

fun ops_pre :: "nat option \<Rightarrow> bytes \<Rightarrow> sink_op list \<Rightarrow> bool" where
  "ops_pre cap g [] = True"
| "ops_pre cap g (a # as) = (op_pre cap g a \<and> ops_pre cap (spec_step g a) as)"

subsection \<open>The interface\<close>

text \<open>
  A sink is a state related to the bytes written so far; every operation whose
  precondition holds keeps the relation and does not fault.
\<close>

locale byte_sink =
  fixes rel :: "bytes \<Rightarrow> 's \<Rightarrow> bool"
    and step :: "'s \<Rightarrow> sink_op \<Rightarrow> 's result"
    and run :: "'s \<Rightarrow> sink_op list \<Rightarrow> 's result"
    and cap :: "nat option"
    and len :: "'s \<Rightarrow> nat"
    and over :: "'s \<Rightarrow> bool"
    and slice :: "'s \<Rightarrow> bytes"
  assumes step_rel: "rel g s \<Longrightarrow> op_pre cap g a \<Longrightarrow> \<exists>s'. step s a = Ok s' \<and> rel (spec_step g a) s'"
    and run_Nil: "run s [] = Ok s"
    and run_Cons: "run s (a # as) = and_then (step s a) (\<lambda>s'. run s' as)"
    and len_rel: "rel g s \<Longrightarrow> len s = length g"
    and over_rel: "rel g s \<Longrightarrow> over s \<longleftrightarrow> (case cap of None \<Rightarrow> False | Some c \<Rightarrow> c < length g)"
    and slice_rel: "rel g s \<Longrightarrow> slice s = (case cap of None \<Rightarrow> g | Some c \<Rightarrow> take c g)"
begin

lemma run_rel:
  "rel g s \<Longrightarrow> ops_pre cap g as \<Longrightarrow> \<exists>s'. run s as = Ok s' \<and> rel (foldl spec_step g as) s'"
proof (induction as arbitrary: g s)
  case Nil
  then show ?case by (simp add: run_Nil)
next
  case (Cons a as)
  from Cons.prems have pre: "op_pre cap g a" and rest: "ops_pre cap (spec_step g a) as" by auto
  from Cons.prems(1) pre obtain s1 where s1: "step s a = Ok s1" "rel (spec_step g a) s1"
    using step_rel by blast
  from Cons.IH [OF s1(2) rest] s1(1) show ?case by (simp add: run_Cons)
qed

lemma run_contents:
  assumes "rel g s" and "ops_pre cap g as"
  shows "\<exists>s'. run s as = Ok s' \<and> len s' = length (foldl spec_step g as) \<and>
     (\<not> over s' \<longrightarrow> slice s' = foldl spec_step g as)"
proof -
  obtain s' where s': "run s as = Ok s'" "rel (foldl spec_step g as) s'"
    using run_rel [OF assms] by blast
  moreover from s'(2) have "\<not> over s' \<Longrightarrow> slice s' = foldl spec_step g as"
    by (auto simp: over_rel slice_rel split: option.splits)
  ultimately show ?thesis using len_rel by blast
qed

end

subsection \<open>The two sinks implement it\<close>

definition grow_rel :: "bytes \<Rightarrow> out_buf \<Rightarrow> bool" where
  "grow_rel g out \<longleftrightarrow> out = Growable g"

definition fixed_rel :: "nat \<Rightarrow> bytes \<Rightarrow> out_buf \<Rightarrow> bool" where
  "fixed_rel c g out \<longleftrightarrow>
     (\<exists>f. out = Fixed f \<and> length (buf f) = c \<and> stored f = min (length g) c \<and>
          dropped f = length g - c \<and> take (stored f) (buf f) = take c g)"

lemma grow_step: "op_pre None g a \<Longrightarrow> outbuf_step (Growable g) a = Ok (Growable (spec_step g a))"
  by (cases a) (auto simp: copy_into_def)

interpretation growing: byte_sink grow_rel outbuf_step outbuf_run None out_len overflowed as_slice
  by unfold_locales (auto simp: grow_rel_def grow_step)

lemma fixed_relI:
  "length b = c \<Longrightarrow> s = min (length g) c \<Longrightarrow> d = length g - c \<Longrightarrow> take s b = take c g \<Longrightarrow>
   fixed_rel c g (Fixed \<lparr>buf = b, stored = s, dropped = d\<rparr>)"
  by (auto simp: fixed_rel_def)

lemma fixed_relE:
  assumes "fixed_rel c g out"
  obtains b where "out = Fixed \<lparr>buf = b, stored = min (length g) c, dropped = length g - c\<rparr>"
    and "length b = c" and "take (min (length g) c) b = take c g"
proof -
  from assms obtain f where f: "out = Fixed f" "length (buf f) = c" "stored f = min (length g) c"
      "dropped f = length g - c" "take (stored f) (buf f) = take c g"
    by (auto simp: fixed_rel_def)
  have "f = \<lparr>buf = buf f, stored = min (length g) c, dropped = length g - c\<rparr>"
    using f by simp
  then show thesis using that [of "buf f"] f by auto
qed

lemma take_update_last: "i < length b \<Longrightarrow> take (Suc i) (b[i := x]) = take i b @ [x]"
  by (simp add: take_Suc_conv_app_nth)

lemma fixed_push:
  assumes "fixed_rel c g out"
  shows "\<exists>out'. push out x = Ok out' \<and> fixed_rel c (g @ [x]) out'"
proof -
  from assms obtain b where out: "out = Fixed \<lparr>buf = b, stored = min (length g) c, dropped = length g - c\<rparr>"
    and b: "length b = c" "take (min (length g) c) b = take c g" by (rule fixed_relE)
  show ?thesis
  proof (cases "length g < c")
    case True
    then show ?thesis
      using b by (auto simp: out min_def take_update_last intro!: fixed_relI)
  next
    case False
    then show ?thesis
      using b by (auto simp: out min_def Suc_diff_le intro!: fixed_relI)
  qed
qed

lemma fixed_push_times:
  "fixed_rel c g out \<Longrightarrow> \<exists>out'. push_times n out x = Ok out' \<and> fixed_rel c (g @ replicate n x) out'"
proof (induction n arbitrary: g out)
  case 0
  then show ?case by simp
next
  case (Suc n)
  from fixed_push [OF Suc.prems] obtain out1 where
    1: "push out x = Ok out1" "fixed_rel c (g @ [x]) out1" by blast
  from Suc.IH [OF 1(2)] 1(1) show ?case by auto
qed

lemma room_dropped: "(g :: nat) - c + (s - min (c - min g c) s) = g + s - c"
  by (cases "g \<le> c") (auto simp: min_def)

lemma room_stored: "min (g :: nat) c + min (c - min g c) s = min (g + s) c"
  by (cases "g \<le> c") (auto simp: min_def)

lemma fixed_extend:
  assumes "fixed_rel c g out"
  shows "\<exists>out'. extend_from_slice out src = Ok out' \<and> fixed_rel c (g @ src) out'"
proof -
  from assms obtain b where out: "out = Fixed \<lparr>buf = b, stored = min (length g) c, dropped = length g - c\<rparr>"
    and b: "length b = c" "take (min (length g) c) b = take c g" by (rule fixed_relE)
  let ?s = "min (length g) c"
  let ?fits = "min (c - ?s) (length src)"
  let ?b = "take ?s b @ take ?fits src @ drop (?s + ?fits) b"
  have room: "?s + ?fits \<le> c" by (simp only: room_stored min.cobounded2)
  have "fixed_rel c (g @ src) (Fixed \<lparr>buf = ?b,
      stored = ?s + ?fits, dropped = length g - c + (length src - ?fits)\<rparr>)"
  proof (rule fixed_relI)
    show "length ?b = c" using b(1) room by auto
    show "?s + ?fits = min (length (g @ src)) c" by (simp only: length_append room_stored)
    show "length g - c + (length src - ?fits) = length (g @ src) - c"
      by (simp only: length_append room_dropped)
    show "take (?s + ?fits) ?b = take c (g @ src)"
      using b by (auto simp: min_def)
  qed
  moreover have "length (take ?fits src) = ?fits" by simp
  ultimately show ?thesis
    using b(1) room by (simp add: out copy_into_def Let_def)
qed

lemma fixed_truncate:
  assumes "fixed_rel c g out"
  shows "fixed_rel c (take n g) (truncate out n)"
proof -
  from assms obtain b where out: "out = Fixed \<lparr>buf = b, stored = min (length g) c, dropped = length g - c\<rparr>"
    and b: "length b = c" "take (min (length g) c) b = take c g" by (rule fixed_relE)
  have "take (min n c) b = take c (take n g)" if "n < length g"
  proof -
    have "min n (min (length g) c) = min n c" using that by simp
    then show ?thesis
      using arg_cong [OF b(2), of "take n"] by (simp add: min.commute)
  qed
  then show ?thesis
    using b by (auto simp: out Let_def min_def intro!: fixed_relI)
qed

lemma fixed_write_at:
  assumes "fixed_rel c g out" and "p + length src \<le> length g" and "p + length src \<le> c \<or> c \<le> p"
  shows "\<exists>out'. write_at out p src = Ok out' \<and>
    fixed_rel c (take p g @ src @ drop (p + length src) g) out'"
proof -
  from assms(1) obtain b where out: "out = Fixed \<lparr>buf = b, stored = min (length g) c, dropped = length g - c\<rparr>"
    and b: "length b = c" "take (min (length g) c) b = take c g" by (rule fixed_relE)
  let ?s = "min (length g) c"
  show ?thesis
  proof (cases "p + length src \<le> c")
    case True
    have "min p (min (length g) c) = p" "min p c = p" using True assms(2) by auto
    then have 1: "take p b = take p g"
      using arg_cong [OF b(2), of "take p"] by simp
    have 2: "take (?s - (p + length src)) (drop (p + length src) b) = drop (p + length src) (take c g)"
      using arg_cong [OF b(2), of "drop (p + length src)"] by (simp add: drop_take)
    have "take ?s (take p b @ src @ drop (p + length src) b) =
        take c (take p g @ src @ drop (p + length src) g)"
    proof -
      have "length g \<le> p \<longrightarrow> src = []" using assms(2) by (cases src) auto
      with True assms(2) b(1) 1 2 show ?thesis by (simp add: min_def drop_take split: if_splits)
    qed
    then show ?thesis
      using True assms(2) b by (auto simp: out copy_into_def intro!: fixed_relI)
  next
    case False
    then have "c \<le> p" using assms(3) by simp
    then have "take c (take p g @ src @ drop (p + length src) g) = take c g"
      using assms(2) by (simp add: min_def)
    then show ?thesis
      using False assms(2) b by (cases "length src") (auto simp: out intro!: fixed_relI)
  qed
qed

lemma fixed_step:
  assumes "fixed_rel c g out" and "op_pre (Some c) g a"
  shows "\<exists>out'. outbuf_step out a = Ok out' \<and> fixed_rel c (spec_step g a) out'"
proof (cases a)
  case (Resize n v)
  from assms(1) obtain b where out: "out = Fixed \<lparr>buf = b, stored = min (length g) c, dropped = length g - c\<rparr>"
    by (rule fixed_relE)
  have len: "min (length g) c + (length g - c) = length g" by simp
  from assms(2) Resize have "length g \<le> n" by simp
  then show ?thesis
    using fixed_push_times [OF assms(1), of "n - length g" v] Resize by (simp add: out len)
qed (use assms fixed_push fixed_extend fixed_truncate fixed_write_at in auto)

interpretation bounded: byte_sink "fixed_rel c" outbuf_step outbuf_run "Some c" out_len overflowed as_slice
  for c
proof unfold_locales
  fix g s a
  assume "fixed_rel c g s" "op_pre (Some c) g a"
  then show "\<exists>s'. outbuf_step s a = Ok s' \<and> fixed_rel c (spec_step g a) s'" by (rule fixed_step)
qed (auto elim!: fixed_relE)

subsection \<open>Properties\<close>



text \<open>C18. The fixed sink simulates the growable one: it stores what fits and counts the rest, so its
  length is that of the whole output, it reports an overflow exactly when the output is longer
  than the slice, and its bytes are the output's first bytes. A backfill that straddles the end
  of the slice is excluded, because the sink then skips all of it.\<close>

theorem fixed_sink_simulates:
  assumes "ops_pre (Some (length b)) [] ops"
  defines "g \<equiv> foldl spec_step [] ops"
  shows "\<exists>out. outbuf_run (fixed b) ops = Ok out \<and> out_len out = length g
    \<and> (overflowed out \<longleftrightarrow> length b < length g) \<and> as_slice out = take (length b) g"
proof -
  have "fixed_rel (length b) [] (fixed b)" by (simp add: fixed_rel_def fixed_def)
  from bounded.run_rel [OF this assms(1)] obtain out where
    "outbuf_run (fixed b) ops = Ok out" "fixed_rel (length b) g out" unfolding g_def by blast
  then show ?thesis
    using bounded.len_rel bounded.over_rel bounded.slice_rel by fastforce
qed

theorem fixed_sink_simulates_witness:
  "\<exists>out. outbuf_run (fixed [0, 0, 0]) [Extend [1, 2], Push 3, Push 4, WriteAt 0 [8]] = Ok out
     \<and> out_len out = 4 \<and> overflowed out \<and> as_slice out = [8, 2, 3]"
  using fixed_sink_simulates [of "[0, 0, 0]" "[Extend [1, 2], Push 3, Push 4, WriteAt 0 [8]]"]
  by (simp add: numeral_eq_Suc)

end
