(* ===== verification/SeqCodes.thy ===== *)
theory SeqCodes
  imports FseNorm OutBuf
begin

section \<open>Sequence codes, counts and repeat offsets (sequence.rs)\<close>

text \<open>
  The parts of \<open>src/src/sequence.rs\<close> that turn the three numbers of a sequence into codes with extra
  bits, and offsets into offset values relative to the last three offsets. Values are
  numbers in the range of \<open>u32\<close>, with the checked additions written out, and a debug assertion that does
  not hold is a \<open>Fault\<close>.
\<close>

definition LITERAL_LENGTH_BASELINES :: "nat list" where
  "LITERAL_LENGTH_BASELINES =
     [0, 1, 2, 3, 4, 5, 6, 7, 8, 9, 10, 11, 12, 13, 14, 15, 16, 18, 20, 22, 24, 28, 32, 40, 48, 64, 128,
      256, 512, 1024, 2048, 4096, 8192, 16384, 32768, 65536]"

definition LITERAL_LENGTH_EXTRA_BITS :: "nat list" where
  "LITERAL_LENGTH_EXTRA_BITS =
     [0, 0, 0, 0, 0, 0, 0, 0, 0, 0, 0, 0, 0, 0, 0, 0, 1, 1, 1, 1, 2, 2, 3, 3, 4, 6, 7, 8, 9, 10, 11, 12,
      13, 14, 15, 16]"

definition MATCH_LENGTH_BASELINES :: "nat list" where
  "MATCH_LENGTH_BASELINES =
     [3, 4, 5, 6, 7, 8, 9, 10, 11, 12, 13, 14, 15, 16, 17, 18, 19, 20, 21, 22, 23, 24, 25, 26, 27, 28, 29,
      30, 31, 32, 33, 34, 35, 37, 39, 41, 43, 47, 51, 59, 67, 83, 99, 131, 259, 515, 1027, 2051, 4099,
      8195, 16387, 32771, 65539]"

definition MATCH_LENGTH_EXTRA_BITS :: "nat list" where
  "MATCH_LENGTH_EXTRA_BITS =
     [0, 0, 0, 0, 0, 0, 0, 0, 0, 0, 0, 0, 0, 0, 0, 0, 0, 0, 0, 0, 0, 0, 0, 0, 0, 0, 0, 0, 0, 0, 0, 0, 1, 1,
      1, 1, 2, 2, 3, 3, 4, 4, 5, 7, 8, 9, 10, 11, 12, 13, 14, 15, 16]"

definition LITERAL_LENGTH_CODE_TABLE :: "nat list" where
  "LITERAL_LENGTH_CODE_TABLE =
     [0, 1, 2, 3, 4, 5, 6, 7, 8, 9, 10, 11, 12, 13, 14, 15, 16, 16, 17, 17, 18, 18, 19, 19, 20, 20, 20, 20,
      21, 21, 21, 21, 22, 22, 22, 22, 22, 22, 22, 22, 23, 23, 23, 23, 23, 23, 23, 23, 24, 24, 24, 24, 24,
      24, 24, 24, 24, 24, 24, 24, 24, 24, 24, 24]"

definition MATCH_LENGTH_CODE_TABLE :: "nat list" where
  "MATCH_LENGTH_CODE_TABLE =
     [0, 1, 2, 3, 4, 5, 6, 7, 8, 9, 10, 11, 12, 13, 14, 15, 16, 17, 18, 19, 20, 21, 22, 23, 24, 25, 26, 27,
      28, 29, 30, 31, 32, 32, 33, 33, 34, 34, 35, 35, 36, 36, 36, 36, 37, 37, 37, 37, 38, 38, 38, 38, 38,
      38, 38, 38, 39, 39, 39, 39, 39, 39, 39, 39, 40, 40, 40, 40, 40, 40, 40, 40, 40, 40, 40, 40, 40, 40,
      40, 40, 41, 41, 41, 41, 41, 41, 41, 41, 41, 41, 41, 41, 41, 41, 41, 41, 42, 42, 42, 42, 42, 42, 42,
      42, 42, 42, 42, 42, 42, 42, 42, 42, 42, 42, 42, 42, 42, 42, 42, 42, 42, 42, 42, 42, 42, 42, 42, 42]"

definition LITERAL_LENGTH_DEFAULT_DISTRIBUTION :: "int list" where
  "LITERAL_LENGTH_DEFAULT_DISTRIBUTION =
     [4, 3, 2, 2, 2, 2, 2, 2, 2, 2, 2, 2, 2, 1, 1, 1, 2, 2, 2, 2, 2, 2, 2, 2, 2, 3, 2, 1, 1, 1, 1, 1, - 1,
      - 1, - 1, - 1]"

definition OFFSET_DEFAULT_DISTRIBUTION :: "int list" where
  "OFFSET_DEFAULT_DISTRIBUTION =
     [1, 1, 1, 1, 1, 1, 2, 2, 2, 1, 1, 1, 1, 1, 1, 1, 1, 1, 1, 1, 1, 1, 1, 1, - 1, - 1, - 1, - 1, - 1]"

definition MATCH_LENGTH_DEFAULT_DISTRIBUTION :: "int list" where
  "MATCH_LENGTH_DEFAULT_DISTRIBUTION =
     [1, 4, 3, 2, 2, 2, 2, 2, 2, 1, 1, 1, 1, 1, 1, 1, 1, 1, 1, 1, 1, 1, 1, 1, 1, 1, 1, 1, 1, 1, 1, 1, 1, 1,
      1, 1, 1, 1, 1, 1, 1, 1, 1, 1, 1, 1, - 1, - 1, - 1, - 1, - 1, - 1, - 1]"

definition LL_DEFAULT_LOG :: nat where "LL_DEFAULT_LOG = 6"
definition OF_DEFAULT_LOG :: nat where "OF_DEFAULT_LOG = 5"
definition ML_DEFAULT_LOG :: nat where "ML_DEFAULT_LOG = 6"

subsection \<open>Codes\<close>

record sequence_command =
  literal_length :: nat
  match_length :: nat
  offset_value :: nat

record encoded_sequence =
  ll_code :: nat
  ll_extra :: nat
  of_code :: nat
  of_extra :: nat
  ml_code :: nat
  ml_extra :: nat

definition literal_length_code :: "nat \<Rightarrow> nat result" where
  "literal_length_code n =
     (if n \<le> 63 then idx LITERAL_LENGTH_CODE_TABLE n
      else if n \<le> 0x1FFFF then and_then (highbit32 n) (\<lambda>b. Ok (b + 19))
      else Err (InvalidParameter ''literal length exceeds the supported range''))"

definition match_length_code :: "nat \<Rightarrow> nat result" where
  "match_length_code n =
     (if n < 3 then Err (InvalidParameter ''match length must be at least 3 bytes'') else
      let ml_base = n - 3 in
      if ml_base \<le> 127 then idx MATCH_LENGTH_CODE_TABLE ml_base
      else if ml_base \<le> 0x1FFFF then and_then (highbit32 ml_base) (\<lambda>b. Ok (b + 36))
      else Err (InvalidParameter ''match length exceeds the supported range''))"

definition offset_code :: "nat \<Rightarrow> nat result" where
  "offset_code v = (if v = 0 then Err (InvalidParameter ''offset value must be non-zero'') else highbit32 v)"

definition literal_length_code_unchecked :: "nat \<Rightarrow> nat result" where
  "literal_length_code_unchecked n =
     (if n \<le> 63 then idx LITERAL_LENGTH_CODE_TABLE n
      else if \<not> n \<le> 0x1FFFF then Fault else and_then (highbit32 n) (\<lambda>b. Ok ((b + 19) mod 256)))"

definition match_length_code_unchecked :: "nat \<Rightarrow> nat result" where
  "match_length_code_unchecked n =
     (if n < 3 then Fault else
      let ml_base = n - 3 in
      if ml_base \<le> 127 then idx MATCH_LENGTH_CODE_TABLE ml_base
      else if \<not> ml_base \<le> 0x1FFFF then Fault else and_then (highbit32 ml_base) (\<lambda>b. Ok ((b + 36) mod 256)))"

definition offset_code_unchecked :: "nat \<Rightarrow> nat result" where
  "offset_code_unchecked v = (if v = 0 then Fault else and_then (highbit32 v) (\<lambda>b. Ok (b mod 256)))"

definition ll_bits :: "nat \<Rightarrow> nat result" where
  "ll_bits code = idx LITERAL_LENGTH_EXTRA_BITS code"

definition ml_bits :: "nat \<Rightarrow> nat result" where
  "ml_bits code = idx MATCH_LENGTH_EXTRA_BITS code"

definition encode_sequence_command :: "sequence_command \<Rightarrow> encoded_sequence result" where
  "encode_sequence_command s =
     and_then (literal_length_code (literal_length s)) (\<lambda>llc.
     and_then (match_length_code (match_length s)) (\<lambda>mlc.
     and_then (offset_code (offset_value s)) (\<lambda>ofc.
     and_then (idx LITERAL_LENGTH_BASELINES llc) (\<lambda>ll_base.
     and_then (sub_nat (literal_length s) ll_base) (\<lambda>lle.
     and_then (sub_nat (offset_value s) (2 ^ ofc)) (\<lambda>ofe.
     and_then (idx MATCH_LENGTH_BASELINES mlc) (\<lambda>ml_base.
     and_then (sub_nat (match_length s) ml_base) (\<lambda>mle.
       Ok \<lparr>ll_code = llc, ll_extra = lle, of_code = ofc, of_extra = ofe, ml_code = mlc, ml_extra = mle\<rparr>))))))))"

subsection \<open>Repeat offsets\<close>

record repeat_offsets =
  rep1 :: nat
  rep2 :: nat
  rep3 :: nat

definition repeat_offsets_default :: repeat_offsets where
  "repeat_offsets_default = \<lparr>rep1 = 1, rep2 = 4, rep3 = 8\<rparr>"

definition classify_offset :: "repeat_offsets \<Rightarrow> nat \<Rightarrow> nat \<Rightarrow> nat result" where
  "classify_offset r raw_offset ll =
     (if raw_offset = 0 then Fault
      else if ll \<noteq> 0 \<and> raw_offset = rep1 r then Ok 1
      else if raw_offset = rep2 r then Ok (if ll = 0 then 1 else 2)
      else if raw_offset = rep3 r then Ok (if ll = 0 then 2 else 3)
      else if ll = 0 \<and> 1 < rep1 r \<and> raw_offset = rep1 r - 1 then Ok 3
      else add_u32 raw_offset 3)"

definition encode_offset_value_and_update :: "repeat_offsets \<Rightarrow> nat \<Rightarrow> nat \<Rightarrow> (nat \<times> repeat_offsets) result" where
  "encode_offset_value_and_update r raw_offset ll =
     (if raw_offset = 0 then Fault
      else if ll \<noteq> 0 \<and> raw_offset = rep1 r then Ok (1, r)
      else if raw_offset = rep2 r
      then Ok (if ll = 0 then 1 else 2, \<lparr>rep1 = rep2 r, rep2 = rep1 r, rep3 = rep3 r\<rparr>)
      else if raw_offset = rep3 r
      then Ok (if ll = 0 then 2 else 3, \<lparr>rep1 = rep3 r, rep2 = rep1 r, rep3 = rep2 r\<rparr>)
      else if ll = 0 \<and> 1 < rep1 r \<and> raw_offset = rep1 r - 1
      then Ok (3, \<lparr>rep1 = rep1 r - 1, rep2 = rep1 r, rep3 = rep2 r\<rparr>)
      else and_then (add_u32 raw_offset 3) (\<lambda>v. Ok (v, \<lparr>rep1 = raw_offset, rep2 = rep1 r, rep3 = rep2 r\<rparr>)))"

definition update_explicit_offset :: "repeat_offsets \<Rightarrow> nat \<Rightarrow> (nat \<times> repeat_offsets) result" where
  "update_explicit_offset r raw_offset =
     (if raw_offset = 0 then Fault
      else and_then (add_u32 raw_offset 3) (\<lambda>v. Ok (v, \<lparr>rep1 = raw_offset, rep2 = rep1 r, rep3 = rep2 r\<rparr>)))"

definition encode_offset_value :: "repeat_offsets \<Rightarrow> nat \<Rightarrow> nat \<Rightarrow> (nat \<times> repeat_offsets) result" where
  "encode_offset_value r raw_offset ll =
     (if raw_offset = 0 then Err (InvalidParameter ''raw_offset must be non-zero'')
      else encode_offset_value_and_update r raw_offset ll)"

definition resolve_zero_literal_rep2_encode :: "repeat_offsets \<Rightarrow> (nat \<times> repeat_offsets) result" where
  "resolve_zero_literal_rep2_encode r =
     (if rep2 r = 0 then Fault else Ok (rep2 r, \<lparr>rep1 = rep2 r, rep2 = rep1 r, rep3 = rep3 r\<rparr>))"

text \<open>Rotating the resolved offset to the front.\<close>

definition rotate_offsets :: "repeat_offsets \<Rightarrow> nat \<Rightarrow> nat \<Rightarrow> repeat_offsets" where
  "rotate_offsets r rep_index offset =
     (if 1 < rep_index
      then \<lparr>rep1 = offset, rep2 = rep1 r, rep3 = (if rep_index = 2 then rep3 r else rep2 r)\<rparr> else r)"

definition resolve_values :: "repeat_offsets \<Rightarrow> nat \<Rightarrow> nat \<Rightarrow> (nat \<times> repeat_offsets) result" where
  "resolve_values r ll v =
     (if 3 < v then Ok (v - 3, \<lparr>rep1 = v - 3, rep2 = rep1 r, rep3 = rep2 r\<rparr>)
      else if v = 0 then Err (Corruption ''sequence offset value is zero'') else
      let rep_index = v + of_bool (ll = 0) in
      and_then (if rep_index = 1 then Ok (rep1 r) else if rep_index = 2 then Ok (rep2 r)
                else if rep_index = 3 then Ok (rep3 r)
                else if rep1 r \<le> 1 then Err (Corruption ''repeat offset 1 minus 1 is zero'') else Ok (rep1 r - 1))
        (\<lambda>offset. Ok (offset, rotate_offsets r rep_index offset)))"

definition resolve_encode :: "repeat_offsets \<Rightarrow> nat \<Rightarrow> nat \<Rightarrow> (nat \<times> repeat_offsets) result" where
  "resolve_encode r ll v =
     (if v = 0 then Fault
      else if 3 < v then Ok (v - 3, \<lparr>rep1 = v - 3, rep2 = rep1 r, rep3 = rep2 r\<rparr>) else
      let rep_index = v + of_bool (ll = 0) in
      and_then (if rep_index = 1 then Ok (rep1 r) else if rep_index = 2 then Ok (rep2 r)
                else if rep_index = 3 then Ok (rep3 r)
                else if rep1 r \<le> 1 then Fault else Ok (rep1 r - 1))
        (\<lambda>offset. Ok (offset, rotate_offsets r rep_index offset)))"

definition resolve :: "repeat_offsets \<Rightarrow> sequence_command \<Rightarrow> (nat \<times> repeat_offsets) result" where
  "resolve r s = resolve_values r (literal_length s) (offset_value s)"

definition estimate_sequence_bit_cost :: "nat \<Rightarrow> nat \<Rightarrow> nat \<Rightarrow> repeat_offsets \<Rightarrow> nat result" where
  "estimate_sequence_bit_cost raw_offset ll ml r =
     and_then (encode_offset_value r raw_offset ll) (\<lambda>(v, _).
     and_then (literal_length_code ll) (\<lambda>llc.
     and_then (match_length_code ml) (\<lambda>mlc.
     and_then (offset_code v) (\<lambda>ofc.
     and_then (ll_bits llc) (\<lambda>a. and_then (ml_bits mlc) (\<lambda>b. Ok (a + b + ofc + 22)))))))"

subsection \<open>The number of sequences\<close>

definition parse_sequence_count :: "bytes \<Rightarrow> (usize \<times> usize) result" where
  "parse_sequence_count src =
     and_then (ok_or (slice_get src 0) UnexpectedEof) (\<lambda>byte0.
     if byte0 < 128 then Ok (unat byte0, 1)
     else if byte0 < 255 then
       and_then (ok_or (slice_get src 1) UnexpectedEof) (\<lambda>byte1. Ok ((unat byte0 - 128) * 256 + unat byte1, 2))
     else
       and_then (ok_or (slice_get src 1) UnexpectedEof) (\<lambda>byte1.
       and_then (ok_or (slice_get src 2) UnexpectedEof) (\<lambda>byte2.
         Ok (0x7F00 + unat byte1 + unat byte2 * 256, 3))))"

definition encode_sequence_count_unchecked :: "nat \<Rightarrow> out_buf \<Rightarrow> out_buf result" where
  "encode_sequence_count_unchecked n dst =
     (if n < 128 then push dst (word_of_nat n)
      else if n < 0x7F00 then
        (if 256 \<le> 128 + n div 256 mod 256 then Fault else
         and_then (push dst (128 + word_of_nat (n div 256))) (\<lambda>dst. push dst (word_of_nat (n mod 256))))
      else
        let value = n - 0x7F00 in
        and_then (push dst 255) (\<lambda>dst.
        and_then (push dst (word_of_nat (value mod 256))) (\<lambda>dst. push dst (word_of_nat (value div 256 mod 256)))))"

definition encode_sequence_count :: "nat \<Rightarrow> out_buf \<Rightarrow> out_buf result" where
  "encode_sequence_count n dst =
     (if 2 ^ 16 + 0x7F00 \<le> n then Err (InvalidParameter ''too many sequences in one block'')
      else encode_sequence_count_unchecked n dst)"

definition encoded_sequence_count_size :: "nat \<Rightarrow> nat" where
  "encoded_sequence_count_size n = (if n < 128 then 1 else if n < 0x7F00 then 2 else 3)"

subsection \<open>Every value has a code\<close>

definition code_covers :: "nat list \<Rightarrow> nat list \<Rightarrow> nat \<Rightarrow> nat \<Rightarrow> bool" where
  "code_covers baselines extra_bits n code \<longleftrightarrow> code < length baselines \<and> code < length extra_bits
     \<and> baselines ! code \<le> n \<and> n < baselines ! code + 2 ^ (extra_bits ! code)"

text \<open>A property of each entry of a table and its index.\<close>

fun each_entry :: "(nat \<Rightarrow> 'a \<Rightarrow> bool) \<Rightarrow> nat \<Rightarrow> 'a list \<Rightarrow> bool" where
  "each_entry P n [] = True"
| "each_entry P n (x # xs) = (P n x \<and> each_entry P (n + 1) xs)"

lemma each_entry_nth: "each_entry P n xs \<Longrightarrow> i < length xs \<Longrightarrow> P (n + i) (xs ! i)"
  by (induction P n xs arbitrary: i rule: each_entry.induct) (auto simp: nth_Cons split: nat.splits)

lemma ll_short_codes:
  assumes "n < 64"
  shows "code_covers LITERAL_LENGTH_BASELINES LITERAL_LENGTH_EXTRA_BITS n (LITERAL_LENGTH_CODE_TABLE ! n)"
proof -
  have "each_entry (code_covers LITERAL_LENGTH_BASELINES LITERAL_LENGTH_EXTRA_BITS) 0 LITERAL_LENGTH_CODE_TABLE"
    by (simp add: code_covers_def LITERAL_LENGTH_BASELINES_def LITERAL_LENGTH_EXTRA_BITS_def LITERAL_LENGTH_CODE_TABLE_def)
  from each_entry_nth [OF this, of n] show ?thesis using assms by (simp add: LITERAL_LENGTH_CODE_TABLE_def)
qed

lemma ml_short_codes:
  assumes "n < 128"
  shows "code_covers MATCH_LENGTH_BASELINES MATCH_LENGTH_EXTRA_BITS (n + 3) (MATCH_LENGTH_CODE_TABLE ! n)"
proof -
  have "each_entry (\<lambda>n. code_covers MATCH_LENGTH_BASELINES MATCH_LENGTH_EXTRA_BITS (n + 3)) 0 MATCH_LENGTH_CODE_TABLE"
    by (simp add: code_covers_def MATCH_LENGTH_BASELINES_def MATCH_LENGTH_EXTRA_BITS_def MATCH_LENGTH_CODE_TABLE_def)
  from each_entry_nth [OF this, of n] show ?thesis using assms by (simp add: MATCH_LENGTH_CODE_TABLE_def)
qed

lemma ll_long_codes:
  assumes "6 \<le> b" and "b \<le> 16"
  shows "LITERAL_LENGTH_BASELINES ! (b + 19) = 2 ^ b" and "LITERAL_LENGTH_EXTRA_BITS ! (b + 19) = b"
proof -
  have "b = 6 \<or> b = 7 \<or> b = 8 \<or> b = 9 \<or> b = 10 \<or> b = 11 \<or> b = 12 \<or> b = 13 \<or> b = 14 \<or> b = 15 \<or> b = 16"
    using assms by presburger
  then show "LITERAL_LENGTH_BASELINES ! (b + 19) = 2 ^ b" "LITERAL_LENGTH_EXTRA_BITS ! (b + 19) = b"
    by (auto simp: LITERAL_LENGTH_BASELINES_def LITERAL_LENGTH_EXTRA_BITS_def)
qed

lemma ml_long_codes:
  assumes "7 \<le> b" and "b \<le> 16"
  shows "MATCH_LENGTH_BASELINES ! (b + 36) = 2 ^ b + 3" and "MATCH_LENGTH_EXTRA_BITS ! (b + 36) = b"
proof -
  have "b = 7 \<or> b = 8 \<or> b = 9 \<or> b = 10 \<or> b = 11 \<or> b = 12 \<or> b = 13 \<or> b = 14 \<or> b = 15 \<or> b = 16"
    using assms by presburger
  then show "MATCH_LENGTH_BASELINES ! (b + 36) = 2 ^ b + 3" "MATCH_LENGTH_EXTRA_BITS ! (b + 36) = b"
    by (auto simp: MATCH_LENGTH_BASELINES_def MATCH_LENGTH_EXTRA_BITS_def)
qed

lemma table_lengths [simp]:
  "length LITERAL_LENGTH_BASELINES = 36" "length LITERAL_LENGTH_EXTRA_BITS = 36"
  "length MATCH_LENGTH_BASELINES = 53" "length MATCH_LENGTH_EXTRA_BITS = 53"
  "length LITERAL_LENGTH_CODE_TABLE = 64" "length MATCH_LENGTH_CODE_TABLE = 128"
  by (simp_all add: LITERAL_LENGTH_BASELINES_def LITERAL_LENGTH_EXTRA_BITS_def MATCH_LENGTH_BASELINES_def
      MATCH_LENGTH_EXTRA_BITS_def LITERAL_LENGTH_CODE_TABLE_def MATCH_LENGTH_CODE_TABLE_def)

lemma log2_within: "2 ^ a \<le> n \<Longrightarrow> n < 2 ^ Suc c \<Longrightarrow> a \<le> log2 n \<and> log2 n \<le> c"
proof -
  assume a: "2 ^ a \<le> n" "n < 2 ^ Suc c"
  then have "0 < n" by (auto intro: ccontr)
  then show "a \<le> log2 n \<and> log2 n \<le> c" using log2_less_iff [of n a] log2_less_iff [of n "Suc c"] a by simp
qed

lemma literal_length_code_spec:
  assumes "n \<le> 0x1FFFF"
  shows "\<exists>c. literal_length_code n = Ok c \<and> literal_length_code_unchecked n = Ok c
    \<and> code_covers LITERAL_LENGTH_BASELINES LITERAL_LENGTH_EXTRA_BITS n c"
proof (cases "n \<le> 63")
  case True
  then show ?thesis using ll_short_codes [of n] by (simp add: literal_length_code_def literal_length_code_unchecked_def idx_def)
next
  case False
  have b: "6 \<le> log2 n" "log2 n \<le> 16" using log2_within [of 6 n 16] False assms by simp_all
  have "2 ^ log2 n \<le> n" "n < 2 ^ Suc (log2 n)" using log2_le [of n] log2_less [of n] False by simp_all
  then have "code_covers LITERAL_LENGTH_BASELINES LITERAL_LENGTH_EXTRA_BITS n (log2 n + 19)"
    using b ll_long_codes [OF b] by (simp add: code_covers_def)
  then show ?thesis using False assms b by (simp add: literal_length_code_def literal_length_code_unchecked_def)
qed

lemma match_length_code_spec:
  assumes "3 \<le> n" and "n \<le> 0x1FFFF + 3"
  shows "\<exists>c. match_length_code n = Ok c \<and> match_length_code_unchecked n = Ok c
    \<and> code_covers MATCH_LENGTH_BASELINES MATCH_LENGTH_EXTRA_BITS n c"
proof (cases "n - 3 \<le> 127")
  case True
  then show ?thesis using ml_short_codes [of "n - 3"] assms(1)
    by (simp add: match_length_code_def match_length_code_unchecked_def idx_def)
next
  case False
  let ?m = "n - 3"
  have m: "?m \<le> 0x1FFFF" "?m \<noteq> 0" using assms False by simp_all
  have b: "7 \<le> log2 ?m" "log2 ?m \<le> 16" using log2_within [of 7 ?m 16] False assms by simp_all
  have "2 ^ log2 ?m \<le> ?m" "?m < 2 ^ Suc (log2 ?m)" using log2_le [of ?m] log2_less [of ?m] m by simp_all
  then have "code_covers MATCH_LENGTH_BASELINES MATCH_LENGTH_EXTRA_BITS n (log2 ?m + 36)"
    using b ml_long_codes [OF b] assms(1) by (simp add: code_covers_def) linarith
  then show ?thesis using False assms m b by (simp add: match_length_code_def match_length_code_unchecked_def)
qed

lemma offset_code_spec:
  assumes "0 < n" and "n < 2 ^ 32"
  shows "offset_code n = Ok (log2 n)" and "offset_code_unchecked n = Ok (log2 n)"
    and "log2 n < 32" and "2 ^ log2 n \<le> n" and "n < 2 ^ log2 n + 2 ^ log2 n"
proof -
  show l: "log2 n < 32" using log2_less_iff [OF assms(1)] assms(2) by simp
  show "offset_code n = Ok (log2 n)" "offset_code_unchecked n = Ok (log2 n)"
    using assms l by (simp_all add: offset_code_def offset_code_unchecked_def)
  show "2 ^ log2 n \<le> n" "n < 2 ^ log2 n + 2 ^ log2 n" using log2_le [OF assms(1)] log2_less [of n] by simp_all
qed

text \<open>C32. Every sequence in range has codes: each code is in its table, its baseline plus the extra value is the
  number that was encoded, and the extra value fits the extra bits of the code. The encoder's unchecked
  code functions give the same codes.\<close>

theorem sequence_codes_cover:
  assumes "literal_length s \<le> 0x1FFFF" and "3 \<le> match_length s" and "match_length s \<le> 0x1FFFF + 3"
    and "0 < offset_value s" and "offset_value s < 2 ^ 32"
  shows "\<exists>e. encode_sequence_command s = Ok e
    \<and> ll_code e < 36 \<and> ml_code e < 53 \<and> of_code e < 32
    \<and> LITERAL_LENGTH_BASELINES ! ll_code e + ll_extra e = literal_length s
    \<and> ll_extra e < 2 ^ (LITERAL_LENGTH_EXTRA_BITS ! ll_code e)
    \<and> MATCH_LENGTH_BASELINES ! ml_code e + ml_extra e = match_length s
    \<and> ml_extra e < 2 ^ (MATCH_LENGTH_EXTRA_BITS ! ml_code e)
    \<and> 2 ^ of_code e + of_extra e = offset_value s \<and> of_extra e < 2 ^ of_code e
    \<and> literal_length_code_unchecked (literal_length s) = Ok (ll_code e)
    \<and> match_length_code_unchecked (match_length s) = Ok (ml_code e)
    \<and> offset_code_unchecked (offset_value s) = Ok (of_code e)"
proof -
  obtain l where l: "literal_length_code (literal_length s) = Ok l" "literal_length_code_unchecked (literal_length s) = Ok l"
    "code_covers LITERAL_LENGTH_BASELINES LITERAL_LENGTH_EXTRA_BITS (literal_length s) l"
    using literal_length_code_spec [OF assms(1)] by blast
  obtain m where m: "match_length_code (match_length s) = Ok m" "match_length_code_unchecked (match_length s) = Ok m"
    "code_covers MATCH_LENGTH_BASELINES MATCH_LENGTH_EXTRA_BITS (match_length s) m"
    using match_length_code_spec [OF assms(2,3)] by blast
  note o = offset_code_spec [OF assms(4,5)]
  let ?e = "\<lparr>ll_code = l, ll_extra = literal_length s - LITERAL_LENGTH_BASELINES ! l, of_code = log2 (offset_value s),
    of_extra = offset_value s - 2 ^ log2 (offset_value s), ml_code = m,
    ml_extra = match_length s - MATCH_LENGTH_BASELINES ! m\<rparr>"
  have lc: "l < 36" "LITERAL_LENGTH_BASELINES ! l \<le> literal_length s"
    "literal_length s - LITERAL_LENGTH_BASELINES ! l < 2 ^ (LITERAL_LENGTH_EXTRA_BITS ! l)"
    using l(3) by (simp_all add: code_covers_def less_diff_conv2)
  have mc: "m < 53" "MATCH_LENGTH_BASELINES ! m \<le> match_length s"
    "match_length s - MATCH_LENGTH_BASELINES ! m < 2 ^ (MATCH_LENGTH_EXTRA_BITS ! m)"
    using m(3) by (simp_all add: code_covers_def less_diff_conv2)
  have "encode_sequence_command s = Ok ?e"
    unfolding encode_sequence_command_def l(1) m(1) o(1) and_then.simps using lc mc o by (simp add: sub_nat_def)
  moreover have "offset_value s - 2 ^ log2 (offset_value s) < 2 ^ log2 (offset_value s)" using o by simp
  ultimately show ?thesis using lc mc o l(2) m(2) by (intro exI [of _ ?e]) simp
qed

theorem sequence_codes_cover_witness:
  "\<exists>e. encode_sequence_command \<lparr>literal_length = 70, match_length = 200, offset_value = 1000\<rparr> = Ok e
    \<and> LITERAL_LENGTH_BASELINES ! ll_code e + ll_extra e = 70"
  using sequence_codes_cover [of "\<lparr>literal_length = 70, match_length = 200, offset_value = 1000\<rparr>"]
  by auto

text \<open>C31. Offsets survive the repeat-offset coding: whatever the last three offsets are, the value the encoder writes
  for an offset resolves to that offset with the same literal length, and encoder and decoder then
  hold the same three offsets. Classifying without an update gives the same value.\<close>

theorem repeat_offsets_roundtrip:
  assumes "0 < raw" and "raw + 3 < 2 ^ 32"
  shows "\<exists>v r'. encode_offset_value r raw ll = Ok (v, r') \<and> resolve_values r ll v = Ok (raw, r')
    \<and> resolve_encode r ll v = Ok (raw, r') \<and> classify_offset r raw ll = Ok v \<and> 0 < v \<and> v < 2 ^ 32"
  using assms
  by (auto simp: encode_offset_value_def encode_offset_value_and_update_def resolve_values_def resolve_encode_def
      classify_offset_def rotate_offsets_def add_u32_def Let_def)

theorem repeat_offsets_roundtrip_witness:
  "\<exists>v r'. encode_offset_value repeat_offsets_default 7 0 = Ok (v, r') \<and> resolve_values repeat_offsets_default 0 v = Ok (7, r')"
  using repeat_offsets_roundtrip [of 7 repeat_offsets_default 0] by auto

text \<open>C33. The count of sequences survives: what is appended for a count parses back to it, is as long as the size
  that is charged for it, and only counts that do not fit the three-byte form are refused.\<close>

theorem sequence_count_roundtrip:
  "if n < 2 ^ 16 + 0x7F00
   then \<exists>bs. encode_sequence_count n (Growable g) = Ok (Growable (g @ bs)) \<and> length bs = encoded_sequence_count_size n
     \<and> parse_sequence_count (bs @ rest) = Ok (n, encoded_sequence_count_size n)
   else encode_sequence_count n (Growable g) = Err (InvalidParameter ''too many sequences in one block'')"
proof -
  consider "n < 128" | "128 \<le> n" "n < 0x7F00" | "0x7F00 \<le> n" "n < 2 ^ 16 + 0x7F00" | "2 ^ 16 + 0x7F00 \<le> n" by linarith
  then show ?thesis
  proof cases
    case 1
    then have "(word_of_nat n :: u8) < 128" by (simp add: word_less_nat_alt unat_word_of_nat_u8)
    with 1 show ?thesis
      by (simp add: encode_sequence_count_def encode_sequence_count_unchecked_def encoded_sequence_count_size_def
          parse_sequence_count_def slice_get_def unat_word_of_nat_u8)
  next
    case 2
    let ?b = "128 + word_of_nat (n div 256) :: u8"
    have d: "n div 256 < 127" using 2 by (simp add: less_mult_imp_div_less)
    have b: "?b = word_of_nat (128 + n div 256)" by simp
    have u: "unat ?b = 128 + n div 256" unfolding b unat_word_of_nat_u8 using d by simp
    then have "\<not> ?b < 128" "?b < 255" using d by (simp_all add: word_less_nat_alt)
    with 2 d u show ?thesis
      by (simp add: encode_sequence_count_def encode_sequence_count_unchecked_def encoded_sequence_count_size_def
          parse_sequence_count_def slice_get_def unat_word_of_nat_u8)
  next
    case 3
    let ?v = "n - 0x7F00"
    have "?v div 256 < 256" using 3 by (simp add: less_mult_imp_div_less)
    moreover have "32512 + ?v mod 256 + ?v div 256 * 256 = n" using 3 by (simp add: mod_div_mult_eq add.assoc)
    ultimately show ?thesis using 3
      by (simp add: encode_sequence_count_def encode_sequence_count_unchecked_def encoded_sequence_count_size_def
          parse_sequence_count_def slice_get_def unat_word_of_nat_u8 Let_def)
  qed (simp add: encode_sequence_count_def)
qed

end
