(* ===== verification/SeqHistory.thy ===== *)
theory SeqHistory
  imports SeqCopy SeqCodes
begin

section \<open>Appending matches from the history (sequence.rs)\<close>

text \<open>
  The exact appends of \<open>src/src/sequence.rs\<close>, which write no byte past the match, the limits on what a
  block may produce, and the two-pass executor that walks a list of sequences. A match may start in the
  dictionary, which lies in front of the frame's output. The reference \<open>lz_sequences\<close> is the format's own
  account of a block: literals, then a match in the dictionary followed by what the frame has produced.
  Timings of the profiled executor are left out.
\<close>

definition put_region :: "decode_out \<Rightarrow> bytes \<Rightarrow> decode_out" where
  "put_region out mem = with_region out ((region_of out)\<lparr>region := mem\<rparr>)"

definition append_match_from_history :: "decode_out \<Rightarrow> usize \<Rightarrow> usize \<Rightarrow> decode_out result" where
  "append_match_from_history out match_start ml =
     (if ml = 0 then Ok out else
      and_then (ensure_room out ml) (\<lambda>out.
      let pos = dout_len out; mem = region (region_of out) in
      if pos < match_start then Fault else
      let offset = pos - match_start in
      and_then (if ml \<le> offset then copy_nonoverlapping mem match_start pos ml
                else if offset = 1 then and_then (idx (dout_slice out) match_start) (\<lambda>value.
                  copy_into mem pos (replicate ml value))
                else and_then (copy_nonoverlapping mem match_start pos offset) (\<lambda>mem.
                  double_up mem pos offset ml)) (\<lambda>mem.
        dout_set_len (put_region out mem) (pos + ml))))"

definition append_match_from_dictionary_history ::
    "decode_out \<Rightarrow> usize \<Rightarrow> bytes \<Rightarrow> usize \<Rightarrow> usize \<Rightarrow> decode_out result" where
  "append_match_from_dictionary_history out frame_start dictionary offset ml =
     (if ml = 0 then Ok out
      else if dout_len out < frame_start then Fault else
      let history_len = length dictionary + (dout_len out - frame_start) in
      if history_len < offset then Fault else
      let source_index = history_len - offset in
      if source_index < length dictionary then
        let dict_chunk_len = min (length dictionary - source_index) ml in
        and_then (idx_range dictionary source_index (source_index + dict_chunk_len)) (\<lambda>chunk.
        and_then (dout_append out chunk) (\<lambda>out.
        let remaining = ml - dict_chunk_len in
        if remaining \<noteq> 0 then append_match_from_history out frame_start remaining else Ok out))
      else append_match_from_history out (frame_start + (source_index - length dictionary)) ml)"

subsection \<open>Limits\<close>

record output_limit =
  produced_before :: nat
  max_output_size :: "usize option"

definition whole_output :: "usize option \<Rightarrow> output_limit" where
  "whole_output m = \<lparr>produced_before = 0, max_output_size = m\<rparr>"

definition limit_after :: "nat \<Rightarrow> usize option \<Rightarrow> output_limit" where
  "limit_after n m = \<lparr>produced_before = n, max_output_size = m\<rparr>"

text \<open>\<open>u64\<close> and \<open>usize\<close> saturate at the same number.\<close>

definition produced :: "output_limit \<Rightarrow> usize \<Rightarrow> nat" where
  "produced limit pos = saturating_add (produced_before limit) pos"

definition check_total :: "output_limit \<Rightarrow> usize \<Rightarrow> unit result" where
  "check_total limit pos =
     (case max_output_size limit of None \<Rightarrow> Ok ()
      | Some m \<Rightarrow> if m < produced limit pos then Err (OutputSizeTooLarge (word_of_nat (produced limit pos)) m)
                  else Ok ())"

definition limit_remaining :: "output_limit \<Rightarrow> usize \<Rightarrow> usize result" where
  "limit_remaining limit pos =
     (case max_output_size limit of None \<Rightarrow> Ok usize_max
      | Some m \<Rightarrow> if m < produced limit pos then Err (OutputSizeTooLarge (word_of_nat (produced limit pos)) m)
                  else Ok (m - produced limit pos))"

definition reserve_block_output :: "decode_out \<Rightarrow> usize \<Rightarrow> output_limit \<Rightarrow> decode_out result" where
  "reserve_block_output out block_size_max limit =
     and_then (limit_remaining limit (dout_len out)) (\<lambda>rest.
     let reserve = min rest block_size_max in
     if usize_max < reserve + WILDCOPY_OVERLENGTH then Fault
     else dout_try_reserve out (reserve + WILDCOPY_OVERLENGTH))"

definition sequence_budget_error :: "usize \<Rightarrow> usize \<Rightarrow> usize \<Rightarrow> output_limit \<Rightarrow> error" where
  "sequence_budget_error additional block_remaining pos limit =
     (if block_remaining < additional
      then Corruption ''compressed block output exceeds the frame block size limit'' else
      case max_output_size limit of
        Some m \<Rightarrow> let final_len = saturating_add (produced limit pos) additional in
          if m < final_len then OutputSizeTooLarge (word_of_nat final_len) m
          else Corruption ''compressed block output exceeds the frame block size limit''
      | None \<Rightarrow> Corruption ''compressed block output exceeds the frame block size limit'')"

definition ensure_decode_output_room ::
    "usize \<Rightarrow> usize \<Rightarrow> usize \<Rightarrow> usize \<Rightarrow> output_limit \<Rightarrow> (usize \<times> usize) result" where
  "ensure_decode_output_room pos additional remaining_block_bytes remaining_output_bytes limit =
     (if remaining_block_bytes < additional
      then Err (Corruption ''compressed block output exceeds the frame block size limit'')
      else if remaining_output_bytes < additional then
        (case max_output_size limit of None \<Rightarrow> Fault
         | Some m \<Rightarrow> and_then (ok_or (checked_add (produced limit pos) additional) OutputSizeOverflow) (\<lambda>size.
             Err (OutputSizeTooLarge (word_of_nat size) m)))
      else Ok (remaining_block_bytes - additional, remaining_output_bytes - additional))"

definition append_trailing_literals ::
    "decode_out \<Rightarrow> bytes \<Rightarrow> usize \<Rightarrow> usize \<Rightarrow> usize \<Rightarrow> output_limit \<Rightarrow> decode_out result" where
  "append_trailing_literals out lits literal_cursor remaining_block_bytes remaining_output_bytes limit =
     and_then (ok_or (get_from lits literal_cursor) (Corruption ''sequence literal cursor exceeded literals buffer''))
       (\<lambda>trailing.
     and_then (ensure_decode_output_room (dout_len out) (length trailing) remaining_block_bytes
         remaining_output_bytes limit) (\<lambda>_.
       dout_append out trailing))"

subsection \<open>The two-pass executor\<close>

definition offset_exceeds_history_error :: error where
  "offset_exceeds_history_error = Corruption ''sequence offset exceeds the available history window''"

definition literal_length_exceeds_buffer_error :: error where
  "literal_length_exceeds_buffer_error = Corruption ''sequence literal length exceeds literals buffer''"

definition append_sequence_literals ::
    "decode_out \<Rightarrow> bytes \<Rightarrow> usize \<Rightarrow> sequence_command \<Rightarrow> (usize \<times> decode_out) result" where
  "append_sequence_literals out lits literal_cursor s =
     and_then (ok_or (checked_add literal_cursor (literal_length s)) OutputSizeOverflow) (\<lambda>literal_end.
     and_then (ok_or (get_range lits literal_cursor literal_end) literal_length_exceeds_buffer_error) (\<lambda>chunk.
     and_then (dout_append out chunk) (\<lambda>out. Ok (literal_end, out))))"

definition prefix_match :: "usize \<Rightarrow> usize \<Rightarrow> decode_out \<Rightarrow> nat \<Rightarrow> nat \<Rightarrow> decode_out result" where
  "prefix_match frame_start window_size out offset ml =
     (if min (dout_len out - frame_start) window_size < offset then Err offset_exceeds_history_error
      else if dout_len out < offset then Fault
      else append_match_from_history out (dout_len out - offset) ml)"

definition prefix_or_dictionary_match ::
    "usize \<Rightarrow> usize \<Rightarrow> bytes \<Rightarrow> decode_out \<Rightarrow> nat \<Rightarrow> nat \<Rightarrow> decode_out result" where
  "prefix_or_dictionary_match frame_start window_size dictionary out offset ml =
     (let produced_in_frame = dout_len out - frame_start in
      if offset \<le> min produced_in_frame window_size then
        (if dout_len out < offset then Fault else append_match_from_history out (dout_len out - offset) ml)
      else if window_size < produced_in_frame then Err offset_exceeds_history_error
      else if usize_max < length dictionary + produced_in_frame then Fault
      else if length dictionary + produced_in_frame < offset then Err offset_exceeds_history_error
      else append_match_from_dictionary_history out frame_start dictionary offset ml)"

fun execute_sequences_without_dictionary ::
    "usize \<Rightarrow> usize \<Rightarrow> bytes \<Rightarrow> sequence_command list \<Rightarrow> decode_out \<times> repeat_offsets \<times> usize \<Rightarrow>
     (decode_out \<times> repeat_offsets \<times> usize) result" where
  "execute_sequences_without_dictionary frame_start window_size lits [] st = Ok st"
| "execute_sequences_without_dictionary frame_start window_size lits (s # ss) (out, reps, literal_cursor) =
     and_then (resolve_values reps (literal_length s) (offset_value s)) (\<lambda>(offset, reps).
     and_then (append_sequence_literals out lits literal_cursor s) (\<lambda>(literal_cursor, out).
     if dout_len out < frame_start then Fault else
     and_then (prefix_match frame_start window_size out offset (match_length s)) (\<lambda>out.
       execute_sequences_without_dictionary frame_start window_size lits ss (out, reps, literal_cursor))))"

fun execute_sequences_with_dictionary ::
    "usize \<Rightarrow> usize \<Rightarrow> bytes \<Rightarrow> bytes \<Rightarrow> sequence_command list \<Rightarrow> decode_out \<times> repeat_offsets \<times> usize \<Rightarrow>
     (decode_out \<times> repeat_offsets \<times> usize) result" where
  "execute_sequences_with_dictionary frame_start window_size dictionary lits [] st = Ok st"
| "execute_sequences_with_dictionary frame_start window_size dictionary lits (s # ss) (out, reps, literal_cursor) =
     and_then (resolve_values reps (literal_length s) (offset_value s)) (\<lambda>(offset, reps).
     and_then (append_sequence_literals out lits literal_cursor s) (\<lambda>(literal_cursor, out).
     if dout_len out < frame_start then Fault else
     and_then (prefix_or_dictionary_match frame_start window_size dictionary out offset (match_length s)) (\<lambda>out.
       execute_sequences_with_dictionary frame_start window_size dictionary lits ss (out, reps, literal_cursor))))"

definition execute_sequences ::
    "decode_out \<Rightarrow> usize \<Rightarrow> usize \<Rightarrow> usize \<Rightarrow> bytes option \<Rightarrow> bytes \<Rightarrow> sequence_command list \<Rightarrow> repeat_offsets \<Rightarrow>
     usize option \<Rightarrow> usize \<Rightarrow> (decode_out \<times> repeat_offsets) result" where
  "execute_sequences out frame_start window_size block_size_max dictionary lits ss reps max_output total_match_bytes =
     and_then (ok_or (checked_add (length lits) total_match_bytes) OutputSizeOverflow) (\<lambda>block_output_size.
     if block_size_max < block_output_size
     then Err (Corruption ''compressed block output exceeds the frame block size limit'') else
     and_then (ok_or (checked_add (dout_len out) block_output_size) OutputSizeOverflow) (\<lambda>final_len.
     and_then (case max_output of None \<Rightarrow> Ok ()
       | Some m \<Rightarrow> if m < final_len then Err (OutputSizeTooLarge (word_of_nat final_len) m) else Ok ()) (\<lambda>_.
     let block_start = dout_len out in
     if usize_max < block_output_size + WILDCOPY_OVERLENGTH then Fault else
     and_then (dout_try_reserve out (block_output_size + WILDCOPY_OVERLENGTH)) (\<lambda>out.
     and_then (case dictionary of
         Some d \<Rightarrow> execute_sequences_with_dictionary frame_start window_size d lits ss (out, reps, 0)
       | None \<Rightarrow> execute_sequences_without_dictionary frame_start window_size lits ss (out, reps, 0))
       (\<lambda>(out, reps, literal_cursor).
     and_then (ok_or (get_from lits literal_cursor) (Corruption ''sequence literal cursor exceeded literals buffer''))
       (\<lambda>trailing.
     and_then (dout_append out trailing) (\<lambda>out.
       if dout_len out \<noteq> block_start + block_output_size then Fault else Ok (out, reps))))))))"


subsection \<open>Matches over a prefix\<close>

lemma lz_bytes_prefix: "0 < n \<Longrightarrow> n \<le> length w \<Longrightarrow> lz_bytes (d @ w) n k = lz_bytes w n k"
  by (auto simp: lz_bytes_def nth_append)

text \<open>A match that reaches no further than \<open>w\<close> does not depend on what is in front of it.\<close>

lemma lz_match_prefix: "0 < n \<Longrightarrow> n \<le> length w \<Longrightarrow> lz_match (d @ w) n k = d @ lz_match w n k"
  by (simp add: lz_match_bytes lz_bytes_prefix)

lemma length_lz_match [simp]: "length (lz_match h n k) = length h + k"
  by (induction h n k rule: lz_match.induct) simp_all

lemma lz_match_add: "lz_match h n (j + k) = lz_match (lz_match h n j) n k"
  by (induction h n j rule: lz_match.induct) simp_all

text \<open>As long as a match does not reach its own output, it is a copy.\<close>

lemma lz_match_copy:
  assumes "k \<le> n" and "n \<le> length h"
  shows "lz_match h n k = h @ take k (drop (length h - n) h)"
proof (cases "k = 0")
  case False
  then have "lz_match h n k = h @ lz_bytes h n k" using assms by (intro lz_match_bytes) simp_all
  also have "lz_bytes h n k = take k (drop (length h - n) h)"
    using assms by (intro nth_equalityI) (simp_all add: lz_bytes_def)
  finally show ?thesis .
qed simp

subsection \<open>Appending a match\<close>

text \<open>What every operation keeps: the invariant, the limit and the room there is.\<close>

definition keeps :: "decode_out \<Rightarrow> decode_out \<Rightarrow> bool" where
  "keeps out out' \<longleftrightarrow> dout_ok out' \<and> dout_limit out' = dout_limit out \<and> is_growable out' = is_growable out
     \<and> dout_capacity out \<le> dout_capacity out'"

lemma keeps_refl: "dout_ok out \<Longrightarrow> keeps out out"
  by (simp add: keeps_def)

lemma keeps_trans: "keeps a b \<Longrightarrow> keeps b c \<Longrightarrow> keeps a c"
  by (auto simp: keeps_def)

lemma keeps_ok: "keeps out out' \<Longrightarrow> dout_ok out'"
  by (simp add: keeps_def)

lemma keeps_limit: "keeps out out' \<Longrightarrow> dout_limit out' = dout_limit out"
  by (simp add: keeps_def)

lemma put_region_simps [simp]:
  "region (region_of (put_region out mem)) = mem" "written (region_of (put_region out mem)) = written (region_of out)"
  "is_growable (put_region out mem) = is_growable out" "dout_capacity (put_region out mem) = length mem"
  by (simp_all add: put_region_def dout_capacity_def)

lemma dout_set_len_put:
  assumes "n \<le> length mem" and "length mem = dout_capacity out"
  shows "\<exists>out'. dout_set_len (put_region out mem) n = Ok out' \<and> keeps out out' \<and> dout_slice out' = take n mem \<and> dout_len out' = n"
  using assms
  by (cases out) (auto simp: dout_set_len_def keeps_def dout_ok_def dout_slice_def dout_len_def dout_capacity_def put_region_def)

lemma ensure_room_keeps:
  assumes "ensure_room out n = Ok out'" and "dout_ok out"
  shows "keeps out out'"
  using assms by (cases out) (auto simp: keeps_def dout_ok_def dout_capacity_def vec_reserve_def split: if_splits)

lemma dout_append_keeps:
  assumes "dout_append out bs = Ok out'" and "dout_ok out"
  shows "keeps out out'"
proof (cases "bs = []")
  case True
  then show ?thesis using assms by (simp add: dout_append_def keeps_refl)
next
  case False
  with assms(1) obtain o1 where o1: "ensure_room out (length bs) = Ok o1"
    "dout_len o1 + length bs \<le> dout_capacity o1" "dout_set_len (put_region o1 (take (dout_len o1) (region (region_of o1)) @ bs @
        drop (dout_len o1 + length bs) (region (region_of o1)))) (dout_len o1 + length bs) = Ok out'"
    by (auto simp: dout_append_def Let_def dout_capacity_def put_region_def)
  have "keeps o1 out'"
    using dout_set_len_put [of "dout_len o1 + length bs" "take (dout_len o1) (region (region_of o1)) @ bs @
        drop (dout_len o1 + length bs) (region (region_of o1))" o1] o1 by (simp add: dout_capacity_def)
  then show ?thesis using keeps_trans ensure_room_keeps [OF o1(1) assms(2)] by blast
qed

text \<open>Appending, as the callers use it.\<close>

lemma dout_append_run:
  assumes "dout_ok out"
  shows "if fits (dout_limit out) (dout_len out + length bs)
     then \<exists>out'. dout_append out bs = Ok out' \<and> keeps out out' \<and> dout_slice out' = dout_slice out @ bs
     else dout_append out bs = Err DstSizeTooSmall"
proof (cases "fits (dout_limit out) (dout_len out + length bs)")
  case True
  then show ?thesis using dout_append_spec [OF assms, of bs] dout_append_keeps [OF _ assms] by auto
next
  case False
  moreover have "bs \<noteq> []" using False dout_ok_fits [OF assms] by auto
  ultimately show ?thesis using dout_append_spec [OF assms, of bs] by simp
qed

lemma match_in_region:
  assumes "match_start < pos" and "pos + k \<le> length mem" and "0 < k"
  shows "\<exists>mem'. (if k \<le> pos - match_start then copy_nonoverlapping mem match_start pos k
      else if pos - match_start = 1 then copy_into mem pos (replicate k (mem ! match_start))
      else and_then (copy_nonoverlapping mem match_start pos (pos - match_start)) (\<lambda>mem.
        double_up mem pos (pos - match_start) k)) = Ok mem'
    \<and> length mem' = length mem \<and> take (pos + k) mem' = lz_match (take pos mem) (pos - match_start) k"
proof -
  let ?o = "pos - match_start"
  have o: "0 < ?o" "match_start + ?o = pos" using assms(1) by simp_all
  have room: "match_start + ?o + k \<le> length mem" using o assms by simp
  have fin: "length m = length mem \<and> take (pos + k) m = lz_match (take pos mem) ?o k" if "copied mem match_start ?o k m" for m
    using copied_reference [OF that o(1) room] that unfolding o(2) by (simp add: copied_def)
  consider "k \<le> ?o" | "\<not> k \<le> ?o" "?o = 1" | "\<not> k \<le> ?o" "?o \<noteq> 1" by blast
  then show ?thesis
  proof cases
    case 1
    have "\<exists>m. copy_nonoverlapping mem (match_start + 0) (match_start + ?o + 0) k = Ok m \<and> copied mem match_start ?o (0 + k) m"
      using 1 room o by (intro copied_step copied_0) simp_all
    then show ?thesis using 1 fin unfolding add_0_right add_0 o(2) by auto
  next
    case 2
    let ?m = "take pos mem @ replicate k (mem ! match_start) @ drop (pos + k) mem"
    have "?m ! (match_start + i) = mem ! match_start" if "i < 1 + k" for i
      using that 2 assms o by (auto simp: nth_append nth_Cons' not_less)
    then have "copied mem match_start ?o k ?m" unfolding copied_def using 2 assms o by (simp add: min_def)
    with fin [OF this] 2 assms show ?thesis by (simp add: copy_into_def)
  next
    case 3
    have "\<exists>m. copy_nonoverlapping mem (match_start + 0) (match_start + ?o + 0) ?o = Ok m \<and> copied mem match_start ?o (0 + ?o) m"
      using 3 room o by (intro copied_step copied_0) simp_all
    then obtain m where m: "copy_nonoverlapping mem match_start pos ?o = Ok m" "copied mem match_start ?o ?o m"
      unfolding add_0_right add_0 o(2) by auto
    from double_up_copied [OF m(2) _ o(1) _ o(1) room] 3 obtain m' where
      "double_up m pos ?o k = Ok m'" "copied mem match_start ?o k m'" unfolding o(2) by auto
    with fin [OF this(2)] 3 m(1) show ?thesis by simp
  qed
qed

lemma append_match_run:
  assumes "dout_ok out" and "match_start < dout_len out"
  shows "if fits (dout_limit out) (dout_len out + k)
     then \<exists>out'. append_match_from_history out match_start k = Ok out' \<and> keeps out out'
       \<and> dout_slice out' = lz_match (dout_slice out) (dout_len out - match_start) k
     else append_match_from_history out match_start k = Err DstSizeTooSmall"
proof (cases "k = 0")
  case True
  then show ?thesis using assms dout_ok_fits [OF assms(1)] by (simp add: append_match_from_history_def keeps_refl)
next
  case k: False
  show ?thesis
  proof (cases "fits (dout_limit out) (dout_len out + k)")
    case False
    with ensure_room_spec [OF assms(1), of k] k show ?thesis by (simp add: append_match_from_history_def)
  next
    case True
    with ensure_room_spec [OF assms(1), of k] obtain o1 where o1:
      "ensure_room out k = Ok o1" "dout_ok o1" "dout_slice o1 = dout_slice out" "dout_len o1 = dout_len out"
      "dout_len out + k \<le> dout_capacity o1" by auto
    let ?mem = "region (region_of o1)" and ?n = "dout_len out"
    have sl: "dout_slice o1 = take ?n ?mem" using o1(4) by (simp add: dout_slice_def dout_len_def)
    have i: "idx (dout_slice o1) match_start = Ok (?mem ! match_start)"
      using assms(2) o1(2,4) by (simp add: sl idx_def dout_ok_def dout_len_def)
    obtain mem' where m: "(if k \<le> ?n - match_start then copy_nonoverlapping ?mem match_start ?n k
      else if ?n - match_start = 1 then copy_into ?mem ?n (replicate k (?mem ! match_start))
      else and_then (copy_nonoverlapping ?mem match_start ?n (?n - match_start)) (\<lambda>mem.
        double_up mem ?n (?n - match_start) k)) = Ok mem'" "length mem' = length ?mem"
      "take (?n + k) mem' = lz_match (take ?n ?mem) (?n - match_start) k"
      using match_in_region [OF assms(2), of k ?mem] o1(5) k by (auto simp: dout_capacity_def)
    obtain out' where f: "dout_set_len (put_region o1 mem') (?n + k) = Ok out'" "keeps o1 out'" "dout_slice out' = take (?n + k) mem'"
      using dout_set_len_put [of "?n + k" mem' o1] o1(5) m(2) by (auto simp: dout_capacity_def)
    have "append_match_from_history out match_start k = Ok out'"
      unfolding append_match_from_history_def o1(1) and_then.simps Let_def o1(4) i m(1) f(1) using k assms(2) by simp
    moreover have "keeps out out'" using keeps_trans [OF ensure_room_keeps [OF o1(1) assms(1)] f(2)] .
    ultimately show ?thesis using True f(3) m(3) sl o1(3) by simp
  qed
qed


subsection \<open>The reference executor\<close>

definition dict_bytes :: "bytes option \<Rightarrow> bytes" where
  "dict_bytes dict = (case dict of None \<Rightarrow> [] | Some d \<Rightarrow> d)"

lemma dict_bytes_simps [simp]: "dict_bytes None = []" "dict_bytes (Some d) = d"
  by (simp_all add: dict_bytes_def)

text \<open>A match reaches into the frame's output within the window, or into the dictionary as long as the frame has not
  outgrown the window.\<close>

definition in_reach :: "bytes option \<Rightarrow> usize \<Rightarrow> nat \<Rightarrow> nat \<Rightarrow> bool" where
  "in_reach dict window_size n offset \<longleftrightarrow> offset \<le> n \<and> offset \<le> window_size
     \<or> dict \<noteq> None \<and> n \<le> window_size \<and> offset \<le> length (dict_bytes dict) + n"

definition lz_extend :: "bytes \<Rightarrow> bytes \<Rightarrow> nat \<Rightarrow> nat \<Rightarrow> bytes" where
  "lz_extend d w offset k = drop (length d) (lz_match (d @ w) offset k)"

fun lz_sequences :: "bytes option \<Rightarrow> usize \<Rightarrow> bytes \<Rightarrow> repeat_offsets \<Rightarrow> bytes \<Rightarrow> sequence_command list \<Rightarrow>
    (bytes \<times> repeat_offsets \<times> bytes) option" where
  "lz_sequences dict window_size w reps lits [] = Some (w, reps, lits)"
| "lz_sequences dict window_size w reps lits (s # ss) =
     (case resolve_values reps (literal_length s) (offset_value s) of
        Ok (offset, reps) \<Rightarrow>
          let w = w @ take (literal_length s) lits in
          if literal_length s \<le> length lits \<and> in_reach dict window_size (length w) offset
          then lz_sequences dict window_size (lz_extend (dict_bytes dict) w offset (match_length s)) reps
            (drop (literal_length s) lits) ss
          else None
      | _ \<Rightarrow> None)"

definition reps_ok :: "repeat_offsets \<Rightarrow> bool" where
  "reps_ok r \<longleftrightarrow> 0 < rep1 r \<and> 0 < rep2 r \<and> 0 < rep3 r"

lemma resolve_values_meets:
  "reps_ok r \<Longrightarrow> meets (resolve_values r ll v) (\<lambda>(offset, r'). 0 < offset \<and> reps_ok r')"
  by (auto simp: resolve_values_def reps_ok_def rotate_offsets_def Let_def)

lemma length_lz_extend [simp]: "length (lz_extend d w offset k) = length w + k"
  by (simp add: lz_extend_def)

lemma lz_extend_prefix: "0 < n \<Longrightarrow> n \<le> length w \<Longrightarrow> lz_extend d w n k = lz_match w n k"
  by (simp add: lz_extend_def lz_match_prefix)

lemma take_lz_extend: "take (length w) (lz_extend d w n k) = w"
proof -
  have "take (length h) (lz_match h n k) = h" for h
  proof (induction h n k rule: lz_match.induct)
    case (2 h n k)
    then have "take (length h) (take (length (h @ [h ! (length h - n)])) (lz_match (h @ [h ! (length h - n)]) n k)) = h" by simp
    then show ?case by (simp add: take_take min_def)
  qed simp
  from this [of "d @ w"] have "drop (length d) (take (length d + length w) (lz_match (d @ w) n k)) = w" by simp
  then show ?thesis by (simp add: lz_extend_def drop_take)
qed

text \<open>A match in the dictionary and the frame's output.\<close>

lemma append_dictionary_match_run:
  assumes "dout_ok out" and "frame_start \<le> dout_len out" and "0 < offset"
    and "offset \<le> length d + (dout_len out - frame_start)"
  shows "if fits (dout_limit out) (dout_len out + k)
     then \<exists>out'. append_match_from_dictionary_history out frame_start d offset k = Ok out' \<and> keeps out out'
       \<and> dout_slice out' = take frame_start (dout_slice out) @ lz_extend d (drop frame_start (dout_slice out)) offset k
     else append_match_from_dictionary_history out frame_start d offset k = Err DstSizeTooSmall"
proof (cases "k = 0")
  case True
  then show ?thesis using assms dout_ok_fits [OF assms(1)]
    by (simp add: append_match_from_dictionary_history_def keeps_refl lz_extend_def)
next
  case k: False
  let ?p = "dout_slice out" and ?n = "dout_len out"
  let ?w = "drop frame_start ?p" and ?h = "length d + (?n - frame_start)"
  have len: "length ?p = ?n" by (rule length_dout_slice [OF assms(1)])
  have na: "\<not> ?n < frame_start" "\<not> ?h < offset" using assms by simp_all
  note unf = append_match_from_dictionary_history_def if_not_P [OF k] Let_def
  show ?thesis
  proof (cases "?h - offset < length d")
    case False
    let ?ms = "frame_start + (?h - offset - length d)"
    have o: "?n - ?ms = offset" "?ms < ?n" "offset \<le> length ?w" using False assms len by simp_all
    have eq: "append_match_from_dictionary_history out frame_start d offset k = append_match_from_history out ?ms k"
      unfolding unf using assms False by simp
    have res: "take frame_start ?p @ lz_extend d ?w offset k = lz_match ?p offset k"
      using lz_match_prefix [OF assms(3) o(3), of "take frame_start ?p" k] unfolding lz_extend_prefix [OF assms(3) o(3)] by simp
    show ?thesis using append_match_run [OF assms(1) o(2), of k] unfolding eq o(1) res .
  next
    case True
    define c where "c = min (length d - (?h - offset)) k"
    define chunk where "chunk = take c (drop (?h - offset) d)"
    have c: "0 < c" "c \<le> k" "c \<le> offset" "length chunk = c" "c \<le> length d - (?h - offset)" using True k assms(4) by (auto simp: c_def chunk_def)
    have r: "idx_range d (?h - offset) (?h - offset + c) = Ok chunk" using True by (simp add: idx_range_def chunk_def c_def)
    have first: "lz_match (d @ ?w) offset c = d @ ?w @ chunk"
      using lz_match_copy [OF c(3), of "d @ ?w"] assms(4) c(5) True len by (simp add: chunk_def)
    have eq: "append_match_from_dictionary_history out frame_start d offset k
        = and_then (dout_append out chunk) (\<lambda>out. if k - c \<noteq> 0 then append_match_from_history out frame_start (k - c) else Ok out)"
      unfolding unf c_def [symmetric] if_not_P [OF na(1)] if_not_P [OF na(2)] if_P [OF True] r and_then.simps ..
    show ?thesis
    proof (cases "fits (dout_limit out) (?n + c)")
      case False
      then have "\<not> fits (dout_limit out) (?n + k)" using fits_mono c(2) by (metis add_left_mono)
      then show ?thesis using dout_append_run [OF assms(1), of chunk] False unfolding eq c(4) by simp
    next
      case fit: True
      from dout_append_run [OF assms(1), of chunk] fit obtain o1 where o1:
        "dout_append out chunk = Ok o1" "keeps out o1" "dout_slice o1 = ?p @ chunk" unfolding c(4) by auto
      have l1: "dout_len o1 = ?n + c" using length_dout_slice [OF keeps_ok [OF o1(2)]] o1(3) len c(4) by simp
      show ?thesis
      proof (cases "k = c")
        case True
        have "take frame_start ?p @ lz_extend d ?w offset c = ?p @ chunk" unfolding lz_extend_def first by simp
        then show ?thesis using o1 fit True unfolding eq by simp
      next
        case False
        have c0: "c = length d - (?h - offset)" using False unfolding c_def by (metis min_def)
        have off: "offset = dout_len o1 - frame_start" "frame_start < dout_len o1"
          using c0 c(1) l1 assms(2,4) True by linarith+
        have w1: "offset \<le> length (?w @ chunk)" using off l1 len c(4) assms(2) by simp
        have "lz_match (d @ ?w) offset k = lz_match (lz_match (d @ ?w) offset c) offset (k - c)"
          using lz_match_add [of "d @ ?w" offset c "k - c"] c(2) by simp
        also have "\<dots> = d @ lz_match (?w @ chunk) offset (k - c)"
          unfolding first by (rule lz_match_prefix [OF assms(3) w1])
        finally have "take frame_start ?p @ lz_extend d ?w offset k = take frame_start ?p @ lz_match (?w @ chunk) offset (k - c)"
          unfolding lz_extend_def by simp
        also have "\<dots> = lz_match (take frame_start ?p @ ?w @ chunk) offset (k - c)"
          by (rule lz_match_prefix [OF assms(3) w1, symmetric])
        finally have res: "take frame_start ?p @ lz_extend d ?w offset k = lz_match (dout_slice o1) offset (k - c)"
          unfolding o1(3) by (simp only: append_assoc [symmetric] append_take_drop_id)
        have n: "dout_len o1 + (k - c) = ?n + k" using l1 c(2) by simp
        have ne: "k - c \<noteq> 0" using False c(2) by linarith
        have e: "append_match_from_dictionary_history out frame_start d offset k = append_match_from_history o1 frame_start (k - c)"
          unfolding eq o1(1) and_then.simps if_P [OF ne] ..
        have m: "if fits (dout_limit out) (?n + k)
          then \<exists>out'. append_match_from_history o1 frame_start (k - c) = Ok out' \<and> keeps o1 out'
            \<and> dout_slice out' = take frame_start ?p @ lz_extend d ?w offset k
          else append_match_from_history o1 frame_start (k - c) = Err DstSizeTooSmall"
          using append_match_run [OF keeps_ok [OF o1(2)] off(2), of "k - c"]
          unfolding n keeps_limit [OF o1(2)] off(1) [symmetric] res .
        show ?thesis using m unfolding e by (meson keeps_trans o1(2))
      qed
    qed
  qed
qed


subsection \<open>The executors against the reference\<close>

text \<open>The contract of a match: it extends the frame's output by the reference's bytes when the offset is in reach and
  there is room, and returns an error otherwise.\<close>

definition match_contract :: "bytes option \<Rightarrow> usize \<Rightarrow> usize \<Rightarrow> (decode_out \<Rightarrow> nat \<Rightarrow> nat \<Rightarrow> decode_out result) \<Rightarrow> bool" where
  "match_contract dict frame_start window_size put \<longleftrightarrow> (\<forall>out offset k.
     dout_ok out \<longrightarrow> frame_start \<le> dout_len out \<longrightarrow> 0 < offset \<longrightarrow> length (dict_bytes dict) + dout_len out \<le> usize_max \<longrightarrow>
     (if in_reach dict window_size (dout_len out - frame_start) offset
      then if fits (dout_limit out) (dout_len out + k)
        then \<exists>out'. put out offset k = Ok out' \<and> keeps out out' \<and> dout_slice out' = take frame_start (dout_slice out)
          @ lz_extend (dict_bytes dict) (drop frame_start (dout_slice out)) offset k
        else put out offset k = Err DstSizeTooSmall
      else \<exists>e. put out offset k = Err e))"

lemma prefix_extend:
  assumes "dout_ok out" and "frame_start \<le> dout_len out" and "0 < offset" and "offset \<le> dout_len out - frame_start"
  shows "if fits (dout_limit out) (dout_len out + k)
     then \<exists>out'. append_match_from_history out (dout_len out - offset) k = Ok out' \<and> keeps out out'
       \<and> dout_slice out' = take frame_start (dout_slice out) @ lz_extend d (drop frame_start (dout_slice out)) offset k
     else append_match_from_history out (dout_len out - offset) k = Err DstSizeTooSmall"
proof -
  have o: "dout_len out - offset < dout_len out" "dout_len out - (dout_len out - offset) = offset"
    "offset \<le> length (drop frame_start (dout_slice out))"
    using assms by (simp_all add: length_dout_slice)
  have "take frame_start (dout_slice out) @ lz_extend d (drop frame_start (dout_slice out)) offset k = lz_match (dout_slice out) offset k"
    using lz_match_prefix [OF assms(3) o(3), of "take frame_start (dout_slice out)" k]
    unfolding lz_extend_prefix [OF assms(3) o(3)] by simp
  with append_match_run [OF assms(1) o(1), of k] show ?thesis unfolding o(2) by simp
qed

lemma prefix_match_contract: "match_contract None frame_start window_size (prefix_match frame_start window_size)"
  unfolding match_contract_def
proof (intro allI impI)
  fix out :: decode_out and offset k :: nat
  assume a: "dout_ok out" "frame_start \<le> dout_len out" "0 < offset"
  let ?n = "dout_len out - frame_start"
  let ?goal = "\<lambda>m. if in_reach None window_size ?n offset
      then if fits (dout_limit out) (dout_len out + k)
        then \<exists>out'. m = Ok out' \<and> keeps out out' \<and> dout_slice out' = take frame_start (dout_slice out)
          @ lz_extend (dict_bytes None) (drop frame_start (dout_slice out)) offset k
        else m = Err DstSizeTooSmall
      else \<exists>e. m = Err e"
  show "?goal (prefix_match frame_start window_size out offset k)"
  proof (cases "offset \<le> min ?n window_size")
    case True
    have "prefix_match frame_start window_size out offset k = append_match_from_history out (dout_len out - offset) k"
      using True by (auto simp: prefix_match_def)
    then show ?thesis using prefix_extend [OF a, of k "[]"] True by (simp add: in_reach_def)
  next
    case False
    then show ?thesis by (auto simp: prefix_match_def in_reach_def)
  qed
qed

lemma dictionary_match_contract:
  "match_contract (Some d) frame_start window_size (prefix_or_dictionary_match frame_start window_size d)"
  unfolding match_contract_def
proof (intro allI impI)
  fix out :: decode_out and offset k :: nat
  assume a: "dout_ok out" "frame_start \<le> dout_len out" "0 < offset" and u: "length (dict_bytes (Some d)) + dout_len out \<le> usize_max"
  let ?n = "dout_len out - frame_start" and ?m = "prefix_or_dictionary_match frame_start window_size d out offset k"
  show "if in_reach (Some d) window_size ?n offset
      then if fits (dout_limit out) (dout_len out + k)
        then \<exists>out'. ?m = Ok out' \<and> keeps out out' \<and> dout_slice out' = take frame_start (dout_slice out)
          @ lz_extend (dict_bytes (Some d)) (drop frame_start (dout_slice out)) offset k
        else ?m = Err DstSizeTooSmall
      else \<exists>e. ?m = Err e"
  proof (cases "offset \<le> min ?n window_size")
    case True
    have "?m = append_match_from_history out (dout_len out - offset) k"
      using True by (auto simp: prefix_or_dictionary_match_def)
    then show ?thesis using prefix_extend [OF a, of k d] True by (simp add: in_reach_def)
  next
    case False
    show ?thesis
    proof (cases "?n \<le> window_size \<and> offset \<le> length d + ?n")
      case True
      have "?m = append_match_from_dictionary_history out frame_start d offset k"
        using False True u by (auto simp: prefix_or_dictionary_match_def Let_def)
      then show ?thesis using append_dictionary_match_run [OF a, of d k] True by (simp add: in_reach_def)
    next
      case nr: False
      then show ?thesis using False u by (auto simp: prefix_or_dictionary_match_def in_reach_def Let_def)
    qed
  qed
qed

lemma append_literals_run:
  assumes "dout_ok out" and "cursor \<le> length lits" and "length lits \<le> usize_max"
  shows "if literal_length s \<le> length lits - cursor
     then if fits (dout_limit out) (dout_len out + literal_length s)
       then \<exists>out'. append_sequence_literals out lits cursor s = Ok (cursor + literal_length s, out') \<and> keeps out out'
         \<and> dout_slice out' = dout_slice out @ take (literal_length s) (drop cursor lits)
       else append_sequence_literals out lits cursor s = Err DstSizeTooSmall
     else \<exists>e. append_sequence_literals out lits cursor s = Err e"
proof (cases "literal_length s \<le> length lits - cursor")
  case True
  let ?c = "take (literal_length s) (drop cursor lits)"
  have c: "length ?c = literal_length s" "cursor + literal_length s \<le> usize_max" "cursor + literal_length s \<le> length lits"
    using True assms by simp_all
  have eq: "append_sequence_literals out lits cursor s
      = and_then (dout_append out ?c) (\<lambda>out. Ok (cursor + literal_length s, out))"
    using c by (simp add: append_sequence_literals_def checked_add_def get_range_def)
  from dout_append_run [OF assms(1), of ?c] show ?thesis using True c unfolding eq c(1) by auto
next
  case False
  then show ?thesis using assms
    by (auto simp: append_sequence_literals_def checked_add_def get_range_def)
qed

lemma lz_sequences_length:
  "lz_sequences dict win w reps lits ss = Some (w', reps', rest) \<Longrightarrow>
    length w' \<ge> length w \<and> length rest \<le> length lits \<and> rest = drop (length lits - length rest) lits
    \<and> length w' + length rest = length w + length lits + sum_list (map match_length ss)"
proof (induction ss arbitrary: w reps lits)
  case (Cons s ss)
  then obtain offset reps1 where r: "resolve_values reps (literal_length s) (offset_value s) = Ok (offset, reps1)"
    "literal_length s \<le> length lits"
    "lz_sequences dict win (lz_extend (dict_bytes dict) (w @ take (literal_length s) lits) offset (match_length s)) reps1
      (drop (literal_length s) lits) ss = Some (w', reps', rest)"
    by (auto simp: Let_def split: result.splits if_splits)
  note IH = Cons.IH [OF r(3)]
  have le: "length rest \<le> length lits - literal_length s" using IH by simp
  have "rest = drop (length lits - literal_length s - length rest) (drop (literal_length s) lits)" using IH by simp
  also have "\<dots> = drop (length lits - length rest) lits" using le r(2) by simp
  finally show ?case using IH le r(2) by simp
qed simp

text \<open>A sequence executor: it resolves the offset, appends the literals, then the match.\<close>

locale sequence_executor =
  fixes dict :: "bytes option" and frame_start window_size :: usize
    and put :: "decode_out \<Rightarrow> nat \<Rightarrow> nat \<Rightarrow> decode_out result"
    and exec :: "bytes \<Rightarrow> sequence_command list \<Rightarrow> decode_out \<times> repeat_offsets \<times> usize \<Rightarrow>
      (decode_out \<times> repeat_offsets \<times> usize) result"
  assumes exec_Nil: "exec lits [] st = Ok st"
    and exec_Cons: "exec lits (s # ss) (out, reps, cursor) =
      and_then (resolve_values reps (literal_length s) (offset_value s)) (\<lambda>(offset, reps).
      and_then (append_sequence_literals out lits cursor s) (\<lambda>(cursor, out).
      if dout_len out < frame_start then Fault else
      and_then (put out offset (match_length s)) (\<lambda>out. exec lits ss (out, reps, cursor))))"
    and put_contract: "match_contract dict frame_start window_size put"
begin

lemma put_run:
  assumes "dout_ok out" and "frame_start \<le> dout_len out" and "0 < offset"
    and "length (dict_bytes dict) + dout_len out \<le> usize_max"
  shows "if in_reach dict window_size (dout_len out - frame_start) offset
      then if fits (dout_limit out) (dout_len out + k)
        then \<exists>out'. put out offset k = Ok out' \<and> keeps out out' \<and> dout_slice out' = take frame_start (dout_slice out)
          @ lz_extend (dict_bytes dict) (drop frame_start (dout_slice out)) offset k
        else put out offset k = Err DstSizeTooSmall
      else \<exists>e. put out offset k = Err e"
  using put_contract assms unfolding match_contract_def by blast

definition outcome :: "decode_out \<Rightarrow> bytes \<Rightarrow> (bytes \<times> repeat_offsets \<times> bytes) option \<Rightarrow>
    (decode_out \<times> repeat_offsets \<times> usize) result \<Rightarrow> bool" where
  "outcome out lits ref r = (case ref of
     Some (w, reps, rest) \<Rightarrow>
       if fits (dout_limit out) (frame_start + length w)
       then \<exists>out'. r = Ok (out', reps, length lits - length rest) \<and> keeps out out'
         \<and> dout_slice out' = take frame_start (dout_slice out) @ w
       else r = Err DstSizeTooSmall
   | None \<Rightarrow> \<exists>e. r = Err e)"

theorem exec_reference:
  assumes "dout_ok out" and "frame_start \<le> dout_len out" and "reps_ok reps" and "cursor \<le> length lits" and "length lits \<le> usize_max"
    and "length (dict_bytes dict) + dout_len out + (length lits - cursor) + sum_list (map match_length ss) \<le> usize_max"
  shows "outcome out lits (lz_sequences dict window_size (drop frame_start (dout_slice out)) reps (drop cursor lits) ss)
    (exec lits ss (out, reps, cursor))"
  using assms(1-4,6)
proof (induction ss arbitrary: out reps cursor)
  case Nil
  then have "fits (dout_limit out) (frame_start + length (drop frame_start (dout_slice out)))"
    using dout_ok_fits [of out] by (simp add: length_dout_slice)
  then show ?case using Nil by (simp add: exec_Nil outcome_def keeps_refl)
next
  case (Cons s ss)
  let ?w = "drop frame_start (dout_slice out)" and ?l = "literal_length s" and ?k = "match_length s"
  let ?ref = "lz_sequences dict window_size ?w reps (drop cursor lits) (s # ss)"
  have len: "length (dout_slice out) = dout_len out" by (rule length_dout_slice [OF Cons.prems(1)])
  show ?case
  proof (cases "resolve_values reps ?l (offset_value s)")
    case Fault
    then show ?thesis using resolve_values_meets [OF Cons.prems(3), of ?l "offset_value s"] by simp
  next
    case (Err e)
    then show ?thesis by (simp add: exec_Cons outcome_def)
  next
    case (Ok p)
    obtain offset reps1 where r: "resolve_values reps ?l (offset_value s) = Ok (offset, reps1)" "0 < offset" "reps_ok reps1"
      using resolve_values_meets [OF Cons.prems(3), of ?l "offset_value s"] Ok by (cases p) auto
    note step = exec_Cons [of lits s ss out reps cursor] r(1) and_then.simps prod.case
    let ?w1 = "?w @ take ?l (drop cursor lits)"
    have ref: "?ref = (if ?l \<le> length lits - cursor \<and> in_reach dict window_size (length ?w1) offset
      then lz_sequences dict window_size (lz_extend (dict_bytes dict) ?w1 offset ?k) reps1 (drop (cursor + ?l) lits) ss else None)"
      by (simp only: lz_sequences.simps r(1) result.case prod.case Let_def length_drop drop_drop add.commute [of cursor ?l])
    note lit = append_literals_run [OF Cons.prems(1,4) assms(5), of s]
    show ?thesis
    proof (cases "?l \<le> length lits - cursor \<and> fits (dout_limit out) (dout_len out + ?l)")
      case False
      then obtain e where e: "append_sequence_literals out lits cursor s = Err e" "?l \<le> length lits - cursor \<Longrightarrow> e = DstSizeTooSmall"
        using lit by (auto split: if_splits)
      have ex: "exec lits (s # ss) (out, reps, cursor) = Err e" unfolding step e(1) ..
      show ?thesis
      proof (cases ?ref)
        case None
        then show ?thesis unfolding outcome_def ex by simp
      next
        case (Some t)
        obtain w' r' rest where t: "t = (w', r', rest)" by (cases t)
        have l: "?l \<le> length lits - cursor" using Some ref by (simp split: if_splits)
        then have "length w' \<ge> length ?w + ?l"
          using Some t ref lz_sequences_length [of dict window_size "lz_extend (dict_bytes dict) ?w1 offset ?k" reps1 "drop (cursor + ?l) lits" ss w' r' rest]
          by (simp split: if_splits)
        then have "\<not> fits (dout_limit out) (frame_start + length w')"
          using False l len Cons.prems(2) fits_mono [of "dout_limit out" "frame_start + length w'" "dout_len out + ?l"]
          by (auto simp: le_diff_conv)
        then show ?thesis using e(2) [OF l] unfolding outcome_def ex Some t by simp
      qed
    next
      case True
      with lit obtain o1 where o1: "append_sequence_literals out lits cursor s = Ok (cursor + ?l, o1)" "keeps out o1"
        "dout_slice o1 = dout_slice out @ take ?l (drop cursor lits)" by auto
      have l1: "dout_len o1 = dout_len out + ?l"
        using length_dout_slice [OF keeps_ok [OF o1(2)]] o1(3) len True by simp
      have w1: "drop frame_start (dout_slice o1) = ?w1" "length ?w1 = dout_len o1 - frame_start"
        "take frame_start (dout_slice o1) = take frame_start (dout_slice out)"
        using o1(3) len Cons.prems(2) l1 True by simp_all
      have fs: "\<not> dout_len o1 < frame_start" "frame_start \<le> dout_len o1" using l1 Cons.prems(2) by simp_all
      have room: "length (dict_bytes dict) + dout_len o1 \<le> usize_max" using Cons.prems(5) l1 True by simp
      have ex: "exec lits (s # ss) (out, reps, cursor)
          = and_then (put o1 offset ?k) (\<lambda>out. exec lits ss (out, reps1, cursor + ?l))"
        unfolding step o1(1) if_not_P [OF fs(1)] ..
      note pr = put_run [OF keeps_ok [OF o1(2)] fs(2) r(2) room, of ?k]
      show ?thesis
      proof (cases "in_reach dict window_size (length ?w1) offset")
        case False
        then obtain e where "put o1 offset ?k = Err e" using pr unfolding w1(2) by auto
        moreover have "?ref = None" unfolding ref using False by (simp only: simp_thms if_False)
        ultimately show ?thesis unfolding outcome_def ex by simp
      next
        case reach: True
        have ref1: "?ref = lz_sequences dict window_size (lz_extend (dict_bytes dict) ?w1 offset ?k) reps1 (drop (cursor + ?l) lits) ss"
          unfolding ref using True reach by (intro if_P) blast
        show ?thesis
        proof (cases "fits (dout_limit out) (dout_len o1 + ?k)")
          case False
          then have e: "put o1 offset ?k = Err DstSizeTooSmall"
            using pr reach keeps_limit [OF o1(2)] unfolding w1(2) by simp
          have "\<not> fits (dout_limit out) (frame_start + length w')" if "?ref = Some (w', r', rest)" for w' r' rest
            using lz_sequences_length [OF that [unfolded ref1]] False fs(2) w1(2)
              fits_mono [of "dout_limit out" "frame_start + length w'" "dout_len o1 + ?k"]
            by (auto simp: le_diff_conv)
          then show ?thesis unfolding outcome_def ex e by (auto split: option.splits)
        next
          case fit: True
          then obtain o2 where o2: "put o1 offset ?k = Ok o2" "keeps o1 o2"
            "dout_slice o2 = take frame_start (dout_slice out) @ lz_extend (dict_bytes dict) ?w1 offset ?k"
            using pr reach keeps_limit [OF o1(2)] unfolding w1 by auto
          have l2: "dout_len o2 = dout_len o1 + ?k"
            using length_dout_slice [OF keeps_ok [OF o2(2)]] o2(3) len Cons.prems(2) w1(2) fs(2) by simp
          have d2: "drop frame_start (dout_slice o2) = lz_extend (dict_bytes dict) ?w1 offset ?k"
            "take frame_start (dout_slice o2) = take frame_start (dout_slice out)"
            using o2(3) len Cons.prems(2) by simp_all
          have "outcome o2 lits (lz_sequences dict window_size (drop frame_start (dout_slice o2)) reps1 (drop (cursor + ?l) lits) ss)
            (exec lits ss (o2, reps1, cursor + ?l))"
          proof (intro Cons.IH keeps_ok [OF o2(2)] r(3))
            have l: "?l \<le> length lits - cursor" using True ..
            then show "cursor + ?l \<le> length lits" using Cons.prems(4) by linarith
            show "frame_start \<le> dout_len o2" using l2 fs(2) by linarith
            show "length (dict_bytes dict) + dout_len o2 + (length lits - (cursor + ?l)) + sum_list (map match_length ss) \<le> usize_max"
              using l l1 l2 Cons.prems(4,5) by simp
          qed
          then show ?thesis unfolding ex o2(1) ref1 d2(1) and_then.simps outcome_def d2(2)
              keeps_limit [OF o2(2)] keeps_limit [OF o1(2)]
            by (auto split: option.splits if_splits dest: keeps_trans [OF keeps_trans [OF o1(2) o2(2)]])
        qed
      qed
    qed
  qed
qed

end

interpretation plain: sequence_executor None frame_start window_size "prefix_match frame_start window_size"
    "execute_sequences_without_dictionary frame_start window_size" for frame_start window_size
  by unfold_locales (simp_all add: prefix_match_contract)

interpretation dictionary: sequence_executor "Some d" frame_start window_size
    "prefix_or_dictionary_match frame_start window_size d"
    "execute_sequences_with_dictionary frame_start window_size d" for d frame_start window_size
  by unfold_locales (simp_all add: dictionary_match_contract)


subsection \<open>Properties\<close>

lemma try_reserve_run:
  assumes "dout_ok out" and "dout_len out + n \<le> isize_max"
  shows "\<exists>out'. dout_try_reserve out n = Ok out' \<and> keeps out out' \<and> dout_slice out' = dout_slice out
    \<and> dout_len out' = dout_len out \<and> (is_growable out \<longrightarrow> dout_len out + n \<le> dout_capacity out')"
  using assms
  by (cases out) (auto simp: keeps_def dout_ok_def dout_len_def dout_capacity_def dout_slice_def vec_reserve_def)

lemma execute_either:
  assumes "dout_ok out" and "frame_start \<le> dout_len out" and "reps_ok reps" and "length lits \<le> usize_max"
    and "length (dict_bytes dict) + dout_len out + length lits + sum_list (map match_length ss) \<le> usize_max"
  shows "case lz_sequences dict window_size (drop frame_start (dout_slice out)) reps lits ss of
      Some (w, r, rest) \<Rightarrow>
        if fits (dout_limit out) (frame_start + length w)
        then \<exists>out'. (case dict of
            Some d \<Rightarrow> execute_sequences_with_dictionary frame_start window_size d lits ss (out, reps, 0)
          | None \<Rightarrow> execute_sequences_without_dictionary frame_start window_size lits ss (out, reps, 0))
            = Ok (out', r, length lits - length rest) \<and> keeps out out' \<and> dout_slice out' = take frame_start (dout_slice out) @ w
        else (case dict of
            Some d \<Rightarrow> execute_sequences_with_dictionary frame_start window_size d lits ss (out, reps, 0)
          | None \<Rightarrow> execute_sequences_without_dictionary frame_start window_size lits ss (out, reps, 0)) = Err DstSizeTooSmall
    | None \<Rightarrow> \<exists>e. (case dict of
            Some d \<Rightarrow> execute_sequences_with_dictionary frame_start window_size d lits ss (out, reps, 0)
          | None \<Rightarrow> execute_sequences_without_dictionary frame_start window_size lits ss (out, reps, 0)) = Err e"
proof (cases dict)
  case None
  then show ?thesis using plain.exec_reference [OF assms(1-3) _ assms(4), of 0 ss window_size] assms(5)
    unfolding plain.outcome_def None option.case by simp
next
  case (Some d)
  then show ?thesis using dictionary.exec_reference [OF assms(1-3) _ assms(4), of 0 d ss window_size] assms(5)
    unfolding dictionary.outcome_def Some option.case by simp
qed

text \<open>C35. The two-pass executor is the format's account of a block: it resolves each offset, copies the literals, and
  extends the frame's output by the match in dictionary and output, byte by byte; the literals that are left
  come last. It fails exactly when the reference does not accept the sequences, or the block, the cap or
  the destination is too small for what the block makes.\<close>

theorem execute_sequences_reference:
  assumes "dout_ok out" and "frame_start \<le> dout_len out" and "reps_ok reps"
    and "length (dict_bytes dict) + dout_len out + length lits + sum_list (map match_length ss) + 32 \<le> isize_max"
  shows "case lz_sequences dict window_size (drop frame_start (dout_slice out)) reps lits ss of
      Some (w, r, rest) \<Rightarrow>
        if length lits + sum_list (map match_length ss) \<le> block_size_max
          \<and> fits max_output (dout_len out + length lits + sum_list (map match_length ss))
          \<and> fits (dout_limit out) (dout_len out + length lits + sum_list (map match_length ss))
        then \<exists>out'. execute_sequences out frame_start window_size block_size_max dict lits ss reps max_output
              (sum_list (map match_length ss)) = Ok (out', r)
            \<and> dout_ok out' \<and> dout_slice out' = take frame_start (dout_slice out) @ w @ rest
        else \<exists>e. execute_sequences out frame_start window_size block_size_max dict lits ss reps max_output
              (sum_list (map match_length ss)) = Err e
    | None \<Rightarrow> \<exists>e. execute_sequences out frame_start window_size block_size_max dict lits ss reps max_output
              (sum_list (map match_length ss)) = Err e"
proof -
  let ?t = "sum_list (map match_length ss)" and ?ref = "lz_sequences dict window_size (drop frame_start (dout_slice out)) reps lits ss"
  let ?run = "execute_sequences out frame_start window_size block_size_max dict lits ss reps max_output ?t"
  let ?body = "\<lambda>dst. case dict of
      Some d \<Rightarrow> execute_sequences_with_dictionary frame_start window_size d lits ss (dst, reps, 0)
    | None \<Rightarrow> execute_sequences_without_dictionary frame_start window_size lits ss (dst, reps, 0)"
  have u: "isize_max + 32 \<le> usize_max" by (simp add: isize_max_def usize_max_def)
  have c: "checked_add (length lits) ?t = Some (length lits + ?t)"
    "checked_add (dout_len out) (length lits + ?t) = Some (dout_len out + (length lits + ?t))"
    "\<not> usize_max < length lits + ?t + WILDCOPY_OVERLENGTH"
    using assms(4) u by (simp_all add: checked_add_def WILDCOPY_OVERLENGTH_def)
  obtain o1 where o1: "dout_try_reserve out (length lits + ?t + WILDCOPY_OVERLENGTH) = Ok o1" "keeps out o1"
    "dout_slice o1 = dout_slice out" "dout_len o1 = dout_len out"
    using try_reserve_run [OF assms(1), of "length lits + ?t + WILDCOPY_OVERLENGTH"] assms(4) by (auto simp: WILDCOPY_OVERLENGTH_def)
  have len: "length (dout_slice out) = dout_len out" by (rule length_dout_slice [OF assms(1)])
  note body = execute_either [OF keeps_ok [OF o1(2)] _ assms(3), of frame_start lits dict ss window_size,
      unfolded o1(3,4) keeps_limit [OF o1(2)], OF assms(2)]
  have bounds: "length lits \<le> usize_max" "length (dict_bytes dict) + dout_len out + length lits + ?t \<le> usize_max"
    using assms(4) u by simp_all
  show ?thesis
  proof (cases "length lits + ?t \<le> block_size_max \<and> fits max_output (dout_len out + length lits + ?t)")
    case False
    then have "\<exists>e. ?run = Err e"
      unfolding execute_sequences_def c ok_or.simps and_then.simps
      by (auto simp: fits_def add.assoc split: option.splits)
    then show ?thesis using False by (auto split: option.splits)
  next
    case lim: True
    have run: "?run = and_then (?body o1) (\<lambda>(out', reps, literal_cursor).
        and_then (ok_or (get_from lits literal_cursor) (Corruption ''sequence literal cursor exceeded literals buffer'')) (\<lambda>trailing.
        and_then (dout_append out' trailing) (\<lambda>out'.
          if dout_len out' \<noteq> dout_len out + (length lits + ?t) then Fault else Ok (out', reps))))"
      unfolding execute_sequences_def c ok_or.simps and_then.simps o1(1) Let_def if_not_P [OF c(3)]
      using lim by (cases max_output) (simp_all add: fits_def add.assoc)
    show ?thesis
    proof (cases ?ref)
      case None
      then show ?thesis using body [OF bounds] run by auto
    next
      case (Some t)
      obtain w r rest where t: "t = (w, r, rest)" by (cases t)
      have g: "length rest \<le> length lits" "rest = drop (length lits - length rest) lits"
        "frame_start + length w + length rest = dout_len out + length lits + ?t"
        using lz_sequences_length [OF Some [unfolded t]] assms(2) len by auto
      show ?thesis
      proof (cases "fits (dout_limit out) (frame_start + length w)")
        case False
        then have "\<not> fits (dout_limit out) (dout_len out + length lits + ?t)"
          using fits_mono g(3) by (metis le_add1)
        then show ?thesis using body [OF bounds] False run unfolding Some t by simp
      next
        case True
        then obtain o2 where o2: "?body o1 = Ok (o2, r, length lits - length rest)" "keeps o1 o2"
          "dout_slice o2 = take frame_start (dout_slice out) @ w"
          using body [OF bounds] unfolding Some t by auto
        have k: "keeps out o2" by (rule keeps_trans [OF o1(2) o2(2)])
        have l2: "dout_len o2 = frame_start + length w"
          using length_dout_slice [OF keeps_ok [OF k]] o2(3) assms(2) len by simp
        have gf: "get_from lits (length lits - length rest) = Some rest" using g(2) by (simp add: get_from_def)
        note ap = dout_append_run [OF keeps_ok [OF k], of rest, unfolded keeps_limit [OF k] l2 g(3)]
        show ?thesis
        proof (cases "fits (dout_limit out) (dout_len out + length lits + ?t)")
          case False
          then show ?thesis using ap unfolding run o2(1) Some t and_then.simps prod.case gf ok_or.simps by simp
        next
          case True
          with ap obtain o3 where o3: "dout_append o2 rest = Ok o3" "keeps o2 o3" "dout_slice o3 = dout_slice o2 @ rest" by auto
          have "dout_len o3 = dout_len out + (length lits + ?t)"
            using length_dout_slice [OF keeps_ok [OF o3(2)]] o3(3) o2(3) g(3) assms(2) len by simp
          then show ?thesis using True lim o3 o2(3) keeps_ok [OF o3(2)]
            unfolding run o2(1) Some t and_then.simps prod.case gf ok_or.simps by simp
        qed
      qed
    qed
  qed
qed

theorem execute_sequences_reference_witness:
  "\<exists>out'. execute_sequences (decode_growable [7, 8, 9]) 3 100 100 (Some [1, 2, 3]) [5, 6]
      [\<lparr>literal_length = 1, match_length = 4, offset_value = 5\<rparr>] repeat_offsets_default None 4
      = Ok (out', \<lparr>rep1 = 2, rep2 = 1, rep3 = 4\<rparr>)
    \<and> dout_slice out' = [7, 8, 9, 5, 3, 5, 3, 5, 6]"
proof -
  let ?out = "decode_growable [7, 8, 9]" and ?s = "\<lparr>literal_length = 1, match_length = 4, offset_value = 5\<rparr>"
  have m: "lz_extend [1, 2, 3] [5] 2 4 = [5, 3, 5, 3, 5 :: u8]"
    by (simp add: lz_extend_def eval_nat_numeral)
  have "resolve_values repeat_offsets_default 1 5 = Ok (2, \<lparr>rep1 = 2, rep2 = 1, rep3 = 4\<rparr>)"
    by (simp add: resolve_values_def repeat_offsets_default_def)
  then have ref: "lz_sequences (Some [1, 2, 3]) 100 [] repeat_offsets_default [5, 6] [?s]
      = Some ([5, 3, 5, 3, 5], \<lparr>rep1 = 2, rep2 = 1, rep3 = 4\<rparr>, [6])"
    by (simp add: in_reach_def m)
  have o: "dout_ok ?out" "dout_len ?out = 3" "dout_slice ?out = [7, 8, 9]" "dout_limit ?out = None"
    by (simp_all add: decode_growable_def dout_ok_def dout_len_def dout_slice_def)
  have "reps_ok repeat_offsets_default" by (simp add: reps_ok_def repeat_offsets_default_def)
  note T = execute_sequences_reference [OF o(1) _ this, of 3 "Some [1, 2, 3]" "[5, 6]" "[?s]" 100 100 None, unfolded o]
  have d: "drop 3 [7, 8, 9] = ([] :: bytes)" "sum_list (map match_length [?s]) = 4" by simp_all
  show ?thesis using T unfolding d ref option.case prod.case by (auto simp: fits_def isize_max_def)
qed

end
