(* ===== verification/SeqTables.thy ===== *)
theory SeqTables
  imports SeqHistory FseDecode
begin

section \<open>The sequences section header and its tables (sequence.rs)\<close>

text \<open>
  The header of a sequences section in \<open>src/src/sequence.rs\<close>: the number of sequences, the modes of the three
  tables and the tables themselves, each predefined, one repeated symbol, described in the section, or kept
  from an earlier block. \<open>sequence_tables\<close> is \<open>SequenceTablesState\<close>, the tables a frame carries from block to
  block: plain tables, tables with embedded baselines, and the flags that say which of them are current.
  \<open>expect\<close> panics on an error.
\<close>

definition expect :: "'a result \<Rightarrow> 'a result" where
  "expect m = (case m of Ok x \<Rightarrow> Ok x | _ \<Rightarrow> Fault)"

datatype sequence_part = LiteralLength | Offset | MatchLength

fun max_symbol_value :: "sequence_part \<Rightarrow> nat" where
  "max_symbol_value LiteralLength = 35"
| "max_symbol_value Offset = 31"
| "max_symbol_value MatchLength = 52"

fun default_max_symbol :: "sequence_part \<Rightarrow> nat" where
  "default_max_symbol LiteralLength = 35"
| "default_max_symbol Offset = 28"
| "default_max_symbol MatchLength = 52"

definition default_allowed :: "sequence_part \<Rightarrow> nat \<Rightarrow> bool" where
  "default_allowed part max_symbol \<longleftrightarrow> max_symbol \<le> default_max_symbol part"

fun max_accuracy_log :: "sequence_part \<Rightarrow> nat" where
  "max_accuracy_log LiteralLength = 9"
| "max_accuracy_log Offset = 8"
| "max_accuracy_log MatchLength = 9"

fun default_distribution :: "sequence_part \<Rightarrow> int list \<times> nat" where
  "default_distribution LiteralLength = (LITERAL_LENGTH_DEFAULT_DISTRIBUTION, 6)"
| "default_distribution Offset = (OFFSET_DEFAULT_DISTRIBUTION, 5)"
| "default_distribution MatchLength = (MATCH_LENGTH_DEFAULT_DISTRIBUTION, 6)"

datatype compression_mode = Predefined | RleMode | FseCompressed | Repeat

definition mode_from_bits :: "u8 \<Rightarrow> compression_mode" where
  "mode_from_bits bits = (if bits AND 3 = 0 then Predefined else if bits AND 3 = 1 then RleMode
     else if bits AND 3 = 2 then FseCompressed else Repeat)"

fun mode_bits :: "compression_mode \<Rightarrow> u8" where
  "mode_bits Predefined = 0"
| "mode_bits RleMode = 1"
| "mode_bits FseCompressed = 2"
| "mode_bits Repeat = 3"

record compression_modes =
  ll_mode :: compression_mode
  of_mode :: compression_mode
  ml_mode :: compression_mode

datatype table_target = SequenceOnly | Both

record sequence_tables =
  literal_lengths :: "dtable option"
  offsets :: "dtable option"
  match_lengths :: "dtable option"
  seq_ll :: seq_dtable
  seq_of :: seq_dtable
  seq_ml :: seq_dtable
  ll_dirty :: bool
  of_dirty :: bool
  ml_dirty :: bool
  has_ll :: bool
  has_of :: bool
  has_ml :: bool

definition with_tables :: "dtable option \<Rightarrow> dtable option \<Rightarrow> dtable option \<Rightarrow> sequence_tables" where
  "with_tables ll off ml =
     \<lparr>literal_lengths = ll, offsets = off, match_lengths = ml,
      seq_ll = seq_dtable_default, seq_of = seq_dtable_default, seq_ml = seq_dtable_default,
      ll_dirty = True, of_dirty = True, ml_dirty = True,
      has_ll = ll \<noteq> None, has_of = off \<noteq> None, has_ml = ml \<noteq> None\<rparr>"

definition sequence_tables_default :: sequence_tables where
  "sequence_tables_default =
     \<lparr>literal_lengths = None, offsets = None, match_lengths = None,
      seq_ll = seq_dtable_default, seq_of = seq_dtable_default, seq_ml = seq_dtable_default,
      ll_dirty = True, of_dirty = True, ml_dirty = True, has_ll = False, has_of = False, has_ml = False\<rparr>"

subsection \<open>Predefined tables\<close>

definition predefined_sequence_dtable :: "sequence_part \<Rightarrow> dtable result" where
  "predefined_sequence_dtable part =
     and_then (expect (build_dtable dtable_default LITERAL_LENGTH_DEFAULT_DISTRIBUTION
       (length LITERAL_LENGTH_DEFAULT_DISTRIBUTION - 1) LL_DEFAULT_LOG)) (\<lambda>ll.
     and_then (expect (build_dtable dtable_default OFFSET_DEFAULT_DISTRIBUTION
       (length OFFSET_DEFAULT_DISTRIBUTION - 1) OF_DEFAULT_LOG)) (\<lambda>off.
     and_then (expect (build_dtable dtable_default MATCH_LENGTH_DEFAULT_DISTRIBUTION
       (length MATCH_LENGTH_DEFAULT_DISTRIBUTION - 1) ML_DEFAULT_LOG)) (\<lambda>ml.
       Ok (case part of LiteralLength \<Rightarrow> ll | Offset \<Rightarrow> off | MatchLength \<Rightarrow> ml))))"

definition predefined_seq_dtable :: "sequence_part \<Rightarrow> seq_dtable result" where
  "predefined_seq_dtable part =
     and_then (expect (build_sequence_dtable_direct seq_dtable_default LITERAL_LENGTH_DEFAULT_DISTRIBUTION
       (length LITERAL_LENGTH_DEFAULT_DISTRIBUTION - 1) LL_DEFAULT_LOG LITERAL_LENGTH_BASELINES
       LITERAL_LENGTH_EXTRA_BITS)) (\<lambda>ll.
     and_then (expect (build_offset_sequence_dtable_direct seq_dtable_default OFFSET_DEFAULT_DISTRIBUTION
       (length OFFSET_DEFAULT_DISTRIBUTION - 1) OF_DEFAULT_LOG)) (\<lambda>off.
     and_then (expect (build_sequence_dtable_direct seq_dtable_default MATCH_LENGTH_DEFAULT_DISTRIBUTION
       (length MATCH_LENGTH_DEFAULT_DISTRIBUTION - 1) ML_DEFAULT_LOG MATCH_LENGTH_BASELINES
       MATCH_LENGTH_EXTRA_BITS)) (\<lambda>ml.
       Ok (case part of LiteralLength \<Rightarrow> ll | Offset \<Rightarrow> off | MatchLength \<Rightarrow> ml))))"

subsection \<open>One table\<close>

text \<open>The builders a part selects.\<close>

definition build_part_rle :: "sequence_part \<Rightarrow> seq_dtable \<Rightarrow> nat \<Rightarrow> seq_dtable result" where
  "build_part_rle part seq_dt symbol =
     (case part of
        Offset \<Rightarrow> build_rle_offset_sequence_dtable seq_dt symbol
      | LiteralLength \<Rightarrow> build_rle_sequence_dtable seq_dt symbol LITERAL_LENGTH_BASELINES LITERAL_LENGTH_EXTRA_BITS
      | MatchLength \<Rightarrow> build_rle_sequence_dtable seq_dt symbol MATCH_LENGTH_BASELINES MATCH_LENGTH_EXTRA_BITS)"

definition build_part_direct :: "sequence_part \<Rightarrow> seq_dtable \<Rightarrow> int list \<Rightarrow> nat \<Rightarrow> nat \<Rightarrow> seq_dtable result" where
  "build_part_direct part seq_dt counts msv table_log =
     (case part of
        Offset \<Rightarrow> build_offset_sequence_dtable_direct seq_dt counts msv table_log
      | LiteralLength \<Rightarrow> build_sequence_dtable_direct seq_dt counts msv table_log LITERAL_LENGTH_BASELINES
          LITERAL_LENGTH_EXTRA_BITS
      | MatchLength \<Rightarrow> build_sequence_dtable_direct seq_dt counts msv table_log MATCH_LENGTH_BASELINES
          MATCH_LENGTH_EXTRA_BITS)"

text \<open>\<open>get_or_insert_with\<close>\<close>

definition slot_or_default :: "dtable option \<Rightarrow> dtable" where
  "slot_or_default slot = (case slot of Some dt \<Rightarrow> dt | None \<Rightarrow> dtable_default)"

definition copy_active_seq :: "seq_dtable \<Rightarrow> seq_dtable \<Rightarrow> seq_dtable result" where
  "copy_active_seq seq_dt precomputed =
     and_then (idx_range (st_entries precomputed) 0 (table_entries_size (st_table_log precomputed))) (\<lambda>active.
     and_then (copy_into (st_entries seq_dt) 0 active) (\<lambda>es.
       Ok \<lparr>st_table_log = st_table_log precomputed, st_entries = es\<rparr>))"

type_synonym table_slot = "dtable option \<times> seq_dtable \<times> bool"

definition decode_seq_table_both ::
    "table_slot \<Rightarrow> bytes \<Rightarrow> usize \<Rightarrow> sequence_part \<Rightarrow> compression_mode \<Rightarrow> table_target \<Rightarrow>
     (table_slot \<times> usize) result" where
  "decode_seq_table_both slot src cursor part mode target =
     (case slot of (dt_slot, seq_dt, has_table) \<Rightarrow>
      case mode of
        Predefined \<Rightarrow>
          and_then (if target = Both then
              and_then (predefined_sequence_dtable part) (\<lambda>pre.
              and_then (copy_active_from (slot_or_default dt_slot) pre (table_entries_size (dt_table_log pre))) (\<lambda>dt.
                Ok (Some dt)))
            else Ok None) (\<lambda>dt_slot.
          and_then (predefined_seq_dtable part) (\<lambda>pre.
          and_then (copy_active_seq seq_dt pre) (\<lambda>seq_dt.
            Ok ((dt_slot, seq_dt, True), cursor))))
      | RleMode \<Rightarrow>
          and_then (ok_or (slice_get src cursor) UnexpectedEof) (\<lambda>symbol.
          if max_symbol_value part < unat symbol
          then Err (Corruption ''sequence RLE symbol exceeds the supported code range'') else
          and_then (if target = Both then
              and_then (build_rle_dtable (slot_or_default dt_slot) (unat symbol)) (\<lambda>dt. Ok (Some dt))
            else Ok None) (\<lambda>dt_slot.
          and_then (build_part_rle part seq_dt (unat symbol)) (\<lambda>seq_dt.
            Ok ((dt_slot, seq_dt, True), cursor + 1))))
      | FseCompressed \<Rightarrow>
          and_then (idx_from src cursor) (\<lambda>rest.
          and_then (read_ncount (replicate (SYMBOLVALUE_MAX + 1) 0) (max_symbol_value part) rest
              (max_accuracy_log part)) (\<lambda>(normalized, msv, table_log, consumed).
          and_then (if target = Both then
              and_then (build_dtable (slot_or_default dt_slot) normalized msv table_log) (\<lambda>dt. Ok (Some dt))
            else Ok None) (\<lambda>dt_slot.
          and_then (build_part_direct part seq_dt normalized msv table_log) (\<lambda>seq_dt.
            Ok ((dt_slot, seq_dt, True), cursor + consumed)))))
      | Repeat \<Rightarrow>
          if \<not> has_table then Err (Corruption ''sequence repeat mode requires a previous FSE table'')
          else Ok ((dt_slot, seq_dt, has_table), cursor))"

subsection \<open>The section\<close>

record parsed_section =
  number_of_sequences :: usize
  section_header_size :: usize
  section_modes :: "compression_modes option"
  section_bitstream :: bytes

text \<open>From the modes byte on.\<close>

definition parse_section_tables ::
    "bytes \<Rightarrow> sequence_tables \<Rightarrow> table_target \<Rightarrow> usize \<Rightarrow> usize \<Rightarrow> u8 \<Rightarrow> (parsed_section \<times> sequence_tables) result" where
  "parse_section_tables src tables target n cursor modes_byte =
     (if modes_byte AND 3 \<noteq> 0 then Err (Corruption ''sequence compression modes reserved bits are set'') else
      let modes = \<lparr>ll_mode = mode_from_bits (drop_bit 6 modes_byte), of_mode = mode_from_bits (drop_bit 4 modes_byte AND 3),
        ml_mode = mode_from_bits (drop_bit 2 modes_byte AND 3)\<rparr> in
      and_then (decode_seq_table_both (literal_lengths tables, seq_ll tables, has_ll tables) src cursor
          LiteralLength (ll_mode modes) target) (\<lambda>((dt, seq_dt, has), cursor).
      let tables = tables\<lparr>literal_lengths := dt, seq_ll := seq_dt, has_ll := has,
        ll_dirty := ll_dirty tables \<and> ll_mode modes = Repeat\<rparr> in
      and_then (decode_seq_table_both (offsets tables, seq_of tables, has_of tables) src cursor
          Offset (of_mode modes) target) (\<lambda>((dt, seq_dt, has), cursor).
      let tables = tables\<lparr>offsets := dt, seq_of := seq_dt, has_of := has,
        of_dirty := of_dirty tables \<and> of_mode modes = Repeat\<rparr> in
      and_then (decode_seq_table_both (match_lengths tables, seq_ml tables, has_ml tables) src cursor
          MatchLength (ml_mode modes) target) (\<lambda>((dt, seq_dt, has), cursor).
      let tables = tables\<lparr>match_lengths := dt, seq_ml := seq_dt, has_ml := has,
        ml_dirty := ml_dirty tables \<and> ml_mode modes = Repeat\<rparr> in
      and_then (ok_or (get_from src cursor) UnexpectedEof) (\<lambda>bits.
      if bits = [] then Err UnexpectedEof else
        Ok (\<lparr>number_of_sequences = n, section_header_size = cursor, section_modes = Some modes,
             section_bitstream = bits\<rparr>, tables))))))"

definition parse_sequence_section ::
    "bytes \<Rightarrow> sequence_tables \<Rightarrow> table_target \<Rightarrow> (parsed_section \<times> sequence_tables) result" where
  "parse_sequence_section src tables target =
     and_then (parse_sequence_count src) (\<lambda>(n, count_size).
     if n = 0 then
       Ok (\<lparr>number_of_sequences = 0, section_header_size = count_size, section_modes = None,
            section_bitstream = []\<rparr>, tables)
     else
       and_then (ok_or (slice_get src count_size) UnexpectedEof) (\<lambda>modes_byte.
         parse_section_tables src tables target n (count_size + 1) modes_byte))"

text \<open>The tables the executor needs, rebuilt where only the plain table is current.\<close>

definition setup_table :: "(dtable \<Rightarrow> seq_dtable \<Rightarrow> seq_dtable result) \<Rightarrow> error \<Rightarrow> dtable option \<Rightarrow> seq_dtable \<Rightarrow> bool \<Rightarrow>
    bool \<Rightarrow> (seq_dtable \<times> bool \<times> bool) result" where
  "setup_table build missing slot seq_dt dirty has =
     (if dirty then
        and_then (ok_or slot missing) (\<lambda>dt. and_then (build dt seq_dt) (\<lambda>seq_dt. Ok (seq_dt, False, True)))
      else if \<not> has then Err missing else Ok (seq_dt, dirty, has))"

definition decode_setup ::
    "sequence_tables \<Rightarrow> decode_out \<Rightarrow> usize \<Rightarrow> output_limit \<Rightarrow> (sequence_tables \<times> decode_out \<times> usize \<times> usize) result" where
  "decode_setup tables out block_size_max limit =
     and_then (setup_table (\<lambda>dt. build_sequence_dtable_from dt LITERAL_LENGTH_BASELINES LITERAL_LENGTH_EXTRA_BITS)
         (Corruption ''missing literal-length FSE table'') (literal_lengths tables) (seq_ll tables) (ll_dirty tables)
         (has_ll tables)) (\<lambda>(t, dirty, has).
     let tables = tables\<lparr>seq_ll := t, ll_dirty := dirty, has_ll := has\<rparr> in
     and_then (setup_table build_offset_sequence_dtable_from
         (Corruption ''missing offset FSE table'') (offsets tables) (seq_of tables) (of_dirty tables)
         (has_of tables)) (\<lambda>(t, dirty, has).
     let tables = tables\<lparr>seq_of := t, of_dirty := dirty, has_of := has\<rparr> in
     and_then (setup_table (\<lambda>dt. build_sequence_dtable_from dt MATCH_LENGTH_BASELINES MATCH_LENGTH_EXTRA_BITS)
         (Corruption ''missing match-length FSE table'') (match_lengths tables) (seq_ml tables) (ml_dirty tables)
         (has_ml tables)) (\<lambda>(t, dirty, has).
     let tables = tables\<lparr>seq_ml := t, ml_dirty := dirty, has_ml := has\<rparr> in
     and_then (reserve_block_output out block_size_max limit) (\<lambda>out.
     and_then (limit_remaining limit (dout_len out)) (\<lambda>remaining.
       Ok (tables, out, block_size_max, remaining))))))"


subsection \<open>Invariant\<close>

text \<open>The entry of a symbol in a part's table with baselines.\<close>

fun part_entry :: "sequence_part \<Rightarrow> nat \<Rightarrow> nat \<Rightarrow> nat \<Rightarrow> seq_entry" where
  "part_entry LiteralLength = mk_seq_entry LITERAL_LENGTH_BASELINES LITERAL_LENGTH_EXTRA_BITS"
| "part_entry Offset = mk_offset_entry"
| "part_entry MatchLength = mk_seq_entry MATCH_LENGTH_BASELINES MATCH_LENGTH_EXTRA_BITS"

definition part_dtable_ok :: "sequence_part \<Rightarrow> dtable \<Rightarrow> bool" where
  "part_dtable_ok part dt \<longleftrightarrow> dtable_ok dt \<and> dt_table_log dt \<le> max_accuracy_log part
     \<and> (\<forall>u < 2 ^ dt_table_log dt. de_symbol (dt_entries dt ! u) \<le> max_symbol_value part)"

text \<open>The table with baselines is the plain table's conversion.\<close>

definition converted :: "sequence_part \<Rightarrow> dtable \<Rightarrow> seq_dtable \<Rightarrow> bool" where
  "converted part dt t \<longleftrightarrow> length (st_entries t) = TABLESIZE_MAX \<and> st_table_log t = dt_table_log dt
     \<and> (\<forall>u < 2 ^ dt_table_log dt. st_entries t ! u =
          (let e = dt_entries dt ! u in part_entry part (de_symbol e) (de_nb_bits e) (de_new_state e)))"

definition part_table_ok :: "sequence_part \<Rightarrow> seq_dtable \<Rightarrow> bool" where
  "part_table_ok part t \<longleftrightarrow> (\<exists>dt. part_dtable_ok part dt \<and> converted part dt t)"

fun slot_ok :: "sequence_part \<Rightarrow> table_slot \<Rightarrow> bool \<Rightarrow> bool" where
  "slot_ok part (slot, t, has) dirty \<longleftrightarrow> length (st_entries t) = TABLESIZE_MAX
     \<and> (\<forall>dt. slot = Some dt \<longrightarrow> part_dtable_ok part dt \<and> (has \<and> \<not> dirty \<longrightarrow> converted part dt t))
     \<and> (has \<and> \<not> dirty \<longrightarrow> part_table_ok part t) \<and> (has \<and> dirty \<longrightarrow> slot \<noteq> None)"

definition tables_ok :: "sequence_tables \<Rightarrow> bool" where
  "tables_ok t \<longleftrightarrow> slot_ok LiteralLength (literal_lengths t, seq_ll t, has_ll t) (ll_dirty t)
     \<and> slot_ok Offset (offsets t, seq_of t, has_of t) (of_dirty t)
     \<and> slot_ok MatchLength (match_lengths t, seq_ml t, has_ml t) (ml_dirty t)"

lemma length_seq_default [simp]: "length (st_entries seq_dtable_default) = TABLESIZE_MAX"
  by (simp add: seq_dtable_default_def)

lemma length_dtable_default [simp]: "length (dt_entries dtable_default) = TABLESIZE_MAX"
  by (simp add: dtable_default_def)

lemma tables_ok_default: "tables_ok sequence_tables_default"
  by (simp add: tables_ok_def sequence_tables_default_def)

text \<open>Tables a dictionary brings.\<close>

lemma tables_ok_with:
  assumes "\<And>dt. ll = Some dt \<Longrightarrow> part_dtable_ok LiteralLength dt" and "\<And>dt. off = Some dt \<Longrightarrow> part_dtable_ok Offset dt"
    and "\<And>dt. ml = Some dt \<Longrightarrow> part_dtable_ok MatchLength dt"
  shows "tables_ok (with_tables ll off ml)"
  using assms by (simp add: tables_ok_def with_tables_def)

lemma part_dtable_size: "part_dtable_ok part dt \<Longrightarrow> (2 :: nat) ^ dt_table_log dt \<le> 512"
  by (auto simp: part_dtable_ok_def dtable_ok_def intro: two_power_le_512)

lemma part_dtable_length: "part_dtable_ok part dt \<Longrightarrow> length (dt_entries dt) = TABLESIZE_MAX"
  by (simp add: part_dtable_ok_def dtable_ok_def)

lemma slot_or_default_length:
  "(\<And>dt. slot = Some dt \<Longrightarrow> part_dtable_ok part dt) \<Longrightarrow> length (dt_entries (slot_or_default slot)) = TABLESIZE_MAX"
  by (cases slot) (auto simp: slot_or_default_def part_dtable_length)

subsection \<open>Building the tables\<close>

text \<open>From valid counts within the part's limits both builders succeed and agree.\<close>

lemma build_part:
  assumes v: "counts_valid L counts (Suc msv)" and m: "msv \<le> max_symbol_value part" "L \<le> max_accuracy_log part"
    and l: "length (dt_entries d) = TABLESIZE_MAX" "length (st_entries t) = TABLESIZE_MAX"
  shows "\<exists>dt t'. build_dtable d counts msv L = Ok dt \<and> build_part_direct part t counts msv L = Ok t'
    \<and> part_dtable_ok part dt \<and> converted part dt t'"
proof -
  obtain dt where dt: "build_dtable d counts msv L = Ok dt" "dtable_ok dt" "dt_table_log dt = L"
    "\<And>u. u < 2 ^ L \<Longrightarrow> dt_entries dt ! u = entry_spec mk_decode_entry L counts (Suc msv) u"
    using build_dtable_spec [OF v l(1)] by blast
  obtain t' where t': "build_part_direct part t counts msv L = Ok t'" "st_table_log t' = L" "length (st_entries t') = TABLESIZE_MAX"
    "\<And>u. u < 2 ^ L \<Longrightarrow> st_entries t' ! u = entry_spec (part_entry part) L counts (Suc msv) u"
  proof (rule build_seq_spec [OF v l(2), of "part_entry part"])
    fix ta
    assume b: "and_then (check_table_args counts msv L) (\<lambda>_.
      and_then (spread_symbols counts msv L (replicate TABLESIZE_MAX 0)) (\<lambda>(ts, sn).
      and_then (loop_over (fill_entry (part_entry part) L ts) [0..<2 ^ L] (sn, st_entries t)) (\<lambda>(sn, es).
        Ok \<lparr>st_table_log = L, st_entries = es\<rparr>))) = Ok ta"
      and c: "st_table_log ta = L" "length (st_entries ta) = TABLESIZE_MAX"
      "\<And>u. u < 2 ^ L \<Longrightarrow> st_entries ta ! u = entry_spec (part_entry part) L counts (Suc msv) u"
    have "build_part_direct part t counts msv L = Ok ta" unfolding b [symmetric]
      by (cases part) (simp_all only: build_part_direct_def build_sequence_dtable_direct_def
          build_offset_sequence_dtable_direct_def part_entry.simps sequence_part.case)
    from that [OF this c] show thesis .
  qed
  have "de_symbol (dt_entries dt ! u) \<le> max_symbol_value part" if "u < 2 ^ L" for u
    using entry_spec_decode(2) [OF v that] m(1) by (simp add: dt(4) [OF that])
  then have "part_dtable_ok part dt" using dt(2,3) m(2) by (simp add: part_dtable_ok_def)
  moreover have "converted part dt t'"
    using t'(2-4) dt(3,4) by (simp add: converted_def entry_spec_def mk_decode_entry_def Let_def)
  ultimately show ?thesis using dt(1) t'(1) by blast
qed

lemma sum_list_map_nth: "(\<Sum>s\<leftarrow>[0..<length xs]. f (xs ! s)) = (\<Sum>x\<leftarrow>xs. f x)"
proof -
  have "map (\<lambda>s. f (xs ! s)) [0..<length xs] = map f xs" by (rule nth_equalityI) simp_all
  then show ?thesis by simp
qed

lemma counts_validI:
  assumes "4 \<le> L" and "L \<le> 9" and "length counts = n" and "0 < n" and "n \<le> 256" and "\<forall>c \<in> set counts. -1 \<le> c"
    and "(\<Sum>c\<leftarrow>counts. nat \<bar>c\<bar>) = 2 ^ L"
  shows "counts_valid L counts n"
  unfolding counts_valid_def using assms sum_list_map_nth [of "\<lambda>c. nat \<bar>c\<bar>" counts] by auto

lemma default_distributions_valid:
  "counts_valid 6 LITERAL_LENGTH_DEFAULT_DISTRIBUTION 36" "counts_valid 5 OFFSET_DEFAULT_DISTRIBUTION 29"
  "counts_valid 6 MATCH_LENGTH_DEFAULT_DISTRIBUTION 53"
  by (rule counts_validI; simp add: LITERAL_LENGTH_DEFAULT_DISTRIBUTION_def OFFSET_DEFAULT_DISTRIBUTION_def
      MATCH_LENGTH_DEFAULT_DISTRIBUTION_def)+

lemma distribution_lengths [simp]:
  "length LITERAL_LENGTH_DEFAULT_DISTRIBUTION = 36" "length OFFSET_DEFAULT_DISTRIBUTION = 29"
  "length MATCH_LENGTH_DEFAULT_DISTRIBUTION = 53"
  by (simp_all add: LITERAL_LENGTH_DEFAULT_DISTRIBUTION_def OFFSET_DEFAULT_DISTRIBUTION_def
      MATCH_LENGTH_DEFAULT_DISTRIBUTION_def)

lemma predefined_tables:
  "\<exists>dt t. predefined_sequence_dtable part = Ok dt \<and> predefined_seq_dtable part = Ok t
    \<and> part_dtable_ok part dt \<and> converted part dt t"
proof -
  have s: "36 = Suc 35" "29 = Suc 28" "53 = Suc 52" by simp_all
  note l = length_dtable_default length_seq_default
  from build_part [OF default_distributions_valid(1) [unfolded s(1)] _ _ l, where part = LiteralLength]
    build_part [OF default_distributions_valid(2) [unfolded s(2)] _ _ l, where part = Offset]
    build_part [OF default_distributions_valid(3) [unfolded s(3)] _ _ l, where part = MatchLength]
  show ?thesis
    by (cases part) (auto simp: predefined_sequence_dtable_def predefined_seq_dtable_def expect_def build_part_direct_def
        LL_DEFAULT_LOG_def OF_DEFAULT_LOG_def ML_DEFAULT_LOG_def)
qed

lemma build_rle_part:
  assumes "symbol \<le> max_symbol_value part" and "length (dt_entries d) = TABLESIZE_MAX" and "length (st_entries t) = TABLESIZE_MAX"
  shows "\<exists>dt t'. build_rle_dtable d symbol = Ok dt \<and> build_part_rle part t symbol = Ok t'
    \<and> part_dtable_ok part dt \<and> converted part dt t'"
proof -
  have "max_symbol_value part < 256" by (cases part) simp_all
  then show ?thesis using assms
    by (cases part) (auto simp: build_rle_dtable_def build_part_rle_def build_rle_sequence_dtable_def
      build_rle_offset_sequence_dtable_def upd_def TABLESIZE_MAX_def part_dtable_ok_def dtable_ok_def converted_def)
qed

lemma copy_active_converted:
  assumes "part_dtable_ok part pd" and "converted part pd pt" and "length (dt_entries d) = TABLESIZE_MAX"
    and "length (st_entries t) = TABLESIZE_MAX"
  shows "\<exists>dt t'. copy_active_from d pd (table_entries_size (dt_table_log pd)) = Ok dt \<and> copy_active_seq t pt = Ok t'
    \<and> part_dtable_ok part dt \<and> converted part dt t'"
proof -
  let ?n = "2 ^ dt_table_log pd :: nat"
  have ts: "table_entries_size (dt_table_log pd) = ?n" by (simp add: table_entries_size_def)
  have n: "?n \<le> 512" by (rule part_dtable_size [OF assms(1)])
  have l: "length (dt_entries pd) = TABLESIZE_MAX" "length (st_entries pt) = TABLESIZE_MAX" "st_table_log pt = dt_table_log pd"
    using part_dtable_length [OF assms(1)] assms(2) by (simp_all add: converted_def)
  let ?de = "take ?n (dt_entries pd) @ drop ?n (dt_entries d)" and ?te = "take ?n (st_entries pt) @ drop ?n (st_entries t)"
  have c: "copy_active_from d pd (table_entries_size (dt_table_log pd)) = Ok \<lparr>dt_table_log = dt_table_log pd, dt_fast_mode = dt_fast_mode pd, dt_entries = ?de\<rparr>"
    "copy_active_seq t pt = Ok \<lparr>st_table_log = dt_table_log pd, st_entries = ?te\<rparr>"
    using n l assms(3,4) unfolding copy_active_from_def copy_active_seq_def l(3) ts
    by (simp_all add: TABLESIZE_MAX_def min_def)
  have e: "?de ! u = dt_entries pd ! u" "?te ! u = st_entries pt ! u" if "u < ?n" for u
    using that n l by (simp_all add: nth_append TABLESIZE_MAX_def)
  have len: "length ?de = TABLESIZE_MAX" "length ?te = TABLESIZE_MAX"
    using n l assms(3,4) by (simp_all add: TABLESIZE_MAX_def)
  have "part_dtable_ok part \<lparr>dt_table_log = dt_table_log pd, dt_fast_mode = dt_fast_mode pd, dt_entries = ?de\<rparr>"
    using assms(1) e(1) len(1) unfolding part_dtable_ok_def dtable_ok_def by simp
  moreover have "converted part \<lparr>dt_table_log = dt_table_log pd, dt_fast_mode = dt_fast_mode pd, dt_entries = ?de\<rparr>
      \<lparr>st_table_log = dt_table_log pd, st_entries = ?te\<rparr>"
    using assms(2) e len(2) unfolding converted_def by simp
  ultimately show ?thesis unfolding c by blast
qed

lemma part_table_okI: "part_dtable_ok part dt \<Longrightarrow> converted part dt t \<Longrightarrow> part_table_ok part t"
  unfolding part_table_ok_def by blast

lemma converted_length: "converted part dt t \<Longrightarrow> length (st_entries t) = TABLESIZE_MAX"
  by (simp add: converted_def)

text \<open>A freshly built slot, with or without the plain table.\<close>

lemma fresh_slot_ok:
  assumes "part_dtable_ok part dt" and "converted part dt t"
  shows "slot_ok part (if c then Some dt else None, t, True) False"
  using assms part_table_okI [OF assms] converted_length [OF assms(2)] by simp

definition slot_result :: "sequence_part \<Rightarrow> bytes \<Rightarrow> usize \<Rightarrow> compression_mode \<Rightarrow> bool \<Rightarrow> table_slot \<times> usize \<Rightarrow> bool" where
  "slot_result part src cursor mode dirty r \<longleftrightarrow> (case r of (slot, cursor') \<Rightarrow>
     cursor \<le> cursor' \<and> cursor' \<le> length src \<and> slot_ok part slot (dirty \<and> mode = Repeat) \<and> snd (snd slot))"

lemma decode_seq_table_meets:
  assumes "slot_ok part slot dirty" and "cursor \<le> length src" and "length src \<le> usize_max"
  shows "meets (decode_seq_table_both slot src cursor part mode target) (slot_result part src cursor mode dirty)"
proof -
  obtain dts t has where slot: "slot = (dts, t, has)" by (cases slot)
  have sl: "length (dt_entries (slot_or_default dts)) = TABLESIZE_MAX"
    using assms(1) by (intro slot_or_default_length [of _ part]) (simp add: slot)
  have tl: "length (st_entries t) = TABLESIZE_MAX" using assms(1) by (simp add: slot)
  show ?thesis
  proof (cases mode)
    case Predefined
    obtain pd pt where p: "predefined_sequence_dtable part = Ok pd" "predefined_seq_dtable part = Ok pt"
      "part_dtable_ok part pd" "converted part pd pt" using predefined_tables by blast
    obtain dt t' where c: "copy_active_from (slot_or_default dts) pd (table_entries_size (dt_table_log pd)) = Ok dt"
      "copy_active_seq t pt = Ok t'" "part_dtable_ok part dt" "converted part dt t'"
      using copy_active_converted [OF p(3,4) sl tl] by blast
    have "decode_seq_table_both slot src cursor part mode target = Ok ((if target = Both then Some dt else None, t', True), cursor)"
      by (simp add: decode_seq_table_both_def slot Predefined p c)
    then show ?thesis using fresh_slot_ok [OF c(3,4), of "target = Both"] assms(2) Predefined
      by (simp add: slot_result_def del: slot_ok.simps)
  next
    case RleMode
    show ?thesis
    proof (cases "cursor < length src \<and> unat (src ! cursor) \<le> max_symbol_value part")
      case True
      obtain dt t' where c: "build_rle_dtable (slot_or_default dts) (unat (src ! cursor)) = Ok dt"
        "build_part_rle part t (unat (src ! cursor)) = Ok t'" "part_dtable_ok part dt" "converted part dt t'"
        using build_rle_part [OF _ sl tl] True by blast
      have "decode_seq_table_both slot src cursor part mode target = Ok ((if target = Both then Some dt else None, t', True), cursor + 1)"
        using True by (simp add: decode_seq_table_both_def slot RleMode c slice_get_def)
      then show ?thesis using fresh_slot_ok [OF c(3,4), of "target = Both"] True RleMode
        by (simp add: slot_result_def del: slot_ok.simps)
    next
      case False
      then show ?thesis by (auto simp: decode_seq_table_both_def slot RleMode)
    qed
  next
    case FseCompressed
    let ?rest = "drop cursor src"
    have m: "meets (read_ncount (replicate (SYMBOLVALUE_MAX + 1) 0) (max_symbol_value part) ?rest (max_accuracy_log part))
        (ncount_ok (max_symbol_value part) (max_accuracy_log part) (length ?rest))"
      using assms(3) by (intro read_ncount_meets) simp
    have rest: "meets (and_then (if target = Both then
              and_then (build_dtable (slot_or_default dts) normalized msv L) (\<lambda>dt. Ok (Some dt))
            else Ok None) (\<lambda>dt_slot.
          and_then (build_part_direct part t normalized msv L) (\<lambda>seq_dt.
            Ok ((dt_slot, seq_dt, True), cursor + consumed)))) (slot_result part src cursor mode dirty)"
      if n: "ncount_ok (max_symbol_value part) (max_accuracy_log part) (length ?rest) (normalized, msv, L, consumed)"
      for normalized msv L consumed
    proof -
      from n obtain dt t' where c: "build_dtable (slot_or_default dts) normalized msv L = Ok dt"
        "build_part_direct part t normalized msv L = Ok t'" "part_dtable_ok part dt" "converted part dt t'"
        using build_part [OF _ _ _ sl tl, of L normalized msv part] by (auto simp: ncount_ok_def)
      have "and_then (if target = Both then
              and_then (build_dtable (slot_or_default dts) normalized msv L) (\<lambda>dt. Ok (Some dt))
            else Ok None) (\<lambda>dt_slot.
          and_then (build_part_direct part t normalized msv L) (\<lambda>seq_dt.
            Ok ((dt_slot, seq_dt, True), cursor + consumed)))
        = Ok ((if target = Both then Some dt else None, t', True), cursor + consumed)" by (simp add: c)
      then show ?thesis using fresh_slot_ok [OF c(3,4), of "target = Both"] n assms(2) FseCompressed
        by (auto simp: slot_result_def ncount_ok_def simp del: slot_ok.simps)
    qed
    have ix: "idx_from src cursor = Ok ?rest" using assms(2) by (simp add: idx_from_def)
    show ?thesis
      unfolding decode_seq_table_both_def slot FseCompressed prod.case compression_mode.case ix and_then.simps
        meets_and_then [of "read_ncount (replicate (SYMBOLVALUE_MAX + 1) 0) (max_symbol_value part) ?rest (max_accuracy_log part)"]
      by (rule meets_mono [OF m], clarify, rule rest [unfolded FseCompressed], assumption)
  next
    case Repeat
    then show ?thesis using assms by (simp add: decode_seq_table_both_def slot slot_result_def)
  qed
qed


subsection \<open>Parsing the section\<close>

lemma parse_sequence_count_meets:
  "meets (parse_sequence_count src) (\<lambda>(n, size). 1 \<le> size \<and> size \<le> length src \<and> n < 2 ^ 17)"
proof -
  have b: "unat (b :: u8) < 256" for b by (rule unat_u8_less)
  show ?thesis using b [of "src ! 1"] b [of "src ! 2"]
    by (auto simp: parse_sequence_count_def word_less_nat_alt Suc_le_eq)
qed

definition section_ok :: "bytes \<Rightarrow> parsed_section \<times> sequence_tables \<Rightarrow> bool" where
  "section_ok src r \<longleftrightarrow> (case r of (p, t) \<Rightarrow>
     tables_ok t \<and> section_header_size p \<le> length src \<and> number_of_sequences p < 2 ^ 17
     \<and> (number_of_sequences p \<noteq> 0 \<longrightarrow> section_bitstream p = drop (section_header_size p) src
          \<and> section_bitstream p \<noteq> [] \<and> has_ll t \<and> has_of t \<and> has_ml t))"

lemma parse_sequence_section_meets:
  assumes t: "tables_ok tables" and u: "length src \<le> usize_max"
  shows "meets (parse_sequence_section src tables target) (section_ok src)"
proof -
  have dec: "meets (and_then (decode_seq_table_both slot src cursor part mode target) f) P"
    if "slot_ok part slot dirty" "cursor \<le> length src"
      "\<And>dt t cursor'. cursor \<le> cursor' \<Longrightarrow> cursor' \<le> length src \<Longrightarrow> slot_ok part (dt, t, True) (dirty \<and> mode = Repeat) \<Longrightarrow>
        meets (f ((dt, t, True), cursor')) P" for slot cursor part mode dirty f P
    unfolding meets_and_then
    by (rule meets_mono [OF decode_seq_table_meets [OF that(1,2) u]]) (auto simp: slot_result_def intro: that(3) simp del: slot_ok.simps)
  have body: "meets (parse_section_tables src tables target n cursor byte) (section_ok src)"
    if c: "cursor \<le> length src" and n: "n < 2 ^ 17" for n cursor byte
  proof (cases "byte AND 3 \<noteq> 0")
    case True
    then show ?thesis by (simp add: parse_section_tables_def)
  next
    case False
    show ?thesis unfolding parse_section_tables_def if_not_P [OF False] Let_def
      apply (rule dec [OF t [unfolded tables_ok_def, THEN conjunct1] c])
      unfolding prod.case
      apply (rule dec [of Offset _ "of_dirty tables"])
      using t apply (simp add: tables_ok_def del: slot_ok.simps)
       apply assumption
      unfolding prod.case
      apply (rule dec [of MatchLength _ "ml_dirty tables"])
      using t apply (simp add: tables_ok_def del: slot_ok.simps)
       apply assumption
      using n by (auto simp: section_ok_def tables_ok_def simp del: slot_ok.simps)
  qed
  show ?thesis unfolding parse_sequence_section_def meets_and_then [of "parse_sequence_count src"]
  proof (rule meets_mono [OF parse_sequence_count_meets], clarify)
    fix n size :: usize
    assume n: "1 \<le> size" "size \<le> length src" "n < 2 ^ 17"
    show "meets (if n = 0 then Ok (\<lparr>number_of_sequences = 0, section_header_size = size, section_modes = None,
            section_bitstream = []\<rparr>, tables)
       else and_then (ok_or (slice_get src size) UnexpectedEof) (\<lambda>modes_byte.
         parse_section_tables src tables target n (size + 1) modes_byte)) (section_ok src)"
      using t n body by (simp add: section_ok_def)
  qed
qed


subsection \<open>Setting up a block\<close>

definition convert_part :: "sequence_part \<Rightarrow> dtable \<Rightarrow> seq_dtable \<Rightarrow> seq_dtable result" where
  "convert_part part = (case part of
      LiteralLength \<Rightarrow> (\<lambda>dt. build_sequence_dtable_from dt LITERAL_LENGTH_BASELINES LITERAL_LENGTH_EXTRA_BITS)
    | Offset \<Rightarrow> build_offset_sequence_dtable_from
    | MatchLength \<Rightarrow> (\<lambda>dt. build_sequence_dtable_from dt MATCH_LENGTH_BASELINES MATCH_LENGTH_EXTRA_BITS))"

lemma convert_part_entries:
  "convert_part part dt t = and_then (loop_over (convert_entry (part_entry part) dt)
     [0..<table_entries_size (dt_table_log dt)] (st_entries t)) (\<lambda>es. Ok \<lparr>st_table_log = dt_table_log dt, st_entries = es\<rparr>)"
  by (cases part) (simp_all add: convert_part_def build_sequence_dtable_from_def build_offset_sequence_dtable_from_def)

lemma convert_part_spec:
  assumes "part_dtable_ok part dt" and "length (st_entries t) = TABLESIZE_MAX"
  shows "\<exists>t'. convert_part part dt t = Ok t' \<and> converted part dt t'"
proof -
  have n: "table_entries_size (dt_table_log dt) = 2 ^ dt_table_log dt" by (simp add: table_entries_size_def)
  have "(2 :: nat) ^ dt_table_log dt \<le> length (dt_entries dt)" "(2 :: nat) ^ dt_table_log dt \<le> length (st_entries t)"
    using part_dtable_size [OF assms(1)] part_dtable_length [OF assms(1)] assms(2) by (simp_all add: TABLESIZE_MAX_def)
  then obtain es where
    e: "loop_over (convert_entry (part_entry part) dt) [0..<2 ^ dt_table_log dt] (st_entries t) = Ok es"
    "length es = length (st_entries t)"
    "\<And>u. u < 2 ^ dt_table_log dt \<Longrightarrow> es ! u = (let e = dt_entries dt ! u in part_entry part (de_symbol e) (de_nb_bits e) (de_new_state e))"
    "\<And>u. 2 ^ dt_table_log dt \<le> u \<Longrightarrow> u < length (st_entries t) \<Longrightarrow> es ! u = st_entries t ! u"
    by (rule convert_entries) (rule that)
  show ?thesis unfolding convert_part_entries n e(1) using e(2,3) assms(2) by (simp add: converted_def)
qed

lemma setup_table_meets:
  assumes "slot_ok part (slot, t, has) dirty"
  shows "meets (setup_table (convert_part part) missing slot t dirty has)
    (\<lambda>(t', dirty', has'). slot_ok part (slot, t', has') dirty' \<and> part_table_ok part t')"
proof (cases "dirty \<and> slot \<noteq> None")
  case True
  then obtain dt where dt: "slot = Some dt" by blast
  have p: "part_dtable_ok part dt" "length (st_entries t) = TABLESIZE_MAX" using assms dt by simp_all
  obtain t' where t': "convert_part part dt t = Ok t'" "converted part dt t'" using convert_part_spec [OF p] by blast
  show ?thesis using True t' p(1) part_table_okI [OF p(1) t'(2)] converted_length [OF t'(2)]
    by (simp add: setup_table_def dt)
next
  case False
  then show ?thesis using assms by (auto simp: setup_table_def)
qed

definition limit_left :: "output_limit \<Rightarrow> usize \<Rightarrow> usize" where
  "limit_left limit n = (case max_output_size limit of None \<Rightarrow> usize_max | Some m \<Rightarrow> m - produced limit n)"

lemma limit_remaining_meets: "meets (limit_remaining limit n) (\<lambda>r. r = limit_left limit n)"
  by (simp add: limit_remaining_def limit_left_def split: option.splits)

definition setup_ok :: "decode_out \<Rightarrow> usize \<Rightarrow> output_limit \<Rightarrow> sequence_tables \<times> decode_out \<times> usize \<times> usize \<Rightarrow> bool" where
  "setup_ok out block_size_max limit r \<longleftrightarrow> (case r of (t, out', block_left, output_left) \<Rightarrow>
     tables_ok t \<and> part_table_ok LiteralLength (seq_ll t) \<and> part_table_ok Offset (seq_of t) \<and> part_table_ok MatchLength (seq_ml t)
     \<and> keeps out out' \<and> dout_slice out' = dout_slice out \<and> dout_len out' = dout_len out
     \<and> block_left = block_size_max \<and> output_left = limit_left limit (dout_len out)
     \<and> (is_growable out \<longrightarrow> dout_len out + min output_left block_size_max + WILDCOPY_OVERLENGTH \<le> dout_capacity out'))"

lemma decode_setup_meets:
  assumes t: "tables_ok tables" and out: "dout_ok out" and room: "dout_len out + block_size_max + WILDCOPY_OVERLENGTH \<le> isize_max"
  shows "meets (decode_setup tables out block_size_max limit) (setup_ok out block_size_max limit)"
proof -
  have u: "\<not> usize_max < min r block_size_max + WILDCOPY_OVERLENGTH" for r
    using room by (simp add: isize_max_def usize_max_def)
  have res: "meets (reserve_block_output out block_size_max limit) (\<lambda>out'. keeps out out' \<and> dout_slice out' = dout_slice out
      \<and> dout_len out' = dout_len out
      \<and> (is_growable out \<longrightarrow> dout_len out + min (limit_left limit (dout_len out)) block_size_max + WILDCOPY_OVERLENGTH \<le> dout_capacity out'))"
    unfolding reserve_block_output_def meets_and_then
  proof (rule meets_mono [OF limit_remaining_meets])
    fix r assume r: "r = limit_left limit (dout_len out)"
    have "dout_len out + (min r block_size_max + WILDCOPY_OVERLENGTH) \<le> isize_max" using room by simp
    from try_reserve_run [OF out this] u [of r] r show "meets (let reserve = min r block_size_max in
        if usize_max < reserve + WILDCOPY_OVERLENGTH then Fault else dout_try_reserve out (reserve + WILDCOPY_OVERLENGTH))
      (\<lambda>out'. keeps out out' \<and> dout_slice out' = dout_slice out \<and> dout_len out' = dout_len out
      \<and> (is_growable out \<longrightarrow> dout_len out + min (limit_left limit (dout_len out)) block_size_max + WILDCOPY_OVERLENGTH \<le> dout_capacity out'))"
      by (auto simp: add.assoc)
  qed
  note tt = t [unfolded tables_ok_def]
  have cp: "(\<lambda>dt. build_sequence_dtable_from dt LITERAL_LENGTH_BASELINES LITERAL_LENGTH_EXTRA_BITS) = convert_part LiteralLength"
    "build_offset_sequence_dtable_from = convert_part Offset"
    "(\<lambda>dt. build_sequence_dtable_from dt MATCH_LENGTH_BASELINES MATCH_LENGTH_EXTRA_BITS) = convert_part MatchLength"
    by (simp_all add: convert_part_def)
  have st: "meets (and_then (setup_table (convert_part part) missing slot t dirty has) f) P"
    if "slot_ok part (slot, t, has) dirty"
      "\<And>t' dirty' has'. slot_ok part (slot, t', has') dirty' \<Longrightarrow> part_table_ok part t' \<Longrightarrow> meets (f (t', dirty', has')) P"
    for part missing slot t dirty has f P
    unfolding meets_and_then
    by (rule meets_mono [OF setup_table_meets [OF that(1)]]) (auto intro: that(2) simp del: slot_ok.simps)
  show ?thesis unfolding decode_setup_def cp Let_def
    apply (rule st [OF tt [THEN conjunct1]])
    unfolding prod.case
    apply (rule st [of Offset])
    using tt apply (simp del: slot_ok.simps)
    unfolding prod.case
    apply (rule st [of MatchLength])
    using tt apply (simp del: slot_ok.simps)
    unfolding prod.case meets_and_then
    apply (rule meets_mono [OF res])
    apply (rule meets_mono [OF limit_remaining_meets])
    using tt by (simp add: setup_ok_def tables_ok_def del: slot_ok.simps)
qed

subsection \<open>Properties\<close>

lemma setup_safe:
  assumes "tables_ok t" and "dout_ok out \<and> dout_len out + bsm + 32 \<le> isize_max"
  shows "decode_setup t out bsm limit \<noteq> Fault
    \<and> (\<forall>t' out' bl ol. decode_setup t out bsm limit = Ok (t', out', bl, ol) \<longrightarrow>
         tables_ok t' \<and> part_table_ok LiteralLength (seq_ll t') \<and> part_table_ok Offset (seq_of t')
         \<and> part_table_ok MatchLength (seq_ml t') \<and> dout_slice out' = dout_slice out)"
proof -
  have "meets (decode_setup t out bsm limit) (setup_ok out bsm limit)"
    using assms by (intro decode_setup_meets) (simp_all add: WILDCOPY_OVERLENGTH_def)
  then show ?thesis unfolding meets_iff setup_ok_def by auto
qed

text \<open>C36. Parsing the header of a sequences section never faults, on any bytes and after any blocks: when it succeeds, the
  header and a bitstream that is not empty make up the input, all three tables exist, and every table the frame
  carries on stays within its part's symbols and accuracy, each state leading to another of the table. Setting the
  block up then gives the executor three such tables.\<close>

theorem parse_sequence_section_safe:
  assumes "tables_ok tables" and "length src \<le> usize_max"
  shows "parse_sequence_section src tables target \<noteq> Fault
    \<and> (\<forall>p t. parse_sequence_section src tables target = Ok (p, t) \<longrightarrow>
         tables_ok t \<and> section_header_size p \<le> length src
         \<and> (number_of_sequences p \<noteq> 0 \<longrightarrow> has_ll t \<and> has_of t \<and> has_ml t \<and> section_bitstream p \<noteq> []
              \<and> take (section_header_size p) src @ section_bitstream p = src)
         \<and> (\<forall>out bsm limit. dout_ok out \<and> dout_len out + bsm + 32 \<le> isize_max \<longrightarrow>
              decode_setup t out bsm limit \<noteq> Fault
              \<and> (\<forall>t' out' bl ol. decode_setup t out bsm limit = Ok (t', out', bl, ol) \<longrightarrow>
                   tables_ok t' \<and> part_table_ok LiteralLength (seq_ll t') \<and> part_table_ok Offset (seq_of t')
                   \<and> part_table_ok MatchLength (seq_ml t') \<and> dout_slice out' = dout_slice out)))"
proof -
  note m = parse_sequence_section_meets [OF assms, of target, unfolded meets_iff]
  have "tables_ok t \<and> section_header_size p \<le> length src
         \<and> (number_of_sequences p \<noteq> 0 \<longrightarrow> has_ll t \<and> has_of t \<and> has_ml t \<and> section_bitstream p \<noteq> []
              \<and> take (section_header_size p) src @ section_bitstream p = src)"
    if "parse_sequence_section src tables target = Ok (p, t)" for p t
    using m that by (auto simp: section_ok_def)
  then show ?thesis using m by (intro conjI allI impI setup_safe) (auto simp only:)
qed

theorem parse_sequence_section_safe_witness:
  "parse_sequence_section [1, 0, 7] sequence_tables_default SequenceOnly \<noteq> Fault"
  by (rule conjunct1 [OF parse_sequence_section_safe [OF tables_ok_default]]) (simp add: usize_max_def)

end
