(* ===== verification/SeqRead.thy ===== *)
theory SeqRead
  imports SeqTables FseDecode
begin

section \<open>Reading sequences from the bitstream (sequence.rs)\<close>

text \<open>
  The reading half of the two sequence decoders of \<open>src/src/sequence.rs\<close>: the fused executor reads its table
  entries as raw words and takes the bits of all three states in one read, the two-pass decoder works on the plain
  tables and makes a list of commands. The reference \<open>block_commands\<close> is the format: the bitstream is
  a number, and from its top come the initial states, then for every sequence the extra bits of offset, match length
  and literal length, and between two sequences the bits of the three next states.
\<close>

subsection \<open>The fused reader\<close>

definition read_extra :: "dstream \<Rightarrow> nat \<Rightarrow> (nat \<times> dstream) result" where
  "read_extra s nb =
     (if 0 < nb then and_then (read_bits_fast s nb) (\<lambda>(v, s). Ok (take_bit 32 (unat v), s)) else Ok (0, s))"

record raw_states =
  lit_raw :: u64
  off_raw :: u64
  ml_raw :: u64

definition decode_sequence :: "dstream \<Rightarrow> raw_states \<Rightarrow> (sequence_command \<times> dstream) result" where
  "decode_sequence s r =
     (let offset_nb = raw_entry_nb_additional_bits (off_raw r);
          match_nb = raw_entry_nb_additional_bits (ml_raw r);
          literal_nb = raw_entry_nb_additional_bits (lit_raw r) in
      and_then (read_extra s offset_nb) (\<lambda>(offset_extra, s).
      and_then (read_extra s match_nb) (\<lambda>(match_extra, s).
      and_then (reload_when (31 \<le> offset_nb + match_nb + literal_nb) s) (\<lambda>s.
      and_then (read_extra s literal_nb) (\<lambda>(literal_extra, s).
      and_then (add_u32 (raw_entry_baseline (lit_raw r)) literal_extra) (\<lambda>ll.
      and_then (add_u32 (raw_entry_baseline (ml_raw r)) match_extra) (\<lambda>ml.
      if 32 \<le> offset_nb then Fault else
      and_then (add_u32 (2 ^ offset_nb) offset_extra) (\<lambda>v.
        Ok (\<lparr>literal_length = ll, match_length = ml, offset_value = v\<rparr>, s)))))))))"

text \<open>The entries of three states.\<close>

definition raw_entries :: "sequence_tables \<Rightarrow> nat \<Rightarrow> nat \<Rightarrow> nat \<Rightarrow> raw_states result" where
  "raw_entries tables literal_state offset_state match_state =
     and_then (get_entry_raw (seq_ll tables) literal_state) (\<lambda>l.
     and_then (get_entry_raw (seq_of tables) offset_state) (\<lambda>ofs.
     and_then (get_entry_raw (seq_ml tables) match_state) (\<lambda>m.
       Ok \<lparr>lit_raw = l, off_raw = ofs, ml_raw = m\<rparr>)))"

definition next_raw_states :: "sequence_tables \<Rightarrow> dstream \<Rightarrow> raw_states \<Rightarrow> (raw_states \<times> dstream) result" where
  "next_raw_states tables s r =
     (let lb = raw_entry_nb_bits (lit_raw r); mb = raw_entry_nb_bits (ml_raw r); ob = raw_entry_nb_bits (off_raw r);
          combined = lb + mb + ob in
      and_then (if 0 < combined then and_then (read_bits_fast s combined) (\<lambda>(v, s). Ok (unat v, s)) else Ok (0, s))
        (\<lambda>(state_val, s).
      and_then (raw_entries tables
          (raw_entry_new_state (lit_raw r) + (drop_bit (mb + ob) state_val AND (2 ^ lb - 1)))
          (raw_entry_new_state (off_raw r) + (state_val AND (2 ^ ob - 1)))
          (raw_entry_new_state (ml_raw r) + (drop_bit ob state_val AND (2 ^ mb - 1)))) (\<lambda>r.
        Ok (r, s))))"

definition open_states :: "sequence_tables \<Rightarrow> bytes \<Rightarrow> (raw_states \<times> dstream) result" where
  "open_states tables bitstream =
     and_then (dstream_new bitstream) (\<lambda>s.
     and_then (init_dstate_seq (seq_ll tables) s) (\<lambda>(l, s).
     and_then (init_dstate_seq (seq_of tables) s) (\<lambda>(ofs, s).
     and_then (init_dstate_seq (seq_ml tables) s) (\<lambda>(m, s).
     and_then (raw_entries tables l ofs m) (\<lambda>r. Ok (r, s))))))"

subsection \<open>The reference reader\<close>

text \<open>The next \<open>nb\<close> of the \<open>k\<close> lowest bits of the stream \<open>V\<close>.\<close>

definition take_field :: "nat \<Rightarrow> nat \<Rightarrow> nat \<Rightarrow> (nat \<times> nat) option" where
  "take_field V nb k = (if nb \<le> k then Some (V div 2 ^ (k - nb) mod 2 ^ nb, k - nb) else None)"

type_synonym entries3 = "seq_entry \<times> seq_entry \<times> seq_entry"

definition ref_command :: "nat \<Rightarrow> entries3 \<Rightarrow> nat \<Rightarrow> (sequence_command \<times> nat) option" where
  "ref_command V = (\<lambda>(le, oe, me) k.
     Option.bind (take_field V (se_nb_additional_bits oe) k) (\<lambda>(x, k).
     Option.bind (take_field V (se_nb_additional_bits me) k) (\<lambda>(y, k).
     Option.bind (take_field V (se_nb_additional_bits le) k) (\<lambda>(z, k).
       Some (\<lparr>literal_length = se_baseline le + z, match_length = se_baseline me + y,
              offset_value = 2 ^ se_nb_additional_bits oe + x\<rparr>, k)))))"

definition ref_states :: "sequence_tables \<Rightarrow> nat \<Rightarrow> entries3 \<Rightarrow> nat \<Rightarrow> (entries3 \<times> nat) option" where
  "ref_states t V = (\<lambda>(le, oe, me) k.
     Option.bind (take_field V (se_nb_bits le) k) (\<lambda>(x, k).
     Option.bind (take_field V (se_nb_bits me) k) (\<lambda>(y, k).
     Option.bind (take_field V (se_nb_bits oe) k) (\<lambda>(z, k).
       Some ((st_entries (seq_ll t) ! (se_new_state le + x), st_entries (seq_of t) ! (se_new_state oe + z),
              st_entries (seq_ml t) ! (se_new_state me + y)), k)))))"

text \<open>\<open>n\<close> sequences, each followed by a change of states.\<close>

fun ref_sequences :: "sequence_tables \<Rightarrow> nat \<Rightarrow> nat \<Rightarrow> entries3 \<Rightarrow> nat \<Rightarrow> (sequence_command list \<times> entries3 \<times> nat) option" where
  "ref_sequences t V 0 es k = Some ([], es, k)"
| "ref_sequences t V (Suc n) es k =
     Option.bind (ref_command V es k) (\<lambda>(c, k).
     Option.bind (ref_states t V es k) (\<lambda>(es, k).
     Option.bind (ref_sequences t V n es k) (\<lambda>(cs, es, k). Some (c # cs, es, k))))"

definition ref_open :: "sequence_tables \<Rightarrow> nat \<Rightarrow> nat \<Rightarrow> (entries3 \<times> nat) option" where
  "ref_open t V k =
     Option.bind (take_field V (st_table_log (seq_ll t)) k) (\<lambda>(x, k).
     Option.bind (take_field V (st_table_log (seq_of t)) k) (\<lambda>(y, k).
     Option.bind (take_field V (st_table_log (seq_ml t)) k) (\<lambda>(z, k).
       Some ((st_entries (seq_ll t) ! x, st_entries (seq_of t) ! y, st_entries (seq_ml t) ! z), k))))"

text \<open>The sequences of a block; the bitstream ends below its highest set bit and is used up.\<close>

definition block_commands :: "sequence_tables \<Rightarrow> bytes \<Rightarrow> nat \<Rightarrow> sequence_command list option" where
  "block_commands t bitstream n =
     (let V = le_nat bitstream in
      if bitstream = [] \<or> last bitstream = 0 \<or> n = 0 then None else
      Option.bind (ref_open t V (log2 V)) (\<lambda>(es, k).
      Option.bind (ref_sequences t V (n - 1) es k) (\<lambda>(cs, es, k).
      Option.bind (ref_command V es k) (\<lambda>(c, k).
        if k = 0 then Some (cs @ [c]) else None))))"

subsection \<open>Where the reader is\<close>

text \<open>
  \<open>tracks src ko u s\<close>: the reader \<open>s\<close> of \<open>src\<close> has \<open>k\<close> bits left (or has run past the start of the stream, for
  \<open>None\<close>), of which at most \<open>u\<close> have been taken since the last reload.
\<close>

definition tracks :: "bytes \<Rightarrow> nat option \<Rightarrow> nat \<Rightarrow> dstream \<Rightarrow> bool" where
  "tracks src ko u s \<longleftrightarrow> dinv s \<and> stream_src s = src \<and> (case ko of
      Some k \<Rightarrow> bits_consumed s \<le> 64 \<and> bits_left s = int k \<and> (bits_consumed s \<le> 7 + u \<or> ptr_pos s = 0)
    | None \<Rightarrow> 64 < bits_consumed s)"

definition follows :: "bytes \<Rightarrow> nat \<Rightarrow> ('a \<times> nat) option \<Rightarrow> 'a \<Rightarrow> dstream \<Rightarrow> bool" where
  "follows src u ref x s \<longleftrightarrow> (case ref of Some (y, k) \<Rightarrow> x = y \<and> tracks src (Some k) u s | None \<Rightarrow> tracks src None u s)"

lemma tracks_mono: "tracks src ko u s \<Longrightarrow> u \<le> v \<Longrightarrow> tracks src ko v s"
  by (auto simp: tracks_def split: option.splits)

lemma follows_tracks: "follows src u ref x s \<Longrightarrow> tracks src (map_option snd ref) u s"
  by (auto simp: follows_def split: option.splits)

lemma tracks_skip:
  assumes t: "tracks src ko u s" and u: "u + nb \<le> 57"
  shows "tracks src (map_option snd (Option.bind ko (take_field V nb))) (u + nb) (skip_bits s nb)"
    and "ko = Some k \<Longrightarrow> nb \<le> k \<Longrightarrow> bits_consumed s + nb \<le> 64"
proof -
  show room: "bits_consumed s + nb \<le> 64" if "ko = Some k" "nb \<le> k" for k
    using t u that by (auto simp: tracks_def bits_left_def)
  show "tracks src (map_option snd (Option.bind ko (take_field V nb))) (u + nb) (skip_bits s nb)"
  proof (cases ko)
    case None
    then show ?thesis using t by (simp add: tracks_def)
  next
    case (Some k)
    have "64 < bits_consumed s + nb" if "\<not> nb \<le> k"
      using t Some that by (auto simp: tracks_def bits_left_def)
    then show ?thesis using t Some room [OF Some] by (auto simp: tracks_def take_field_def)
  qed
qed

text \<open>Any read whose result is the top bits of the container follows the reference.\<close>

lemma follows_skip:
  assumes t: "tracks src ko u s" and u: "u + nb \<le> 57"
    and v: "dinv s \<Longrightarrow> bits_consumed s + nb \<le> 64 \<Longrightarrow> v = le_nat (stream_src s) div 2 ^ (nat (bits_left s) - nb) mod 2 ^ nb"
  shows "follows src (u + nb) (Option.bind ko (take_field (le_nat src) nb)) v (skip_bits s nb)"
proof (cases "Option.bind ko (take_field (le_nat src) nb)")
  case None
  then show ?thesis using tracks_skip(1) [OF t u, of "le_nat src"] by (simp add: follows_def)
next
  case (Some y)
  then obtain k where k: "ko = Some k" "nb \<le> k" "y = (le_nat src div 2 ^ (k - nb) mod 2 ^ nb, k - nb)"
    by (auto simp: take_field_def split: Option.bind_splits if_splits)
  have "v = le_nat src div 2 ^ (k - nb) mod 2 ^ nb"
    using v tracks_skip(2) [OF t u k(1,2)] t k(1) by (simp add: tracks_def)
  then show ?thesis using tracks_skip(1) [OF t u, of "le_nat src"] Some k(3) by (simp add: follows_def)
qed

lemma read_bits_fast_follows:
  assumes "tracks src ko u s" and "u + nb \<le> 57" and "1 \<le> nb" and "nb \<le> 32"
  shows "\<exists>v. read_bits_fast s nb = Ok (v, skip_bits s nb) \<and> unat v < 2 ^ nb
    \<and> follows src (u + nb) (Option.bind ko (take_field (le_nat src) nb)) (unat v) (skip_bits s nb)"
proof -
  from read_bits_fast_total [OF assms(3,4), of s] obtain v where
    v: "read_bits_fast s nb = Ok (v, skip_bits s nb)" "unat v < 2 ^ nb" by blast
  have "unat v = le_nat (stream_src s) div 2 ^ (nat (bits_left s) - nb) mod 2 ^ nb"
    if "dinv s" "bits_consumed s + nb \<le> 64"
    using look_bits_fast_value [OF that assms(3)] v(1) by (auto simp: read_bits_fast_def)
  from follows_skip [OF assms(1,2) this] v show ?thesis by blast
qed

lemma read_extra_follows:
  assumes "tracks src ko u s" and "u + nb \<le> 57" and "nb < 32"
  shows "meets (read_extra s nb) (\<lambda>(v, s'). v < 2 ^ nb
    \<and> follows src (u + nb) (Option.bind ko (take_field (le_nat src) nb)) v s')"
proof (cases "nb = 0")
  case True
  then show ?thesis using follows_skip [OF assms(1,2), of 0] by (simp add: read_extra_def skip_bits_def)
next
  case False
  with read_bits_fast_follows [OF assms(1,2)] assms(3) obtain v where
    v: "read_bits_fast s nb = Ok (v, skip_bits s nb)" "unat v < 2 ^ nb"
    "follows src (u + nb) (Option.bind ko (take_field (le_nat src) nb)) (unat v) (skip_bits s nb)" by auto
  have "(2 :: nat) ^ nb \<le> 2 ^ 32" using assms(3) by (intro power_increasing) simp_all
  then have "take_bit 32 (unat v) = unat v" using v(2) by (intro take_bit_nat_eq_self) linarith
  then show ?thesis using v False by (simp add: read_extra_def)
qed

lemma read_bits_follows:
  assumes "tracks src ko u s" and "u + nb \<le> 57" and "nb < 32"
  shows "meets (read_bits s nb) (\<lambda>(v, s'). unat v < 2 ^ nb
    \<and> follows src (u + nb) (Option.bind ko (take_field (le_nat src) nb)) (unat v) s')"
proof -
  from read_bits_total [OF assms(3), of s] obtain v where
    v: "read_bits s nb = Ok (v, skip_bits s nb)" "unat v < 2 ^ nb" by blast
  have "unat v = le_nat (stream_src s) div 2 ^ (nat (bits_left s) - nb) mod 2 ^ nb"
    if "dinv s" "bits_consumed s + nb \<le> 64"
    using read_bits_value [OF that assms(3)] v(1) by auto
  from follows_skip [OF assms(1,2) this] v show ?thesis by simp
qed

lemma reload_tracks:
  assumes "tracks src ko u s"
  shows "meets (reload s) (\<lambda>(st, s'). tracks src ko 0 s' \<and> (st = Overflow \<longleftrightarrow> ko = None))"
proof -
  have d: "dinv s" "stream_src s = src" using assms by (simp_all add: tracks_def)
  from reload_spec [OF d(1)] obtain st s' where r: "reload s = Ok (st, s')" "dinv s'" "stream_src s' = stream_src s"
    "bits_left s' = bits_left s" "st = Overflow \<longleftrightarrow> 64 < bits_consumed s" "64 < bits_consumed s \<Longrightarrow> s' = s"
    "bits_consumed s \<le> 64 \<Longrightarrow> bits_consumed s' \<le> 64 \<and> (bits_consumed s' < 8 \<or> ptr_pos s' = 0)" by metis
  show ?thesis using r assms d by (cases ko) (auto simp: tracks_def)
qed

lemma reload_when_tracks:
  assumes "tracks src ko u s"
  shows "meets (reload_when c s) (tracks src ko (if c then 0 else u))"
  using reload_tracks [OF assms] assms by (cases "reload s") (auto simp: reload_when_def)

lemma tracks_end:
  assumes "tracks src ko u s"
  shows "end_of_stream s \<longleftrightarrow> ko = Some 0"
  using assms by (auto simp: tracks_def end_of_stream_def CONTAINER_BITS_def bits_left_def split: option.splits)

lemma tracks_new: "dstream_new src = Ok s \<Longrightarrow> tracks src (Some (log2 (le_nat src))) 1 s"
  using dstream_new_Ok [of src s] by (auto simp: tracks_def ready_def)

subsection \<open>Entries and their raw form\<close>

definition entry_ok :: "sequence_part \<Rightarrow> nat \<Rightarrow> seq_entry \<Rightarrow> bool" where
  "entry_ok part L e \<longleftrightarrow> se_new_state e + 2 ^ se_nb_bits e \<le> 2 ^ L \<and> se_nb_bits e \<le> max_accuracy_log part
     \<and> L \<le> max_accuracy_log part \<and> se_baseline e \<le> 65539
     \<and> se_nb_additional_bits e \<le> (if part = Offset then 31 else 16) \<and> (part = MatchLength \<longrightarrow> 3 \<le> se_baseline e)"

lemma each_nth: "list_all P xs \<Longrightarrow> i < length xs \<Longrightarrow> P (xs ! i)"
  by (simp add: list_all_length)

lemma code_tables:
  shows "n \<le> 35 \<Longrightarrow> LITERAL_LENGTH_EXTRA_BITS ! n \<le> 16 \<and> LITERAL_LENGTH_BASELINES ! n \<le> 65539"
    and "n \<le> 52 \<Longrightarrow> MATCH_LENGTH_EXTRA_BITS ! n \<le> 16 \<and> MATCH_LENGTH_BASELINES ! n \<le> 65539 \<and> 3 \<le> MATCH_LENGTH_BASELINES ! n"
proof -
  have "list_all (\<lambda>x. x \<le> 16) LITERAL_LENGTH_EXTRA_BITS" "list_all (\<lambda>x. x \<le> 65539) LITERAL_LENGTH_BASELINES"
    by (simp_all add: LITERAL_LENGTH_EXTRA_BITS_def LITERAL_LENGTH_BASELINES_def)
  from this [THEN each_nth, of n] show "n \<le> 35 \<Longrightarrow> LITERAL_LENGTH_EXTRA_BITS ! n \<le> 16 \<and> LITERAL_LENGTH_BASELINES ! n \<le> 65539" by simp
  have "list_all (\<lambda>x. x \<le> 16) MATCH_LENGTH_EXTRA_BITS" "list_all (\<lambda>x. x \<le> 65539 \<and> 3 \<le> x) MATCH_LENGTH_BASELINES"
    by (simp_all add: MATCH_LENGTH_EXTRA_BITS_def MATCH_LENGTH_BASELINES_def)
  from this [THEN each_nth, of n] show "n \<le> 52 \<Longrightarrow> MATCH_LENGTH_EXTRA_BITS ! n \<le> 16 \<and> MATCH_LENGTH_BASELINES ! n \<le> 65539
    \<and> 3 \<le> MATCH_LENGTH_BASELINES ! n" by simp
qed

lemma part_table_entry:
  assumes "part_table_ok part t" and "u < 2 ^ st_table_log t"
  shows "entry_ok part (st_table_log t) (st_entries t ! u)" and "u < 512" and "length (st_entries t) = 512"
proof -
  obtain dt where dt: "part_dtable_ok part dt" "converted part dt t" using assms(1) by (auto simp: part_table_ok_def)
  let ?e = "dt_entries dt ! u"
  have L: "st_table_log t = dt_table_log dt" using dt(2) by (simp add: converted_def)
  have u: "u < 2 ^ dt_table_log dt" using assms(2) L by simp
  have e: "st_entries t ! u = part_entry part (de_symbol ?e) (de_nb_bits ?e) (de_new_state ?e)"
    using dt(2) u by (simp add: converted_def Let_def)
  have d: "de_new_state ?e + 2 ^ de_nb_bits ?e \<le> 2 ^ dt_table_log dt" "dt_table_log dt \<le> max_accuracy_log part"
    "de_symbol ?e \<le> max_symbol_value part"
    using dt(1) u by (auto simp: part_dtable_ok_def dtable_ok_def)
  then have "(2 :: nat) ^ de_nb_bits ?e \<le> 2 ^ dt_table_log dt" by linarith
  then have nb: "de_nb_bits ?e \<le> dt_table_log dt" by simp
  show "entry_ok part (st_table_log t) (st_entries t ! u)"
  proof (cases part)
    case LiteralLength
    then show ?thesis using d nb L e code_tables(1) [of "de_symbol ?e"] by (simp add: entry_ok_def mk_seq_entry_def or_zero_def)
  next
    case Offset
    then show ?thesis using d nb L e by (simp add: entry_ok_def mk_offset_entry_def)
  next
    case MatchLength
    then show ?thesis using d nb L e code_tables(2) [of "de_symbol ?e"] by (simp add: entry_ok_def mk_seq_entry_def or_zero_def)
  qed
  show "u < 512" using u part_dtable_size [OF dt(1)] by linarith
  show "length (st_entries t) = 512" using dt(2) by (simp add: converted_def TABLESIZE_MAX_def)
qed

definition raw_of :: "seq_entry \<Rightarrow> u64" where
  "raw_of e = word_of_nat (se_new_state e + 2 ^ 16 * se_nb_bits e + 2 ^ 24 * se_nb_additional_bits e + 2 ^ 32 * se_baseline e)"

lemma low_part: "(a :: nat) < m \<Longrightarrow> (a + m * x) mod m = a" "a < m \<Longrightarrow> (a + m * x) div m = x"
  by simp_all

lemma unat_and_ff: "unat ((w :: u64) AND 0xFF) = unat w mod 2 ^ 8" "unat (w AND 0xFFFF) = unat w mod 2 ^ 16"
  using and_ones [of "unat w" 8] and_ones [of "unat w" 16] by (simp_all add: unsigned_and_eq)

lemma raw_fields:
  assumes "entry_ok part L e"
  shows "raw_entry_new_state (raw_of e) = se_new_state e" and "raw_entry_nb_bits (raw_of e) = se_nb_bits e"
    and "raw_entry_nb_additional_bits (raw_of e) = se_nb_additional_bits e" and "raw_entry_baseline (raw_of e) = se_baseline e"
proof -
  let ?a = "se_new_state e" and ?b = "se_nb_bits e" and ?c = "se_nb_additional_bits e" and ?d = "se_baseline e"
  have L: "L \<le> 9" using assms by (cases part) (simp_all add: entry_ok_def)
  have "(2 :: nat) ^ L \<le> 512" using L by (rule two_power_le_512)
  moreover have "?a + 2 ^ ?b \<le> 2 ^ L" using assms by (simp add: entry_ok_def)
  moreover have "0 < (2 :: nat) ^ ?b" by simp
  ultimately have "?a < 512" by linarith
  then have f: "?a < 2 ^ 16" "?b < 2 ^ 8" "?c < 2 ^ 8" "?d < 2 ^ 32"
    using assms by (cases part; auto simp: entry_ok_def)+
  have u: "unat (raw_of e) = ?a + 2 ^ 16 * (?b + 2 ^ 8 * (?c + 2 ^ 8 * ?d))"
    using f unfolding raw_of_def unat_of_nat by simp
  have u24: "unat (raw_of e) = (?a + 2 ^ 16 * ?b) + 2 ^ 24 * (?c + 2 ^ 8 * ?d)" by (simp add: u algebra_simps)
  have u32: "unat (raw_of e) = (?a + 2 ^ 16 * ?b + 2 ^ 24 * ?c) + 2 ^ 32 * ?d" by (simp add: u algebra_simps)
  show "raw_entry_new_state (raw_of e) = ?a"
    unfolding raw_entry_new_state_def unat_and_ff u by (rule low_part(1) [OF f(1)])
  show "raw_entry_nb_bits (raw_of e) = ?b"
    unfolding raw_entry_nb_bits_def unat_and_ff unat_drop_bit_div u low_part(2) [OF f(1)] by (rule low_part(1) [OF f(2)])
  have "?a + 2 ^ 16 * ?b < 2 ^ 24" using f(1,2) by simp
  note d24 = low_part(2) [OF this]
  show "raw_entry_nb_additional_bits (raw_of e) = ?c"
    unfolding raw_entry_nb_additional_bits_def unat_and_ff unat_drop_bit_div u24 d24 by (rule low_part(1) [OF f(3)])
  have "?a + 2 ^ 16 * ?b + 2 ^ 24 * ?c < 2 ^ 32" using f(1-3) by simp
  then have "unat (raw_of e) div 2 ^ 32 = ?d" unfolding u32 by (rule low_part(2))
  then show "raw_entry_baseline (raw_of e) = ?d"
    unfolding raw_entry_baseline_def unat_drop_bit_div using f(4) by simp
qed

subsection \<open>The fused reader follows the reference\<close>

definition raws :: "entries3 \<Rightarrow> raw_states" where
  "raws = (\<lambda>(le, oe, me). \<lparr>lit_raw = raw_of le, off_raw = raw_of oe, ml_raw = raw_of me\<rparr>)"

definition entries_ok :: "sequence_tables \<Rightarrow> entries3 \<Rightarrow> bool" where
  "entries_ok t = (\<lambda>(le, oe, me). entry_ok LiteralLength (st_table_log (seq_ll t)) le
     \<and> entry_ok Offset (st_table_log (seq_of t)) oe \<and> entry_ok MatchLength (st_table_log (seq_ml t)) me)"

definition exec_tables_ok :: "sequence_tables \<Rightarrow> bool" where
  "exec_tables_ok t \<longleftrightarrow> part_table_ok LiteralLength (seq_ll t) \<and> part_table_ok Offset (seq_of t) \<and> part_table_ok MatchLength (seq_ml t)"

definition command_ok :: "sequence_command \<Rightarrow> bool" where
  "command_ok c \<longleftrightarrow> literal_length c < 2 ^ 18 \<and> 3 \<le> match_length c \<and> match_length c < 2 ^ 18
     \<and> 0 < offset_value c \<and> offset_value c < 2 ^ 32"

lemma follows_command:
  assumes "follows src a (Option.bind ko (take_field V (se_nb_additional_bits oe))) x s1"
    and "follows src b (Option.bind (map_option snd (Option.bind ko (take_field V (se_nb_additional_bits oe))))
      (take_field V (se_nb_additional_bits me))) y s2"
    and "follows src c (Option.bind (map_option snd (Option.bind (map_option snd (Option.bind ko
      (take_field V (se_nb_additional_bits oe)))) (take_field V (se_nb_additional_bits me)))) (take_field V (se_nb_additional_bits le))) z s3"
  shows "follows src c (Option.bind ko (ref_command V (le, oe, me)))
    \<lparr>literal_length = se_baseline le + z, match_length = se_baseline me + y, offset_value = 2 ^ se_nb_additional_bits oe + x\<rparr> s3"
  using assms by (cases ko) (auto simp: follows_def ref_command_def split: Option.bind_splits option.splits)

lemma extra_less: "v < 2 ^ nb \<Longrightarrow> nb \<le> 16 \<Longrightarrow> (v :: nat) < 65536"
  using power_increasing [of nb 16 "2 :: nat"] by simp

lemma decode_sequence_follows:
  assumes e: "entries_ok t es" and s: "tracks src ko 0 s"
  shows "meets (decode_sequence s (raws es)) (\<lambda>(c, s'). command_ok c
    \<and> follows src 30 (Option.bind ko (ref_command (le_nat src) es)) c s')"
proof -
  obtain le oe me where es: "es = (le, oe, me)" by (cases es)
  have ok: "entry_ok LiteralLength (st_table_log (seq_ll t)) le" "entry_ok Offset (st_table_log (seq_of t)) oe"
    "entry_ok MatchLength (st_table_log (seq_ml t)) me" using e by (simp_all add: entries_ok_def es)
  let ?ob = "se_nb_additional_bits oe" and ?mb = "se_nb_additional_bits me" and ?lb = "se_nb_additional_bits le" and ?V = "le_nat src"
  have nb: "?ob \<le> 31" "?mb \<le> 16" "?lb \<le> 16" using ok by (simp_all add: entry_ok_def)
  have base: "se_baseline le \<le> 65539" "se_baseline me \<le> 65539" "3 \<le> se_baseline me" using ok by (simp_all add: entry_ok_def)
  let ?k1 = "map_option snd (Option.bind ko (take_field ?V ?ob))"
  let ?k2 = "map_option snd (Option.bind ?k1 (take_field ?V ?mb))"
  note r = raw_fields [OF ok(1)] raw_fields [OF ok(2)] raw_fields [OF ok(3)]
  show ?thesis
    unfolding decode_sequence_def raws_def es prod.case raw_states.simps r Let_def meets_and_then
  proof (rule meets_mono [OF read_extra_follows [OF s]], goal_cases)
    case (3 a)
    obtain x s1 where a: "a = (x, s1)" by force
    have x: "x < 2 ^ ?ob" "follows src (0 + ?ob) (Option.bind ko (take_field ?V ?ob)) x s1" using 3 a by simp_all
    note t1 = follows_tracks [OF x(2)]
    show ?case unfolding a prod.case meets_and_then
    proof (rule meets_mono [OF read_extra_follows [OF t1]], goal_cases)
      case (3 b)
      obtain y s2 where b: "b = (y, s2)" by force
      have y: "y < 2 ^ ?mb" "follows src (0 + ?ob + ?mb) (Option.bind ?k1 (take_field ?V ?mb)) y s2" using 3 b by simp_all
      note t2 = follows_tracks [OF y(2)]
      let ?c = "31 \<le> ?ob + ?mb + ?lb"
      show ?case unfolding b prod.case meets_and_then
      proof (rule meets_mono [OF reload_when_tracks [OF t2, of ?c]])
        fix s3 assume s3: "tracks src ?k2 (if ?c then 0 else 0 + ?ob + ?mb) s3"
        have u: "(if ?c then 0 else 0 + ?ob + ?mb) + ?lb \<le> 30" using nb by simp
        show "meets (read_extra s3 ?lb) (\<lambda>x'. meets (case x' of (literal_extra, s) \<Rightarrow>
            and_then (add_u32 (se_baseline le) literal_extra) (\<lambda>ll. and_then (add_u32 (se_baseline me) y) (\<lambda>ml.
            if 32 \<le> ?ob then Fault else and_then (add_u32 (2 ^ ?ob) x) (\<lambda>v.
              Ok (\<lparr>literal_length = ll, match_length = ml, offset_value = v\<rparr>, s)))))
          (\<lambda>(c, s'). command_ok c \<and> follows src 30 (Option.bind ko (ref_command ?V (le, oe, me))) c s'))"
        proof (rule meets_mono [OF read_extra_follows [OF s3]], goal_cases)
          case (3 c)
          obtain z s4 where c: "c = (z, s4)" by force
          have z: "z < 2 ^ ?lb" "follows src ((if ?c then 0 else 0 + ?ob + ?mb) + ?lb) (Option.bind ?k2 (take_field ?V ?lb)) z s4"
            using 3 c by simp_all
          have f: "follows src 30 (Option.bind ko (ref_command ?V (le, oe, me)))
            \<lparr>literal_length = se_baseline le + z, match_length = se_baseline me + y, offset_value = 2 ^ ?ob + x\<rparr> s4"
            using follows_command [OF x(2) y(2) z(2)] tracks_mono [OF _ u] by (auto simp: follows_def split: option.splits)
          have "(2 :: nat) ^ ?ob \<le> 2 ^ 31" using nb(1) by (intro power_increasing) simp_all
          then have lt: "2 ^ ?ob + x < 2 ^ 32" "z < 65536" "y < 65536" using x(1) extra_less [OF y(1) nb(2)] extra_less [OF z(1) nb(3)] by simp_all
          have "command_ok \<lparr>literal_length = se_baseline le + z, match_length = se_baseline me + y, offset_value = 2 ^ ?ob + x\<rparr>"
            using lt base by (simp add: command_ok_def)
          then show ?case using f lt base nb by (simp add: c add_u32_def)
        qed (use u nb in simp_all)
      qed
    qed (use nb in simp_all)
  qed (use nb in simp_all)
qed

lemma get_entry_raw_ok:
  assumes "part_table_ok part t" and "u < 2 ^ st_table_log t"
  shows "get_entry_raw t u = Ok (raw_of (st_entries t ! u))"
  using part_table_entry [OF assms] by (simp add: get_entry_raw_def get_entry_unchecked_def TABLESIZE_MAX_def raw_of_def)

lemma raw_entries_ok:
  assumes t: "exec_tables_ok t" and "l < 2 ^ st_table_log (seq_ll t)" and "ofs < 2 ^ st_table_log (seq_of t)"
    and "m < 2 ^ st_table_log (seq_ml t)"
  defines "es \<equiv> (st_entries (seq_ll t) ! l, st_entries (seq_of t) ! ofs, st_entries (seq_ml t) ! m)"
  shows "raw_entries t l ofs m = Ok (raws es)" and "entries_ok t es"
proof -
  have p: "part_table_ok LiteralLength (seq_ll t)" "part_table_ok Offset (seq_of t)" "part_table_ok MatchLength (seq_ml t)"
    using t by (simp_all add: exec_tables_ok_def)
  show "raw_entries t l ofs m = Ok (raws es)"
    using get_entry_raw_ok [OF p(1) assms(2)] get_entry_raw_ok [OF p(2) assms(3)] get_entry_raw_ok [OF p(3) assms(4)]
    by (simp add: raw_entries_def raws_def es_def)
  show "entries_ok t es"
    using part_table_entry(1) [OF p(1) assms(2)] part_table_entry(1) [OF p(2) assms(3)] part_table_entry(1) [OF p(3) assms(4)]
    by (simp add: entries_ok_def es_def)
qed

lemma field_part:
  assumes "p + q \<le> n" and "n \<le> k"
  shows "((V :: nat) div 2 ^ (k - n) mod 2 ^ n) div 2 ^ p mod 2 ^ q = V div 2 ^ (k - n + p) mod 2 ^ q"
  using mod_div_mod [OF assms(1), of "V div 2 ^ (k - n)"] by (simp add: power_add div_mult2_eq)

text \<open>One read of all the state bits gives the three fields.\<close>

lemma take_three_fields:
  assumes "take_field V (a + b + c) k = Some (v, k')"
  shows "take_field V a k = Some (v div 2 ^ (b + c) mod 2 ^ a, k - a)"
    and "take_field V b (k - a) = Some (v div 2 ^ c mod 2 ^ b, k - (a + b))"
    and "take_field V c (k - (a + b)) = Some (v mod 2 ^ c, k')"
proof -
  have k: "a + b + c \<le> k" and v: "v = V div 2 ^ (k - (a + b + c)) mod 2 ^ (a + b + c)" "k' = k - (a + b + c)"
    using assms by (auto simp: take_field_def split: if_splits)
  have e: "k - (a + b + c) + (b + c) = k - a" "k - (a + b + c) + c = k - a - b" "k - (a + b + c) + 0 = k - (a + b) - c"
    "k - a - b = k - (a + b)" using k by simp_all
  have "v div 2 ^ (b + c) mod 2 ^ a = V div 2 ^ (k - a) mod 2 ^ a"
    unfolding v(1) e(1) [symmetric] using k by (intro field_part) simp_all
  then show "take_field V a k = Some (v div 2 ^ (b + c) mod 2 ^ a, k - a)" using k by (simp add: take_field_def)
  have "v div 2 ^ c mod 2 ^ b = V div 2 ^ (k - a - b) mod 2 ^ b"
    unfolding v(1) e(2) [symmetric] using k by (intro field_part) simp_all
  then show "take_field V b (k - a) = Some (v div 2 ^ c mod 2 ^ b, k - (a + b))" using k by (simp add: take_field_def)
  have "v div 2 ^ 0 mod 2 ^ c = V div 2 ^ (k - (a + b) - c) mod 2 ^ c"
    unfolding v(1) e(3) [symmetric] using k by (intro field_part) simp_all
  then show "take_field V c (k - (a + b)) = Some (v mod 2 ^ c, k')" using k v(2) by (simp add: take_field_def)
qed

lemma take_three_None:
  assumes "take_field V (a + b + c) k = None"
  shows "Option.bind (take_field V a k) (\<lambda>(x, k). Option.bind (take_field V b k) (\<lambda>(y, k).
    Option.bind (take_field V c k) (\<lambda>(z, k). f x y z k))) = None"
  using assms by (auto simp: take_field_def split: if_splits Option.bind_splits)

lemma next_raw_states_follows:
  assumes t: "exec_tables_ok t" and e: "entries_ok t es" and s: "tracks src ko 30 s"
  shows "meets (next_raw_states t s (raws es)) (\<lambda>(r, s'). \<exists>es'. r = raws es' \<and> entries_ok t es'
    \<and> follows src 57 (Option.bind ko (ref_states t (le_nat src) es)) es' s')"
proof -
  obtain le oe me where es: "es = (le, oe, me)" by (cases es)
  have ok: "entry_ok LiteralLength (st_table_log (seq_ll t)) le" "entry_ok Offset (st_table_log (seq_of t)) oe"
    "entry_ok MatchLength (st_table_log (seq_ml t)) me" using e by (simp_all add: entries_ok_def es)
  let ?a = "se_nb_bits le" and ?b = "se_nb_bits me" and ?c = "se_nb_bits oe" and ?V = "le_nat src"
  have nb: "?a + ?b + ?c \<le> 26" using ok by (simp add: entry_ok_def)
  note r = raw_fields(1,2) [OF ok(1)] raw_fields(1,2) [OF ok(2)] raw_fields(1,2) [OF ok(3)]
  have room: "30 + (?a + ?b + ?c) \<le> 57" using nb by simp
  define rd where "rd = (if 0 < ?a + ?b + ?c then and_then (read_bits_fast s (?a + ?b + ?c)) (\<lambda>(v, s). Ok (unat v, s)) else Ok (0, s))"
  obtain v s1 where v: "rd = Ok (v, s1)"
    "follows src (30 + (?a + ?b + ?c)) (Option.bind ko (take_field ?V (?a + ?b + ?c))) v s1"
  proof (cases "?a + ?b + ?c = 0")
    case True
    have "skip_bits s 0 = s" by (simp add: skip_bits_def)
    with True follows_skip [OF s, of 0 0] that [of 0 s] show thesis by (simp add: rd_def)
  next
    case False
    with read_bits_fast_follows [OF s room] nb obtain x where
      "read_bits_fast s (?a + ?b + ?c) = Ok (x, skip_bits s (?a + ?b + ?c))"
      "follows src (30 + (?a + ?b + ?c)) (Option.bind ko (take_field ?V (?a + ?b + ?c))) (unat x) (skip_bits s (?a + ?b + ?c))" by auto
    with that False show thesis by (simp add: rd_def)
  qed
  let ?x = "v div 2 ^ (?b + ?c) mod 2 ^ ?a" and ?y = "v div 2 ^ ?c mod 2 ^ ?b" and ?z = "v mod 2 ^ ?c"
  have lt: "se_new_state le + ?x < 2 ^ st_table_log (seq_ll t)" "se_new_state oe + ?z < 2 ^ st_table_log (seq_of t)"
    "se_new_state me + ?y < 2 ^ st_table_log (seq_ml t)"
    using ok mod_less_divisor [of "2 ^ ?a" "v div 2 ^ (?b + ?c)"] mod_less_divisor [of "2 ^ ?b" "v div 2 ^ ?c"]
      mod_less_divisor [of "2 ^ ?c" v] by (auto simp: entry_ok_def simp del: mod_less_divisor)
  note es' = raw_entries_ok [OF t lt]
  let ?es = "(st_entries (seq_ll t) ! (se_new_state le + ?x), st_entries (seq_of t) ! (se_new_state oe + ?z),
      st_entries (seq_ml t) ! (se_new_state me + ?y))"
  have run: "next_raw_states t s (raws es) = Ok (raws ?es, s1)"
    unfolding next_raw_states_def raws_def es prod.case raw_states.simps r Let_def rd_def [symmetric] v(1) and_then.simps
      and_ones drop_bit_eq_div using es'(1) by (simp add: raws_def)
  have "follows src 57 (Option.bind ko (ref_states t ?V es)) ?es s1"
  proof (cases "Option.bind ko (take_field ?V (?a + ?b + ?c))")
    case None
    then have "Option.bind ko (ref_states t ?V es) = None"
      using take_three_None by (cases ko) (auto simp: ref_states_def es)
    then show ?thesis using v(2) None tracks_mono [OF _ room] by (simp add: follows_def)
  next
    case (Some w)
    then obtain k k' where k: "ko = Some k" "take_field ?V (?a + ?b + ?c) k = Some (v, k')"
      using v(2) by (cases ko; cases w) (auto simp: follows_def)
    note f = take_three_fields [OF k(2)]
    have "Option.bind ko (ref_states t ?V es) = Some (?es, k')" by (simp add: k(1) ref_states_def es f)
    then show ?thesis using v(2) k tracks_mono [OF _ room] by (simp add: follows_def)
  qed
  then show ?thesis using es'(2) unfolding run by auto
qed

text \<open>Opening the stream.\<close>

lemma init_dstate_follows:
  assumes "st_table_log t \<le> 9" and "tracks src ko u s" and "u \<le> 1"
  shows "meets (init_dstate_seq t s) (\<lambda>(x, s'). x < 2 ^ st_table_log t
    \<and> follows src 0 (Option.bind ko (take_field (le_nat src) (st_table_log t))) x s')"
  unfolding init_dstate_seq_def meets_and_then
proof (rule meets_mono [OF read_bits_follows [OF assms(2)]], goal_cases)
  case (3 a)
  obtain v s1 where a: "a = (v, s1)" by force
  let ?r = "Option.bind ko (take_field (le_nat src) (st_table_log t))"
  have v: "unat v < 2 ^ st_table_log t" "follows src (u + st_table_log t) ?r (unat v) s1" using 3 a by simp_all
  show ?case unfolding a prod.case meets_and_then
  proof (rule meets_mono [OF reload_tracks [OF follows_tracks [OF v(2)]]], clarsimp simp: v(1))
    fix s' assume "tracks src (map_option snd ?r) 0 s'"
    then show "follows src 0 ?r (unat v) s'" using v(2) by (auto simp: follows_def split: option.splits)
  qed
qed (use assms in simp_all)

lemma follows_open:
  assumes "follows src a (Option.bind ko (take_field V A)) x s1"
    and "follows src b (Option.bind (map_option snd (Option.bind ko (take_field V A))) (take_field V B)) y s2"
    and "follows src c (Option.bind (map_option snd (Option.bind (map_option snd (Option.bind ko (take_field V A)))
      (take_field V B))) (take_field V C)) z s3"
  shows "follows src c (Option.bind ko (\<lambda>k. Option.bind (take_field V A k) (\<lambda>(x, k). Option.bind (take_field V B k) (\<lambda>(y, k).
    Option.bind (take_field V C k) (\<lambda>(z, k). Some (f x y z, k)))))) (f x y z) s3"
  using assms by (cases ko) (auto simp: follows_def split: Option.bind_splits option.splits)

lemma open_states_follows:
  assumes t: "exec_tables_ok t"
  shows "meets (open_states t src) (\<lambda>(r, s). src \<noteq> [] \<and> last src \<noteq> 0 \<and> (\<exists>es. r = raws es \<and> entries_ok t es
    \<and> follows src 0 (ref_open t (le_nat src) (log2 (le_nat src))) es s))"
proof (cases "dstream_new src")
  case Fault
  then show ?thesis using dstream_new_no_fault by blast
next
  case (Err e)
  then show ?thesis by (simp add: open_states_def)
next
  case (Ok s)
  have p: "part_table_ok LiteralLength (seq_ll t)" "part_table_ok Offset (seq_of t)" "part_table_ok MatchLength (seq_ml t)"
    using t by (simp_all add: exec_tables_ok_def)
  have z: "0 < (2 :: nat) ^ n" for n by simp
  have L: "st_table_log (seq_ll t) \<le> 9" "st_table_log (seq_of t) \<le> 9" "st_table_log (seq_ml t) \<le> 9"
    using p [THEN part_table_entry(1), OF z] by (simp_all add: entry_ok_def)
  have n: "src \<noteq> []" "last src \<noteq> 0" using dstream_new_Ok [OF Ok] by simp_all
  let ?k = "Some (log2 (le_nat src))"
  show ?thesis unfolding open_states_def Ok and_then.simps meets_and_then
  proof (rule meets_mono [OF init_dstate_follows [OF L(1) tracks_new [OF Ok]]], goal_cases)
    case (2 a)
    obtain x s1 where a: "a = (x, s1)" by force
    from 2 have x: "x < 2 ^ st_table_log (seq_ll t)"
      "follows src 0 (Option.bind ?k (take_field (le_nat src) (st_table_log (seq_ll t)))) x s1" by (simp_all add: a)
    show ?case unfolding a prod.case meets_and_then
    proof (rule meets_mono [OF init_dstate_follows [OF L(2) follows_tracks [OF x(2)]]], goal_cases)
      case (2 b)
      obtain y s2 where b: "b = (y, s2)" by force
      from 2 have y: "y < 2 ^ st_table_log (seq_of t)" "follows src 0 (Option.bind (map_option snd
        (Option.bind ?k (take_field (le_nat src) (st_table_log (seq_ll t))))) (take_field (le_nat src) (st_table_log (seq_of t)))) y s2"
        by (simp_all add: b)
      show ?case unfolding b prod.case meets_and_then
      proof (rule meets_mono [OF init_dstate_follows [OF L(3) follows_tracks [OF y(2)]]], goal_cases)
        case (2 c)
        obtain w s3 where c: "c = (w, s3)" by force
        from 2 have w: "w < 2 ^ st_table_log (seq_ml t)" "follows src 0 (Option.bind (map_option snd (Option.bind (map_option snd
          (Option.bind ?k (take_field (le_nat src) (st_table_log (seq_ll t))))) (take_field (le_nat src) (st_table_log (seq_of t)))))
          (take_field (le_nat src) (st_table_log (seq_ml t)))) w s3" by (simp_all add: c)
        note es = raw_entries_ok [OF t x(1) y(1) w(1)]
        have "follows src 0 (ref_open t (le_nat src) (log2 (le_nat src)))
          (st_entries (seq_ll t) ! x, st_entries (seq_of t) ! y, st_entries (seq_ml t) ! w) s3"
          using follows_open [OF x(2) y(2) w(2), of "\<lambda>x y z. (st_entries (seq_ll t) ! x, st_entries (seq_of t) ! y, st_entries (seq_ml t) ! z)"]
          by (simp add: ref_open_def)
        with es n show ?case by (auto simp: c)
      qed simp
    qed simp
  qed simp
qed

end
