(* ===== verification/Huff0Table.thy ===== *)
theory Huff0Table
  imports FseDecode FseNorm
begin

section \<open>Huffman table descriptions (entropy/huff0.rs)\<close>

text \<open>
  The header of a Huffman-coded section in \<open>src/src/entropy/huff0.rs\<close>: the weights, given as raw nibbles
  or compressed with FSE, their check, and the tables built from them, the single-symbol decoding
  table and the encoder's table of codes. Weights are the bytes of the \<open>u8\<close> array; counters,
  code lengths and table positions are numbers in the range of the Rust type, with the
  checked additions written out. A builder that fails returns only the error.
\<close>

definition HUF_TABLELOG_MAX :: nat where "HUF_TABLELOG_MAX = 12"
definition HUF_SYMBOLVALUE_MAX :: nat where "HUF_SYMBOLVALUE_MAX = 255"
definition MAX_FSE_TABLELOG_FOR_HUFF_HEADER :: nat where "MAX_FSE_TABLELOG_FOR_HUFF_HEADER = 6"
definition DTABLE_X1_SIZE :: nat where "DTABLE_X1_SIZE = 2 ^ HUF_TABLELOG_MAX"

record delt_x1 =
  x1_byte :: u8
  x1_nb_bits :: nat

record dtable_x1 =
  x1_table_log :: nat
  x1_entries :: "delt_x1 list"

definition dtable_x1_default :: dtable_x1 where
  "dtable_x1_default = \<lparr>x1_table_log = 0, x1_entries = replicate DTABLE_X1_SIZE \<lparr>x1_byte = 0, x1_nb_bits = 0\<rparr>\<rparr>"

record celt =
  ce_val :: nat
  ce_nb_bits :: nat

record ctable_x1 =
  cx1_table_log :: nat
  cx1_entries :: "celt list"

definition celt_default :: celt where
  "celt_default = \<lparr>ce_val = 0, ce_nb_bits = 0\<rparr>"

definition ctable_x1_default :: ctable_x1 where
  "ctable_x1_default = \<lparr>cx1_table_log = 0, cx1_entries = replicate (HUF_SYMBOLVALUE_MAX + 1) celt_default\<rparr>"

definition symbol_nb_bits :: "ctable_x1 \<Rightarrow> nat \<Rightarrow> nat result" where
  "symbol_nb_bits ct symbol = and_then (idx (cx1_entries ct) symbol) (\<lambda>e. Ok (ce_nb_bits e))"

definition read_segment_length :: "bytes \<Rightarrow> usize \<Rightarrow> usize result" where
  "read_segment_length src offset =
     and_then (idx src offset) (\<lambda>a. and_then (idx src (offset + 1)) (\<lambda>b. Ok (le_nat [a, b])))"

subsection \<open>Weights\<close>

definition raw_weights :: "bytes \<Rightarrow> nat \<Rightarrow> bytes \<Rightarrow> bytes result" where
  "raw_weights src k hw =
     (let index = 2 * k in
      and_then (idx src (1 + index div 2)) (\<lambda>b.
      and_then (upd hw index (drop_bit 4 b)) (\<lambda>hw.
        upd hw (index + 1) (b AND 15))))"

text \<open>The weights, their number, and the bytes of the description after the first.\<close>

definition read_weights :: "bytes \<Rightarrow> bytes \<Rightarrow> (bytes \<times> nat \<times> usize) result" where
  "read_weights hw src =
     and_then (idx src 0) (\<lambda>first.
     let i_size = unat first in
     if 128 \<le> i_size then
       let o_size = i_size - 127; i_size = (o_size + 1) div 2 in
       if length src < i_size + 1 \<or> length hw \<le> o_size then Err SrcSizeWrong else
       and_then (loop_over (raw_weights src) [0..<(o_size + 1) div 2] hw) (\<lambda>hw. Ok (hw, o_size, i_size))
     else if length src < i_size + 1 then Err SrcSizeWrong else
       and_then (sub_nat (length hw) 1) (\<lambda>hw_len.
       and_then (idx_range hw 0 hw_len) (\<lambda>dst.
       and_then (idx_range src 1 (i_size + 1)) (\<lambda>body.
       and_then (fse_decompress dst body HUF_TABLELOG_MAX MAX_FSE_TABLELOG_FOR_HUFF_HEADER) (\<lambda>(dst, n).
         Ok (dst @ drop hw_len hw, n, i_size))))))"

text \<open>Counting the weights by rank and adding up what they take.\<close>

definition add_weight :: "u8 \<Rightarrow> nat list \<times> nat \<Rightarrow> (nat list \<times> nat) result" where
  "add_weight weight st =
     (case st of (rank_stats, weight_total) \<Rightarrow>
      if HUF_TABLELOG_MAX \<le> unat weight then Err (Corruption ''invalid Huff0 weight'') else
      and_then (bump (unat weight) rank_stats) (\<lambda>rank_stats.
      and_then (add_u32 weight_total (2 ^ unat weight div 2)) (\<lambda>weight_total.
        Ok (rank_stats, weight_total))))"

text \<open>The weights, the rank counters, the number of symbols, the table log and the bytes read.\<close>

definition read_stats :: "bytes \<Rightarrow> bytes \<Rightarrow> (bytes \<times> nat list \<times> nat \<times> nat \<times> usize) result" where
  "read_stats huff_weight src =
     (if src = [] then Err SrcSizeWrong else
      and_then (read_weights huff_weight src) (\<lambda>(hw, o_size, i_size).
      and_then (idx_range hw 0 o_size) (\<lambda>weights.
      and_then (loop_over add_weight weights (replicate (HUF_TABLELOG_MAX + 1) 0, 0)) (\<lambda>(rank_stats, weight_total).
      if weight_total = 0 then Err (Corruption ''empty Huff0 weight table'') else
      and_then (highbit32 weight_total) (\<lambda>b. let log = b + 1 in
      if HUF_TABLELOG_MAX < log then Err (Corruption ''Huff0 table log too large'') else
      and_then (sub_nat (2 ^ log) weight_total) (\<lambda>rest.
      and_then (highbit32 rest) (\<lambda>hb.
      if 2 ^ hb \<noteq> rest then Err (Corruption ''non power-of-two Huff0 weight remainder'') else
      let last_weight = hb + 1 in
      and_then (upd hw o_size (word_of_nat last_weight)) (\<lambda>hw.
      and_then (bump last_weight rank_stats) (\<lambda>rank_stats.
      and_then (idx rank_stats 1) (\<lambda>ones.
      if ones < 2 \<or> ones mod 2 \<noteq> 0 then Err (Corruption ''invalid Huff0 rank-1 weight count'') else
        Ok (hw, rank_stats, o_size + 1, log, i_size + 1)))))))))))"

subsection \<open>The single-symbol decoding table\<close>

text \<open>The first slot of each rank.\<close>

definition rank_start_x1 :: "nat \<Rightarrow> nat list \<times> nat \<Rightarrow> (nat list \<times> nat) result" where
  "rank_start_x1 index st =
     (case st of (rank_val, next_rank_start) \<Rightarrow>
      and_then (idx rank_val index) (\<lambda>r.
      and_then (add_u32 next_rank_start (cast_u32 (r * 2 ^ (index - 1)))) (\<lambda>next.
      and_then (upd rank_val index next_rank_start) (\<lambda>rank_val. Ok (rank_val, next)))))"

definition fill_symbol_x1 ::
    "nat \<Rightarrow> bytes \<Rightarrow> nat \<Rightarrow> delt_x1 list \<times> nat list \<Rightarrow> (delt_x1 list \<times> nat list) result" where
  "fill_symbol_x1 table_log hw index st =
     (case st of (entries, rank_val) \<Rightarrow>
      and_then (idx hw index) (\<lambda>w. let weight = unat w; len = 2 ^ weight div 2 in
      and_then (idx rank_val weight) (\<lambda>start.
      and_then (sub_nat (table_log + 1) weight) (\<lambda>nb_bits.
      and_then (upd rank_val weight (cast_u32 (start + len))) (\<lambda>rank_val.
      and_then (copy_into entries start (replicate len \<lparr>x1_byte = word_of_nat index, x1_nb_bits = nb_bits mod 256\<rparr>)) (\<lambda>entries.
        Ok (entries, rank_val)))))))"

definition read_dtable_x1 :: "bytes \<Rightarrow> dtable_x1 \<Rightarrow> (dtable_x1 \<times> usize) result" where
  "read_dtable_x1 src dt =
     and_then (read_stats (replicate (HUF_SYMBOLVALUE_MAX + 1) 0) src) (\<lambda>(hw, rank_val, nb_symbols, table_log, i_size).
     if length (x1_entries dt) < 2 ^ table_log
     then Err (Corruption ''Huff0 table log exceeds decode table capacity'') else
     and_then (loop_over rank_start_x1 [1..<table_log + 1] (rank_val, 0)) (\<lambda>(rank_val, _).
     and_then (loop_over (fill_symbol_x1 table_log hw) [0..<nb_symbols] (x1_entries dt, rank_val)) (\<lambda>(entries, _).
       Ok (\<lparr>x1_table_log = table_log mod 256, x1_entries = entries\<rparr>, i_size))))"

subsection \<open>The encoder's table\<close>

definition add_u16_checked :: "nat \<Rightarrow> nat \<Rightarrow> nat result" where
  "add_u16_checked a b = (if a + b < 65536 then Ok (a + b) else Fault)"

definition count_rank :: "nat \<Rightarrow> u8 \<Rightarrow> nat list \<Rightarrow> nat list result" where
  "count_rank table_log weight nb_per_rank =
     (if weight = 0 then Ok nb_per_rank
      else if table_log < unat weight then Err (Corruption ''invalid Huff0 weight'')
      else let nb_bits = table_log + 1 - unat weight in
        if nb_bits = 0 \<or> HUF_TABLELOG_MAX < nb_bits then Err (Corruption ''invalid Huff0 weight'')
        else and_then (idx nb_per_rank nb_bits) (\<lambda>r. and_then (add_u16_checked r 1) (upd nb_per_rank nb_bits)))"

text \<open>The first code of each length, from the longest.\<close>

definition rank_value :: "nat list \<Rightarrow> nat \<Rightarrow> nat list \<times> nat \<Rightarrow> (nat list \<times> nat) result" where
  "rank_value nb_per_rank n st =
     (case st of (val_per_rank, m) \<Rightarrow>
      and_then (upd val_per_rank n m) (\<lambda>val_per_rank.
      and_then (idx nb_per_rank n) (\<lambda>r.
      and_then (add_u16_checked m r) (\<lambda>s. Ok (val_per_rank, s div 2)))))"

definition assign_code ::
    "nat \<Rightarrow> bytes \<Rightarrow> nat \<Rightarrow> celt list \<times> nat list \<Rightarrow> (celt list \<times> nat list) result" where
  "assign_code table_log hw symbol st =
     (case st of (ctable, val_per_rank) \<Rightarrow>
      and_then (idx hw symbol) (\<lambda>w.
      if w = 0 then Ok st else
      and_then (sub_nat (table_log + 1) (unat w)) (\<lambda>nb_bits.
      and_then (idx val_per_rank nb_bits) (\<lambda>v.
      and_then (upd ctable symbol \<lparr>ce_val = v, ce_nb_bits = nb_bits mod 256\<rparr>) (\<lambda>ctable.
      and_then (add_u16_checked v 1) (\<lambda>v'.
      and_then (upd val_per_rank nb_bits v') (\<lambda>val_per_rank. Ok (ctable, val_per_rank))))))))"

definition build_ctable_from_weights :: "celt list \<Rightarrow> bytes \<Rightarrow> nat \<Rightarrow> nat \<Rightarrow> celt list result" where
  "build_ctable_from_weights ctable hw nb_symbols table_log =
     (if table_log = 0 \<or> HUF_TABLELOG_MAX < table_log then Err (Corruption ''invalid Huff0 table log'') else
      let zeros = replicate (HUF_TABLELOG_MAX + 1) 0 in
      and_then (idx_range hw 0 nb_symbols) (\<lambda>weights.
      and_then (loop_over (count_rank table_log) weights zeros) (\<lambda>nb_per_rank.
      and_then (loop_over (rank_value nb_per_rank) (rev [1..<table_log + 1]) (zeros, 0)) (\<lambda>(val_per_rank, _).
      and_then (loop_over (assign_code table_log hw) [0..<nb_symbols]
                  (map (\<lambda>_. celt_default) ctable, val_per_rank)) (\<lambda>(ctable, _).
        Ok ctable)))))"

definition read_ctable_x1_with_repeat_validity :: "bytes \<Rightarrow> ctable_x1 \<Rightarrow> (ctable_x1 \<times> usize \<times> bool) result" where
  "read_ctable_x1_with_repeat_validity src ct =
     and_then (read_stats (replicate (HUF_SYMBOLVALUE_MAX + 1) 0) src) (\<lambda>(hw, _, nb_symbols, table_log, i_size).
     and_then (build_ctable_from_weights (cx1_entries ct) hw nb_symbols table_log) (\<lambda>entries.
     and_then (idx_range hw 0 nb_symbols) (\<lambda>weights.
       Ok (\<lparr>cx1_table_log = table_log mod 256, cx1_entries = entries\<rparr>, i_size,
           nb_symbols = HUF_SYMBOLVALUE_MAX + 1 \<and> (\<forall>w \<in> set weights. w \<noteq> 0)))))"

definition read_ctable_x1 :: "bytes \<Rightarrow> ctable_x1 \<Rightarrow> (ctable_x1 \<times> usize) result" where
  "read_ctable_x1 src ct = and_then (read_ctable_x1_with_repeat_validity src ct) (\<lambda>(ct, n, _). Ok (ct, n))"

text \<open>Whether a table has a code for every symbol, from the input and from its histogram.\<close>

definition table_supports_all_symbols :: "ctable_x1 \<Rightarrow> bytes \<Rightarrow> bool" where
  "table_supports_all_symbols ct src \<longleftrightarrow> (\<forall>b \<in> set src. ce_nb_bits (cx1_entries ct ! unat b) \<noteq> 0)"

definition table_covers_counted_symbols :: "ctable_x1 \<Rightarrow> nat list \<Rightarrow> nat \<Rightarrow> bool result" where
  "table_covers_counted_symbols ct freq max_symbol_value =
     and_then (idx_range freq 0 (max_symbol_value + 1)) (\<lambda>cs.
     and_then (idx_range (cx1_entries ct) 0 (max_symbol_value + 1)) (\<lambda>es.
       Ok (\<not> (\<exists>(frequency, entry) \<in> set (zip cs es). frequency \<noteq> 0 \<and> ce_nb_bits entry = 0))))"

end
