(* ===== verification/Huff0Stats.thy ===== *)
theory Huff0Stats
  imports Huff0Table
begin

section \<open>What a table description gives (entropy/huff0.rs)\<close>

text \<open>
  The weights that \<open>read_stats\<close> accepts: they lie within the table log, the counters by rank are
  their numbers, and the slots they take fill a table of that log exactly. The weights are read as the list
  of their values; a weight takes half a power of two of slots, none for weight zero.
\<close>

definition slots_of :: "nat \<Rightarrow> nat" where
  "slots_of w = 2 ^ w div 2"

definition taken :: "nat list \<Rightarrow> nat" where
  "taken ws = sum_list (map slots_of ws)"

definition weights_of :: "bytes \<Rightarrow> nat \<Rightarrow> nat list" where
  "weights_of hw n = map unat (take n hw)"

definition weights_ok :: "nat list \<Rightarrow> nat \<Rightarrow> bool" where
  "weights_ok ws log \<longleftrightarrow> length ws \<le> 256 \<and> 1 \<le> log \<and> log \<le> HUF_TABLELOG_MAX
     \<and> (\<forall>w \<in> set ws. w \<le> log) \<and> taken ws = 2 ^ log \<and> 2 \<le> count_list ws 1"

definition ranks_of :: "nat list \<Rightarrow> nat list \<Rightarrow> bool" where
  "ranks_of ws rank \<longleftrightarrow> length rank = 13 \<and> (\<forall>w \<le> 12. rank ! w = count_list ws w)"

lemma slots_of_simps [simp]: "slots_of 0 = 0" "slots_of (Suc w) = 2 ^ w"
  by (simp_all add: slots_of_def)

lemma slots_of_mono: "v \<le> w \<Longrightarrow> slots_of v \<le> slots_of w"
  by (simp add: slots_of_def div_le_mono)

lemma slots_of_pos: "0 < w \<Longrightarrow> slots_of w = 2 ^ (w - 1)"
  by (cases w) simp_all

lemma taken_simps [simp]: "taken [] = 0" "taken (w # ws) = slots_of w + taken ws"
  "taken (vs @ ws) = taken vs + taken ws"
  by (simp_all add: taken_def)

lemma slots_le_taken: "w \<in> set ws \<Longrightarrow> slots_of w \<le> taken ws"
  by (induction ws) auto

lemma taken_bound: "\<forall>w \<in> set ws. w \<le> 12 \<Longrightarrow> taken ws \<le> 2048 * length ws"
proof (induction ws)
  case (Cons w ws)
  have "slots_of w \<le> slots_of 12" using Cons.prems by (intro slots_of_mono) simp
  also have "slots_of 12 = 2048" by (simp add: slots_of_def)
  finally show ?case using Cons by simp
qed simp

lemma ranks_of_snoc:
  "ranks_of ws rank \<Longrightarrow> w \<le> 12 \<Longrightarrow> ranks_of (ws @ [w]) (rank[w := rank ! w + 1])"
  by (auto simp: ranks_of_def nth_list_update)

lemma weights_of_snoc:
  assumes "n < length hw" and "x < 256"
  shows "weights_of (hw[n := word_of_nat x]) (Suc n) = weights_of hw n @ [x]"
  using assms by (simp add: weights_of_def take_Suc_conv_app_nth take_update_cancel unat_word_of_nat_u8)

lemma raw_weights_loop:
  assumes "(n + 1) div 2 < length src" and "n < length hw"
  shows "meets (loop_over (raw_weights src) [0..<(n + 1) div 2] hw) (\<lambda>hw'. length hw' = length hw)"
proof (rule loop_upt_meets [where I = "\<lambda>_ hw'. length hw' = length hw"])
  fix k hw' assume k: "k < (n + 1) div 2" and l: "length (hw' :: bytes) = length hw"
  have "1 + 2 * k div 2 < length src" "2 * k < length hw" "2 * k + 1 < length hw" using k assms by linarith+
  then show "meets (raw_weights src k hw') (\<lambda>hw'. length hw' = length hw)"
    unfolding raw_weights_def Let_def using l by simp
qed simp

lemma read_weights_meets:
  assumes "length hw = 256" and "src \<noteq> []"
  shows "meets (read_weights hw src) (\<lambda>(hw', n, used). length hw' = 256 \<and> n \<le> 255 \<and> used < length src)"
proof -
  let ?i = "unat (src ! 0)"
  have i: "?i < 256" by (rule unat_u8_less)
  have s0: "idx src 0 = Ok (src ! 0)" using assms(2) by simp
  show ?thesis
  proof (cases "128 \<le> ?i")
    case True
    let ?o = "?i - 127"
    show ?thesis
    proof (cases "length src < (?o + 1) div 2 + 1")
      case True2: False
      have "(?o + 1) div 2 < length src" "?o < length hw" using True2 i assms(1) by linarith+
      from raw_weights_loop [OF this] show ?thesis
        unfolding read_weights_def s0 and_then.simps Let_def if_P [OF True] using True2 i assms(1) by simp
    qed (use s0 True in \<open>simp add: read_weights_def\<close>)
  next
    case False
    show ?thesis
    proof (cases "length src < ?i + 1")
      case F2: False
      let ?body = "take ?i (drop 1 src)"
      have "length ?body \<le> usize_max" using False by (simp add: usize_max_def)
      moreover have "2 \<le> length (take 255 hw)" using assms(1) by simp
      ultimately have "meets (fse_decompress (take 255 hw) ?body HUF_TABLELOG_MAX MAX_FSE_TABLELOG_FOR_HUFF_HEADER)
          (\<lambda>(dst, n). length dst = 255 \<and> n \<le> 255)"
        using fse_decompress_meets [of ?body "take 255 hw"] assms(1) by simp
      then have "meets (fse_decompress (take 255 hw) ?body HUF_TABLELOG_MAX MAX_FSE_TABLELOG_FOR_HUFF_HEADER)
          (\<lambda>(dst, n). length (dst @ drop 255 hw) = 256 \<and> n \<le> 255 \<and> ?i < length src)"
        by (rule meets_mono) (use assms(1) F2 in auto)
      then show ?thesis
        unfolding read_weights_def s0 and_then.simps Let_def if_not_P [OF False] if_not_P [OF F2] sub_nat_def
        using assms(1) F2 by (simp add: case_prod_unfold idx_range_def)
    qed (use s0 False in \<open>simp add: read_weights_def\<close>)
  qed
qed

lemma add_weights_meets:
  assumes "length weights \<le> 255"
  shows "meets (loop_over add_weight weights (replicate (HUF_TABLELOG_MAX + 1) 0, 0))
    (\<lambda>(rank, tot). ranks_of (map unat weights) rank \<and> tot = taken (map unat weights)
       \<and> (\<forall>w \<in> set weights. unat w < 12))"
proof -
  let ?I = "\<lambda>ds (rank, tot). ranks_of (map unat ds) rank \<and> tot = taken (map unat ds) \<and> (\<forall>w \<in> set ds. unat w < 12)"
  have "meets (loop_over add_weight weights (replicate (HUF_TABLELOG_MAX + 1) 0, 0)) (?I weights)"
  proof (rule loop_over_meets [where I = ?I])
    fix ds x rs st
    assume e: "weights = ds @ x # rs" and I: "?I ds (st :: nat list \<times> nat)"
    obtain rank tot where st: "st = (rank, tot)" by (cases st)
    let ?w = "unat (x :: u8)"
    show "meets (add_weight x st) (?I (ds @ [x]))"
    proof (cases "12 \<le> ?w")
      case False
      have len: "length ds \<le> 255" using e assms by simp
      have r: "ranks_of (map unat ds) rank" "tot = taken (map unat ds)" using I st by simp_all
      have "count_list (map unat ds) ?w \<le> length ds" using count_le_length [of "map unat ds" ?w] by simp
      then have rw: "rank ! ?w \<le> 255" "?w < length rank" using r(1) False len by (simp_all add: ranks_of_def)
      have b: "bump ?w rank = Ok (rank[?w := rank ! ?w + 1])" using rw by (intro bump_Ok) simp_all
      have "\<forall>w \<in> set (map unat ds). w \<le> 12" using I st by (auto intro: less_imp_le)
      then have "tot \<le> 2048 * length ds" using taken_bound [of "map unat ds"] r(2) by simp
      moreover have "slots_of ?w \<le> slots_of 12" using False by (intro slots_of_mono) simp
      moreover have "slots_of 12 = 2048" by (simp add: slots_of_def)
      ultimately have "tot + slots_of ?w < 2 ^ 32" using len by simp
      then have a: "add_u32 tot (2 ^ ?w div 2) = Ok (tot + slots_of ?w)" by (simp add: add_u32_def slots_of_def)
      have "ranks_of (map unat ds @ [?w]) (rank[?w := rank ! ?w + 1])" using ranks_of_snoc [OF r(1)] False by simp
      then show ?thesis
        unfolding st add_weight_def prod.case b and_then.simps a HUF_TABLELOG_MAX_def if_not_P [OF False]
        using I st False by auto
    qed (simp add: add_weight_def st HUF_TABLELOG_MAX_def)
  qed (simp add: ranks_of_def HUF_TABLELOG_MAX_def nth_Cons split: nat.splits)
  then show ?thesis .
qed

definition stats_ok :: "bytes \<Rightarrow> bytes \<times> nat list \<times> nat \<times> nat \<times> usize \<Rightarrow> bool" where
  "stats_ok src r \<longleftrightarrow> (case r of (hw, rank, n, log, used) \<Rightarrow>
     length hw = 256 \<and> n \<le> 256 \<and> weights_ok (weights_of hw n) log \<and> ranks_of (weights_of hw n) rank
     \<and> used \<le> length src)"

lemma last_weight:
  assumes "2 ^ b \<le> tot" and "tot < 2 ^ Suc b" and "rest = 2 ^ Suc b - tot" and "(2 :: nat) ^ hb = rest"
  shows "hb \<le> b" and "tot + 2 ^ hb = 2 ^ Suc b"
proof -
  show "tot + 2 ^ hb = 2 ^ Suc b" using assms by simp
  have "(2 :: nat) ^ hb \<le> 2 ^ b" using assms by simp
  then show "hb \<le> b" using power_le_imp_le_exp [of "2 :: nat" hb b] by simp
qed

lemma weight_within:
  assumes "slots_of w \<le> tot" and "tot < 2 ^ Suc b"
  shows "w \<le> Suc b"
proof (rule ccontr)
  assume "\<not> w \<le> Suc b"
  then have "slots_of (Suc (Suc b)) \<le> slots_of w" by (intro slots_of_mono) simp
  with assms show False by simp
qed

lemma read_stats_meets:
  assumes "length hw = 256"
  shows "meets (read_stats hw src) (stats_ok src)"
proof (cases "src = []")
  case False
  show ?thesis
  proof (cases "read_weights hw src")
    case (Ok r)
    obtain hw' n i where r: "r = (hw', n, i)" by (cases r)
    have w: "length hw' = 256" "n \<le> 255" "i < length src" using read_weights_meets [OF assms False] Ok r by simp_all
    let ?ws = "weights_of hw' n"
    have ir: "idx_range hw' 0 n = Ok (take n hw')" using w by (simp add: idx_range_def)
    have "length (take n hw') \<le> 255" using w by simp
    note A = add_weights_meets [OF this, folded weights_of_def]
    show ?thesis
    proof (cases "loop_over add_weight (take n hw') (replicate (HUF_TABLELOG_MAX + 1) 0, 0)")
      case L: (Ok st)
      obtain rank tot where st: "st = (rank, tot)" by (cases st)
      have R: "ranks_of ?ws rank" "tot = taken ?ws" "\<forall>w \<in> set (take n hw'). unat w < 12" using A L st by simp_all
      have "meets (if tot = 0 then Err (Corruption ''empty Huff0 weight table'') else
          and_then (highbit32 tot) (\<lambda>b. let log = b + 1 in
          if HUF_TABLELOG_MAX < log then Err (Corruption ''Huff0 table log too large'') else
          and_then (sub_nat (2 ^ log) tot) (\<lambda>rest.
          and_then (highbit32 rest) (\<lambda>hb.
          if 2 ^ hb \<noteq> rest then Err (Corruption ''non power-of-two Huff0 weight remainder'') else
          let last_weight = hb + 1 in
          and_then (upd hw' n (word_of_nat last_weight)) (\<lambda>hw.
          and_then (bump last_weight rank) (\<lambda>rank_stats.
          and_then (idx rank_stats 1) (\<lambda>ones.
          if ones < 2 \<or> ones mod 2 \<noteq> 0 then Err (Corruption ''invalid Huff0 rank-1 weight count'') else
            Ok (hw, rank_stats, n + 1, log, i + 1)))))))) (stats_ok src)"
      proof (cases "tot = 0 \<or> 12 < log2 tot + 1")
        case ok: False
        let ?b = "log2 tot" let ?rest = "2 ^ (?b + 1) - tot" let ?hb = "log2 ?rest"
        have t: "2 ^ ?b \<le> tot" "tot < 2 ^ Suc ?b" using ok log2_le log2_less by simp_all
        then have rest: "?rest \<noteq> 0" "tot \<le> 2 ^ (?b + 1)" by simp_all
        have hb: "highbit32 tot = Ok ?b" "highbit32 ?rest = Ok ?hb" "sub_nat (2 ^ (?b + 1)) tot = Ok ?rest"
          using ok rest by (simp_all add: sub_nat_def)
        show ?thesis
        proof (cases "2 ^ ?hb = ?rest")
          case True
          have lw: "?hb \<le> ?b" "tot + 2 ^ ?hb = 2 ^ Suc ?b" using last_weight [OF t _ True] by simp_all
          have l12: "?hb + 1 \<le> 12" "?hb + 1 < 256" using lw ok by simp_all
          let ?hw = "hw'[n := word_of_nat (?hb + 1)]" let ?rank = "rank[?hb + 1 := rank ! (?hb + 1) + 1]"
          have ws: "weights_of ?hw (n + 1) = ?ws @ [?hb + 1]" using weights_of_snoc [of n hw' "?hb + 1"] w l12 by simp
          have u: "upd hw' n (word_of_nat (?hb + 1)) = Ok ?hw" using w by simp
          have lr: "length rank = 13" "rank ! (?hb + 1) = count_list ?ws (?hb + 1)" using R(1) l12 by (simp_all add: ranks_of_def)
          have "count_list ?ws (?hb + 1) \<le> 256" using count_le_length [of ?ws "?hb + 1"] w by (simp add: weights_of_def)
          then have b: "bump (?hb + 1) rank = Ok ?rank" using lr l12 by (intro bump_Ok) simp_all
          have R': "ranks_of (?ws @ [?hb + 1]) ?rank" using ranks_of_snoc [OF R(1)] l12 by simp
          then have o1: "idx ?rank 1 = Ok (count_list (?ws @ [?hb + 1]) 1)" by (simp add: ranks_of_def)
          have "\<forall>w \<in> set ?ws. w \<le> Suc ?b"
            using slots_le_taken [of _ ?ws] R(2) weight_within [OF _ t(2)] by auto
          then have "\<forall>w \<in> set (?ws @ [?hb + 1]). w \<le> ?b + 1" using lw by auto
          moreover have "taken (?ws @ [?hb + 1]) = 2 ^ (?b + 1)" using lw(2) R(2) by simp
          moreover have "length (?ws @ [?hb + 1]) \<le> 256" using w by (simp add: weights_of_def)
          ultimately have wo: "2 \<le> count_list (?ws @ [?hb + 1]) 1 \<Longrightarrow> weights_ok (?ws @ [?hb + 1]) (?b + 1)"
            using ok by (simp add: weights_ok_def HUF_TABLELOG_MAX_def)
          have "stats_ok src (?hw, ?rank, n + 1, ?b + 1, i + 1)" if "2 \<le> count_list (?ws @ [?hb + 1]) 1"
            using wo [OF that] R' w unfolding stats_ok_def prod.case ws by simp
          then show ?thesis
            unfolding hb Let_def and_then.simps u b o1 using ok True by (simp add: HUF_TABLELOG_MAX_def)
        qed (use ok hb in \<open>simp add: Let_def HUF_TABLELOG_MAX_def\<close>)
      qed (auto simp: HUF_TABLELOG_MAX_def)
      then show ?thesis unfolding read_stats_def if_not_P [OF False] Ok r and_then.simps prod.case ir L st .
    qed (use A in \<open>simp_all add: read_stats_def Ok r ir False\<close>)
  qed (use read_weights_meets [OF assms False] in \<open>simp_all add: read_stats_def False\<close>)
qed (simp add: read_stats_def)

end
