(* ===== verification/Huff0Decode.thy ===== *)
theory Huff0Decode
  imports Huff0Table
begin

section \<open>Decoding Huffman streams (entropy/huff0.rs)\<close>

text \<open>
  The decoders of \<open>src/src/entropy/huff0.rs\<close>: one stream or four, with the table of single symbols
  or of symbol pairs. An unchecked access to the table or the output is checked here and a
  violation is a \<open>Fault\<close>; the four cursors and readers of the four-stream decoders are kept
  side by side. The pair table is written by slices that are taken with checked bounds, as the
  code does; its two-byte stores need two bytes of room.
\<close>

subsection \<open>Single symbols\<close>

definition decode_symbol_x1 :: "delt_x1 list \<Rightarrow> nat \<Rightarrow> dstream \<Rightarrow> (u8 \<times> dstream) result" where
  "decode_symbol_x1 table table_log s =
     and_then (look_bits_fast s table_log) (\<lambda>v.
     and_then (idx table (unat v)) (\<lambda>entry. Ok (x1_byte entry, skip_bits s (x1_nb_bits entry))))"

text \<open>Decode into the position and advance.\<close>

definition put_x1 :: "delt_x1 list \<Rightarrow> nat \<Rightarrow> bytes \<times> usize \<times> dstream \<Rightarrow> (bytes \<times> usize \<times> dstream) result" where
  "put_x1 table table_log st =
     (case st of (dst, pos, s) \<Rightarrow>
      and_then (decode_symbol_x1 table table_log s) (\<lambda>(b, s).
      and_then (upd dst pos b) (\<lambda>dst. Ok (dst, pos + 1, s))))"

definition put4_x1 :: "delt_x1 list \<Rightarrow> nat \<Rightarrow> bytes \<times> usize \<times> dstream \<Rightarrow> (bytes \<times> usize \<times> dstream) result" where
  "put4_x1 table table_log st =
     and_then (put_x1 table table_log st) (\<lambda>st. and_then (put_x1 table table_log st) (\<lambda>st.
     and_then (put_x1 table table_log st) (put_x1 table table_log)))"

lemma put_x1_pos: "put_x1 table log (dst, pos, s) = Ok (dst', pos', s') \<Longrightarrow> pos' = pos + 1 \<and> length dst' = length dst"
  by (auto simp: put_x1_def)

lemma put4_x1_pos: "put4_x1 table log (dst, pos, s) = Ok (dst', pos', s') \<Longrightarrow> pos' = pos + 4 \<and> length dst' = length dst"
  by (auto simp: put4_x1_def dest!: put_x1_pos)

function stream_x1_quads :: "delt_x1 list \<Rightarrow> nat \<Rightarrow> usize \<Rightarrow> bytes \<times> usize \<times> dstream \<Rightarrow> (bytes \<times> usize \<times> dstream) result" where
  "stream_x1_quads table table_log end_pos (dst, pos, s) =
     and_then (reload s) (\<lambda>(t, s).
       if t = Unfinished \<and> pos < end_pos - 3
       then and_then (put4_x1 table table_log (dst, pos, s)) (stream_x1_quads table table_log end_pos)
       else Ok (dst, pos, s))"
  by pat_completeness auto
termination
  by (relation "measure (\<lambda>(table, log, end_pos, (dst, pos, s)). end_pos - pos)") (auto dest!: put4_x1_pos)

declare stream_x1_quads.simps [simp del]

function stream_x1_rest :: "delt_x1 list \<Rightarrow> nat \<Rightarrow> usize \<Rightarrow> bytes \<times> usize \<times> dstream \<Rightarrow> (bytes \<times> usize \<times> dstream) result" where
  "stream_x1_rest table table_log end_pos (dst, pos, s) =
     (if pos < end_pos
      then and_then (put_x1 table table_log (dst, pos, s)) (stream_x1_rest table table_log end_pos)
      else Ok (dst, pos, s))"
  by pat_completeness auto
termination
  by (relation "measure (\<lambda>(table, log, end_pos, (dst, pos, s)). end_pos - pos)") (auto dest!: put_x1_pos)

declare stream_x1_rest.simps [simp del]

definition decode_stream_x1 :: "delt_x1 list \<Rightarrow> nat \<Rightarrow> usize \<Rightarrow> bytes \<times> usize \<times> dstream \<Rightarrow> (bytes \<times> usize \<times> dstream) result" where
  "decode_stream_x1 table table_log end_pos st =
     and_then (stream_x1_quads table table_log end_pos st) (stream_x1_rest table table_log end_pos)"

definition decompress_1x1_using_dtable :: "bytes \<Rightarrow> bytes \<Rightarrow> dtable_x1 \<Rightarrow> (bytes \<times> usize) result" where
  "decompress_1x1_using_dtable dst src dt =
     and_then (dstream_new src) (\<lambda>s.
     and_then (decode_stream_x1 (x1_entries dt) (x1_table_log dt) (length dst) (dst, 0, s)) (\<lambda>(dst, written, s).
       if written \<noteq> length dst \<or> \<not> end_of_stream s
       then Err (Corruption ''Huff0 stream did not terminate cleanly'') else Ok (dst, written)))"

subsection \<open>Four streams\<close>

text \<open>A cursor into the output with the reader of its segment.\<close>

type_synonym lane = "usize \<times> dstream"

record four =
  lane1 :: lane
  lane2 :: lane
  lane3 :: lane
  lane4 :: lane

text \<open>Opening the segments: the readers and where each segment of the output starts.\<close>

definition open_four :: "usize \<Rightarrow> bytes \<Rightarrow> (four \<times> usize \<times> usize \<times> usize) result" where
  "open_four dst_len src =
     (if length src < 10 then Err (Corruption ''truncated Huff0 4X stream'')
      else if dst_len < 6 then Err (Corruption ''Huff0 4X output too small to split'') else
      and_then (read_segment_length src 0) (\<lambda>length1.
      and_then (read_segment_length src 2) (\<lambda>length2.
      and_then (read_segment_length src 4) (\<lambda>length3.
      if length src < length1 + length2 + length3 + 6 then Err (Corruption ''invalid Huff0 4X segment lengths'') else
      let istart1 = 6; istart2 = istart1 + length1; istart3 = istart2 + length2; istart4 = istart3 + length3;
          segment_size = (dst_len + 3) div 4 in
      and_then (and_then (idx_range src istart1 istart2) dstream_new) (\<lambda>s1.
      and_then (and_then (idx_range src istart2 istart3) dstream_new) (\<lambda>s2.
      and_then (and_then (idx_range src istart3 istart4) dstream_new) (\<lambda>s3.
      and_then (and_then (idx_from src istart4) dstream_new) (\<lambda>s4.
      let op_start2 = segment_size; op_start3 = op_start2 + segment_size; op_start4 = op_start3 + segment_size in
      if dst_len < op_start4 then Err (Corruption ''Huff0 4X segment starts past the output'') else
        Ok (\<lparr>lane1 = (0, s1), lane2 = (op_start2, s2), lane3 = (op_start3, s3), lane4 = (op_start4, s4)\<rparr>,
            op_start2, op_start3, op_start4)))))))))"

text \<open>One entry of each stream, in turn.\<close>

definition four_round ::
    "(bytes \<times> usize \<times> dstream \<Rightarrow> (bytes \<times> usize \<times> dstream) result) \<Rightarrow> bytes \<times> four \<Rightarrow> (bytes \<times> four) result" where
  "four_round put st =
     (case st of (dst, f) \<Rightarrow>
      and_then (put (dst, lane1 f)) (\<lambda>(dst, l1). and_then (put (dst, lane2 f)) (\<lambda>(dst, l2).
      and_then (put (dst, lane3 f)) (\<lambda>(dst, l3). and_then (put (dst, lane4 f)) (\<lambda>(dst, l4).
        Ok (dst, \<lparr>lane1 = l1, lane2 = l2, lane3 = l3, lane4 = l4\<rparr>))))))"

definition round_x1 :: "delt_x1 list \<Rightarrow> nat \<Rightarrow> bytes \<times> four \<Rightarrow> (bytes \<times> four) result" where
  "round_x1 table table_log = four_round (put_x1 table table_log)"

definition reload_lane :: "lane \<Rightarrow> (bool \<times> lane) result" where
  "reload_lane l = (case l of (op, s) \<Rightarrow> and_then (reload_fast s) (\<lambda>(t, s). Ok (t = Unfinished, (op, s))))"

definition reload_four :: "four \<Rightarrow> (bool \<times> four) result" where
  "reload_four f =
     and_then (reload_lane (lane1 f)) (\<lambda>(b1, l1). and_then (reload_lane (lane2 f)) (\<lambda>(b2, l2).
     and_then (reload_lane (lane3 f)) (\<lambda>(b3, l3). and_then (reload_lane (lane4 f)) (\<lambda>(b4, l4).
       Ok (b1 \<and> b2 \<and> b3 \<and> b4, \<lparr>lane1 = l1, lane2 = l2, lane3 = l3, lane4 = l4\<rparr>)))))"

definition rounds4 :: "('s \<Rightarrow> 's result) \<Rightarrow> 's \<Rightarrow> 's result" where
  "rounds4 f st = and_then (f st) (\<lambda>st. and_then (f st) (\<lambda>st. and_then (f st) f))"

text \<open>The main loop, with the number of rounds that the output has room for as fuel.\<close>

fun four_x1_loop :: "nat \<Rightarrow> delt_x1 list \<Rightarrow> nat \<Rightarrow> usize \<Rightarrow> bool \<Rightarrow> bytes \<times> four \<Rightarrow> (bytes \<times> four) result" where
  "four_x1_loop fuel table table_log olimit signal (dst, f) =
     (if signal \<and> fst (lane4 f) < olimit then
        (case fuel of 0 \<Rightarrow> Fault | Suc fuel \<Rightarrow>
          and_then (rounds4 (round_x1 table table_log) (dst, f)) (\<lambda>(dst, f).
          and_then (reload_four f) (\<lambda>(signal, f). four_x1_loop fuel table table_log olimit signal (dst, f))))
      else Ok (dst, f))"

declare four_x1_loop.simps [simp del]

text \<open>The end of the four-stream decoders: each segment to its end, then the readers must be used up.\<close>

definition finish_four ::
    "(usize \<Rightarrow> bytes \<times> lane \<Rightarrow> (bytes \<times> lane) result) \<Rightarrow> usize \<times> usize \<times> usize \<Rightarrow> bytes \<times> four \<Rightarrow> (bytes \<times> usize) result" where
  "finish_four decode starts st =
     (case starts of (op_start2, op_start3, op_start4) \<Rightarrow> case st of (dst, f) \<Rightarrow>
      if op_start2 < fst (lane1 f) \<or> op_start3 < fst (lane2 f) \<or> op_start4 < fst (lane3 f)
      then Err (Corruption ''Huff0 segment overrun'') else
      and_then (decode op_start2 (dst, lane1 f)) (\<lambda>(dst, op1, s1).
      and_then (decode op_start3 (dst, lane2 f)) (\<lambda>(dst, op2, s2).
      and_then (decode op_start4 (dst, lane3 f)) (\<lambda>(dst, op3, s3).
      and_then (decode (length dst) (dst, lane4 f)) (\<lambda>(dst, op4, s4).
      if \<not> (op1 = op_start2 \<and> op2 = op_start3 \<and> op3 = op_start4 \<and> op4 = length dst) then Fault
      else if \<not> end_of_stream s1 \<or> \<not> end_of_stream s2 \<or> \<not> end_of_stream s3 \<or> \<not> end_of_stream s4
      then Err (Corruption ''Huff0 stream did not consume all bits'') else Ok (dst, length dst))))))"

definition decompress_4x1_using_dtable :: "bytes \<Rightarrow> bytes \<Rightarrow> dtable_x1 \<Rightarrow> (bytes \<times> usize) result" where
  "decompress_4x1_using_dtable dst src dt =
     and_then (open_four (length dst) src) (\<lambda>(f, starts).
     and_then (four_x1_loop (length dst) (x1_entries dt) (x1_table_log dt) (length dst - 3) True (dst, f))
       (finish_four (decode_stream_x1 (x1_entries dt) (x1_table_log dt)) starts))"

end
