(* ===== verification/Huff0X1.thy ===== *)
theory Huff0X1
  imports Huff0Stats Huff0Decode
begin

section \<open>The layout of the single-symbol table (entropy/huff0.rs)\<close>

text \<open>
  What \<open>read_dtable_x1\<close> builds: the symbols by increasing weight, and by number within a weight, each over
  as many slots as its weight takes. The loop over the symbols keeps one cursor for each
  weight, so the invariant says of each weight how much of its block is in place.
\<close>

definition entry_x1 :: "nat \<Rightarrow> nat \<Rightarrow> nat \<Rightarrow> delt_x1" where
  "entry_x1 log w i = \<lparr>x1_byte = word_of_nat i, x1_nb_bits = log + 1 - w\<rparr>"

definition block_x1 :: "nat list \<Rightarrow> nat \<Rightarrow> nat \<Rightarrow> nat \<Rightarrow> delt_x1 list" where
  "block_x1 ws log n w =
     concat (map (\<lambda>i. replicate (slots_of w) (entry_x1 log w i)) (filter (\<lambda>i. ws ! i = w) [0..<n]))"

definition base_of_rank :: "nat list \<Rightarrow> nat \<Rightarrow> nat" where
  "base_of_rank ws w = (\<Sum>v<w. slots_of v * count_list ws v)"

definition canonical_x1 :: "nat list \<Rightarrow> nat \<Rightarrow> delt_x1 list" where
  "canonical_x1 ws log = concat (map (block_x1 ws log (length ws)) [1..<log + 1])"

text \<open>Where the slots of a symbol start.\<close>

definition slot_start :: "nat list \<Rightarrow> nat \<Rightarrow> nat" where
  "slot_start ws i = base_of_rank ws (ws ! i) + slots_of (ws ! i) * count_list (take i ws) (ws ! i)"

definition dtable_x1_ok :: "nat list \<Rightarrow> nat \<Rightarrow> dtable_x1 \<Rightarrow> bool" where
  "dtable_x1_ok ws log dt \<longleftrightarrow> x1_table_log dt = log \<and> length (x1_entries dt) = DTABLE_X1_SIZE
     \<and> take (2 ^ log) (x1_entries dt) = canonical_x1 ws log"

subsection \<open>Blocks\<close>

lemma base_of_rank_Suc: "base_of_rank ws (Suc w) = base_of_rank ws w + slots_of w * count_list ws w"
  by (simp add: base_of_rank_def)

lemma base_of_rank_simps [simp]: "base_of_rank ws 0 = 0" "base_of_rank ws (Suc 0) = 0"
  by (simp_all add: base_of_rank_def)

lemma base_of_rank_mono: "v \<le> w \<Longrightarrow> base_of_rank ws v \<le> base_of_rank ws w"
  unfolding base_of_rank_def by (rule sum_mono2) auto

lemma base_of_rank_Cons:
  "base_of_rank (w # ws) k = base_of_rank ws k + (if w < k then slots_of w else 0)"
  by (induction k) (auto simp: base_of_rank_Suc algebra_simps less_Suc_eq)

lemma base_of_rank_taken: "\<forall>w \<in> set ws. w < k \<Longrightarrow> base_of_rank ws k = taken ws"
  by (induction ws) (simp_all add: base_of_rank_Cons, simp add: base_of_rank_def)

lemma base_of_rank_le:
  assumes "weights_ok ws log" and "w \<le> log + 1"
  shows "base_of_rank ws w \<le> 2 ^ log" and "base_of_rank ws (log + 1) = 2 ^ log"
proof -
  have "\<forall>w \<in> set ws. w < log + 1" using assms(1) by (auto simp: weights_ok_def less_Suc_eq_le)
  then show t: "base_of_rank ws (log + 1) = 2 ^ log" using base_of_rank_taken assms(1) by (simp add: weights_ok_def)
  show "base_of_rank ws w \<le> 2 ^ log" using base_of_rank_mono [OF assms(2)] t by metis
qed

lemma block_x1_0 [simp]: "block_x1 ws log 0 w = []"
  by (simp add: block_x1_def)

lemma block_x1_Suc:
  "block_x1 ws log (Suc n) w = block_x1 ws log n w @ (if ws ! n = w then replicate (slots_of w) (entry_x1 log w n) else [])"
  by (simp add: block_x1_def)

lemma count_take_step:
  "n < length ws \<Longrightarrow> count_list (take (Suc n) ws) w = count_list (take n ws) w + (if ws ! n = w then 1 else 0)"
  by (simp add: take_Suc_conv_app_nth)

lemma length_block_x1: "n \<le> length ws \<Longrightarrow> length (block_x1 ws log n w) = slots_of w * count_list (take n ws) w"
  by (induction n) (simp_all add: block_x1_Suc count_take_step)

lemma count_take_mono: "n \<le> m \<Longrightarrow> count_list (take n ws) w \<le> count_list (take m ws) w"
proof -
  assume "n \<le> m"
  then obtain ys where "take m ws = take n ws @ ys" by (metis le_add_diff_inverse take_add)
  then show ?thesis by simp
qed

lemma length_block_x1_le:
  assumes "n \<le> length ws"
  shows "base_of_rank ws w + length (block_x1 ws log n w) \<le> base_of_rank ws (Suc w)"
  using count_take_mono [OF assms, of ws w] by (simp add: length_block_x1 [OF assms] base_of_rank_Suc)

lemma block_x1_nth:
  assumes "i < n" and "n \<le> length ws" and "ws ! i = w" and "p < slots_of w"
  shows "block_x1 ws log n w ! (slots_of w * count_list (take i ws) w + p) = entry_x1 log w i"
  using assms(1,2)
proof (induction n)
  case (Suc n)
  show ?case
  proof (cases "i = n")
    case True
    then show ?thesis using Suc.prems assms(3,4) by (simp add: block_x1_Suc nth_append length_block_x1)
  next
    case False
    have "count_list (take (Suc i) ws) w \<le> count_list (take n ws) w" using False Suc.prems by (intro count_take_mono) simp
    then have "Suc (count_list (take i ws) w) \<le> count_list (take n ws) w" using assms(3) Suc.prems by (simp add: count_take_step)
    then have "slots_of w * Suc (count_list (take i ws) w) \<le> slots_of w * count_list (take n ws) w" by (rule mult_le_mono2)
    then have "slots_of w * count_list (take i ws) w + p < length (block_x1 ws log n w)"
      using Suc.prems assms(4) by (simp add: length_block_x1)
    then show ?thesis using Suc False by (simp add: block_x1_Suc nth_append)
  qed
qed simp

lemma set_block_x1: "e \<in> set (block_x1 ws log n w) \<Longrightarrow> \<exists>i < n. ws ! i = w \<and> e = entry_x1 log w i"
  by (auto simp: block_x1_def)

subsection \<open>The cursors\<close>

lemma rank_starts_x1:
  assumes "weights_ok ws log" and "ranks_of ws rank"
  shows "\<exists>rv nxt. loop_over rank_start_x1 [1..<log + 1] (rank, 0) = Ok (rv, nxt)
    \<and> length rv = 13 \<and> rv ! 0 = count_list ws 0 \<and> (\<forall>w. 1 \<le> w \<and> w \<le> log \<longrightarrow> rv ! w = base_of_rank ws w)"
proof -
  let ?I = "\<lambda>i (rv, nxt). nxt = base_of_rank ws i \<and> length rv = 13
    \<and> (\<forall>w \<le> 12. rv ! w = (if 1 \<le> w \<and> w < i then base_of_rank ws w else count_list ws w))"
  have "\<exists>s'. loop_over rank_start_x1 [1..<log + 1] (rank, 0) = Ok s' \<and> ?I (log + 1) s'"
  proof (rule loop_from_Ok [where I = ?I])
    fix i s assume i: "1 \<le> i" "i < log + 1" and I: "?I i (s :: nat list \<times> nat)"
    obtain rv where s: "s = (rv, base_of_rank ws i)" and rv: "length rv = 13"
      "\<forall>w \<le> 12. rv ! w = (if 1 \<le> w \<and> w < i then base_of_rank ws w else count_list ws w)" using I by (cases s) simp
    have log: "log \<le> 12" using assms(1) by (simp add: weights_ok_def HUF_TABLELOG_MAX_def)
    have r: "idx rv i = Ok (count_list ws i)" using rv i log by simp
    have p: "count_list ws i * 2 ^ (i - 1) = slots_of i * count_list ws i" using i by (simp add: slots_of_pos)
    have "base_of_rank ws (Suc i) \<le> 2 ^ log" using base_of_rank_le(1) [OF assms(1)] i by simp
    also have "(2 :: nat) ^ log \<le> 2 ^ 12" using log by (rule power_increasing) simp
    also have "(2 :: nat) ^ 12 < 2 ^ 32" by simp
    finally have b: "base_of_rank ws i + slots_of i * count_list ws i < 2 ^ 32" by (simp only: base_of_rank_Suc)
    then have c: "cast_u32 (slots_of i * count_list ws i) = slots_of i * count_list ws i"
      unfolding cast_u32_def by (intro mod_less) (rule le_less_trans [OF le_add2])
    have "rank_start_x1 i s = Ok (rv[i := base_of_rank ws i], base_of_rank ws (Suc i))"
      unfolding rank_start_x1_def s prod.case r and_then.simps p c add_u32_def if_P [OF b] base_of_rank_Suc
      using rv(1) i log by simp
    then show "\<exists>s'. rank_start_x1 i s = Ok s' \<and> ?I (Suc i) s'"
      using rv i log by (auto simp: nth_list_update less_Suc_eq)
  qed (use assms(2) in \<open>auto simp: ranks_of_def\<close>)
  then show ?thesis using assms(1) by (fastforce simp: weights_ok_def HUF_TABLELOG_MAX_def)
qed

subsection \<open>Filling the table\<close>

lemma copied_nth:
  assumes "start + k \<le> length xs" and "p < length xs"
  shows "(take start xs @ replicate k e @ drop (start + k) xs) ! p = (if start \<le> p \<and> p < start + k then e else xs ! p)"
  using assms by (auto simp: nth_append)

definition fill_inv :: "nat list \<Rightarrow> nat \<Rightarrow> nat \<Rightarrow> delt_x1 list \<times> nat list \<Rightarrow> bool" where
  "fill_inv ws log n st \<longleftrightarrow> (case st of (es, rv) \<Rightarrow> length es = DTABLE_X1_SIZE \<and> length rv = 13 \<and> rv ! 0 \<le> 256
     \<and> (\<forall>w. 1 \<le> w \<and> w \<le> log \<longrightarrow> rv ! w = base_of_rank ws w + length (block_x1 ws log n w)
          \<and> (\<forall>p < length (block_x1 ws log n w). es ! (base_of_rank ws w + p) = block_x1 ws log n w ! p)))"

lemma fill_symbol_step:
  assumes ok: "weights_ok ws log" and i: "i < length ws" and hw: "hw ! i = word_of_nat (ws ! i)" "i < length hw"
    and I: "fill_inv ws log i st"
  shows "\<exists>st'. fill_symbol_x1 log hw i st = Ok st' \<and> fill_inv ws log (Suc i) st'"
proof -
  obtain es rv where st: "st = (es, rv)" by (cases st)
  let ?w = "ws ! i"
  have L: "log \<le> 12" "?w \<le> log" using ok i by (simp_all add: weights_ok_def HUF_TABLELOG_MAX_def)
  have len: "length es = DTABLE_X1_SIZE" "length rv = 13" "rv ! 0 \<le> 256" using I st by (simp_all add: fill_inv_def)
  have N: "2 ^ log \<le> DTABLE_X1_SIZE" "DTABLE_X1_SIZE = 4096"
    using L by (simp_all add: DTABLE_X1_SIZE_def HUF_TABLELOG_MAX_def power_increasing [of log 12 "2 :: nat", simplified])
  have "?w < 256" using L by simp
  then have w: "idx hw i = Ok (word_of_nat ?w)" "unat (word_of_nat ?w :: u8) = ?w"
    using hw by (simp_all add: unat_word_of_nat_u8)
  have r: "idx rv ?w = Ok (rv ! ?w)" "sub_nat (log + 1) ?w = Ok (log + 1 - ?w)" "(log + 1 - ?w) mod 256 = log + 1 - ?w"
    using L len by (simp_all add: sub_nat_def)
  have room: "rv ! ?w + slots_of ?w \<le> length es"
    and here: "?w \<noteq> 0 \<Longrightarrow> rv ! ?w = base_of_rank ws ?w + length (block_x1 ws log i ?w)
      \<and> base_of_rank ws ?w + length (block_x1 ws log (Suc i) ?w) \<le> base_of_rank ws (Suc ?w)"
  proof -
    show h: "rv ! ?w = base_of_rank ws ?w + length (block_x1 ws log i ?w)
      \<and> base_of_rank ws ?w + length (block_x1 ws log (Suc i) ?w) \<le> base_of_rank ws (Suc ?w)" if "?w \<noteq> 0"
      using that I st L length_block_x1_le [of "Suc i" ws ?w log] i by (simp add: fill_inv_def)
    show "rv ! ?w + slots_of ?w \<le> length es"
    proof (cases "?w = 0")
      case False
      have "base_of_rank ws (Suc ?w) \<le> 2 ^ log" using base_of_rank_le(1) [OF ok] L by simp
      then show ?thesis using h [OF False] N len by (simp add: block_x1_Suc)
    qed (use len N in simp)
  qed
  have c: "cast_u32 (rv ! ?w + slots_of ?w) = rv ! ?w + slots_of ?w"
    using room len N by (simp add: cast_u32_def)
  let ?es = "take (rv ! ?w) es @ replicate (slots_of ?w) (entry_x1 log ?w i) @ drop (rv ! ?w + slots_of ?w) es"
  let ?rv = "rv[?w := rv ! ?w + slots_of ?w]"
  have e: "fill_symbol_x1 log hw i st = Ok (?es, ?rv)"
    unfolding fill_symbol_x1_def st prod.case w and_then.simps Let_def r c slots_of_def [symmetric]
    using room len L by (simp add: copy_into_def entry_x1_def)
  have "fill_inv ws log (Suc i) (?es, ?rv)"
    unfolding fill_inv_def prod.case
  proof (intro conjI allI impI)
    show "length ?es = DTABLE_X1_SIZE" "length ?rv = 13" using room len by simp_all
    show "?rv ! 0 \<le> 256" using len L by (cases "?w = 0") simp_all
    fix v assume v: "1 \<le> v \<and> v \<le> log"
    have I': "rv ! v = base_of_rank ws v + length (block_x1 ws log i v)"
      "\<And>p. p < length (block_x1 ws log i v) \<Longrightarrow> es ! (base_of_rank ws v + p) = block_x1 ws log i v ! p"
      using I v st by (simp_all add: fill_inv_def)
    show "?rv ! v = base_of_rank ws v + length (block_x1 ws log (Suc i) v)"
      using I'(1) v L len by (simp add: block_x1_Suc nth_list_update)
    fix p assume p: "p < length (block_x1 ws log (Suc i) v)"
    have "Suc i \<le> length ws" using i by simp
    note le = length_block_x1_le [OF this, of v log]
    have "base_of_rank ws (Suc v) \<le> 2 ^ log" using base_of_rank_le(1) [OF ok] v by simp
    then have q: "base_of_rank ws v + p < length es" using p le len N by simp
    show "?es ! (base_of_rank ws v + p) = block_x1 ws log (Suc i) v ! p"
    proof (cases "v = ?w")
      case True
      then show ?thesis
        unfolding copied_nth [OF room q] using p I' v by (auto simp: block_x1_Suc nth_append)
    next
      case False
      have p': "p < length (block_x1 ws log i v)" using p False by (simp add: block_x1_Suc)
      have "\<not> (rv ! ?w \<le> base_of_rank ws v + p \<and> base_of_rank ws v + p < rv ! ?w + slots_of ?w)"
      proof (cases "?w = 0")
        case w0: False
        show ?thesis
        proof (cases "v < ?w")
          case True
          then have "base_of_rank ws (Suc v) \<le> base_of_rank ws ?w" by (intro base_of_rank_mono) simp
          then show ?thesis using p le here [OF w0] by simp
        next
          case False2: False
          then have "base_of_rank ws (Suc ?w) \<le> base_of_rank ws v" using False by (intro base_of_rank_mono) simp
          then show ?thesis using here [OF w0] by (simp add: block_x1_Suc)
        qed
      qed simp
      then show ?thesis unfolding copied_nth [OF room q] using I'(2) [OF p'] False by (auto simp: block_x1_Suc)
    qed
  qed
  with e show ?thesis by blast
qed

lemma filled_canonical:
  assumes ok: "weights_ok ws log" and I: "fill_inv ws log (length ws) (es, rv)" and k: "k \<le> log"
  shows "take (base_of_rank ws (Suc k)) es = concat (map (block_x1 ws log (length ws)) [1..<Suc k])"
  using k
proof (induction k)
  case (Suc k)
  let ?b = "block_x1 ws log (length ws) (Suc k)"
  have b: "base_of_rank ws (Suc (Suc k)) = base_of_rank ws (Suc k) + length ?b"
    by (simp add: length_block_x1 base_of_rank_Suc [of ws "Suc k"])
  have es: "length es = DTABLE_X1_SIZE" "\<forall>p < length ?b. es ! (base_of_rank ws (Suc k) + p) = ?b ! p"
    using I Suc.prems by (simp_all add: fill_inv_def)
  have "base_of_rank ws (Suc (Suc k)) \<le> 2 ^ log" using base_of_rank_le(1) [OF ok] Suc.prems by simp
  also have "2 ^ log \<le> DTABLE_X1_SIZE"
    using ok unfolding DTABLE_X1_SIZE_def weights_ok_def by (intro power_increasing) simp_all
  finally have "base_of_rank ws (Suc k) + length ?b \<le> length es" using es(1) b by simp
  then have "take (length ?b) (drop (base_of_rank ws (Suc k)) es) = ?b" using es(2) by (intro nth_equalityI) simp_all
  then show ?case unfolding b take_add using Suc by simp
qed simp

lemma read_dtable_x1_spec:
  assumes "length (x1_entries dt) = DTABLE_X1_SIZE"
  shows "(\<exists>e. read_stats (replicate 256 0) src = Err e \<and> read_dtable_x1 src dt = Err e)
    \<or> (\<exists>hw rank n log used dt'. read_stats (replicate 256 0) src = Ok (hw, rank, n, log, used) \<and> used \<le> length src
         \<and> weights_ok (weights_of hw n) log \<and> read_dtable_x1 src dt = Ok (dt', used) \<and> dtable_x1_ok (weights_of hw n) log dt')"
proof -
  have S: "meets (read_stats (replicate 256 0) src) (stats_ok src)" by (rule read_stats_meets) simp
  show ?thesis
  proof (cases "read_stats (replicate 256 0) src")
    case (Ok r)
    obtain hw rank n log used where r: "r = (hw, rank, n, log, used)" by (cases r)
    let ?ws = "weights_of hw n"
    have ok: "weights_ok ?ws log" "ranks_of ?ws rank" "length hw = 256" "n \<le> 256" "used \<le> length src"
      using S Ok r by (simp_all add: stats_ok_def)
    have L: "log \<le> 12" using ok(1) by (simp add: weights_ok_def HUF_TABLELOG_MAX_def)
    have N: "2 ^ log \<le> length (x1_entries dt)"
      using L unfolding assms DTABLE_X1_SIZE_def HUF_TABLELOG_MAX_def by (intro power_increasing) simp_all
    from rank_starts_x1 [OF ok(1,2)] obtain rv nxt where rv:
      "loop_over rank_start_x1 [1..<log + 1] (rank, 0) = Ok (rv, nxt)" "length rv = 13" "rv ! 0 = count_list ?ws 0"
      "\<forall>w. 1 \<le> w \<and> w \<le> log \<longrightarrow> rv ! w = base_of_rank ?ws w" by blast
    have n: "length ?ws = n" using ok by (simp add: weights_of_def)
    have "fill_inv ?ws log 0 (x1_entries dt, rv)"
      using rv assms count_le_length [of ?ws 0] n ok(4) by (auto simp: fill_inv_def)
    then have "\<exists>s'. loop_over (fill_symbol_x1 log hw) [0..<n] (x1_entries dt, rv) = Ok s' \<and> fill_inv ?ws log n s'"
      by (intro loop_upt_Ok fill_symbol_step [OF ok(1)])
        (use n ok in \<open>simp_all add: weights_of_def\<close>)
    then obtain es rv' where es: "loop_over (fill_symbol_x1 log hw) [0..<n] (x1_entries dt, rv) = Ok (es, rv')"
      "fill_inv ?ws log n (es, rv')" by (metis surj_pair)
    have "take (2 ^ log) es = canonical_x1 ?ws log"
      using filled_canonical [OF ok(1), of es rv' log] es(2) n base_of_rank_le(2) [OF ok(1), of 0]
      by (simp add: canonical_x1_def)
    moreover have "length es = DTABLE_X1_SIZE" using es(2) by (simp add: fill_inv_def)
    ultimately have d: "dtable_x1_ok ?ws log \<lparr>x1_table_log = log mod 256, x1_entries = es\<rparr>"
      using L by (simp add: dtable_x1_ok_def)
    have R: "read_dtable_x1 src dt = Ok (\<lparr>x1_table_log = log mod 256, x1_entries = es\<rparr>, used)"
      unfolding read_dtable_x1_def HUF_SYMBOLVALUE_MAX_def
      using Ok N by (simp add: r rv(1) [simplified] es(1))
    show ?thesis unfolding R using ok(1,5) d Ok r by blast
  qed (use S in \<open>simp_all add: read_dtable_x1_def HUF_SYMBOLVALUE_MAX_def\<close>)
qed

lemma read_dtable_x1_meets:
  assumes "length (x1_entries dt) = DTABLE_X1_SIZE"
  shows "meets (read_dtable_x1 src dt) (\<lambda>(dt', used). used \<le> length src
    \<and> (\<exists>hw rank n log. read_stats (replicate 256 0) src = Ok (hw, rank, n, log, used)
         \<and> weights_ok (weights_of hw n) log \<and> dtable_x1_ok (weights_of hw n) log dt'))"
  using read_dtable_x1_spec [OF assms, of src] by auto

end
