(* ===== verification/Huff0Pairs.thy ===== *)
theory Huff0Pairs
  imports Huff0Decode
begin

section \<open>The table of symbol pairs (entropy/huff0.rs)\<close>

text \<open>
  The double-symbol decoder of \<open>src/src/entropy/huff0.rs\<close>: an entry emits one symbol or two, so the
  cursors of a group of entries move by different amounts. Building fills slices that are
  taken with checked bounds, nested for the second symbols; a shift or a difference out of range is a
  fault. The decoding loops stop because an entry emits at least one byte; they carry the room
  they have as fuel, and running out would be a loop that never ends.
\<close>

definition DECODER_FAST_TABLELOG :: nat where "DECODER_FAST_TABLELOG = 11"
definition DTABLE_X2_SIZE :: nat where "DTABLE_X2_SIZE = 2 ^ HUF_TABLELOG_MAX"

record delt_x2 =
  x2_sequence :: nat
  x2_nb_bits :: nat
  x2_length :: nat

record dtable_x2 =
  x2_table_log :: nat
  x2_entries :: "delt_x2 list"

definition dtable_x2_default :: dtable_x2 where
  "dtable_x2_default =
     \<lparr>x2_table_log = 0, x2_entries = replicate DTABLE_X2_SIZE \<lparr>x2_sequence = 0, x2_nb_bits = 0, x2_length = 0\<rparr>\<rparr>"

definition build_delt_x2 :: "u8 \<Rightarrow> nat \<Rightarrow> u8 \<Rightarrow> nat \<Rightarrow> delt_x2 result" where
  "build_delt_x2 symbol nb_bits base_symbol level =
     (if \<not> (level = 1 \<or> level = 2) then Fault else
      let sequence = (if level = 1 then unat symbol else unat base_symbol + 256 * unat symbol)
      in Ok \<lparr>x2_sequence = sequence, x2_nb_bits = nb_bits mod 256, x2_length = level\<rparr>)"

text \<open>\<open>get_mut(a..b)\<close> with the error for a range that does not fit, and what is done to the slice.\<close>

definition on_slice :: "'a list \<Rightarrow> usize \<Rightarrow> usize \<Rightarrow> error \<Rightarrow> ('a list \<Rightarrow> 'a list result) \<Rightarrow> 'a list result" where
  "on_slice xs a b e f =
     (if a \<le> b \<and> b \<le> length xs
      then and_then (f (take (b - a) (drop a xs))) (\<lambda>ys. Ok (take a xs @ ys @ drop b xs)) else Err e)"

definition fill_slots :: "'a \<Rightarrow> 'a list \<Rightarrow> 'a list result" where
  "fill_slots x xs = Ok (map (\<lambda>_. x) xs)"

definition put_run_x2 ::
    "nat \<Rightarrow> nat \<Rightarrow> u8 \<Rightarrow> nat \<Rightarrow> u8 \<Rightarrow> delt_x2 list \<times> usize \<Rightarrow> (delt_x2 list \<times> usize) result" where
  "put_run_x2 len nb_bits base_symbol level symbol st =
     (case st of (slots, at) \<Rightarrow>
      and_then (build_delt_x2 symbol nb_bits base_symbol level) (\<lambda>entry.
      and_then (ok_or (checked_add at len) (Corruption ''Huff0 X2 rank overflows the table'')) (\<lambda>end_at.
      and_then (on_slice slots at end_at (Corruption ''Huff0 X2 rank runs past the table'') (fill_slots entry)) (\<lambda>slots.
        Ok (slots, end_at)))))"

definition fill_dtable_x2_for_weight ::
    "delt_x2 list \<Rightarrow> bytes \<Rightarrow> nat \<Rightarrow> nat \<Rightarrow> u8 \<Rightarrow> nat \<Rightarrow> delt_x2 list result" where
  "fill_dtable_x2_for_weight slots symbols nb_bits table_log base_symbol level =
     (if table_log < nb_bits then Err (Corruption ''Huff0 X2 symbol is deeper than its table'') else
      and_then (loop_over (put_run_x2 (2 ^ (table_log - nb_bits)) nb_bits base_symbol level) symbols (slots, 0)) (\<lambda>(slots, _).
        Ok slots))"

text \<open>The symbols of one weight behind a first symbol.\<close>

definition level2_weight ::
    "nat \<Rightarrow> nat \<Rightarrow> nat list \<Rightarrow> bytes \<Rightarrow> nat list \<Rightarrow> nat \<Rightarrow> u8 \<Rightarrow> nat \<Rightarrow> delt_x2 list \<Rightarrow> delt_x2 list result" where
  "level2_weight table_log consumed_bits rank_val sorted_symbols rank_start nb_bits_baseline base_symbol weight sub_table =
     and_then (idx rank_start weight) (\<lambda>begin_at.
     and_then (idx rank_start (weight + 1)) (\<lambda>end_at.
     and_then (sub_nat nb_bits_baseline weight) (\<lambda>nb_bits.
     and_then (idx rank_val weight) (\<lambda>at.
     if length sub_table < at then Err (Corruption ''Huff0 X2 rank starts past the table'') else
     and_then (ok_or (get_range sorted_symbols begin_at end_at) (Corruption ''Huff0 X2 rank bounds are inconsistent'')) (\<lambda>symbols.
       on_slice sub_table at (length sub_table) (Corruption ''Huff0 X2 rank starts past the table'')
         (\<lambda>slots. fill_dtable_x2_for_weight slots symbols (nb_bits + consumed_bits) table_log base_symbol 2))))))"

definition fill_dtable_x2_level2 ::
    "nat \<Rightarrow> nat \<Rightarrow> nat list \<Rightarrow> nat \<Rightarrow> nat \<Rightarrow> bytes \<Rightarrow> nat list \<Rightarrow> nat \<Rightarrow> u8 \<Rightarrow> delt_x2 list \<Rightarrow> delt_x2 list result" where
  "fill_dtable_x2_level2 table_log consumed_bits rank_val min_weight weight_end sorted_symbols rank_start
      nb_bits_baseline base_symbol sub_table =
     and_then (if 1 < min_weight then
                 and_then (ok_or (slice_get rank_val min_weight) (Corruption ''Huff0 X2 weight exceeds the table log'')) (\<lambda>skip.
                 and_then (build_delt_x2 base_symbol consumed_bits 0 1) (\<lambda>entry.
                   on_slice sub_table 0 skip (Corruption ''Huff0 X2 single-symbol run overflows'') (fill_slots entry)))
               else Ok sub_table)
       (loop_over (level2_weight table_log consumed_bits rank_val sorted_symbols rank_start nb_bits_baseline base_symbol)
          [min_weight..<weight_end])"

text \<open>A sub-table for each symbol of a weight.\<close>

definition put_sub_table ::
    "usize \<Rightarrow> (u8 \<Rightarrow> delt_x2 list \<Rightarrow> delt_x2 list result) \<Rightarrow> u8 \<Rightarrow> delt_x2 list \<times> usize \<Rightarrow> (delt_x2 list \<times> usize) result" where
  "put_sub_table len fill symbol st =
     (case st of (entries, start) \<Rightarrow>
      and_then (ok_or (checked_add start len) (Corruption ''Huff0 X2 rank overflows the table'')) (\<lambda>sub_end.
      and_then (on_slice entries start sub_end (Corruption ''Huff0 X2 rank runs past the table'') (fill symbol)) (\<lambda>entries.
        Ok (entries, sub_end))))"

definition level1_weight ::
    "nat \<Rightarrow> bytes \<Rightarrow> nat list \<Rightarrow> nat list list \<Rightarrow> nat \<Rightarrow> nat \<Rightarrow> nat \<Rightarrow> nat \<Rightarrow> delt_x2 list \<Rightarrow> delt_x2 list result" where
  "level1_weight table_log sorted_symbols rank_start rank_val max_weight nb_bits_baseline min_bits weight entries =
     and_then (idx rank_start weight) (\<lambda>begin_at.
     and_then (idx rank_start (weight + 1)) (\<lambda>end_at.
     and_then (sub_nat nb_bits_baseline weight) (\<lambda>nb_bits.
     and_then (ok_or (get_range sorted_symbols begin_at end_at) (Corruption ''Huff0 X2 rank bounds are inconsistent'')) (\<lambda>symbols.
     and_then (idx rank_val 0) (\<lambda>row0.
     and_then (idx row0 weight) (\<lambda>at.
     and_then (sub_nat table_log nb_bits) (\<lambda>left.
     if min_bits \<le> left then
       let min_weight = nat (max (int nb_bits + (int nb_bits_baseline - int table_log)) 1) in
       and_then (loop_over (put_sub_table (2 ^ left) (\<lambda>symbol sub_table.
                   and_then (idx rank_val nb_bits) (\<lambda>row.
                     fill_dtable_x2_level2 table_log nb_bits row min_weight (max_weight + 1) sorted_symbols rank_start
                       nb_bits_baseline symbol sub_table))) symbols (entries, at)) (\<lambda>(entries, _). Ok entries)
     else
       on_slice entries at (length entries) (Corruption ''Huff0 X2 rank starts past the table'')
         (\<lambda>slots. fill_dtable_x2_for_weight slots symbols nb_bits table_log 0 1))))))))"

definition fill_dtable_x2 ::
    "nat \<Rightarrow> bytes \<Rightarrow> nat list \<Rightarrow> nat list list \<Rightarrow> nat \<Rightarrow> nat \<Rightarrow> delt_x2 list \<Rightarrow> delt_x2 list result" where
  "fill_dtable_x2 table_log sorted_symbols rank_start rank_val max_weight nb_bits_baseline entries =
     and_then (sub_nat nb_bits_baseline max_weight) (\<lambda>min_bits.
       loop_over (level1_weight table_log sorted_symbols rank_start rank_val max_weight nb_bits_baseline min_bits)
         [1..<max_weight + 1] entries)"

subsection \<open>Reading the table\<close>

definition start_of_rank :: "nat list \<Rightarrow> nat \<Rightarrow> nat list \<times> nat \<Rightarrow> (nat list \<times> nat) result" where
  "start_of_rank rank_stats weight st =
     (case st of (rank_start, next_start) \<Rightarrow>
      and_then (upd rank_start weight next_start) (\<lambda>rank_start.
      and_then (idx rank_stats weight) (\<lambda>r.
      and_then (add_u32 next_start r) (\<lambda>next_start. Ok (rank_start, next_start)))))"

text \<open>Sorting by weight: the cursors of the ranks, and the one of the absent symbols.\<close>

definition sort_symbol :: "bytes \<Rightarrow> nat \<Rightarrow> bytes \<times> nat list \<times> nat \<Rightarrow> (bytes \<times> nat list \<times> nat) result" where
  "sort_symbol hw symbol st =
     (case st of (ordered, cursor, absent) \<Rightarrow>
      and_then (idx hw symbol) (\<lambda>w.
      if w = 0 then
        and_then (upd ordered absent (word_of_nat symbol)) (\<lambda>ordered.
        and_then (add_u32 absent 1) (\<lambda>absent. Ok (ordered, cursor, absent)))
      else
        and_then (idx cursor (unat w)) (\<lambda>slot.
        and_then (upd ordered slot (word_of_nat symbol)) (\<lambda>ordered.
        and_then (add_u32 slot 1) (\<lambda>slot.
        and_then (upd cursor (unat w) slot) (\<lambda>cursor. Ok (ordered, cursor, absent)))))))"

definition first_row :: "nat list \<Rightarrow> int \<Rightarrow> nat \<Rightarrow> nat list \<times> nat \<Rightarrow> (nat list \<times> nat) result" where
  "first_row rank_stats rescale weight st =
     (case st of (row, next_val) \<Rightarrow>
      and_then (upd row weight next_val) (\<lambda>row.
      and_then (idx rank_stats weight) (\<lambda>r.
      let shift = int weight + rescale in
      if \<not> (0 \<le> shift \<and> shift < 32) then Fault else
      and_then (add_u32 next_val (cast_u32 (r * 2 ^ nat shift))) (\<lambda>next_val. Ok (row, next_val)))))"

definition deeper_cell :: "nat list \<Rightarrow> nat \<Rightarrow> nat \<Rightarrow> nat list \<Rightarrow> nat list result" where
  "deeper_cell row0 consumed weight row = and_then (idx row0 weight) (\<lambda>v. upd row weight (v div 2 ^ consumed))"

definition deeper_row :: "nat \<Rightarrow> nat \<Rightarrow> nat list list \<Rightarrow> nat list list result" where
  "deeper_row max_weight consumed rows =
     and_then (idx rows 0) (\<lambda>row0.
     and_then (idx rows consumed) (\<lambda>row.
     and_then (loop_over (deeper_cell row0 consumed) [1..<max_weight + 1] row) (upd rows consumed)))"

definition read_dtable_x2 :: "bytes \<Rightarrow> dtable_x2 \<Rightarrow> (dtable_x2 \<times> usize) result" where
  "read_dtable_x2 src dt =
     and_then (read_stats (replicate (HUF_SYMBOLVALUE_MAX + 1) 0) src) (\<lambda>(hw, rank_stats, nb_symbols, table_log, i_size).
     if HUF_TABLELOG_MAX < table_log then Err (Corruption ''Huff0 table log exceeds decode table capacity'') else
     let target_log = (if table_log \<le> DECODER_FAST_TABLELOG then DECODER_FAST_TABLELOG else HUF_TABLELOG_MAX) in
     and_then (last_counted Fault rank_stats table_log) (\<lambda>max_weight.
     and_then (loop_over (start_of_rank rank_stats) [1..<max_weight + 1] (replicate (HUF_TABLELOG_MAX + 2) 0, 0)) (\<lambda>(rank_start, next_start).
     and_then (upd rank_start (max_weight + 1) next_start) (\<lambda>rank_start.
     and_then (loop_over (sort_symbol hw) [0..<nb_symbols]
                 (replicate (HUF_SYMBOLVALUE_MAX + 1) 0, rank_start, next_start)) (\<lambda>(sorted_symbols, _, _).
     and_then (loop_over (first_row rank_stats (int target_log - int table_log - 1)) [1..<max_weight + 1]
                 (replicate (HUF_TABLELOG_MAX + 1) 0, 0)) (\<lambda>(row0, next_val).
     if next_val \<noteq> 2 ^ target_log then Err (Corruption ''Huff0 X2 ranks do not tile the table'') else
     and_then (sub_nat (table_log + 1) max_weight) (\<lambda>min_bits.
     if target_log < min_bits then Fault else
     and_then (loop_over (deeper_row max_weight) [min_bits..<target_log - min_bits + 1]
                 (row0 # replicate (HUF_TABLELOG_MAX - 1) (replicate (HUF_TABLELOG_MAX + 1) 0))) (\<lambda>rank_val.
     and_then (idx_range (x2_entries dt) 0 (2 ^ target_log)) (\<lambda>slots.
     and_then (fill_dtable_x2 target_log sorted_symbols rank_start rank_val max_weight (table_log + 1) slots) (\<lambda>slots.
       Ok (\<lparr>x2_table_log = target_log, x2_entries = slots @ drop (2 ^ target_log) (x2_entries dt)\<rparr>, i_size)))))))))))"

subsection \<open>Decoding\<close>

definition put_x2 :: "delt_x2 list \<Rightarrow> nat \<Rightarrow> bytes \<times> usize \<times> dstream \<Rightarrow> (bytes \<times> usize \<times> dstream) result" where
  "put_x2 table table_log st =
     (case st of (dst, pos, s) \<Rightarrow>
      and_then (look_bits_fast s table_log) (\<lambda>v.
      and_then (idx table (unat v)) (\<lambda>entry.
      and_then (copy_into dst pos (le_bytes 2 (x2_sequence entry))) (\<lambda>dst.
        Ok (dst, pos + x2_length entry, skip_bits s (x2_nb_bits entry))))))"

definition put_last_x2 :: "delt_x2 list \<Rightarrow> nat \<Rightarrow> bytes \<times> usize \<times> dstream \<Rightarrow> (bytes \<times> usize \<times> dstream) result" where
  "put_last_x2 table table_log st =
     (case st of (dst, pos, s) \<Rightarrow>
      and_then (look_bits_fast s table_log) (\<lambda>v.
      if \<not> unat v < length table then Fault else
      and_then (idx table (unat v AND (length table - 1))) (\<lambda>entry.
      and_then (upd dst pos (word_of_nat (x2_sequence entry))) (\<lambda>dst.
      let s' = skip_bits s (x2_nb_bits entry);
          s = (if x2_length entry = 1 then s'
               else if bits_consumed s < CONTAINER_BITS
               then (if CONTAINER_BITS < bits_consumed s' then s'\<lparr>bits_consumed := CONTAINER_BITS\<rparr> else s')
               else s)
      in Ok (dst, pos + 1, s)))))"

fun repeat_op :: "nat \<Rightarrow> ('s \<Rightarrow> 's result) \<Rightarrow> 's \<Rightarrow> 's result" where
  "repeat_op 0 f s = Ok s"
| "repeat_op (Suc n) f s = and_then (f s) (repeat_op n f)"

text \<open>Groups of entries while there is room for them and the reader has bits for a group.\<close>

fun groups_x2 ::
    "nat \<Rightarrow> nat \<Rightarrow> nat \<Rightarrow> delt_x2 list \<Rightarrow> nat \<Rightarrow> usize \<Rightarrow> bytes \<times> usize \<times> dstream \<Rightarrow> (bytes \<times> usize \<times> dstream) result" where
  "groups_x2 fuel k room table table_log end_pos (dst, pos, s) =
     and_then (reload s) (\<lambda>(t, s).
       if t = Unfinished \<and> pos + room \<le> end_pos then
         (case fuel of 0 \<Rightarrow> Fault | Suc fuel \<Rightarrow>
           and_then (repeat_op k (put_x2 table table_log) (dst, pos, s)) (groups_x2 fuel k room table table_log end_pos))
       else Ok (dst, pos, s))"

declare groups_x2.simps [simp del]

fun entries_x2 :: "nat \<Rightarrow> delt_x2 list \<Rightarrow> nat \<Rightarrow> usize \<Rightarrow> bytes \<times> usize \<times> dstream \<Rightarrow> (bytes \<times> usize \<times> dstream) result" where
  "entries_x2 fuel table table_log end_pos (dst, pos, s) =
     (if pos + 2 \<le> end_pos then
        (case fuel of 0 \<Rightarrow> Fault | Suc fuel \<Rightarrow>
          and_then (put_x2 table table_log (dst, pos, s)) (entries_x2 fuel table table_log end_pos))
      else Ok (dst, pos, s))"

declare entries_x2.simps [simp del]

definition decode_stream_x2 :: "delt_x2 list \<Rightarrow> nat \<Rightarrow> usize \<Rightarrow> bytes \<times> usize \<times> dstream \<Rightarrow> (bytes \<times> usize \<times> dstream) result" where
  "decode_stream_x2 table table_log end_pos st =
     (case st of (dst, pos, s) \<Rightarrow>
      if \<not> (pos \<le> end_pos \<and> end_pos \<le> length dst) then Fault else
      and_then (if CONTAINER_BYTES \<le> end_pos - pos then
                  (if table_log \<le> DECODER_FAST_TABLELOG then groups_x2 end_pos 5 10 table table_log end_pos st
                   else groups_x2 end_pos 4 CONTAINER_BYTES table table_log end_pos st)
                else and_then (reload s) (\<lambda>(_, s). Ok (dst, pos, s))) (\<lambda>(dst, pos, s).
      and_then (if 2 \<le> end_pos - pos then
                  and_then (groups_x2 end_pos 1 2 table table_log end_pos (dst, pos, s))
                    (entries_x2 end_pos table table_log end_pos)
                else Ok (dst, pos, s)) (\<lambda>(dst, pos, s).
        if pos < end_pos then put_last_x2 table table_log (dst, pos, s) else Ok (dst, pos, s))))"

definition decompress_1x2_using_dtable :: "bytes \<Rightarrow> bytes \<Rightarrow> dtable_x2 \<Rightarrow> (bytes \<times> usize) result" where
  "decompress_1x2_using_dtable dst src dt =
     and_then (dstream_new src) (\<lambda>s.
     and_then (idx_range (x2_entries dt) 0 (2 ^ x2_table_log dt)) (\<lambda>table.
     and_then (decode_stream_x2 table (x2_table_log dt) (length dst) (dst, 0, s)) (\<lambda>(dst, written, s).
       if written \<noteq> length dst \<or> \<not> end_of_stream s
       then Err (Corruption ''Huff0 stream did not terminate cleanly'') else Ok (dst, written))))"

definition round_x2 :: "delt_x2 list \<Rightarrow> nat \<Rightarrow> bytes \<times> four \<Rightarrow> (bytes \<times> four) result" where
  "round_x2 table table_log = four_round (put_x2 table table_log)"

definition lanes_have_room :: "usize \<times> usize \<times> usize \<Rightarrow> usize \<Rightarrow> four \<Rightarrow> bool" where
  "lanes_have_room starts dst_len f \<longleftrightarrow> (case starts of (op_start2, op_start3, op_start4) \<Rightarrow>
     fst (lane1 f) + CONTAINER_BYTES \<le> op_start2 \<and> fst (lane2 f) + CONTAINER_BYTES \<le> op_start3
     \<and> fst (lane3 f) + CONTAINER_BYTES \<le> op_start4 \<and> fst (lane4 f) + CONTAINER_BYTES \<le> dst_len)"

fun four_x2_loop ::
    "nat \<Rightarrow> delt_x2 list \<Rightarrow> nat \<Rightarrow> usize \<times> usize \<times> usize \<Rightarrow> bool \<Rightarrow> bytes \<times> four \<Rightarrow> (bytes \<times> four) result" where
  "four_x2_loop fuel table table_log starts signal (dst, f) =
     (if signal \<and> lanes_have_room starts (length dst) f then
        (case fuel of 0 \<Rightarrow> Fault | Suc fuel \<Rightarrow>
          and_then (rounds4 (round_x2 table table_log) (dst, f)) (\<lambda>(dst, f).
          and_then (reload_four f) (\<lambda>(signal, f). four_x2_loop fuel table table_log starts signal (dst, f))))
      else Ok (dst, f))"

declare four_x2_loop.simps [simp del]

definition decompress_4x2_using_dtable :: "bytes \<Rightarrow> bytes \<Rightarrow> dtable_x2 \<Rightarrow> (bytes \<times> usize) result" where
  "decompress_4x2_using_dtable dst src dt =
     and_then (open_four (length dst) src) (\<lambda>(f, starts).
     and_then (idx_range (x2_entries dt) 0 (2 ^ x2_table_log dt)) (\<lambda>table.
     and_then (four_x2_loop (length dst) table (x2_table_log dt) starts True (dst, f))
       (finish_four (decode_stream_x2 table (x2_table_log dt)) starts)))"

subsection \<open>Choosing the decoder\<close>

definition ALGO_TIME :: "((nat \<times> nat) \<times> (nat \<times> nat)) list" where
  "ALGO_TIME =
     [((0, 0), (1, 1)), ((0, 0), (1, 1)), ((150, 216), (381, 119)), ((170, 205), (514, 112)),
      ((177, 199), (539, 110)), ((197, 194), (644, 107)), ((221, 192), (735, 107)), ((256, 189), (881, 106)),
      ((359, 188), (1167, 109)), ((582, 187), (1570, 114)), ((688, 187), (1712, 122)), ((825, 186), (1965, 136)),
      ((976, 185), (2131, 150)), ((1180, 186), (2070, 175)), ((1377, 185), (1731, 202)), ((1412, 185), (1695, 202))]"

definition prefers_double_symbol_decoder :: "usize \<Rightarrow> usize \<Rightarrow> bool result" where
  "prefers_double_symbol_decoder regenerated_size compressed_size =
     (if regenerated_size = 0 then Ok False
      else if \<not> (regenerated_size \<le> compressed_size \<or> compressed_size * 16 \<le> usize_max) then Fault else
      let quantized = (if regenerated_size \<le> compressed_size then 15 else compressed_size * 16 div regenerated_size);
          per_256 = regenerated_size div 256 in
      and_then (idx ALGO_TIME quantized) (\<lambda>((single_build, single_rate), (double_build, double_rate)).
      and_then (mul_u64 single_rate per_256) (\<lambda>a. and_then (mul_u64 double_rate per_256) (\<lambda>b.
      let single = single_build + a; double = double_build + b in
      if 2 ^ 64 \<le> single \<or> 2 ^ 64 \<le> double + double div 32 then Fault else Ok (double + double div 32 < single)))))"

datatype huffman_dtable = Single dtable_x1 | Double dtable_x2

definition single_slot :: "huffman_dtable option \<Rightarrow> dtable_x1" where
  "single_slot slot = (case slot of Some (Single t) \<Rightarrow> t | _ \<Rightarrow> dtable_x1_default)"

definition double_slot :: "huffman_dtable option \<Rightarrow> dtable_x2" where
  "double_slot slot = (case slot of Some (Double t) \<Rightarrow> t | _ \<Rightarrow> dtable_x2_default)"

definition decompress_1x_using_dtable :: "bytes \<Rightarrow> bytes \<Rightarrow> huffman_dtable \<Rightarrow> (bytes \<times> usize) result" where
  "decompress_1x_using_dtable dst src dt =
     (case dt of Single t \<Rightarrow> decompress_1x1_using_dtable dst src t | Double t \<Rightarrow> decompress_1x2_using_dtable dst src t)"

definition decompress_4x_using_dtable :: "bytes \<Rightarrow> bytes \<Rightarrow> huffman_dtable \<Rightarrow> (bytes \<times> usize) result" where
  "decompress_4x_using_dtable dst src dt =
     (case dt of Single t \<Rightarrow> decompress_4x1_using_dtable dst src t | Double t \<Rightarrow> decompress_4x2_using_dtable dst src t)"

definition read_huffman_dtable :: "bool \<Rightarrow> bytes \<Rightarrow> huffman_dtable option \<Rightarrow> (huffman_dtable \<times> usize) result" where
  "read_huffman_dtable double src slot =
     (if double then and_then (read_dtable_x2 src (double_slot slot)) (\<lambda>(t, n). Ok (Double t, n))
      else and_then (read_dtable_x1 src (single_slot slot)) (\<lambda>(t, n). Ok (Single t, n)))"

definition huff_decompress_into :: "bytes \<Rightarrow> bytes \<Rightarrow> (bytes \<times> usize) result" where
  "huff_decompress_into dst src =
     (if dst = [] then Err DstSizeTooSmall
      else if length dst < length src then Err (Corruption ''Huff0 input larger than output'')
      else if length src = length dst then Ok (src, length dst)
      else if length src = 1 then and_then (idx src 0) (\<lambda>b. Ok (map (\<lambda>_. b) dst, length dst))
      else
        and_then (prefers_double_symbol_decoder (length dst) (length src)) (\<lambda>double.
        and_then (read_huffman_dtable double src None) (\<lambda>(dt, hsize).
        if length src \<le> hsize then Err SrcSizeWrong else
        and_then (idx_from src hsize) (\<lambda>rest. decompress_4x_using_dtable dst rest dt))))"

end
