(* ===== verification/Huff0Lanes.thy ===== *)
theory Huff0Lanes
  imports Huff0X1 Huff0Pairs
begin

section \<open>The four streams (entropy/huff0.rs)\<close>

text \<open>
  Both decoders put one table entry after the other into the output, from four streams side by side. What they
  share is the contract of putting one entry: it stays within the room it is promised, moves the cursor
  forward, and takes at most twelve bits. The locale \<open>entry_decoder\<close> states it; the rounds over the four
  lanes are proved once from it, and both decoders instantiate it.
\<close>

definition lane_moved :: "nat \<Rightarrow> nat \<Rightarrow> lane \<Rightarrow> lane \<Rightarrow> bool" where
  "lane_moved room k l l' \<longleftrightarrow> fst l + k \<le> fst l' \<and> fst l' \<le> fst l + k * room \<and> dinv (snd l')
     \<and> ptr_pos (snd l') = ptr_pos (snd l) \<and> bits_consumed (snd l') \<le> bits_consumed (snd l) + 12 * k"

lemma lane_moved_trans: "lane_moved r a l m \<Longrightarrow> lane_moved r b m n \<Longrightarrow> lane_moved r (a + b) l n"
  by (auto simp: lane_moved_def algebra_simps)

definition four_moved :: "nat \<Rightarrow> nat \<Rightarrow> four \<Rightarrow> four \<Rightarrow> bool" where
  "four_moved room k f g \<longleftrightarrow> lane_moved room k (lane1 f) (lane1 g) \<and> lane_moved room k (lane2 f) (lane2 g)
     \<and> lane_moved room k (lane3 f) (lane3 g) \<and> lane_moved room k (lane4 f) (lane4 g)"

lemma four_moved_trans: "four_moved r a f g \<Longrightarrow> four_moved r b g h \<Longrightarrow> four_moved r (a + b) f h"
  unfolding four_moved_def by (blast intro: lane_moved_trans)

definition all_lanes :: "(lane \<Rightarrow> bool) \<Rightarrow> four \<Rightarrow> bool" where
  "all_lanes P f \<longleftrightarrow> P (lane1 f) \<and> P (lane2 f) \<and> P (lane3 f) \<and> P (lane4 f)"

lemma all_lanes_mono: "all_lanes P f \<Longrightarrow> (\<And>l. P l \<Longrightarrow> Q l) \<Longrightarrow> all_lanes Q f"
  by (simp add: all_lanes_def)

text \<open>A lane whose cursor leaves the given room.\<close>

definition roomy_lane :: "nat \<Rightarrow> usize \<Rightarrow> lane \<Rightarrow> bool" where
  "roomy_lane room len l \<longleftrightarrow> fst l + room \<le> len \<and> dinv (snd l)"

lemma meets_pair:
  assumes "meets m (\<lambda>(x, y). P x y)" and "\<And>x y. P x y \<Longrightarrow> meets (f x y) Q"
  shows "meets (and_then m (\<lambda>(x, y). f x y)) Q"
  using assms by (cases m) auto

locale entry_decoder =
  fixes put :: "'t \<Rightarrow> bytes \<times> usize \<times> dstream \<Rightarrow> (bytes \<times> usize \<times> dstream) result"
    and good :: "'t \<Rightarrow> bool" and room :: nat
  assumes put_meets: "good t \<Longrightarrow> pos + room \<le> length dst \<Longrightarrow> dinv s
    \<Longrightarrow> meets (put t (dst, pos, s)) (\<lambda>(dst', l). length dst' = length dst \<and> lane_moved room 1 (pos, s) l)"
begin

lemma put_lane:
  assumes "good t" and "roomy_lane room (length dst) l"
  shows "meets (put t (dst, l)) (\<lambda>(dst', l'). length dst' = length dst \<and> lane_moved room 1 l l')"
  using assms put_meets [of t "fst l" dst "snd l"] by (simp add: roomy_lane_def)

lemma round_meets:
  assumes "good t" and "all_lanes (roomy_lane room (length dst)) f"
  shows "meets (four_round (put t) (dst, f)) (\<lambda>(dst', g). length dst' = length dst \<and> four_moved room 1 f g)"
proof -
  have one: "meets (put t (d, l)) (\<lambda>(d', l'). length d' = length dst \<and> lane_moved room 1 l l')"
    if "roomy_lane room (length dst) l" "length d = length dst" for d l
    using put_lane [OF assms(1), of d l] that by simp
  have l: "roomy_lane room (length dst) (lane1 f)" "roomy_lane room (length dst) (lane2 f)"
    "roomy_lane room (length dst) (lane3 f)" "roomy_lane room (length dst) (lane4 f)"
    using assms(2) by (simp_all add: all_lanes_def)
  show ?thesis
    unfolding four_round_def prod.case
  proof (rule meets_pair [OF one [OF l(1) refl]], elim conjE)
    fix d1 l1 assume 1: "length (d1 :: bytes) = length dst" "lane_moved room 1 (lane1 f) l1"
    show "meets (and_then (put t (d1, lane2 f)) (\<lambda>(d2, l2). and_then (put t (d2, lane3 f)) (\<lambda>(d3, l3).
        and_then (put t (d3, lane4 f)) (\<lambda>(d, l4). Ok (d, \<lparr>lane1 = l1, lane2 = l2, lane3 = l3, lane4 = l4\<rparr>)))))
        (\<lambda>(d, g). length d = length dst \<and> four_moved room 1 f g)"
    proof (rule meets_pair [OF one [OF l(2) 1(1)]], elim conjE)
      fix d2 l2 assume 2: "length (d2 :: bytes) = length dst" "lane_moved room 1 (lane2 f) l2"
      show "meets (and_then (put t (d2, lane3 f)) (\<lambda>(d3, l3). and_then (put t (d3, lane4 f))
          (\<lambda>(d, l4). Ok (d, \<lparr>lane1 = l1, lane2 = l2, lane3 = l3, lane4 = l4\<rparr>))))
          (\<lambda>(d, g). length d = length dst \<and> four_moved room 1 f g)"
      proof (rule meets_pair [OF one [OF l(3) 2(1)]], elim conjE)
        fix d3 l3 assume 3: "length (d3 :: bytes) = length dst" "lane_moved room 1 (lane3 f) l3"
        show "meets (and_then (put t (d3, lane4 f)) (\<lambda>(d, l4). Ok (d, \<lparr>lane1 = l1, lane2 = l2, lane3 = l3, lane4 = l4\<rparr>)))
            (\<lambda>(d, g). length d = length dst \<and> four_moved room 1 f g)"
          by (rule meets_pair [OF one [OF l(4) 3(1)]]) (use 1 2 3 in \<open>simp add: four_moved_def\<close>)
      qed
    qed
  qed
qed

lemma rounds4_meets:
  assumes "good t" and "all_lanes (roomy_lane (4 * room) (length dst)) f"
  shows "meets (rounds4 (four_round (put t)) (dst, f)) (\<lambda>(dst', g). length dst' = length dst \<and> four_moved room 4 f g)"
proof -
  have step: "meets (four_round (put t) st) (\<lambda>(d', h). length d' = length dst \<and> four_moved room (k + 1) f h)"
    if "length (fst st) = length dst" "four_moved room k f (snd st)" "k < 4" for st k
  proof -
    obtain d g where st: "st = (d, g)" by (cases st)
    have "(k + 1) * room \<le> 4 * room" using that(3) by (intro mult_le_mono1) simp
    then have R: "roomy_lane room (length dst) l'" if "roomy_lane (4 * room) (length dst) l" "lane_moved room k l l'" for l l'
      using that unfolding roomy_lane_def lane_moved_def add_mult_distrib by linarith
    have g: "length d = length dst" "four_moved room k f g" using that st by simp_all
    have "all_lanes (roomy_lane room (length d)) g"
      using assms(2) g(2) unfolding all_lanes_def four_moved_def g(1) by (blast intro: R)
    from round_meets [OF assms(1) this] show ?thesis
      unfolding st by (rule meets_mono) (use that st four_moved_trans [of room k f g 1] in auto)
  qed
  have z: "four_moved room 0 f f" using assms(2) by (simp add: four_moved_def lane_moved_def all_lanes_def roomy_lane_def)
  have onward: "meets (and_then (four_round (put t) st) h) Q"
    if "length (fst st) = length dst" "four_moved room k f (snd st)" "k < 4"
      "\<And>st. length (fst st) = length dst \<Longrightarrow> four_moved room (k + 1) f (snd st) \<Longrightarrow> meets (h st) Q" for st k h Q
    unfolding meets_and_then by (rule meets_mono [OF step [OF that(1-3)]]) (use that(4) in \<open>simp add: case_prod_unfold\<close>)
  show ?thesis
    unfolding rounds4_def
  proof (rule onward [where k1 = 0])
    fix st1' assume 1: "length (fst st1' :: bytes) = length dst" "four_moved room (0 + 1) f (snd st1')"
    show "meets (and_then (four_round (put t) st1') (\<lambda>st. and_then (four_round (put t) st) (four_round (put t))))
        (\<lambda>(dst', g). length dst' = length dst \<and> four_moved room 4 f g)"
    proof (rule onward [OF 1])
      fix st2 assume 2: "length (fst st2 :: bytes) = length dst" "four_moved room (0 + 1 + 1) f (snd st2)"
      show "meets (and_then (four_round (put t) st2) (four_round (put t)))
          (\<lambda>(dst', g). length dst' = length dst \<and> four_moved room 4 f g)"
      proof (rule onward [OF 2])
        fix st3 assume 3: "length (fst st3 :: bytes) = length dst" "four_moved room (0 + 1 + 1 + 1) f (snd st3)"
        show "meets (four_round (put t) st3) (\<lambda>(dst', g). length dst' = length dst \<and> four_moved room 4 f g)"
          using step [OF 3] by (simp add: numeral_eq_Suc)
      qed simp
    qed simp
  qed (simp_all add: z)
qed

end

subsection \<open>Reloading and finishing\<close>

definition fresh_lane :: "lane \<Rightarrow> bool" where
  "fresh_lane l \<longleftrightarrow> dinv (snd l) \<and> (bits_consumed (snd l) \<le> 8 \<or> ptr_pos (snd l) < 8)"

definition spent_lane :: "lane \<Rightarrow> bool" where
  "spent_lane l \<longleftrightarrow> dinv (snd l) \<and> (bits_consumed (snd l) \<le> 64 \<or> ptr_pos (snd l) < 8)"

definition lane_reloaded :: "bool \<Rightarrow> lane \<Rightarrow> lane \<Rightarrow> bool" where
  "lane_reloaded b l l' \<longleftrightarrow> fst l' = fst l \<and> dinv (snd l') \<and> (b \<longrightarrow> fresh_lane l')"

lemma moved_spent: "fresh_lane l \<Longrightarrow> lane_moved room 4 l l' \<Longrightarrow> spent_lane l'"
  by (auto simp: fresh_lane_def spent_lane_def lane_moved_def)

lemma reload_lane_meets:
  assumes "spent_lane l"
  shows "meets (reload_lane l) (\<lambda>(b, l'). lane_reloaded b l l')"
proof (cases "ptr_pos (snd l) < 8")
  case True
  then have "reload_fast (snd l) = Ok (Overflow, snd l)" by (simp add: reload_fast_def CONTAINER_BYTES_def)
  then show ?thesis using assms by (simp add: reload_lane_def case_prod_unfold lane_reloaded_def spent_lane_def)
next
  case False
  then have "dinv (snd l)" "bits_consumed (snd l) \<le> 64" using assms by (simp_all add: spent_lane_def)
  from reload_fast_spec [OF this] obtain t s' where "reload_fast (snd l) = Ok (t, s')" "dinv s'"
    "t \<noteq> Overflow \<Longrightarrow> bits_consumed s' < 8" by metis
  then show ?thesis by (auto simp: reload_lane_def case_prod_unfold lane_reloaded_def fresh_lane_def)
qed

lemma reload_four_meets:
  assumes "all_lanes spent_lane f"
  shows "meets (reload_four f) (\<lambda>(b, g). lane_reloaded b (lane1 f) (lane1 g) \<and> lane_reloaded b (lane2 f) (lane2 g)
    \<and> lane_reloaded b (lane3 f) (lane3 g) \<and> lane_reloaded b (lane4 f) (lane4 g))"
proof -
  have l: "meets (reload_lane (lane1 f)) (\<lambda>(b, l'). lane_reloaded b (lane1 f) l')"
    "meets (reload_lane (lane2 f)) (\<lambda>(b, l'). lane_reloaded b (lane2 f) l')"
    "meets (reload_lane (lane3 f)) (\<lambda>(b, l'). lane_reloaded b (lane3 f) l')"
    "meets (reload_lane (lane4 f)) (\<lambda>(b, l'). lane_reloaded b (lane4 f) l')"
    using assms by (simp_all add: all_lanes_def reload_lane_meets)
  show ?thesis
    unfolding reload_four_def
    by (rule meets_pair [OF l(1)], rule meets_pair [OF l(2)], rule meets_pair [OF l(3)], rule meets_pair [OF l(4)])
      (simp add: lane_reloaded_def)
qed

text \<open>A stream decoder that always reaches the end of its segment.\<close>

definition fills_segment :: "(usize \<Rightarrow> bytes \<times> lane \<Rightarrow> (bytes \<times> lane) result) \<Rightarrow> bool" where
  "fills_segment decode \<longleftrightarrow> (\<forall>end_pos dst pos s. pos \<le> end_pos \<and> end_pos \<le> length dst \<and> dinv s
     \<longrightarrow> meets (decode end_pos (dst, pos, s)) (\<lambda>(dst', l). length dst' = length dst \<and> fst l = end_pos))"

lemma fills_segmentD:
  "fills_segment decode \<Longrightarrow> fst l \<le> end_pos \<Longrightarrow> end_pos \<le> length dst \<Longrightarrow> dinv (snd l)
    \<Longrightarrow> meets (decode end_pos (dst, l)) (\<lambda>(dst', l'). length dst' = length dst \<and> fst l' = end_pos)"
  by (cases l) (simp add: fills_segment_def)

lemma finish_four_meets:
  assumes d: "fills_segment decode" and f: "all_lanes (\<lambda>l. dinv (snd l)) f" "fst (lane4 f) \<le> length dst"
    and len: "a \<le> length dst" "b \<le> length dst" "c \<le> length dst"
  shows "meets (finish_four decode (a, b, c) (dst, f)) (\<lambda>(dst', n). length dst' = length dst \<and> n = length dst)"
proof (cases "a < fst (lane1 f) \<or> b < fst (lane2 f) \<or> c < fst (lane3 f)")
  case False
  have l: "dinv (snd (lane1 f))" "dinv (snd (lane2 f))" "dinv (snd (lane3 f))" "dinv (snd (lane4 f))"
    using f by (simp_all add: all_lanes_def)
  have seg: "meets (and_then (decode e (d, l)) (\<lambda>(d', op, s). h d' op s)) Q"
    if "fst l \<le> e" "e \<le> length dst" "dinv (snd l)" "length d = length dst"
      "\<And>d' s. length d' = length dst \<Longrightarrow> meets (h d' e s) Q" for e d l h Q
    using fills_segmentD [OF assms(1) that(1) _ that(3), of d] that(2,4,5)
    by (cases "decode e (d, l)") auto
  show ?thesis
    unfolding finish_four_def prod.case if_not_P [OF False]
    by (rule seg, use False in simp, rule len, rule l, rule refl, rule seg, use False in simp, rule len, rule l, assumption,
        rule seg, use False in simp, rule len, rule l, assumption, rule seg, use f in simp, simp, rule l, assumption, simp)
qed (simp add: finish_four_def)

lemma open_four_meets:
  "meets (open_four len src) (\<lambda>(f, a, b, c). all_lanes fresh_lane f \<and> fst (lane1 f) = 0 \<and> fst (lane2 f) = a
     \<and> fst (lane3 f) = b \<and> fst (lane4 f) = c \<and> a \<le> b \<and> b \<le> c \<and> c \<le> len \<and> len \<le> c + a)"
proof -
  have n: "meets (and_then r dstream_new) Q" if "r \<noteq> Fault" "\<And>s. dinv s \<and> (bits_consumed s \<le> 8 \<or> ptr_pos s < 8) \<Longrightarrow> Q s" for r Q
  proof (cases r)
    case (Ok bs)
    show ?thesis
    proof (cases "dstream_new bs")
      case s: (Ok s)
      show ?thesis using dstream_new_Ok(3) [OF s] that(2) [of s] Ok s by (auto simp: ready_def)
    qed (use Ok dstream_new_no_fault in auto)
  qed (use that in auto)
  have seg: "meets (read_segment_length src k) Q" if "k + 1 < length src" "\<And>n. Q n" for k Q
    using that by (simp add: read_segment_length_def)
  show ?thesis
  proof (cases "length src < 10 \<or> len < 6")
    case False
    show ?thesis
      using False unfolding open_four_def Let_def
      apply (simp only: if_False de_Morgan_disj)
      apply (subst meets_and_then, rule seg, simp, subst meets_and_then, rule seg, simp, subst meets_and_then, rule seg, simp)
      apply (subst meets_if, intro conjI impI, simp)
      apply (subst meets_and_then, rule n, simp)
      apply (subst meets_and_then, rule n, simp)
      apply (subst meets_and_then, rule n, simp)
      apply (subst meets_and_then, rule n, simp)
      apply (auto simp: all_lanes_def fresh_lane_def)
      done
  qed (auto simp: open_four_def)
qed

subsection \<open>The single-symbol decoder\<close>

definition good_x1 :: "delt_x1 list \<times> nat \<Rightarrow> bool" where
  "good_x1 t \<longleftrightarrow> (case t of (table, log) \<Rightarrow> 1 \<le> log \<and> log \<le> 12 \<and> 2 ^ log \<le> length table
     \<and> (\<forall>i < 2 ^ log. x1_nb_bits (table ! i) \<le> 12))"

lemma look_bits_fast_total: "1 \<le> nb \<Longrightarrow> nb \<le> 64 \<Longrightarrow> \<exists>v. look_bits_fast s nb = Ok v \<and> unat v < 2 ^ nb"
proof -
  assume nb: "1 \<le> nb" "nb \<le> 64"
  let ?v = "drop_bit ((64 - nb) mod 64) (push_bit (bits_consumed s mod 64) (bit_container s))"
  have "unat ?v < 2 ^ nb"
  proof (cases "nb = 64")
    case True
    then show ?thesis using unat_u64_less [of ?v] by simp
  next
    case False
    let ?w = "push_bit (bits_consumed s mod 64) (bit_container s)"
    have "unat ?w < 2 ^ 64" using unat_u64_less [of ?w] by simp
    also have "(2 :: nat) ^ 64 = 2 ^ (64 - nb) * 2 ^ nb" using nb by (simp flip: power_add)
    finally have "unat ?w < 2 ^ (64 - nb) * 2 ^ nb" .
    then show ?thesis using nb False by (simp add: unat_drop_bit_div less_mult_imp_div_less mult.commute)
  qed
  with nb show ?thesis by (simp add: look_bits_fast_def)
qed

lemma put_x1_meets:
  assumes "good_x1 (table, log)" and "pos < length dst" and "dinv s"
  shows "meets (put_x1 table log (dst, pos, s)) (\<lambda>(dst', l). length dst' = length dst \<and> lane_moved 1 1 (pos, s) l)"
proof -
  obtain v where v: "look_bits_fast s log = Ok v" "unat v < 2 ^ log"
    using look_bits_fast_total [of log s] assms(1) by (auto simp: good_x1_def)
  have t: "unat v < length table" "x1_nb_bits (table ! unat v) \<le> 12" using assms(1) v(2) by (auto simp: good_x1_def)
  show ?thesis
    using assms(2,3) t by (simp add: put_x1_def decode_symbol_x1_def v lane_moved_def)
qed

interpretation x1: entry_decoder "\<lambda>(table, log). put_x1 table log" good_x1 1
  by unfold_locales (use put_x1_meets in auto)

lemma x1_round: "rounds4 (round_x1 table log) = rounds4 (four_round ((\<lambda>(table, log). put_x1 table log) (table, log)))"
  by (simp add: round_x1_def)

lemma put4_x1_meets:
  assumes "good_x1 (table, log)" and "pos + 4 \<le> length dst" and "dinv s"
  shows "meets (put4_x1 table log (dst, pos, s)) (\<lambda>(dst', pos', s'). length dst' = length dst \<and> pos' = pos + 4 \<and> dinv s')"
proof -
  have one: "meets (and_then (put_x1 table log (d, p, s)) h) Q"
    if "p < length dst" "length d = length dst" "dinv s"
      "\<And>d' s'. length d' = length dst \<Longrightarrow> dinv s' \<Longrightarrow> meets (h (d', p + 1, s')) Q" for d p s Q
      and h :: "bytes \<times> usize \<times> dstream \<Rightarrow> (bytes \<times> usize \<times> dstream) result"
    unfolding meets_and_then
    by (rule meets_mono [OF put_x1_meets [OF assms(1)]]) (use that in \<open>auto simp: lane_moved_def\<close>)
  show ?thesis
    unfolding put4_x1_def
    by (rule one, use assms in simp, simp, use assms in simp, rule one, use assms in simp, assumption+, rule one,
        use assms in simp, assumption+, rule meets_mono [OF put_x1_meets [OF assms(1)]])
      (use assms in \<open>auto simp: lane_moved_def\<close>)
qed

lemma stream_x1_quads_meets:
  assumes "good_x1 (table, log)" and "pos \<le> end_pos" and "end_pos \<le> length dst" and "dinv s"
  shows "meets (stream_x1_quads table log end_pos (dst, pos, s))
    (\<lambda>(dst', pos', s'). length dst' = length dst \<and> pos' \<le> end_pos \<and> dinv s')"
  using assms
proof (induction "end_pos - pos" arbitrary: dst pos s rule: less_induct)
  case less
  from reload_spec [OF less.prems(4)] obtain t s' where r: "reload s = Ok (t, s')" "dinv s'" by metis
  show ?case
  proof (cases "t = Unfinished \<and> pos < end_pos - 3")
    case True
    have "pos + 4 \<le> length dst" using True less.prems by linarith
    then have m: "meets (put4_x1 table log (dst, pos, s')) (\<lambda>(dst', pos', s'). length dst' = length dst \<and> pos' = pos + 4 \<and> dinv s')"
      using less.prems r by (intro put4_x1_meets) simp_all
    then have "meets (put4_x1 table log (dst, pos, s')) (\<lambda>st. meets (stream_x1_quads table log end_pos st)
        (\<lambda>(dst', pos', s'). length dst' = length dst \<and> pos' \<le> end_pos \<and> dinv s'))"
    proof (rule meets_mono)
      fix st :: "bytes \<times> usize \<times> dstream"
    assume "case st of (dst', pos', s') \<Rightarrow> length dst' = length dst \<and> pos' = pos + 4 \<and> dinv s'"
      then obtain d u where st: "st = (d, pos + 4, u)" "length d = length dst" "dinv u" by (cases st) auto
      show "meets (stream_x1_quads table log end_pos st) (\<lambda>(dst', pos', s'). length dst' = length dst \<and> pos' \<le> end_pos \<and> dinv s')"
      proof -
        have "pos + 4 \<le> end_pos" "end_pos - (pos + 4) < end_pos - pos" using True by linarith+
        then show ?thesis using less.hyps [of "pos + 4" d u] less.prems st by simp
      qed
    qed
    then show ?thesis using True by (simp add: stream_x1_quads.simps [of table log end_pos dst pos s] r(1))
  next
    case False
    then show ?thesis using less.prems r by (auto simp: stream_x1_quads.simps [of table log end_pos dst pos s])
  qed
qed

lemma stream_x1_rest_meets:
  assumes "good_x1 (table, log)" and "pos \<le> end_pos" and "end_pos \<le> length dst" and "dinv s"
  shows "meets (stream_x1_rest table log end_pos (dst, pos, s)) (\<lambda>(dst', l). length dst' = length dst \<and> fst l = end_pos)"
  using assms
proof (induction "end_pos - pos" arbitrary: dst pos s)
  case 0
  then have "pos = end_pos" by simp
  then show ?case by (simp add: stream_x1_rest.simps)
next
  case (Suc n)
  have p: "pos < end_pos" using Suc.hyps(2) by simp
  have "meets (put_x1 table log (dst, pos, s)) (\<lambda>st. meets (stream_x1_rest table log end_pos st)
      (\<lambda>(dst', l). length dst' = length dst \<and> fst l = end_pos))"
  proof (rule meets_mono [OF put_x1_meets [OF assms(1)]])
    fix st :: "bytes \<times> usize \<times> dstream"
    assume "case st of (dst', l) \<Rightarrow> length dst' = length dst \<and> lane_moved 1 1 (pos, s) l"
    then obtain d u where st: "st = (d, pos + 1, u)" "length d = length dst" "dinv u"
      by (cases st) (auto simp: lane_moved_def)
    show "meets (stream_x1_rest table log end_pos st) (\<lambda>(dst', l). length dst' = length dst \<and> fst l = end_pos)"
      using Suc.hyps(1) [of "pos + 1" d u] Suc.hyps(2) Suc.prems st by simp
  qed (use p Suc.prems in simp_all)
  then show ?case using p by (simp add: stream_x1_rest.simps [of table log end_pos dst pos s])
qed

lemma decode_stream_x1_fills: "good_x1 (table, log) \<Longrightarrow> fills_segment (decode_stream_x1 table log)"
  unfolding fills_segment_def
proof (intro allI impI, elim conjE)
  fix end_pos dst pos s
  assume g: "good_x1 (table, log)" and p: "pos \<le> end_pos" "end_pos \<le> length (dst :: bytes)" "dinv s"
  show "meets (decode_stream_x1 table log end_pos (dst, pos, s)) (\<lambda>(dst', l). length dst' = length dst \<and> fst l = end_pos)"
    unfolding decode_stream_x1_def meets_and_then
  proof (rule meets_mono [OF stream_x1_quads_meets [OF g p]])
    fix st :: "bytes \<times> usize \<times> dstream"
    assume "case st of (dst', pos', s') \<Rightarrow> length dst' = length dst \<and> pos' \<le> end_pos \<and> dinv s'"
    then obtain d q u where st: "st = (d, q, u)" "length d = length dst" "q \<le> end_pos" "dinv u" by (cases st) auto
    show "meets (stream_x1_rest table log end_pos st) (\<lambda>(dst', l). length dst' = length dst \<and> fst l = end_pos)"
      using stream_x1_rest_meets [OF g, of q end_pos d u] st p by simp
  qed
qed

lemma four_x1_loop_meets:
  assumes "good_x1 (table, log)" and "all_lanes (\<lambda>l. dinv (snd l)) f" and "signal \<longrightarrow> all_lanes fresh_lane f"
    and "all_lanes (\<lambda>l. fst l \<le> fst (lane4 f)) f" and "fst (lane4 f) \<le> length dst"
    and "length dst \<le> fst (lane4 f) + fuel"
  shows "meets (four_x1_loop fuel table log (length dst - 3) signal (dst, f))
    (\<lambda>(dst', g). length dst' = length dst \<and> all_lanes (\<lambda>l. dinv (snd l)) g \<and> fst (lane4 g) \<le> length dst)"
  using assms
proof (induction fuel arbitrary: signal dst f)
  case 0
  then have "\<not> fst (lane4 f) < length dst - 3" by linarith
  with 0 show ?case by (simp add: four_x1_loop.simps [of 0])
next
  case (Suc fuel)
  show ?case
  proof (cases "signal \<and> fst (lane4 f) < length dst - 3")
    case True
    have fresh: "all_lanes fresh_lane f" using Suc.prems(3) True by simp
    have "all_lanes (roomy_lane (4 * 1) (length dst)) f"
      using Suc.prems(2,4) True by (auto simp: all_lanes_def roomy_lane_def)
    note R = x1.rounds4_meets [OF assms(1) this, folded x1_round]
    have "meets (rounds4 (round_x1 table log) (dst, f)) (\<lambda>(d, g). meets (and_then (reload_four g) (\<lambda>(signal, g).
        four_x1_loop fuel table log (length dst - 3) signal (d, g)))
        (\<lambda>(dst', g). length dst' = length dst \<and> all_lanes (\<lambda>l. dinv (snd l)) g \<and> fst (lane4 g) \<le> length dst))"
    proof (rule meets_mono [OF R])
      fix st :: "bytes \<times> four"
    assume "case st of (d, g) \<Rightarrow> length d = length dst \<and> four_moved 1 4 f g"
      then obtain d g where st: "st = (d, g)" "length d = length dst" and m: "four_moved 1 4 f g" by (cases st) auto
      have pos: "fst (lane1 g) = fst (lane1 f) + 4" "fst (lane2 g) = fst (lane2 f) + 4"
        "fst (lane3 g) = fst (lane3 f) + 4" "fst (lane4 g) = fst (lane4 f) + 4"
        using m by (simp_all add: four_moved_def lane_moved_def)
      have spent: "all_lanes spent_lane g"
        using fresh m unfolding all_lanes_def four_moved_def by (blast intro: moved_spent)
      have "meets (and_then (reload_four g) (\<lambda>(signal, g). four_x1_loop fuel table log (length dst - 3) signal (d, g)))
        (\<lambda>(dst', g). length dst' = length dst \<and> all_lanes (\<lambda>l. dinv (snd l)) g \<and> fst (lane4 g) \<le> length dst)"
      proof (rule meets_pair [OF reload_four_meets [OF spent]])
        fix b and h :: four assume r: "lane_reloaded b (lane1 g) (lane1 h) \<and> lane_reloaded b (lane2 g) (lane2 h)
          \<and> lane_reloaded b (lane3 g) (lane3 h) \<and> lane_reloaded b (lane4 g) (lane4 h)"
        have "meets (four_x1_loop fuel table log (length d - 3) b (d, h))
          (\<lambda>(dst', g). length dst' = length d \<and> all_lanes (\<lambda>l. dinv (snd l)) g \<and> fst (lane4 g) \<le> length d)"
          by (rule Suc.IH [OF assms(1)])
            (use r pos st True Suc.prems in \<open>auto simp: all_lanes_def lane_reloaded_def\<close>)
        then show "meets (four_x1_loop fuel table log (length dst - 3) b (d, h))
          (\<lambda>(dst', g). length dst' = length dst \<and> all_lanes (\<lambda>l. dinv (snd l)) g \<and> fst (lane4 g) \<le> length dst)"
          unfolding st(2) .
      qed
      then show "case st of (d, g) \<Rightarrow> meets (and_then (reload_four g) (\<lambda>(signal, g).
        four_x1_loop fuel table log (length dst - 3) signal (d, g)))
        (\<lambda>(dst', g). length dst' = length dst \<and> all_lanes (\<lambda>l. dinv (snd l)) g \<and> fst (lane4 g) \<le> length dst)"
        unfolding st(1) prod.case .
    qed
    then show ?thesis unfolding four_x1_loop.simps [of "Suc fuel"] if_P [OF True] nat.case meets_and_then [of "rounds4 _ _"]
      by (simp add: case_prod_unfold)
  next
    case False
    then show ?thesis using Suc.prems by (auto simp: four_x1_loop.simps [of "Suc fuel"])
  qed
qed

lemma good_table_x1:
  assumes "weights_ok ws log" and "dtable_x1_ok ws log dt"
  shows "good_x1 (x1_entries dt, x1_table_log dt)"
proof -
  have L: "1 \<le> log" "log \<le> 12" using assms(1) by (simp_all add: weights_ok_def HUF_TABLELOG_MAX_def)
  have D: "x1_table_log dt = log" "length (x1_entries dt) = DTABLE_X1_SIZE" "take (2 ^ log) (x1_entries dt) = canonical_x1 ws log"
    using assms(2) by (simp_all add: dtable_x1_ok_def)
  have N: "2 ^ log \<le> DTABLE_X1_SIZE"
    using L unfolding DTABLE_X1_SIZE_def HUF_TABLELOG_MAX_def by (intro power_increasing) simp_all
  have "x1_nb_bits e \<le> 12" if "e \<in> set (canonical_x1 ws log)" for e
  proof -
    from that obtain w where "1 \<le> w" "e \<in> set (block_x1 ws log (length ws) w)" by (auto simp: canonical_x1_def)
    then show ?thesis using set_block_x1 L by (force simp: entry_x1_def)
  qed
  moreover have "x1_entries dt ! i \<in> set (canonical_x1 ws log)" if "i < 2 ^ log" for i
    using that N D by (metis in_set_conv_nth length_take min.absorb2 nth_take)
  ultimately show ?thesis using L N D by (simp add: good_x1_def)
qed

lemma decompress_1x1_meets:
  assumes "good_x1 (x1_entries dt, x1_table_log dt)"
  shows "meets (decompress_1x1_using_dtable dst src dt) (\<lambda>(dst', n). length dst' = length dst \<and> n = length dst)"
proof (cases "dstream_new src")
  case (Ok s)
  have "dinv s" using dstream_new_Ok(3) [OF Ok] by (simp add: ready_def)
  with decode_stream_x1_fills [OF assms] have
    m: "meets (decode_stream_x1 (x1_entries dt) (x1_table_log dt) (length dst) (dst, 0, s))
      (\<lambda>(dst', l). length dst' = length dst \<and> fst l = length dst)"
    by (simp add: fills_segment_def)
  show ?thesis unfolding decompress_1x1_using_dtable_def Ok and_then.simps meets_and_then
    by (rule meets_mono [OF m]) (auto simp: case_prod_unfold)
qed (use dstream_new_no_fault in \<open>auto simp: decompress_1x1_using_dtable_def\<close>)

lemma decompress_4x1_meets:
  assumes "good_x1 (x1_entries dt, x1_table_log dt)"
  shows "meets (decompress_4x1_using_dtable dst src dt) (\<lambda>(dst', n). length dst' = length dst \<and> n = length dst)"
  unfolding decompress_4x1_using_dtable_def
proof (rule meets_pair [OF open_four_meets])
  fix f starts assume o: "case starts of (a, b, c) \<Rightarrow> all_lanes fresh_lane f \<and> fst (lane1 f) = 0 \<and> fst (lane2 f) = a
     \<and> fst (lane3 f) = b \<and> fst (lane4 f) = c \<and> a \<le> b \<and> b \<le> c \<and> c \<le> length dst \<and> length dst \<le> c + a"
  obtain a b c where s: "starts = (a, b, c)" by (cases starts)
  have "all_lanes (\<lambda>l. dinv (snd l)) f" using o s by (auto simp: all_lanes_def fresh_lane_def)
  then have m: "meets (four_x1_loop (length dst) (x1_entries dt) (x1_table_log dt) (length dst - 3) True (dst, f))
    (\<lambda>(dst', g). length dst' = length dst \<and> all_lanes (\<lambda>l. dinv (snd l)) g \<and> fst (lane4 g) \<le> length dst)"
    using o s by (intro four_x1_loop_meets [OF assms]) (auto simp: all_lanes_def)
  show "meets (and_then (four_x1_loop (length dst) (x1_entries dt) (x1_table_log dt) (length dst - 3) True (dst, f))
       (finish_four (decode_stream_x1 (x1_entries dt) (x1_table_log dt)) starts))
     (\<lambda>(dst', n). length dst' = length dst \<and> n = length dst)"
    unfolding meets_and_then
  proof (rule meets_mono [OF m])
    fix st :: "bytes \<times> four"
    assume "case st of (dst', g) \<Rightarrow> length dst' = length dst \<and> all_lanes (\<lambda>l. dinv (snd l)) g \<and> fst (lane4 g) \<le> length dst"
    then obtain d g where st: "st = (d, g)" "length d = length dst" "all_lanes (\<lambda>l. dinv (snd l)) g" "fst (lane4 g) \<le> length d"
      by (cases st) auto
    show "meets (finish_four (decode_stream_x1 (x1_entries dt) (x1_table_log dt)) starts st)
      (\<lambda>(dst', n). length dst' = length dst \<and> n = length dst)"
      using finish_four_meets [OF decode_stream_x1_fills [OF assms] st(3,4), of a b c] st s o by simp
  qed
qed

end
