(* ===== verification/Huff0X2.thy ===== *)
theory Huff0X2
  imports Huff0Lanes
begin

section \<open>The layout of the pair table (entropy/huff0.rs)\<close>

text \<open>
  \<open>read_dtable_x2\<close> fills the whole table: the symbols by weight, each over as many slots as its weight takes at
  the larger log, and within them, where a second code fits, the second symbols in the same order. The
  positions that the code reads from its rows are the lengths of what has been written, so every write
  continues where the last one ended.
\<close>

definition weight_start :: "nat list \<Rightarrow> nat \<Rightarrow> nat" where
  "weight_start ws w = (\<Sum>v \<in> {1..<w}. count_list ws v)"

text \<open>The first slot of a weight behind a code of \<open>c\<close> bits, at table log \<open>t\<close>.\<close>

definition slot_behind :: "nat list \<Rightarrow> nat \<Rightarrow> nat \<Rightarrow> nat \<Rightarrow> nat \<Rightarrow> nat" where
  "slot_behind ws log t c w = base_of_rank ws w * 2 ^ (t - log) div 2 ^ c"

definition symbols_of :: "nat list \<Rightarrow> bytes \<Rightarrow> nat \<Rightarrow> bytes" where
  "symbols_of ws ordered w = take (count_list ws w) (drop (weight_start ws w) ordered)"

definition entry_x2 :: "nat \<Rightarrow> u8 \<Rightarrow> nat \<Rightarrow> u8 \<Rightarrow> delt_x2" where
  "entry_x2 nb base_symbol level symbol =
     \<lparr>x2_sequence = (if level = 1 then unat symbol else unat base_symbol + 256 * unat symbol),
      x2_nb_bits = nb mod 256, x2_length = level\<rparr>"

definition run_x2 :: "nat \<Rightarrow> nat \<Rightarrow> u8 \<Rightarrow> nat \<Rightarrow> bytes \<Rightarrow> delt_x2 list" where
  "run_x2 t nb base_symbol level symbols =
     concat (map (\<lambda>s. replicate (2 ^ (t - nb)) (entry_x2 nb base_symbol level s)) symbols)"

subsection \<open>Writing one piece after the other\<close>

lemma on_slice_Ok:
  assumes "a \<le> b" and "b \<le> length xs" and "f (take (b - a) (drop a xs)) = Ok ys"
  shows "on_slice xs a b e f = Ok (take a xs @ ys @ drop b xs)"
  using assms by (simp add: on_slice_def)

lemma put_sub_tables:
  assumes "\<And>s sub. s \<in> set symbols \<Longrightarrow> length sub = len \<Longrightarrow> fill s sub = Ok (g s)"
    and "\<And>s. s \<in> set symbols \<Longrightarrow> length (g s) = len"
    and "at + length symbols * len \<le> length es" and "length es \<le> usize_max"
  shows "loop_over (put_sub_table len fill) symbols (es, at)
    = Ok (take at es @ concat (map g symbols) @ drop (at + length symbols * len) es, at + length symbols * len)"
  using assms
proof (induction symbols arbitrary: es at)
  case (Cons s ss)
  let ?es = "take at es @ g s @ drop (at + len) es"
  have g: "length (g s) = len" "\<And>sub. length sub = len \<Longrightarrow> fill s sub = Ok (g s)" using Cons.prems by simp_all
  have room: "at + len \<le> length es" using Cons.prems(3) by simp
  have "fill s (take (at + len - at) (drop at es)) = Ok (g s)" using g(2) room by simp
  then have "put_sub_table len fill s (es, at) = Ok (?es, at + len)"
    using room Cons.prems(4) by (simp add: put_sub_table_def on_slice_Ok)
  moreover have "loop_over (put_sub_table len fill) ss (?es, at + len)
    = Ok (take (at + len) ?es @ concat (map g ss) @ drop (at + len + length ss * len) ?es, at + len + length ss * len)"
    using Cons.prems room g(1) by (intro Cons.IH) simp_all
  moreover have "take (at + len) ?es = take at es @ g s" using room g(1) by simp
  moreover have "drop (at + len + length ss * len) ?es = drop (at + (len + length ss * len)) es"
    using room g(1) by (simp add: ac_simps)
  ultimately show ?case by (simp add: add.assoc)
qed simp

lemma put_run_is_sub_table:
  "level = 1 \<or> level = 2 \<Longrightarrow>
    put_run_x2 len nb base_symbol level = put_sub_table len (\<lambda>s. fill_slots (entry_x2 nb base_symbol level s))"
  by (auto simp: fun_eq_iff put_run_x2_def put_sub_table_def build_delt_x2_def entry_x2_def)

lemma map_const_replicate: "length xs = n \<Longrightarrow> map (\<lambda>_. x) xs = replicate n x"
  by (simp add: map_replicate_const)

lemma length_run_x2 [simp]: "length (run_x2 t nb b level symbols) = length symbols * 2 ^ (t - nb)"
  by (induction symbols) (simp_all add: run_x2_def)

lemma fill_for_weight_Ok:
  assumes "level = 1 \<or> level = 2" and "nb \<le> t" and "length symbols * 2 ^ (t - nb) \<le> length slots" and "length slots \<le> usize_max"
  shows "fill_dtable_x2_for_weight slots symbols nb t b level
    = Ok (run_x2 t nb b level symbols @ drop (length symbols * 2 ^ (t - nb)) slots)"
proof -
  have "loop_over (put_run_x2 (2 ^ (t - nb)) nb b level) symbols (slots, 0)
    = Ok (take 0 slots @ concat (map (\<lambda>s. replicate (2 ^ (t - nb)) (entry_x2 nb b level s)) symbols)
        @ drop (0 + length symbols * 2 ^ (t - nb)) slots, 0 + length symbols * 2 ^ (t - nb))"
    unfolding put_run_is_sub_table [OF assms(1)]
    using assms(3,4) by (intro put_sub_tables) (simp_all add: fill_slots_def map_const_replicate)
  then show ?thesis using assms(2) by (simp add: fill_dtable_x2_for_weight_def run_x2_def)
qed

subsection \<open>Positions\<close>

lemma weight_start_Suc: "1 \<le> w \<Longrightarrow> weight_start ws (Suc w) = weight_start ws w + count_list ws w"
  by (simp add: weight_start_def)

lemma weight_start_le: "weight_start ws w \<le> length ws"
proof -
  have "(\<Sum>v \<in> {1..<w}. count_list ws v) \<le> length ws"
  proof (induction ws)
    case (Cons x xs)
    have "(\<Sum>v \<in> {1..<w}. count_list (x # xs) v) = (\<Sum>v \<in> {1..<w}. count_list xs v + (if x = v then 1 else 0))"
      by (intro sum.cong) simp_all
    also have "\<dots> = (\<Sum>v \<in> {1..<w}. count_list xs v) + (if x \<in> {1..<w} then 1 else 0)"
      by (simp add: sum.distrib)
    finally show ?case using Cons.IH by (simp split: if_splits)
  qed simp
  then show ?thesis by (simp add: weight_start_def)
qed

lemma slot_behind_1 [simp]: "slot_behind ws log t c (Suc 0) = 0" "slot_behind ws log t c 0 = 0"
  by (simp_all add: slot_behind_def)

lemma slot_behind_Suc:
  assumes "1 \<le> w" and "log \<le> t" and "c + log + 1 \<le> w + t"
  shows "slot_behind ws log t c (Suc w) = slot_behind ws log t c w + count_list ws w * 2 ^ (w + t - (c + log + 1))"
proof -
  have "slots_of w * 2 ^ (t - log) = (2 :: nat) ^ (w - 1 + (t - log))"
    using assms(1) by (simp only: slots_of_pos power_add)
  also have "w - 1 + (t - log) = w + t - (c + log + 1) + c" using assms by simp
  finally have p: "slots_of w * 2 ^ (t - log) = 2 ^ (w + t - (c + log + 1)) * 2 ^ c" by (simp only: power_add)
  have "base_of_rank ws (Suc w) * 2 ^ (t - log)
    = base_of_rank ws w * 2 ^ (t - log) + count_list ws w * (slots_of w * 2 ^ (t - log))"
    by (simp add: base_of_rank_Suc algebra_simps)
  also have "\<dots> = base_of_rank ws w * 2 ^ (t - log) + (count_list ws w * 2 ^ (w + t - (c + log + 1))) * 2 ^ c"
    unfolding p by (simp add: algebra_simps)
  finally show ?thesis unfolding slot_behind_def by simp
qed

lemma slot_behind_mono: "v \<le> w \<Longrightarrow> slot_behind ws log t c v \<le> slot_behind ws log t c w"
  unfolding slot_behind_def by (intro div_le_mono mult_le_mono1 base_of_rank_mono)

lemma slot_behind_end:
  assumes "weights_ok ws log" and "\<forall>w \<in> set ws. w \<le> m" and "log \<le> t" and "c \<le> t"
  shows "slot_behind ws log t c (Suc m) = 2 ^ (t - c)"
proof -
  have "base_of_rank ws (Suc m) = 2 ^ log"
    using base_of_rank_taken [of ws "Suc m"] assms(1,2) by (simp add: weights_ok_def less_Suc_eq_le)
  then have "slot_behind ws log t c (Suc m) = 2 ^ (log + (t - log)) div 2 ^ c" by (simp add: slot_behind_def power_add)
  also have "\<dots> = 2 ^ (t - c)" using assms(3,4) by (simp add: power_diff)
  finally show ?thesis .
qed

subsection \<open>Filling\<close>

text \<open>What the builder has before it fills: where each weight starts among the ordered symbols, and its first slot
  behind a code of each length that leaves room for a second.\<close>

definition x2_plan ::
    "nat list \<Rightarrow> nat \<Rightarrow> nat \<Rightarrow> nat \<Rightarrow> bytes \<Rightarrow> nat list \<Rightarrow> nat list list \<Rightarrow> bool" where
  "x2_plan ws log t m ordered rs rows \<longleftrightarrow> weights_ok ws log \<and> log \<le> t \<and> t \<le> 12 \<and> 1 \<le> m \<and> m \<le> log
     \<and> (\<forall>w \<in> set ws. w \<le> m) \<and> length ordered = 256 \<and> length rs = 14
     \<and> (\<forall>w. 1 \<le> w \<and> w \<le> m + 1 \<longrightarrow> rs ! w = weight_start ws w) \<and> length rows = 12
     \<and> (\<forall>c. c = 0 \<or> log + 1 - m \<le> c \<and> c + (log + 1 - m) \<le> t \<longrightarrow>
          length (rows ! c) = 13 \<and> (\<forall>w. 1 \<le> w \<and> w \<le> m \<longrightarrow> rows ! c ! w = slot_behind ws log t c w))"

definition level2_x2 :: "nat list \<Rightarrow> nat \<Rightarrow> nat \<Rightarrow> nat \<Rightarrow> bytes \<Rightarrow> nat \<Rightarrow> nat \<Rightarrow> u8 \<Rightarrow> nat \<Rightarrow> delt_x2 list" where
  "level2_x2 ws log t m ordered c v b w =
     replicate (slot_behind ws log t c v) (entry_x2 c 0 1 b)
     @ concat (map (\<lambda>w. run_x2 t (log + 1 - w + c) b 2 (symbols_of ws ordered w)) [v..<w])"

lemma symbols_range:
  assumes "x2_plan ws log t m ordered rs rows" and "1 \<le> w" and "w \<le> m"
  shows "idx rs w = Ok (weight_start ws w)" and "idx rs (w + 1) = Ok (weight_start ws (w + 1))"
    and "get_range ordered (weight_start ws w) (weight_start ws (w + 1)) = Some (symbols_of ws ordered w)"
    and "length (symbols_of ws ordered w) = count_list ws w"
proof -
  have p: "length ordered = 256" "length rs = 14" "m \<le> 12" "length ws \<le> 256"
    "\<forall>w. 1 \<le> w \<and> w \<le> m + 1 \<longrightarrow> rs ! w = weight_start ws w"
    using assms(1) by (auto simp: x2_plan_def weights_ok_def)
  then show "idx rs w = Ok (weight_start ws w)" "idx rs (w + 1) = Ok (weight_start ws (w + 1))"
    using assms(2,3) by simp_all
  have "weight_start ws (w + 1) \<le> length ordered" using weight_start_le [of ws "w + 1"] p by simp
  then show "get_range ordered (weight_start ws w) (weight_start ws (w + 1)) = Some (symbols_of ws ordered w)"
    "length (symbols_of ws ordered w) = count_list ws w"
    using assms(2) by (simp_all add: symbols_of_def weight_start_Suc)
qed

lemma level2_weight_step:
  assumes P: "x2_plan ws log t m ordered rs rows" and v: "1 \<le> w" "w \<le> m" "c + log + 1 \<le> w + t"
    and c: "log + 1 - m \<le> c" "c + (log + 1 - m) \<le> t"
    and sub: "length sub = 2 ^ (t - c)"
  shows "level2_weight t c (rows ! c) ordered rs (log + 1) b w sub
    = Ok (take (slot_behind ws log t c w) sub @ run_x2 t (log + 1 - w + c) b 2 (symbols_of ws ordered w)
        @ drop (slot_behind ws log t c (Suc w)) sub)"
    and "slot_behind ws log t c (Suc w) \<le> length sub"
    and "length (run_x2 t (log + 1 - w + c) b 2 (symbols_of ws ordered w))
      = slot_behind ws log t c (Suc w) - slot_behind ws log t c w"
proof -
  have p: "log \<le> t" "t \<le> 12" "m \<le> log" "length (rows ! c) = 13" "rows ! c ! w = slot_behind ws log t c w"
    using P v c by (simp_all add: x2_plan_def)
  let ?k = "(2 :: nat) ^ (t - (log + 1 - w + c))" let ?at = "slot_behind ws log t c w"
  have e: "t - (log + 1 - w + c) = w + t - (c + log + 1)" using v p by simp
  have S: "slot_behind ws log t c (Suc w) = ?at + count_list ws w * ?k"
    unfolding e using slot_behind_Suc [OF v(1) p(1) v(3)] .
  have "slot_behind ws log t c (Suc w) \<le> slot_behind ws log t c (Suc m)" using v by (intro slot_behind_mono) simp
  also have "\<dots> = 2 ^ (t - c)" using P c by (intro slot_behind_end) (auto simp: x2_plan_def)
  finally show le: "slot_behind ws log t c (Suc w) \<le> length sub" using sub by simp
  note R = symbols_range [OF P v(1,2)]
  show "length (run_x2 t (log + 1 - w + c) b 2 (symbols_of ws ordered w))
      = slot_behind ws log t c (Suc w) - slot_behind ws log t c w" using R(4) S by simp
  have "length sub \<le> 2 ^ 12" unfolding sub using p by (intro power_increasing) simp_all
  then have u: "length sub \<le> usize_max" by (rule le_trans) (simp add: usize_max_def)
  have i: "idx (rows ! c) w = Ok ?at" "sub_nat (log + 1) w = Ok (log + 1 - w)" using p v by (simp_all add: sub_nat_def)
  have "fill_dtable_x2_for_weight (drop ?at sub) (symbols_of ws ordered w) (log + 1 - w + c) t b 2
    = Ok (run_x2 t (log + 1 - w + c) b 2 (symbols_of ws ordered w) @ drop (count_list ws w * ?k) (drop ?at sub))"
    using fill_for_weight_Ok [of 2 "log + 1 - w + c" t "symbols_of ws ordered w" "drop ?at sub" b] R(4) S le u v p
    by simp
  then have "on_slice sub ?at (length sub) (Corruption ''Huff0 X2 rank starts past the table'')
      (\<lambda>slots. fill_dtable_x2_for_weight slots (symbols_of ws ordered w) (log + 1 - w + c) t b 2)
    = Ok (take ?at sub @ run_x2 t (log + 1 - w + c) b 2 (symbols_of ws ordered w) @ drop (slot_behind ws log t c (Suc w)) sub)"
    unfolding S using le S by (subst on_slice_Ok) (simp_all add: add.commute)
  then show "level2_weight t c (rows ! c) ordered rs (log + 1) b w sub
    = Ok (take ?at sub @ run_x2 t (log + 1 - w + c) b 2 (symbols_of ws ordered w) @ drop (slot_behind ws log t c (Suc w)) sub)"
    unfolding level2_weight_def R(1,2,3) i and_then.simps ok_or.simps using le S by simp
qed

lemma length_level2_x2:
  assumes P: "x2_plan ws log t m ordered rs rows" and v: "1 \<le> v" "v \<le> w" "w \<le> m + 1" "c + log + 1 \<le> v + t"
    and c: "log + 1 - m \<le> c" "c + (log + 1 - m) \<le> t"
  shows "length (level2_x2 ws log t m ordered c v b w) = slot_behind ws log t c w"
  using v(2,3)
proof (induction w rule: dec_induct)
  case base
  then show ?case by (simp add: level2_x2_def)
next
  case (step w)
  have w: "1 \<le> w" "w \<le> m" "c + log + 1 \<le> w + t" using v step by simp_all
  have "length (run_x2 t (log + 1 - w + c) b 2 (symbols_of ws ordered w))
      = slot_behind ws log t c (Suc w) - slot_behind ws log t c w"
    by (rule level2_weight_step(3) [OF P w c, where sub = "replicate (2 ^ (t - c)) undefined"]) simp
  moreover have "slot_behind ws log t c w \<le> slot_behind ws log t c (Suc w)" by (rule slot_behind_mono) simp
  ultimately show ?case using step by (simp add: level2_x2_def)
qed

lemma fill_level2_Ok:
  assumes P: "x2_plan ws log t m ordered rs rows" and c: "log + 1 - m \<le> c" "c + (log + 1 - m) \<le> t" "c \<le> log"
    and v: "v = nat (max (int c + (int (log + 1) - int t)) 1)" and sub: "length sub = 2 ^ (t - c)"
  shows "fill_dtable_x2_level2 t c (rows ! c) v (m + 1) ordered rs (log + 1) b sub
    = Ok (level2_x2 ws log t m ordered c v b (m + 1))"
proof -
  have p: "log \<le> t" "t \<le> 12" "m \<le> log" "1 \<le> m" "length (rows ! c) = 13"
    "\<forall>w. 1 \<le> w \<and> w \<le> m \<longrightarrow> rows ! c ! w = slot_behind ws log t c w"
    using P c by (simp_all add: x2_plan_def)
  have V: "1 \<le> v" "v \<le> m" "c + log + 1 \<le> v + t" using v c p by linarith+
  let ?pre = "replicate (slot_behind ws log t c v) (entry_x2 c 0 1 b)"
  let ?sub = "?pre @ drop (slot_behind ws log t c v) sub"
  have end_at: "slot_behind ws log t c v \<le> length sub"
  proof -
    have "slot_behind ws log t c v \<le> slot_behind ws log t c (Suc m)" using V by (intro slot_behind_mono) simp
    also have "\<dots> = 2 ^ (t - c)" using P c by (intro slot_behind_end) (auto simp: x2_plan_def)
    finally show ?thesis using sub by simp
  qed
  have first: "(if 1 < v then
                 and_then (ok_or (slice_get (rows ! c) v) (Corruption ''Huff0 X2 weight exceeds the table log'')) (\<lambda>skip.
                 and_then (build_delt_x2 b c 0 1) (\<lambda>entry.
                   on_slice sub 0 skip (Corruption ''Huff0 X2 single-symbol run overflows'') (fill_slots entry)))
               else Ok sub) = Ok ?sub"
  proof (cases "1 < v")
    case True
    have "slice_get (rows ! c) v = Some (slot_behind ws log t c v)" using p V by simp
    moreover have "build_delt_x2 b c 0 1 = Ok (entry_x2 c 0 1 b)" by (simp add: build_delt_x2_def entry_x2_def)
    moreover have "on_slice sub 0 (slot_behind ws log t c v) (Corruption ''Huff0 X2 single-symbol run overflows'')
        (fill_slots (entry_x2 c 0 1 b)) = Ok ?sub"
      using end_at by (subst on_slice_Ok) (simp_all add: fill_slots_def map_const_replicate)
    ultimately show ?thesis using True by simp
  next
    case False
    then have "v = 1" using V by simp
    then show ?thesis by simp
  qed
  let ?I = "\<lambda>w xs. xs = level2_x2 ws log t m ordered c v b w @ drop (slot_behind ws log t c w) sub"
  have "\<exists>s'. loop_over (level2_weight t c (rows ! c) ordered rs (log + 1) b) [v..<m + 1] ?sub = Ok s' \<and> ?I (m + 1) s'"
  proof (rule loop_from_Ok [where I = ?I])
    fix w xs assume w: "v \<le> w" "w < m + 1" and I: "?I w xs"
    have W: "1 \<le> w" "w \<le> m" "c + log + 1 \<le> w + t" using V w by simp_all
    have l: "length (level2_x2 ws log t m ordered c v b w) = slot_behind ws log t c w"
      using P V w c by (intro length_level2_x2) simp_all
    have "slot_behind ws log t c w \<le> slot_behind ws log t c (Suc w)" by (rule slot_behind_mono) simp
    note mono = this level2_weight_step(2) [OF P W c(1,2) sub]
    have xs: "length xs = 2 ^ (t - c)" using I l mono sub by simp
    show "\<exists>s'. level2_weight t c (rows ! c) ordered rs (log + 1) b w xs = Ok s' \<and> ?I (Suc w) s'"
      unfolding level2_weight_step(1) [OF P W c(1,2) xs]
      using I l mono w by (simp add: level2_x2_def)
  qed (use V in \<open>simp_all add: level2_x2_def\<close>)
  moreover have "slot_behind ws log t c (m + 1) = length sub"
    using slot_behind_end [of ws log m t c] P c sub by (auto simp: x2_plan_def)
  ultimately show ?thesis unfolding fill_dtable_x2_level2_def first and_then.simps by simp
qed

definition second_from :: "nat \<Rightarrow> nat \<Rightarrow> nat \<Rightarrow> nat" where
  "second_from log t c = nat (max (int c + (int (log + 1) - int t)) 1)"

definition piece_x2 :: "nat list \<Rightarrow> nat \<Rightarrow> nat \<Rightarrow> nat \<Rightarrow> bytes \<Rightarrow> nat \<Rightarrow> delt_x2 list" where
  "piece_x2 ws log t m ordered w =
     (let c = log + 1 - w in
      if log + 1 - m \<le> t - c
      then concat (map (\<lambda>s. level2_x2 ws log t m ordered c (second_from log t c) s (m + 1)) (symbols_of ws ordered w))
      else run_x2 t c 0 1 (symbols_of ws ordered w))"

definition table_x2 :: "nat list \<Rightarrow> nat \<Rightarrow> nat \<Rightarrow> nat \<Rightarrow> bytes \<Rightarrow> nat \<Rightarrow> delt_x2 list" where
  "table_x2 ws log t m ordered w = concat (map (piece_x2 ws log t m ordered) [1..<w])"

lemma length_concat_const: "(\<And>x. x \<in> set xs \<Longrightarrow> length (f x) = k) \<Longrightarrow> length (concat (map f xs)) = length xs * k"
  by (induction xs) simp_all

lemma level1_weight_step:
  assumes P: "x2_plan ws log t m ordered rs rows" and w: "1 \<le> w" "w \<le> m" and es: "length es = 2 ^ t"
  shows "level1_weight t ordered rs rows m (log + 1) (log + 1 - m) w es
    = Ok (take (slot_behind ws log t 0 w) es @ piece_x2 ws log t m ordered w @ drop (slot_behind ws log t 0 (Suc w)) es)"
    and "slot_behind ws log t 0 (Suc w) \<le> length es"
    and "length (piece_x2 ws log t m ordered w) = slot_behind ws log t 0 (Suc w) - slot_behind ws log t 0 w"
proof -
  have p: "log \<le> t" "t \<le> 12" "m \<le> log" "1 \<le> m" "length rows = 12" "length (rows ! 0) = 13"
    "rows ! 0 ! w = slot_behind ws log t 0 w"
    using P w by (auto simp: x2_plan_def)
  let ?c = "log + 1 - w" let ?at = "slot_behind ws log t 0 w" let ?left = "t - ?c"
  let ?syms = "symbols_of ws ordered w"
  note R = symbols_range [OF P w]
  have S: "slot_behind ws log t 0 (Suc w) = ?at + length ?syms * 2 ^ ?left"
  proof -
    have e: "?left = w + t - (0 + log + 1)" "0 + log + 1 \<le> w + t" using w p by linarith+
    show ?thesis unfolding e(1) R(4) by (rule slot_behind_Suc [OF w(1) p(1) e(2)])
  qed
  have "slot_behind ws log t 0 (Suc w) \<le> slot_behind ws log t 0 (Suc m)" using w by (intro slot_behind_mono) simp
  also have "\<dots> = 2 ^ (t - 0)" using P by (intro slot_behind_end) (auto simp: x2_plan_def)
  finally show le: "slot_behind ws log t 0 (Suc w) \<le> length es" using es by simp
  have "length es \<le> 2 ^ 12" unfolding es using p by (intro power_increasing) simp_all
  then have u: "length es \<le> usize_max" by (rule le_trans) (simp add: usize_max_def)
  have i: "sub_nat (log + 1) w = Ok ?c" "idx rows 0 = Ok (rows ! 0)" "idx (rows ! 0) w = Ok ?at" "sub_nat t ?c = Ok ?left"
    using p w by (simp_all add: sub_nat_def)
  note unf = level1_weight_def R(1,2,3) i and_then.simps ok_or.simps
  show "level1_weight t ordered rs rows m (log + 1) (log + 1 - m) w es
    = Ok (take ?at es @ piece_x2 ws log t m ordered w @ drop (slot_behind ws log t 0 (Suc w)) es)"
    "length (piece_x2 ws log t m ordered w) = slot_behind ws log t 0 (Suc w) - ?at"
  proof -
    have both: "level1_weight t ordered rs rows m (log + 1) (log + 1 - m) w es
        = Ok (take ?at es @ piece_x2 ws log t m ordered w @ drop (slot_behind ws log t 0 (Suc w)) es)
      \<and> length (piece_x2 ws log t m ordered w) = slot_behind ws log t 0 (Suc w) - ?at"
    proof (cases "log + 1 - m \<le> ?left")
      case True
      let ?g = "\<lambda>s. level2_x2 ws log t m ordered ?c (second_from log t ?c) s (m + 1)"
      let ?fill = "\<lambda>symbol sub_table. and_then (idx rows ?c) (\<lambda>row.
        fill_dtable_x2_level2 t ?c row (second_from log t ?c) (m + 1) ordered rs (log + 1) symbol sub_table)"
      have c: "log + 1 - m \<le> ?c" "?c + (log + 1 - m) \<le> t" "?c \<le> log" using w p True by linarith+
      have V: "1 \<le> second_from log t ?c" "second_from log t ?c \<le> m + 1" "?c + log + 1 \<le> second_from log t ?c + t"
        using c p unfolding second_from_def by linarith+
      have lg: "length (?g s) = 2 ^ ?left" for s
        using length_level2_x2 [OF P V(1,2) le_refl V(3) c(1,2)] slot_behind_end [of ws log m t ?c] P c
        by (auto simp: x2_plan_def)
      have "?c < 12" using c p by linarith
      then have row: "idx rows ?c = Ok (rows ! ?c)" using p by simp
      have fill: "?fill s sub = Ok (?g s)" if "length sub = 2 ^ ?left" for s sub
        unfolding row and_then.simps by (rule fill_level2_Ok [OF P c second_from_def that])
      have "loop_over (put_sub_table (2 ^ ?left) ?fill) ?syms (es, ?at)
        = Ok (take ?at es @ concat (map ?g ?syms) @ drop (?at + length ?syms * 2 ^ ?left) es, ?at + length ?syms * 2 ^ ?left)"
        using le u fill lg S by (intro put_sub_tables) simp_all
      moreover have "piece_x2 ws log t m ordered w = concat (map ?g ?syms)" using True by (simp add: piece_x2_def Let_def)
      moreover have "length (concat (map ?g ?syms)) = length ?syms * 2 ^ ?left" by (rule length_concat_const) (rule lg)
      ultimately show ?thesis unfolding unf if_P [OF True] Let_def second_from_def [symmetric] S by simp
    next
      case False
      have piece: "piece_x2 ws log t m ordered w = run_x2 t ?c 0 1 ?syms" using False by (simp add: piece_x2_def Let_def)
      have "fill_dtable_x2_for_weight (drop ?at es) ?syms ?c t 0 1
        = Ok (run_x2 t ?c 0 1 ?syms @ drop (length ?syms * 2 ^ ?left) (drop ?at es))"
        using le S u w p by (intro fill_for_weight_Ok) simp_all
      then have "on_slice es ?at (length es) (Corruption ''Huff0 X2 rank starts past the table'')
          (\<lambda>slots. fill_dtable_x2_for_weight slots ?syms ?c t 0 1)
        = Ok (take ?at es @ run_x2 t ?c 0 1 ?syms @ drop (slot_behind ws log t 0 (Suc w)) es)"
        unfolding S using le S by (subst on_slice_Ok) (simp_all add: add.commute)
      then show ?thesis unfolding unf if_not_P [OF False] piece using S by simp
    qed
    then show "level1_weight t ordered rs rows m (log + 1) (log + 1 - m) w es
        = Ok (take ?at es @ piece_x2 ws log t m ordered w @ drop (slot_behind ws log t 0 (Suc w)) es)"
      "length (piece_x2 ws log t m ordered w) = slot_behind ws log t 0 (Suc w) - ?at" by simp_all
  qed
qed

lemma length_table_x2:
  assumes "x2_plan ws log t m ordered rs rows" and "1 \<le> w" and "w \<le> m + 1"
  shows "length (table_x2 ws log t m ordered w) = slot_behind ws log t 0 w"
  using assms(2,3)
proof (induction w rule: dec_induct)
  case (step w)
  have w: "1 \<le> w" "w \<le> m" using step by simp_all
  have "length (piece_x2 ws log t m ordered w) = slot_behind ws log t 0 (Suc w) - slot_behind ws log t 0 w"
    by (rule level1_weight_step(3) [OF assms(1) w, where es = "replicate (2 ^ t) undefined"]) simp
  moreover have "slot_behind ws log t 0 w \<le> slot_behind ws log t 0 (Suc w)" by (rule slot_behind_mono) simp
  ultimately show ?case using step by (simp add: table_x2_def)
qed (simp add: table_x2_def)

lemma fill_dtable_x2_Ok:
  assumes P: "x2_plan ws log t m ordered rs rows" and es: "length es = 2 ^ t"
  shows "fill_dtable_x2 t ordered rs rows m (log + 1) es = Ok (table_x2 ws log t m ordered (m + 1))"
    and "length (table_x2 ws log t m ordered (m + 1)) = 2 ^ t"
proof -
  let ?I = "\<lambda>w xs. xs = table_x2 ws log t m ordered w @ drop (slot_behind ws log t 0 w) es"
  have m: "1 \<le> m" "m \<le> log" using P by (simp_all add: x2_plan_def)
  have "\<exists>s'. loop_over (level1_weight t ordered rs rows m (log + 1) (log + 1 - m)) [1..<m + 1] es = Ok s' \<and> ?I (m + 1) s'"
  proof (rule loop_from_Ok [where I = ?I])
    fix w xs assume w: "1 \<le> w" "w < m + 1" and I: "?I w xs"
    have W: "w \<le> m" using w by simp
    have l: "length (table_x2 ws log t m ordered w) = slot_behind ws log t 0 w"
      using P w by (intro length_table_x2) simp_all
    have "slot_behind ws log t 0 w \<le> slot_behind ws log t 0 (Suc w)" by (rule slot_behind_mono) simp
    note mono = this level1_weight_step(2) [OF P w(1) W es]
    have xs: "length xs = 2 ^ t" using I l mono es by simp
    show "\<exists>s'. level1_weight t ordered rs rows m (log + 1) (log + 1 - m) w xs = Ok s' \<and> ?I (Suc w) s'"
      unfolding level1_weight_step(1) [OF P w(1) W xs] using I l mono w by (simp add: table_x2_def)
  qed (simp_all add: table_x2_def)
  moreover have E: "slot_behind ws log t 0 (m + 1) = 2 ^ t"
    using slot_behind_end [of ws log m t 0] P by (auto simp: x2_plan_def)
  moreover have "sub_nat (log + 1) m = Ok (log + 1 - m)" using m by (simp add: sub_nat_def)
  ultimately show "fill_dtable_x2 t ordered rs rows m (log + 1) es = Ok (table_x2 ws log t m ordered (m + 1))"
    using es by (simp add: fill_dtable_x2_def)
  show "length (table_x2 ws log t m ordered (m + 1)) = 2 ^ t"
    using length_table_x2 [OF P, of "m + 1"] E by simp
qed

text \<open>What decoding needs of a table: every entry emits one symbol or two and takes at most the bits looked at.\<close>

definition good_x2 :: "delt_x2 list \<times> nat \<Rightarrow> bool" where
  "good_x2 t \<longleftrightarrow> (case t of (table, log) \<Rightarrow> 1 \<le> log \<and> log \<le> 12 \<and> length table = 2 ^ log
     \<and> (\<forall>e \<in> set table. 1 \<le> x2_length e \<and> x2_length e \<le> 2 \<and> x2_nb_bits e \<le> 12))"

lemma table_x2_good:
  assumes P: "x2_plan ws log t m ordered rs rows"
  shows "good_x2 (table_x2 ws log t m ordered (m + 1), t)"
proof -
  have p: "log \<le> t" "t \<le> 12" "m \<le> log" "1 \<le> m" using P by (auto simp: x2_plan_def)
  let ?ok = "\<lambda>e. 1 \<le> x2_length e \<and> x2_length e \<le> 2 \<and> x2_nb_bits e \<le> 12"
  have E: "?ok (entry_x2 nb b l s)" if "nb \<le> 12" "l = 1 \<or> l = 2" for nb b l s
    using that by (auto simp: entry_x2_def)
  have run: "?ok e" if "e \<in> set (run_x2 t nb b l ss)" "nb \<le> 12" "l = 1 \<or> l = 2" for e nb b l ss
    using that E by (auto simp: run_x2_def)
  have lev: "?ok e" if "e \<in> set (level2_x2 ws log t m ordered c (second_from log t c) b (m + 1))"
      "c \<le> t" for e c b
  proof -
    have v: "c + log + 1 \<le> second_from log t c + t" using p unfolding second_from_def by linarith
    from that(1) consider "e = entry_x2 c 0 1 b"
      | w where "second_from log t c \<le> w" "w < m + 1" "e \<in> set (run_x2 t (log + 1 - w + c) b 2 (symbols_of ws ordered w))"
      by (auto simp: level2_x2_def)
    then show ?thesis
    proof cases
      case 1
      then show ?thesis using that(2) p E by simp
    next
      case (2 w)
      have "log + 1 - w + c \<le> 12" using 2(1,2) v p by linarith
      from run [OF 2(3) this] show ?thesis by simp
    qed
  qed
  have "?ok e" if "e \<in> set (table_x2 ws log t m ordered (m + 1))" for e
  proof -
    from that obtain w where w: "1 \<le> w" "w < m + 1" "e \<in> set (piece_x2 ws log t m ordered w)"
      by (auto simp: table_x2_def)
    have c: "log + 1 - w \<le> t" "log + 1 - w \<le> 12" using w p by linarith+
    show ?thesis
    proof (cases "log + 1 - m \<le> t - (log + 1 - w)")
      case True
      then obtain s where "e \<in> set (level2_x2 ws log t m ordered (log + 1 - w) (second_from log t (log + 1 - w)) s (m + 1))"
        using w(3) by (auto simp: piece_x2_def Let_def)
      from lev [OF this c(1)] show ?thesis .
    next
      case False
      then have "e \<in> set (run_x2 t (log + 1 - w) 0 1 (symbols_of ws ordered w))" using w(3) by (simp add: piece_x2_def Let_def)
      from run [OF this c(2)] show ?thesis by simp
    qed
  qed
  moreover have "length (table_x2 ws log t m ordered (m + 1)) = 2 ^ t"
    by (rule fill_dtable_x2_Ok(2) [OF P, of "replicate (2 ^ t) undefined"]) simp
  ultimately show ?thesis using p by (simp add: good_x2_def)
qed

subsection \<open>Reading the table\<close>

lemma max_weight_Ok:
  assumes "length rank = 13" and "n \<le> 12" and "1 \<le> k" and "k \<le> n" and "rank ! k \<noteq> 0"
  shows "\<exists>m. last_counted Fault rank n = Ok m \<and> k \<le> m \<and> m \<le> n \<and> (\<forall>w. m < w \<and> w \<le> n \<longrightarrow> rank ! w = 0)"
  using assms
proof (induction n)
  case (Suc n)
  show ?case
  proof (cases "rank ! Suc n = 0")
    case True
    then have "k \<le> n" using Suc.prems le_Suc_eq by metis
    with Suc obtain m where "last_counted Fault rank n = Ok m" "k \<le> m" "m \<le> n" "\<forall>w. m < w \<and> w \<le> n \<longrightarrow> rank ! w = 0" by auto
    then show ?thesis using True Suc.prems by (auto simp: le_Suc_eq)
  next
    case False
    then show ?thesis using Suc.prems by auto
  qed
qed simp

lemma rank_starts_x2:
  assumes "ranks_of ws rank" and "length ws \<le> 256" and "1 \<le> m" and "m \<le> 12"
  shows "\<exists>rs. loop_over (start_of_rank rank) [1..<m + 1] (replicate (HUF_TABLELOG_MAX + 2) 0, 0)
      = Ok (rs, weight_start ws (m + 1)) \<and> length rs = 14 \<and> (\<forall>w. 1 \<le> w \<and> w \<le> m \<longrightarrow> rs ! w = weight_start ws w)"
proof -
  let ?I = "\<lambda>i (rs, nxt). nxt = weight_start ws i \<and> length rs = 14 \<and> (\<forall>w. 1 \<le> w \<and> w < i \<longrightarrow> rs ! w = weight_start ws w)"
  have "\<exists>s'. loop_over (start_of_rank rank) [1..<m + 1] (replicate (HUF_TABLELOG_MAX + 2) 0, 0) = Ok s' \<and> ?I (m + 1) s'"
  proof (rule loop_from_Ok [where I = ?I])
    fix i s assume i: "1 \<le> i" "i < m + 1" and I: "?I i (s :: nat list \<times> nat)"
    obtain rs where s: "s = (rs, weight_start ws i)" "length rs = 14" "\<forall>w. 1 \<le> w \<and> w < i \<longrightarrow> rs ! w = weight_start ws w"
      using I by (cases s) simp
    have r: "idx rank i = Ok (count_list ws i)" using assms i by (simp add: ranks_of_def)
    have "weight_start ws (Suc i) \<le> 256" using weight_start_le [of ws "Suc i"] assms(2) by simp
    then have b: "weight_start ws i + count_list ws i < 2 ^ 32" using weight_start_Suc [OF i(1), of ws] by simp
    have "start_of_rank rank i s = Ok (rs[i := weight_start ws i], weight_start ws (Suc i))"
      unfolding start_of_rank_def s(1) prod.case r and_then.simps add_u32_def if_P [OF b]
      using s(2) i assms weight_start_Suc [OF i(1), of ws] by simp
    then show "\<exists>s'. start_of_rank rank i s = Ok s' \<and> ?I (Suc i) s'"
      using s i assms(4) by (auto simp: nth_list_update less_Suc_eq)
  qed (use assms in \<open>simp_all add: weight_start_def HUF_TABLELOG_MAX_def\<close>)
  then show ?thesis by auto
qed

text \<open>Sorting never leaves the list: a cursor has passed the symbols of its weight so far, the one for the absent
  symbols starts behind all others.\<close>

lemma sort_symbols_Ok:
  assumes ok: "\<forall>w \<in> set ws. w \<le> m" "m \<le> 12" "length ws \<le> 256"
    and hw: "length hw = 256" "ws = weights_of hw (length ws)"
    and rs: "length rs = 14" "\<forall>w. 1 \<le> w \<and> w \<le> m \<longrightarrow> rs ! w = weight_start ws w"
  shows "\<exists>ordered cs a. loop_over (sort_symbol hw) [0..<length ws]
      (replicate (HUF_SYMBOLVALUE_MAX + 1) 0, rs, weight_start ws (m + 1)) = Ok (ordered, cs, a) \<and> length ordered = 256"
proof -
  let ?I = "\<lambda>i (ordered, cs, a). length (ordered :: bytes) = 256 \<and> length cs = 14
    \<and> (\<forall>w. 1 \<le> w \<and> w \<le> m \<longrightarrow> cs ! w = weight_start ws w + count_list (take i ws) w)
    \<and> a = weight_start ws (m + 1) + count_list (take i ws) 0"
  have "\<exists>s'. loop_over (sort_symbol hw) [0..<length ws] (replicate (HUF_SYMBOLVALUE_MAX + 1) 0, rs, weight_start ws (m + 1)) = Ok s'
    \<and> ?I (length ws) s'"
  proof (rule loop_upt_Ok [where I = ?I])
    fix i s assume i: "i < length ws" and I: "?I i (s :: bytes \<times> nat list \<times> nat)"
    obtain ordered cs a where s: "s = (ordered, cs, a)" by (cases s)
    have J: "length ordered = 256" "length cs = 14" "a = weight_start ws (m + 1) + count_list (take i ws) 0"
      "\<And>w. 1 \<le> w \<Longrightarrow> w \<le> m \<Longrightarrow> cs ! w = weight_start ws w + count_list (take i ws) w" using I s by simp_all
    have wi: "ws ! i = unat (hw ! i)" "idx hw i = Ok (hw ! i)" "i < length hw"
    proof -
      have "length ws \<le> length hw" using ok hw by simp
      then show "idx hw i = Ok (hw ! i)" "i < length hw" using i by simp_all
      have "ws ! i = weights_of hw (length ws) ! i" using hw(2) by metis
      then show "ws ! i = unat (hw ! i)" using i ok hw(1) by (simp add: weights_of_def)
    qed
    have c: "count_list (take i ws) (ws ! i) < count_list ws (ws ! i)"
      using count_take_step [OF i, of "ws ! i"] count_take_mono [of "Suc i" "length ws" ws "ws ! i"] i by simp
    show "\<exists>s'. sort_symbol hw i s = Ok s' \<and> ?I (Suc i) s'"
    proof (cases "hw ! i = 0")
      case True
      have z: "ws ! i = 0" using True wi by simp
      have "weight_start ws (m + 1) + count_list ws 0 \<le> length ws"
      proof -
        have "(\<Sum>v \<in> {0..<m + 1}. count_list ws v) \<le> (\<Sum>v \<in> set ws \<union> {0..<m + 1}. count_list ws v)" by (intro sum_mono2) auto
        also have "\<dots> = (\<Sum>v \<in> set ws. count_list ws v)" by (intro sum.mono_neutral_right) auto
        also have "\<dots> = length ws" by (rule sum_count_set) simp_all
        finally have "(\<Sum>v \<in> {0..<m + 1}. count_list ws v) \<le> length ws" .
        moreover have "(\<Sum>v \<in> {0..<m + 1}. count_list ws v) = count_list ws 0 + (\<Sum>v \<in> {Suc 0..<m + 1}. count_list ws v)"
          by (rule sum.atLeast_Suc_lessThan) simp
        ultimately show ?thesis by (simp add: weight_start_def del: sum.op_ivl_Suc)
      qed
      then have a: "a < 256" using c z J(3) ok(3) by simp
      have "sort_symbol hw i s = Ok (ordered[a := word_of_nat i], cs, a + 1)"
        using True a J(1) by (simp add: sort_symbol_def s wi(2) upd_def add_u32_def)
      then show ?thesis using J z i by (auto simp: count_take_step)
    next
      case False
      let ?w = "unat (hw ! i)"
      have w: "1 \<le> ?w" "?w \<le> m" using False wi ok(1) i nth_mem [OF i] by (auto simp: unat_gt_0 Suc_le_eq)
      have sl: "cs ! ?w < 256"
      proof -
        have "weight_start ws (Suc ?w) \<le> length ws" by (rule weight_start_le)
        then show ?thesis using J(4) [OF w] c wi(1) ok(3) weight_start_Suc [OF w(1), of ws] by simp
      qed
      have "sort_symbol hw i s = Ok (ordered[cs ! ?w := word_of_nat i], cs[?w := cs ! ?w + 1], a)"
        using False sl w J(1,2) ok(2) wi(3) by (simp add: sort_symbol_def s wi(2) idx_def upd_def add_u32_def)
      then show ?thesis using J w wi(1) i ok(2) by (auto simp: count_take_step nth_list_update)
    qed
  qed (use rs in \<open>auto simp: HUF_SYMBOLVALUE_MAX_def\<close>)
  then show ?thesis by auto
qed

lemma first_row_Ok:
  assumes ok: "weights_ok ws log" "ranks_of ws rank" "\<forall>w \<in> set ws. w \<le> m" "1 \<le> m" "m \<le> log" "log \<le> t" "t \<le> 12"
  shows "\<exists>row. loop_over (first_row rank (int t - int log - 1)) [1..<m + 1] (replicate (HUF_TABLELOG_MAX + 1) 0, 0)
      = Ok (row, 2 ^ t) \<and> length row = 13 \<and> (\<forall>w. 1 \<le> w \<and> w \<le> m \<longrightarrow> row ! w = slot_behind ws log t 0 w)"
proof -
  let ?I = "\<lambda>i (row, nxt). nxt = slot_behind ws log t 0 i \<and> length row = 13
    \<and> (\<forall>w. 1 \<le> w \<and> w < i \<longrightarrow> row ! w = slot_behind ws log t 0 w)"
  have E: "slot_behind ws log t 0 (m + 1) = 2 ^ t" using slot_behind_end [OF ok(1,3,6), of 0] by simp
  have "\<exists>s'. loop_over (first_row rank (int t - int log - 1)) [1..<m + 1] (replicate (HUF_TABLELOG_MAX + 1) 0, 0) = Ok s'
    \<and> ?I (m + 1) s'"
  proof (rule loop_from_Ok [where I = ?I])
    fix i s assume i: "1 \<le> i" "i < m + 1" and I: "?I i (s :: nat list \<times> nat)"
    obtain row where s: "s = (row, slot_behind ws log t 0 i)" "length row = 13"
      "\<forall>w. 1 \<le> w \<and> w < i \<longrightarrow> row ! w = slot_behind ws log t 0 w"
      using I by (cases s) simp
    have r: "idx rank i = Ok (count_list ws i)" using ok i by (simp add: ranks_of_def)
    have sh: "0 \<le> int i + (int t - int log - 1)" "int i + (int t - int log - 1) < 32"
      "nat (int i + (int t - int log - 1)) = i + t - (0 + log + 1)" using ok i by linarith+
    have S: "slot_behind ws log t 0 (Suc i) = slot_behind ws log t 0 i + count_list ws i * 2 ^ (i + t - (0 + log + 1))"
      using ok i by (intro slot_behind_Suc) simp_all
    have "slot_behind ws log t 0 (Suc i) \<le> slot_behind ws log t 0 (m + 1)" using i by (intro slot_behind_mono) simp
    also have "\<dots> \<le> 2 ^ 12" unfolding E using ok by (intro power_increasing) simp_all
    also have "(2 :: nat) ^ 12 < 2 ^ 32" by simp
    finally have b: "slot_behind ws log t 0 i + count_list ws i * 2 ^ (i + t - (0 + log + 1)) < 2 ^ 32" unfolding S .
    then have c: "cast_u32 (count_list ws i * 2 ^ (i + t - (0 + log + 1))) = count_list ws i * 2 ^ (i + t - (0 + log + 1))"
      unfolding cast_u32_def by (intro mod_less) (rule le_less_trans [OF le_add2])
    have sh': "\<not> \<not> (0 \<le> int i + (int t - int log - 1) \<and> int i + (int t - int log - 1) < 32)" using sh by simp
    have u: "upd row i (slot_behind ws log t 0 i) = Ok (row[i := slot_behind ws log t 0 i])" using s(2) i ok by simp
    have "first_row rank (int t - int log - 1) i s = Ok (row[i := slot_behind ws log t 0 i], slot_behind ws log t 0 (Suc i))"
      unfolding first_row_def s(1) prod.case u r and_then.simps Let_def if_not_P [OF sh'] sh(3) c add_u32_def if_P [OF b] S ..
    then show "\<exists>s'. first_row rank (int t - int log - 1) i s = Ok s' \<and> ?I (Suc i) s'"
      using s i ok by (auto simp: nth_list_update less_Suc_eq)
  qed (use ok in \<open>simp_all add: HUF_TABLELOG_MAX_def\<close>)
  then show ?thesis unfolding E [symmetric] by auto
qed

lemma deeper_rows_Ok:
  assumes row0: "length row0 = 13" "\<forall>w. 1 \<le> w \<and> w \<le> m \<longrightarrow> row0 ! w = slot_behind ws log t 0 w"
    and m: "m \<le> 12" and a: "1 \<le> a" and t: "t \<le> 12"
  shows "\<exists>rows. loop_over (deeper_row m) [a..<t - a + 1] (row0 # replicate (HUF_TABLELOG_MAX - 1) (replicate (HUF_TABLELOG_MAX + 1) 0))
      = Ok rows \<and> length rows = 12 \<and> (\<forall>c. c = 0 \<or> a \<le> c \<and> c + a \<le> t \<longrightarrow>
          length (rows ! c) = 13 \<and> (\<forall>w. 1 \<le> w \<and> w \<le> m \<longrightarrow> rows ! c ! w = slot_behind ws log t c w))"
proof (cases "a \<le> t - a + 1")
  case True
  let ?rows = "row0 # replicate (HUF_TABLELOG_MAX - 1) (replicate (HUF_TABLELOG_MAX + 1) 0)"
  let ?I = "\<lambda>i rows. length rows = 12 \<and> (\<forall>c < 12. length (rows ! c) = 13) \<and> rows ! 0 = row0
    \<and> (\<forall>c. a \<le> c \<and> c < i \<longrightarrow> (\<forall>w. 1 \<le> w \<and> w \<le> m \<longrightarrow> rows ! c ! w = slot_behind ws log t c w))"
  have "\<exists>s'. loop_over (deeper_row m) [a..<t - a + 1] ?rows = Ok s' \<and> ?I (t - a + 1) s'"
  proof (rule loop_from_Ok [where I = ?I])
    fix c rows assume c: "a \<le> c" "c < t - a + 1" and I: "?I c rows"
    have c12: "c < 12" "c \<noteq> 0" using c a t by linarith+
    let ?J = "\<lambda>i row. length row = 13 \<and> (\<forall>w. 1 \<le> w \<and> w < i \<longrightarrow> row ! w = slot_behind ws log t c w)"
    have "\<exists>row. loop_over (deeper_cell row0 c) [1..<m + 1] (rows ! c) = Ok row \<and> ?J (m + 1) row"
    proof (rule loop_from_Ok [where I = ?J])
      fix w row assume w: "1 \<le> w" "w < m + 1" and J: "?J w (row :: nat list)"
      have "row0 ! w div 2 ^ c = slot_behind ws log t c w" using row0(2) w by (simp add: slot_behind_def)
      then have "deeper_cell row0 c w row = Ok (row[w := slot_behind ws log t c w])"
        using row0(1) w J m by (simp add: deeper_cell_def)
      then show "\<exists>row'. deeper_cell row0 c w row = Ok row' \<and> ?J (Suc w) row'"
        using J w m by (auto simp: nth_list_update less_Suc_eq)
    qed (use I c12 in simp_all)
    then obtain row where row: "loop_over (deeper_cell row0 c) [1..<m + 1] (rows ! c) = Ok row" "?J (m + 1) row" by blast
    have i: "idx rows 0 = Ok row0" "idx rows c = Ok (rows ! c)" "upd rows c row = Ok (rows[c := row])" using I c12 by simp_all
    have "deeper_row m c rows = Ok (rows[c := row])"
      unfolding deeper_row_def i(1,2) and_then.simps row(1) i(3) ..
    then show "\<exists>rows'. deeper_row m c rows = Ok rows' \<and> ?I (Suc c) rows'"
      using I row(2) c12 by (auto simp: nth_list_update less_Suc_eq)
  qed (use True row0 in \<open>simp_all add: HUF_TABLELOG_MAX_def nth_Cons split: nat.splits\<close>)
  then obtain rows where rows: "loop_over (deeper_row m) [a..<t - a + 1] ?rows = Ok rows" "?I (t - a + 1) rows" by blast
  have "length (rows ! c) = 13 \<and> (\<forall>w. 1 \<le> w \<and> w \<le> m \<longrightarrow> rows ! c ! w = slot_behind ws log t c w)"
    if "c = 0 \<or> a \<le> c \<and> c + a \<le> t" for c
  proof (cases "c = 0")
    case False
    then have "a \<le> c" "c < t - a + 1" "c < 12" using that a t by linarith+
    then show ?thesis using rows(2) by simp
  qed (use rows(2) row0 in simp)
  then show ?thesis using rows by blast
next
  case False
  then have e: "[a..<t - a + 1] = []" by simp
  have "\<not> (a \<le> c \<and> c + a \<le> t)" for c using False a by linarith
  then show ?thesis unfolding e using row0 by (auto simp: HUF_TABLELOG_MAX_def)
qed

definition dtable_x2_ok :: "nat list \<Rightarrow> nat \<Rightarrow> dtable_x2 \<Rightarrow> bool" where
  "dtable_x2_ok ws log dt \<longleftrightarrow> length (x2_entries dt) = DTABLE_X2_SIZE
     \<and> x2_table_log dt = (if log \<le> 11 then 11 else 12)
     \<and> good_x2 (take (2 ^ x2_table_log dt) (x2_entries dt), x2_table_log dt)"

lemma read_dtable_x2_spec:
  assumes "length (x2_entries dt) = DTABLE_X2_SIZE"
  shows "(\<exists>e. read_stats (replicate 256 0) src = Err e \<and> read_dtable_x2 src dt = Err e)
    \<or> (\<exists>hw rank n log used dt'. read_stats (replicate 256 0) src = Ok (hw, rank, n, log, used) \<and> used \<le> length src
         \<and> weights_ok (weights_of hw n) log \<and> read_dtable_x2 src dt = Ok (dt', used) \<and> dtable_x2_ok (weights_of hw n) log dt')"
proof -
  have S: "meets (read_stats (replicate 256 0) src) (stats_ok src)" by (rule read_stats_meets) simp
  show ?thesis
  proof (cases "read_stats (replicate 256 0) src")
    case (Ok r)
    obtain hw rank n log used where r: "r = (hw, rank, n, log, used)" by (cases r)
    let ?ws = "weights_of hw n"
    have ok: "weights_ok ?ws log" "ranks_of ?ws rank" "length hw = 256" "n \<le> 256" "used \<le> length src"
      using S Ok r by (simp_all add: stats_ok_def)
    have n: "length ?ws = n" using ok by (simp add: weights_of_def)
    have L: "1 \<le> log" "log \<le> 12" "\<forall>w \<in> set ?ws. w \<le> log" "2 \<le> count_list ?ws 1"
      using ok(1) by (simp_all add: weights_ok_def HUF_TABLELOG_MAX_def)
    let ?t = "if log \<le> DECODER_FAST_TABLELOG then DECODER_FAST_TABLELOG else HUF_TABLELOG_MAX"
    have t: "log \<le> ?t" "?t \<le> 12" "1 \<le> ?t" "?t = (if log \<le> 11 then 11 else 12)"
      using L by (simp_all add: DECODER_FAST_TABLELOG_def HUF_TABLELOG_MAX_def)
    have rk: "length rank = 13" "rank ! 1 \<noteq> 0" "\<And>w. w \<le> 12 \<Longrightarrow> rank ! w = count_list ?ws w"
      using ok(2) L(4) by (simp_all add: ranks_of_def)
    from max_weight_Ok [OF rk(1) L(2) le_refl L(1) rk(2)] obtain m where
      m: "last_counted Fault rank log = Ok m" "1 \<le> m" "m \<le> log" "\<forall>w. m < w \<and> w \<le> log \<longrightarrow> rank ! w = 0" by blast
    have top: "\<forall>w \<in> set ?ws. w \<le> m"
    proof (rule ballI, rule ccontr)
      fix w assume w: "w \<in> set ?ws" "\<not> w \<le> m"
      then have "rank ! w = 0" using m(4) L(3) by auto
      moreover have "w \<le> 12" using w(1) L by auto
      ultimately have "count_list ?ws w = 0" using rk(3) by metis
      then show False using w(1) by (simp add: count_list_0_iff)
    qed
    have m12: "m \<le> 12" using m L by simp
    have nz: "length ?ws \<le> 256" using n ok by simp
    from rank_starts_x2 [OF ok(2) nz m(2) m12] obtain rs where
      rs: "loop_over (start_of_rank rank) [1..<m + 1] (replicate (HUF_TABLELOG_MAX + 2) 0, 0) = Ok (rs, weight_start ?ws (m + 1))"
        "length rs = 14" "\<forall>w. 1 \<le> w \<and> w \<le> m \<longrightarrow> rs ! w = weight_start ?ws w" by blast
    let ?rs = "rs[m + 1 := weight_start ?ws (m + 1)]"
    have rs': "length ?rs = 14" "\<forall>w. 1 \<le> w \<and> w \<le> m \<longrightarrow> ?rs ! w = weight_start ?ws w"
      "upd rs (m + 1) (weight_start ?ws (m + 1)) = Ok ?rs" using rs m12 by simp_all
    have "?ws = weights_of hw (length ?ws)" unfolding n ..
    from sort_symbols_Ok [OF top m12 nz ok(3) this rs'(1,2)] obtain ordered cs a where
      so: "loop_over (sort_symbol hw) [0..<n] (replicate (HUF_SYMBOLVALUE_MAX + 1) 0, ?rs, weight_start ?ws (m + 1))
        = Ok (ordered, cs, a)" "length ordered = 256" unfolding n by blast
    from first_row_Ok [OF ok(1,2) top m(2,3) t(1,2)] obtain row where
      row: "loop_over (first_row rank (int ?t - int log - 1)) [1..<m + 1] (replicate (HUF_TABLELOG_MAX + 1) 0, 0)
        = Ok (row, 2 ^ ?t)" "length row = 13" "\<forall>w. 1 \<le> w \<and> w \<le> m \<longrightarrow> row ! w = slot_behind ?ws log ?t 0 w" by blast
    let ?a = "log + 1 - m"
    have a: "1 \<le> ?a" "\<not> ?t < ?a" "sub_nat (log + 1) m = Ok ?a" using m t by (auto simp: sub_nat_def)
    from deeper_rows_Ok [OF row(2,3) m12 a(1) t(2)] obtain rows where
      rows: "loop_over (deeper_row m) [?a..<?t - ?a + 1] (row # replicate (HUF_TABLELOG_MAX - 1) (replicate (HUF_TABLELOG_MAX + 1) 0))
        = Ok rows" "length rows = 12" "\<forall>c. c = 0 \<or> ?a \<le> c \<and> c + ?a \<le> ?t \<longrightarrow>
          length (rows ! c) = 13 \<and> (\<forall>w. 1 \<le> w \<and> w \<le> m \<longrightarrow> rows ! c ! w = slot_behind ?ws log ?t c w)" by blast
    have P: "x2_plan ?ws log ?t m ordered ?rs rows"
      unfolding x2_plan_def
      using ok(1) t m top so(2) rs'(1,2) rows(2,3) rs(2) m12 by (auto simp: le_Suc_eq nth_list_update)
    have sz: "2 ^ ?t \<le> length (x2_entries dt)"
      unfolding assms DTABLE_X2_SIZE_def using t by (intro power_increasing) (simp_all add: HUF_TABLELOG_MAX_def)
    let ?es = "take (2 ^ ?t) (x2_entries dt)"
    have es: "length ?es = 2 ^ ?t" using sz by simp
    let ?table = "table_x2 ?ws log ?t m ordered (m + 1)"
    note F = fill_dtable_x2_Ok [OF P es]
    have ir: "idx_range (x2_entries dt) 0 (2 ^ ?t) = Ok ?es" using sz by (simp add: idx_range_def)
    have nt: "\<not> HUF_TABLELOG_MAX < log" "\<not> (2 :: nat) ^ ?t \<noteq> 2 ^ ?t" using L by (simp_all add: HUF_TABLELOG_MAX_def)
    have st: "replicate (HUF_SYMBOLVALUE_MAX + 1) 0 = replicate 256 (0 :: u8)" by (simp add: HUF_SYMBOLVALUE_MAX_def)
    let ?dt = "\<lparr>x2_table_log = ?t, x2_entries = ?table @ drop (2 ^ ?t) (x2_entries dt)\<rparr>"
    have R: "read_dtable_x2 src dt = Ok (?dt, used)"
      unfolding read_dtable_x2_def st Ok r and_then.simps prod.case if_not_P [OF nt(1)] Let_def m(1) rs(1) rs'(3)
        so(1) [unfolded st] row(1) if_not_P [OF nt(2)] a(3) if_not_P [OF a(2)] rows(1) ir F(1) ..
    have "dtable_x2_ok ?ws log ?dt"
      using table_x2_good [OF P] F(2) sz t(4) assms by (simp add: dtable_x2_ok_def)
    then show ?thesis unfolding R using ok(1,5) Ok r by blast
  qed (use S in \<open>simp_all add: read_dtable_x2_def HUF_SYMBOLVALUE_MAX_def\<close>)
qed

lemma read_dtable_x2_meets:
  assumes "length (x2_entries dt) = DTABLE_X2_SIZE"
  shows "meets (read_dtable_x2 src dt) (\<lambda>(dt', used). used \<le> length src
    \<and> (\<exists>hw rank n log. read_stats (replicate 256 0) src = Ok (hw, rank, n, log, used)
         \<and> weights_ok (weights_of hw n) log \<and> dtable_x2_ok (weights_of hw n) log dt'))"
  using read_dtable_x2_spec [OF assms, of src] by auto

end
