(* ===== verification/Huff0Safe.thy ===== *)
theory Huff0Safe
  imports Huff0X2
begin

section \<open>Huffman decoding is safe (entropy/huff0.rs)\<close>

text \<open>
  Every decoder of a Huffman section, on arbitrary input: the second decoder's loops as an instance of the
  four-stream interface, and the properties of the two tables and of the whole section.
\<close>

subsection \<open>The pair decoder\<close>

lemma put_x2_meets:
  assumes "good_x2 (table, log)" and "pos + 2 \<le> length dst" and "dinv s"
  shows "meets (put_x2 table log (dst, pos, s)) (\<lambda>(dst', l). length dst' = length dst \<and> lane_moved 2 1 (pos, s) l)"
proof -
  obtain v where v: "look_bits_fast s log = Ok v" "unat v < 2 ^ log"
    using look_bits_fast_total [of log s] assms(1) by (auto simp: good_x2_def)
  have t: "unat v < length table" using assms(1) v(2) by (simp add: good_x2_def)
  then have "table ! unat v \<in> set table" by simp
  then have e: "1 \<le> x2_length (table ! unat v)" "x2_length (table ! unat v) \<le> 2" "x2_nb_bits (table ! unat v) \<le> 12"
    using assms(1) by (auto simp: good_x2_def)
  show ?thesis
    using assms(2,3) t e by (simp add: put_x2_def v lane_moved_def copy_into_def)
qed

interpretation x2: entry_decoder "\<lambda>(table, log). put_x2 table log" good_x2 2
  by unfold_locales (use put_x2_meets in auto)

lemma x2_round: "rounds4 (round_x2 table log) = rounds4 (four_round ((\<lambda>(table, log). put_x2 table log) (table, log)))"
  by (simp add: round_x2_def)

lemma repeat_put_x2_meets:
  assumes "good_x2 (table, log)" and "pos + 2 * k \<le> length dst" and "dinv s"
  shows "meets (repeat_op k (put_x2 table log) (dst, pos, s))
    (\<lambda>(dst', pos', s'). length dst' = length dst \<and> pos + k \<le> pos' \<and> pos' \<le> pos + 2 * k \<and> dinv s')"
  using assms(2,3)
proof (induction k arbitrary: dst pos s)
  case (Suc k)
  have p: "pos + 2 \<le> length dst" using Suc.prems by simp
  show ?case
    unfolding repeat_op.simps meets_and_then
  proof (rule meets_mono [OF put_x2_meets [OF assms(1) p Suc.prems(2)]])
    fix st :: "bytes \<times> usize \<times> dstream"
    assume "case st of (dst', l) \<Rightarrow> length dst' = length dst \<and> lane_moved 2 1 (pos, s) l"
    then obtain d q u where st: "st = (d, q, u)" "length d = length dst" "pos + 1 \<le> q" "q \<le> pos + 2" "dinv u"
      by (cases st) (auto simp: lane_moved_def)
    have "meets (repeat_op k (put_x2 table log) (d, q, u))
      (\<lambda>(dst', pos', s'). length dst' = length d \<and> q + k \<le> pos' \<and> pos' \<le> q + 2 * k \<and> dinv s')"
      using st Suc.prems by (intro Suc.IH) simp_all
    then show "meets (repeat_op k (put_x2 table log) st)
      (\<lambda>(dst', pos', s'). length dst' = length dst \<and> pos + Suc k \<le> pos' \<and> pos' \<le> pos + 2 * Suc k \<and> dinv s')"
      unfolding st(1) by (rule meets_mono) (use st in auto)
  qed
qed simp

text \<open>Groups of \<open>k\<close> entries while there is room for them.\<close>

lemma groups_x2_meets:
  assumes "good_x2 (table, log)" and "1 \<le> k" and "2 * k \<le> room" and "pos \<le> end_pos" and "end_pos \<le> length dst"
    and "dinv s" and "end_pos \<le> pos + fuel"
  shows "meets (groups_x2 fuel k room table log end_pos (dst, pos, s))
    (\<lambda>(dst', pos', s'). length dst' = length dst \<and> pos' \<le> end_pos \<and> dinv s')"
  using assms(4-)
proof (induction fuel arbitrary: dst pos s)
  case 0
  from reload_spec [OF 0(3)] obtain t s' where r: "reload s = Ok (t, s')" "dinv s'" by metis
  have "\<not> pos + room \<le> end_pos" using 0 assms(2,3) by simp
  then show ?case using 0 r by (simp add: groups_x2.simps [of 0])
next
  case (Suc fuel)
  from reload_spec [OF Suc.prems(3)] obtain t s' where r: "reload s = Ok (t, s')" "dinv s'" by metis
  show ?case
  proof (cases "t = Unfinished \<and> pos + room \<le> end_pos")
    case True
    have p: "pos + 2 * k \<le> length dst" using True Suc.prems assms(3) by simp
    have "meets (repeat_op k (put_x2 table log) (dst, pos, s'))
        (\<lambda>st. meets (groups_x2 fuel k room table log end_pos st)
          (\<lambda>(dst', pos', s'). length dst' = length dst \<and> pos' \<le> end_pos \<and> dinv s'))"
    proof (rule meets_mono [OF repeat_put_x2_meets [OF assms(1) p r(2)]])
      fix st :: "bytes \<times> usize \<times> dstream"
      assume "case st of (dst', pos', s') \<Rightarrow> length dst' = length dst \<and> pos + k \<le> pos' \<and> pos' \<le> pos + 2 * k \<and> dinv s'"
      then obtain d q u where st: "st = (d, q, u)" "length d = length dst" "pos + k \<le> q" "q \<le> pos + 2 * k" "dinv u"
        by (cases st) auto
      have "meets (groups_x2 fuel k room table log end_pos (d, q, u))
        (\<lambda>(dst', pos', s'). length dst' = length d \<and> pos' \<le> end_pos \<and> dinv s')"
        using st True Suc.prems assms(2,3) by (intro Suc.IH) simp_all
      then show "meets (groups_x2 fuel k room table log end_pos st)
        (\<lambda>(dst', pos', s'). length dst' = length dst \<and> pos' \<le> end_pos \<and> dinv s')" unfolding st(1,2) .
    qed
    then show ?thesis using True by (simp add: groups_x2.simps [of "Suc fuel"] r(1))
  next
    case False
    then show ?thesis using Suc.prems r by (auto simp: groups_x2.simps [of "Suc fuel"])
  qed
qed

lemma entries_x2_meets:
  assumes "good_x2 (table, log)" and "pos \<le> end_pos" and "end_pos \<le> length dst" and "dinv s" and "end_pos \<le> pos + fuel"
  shows "meets (entries_x2 fuel table log end_pos (dst, pos, s))
    (\<lambda>(dst', pos', s'). length dst' = length dst \<and> pos' \<le> end_pos \<and> end_pos < pos' + 2 \<and> dinv s')"
  using assms(2-)
proof (induction fuel arbitrary: dst pos s)
  case 0
  then have "\<not> pos + 2 \<le> end_pos" by simp
  then show ?case using 0 by (simp add: entries_x2.simps [of 0])
next
  case (Suc fuel)
  show ?case
  proof (cases "pos + 2 \<le> end_pos")
    case True
    have p: "pos + 2 \<le> length dst" using True Suc.prems by simp
    have "meets (put_x2 table log (dst, pos, s)) (\<lambda>st. meets (entries_x2 fuel table log end_pos st)
      (\<lambda>(dst', pos', s'). length dst' = length dst \<and> pos' \<le> end_pos \<and> end_pos < pos' + 2 \<and> dinv s'))"
    proof (rule meets_mono [OF put_x2_meets [OF assms(1) p Suc.prems(3)]])
      fix st :: "bytes \<times> usize \<times> dstream"
      assume "case st of (dst', l) \<Rightarrow> length dst' = length dst \<and> lane_moved 2 1 (pos, s) l"
      then obtain d q u where st: "st = (d, q, u)" "length d = length dst" "pos + 1 \<le> q" "q \<le> pos + 2" "dinv u"
        by (cases st) (auto simp: lane_moved_def)
      have "meets (entries_x2 fuel table log end_pos (d, q, u))
        (\<lambda>(dst', pos', s'). length dst' = length d \<and> pos' \<le> end_pos \<and> end_pos < pos' + 2 \<and> dinv s')"
        using st True Suc.prems by (intro Suc.IH) simp_all
      then show "meets (entries_x2 fuel table log end_pos st)
        (\<lambda>(dst', pos', s'). length dst' = length dst \<and> pos' \<le> end_pos \<and> end_pos < pos' + 2 \<and> dinv s')" unfolding st(1,2) .
    qed
    then show ?thesis using True by (simp add: entries_x2.simps [of "Suc fuel"])
  qed (use Suc.prems in \<open>simp add: entries_x2.simps [of "Suc fuel"]\<close>)
qed

lemma and_mask_less: "(v :: nat) AND (2 ^ log - 1) < 2 ^ log"
  by (simp only: and_ones mod_less_divisor zero_less_power zero_less_numeral)

lemma put_last_x2_meets:
  assumes "good_x2 (table, log)" and "pos < length dst"
  shows "meets (put_last_x2 table log (dst, pos, s)) (\<lambda>(dst', l). length dst' = length dst \<and> fst l = pos + 1)"
proof -
  obtain v where v: "look_bits_fast s log = Ok v" "unat v < 2 ^ log"
    using look_bits_fast_total [of log s] assms(1) by (auto simp: good_x2_def)
  have t: "length table = 2 ^ log" using assms(1) by (simp add: good_x2_def)
  have "unat v AND (length table - 1) < length table" unfolding t by (rule and_mask_less)
  then show ?thesis using assms(2) v t by (simp add: put_last_x2_def Let_def)
qed

lemma decode_stream_x2_fills: "good_x2 (table, log) \<Longrightarrow> fills_segment (decode_stream_x2 table log)"
  unfolding fills_segment_def
proof (intro allI impI, elim conjE)
  fix end_pos dst pos s
  assume g: "good_x2 (table, log)" and p: "pos \<le> end_pos" "end_pos \<le> length (dst :: bytes)" "dinv s"
  let ?Q = "\<lambda>(dst', l). length (dst' :: bytes) = length dst \<and> fst (l :: lane) = end_pos"
  have c: "\<not> \<not> (pos \<le> end_pos \<and> end_pos \<le> length dst)" using p by simp
  have last: "meets (if q < end_pos then put_last_x2 table log (d, q, u) else Ok (d, q, u)) ?Q"
    if "length d = length dst" "q \<le> end_pos" "end_pos < q + 2" for d q u
    using put_last_x2_meets [OF g, of q d u] that p by (auto elim!: meets_mono)
  have mid: "meets (and_then (if 2 \<le> end_pos - q
        then and_then (groups_x2 end_pos 1 2 table log end_pos (d, q, u)) (entries_x2 end_pos table log end_pos)
        else Ok (d, q, u)) (\<lambda>(dst, pos, s). if pos < end_pos then put_last_x2 table log (dst, pos, s) else Ok (dst, pos, s))) ?Q"
    if d: "length d = length dst" "q \<le> end_pos" "dinv u" for d q u
  proof (cases "2 \<le> end_pos - q")
    case True
    have "meets (groups_x2 end_pos 1 2 table log end_pos (d, q, u))
        (\<lambda>(dst', pos', s'). length dst' = length d \<and> pos' \<le> end_pos \<and> dinv s')"
      using g d p by (intro groups_x2_meets) simp_all
    then have "meets (and_then (groups_x2 end_pos 1 2 table log end_pos (d, q, u)) (entries_x2 end_pos table log end_pos))
        (\<lambda>(dst', pos', s'). length dst' = length dst \<and> pos' \<le> end_pos \<and> end_pos < pos' + 2 \<and> dinv s')"
      unfolding meets_and_then
    proof (rule meets_mono)
      fix st :: "bytes \<times> usize \<times> dstream"
      assume "case st of (dst', pos', s') \<Rightarrow> length dst' = length d \<and> pos' \<le> end_pos \<and> dinv s'"
      then obtain d' q' u' where st: "st = (d', q', u')" "length d' = length dst" "q' \<le> end_pos" "dinv u'"
        using d by (cases st) auto
      show "meets (entries_x2 end_pos table log end_pos st)
        (\<lambda>(dst', pos', s'). length dst' = length dst \<and> pos' \<le> end_pos \<and> end_pos < pos' + 2 \<and> dinv s')"
        using entries_x2_meets [OF g, of q' end_pos d' u' end_pos] st p by simp
    qed
    then show ?thesis unfolding if_P [OF True] meets_and_then [of "and_then _ _"]
    proof (rule meets_mono)
      fix st :: "bytes \<times> usize \<times> dstream"
      assume "case st of (dst', pos', s') \<Rightarrow> length dst' = length dst \<and> pos' \<le> end_pos \<and> end_pos < pos' + 2 \<and> dinv s'"
      then show "meets (case st of (dst, pos, s) \<Rightarrow> if pos < end_pos then put_last_x2 table log (dst, pos, s) else Ok (dst, pos, s)) ?Q"
        using last by (cases st) simp
    qed
  next
    case False
    then show ?thesis using last [of d q u] d by simp
  qed
  show "meets (decode_stream_x2 table log end_pos (dst, pos, s)) ?Q"
  proof -
    from reload_spec [OF p(3)] obtain t s' where r: "reload s = Ok (t, s')" "dinv s'" by metis
    have "meets (if CONTAINER_BYTES \<le> end_pos - pos then
        (if log \<le> DECODER_FAST_TABLELOG then groups_x2 end_pos 5 10 table log end_pos (dst, pos, s)
         else groups_x2 end_pos 4 CONTAINER_BYTES table log end_pos (dst, pos, s))
        else and_then (reload s) (\<lambda>(_, s). Ok (dst, pos, s)))
      (\<lambda>(dst', pos', s'). length dst' = length dst \<and> pos' \<le> end_pos \<and> dinv s')"
      using groups_x2_meets [OF g _ _ p, of 5 10 end_pos] groups_x2_meets [OF g _ _ p, of 4 8 end_pos] r p
      by (simp add: CONTAINER_BYTES_def)
    then show ?thesis
      unfolding decode_stream_x2_def prod.case if_not_P [OF c] meets_and_then [of "if CONTAINER_BYTES \<le> end_pos - pos then _ else _"]
    proof (rule meets_mono)
      fix st :: "bytes \<times> usize \<times> dstream"
      assume "case st of (dst', pos', s') \<Rightarrow> length dst' = length dst \<and> pos' \<le> end_pos \<and> dinv s'"
      then obtain d q u where st: "st = (d, q, u)" "length d = length dst" "q \<le> end_pos" "dinv u" by (cases st) auto
      show "meets (case st of (dst, pos, s) \<Rightarrow> and_then (if 2 \<le> end_pos - pos
          then and_then (groups_x2 end_pos 1 2 table log end_pos (dst, pos, s)) (entries_x2 end_pos table log end_pos)
          else Ok (dst, pos, s)) (\<lambda>(dst, pos, s). if pos < end_pos then put_last_x2 table log (dst, pos, s) else Ok (dst, pos, s))) ?Q"
        unfolding st(1) prod.case by (rule mid [OF st(2-4)])
    qed
  qed
qed
lemma four_x2_loop_meets:
  assumes "good_x2 (table, log)" and "all_lanes (\<lambda>l. dinv (snd l)) f" and "signal \<longrightarrow> all_lanes fresh_lane f"
    and starts: "a \<le> length dst" "b \<le> length dst" "c \<le> length dst"
    and "fst (lane4 f) \<le> length dst" and "length dst \<le> fst (lane4 f) + fuel"
  shows "meets (four_x2_loop fuel table log (a, b, c) signal (dst, f))
    (\<lambda>(dst', g). length dst' = length dst \<and> all_lanes (\<lambda>l. dinv (snd l)) g \<and> fst (lane4 g) \<le> length dst)"
  using assms(2-)
proof (induction fuel arbitrary: signal dst f)
  case 0
  then have "\<not> lanes_have_room (a, b, c) (length dst) f" by (simp add: lanes_have_room_def CONTAINER_BYTES_def)
  with 0 show ?case by (simp add: four_x2_loop.simps [of 0])
next
  case (Suc fuel)
  let ?Q = "\<lambda>(dst', g). length (dst' :: bytes) = length dst \<and> all_lanes (\<lambda>l. dinv (snd l)) g \<and> fst (lane4 g) \<le> length dst"
  show ?case
  proof (cases "signal \<and> lanes_have_room (a, b, c) (length dst) f")
    case True
    have fresh: "all_lanes fresh_lane f" using Suc.prems(2) True by simp
    have "all_lanes (roomy_lane (4 * 2) (length dst)) f"
      using Suc.prems(1,3,4,5) True by (auto simp: all_lanes_def roomy_lane_def lanes_have_room_def CONTAINER_BYTES_def)
    note R = x2.rounds4_meets [OF assms(1) this, folded x2_round]
    have "meets (rounds4 (round_x2 table log) (dst, f)) (\<lambda>(d, g). meets (and_then (reload_four g) (\<lambda>(signal, g).
        four_x2_loop fuel table log (a, b, c) signal (d, g))) ?Q)"
    proof (rule meets_mono [OF R])
      fix st :: "bytes \<times> four"
      assume "case st of (d, g) \<Rightarrow> length d = length dst \<and> four_moved 2 4 f g"
      then obtain d g where st: "st = (d, g)" "length d = length dst" and m: "four_moved 2 4 f g" by (cases st) auto
      have pos: "fst (lane4 f) + 4 \<le> fst (lane4 g)" "fst (lane4 g) \<le> length dst"
        using m True by (simp_all add: four_moved_def lane_moved_def lanes_have_room_def CONTAINER_BYTES_def)
      have spent: "all_lanes spent_lane g"
        using fresh m unfolding all_lanes_def four_moved_def by (blast intro: moved_spent)
      have "meets (and_then (reload_four g) (\<lambda>(signal, g). four_x2_loop fuel table log (a, b, c) signal (d, g))) ?Q"
      proof (rule meets_pair [OF reload_four_meets [OF spent]])
        fix b' and h :: four assume r: "lane_reloaded b' (lane1 g) (lane1 h) \<and> lane_reloaded b' (lane2 g) (lane2 h)
          \<and> lane_reloaded b' (lane3 g) (lane3 h) \<and> lane_reloaded b' (lane4 g) (lane4 h)"
        have "meets (four_x2_loop fuel table log (a, b, c) b' (d, h))
          (\<lambda>(dst', g). length dst' = length d \<and> all_lanes (\<lambda>l. dinv (snd l)) g \<and> fst (lane4 g) \<le> length d)"
          by (rule Suc.IH) (use r pos st Suc.prems in \<open>auto simp: all_lanes_def lane_reloaded_def\<close>)
        then show "meets (four_x2_loop fuel table log (a, b, c) b' (d, h)) ?Q" unfolding st(2) .
      qed
      then show "case st of (d, g) \<Rightarrow> meets (and_then (reload_four g) (\<lambda>(signal, g).
        four_x2_loop fuel table log (a, b, c) signal (d, g))) ?Q" unfolding st(1) prod.case .
    qed
    then show ?thesis unfolding four_x2_loop.simps [of "Suc fuel"] if_P [OF True] nat.case meets_and_then [of "rounds4 _ _"]
      by (simp add: case_prod_unfold)
  next
    case False
    then show ?thesis using Suc.prems by (auto simp: four_x2_loop.simps [of "Suc fuel"])
  qed
qed

definition usable_x2 :: "dtable_x2 \<Rightarrow> bool" where
  "usable_x2 dt \<longleftrightarrow> 2 ^ x2_table_log dt \<le> length (x2_entries dt)
     \<and> good_x2 (take (2 ^ x2_table_log dt) (x2_entries dt), x2_table_log dt)"

lemma usable_table_x2:
  assumes "dtable_x2_ok ws log dt"
  shows "usable_x2 dt"
proof -
  have "x2_table_log dt \<le> 12" "length (x2_entries dt) = DTABLE_X2_SIZE" using assms by (simp_all add: dtable_x2_ok_def)
  moreover from this have "2 ^ x2_table_log dt \<le> DTABLE_X2_SIZE"
    unfolding DTABLE_X2_SIZE_def by (intro power_increasing) (simp_all add: HUF_TABLELOG_MAX_def)
  moreover have "good_x2 (take (2 ^ x2_table_log dt) (x2_entries dt), x2_table_log dt)"
    using assms unfolding dtable_x2_ok_def by blast
  ultimately show ?thesis by (simp only: usable_x2_def)
qed

lemma decompress_1x2_meets:
  assumes "usable_x2 dt"
  shows "meets (decompress_1x2_using_dtable dst src dt) (\<lambda>(dst', n). length dst' = length dst \<and> n = length dst)"
proof (cases "dstream_new src")
  case (Ok s)
  let ?table = "take (2 ^ x2_table_log dt) (x2_entries dt)"
  have g: "good_x2 (?table, x2_table_log dt)" "idx_range (x2_entries dt) 0 (2 ^ x2_table_log dt) = Ok ?table"
    using assms by (simp_all add: usable_x2_def idx_range_def)
  have "dinv s" using dstream_new_Ok(3) [OF Ok] by (simp add: ready_def)
  with decode_stream_x2_fills [OF g(1)] have
    m: "meets (decode_stream_x2 ?table (x2_table_log dt) (length dst) (dst, 0, s))
      (\<lambda>(dst', l). length dst' = length dst \<and> fst l = length dst)"
    by (simp add: fills_segment_def)
  show ?thesis unfolding decompress_1x2_using_dtable_def Ok g(2) and_then.simps meets_and_then
    by (rule meets_mono [OF m]) (auto simp: case_prod_unfold)
qed (use dstream_new_no_fault in \<open>auto simp: decompress_1x2_using_dtable_def\<close>)

lemma decompress_4x2_meets:
  assumes "usable_x2 dt"
  shows "meets (decompress_4x2_using_dtable dst src dt) (\<lambda>(dst', n). length dst' = length dst \<and> n = length dst)"
  unfolding decompress_4x2_using_dtable_def
proof (rule meets_pair [OF open_four_meets])
  let ?table = "take (2 ^ x2_table_log dt) (x2_entries dt)" let ?log = "x2_table_log dt"
  have g: "good_x2 (?table, ?log)" "idx_range (x2_entries dt) 0 (2 ^ ?log) = Ok ?table"
    using assms by (simp_all add: usable_x2_def idx_range_def)
  fix f starts assume o: "case starts of (a, b, c) \<Rightarrow> all_lanes fresh_lane f \<and> fst (lane1 f) = 0 \<and> fst (lane2 f) = a
     \<and> fst (lane3 f) = b \<and> fst (lane4 f) = c \<and> a \<le> b \<and> b \<le> c \<and> c \<le> length dst \<and> length dst \<le> c + a"
  obtain a b c where s: "starts = (a, b, c)" by (cases starts)
  have "all_lanes (\<lambda>l. dinv (snd l)) f" using o s by (auto simp: all_lanes_def fresh_lane_def)
  then have m: "meets (four_x2_loop (length dst) ?table ?log starts True (dst, f))
    (\<lambda>(dst', g). length dst' = length dst \<and> all_lanes (\<lambda>l. dinv (snd l)) g \<and> fst (lane4 g) \<le> length dst)"
    using o unfolding s by (intro four_x2_loop_meets [OF g(1)]) auto
  show "meets (and_then (idx_range (x2_entries dt) 0 (2 ^ ?log)) (\<lambda>table.
       and_then (four_x2_loop (length dst) table ?log starts True (dst, f)) (finish_four (decode_stream_x2 table ?log) starts)))
     (\<lambda>(dst', n). length dst' = length dst \<and> n = length dst)"
    unfolding g(2) and_then.simps meets_and_then
  proof (rule meets_mono [OF m])
    fix st :: "bytes \<times> four"
    assume "case st of (dst', g) \<Rightarrow> length dst' = length dst \<and> all_lanes (\<lambda>l. dinv (snd l)) g \<and> fst (lane4 g) \<le> length dst"
    then obtain d h where st: "st = (d, h)" "length d = length dst" "all_lanes (\<lambda>l. dinv (snd l)) h" "fst (lane4 h) \<le> length d"
      by (cases st) auto
    show "meets (finish_four (decode_stream_x2 ?table ?log) starts st) (\<lambda>(dst', n). length dst' = length dst \<and> n = length dst)"
      using finish_four_meets [OF decode_stream_x2_fills [OF g(1)] st(3,4), of a b c] st s o by simp
  qed
qed

subsection \<open>Whole sections\<close>

text \<open>A table that a reader built, of either kind.\<close>

definition usable_table :: "huffman_dtable \<Rightarrow> bool" where
  "usable_table dt \<longleftrightarrow> (case dt of Single t \<Rightarrow> length (x1_entries t) = DTABLE_X1_SIZE \<and> good_x1 (x1_entries t, x1_table_log t)
     | Double t \<Rightarrow> length (x2_entries t) = DTABLE_X2_SIZE \<and> usable_x2 t)"

lemma read_huffman_dtable_meets:
  assumes "case slot of None \<Rightarrow> True | Some t \<Rightarrow> usable_table t"
  shows "meets (read_huffman_dtable double src slot) (\<lambda>(dt, used). usable_table dt \<and> used \<le> length src)"
proof (cases double)
  case True
  have "length (x2_entries (double_slot slot)) = DTABLE_X2_SIZE"
    using assms by (auto simp: double_slot_def usable_table_def dtable_x2_default_def split: option.splits huffman_dtable.splits)
  from read_dtable_x2_meets [OF this, of src] have "meets (read_dtable_x2 src (double_slot slot))
      (\<lambda>(t, n). usable_table (Double t) \<and> n \<le> length src)"
    by (rule meets_mono) (auto simp: usable_table_def usable_table_x2 dtable_x2_ok_def)
  then show ?thesis using True by (simp add: read_huffman_dtable_def case_prod_unfold)
next
  case False
  have "length (x1_entries (single_slot slot)) = DTABLE_X1_SIZE"
    using assms by (auto simp: single_slot_def usable_table_def dtable_x1_default_def split: option.splits huffman_dtable.splits)
  from read_dtable_x1_meets [OF this, of src] have "meets (read_dtable_x1 src (single_slot slot))
      (\<lambda>(t, n). usable_table (Single t) \<and> n \<le> length src)"
    by (rule meets_mono) (auto simp: usable_table_def good_table_x1 dtable_x1_ok_def)
  then show ?thesis using False by (simp add: read_huffman_dtable_def case_prod_unfold)
qed

lemma decompress_4x_meets:
  "usable_table dt \<Longrightarrow> meets (decompress_4x_using_dtable dst src dt) (\<lambda>(dst', n). length dst' = length dst \<and> n = length dst)"
  using decompress_4x1_meets decompress_4x2_meets
  by (auto simp: usable_table_def decompress_4x_using_dtable_def split: huffman_dtable.splits)

lemma decompress_1x_meets:
  "usable_table dt \<Longrightarrow> meets (decompress_1x_using_dtable dst src dt) (\<lambda>(dst', n). length dst' = length dst \<and> n = length dst)"
  using decompress_1x1_meets decompress_1x2_meets
  by (auto simp: usable_table_def decompress_1x_using_dtable_def split: huffman_dtable.splits)

lemma ALGO_TIME_bounds: "\<forall>((a, b), (c, d)) \<in> set ALGO_TIME. a < 2 ^ 12 \<and> b < 2 ^ 8 \<and> c < 2 ^ 12 \<and> d < 2 ^ 8"
  by (simp add: ALGO_TIME_def)

lemma prefers_double_Ok:
  assumes "m \<le> n" and "n < 2 ^ 60"
  shows "\<exists>b. prefers_double_symbol_decoder n m = Ok b"
proof (cases "n = 0")
  case False
  let ?q = "if n \<le> m then 15 else m * 16 div n"
  have "m * 16 \<le> usize_max" using assms by (simp add: usize_max_def)
  then have f: "\<not> \<not> (n \<le> m \<or> m * 16 \<le> usize_max)" by simp
  have "?q < 16" using False assms(1) by (auto simp: less_mult_imp_div_less)
  then have l: "?q < length ALGO_TIME" by (simp add: ALGO_TIME_def)
  obtain a b c d where e: "ALGO_TIME ! ?q = ((a, b), (c, d))" by (metis surj_pair)
  have "((a, b), (c, d)) \<in> set ALGO_TIME" using nth_mem [OF l] e by simp
  then have B: "a < 2 ^ 12" "b < 2 ^ 8" "c < 2 ^ 12" "d < 2 ^ 8" using ALGO_TIME_bounds by auto
  let ?p = "n div 256"
  have p: "?p < 2 ^ 52" using assms(2) by (simp add: less_mult_imp_div_less)
  have "b * ?p \<le> 2 ^ 8 * 2 ^ 52" using B p by (intro mult_le_mono) simp_all
  then have bp: "b * ?p \<le> 2 ^ 60" by simp
  have "d * ?p \<le> 2 ^ 8 * 2 ^ 52" using B p by (intro mult_le_mono) simp_all
  then have dp: "d * ?p \<le> 2 ^ 60" by simp
  have m: "mul_u64 b ?p = Ok (b * ?p)" "mul_u64 d ?p = Ok (d * ?p)" using bp dp by (simp_all add: mul_u64_def)
  have i: "idx ALGO_TIME ?q = Ok ((a, b), (c, d))" using l e by simp
  have "a + b * ?p \<le> 2 ^ 12 + 2 ^ 60" "c + d * ?p \<le> 2 ^ 12 + 2 ^ 60" using B bp dp by linarith+
  then have n: "\<not> (2 ^ 64 \<le> a + b * ?p \<or> 2 ^ 64 \<le> c + d * ?p + (c + d * ?p) div 32)" by simp
  show ?thesis
    unfolding prefers_double_symbol_decoder_def if_not_P [OF False] if_not_P [OF f] Let_def i and_then.simps prod.case m if_not_P [OF n]
    by blast
qed (auto simp: prefers_double_symbol_decoder_def intro: exI [of _ False])

text \<open>C30. Reading a single-symbol table never faults and fails only when its weights are refused. From accepted
  weights it builds the canonical table: the first \<open>2 ^ log\<close> slots list the symbols by increasing weight
  and then by number, each over as many slots as its weight takes, with the code length of the weight.\<close>

theorem read_dtable_x1_canonical:
  assumes "length (x1_entries dt) = DTABLE_X1_SIZE"
  shows "(\<exists>e. read_stats (replicate 256 0) src = Err e \<and> read_dtable_x1 src dt = Err e)
    \<or> (\<exists>hw rank n log used dt'. read_stats (replicate 256 0) src = Ok (hw, rank, n, log, used) \<and> used \<le> length src
         \<and> weights_ok (weights_of hw n) log \<and> read_dtable_x1 src dt = Ok (dt', used)
         \<and> x1_table_log dt' = log \<and> take (2 ^ log) (x1_entries dt') = canonical_x1 (weights_of hw n) log)"
  using read_dtable_x1_spec [OF assms, of src] unfolding dtable_x1_ok_def by blast

lemma sample_weights:
  "\<exists>hw rank. read_stats (replicate 256 0) [128, 16] = Ok (hw, rank, 2, 1, 2) \<and> weights_of hw 2 = [1, 1]"
proof -
  define hw :: bytes where "hw = replicate 256 0"
  have l: "length hw = 256" by (simp add: hw_def)
  obtain x hw1 where 1: "hw = x # hw1" using l by (cases hw) auto
  obtain y zs where 2: "hw1 = y # zs" using l unfolding 1 by (cases hw1) auto
  have hw: "hw = x # y # zs" using 1 2 by simp
  have "read_weights hw [128, 16] = Ok (1 # 0 # zs, 1, 1)"
    using l by (simp add: read_weights_def raw_weights_def hw)
  moreover define rank :: "nat list" where "rank = replicate (HUF_TABLELOG_MAX + 1) 0"
  moreover have r: "length rank = 13" "rank ! Suc 0 = 0" by (simp_all add: rank_def HUF_TABLELOG_MAX_def)
  moreover have "log2 (Suc 0) = 0" by (simp add: log2.simps)
  ultimately have "read_stats hw [128, 16] = Ok (1 # 1 # zs, rank[1 := Suc (Suc 0)], 2, 1, 2)"
    by (simp add: read_stats_def add_weight_def idx_range_def sub_nat_def add_u32_def bump_def HUF_TABLELOG_MAX_def)
  moreover have "weights_of (1 # 1 # zs) 2 = [1, 1]" by (simp add: weights_of_def)
  ultimately show ?thesis unfolding hw_def by blast
qed

theorem read_dtable_x1_canonical_witness:
  "\<exists>dt'. read_dtable_x1 [128, 16] dtable_x1_default = Ok (dt', 2)
    \<and> take 2 (x1_entries dt') = [\<lparr>x1_byte = 0, x1_nb_bits = 1\<rparr>, \<lparr>x1_byte = 1, x1_nb_bits = 1\<rparr>]"
proof -
  obtain hw rank where w: "read_stats (replicate 256 0) [128, 16] = Ok (hw, rank, 2, 1, 2)" "weights_of hw 2 = [1, 1]"
    using sample_weights by blast
  have "canonical_x1 [1, 1] 1 = [\<lparr>x1_byte = 0, x1_nb_bits = 1\<rparr>, \<lparr>x1_byte = 1, x1_nb_bits = 1\<rparr>]"
    by (simp add: canonical_x1_def block_x1_def entry_x1_def)
  moreover have "length (x1_entries dtable_x1_default) = DTABLE_X1_SIZE" by (simp add: dtable_x1_default_def)
  ultimately show ?thesis using read_dtable_x1_canonical [of dtable_x1_default "[128, 16]"] w by auto
qed



end
