(* ===== verification/Literals.thy ===== *)
theory Literals
  imports Huff0Safe OutBuf
begin

section \<open>Literals sections (literals.rs and the section writers of encode.rs)\<close>

text \<open>
  \<open>src/src/literals.rs\<close>: the four kinds of literals section, with the headroom behind the literals that the
  sequence executor reads past them, and the headers as \<open>src/src/encode.rs\<close> writes them. The decoded literals are
  a slice of the section itself or of the scratch buffer, which the operations pass on; the Huffman table a
  frame carries from block to block is an option. An operation that fails drops both, as the caller abandons the
  frame; the source clears the table slot there for the same reason.
\<close>

definition LITERAL_OVERREAD_HEADROOM :: usize where "LITERAL_OVERREAD_HEADROOM = 16"

record decoded_literals =
  padded :: bytes
  literals_len :: usize

definition decoded_literals_new :: "bytes \<Rightarrow> usize \<Rightarrow> decoded_literals result" where
  "decoded_literals_new bs n =
     (if length bs < n + LITERAL_OVERREAD_HEADROOM then Fault else Ok \<lparr>padded = bs, literals_len = n\<rparr>)"

definition literals_slice :: "decoded_literals \<Rightarrow> bytes" where
  "literals_slice l = take (literals_len l) (padded l)"

record compressed_literals_header =
  cl_header_size :: usize
  cl_regenerated_size :: usize
  cl_compressed_size :: usize
  cl_four_streams :: bool

record literals_section_layout =
  layout_header_size :: usize
  layout_section_size :: usize
  layout_regenerated_size :: usize
  layout_compressed :: bool

subsection \<open>Headers\<close>

definition ensure_regenerated_size :: "usize \<Rightarrow> usize \<Rightarrow> unit result" where
  "ensure_regenerated_size n block_size_max =
     demand (n \<le> block_size_max) (Corruption ''literals section exceeds the frame block size limit'')"

definition decode_raw_or_rle_size :: "bytes \<Rightarrow> nat \<Rightarrow> (usize \<times> usize) result" where
  "decode_raw_or_rle_size src size_format =
     (if size_format = 0 \<or> size_format = 2 then
        and_then (ok_or (slice_get src 0) UnexpectedEof) (\<lambda>header0. Ok (1, unat (drop_bit 3 header0)))
      else if size_format = 1 then
        and_then (ok_or (get_range src 0 2) UnexpectedEof) (\<lambda>header.
        and_then (idx header 0) (\<lambda>h0. and_then (idx header 1) (\<lambda>h1.
          Ok (2, drop_bit 4 (unat h0) OR push_bit 4 (unat h1)))))
      else if size_format = 3 then
        and_then (ok_or (get_range src 0 3) UnexpectedEof) (\<lambda>header.
        and_then (read_u24_le header) (\<lambda>v. Ok (3, drop_bit 4 (unat v))))
      else Fault)"

definition decode_compressed_literals_header :: "bytes \<Rightarrow> nat \<Rightarrow> compressed_literals_header result" where
  "decode_compressed_literals_header src size_format =
     and_then
       (if size_format = 0 \<or> size_format = 1 then
          and_then (ok_or (get_range src 0 3) UnexpectedEof) (\<lambda>header.
          and_then (read_u24_le header) (\<lambda>v.
            Ok (3, drop_bit 4 (unat v) AND 0x3FF, drop_bit 14 (unat v) AND 0x3FF, size_format = 1)))
        else if size_format = 2 then
          and_then (ok_or (get_range src 0 4) UnexpectedEof) (\<lambda>header.
          and_then (read_u32_le header) (\<lambda>v.
            Ok (4, drop_bit 4 (unat v) AND 0x3FFF, drop_bit 18 (unat v) AND 0x3FFF, True)))
        else if size_format = 3 then
          and_then (ok_or (get_range src 0 5) UnexpectedEof) (\<lambda>header.
          and_then (idx header 0) (\<lambda>h0. and_then (idx header 1) (\<lambda>h1. and_then (idx header 2) (\<lambda>h2.
          and_then (idx header 3) (\<lambda>h3. and_then (idx header 4) (\<lambda>h4.
          let v = unat h0 OR push_bit 8 (unat h1) OR push_bit 16 (unat h2) OR push_bit 24 (unat h3) OR push_bit 32 (unat h4) in
            Ok (5, drop_bit 4 v AND 0x3FFFF, drop_bit 22 v AND 0x3FFFF, True)))))))
        else Fault)
       (\<lambda>(header_size, regenerated_size, compressed_size, four_streams).
        if compressed_size = 0 then Err (Corruption ''compressed literals section has an empty payload'')
        else if four_streams \<and> compressed_size < 10
        then Err (Corruption ''4-stream literals section is smaller than the jump-table minimum'')
        else Ok \<lparr>cl_header_size = header_size, cl_regenerated_size = regenerated_size,
               cl_compressed_size = compressed_size, cl_four_streams = four_streams\<rparr>)"

definition parse_literals_section_layout :: "bytes \<Rightarrow> literals_section_layout result" where
  "parse_literals_section_layout src =
     and_then (ok_or (slice_get src 0) UnexpectedEof) (\<lambda>header0.
     let block_type = unat (header0 AND 3); size_format = unat (drop_bit 2 header0 AND 3) in
     if block_type = 0 \<or> block_type = 1 then
       and_then (decode_raw_or_rle_size src size_format) (\<lambda>(header_size, regenerated_size).
       let payload = (if block_type = 0 then regenerated_size else 1) in
       and_then (ok_or (checked_add header_size payload) OutputSizeOverflow) (\<lambda>section_size.
         Ok \<lparr>layout_header_size = header_size, layout_section_size = section_size,
             layout_regenerated_size = regenerated_size, layout_compressed = False\<rparr>))
     else
       and_then (decode_compressed_literals_header src size_format) (\<lambda>h.
       and_then (ok_or (checked_add (cl_header_size h) (cl_compressed_size h)) OutputSizeOverflow) (\<lambda>section_size.
         Ok \<lparr>layout_header_size = cl_header_size h, layout_section_size = section_size,
             layout_regenerated_size = cl_regenerated_size h, layout_compressed = True\<rparr>)))"

subsection \<open>Sections\<close>

type_synonym literals_result = "usize \<times> decoded_literals \<times> huffman_dtable option \<times> bytes"

definition decode_raw_literals_into ::
    "bytes \<Rightarrow> nat \<Rightarrow> huffman_dtable option \<Rightarrow> usize \<Rightarrow> bytes \<Rightarrow> literals_result result" where
  "decode_raw_literals_into src size_format state block_size_max scratch =
     and_then (decode_raw_or_rle_size src size_format) (\<lambda>(header_size, regenerated_size).
     and_then (ensure_regenerated_size regenerated_size block_size_max) (\<lambda>_.
     and_then (ok_or (checked_add header_size regenerated_size) OutputSizeOverflow) (\<lambda>end_pos.
     if length src < end_pos then Err UnexpectedEof
     else if end_pos + LITERAL_OVERREAD_HEADROOM \<le> length src then
       and_then (idx_range src header_size (end_pos + LITERAL_OVERREAD_HEADROOM)) (\<lambda>bs.
       and_then (decoded_literals_new bs regenerated_size) (\<lambda>l. Ok (end_pos, l, state, scratch)))
     else
       and_then (idx_range src header_size end_pos) (\<lambda>raw_literals.
       let scratch = raw_literals @ replicate (regenerated_size + LITERAL_OVERREAD_HEADROOM - length raw_literals) 0 in
       and_then (decoded_literals_new scratch regenerated_size) (\<lambda>l. Ok (end_pos, l, state, scratch))))))"

definition decode_rle_literals_into ::
    "bytes \<Rightarrow> nat \<Rightarrow> huffman_dtable option \<Rightarrow> usize \<Rightarrow> literals_result result" where
  "decode_rle_literals_into src size_format state block_size_max =
     and_then (decode_raw_or_rle_size src size_format) (\<lambda>(header_size, regenerated_size).
     and_then (ensure_regenerated_size regenerated_size block_size_max) (\<lambda>_.
     and_then (ok_or (slice_get src header_size) UnexpectedEof) (\<lambda>byte.
     let scratch = replicate regenerated_size byte @ replicate LITERAL_OVERREAD_HEADROOM 0 in
     and_then (decoded_literals_new scratch regenerated_size) (\<lambda>l. Ok (header_size + 1, l, state, scratch)))))"

definition huffman_table_for ::
    "nat \<Rightarrow> compressed_literals_header \<Rightarrow> bytes \<Rightarrow> huffman_dtable option \<Rightarrow> (huffman_dtable option \<times> usize) result" where
  "huffman_table_for block_type header payload state =
     (if block_type = 2 then
        and_then (if cl_four_streams header
            then prefers_double_symbol_decoder (cl_regenerated_size header) (length payload) else Ok False) (\<lambda>double.
        and_then (read_huffman_dtable double payload state) (\<lambda>(t, table_size). Ok (Some t, table_size)))
      else Ok (state, 0))"

definition huffman_streams_into ::
    "compressed_literals_header \<Rightarrow> huffman_dtable \<Rightarrow> bytes \<Rightarrow> bytes \<Rightarrow> (decoded_literals \<times> bytes) result" where
  "huffman_streams_into header dtable streams scratch =
     and_then (ok_or (checked_add (cl_regenerated_size header) LITERAL_OVERREAD_HEADROOM) OutputSizeOverflow) (\<lambda>padded_size.
     let scratch = scratch @ replicate (padded_size - length scratch) 0 in
     and_then (idx_range scratch 0 (cl_regenerated_size header)) (\<lambda>destination.
     and_then (if cl_four_streams header then decompress_4x_using_dtable destination streams dtable
               else decompress_1x_using_dtable destination streams dtable) (\<lambda>(destination, _).
     and_then (copy_into scratch 0 destination) (\<lambda>scratch.
     and_then (decoded_literals_new scratch (cl_regenerated_size header)) (\<lambda>l. Ok (l, scratch))))))"

definition decode_huffman_literals_into ::
    "bytes \<Rightarrow> nat \<Rightarrow> nat \<Rightarrow> huffman_dtable option \<Rightarrow> usize \<Rightarrow> bytes \<Rightarrow> literals_result result" where
  "decode_huffman_literals_into src block_type size_format state block_size_max scratch =
     and_then (decode_compressed_literals_header src size_format) (\<lambda>header.
     and_then (ensure_regenerated_size (cl_regenerated_size header) block_size_max) (\<lambda>_.
     and_then (ok_or (checked_add (cl_header_size header) (cl_compressed_size header)) OutputSizeOverflow) (\<lambda>payload_end.
     and_then (ok_or (get_range src (cl_header_size header) payload_end) UnexpectedEof) (\<lambda>payload.
     and_then (huffman_table_for block_type header payload state) (\<lambda>(state, table_size).
     and_then (ok_or state (Corruption ''treeless literals require a prior Huff0 table'')) (\<lambda>dtable.
     and_then (ok_or (get_from payload table_size) UnexpectedEof) (\<lambda>streams.
     if streams = [] then Err (Corruption ''compressed literals payload is missing Huff0 streams'') else
     and_then (huffman_streams_into header dtable streams scratch) (\<lambda>(l, scratch).
       Ok (payload_end, l, state, scratch)))))))))"

definition decode_literals_section_into ::
    "bytes \<Rightarrow> huffman_dtable option \<Rightarrow> usize \<Rightarrow> bytes \<Rightarrow> literals_result result" where
  "decode_literals_section_into src state block_size_max scratch =
     and_then (ok_or (slice_get src 0) UnexpectedEof) (\<lambda>header0.
     let block_type = unat (header0 AND 3); size_format = unat (drop_bit 2 header0 AND 3) in
     if block_type = 0 then decode_raw_literals_into src size_format state block_size_max scratch
     else if block_type = 1 then decode_rle_literals_into src size_format state block_size_max
     else decode_huffman_literals_into src block_type size_format state block_size_max scratch)"

subsection \<open>Writing sections (encode.rs)\<close>

definition raw_or_rle_literals_header_len :: "usize \<Rightarrow> usize" where
  "raw_or_rle_literals_header_len n = (if n \<le> 31 then 1 else if n \<le> 0xFFF then 2 else 3)"

definition append_raw_or_rle_literals_header :: "out_buf \<Rightarrow> nat \<Rightarrow> usize \<Rightarrow> out_buf result" where
  "append_raw_or_rle_literals_header dst block_type n =
     (let header_len = raw_or_rle_literals_header_len n in
      if header_len = 1 then push dst (word_of_nat block_type OR push_bit 3 (word_of_nat n))
      else if header_len = 2 then
        let v = take_bit 32 (block_type OR push_bit 2 1 OR push_bit 4 (take_bit 32 n)) in
        and_then (push dst (word_of_nat (v AND 0xFF))) (\<lambda>dst.
          push dst (word_of_nat (drop_bit 8 v AND 0xFF)))
      else
        let v = take_bit 32 (block_type OR push_bit 2 3 OR push_bit 4 (take_bit 32 n)) in
        and_then (push dst (word_of_nat (v AND 0xFF))) (\<lambda>dst.
        and_then (push dst (word_of_nat (drop_bit 8 v AND 0xFF))) (\<lambda>dst.
          push dst (word_of_nat (drop_bit 16 v AND 0xFF)))))"

definition encode_raw_literals_section_into :: "bytes \<Rightarrow> bytes result" where
  "encode_raw_literals_section_into src =
     and_then (append_raw_or_rle_literals_header (Growable []) 0 (length src)) (\<lambda>out.
     and_then (extend_from_slice out src) (\<lambda>out. Ok (as_slice out)))"

definition encode_rle_literals_section_into :: "bytes \<Rightarrow> bytes result" where
  "encode_rle_literals_section_into src =
     and_then (append_raw_or_rle_literals_header (Growable []) 1 (length src)) (\<lambda>out.
     case slice_get src 0 of
       Some byte \<Rightarrow> and_then (push out byte) (\<lambda>out. Ok (as_slice out))
     | None \<Rightarrow> Ok (as_slice out))"

record compressed_literals_layout =
  cll_header_size :: usize
  cll_size_format :: nat
  cll_single_stream :: bool

definition compressed_layout_for :: "usize \<Rightarrow> bool \<Rightarrow> compressed_literals_layout" where
  "compressed_layout_for n repeat_valid =
     (let header_size = 3 + of_bool (1024 \<le> n) + of_bool (16 * 1024 \<le> n);
          single_stream = (n < 256 \<or> repeat_valid \<and> header_size = 3)
      in \<lparr>cll_header_size = header_size,
          cll_size_format = (if header_size = 3 then of_bool (\<not> single_stream) else if header_size = 4 then 2 else 3),
          cll_single_stream = single_stream\<rparr>)"

definition max_compressed_size :: "compressed_literals_layout \<Rightarrow> usize result" where
  "max_compressed_size l =
     (if cll_size_format l = 0 \<or> cll_size_format l = 1 then Ok 0x3FF
      else if cll_size_format l = 2 then Ok 0x3FFF else if cll_size_format l = 3 then Ok 0x3FFFF else Fault)"

definition append_compressed_literals_header :: "out_buf \<Rightarrow> nat \<Rightarrow> nat \<Rightarrow> usize \<Rightarrow> usize \<Rightarrow> out_buf result" where
  "append_compressed_literals_header dst block_type size_format n c =
     (let low_bits = block_type OR push_bit 2 size_format in
      and_then
        (if size_format = 0 \<or> size_format = 1 then Ok (3, take_bit 64 (low_bits OR push_bit 4 n OR push_bit 14 c))
         else if size_format = 2 then Ok (4, take_bit 64 (low_bits OR push_bit 4 n OR push_bit 18 c))
         else if size_format = 3 then Ok (5, take_bit 64 (low_bits OR push_bit 4 n OR push_bit 22 c))
         else Fault) (\<lambda>(header_size, v).
      let start = out_len dst in
      and_then (resize dst (start + header_size) 0) (\<lambda>dst.
        write_at dst start (take header_size (le_bytes 8 v)))))"


subsection \<open>Safety\<close>

definition huffman_state_ok :: "huffman_dtable option \<Rightarrow> bool" where
  "huffman_state_ok state \<longleftrightarrow> (\<forall>t. state = Some t \<longrightarrow> usable_table t)"

definition literals_ok :: "bytes \<Rightarrow> usize \<Rightarrow> literals_result \<Rightarrow> bool" where
  "literals_ok src block_size_max r \<longleftrightarrow> (case r of (consumed, l, state, scratch) \<Rightarrow>
     consumed \<le> length src \<and> literals_len l \<le> block_size_max
     \<and> literals_len l + LITERAL_OVERREAD_HEADROOM \<le> length (padded l) \<and> huffman_state_ok state)"

lemma unat_and_3: "unat ((w :: u8) AND 3) < 4"
proof -
  have "unat (w AND 3) = unat w AND 3" by (simp add: unsigned_and_eq)
  then show ?thesis using and_ones [of "unat w" 2] by simp
qed

lemma decode_raw_or_rle_size_meets:
  "f < 4 \<Longrightarrow> meets (decode_raw_or_rle_size src f) (\<lambda>(h, n). h \<le> length src)"
  by (auto simp: decode_raw_or_rle_size_def read_u24_le_def Suc_le_eq)

lemma decode_compressed_header_meets:
  assumes "f < 4"
  shows "meets (decode_compressed_literals_header src f) (\<lambda>h. cl_header_size h \<le> length src \<and> cl_regenerated_size h < 2 ^ 18
    \<and> cl_compressed_size h < 2 ^ 18)"
proof -
  have m: "x AND 0x3FF < 2 ^ 18" "x AND 0x3FFF < 2 ^ 18" "x AND 0x3FFFF < 2 ^ 18" for x :: nat
    using and_ones [of x 10] and_ones [of x 14] and_ones [of x 18]
      mod_less_divisor [of "2 ^ 10" x] mod_less_divisor [of "2 ^ 14" x] mod_less_divisor [of "2 ^ 18" x] by simp_all
  have n: "3 \<le> length src \<Longrightarrow> src \<noteq> []" "4 \<le> length src \<Longrightarrow> src \<noteq> []" "5 \<le> length src \<Longrightarrow> src \<noteq> []" by auto
  consider "f = 0" | "f = 1" | "f = 2" | "f = 3" using assms by linarith
  then show ?thesis
    by cases (use m n in \<open>simp_all add: decode_compressed_literals_header_def read_u24_le_def read_u32_le_def Let_def\<close>)
qed

lemma ensure_regenerated_meets: "meets (ensure_regenerated_size n m) (\<lambda>_. n \<le> m)"
  by (simp add: ensure_regenerated_size_def)

lemma prefers_double_total:
  assumes "n < 2 ^ 60"
  shows "\<exists>b. prefers_double_symbol_decoder n m = Ok b"
proof (cases "m \<le> n")
  case True
  then show ?thesis using prefers_double_Ok assms by blast
next
  case False
  then have "prefers_double_symbol_decoder n m = prefers_double_symbol_decoder n n"
    by (simp add: prefers_double_symbol_decoder_def)
  then show ?thesis using prefers_double_Ok [of n n] assms by simp
qed

lemma huffman_table_for_meets:
  assumes "huffman_state_ok state" and "cl_regenerated_size header < 2 ^ 18"
  shows "meets (huffman_table_for block_type header payload state) (\<lambda>(state', used). huffman_state_ok state' \<and> used \<le> length payload)"
proof (cases "block_type = 2")
  case True
  obtain b where b: "(if cl_four_streams header then prefers_double_symbol_decoder (cl_regenerated_size header) (length payload) else Ok False) = Ok b"
    using prefers_double_total [of "cl_regenerated_size header" "length payload"] assms(2) by (cases "cl_four_streams header") auto
  have "case state of None \<Rightarrow> True | Some t \<Rightarrow> usable_table t"
    using assms(1) by (auto simp: huffman_state_ok_def split: option.splits)
  from read_huffman_dtable_meets [OF this, of b payload] show ?thesis
    using True by (simp add: huffman_table_for_def b case_prod_unfold huffman_state_ok_def)
qed (use assms in \<open>simp add: huffman_table_for_def\<close>)

lemma huffman_streams_meets:
  assumes "usable_table dtable"
  shows "meets (huffman_streams_into header dtable streams scratch)
    (\<lambda>(l, scratch'). literals_len l = cl_regenerated_size header \<and> literals_len l + LITERAL_OVERREAD_HEADROOM \<le> length (padded l))"
proof (cases "usize_max < cl_regenerated_size header + LITERAL_OVERREAD_HEADROOM")
  case True
  then show ?thesis by (simp add: huffman_streams_into_def checked_add_def)
next
  case False
  let ?n = "cl_regenerated_size header"
  let ?scr = "scratch @ replicate (?n + LITERAL_OVERREAD_HEADROOM - length scratch) 0"
  have c: "checked_add ?n LITERAL_OVERREAD_HEADROOM = Some (?n + LITERAL_OVERREAD_HEADROOM)"
    using False by (simp add: checked_add_def)
  have i: "idx_range ?scr 0 ?n = Ok (take ?n ?scr)" by (simp add: idx_range_def)
  have l: "length (take ?n ?scr) = ?n" by simp
  have d: "meets (if cl_four_streams header then decompress_4x_using_dtable (take ?n ?scr) streams dtable
      else decompress_1x_using_dtable (take ?n ?scr) streams dtable) (\<lambda>(d, _). length d = ?n)"
    using decompress_4x_meets [OF assms, of "take ?n ?scr" streams] decompress_1x_meets [OF assms, of "take ?n ?scr" streams]
    unfolding l by (auto elim!: meets_mono)
  show ?thesis unfolding huffman_streams_into_def c ok_or.simps and_then.simps Let_def i
      meets_and_then [of "if cl_four_streams header then _ else _"]
    by (rule meets_mono [OF d]) (auto simp: decoded_literals_new_def)
qed

lemma decode_huffman_literals_meets:
  assumes "huffman_state_ok state" and "f < 4"
  shows "meets (decode_huffman_literals_into src block_type f state block_size_max scratch) (literals_ok src block_size_max)"
proof -
  have tail: "meets (and_then (ok_or st (Corruption ''treeless literals require a prior Huff0 table'')) (\<lambda>dtable.
     and_then (ok_or (get_from payload used) UnexpectedEof) (\<lambda>streams.
     if streams = [] then Err (Corruption ''compressed literals payload is missing Huff0 streams'') else
     and_then (huffman_streams_into header dtable streams scratch) (\<lambda>(l, scratch).
       Ok (payload_end, l, st, scratch))))) (literals_ok src block_size_max)"
    if "huffman_state_ok st" "payload_end \<le> length src" "cl_regenerated_size header \<le> block_size_max"
    for st payload used header payload_end
    unfolding meets_and_then meets_ok_or meets_if
  proof (intro allI impI conjI)
    fix dtable streams assume "st = Some dtable"
    then have "usable_table dtable" using that(1) by (simp add: huffman_state_ok_def)
    from huffman_streams_meets [OF this, of header streams scratch] show "meets (huffman_streams_into header dtable streams scratch)
       (\<lambda>x. meets (case x of (l, scratch) \<Rightarrow> Ok (payload_end, l, st, scratch)) (literals_ok src block_size_max))"
      by (rule meets_mono) (use that in \<open>auto simp: literals_ok_def\<close>)
  qed simp
  have table: "meets (and_then (huffman_table_for block_type header payload state) (\<lambda>(st, used).
     and_then (ok_or st (Corruption ''treeless literals require a prior Huff0 table'')) (\<lambda>dtable.
     and_then (ok_or (get_from payload used) UnexpectedEof) (\<lambda>streams.
     if streams = [] then Err (Corruption ''compressed literals payload is missing Huff0 streams'') else
     and_then (huffman_streams_into header dtable streams scratch) (\<lambda>(l, scratch).
       Ok (payload_end, l, st, scratch)))))) (literals_ok src block_size_max)"
    if "payload_end \<le> length src" "cl_regenerated_size header \<le> block_size_max" "cl_regenerated_size header < 2 ^ 18"
    for payload header payload_end
    unfolding meets_and_then [of "huffman_table_for _ _ _ _"]
    by (rule meets_mono [OF huffman_table_for_meets [OF assms(1) that(3)]])
      (use tail that in \<open>auto simp del: meets_and_then\<close>)
  show ?thesis
    unfolding decode_huffman_literals_into_def meets_and_then [of "decode_compressed_literals_header _ _"]
      meets_and_then [of "ensure_regenerated_size _ _"] meets_and_then [of "ok_or (checked_add _ _) _"]
      meets_and_then [of "ok_or (get_range _ _ _) _"] meets_ok_or
    by (rule meets_mono [OF decode_compressed_header_meets [OF assms(2)]], rule meets_mono [OF ensure_regenerated_meets])
      (use table in \<open>auto simp del: meets_and_then\<close>)
qed

lemma decode_literals_section_meets:
  assumes "huffman_state_ok state"
  shows "meets (decode_literals_section_into src state block_size_max scratch) (literals_ok src block_size_max)"
proof (cases src)
  case Nil
  then show ?thesis by (simp add: decode_literals_section_into_def slice_get_def)
next
  case (Cons header0 rest)
  let ?t = "unat (header0 AND 3)" and ?f = "unat (drop_bit 2 header0 AND 3)"
  have f: "?f < 4" by (rule unat_and_3)
  have raw: "meets (decode_raw_literals_into src ?f state block_size_max scratch) (literals_ok src block_size_max)"
    unfolding decode_raw_literals_into_def meets_and_then
    by (rule meets_mono [OF decode_raw_or_rle_size_meets [OF f]])
      (use assms in \<open>auto simp: ensure_regenerated_size_def decoded_literals_new_def literals_ok_def Let_def\<close>)
  have rle: "meets (decode_rle_literals_into src ?f state block_size_max) (literals_ok src block_size_max)"
    unfolding decode_rle_literals_into_def meets_and_then
    by (rule meets_mono [OF decode_raw_or_rle_size_meets [OF f]])
      (use assms in \<open>auto simp: ensure_regenerated_size_def decoded_literals_new_def literals_ok_def Let_def\<close>)
  show ?thesis
    using raw rle decode_huffman_literals_meets [OF assms f, of src ?t block_size_max scratch]
    by (simp add: decode_literals_section_into_def slice_get_def Cons Let_def)
qed


subsection \<open>Round trips\<close>

lemma nat_or_push: "(a :: nat) < 2 ^ k \<Longrightarrow> a OR push_bit k b = a + 2 ^ k * b"
proof -
  assume a: "a < 2 ^ k"
  then have t: "take_bit k a = a" by (simp add: take_bit_nat_eq_self)
  have "a AND push_bit k b = 0"
  proof (rule bit_eqI)
    fix i
    show "bit (a AND push_bit k b) i \<longleftrightarrow> bit (0 :: nat) i"
      using t by (auto simp: bit_simps) (metis bit_take_bit_iff not_le)
  qed
  then show ?thesis by (simp add: disjunctive_add_eq_or [symmetric] push_bit_eq_mult mult.commute)
qed

lemma unat_and_3_mod: "unat ((w :: u8) AND 3) = unat w mod 4"
  using and_ones [of "unat w" 2] by (simp add: unsigned_and_eq)

lemma unat_format: "unat (drop_bit 2 (w :: u8) AND 3) = unat w div 4 mod 4"
  by (simp add: unat_and_3_mod unat_drop_bit_div)

lemma and_ff: "(x :: nat) AND 255 = x mod 256"
  using and_ones [of x 8] by simp

lemma three_bytes:
  assumes "v < 2 ^ 24"
  shows "le_nat [word_of_nat (v mod 256), word_of_nat (v div 256 mod 256), word_of_nat (v div 65536 mod 256)] = v"
proof -
  have "v = v mod 256 + 256 * (v div 256 mod 256 + 256 * (v div 256 div 256))" by simp
  moreover have "v div 256 div 256 = v div 65536" by (simp add: div_mult2_eq [symmetric])
  moreover have "v div 65536 < 256" using assms by (simp add: less_mult_imp_div_less)
  ultimately show ?thesis by (simp add: unat_word_of_nat_u8)
qed

lemma low_byte_fields:
  fixes v :: nat
  shows "v mod 256 mod 4 = v mod 4" and "v mod 256 div 4 mod 4 = v div 4 mod 4"
    and "v mod 256 div 16 + 16 * (v div 256) = v div 16"
proof -
  show "v mod 256 mod 4 = v mod 4" by (simp add: mod_mod_cancel)
  show "v mod 256 div 4 mod 4 = v div 4 mod 4" using mod_div_mod [of 2 2 8 v] by simp
  have "v div 16 = (v mod 256 + 16 * (16 * (v div 256))) div 16" by simp
  also have "\<dots> = v mod 256 div 16 + 16 * (v div 256)" by (subst div_mult_self2) simp_all
  finally show "v mod 256 div 16 + 16 * (v div 256) = v div 16" ..
qed

lemma packed_type_format:
  fixes n :: nat
  assumes "t < 2" and "f < 4"
  shows "(t + 4 * f + 16 * n) mod 4 = t" and "(t + 4 * f + 16 * n) div 4 mod 4 = f" and "(t + 4 * f + 16 * n) div 16 = n"
proof -
  have e: "t + 4 * f + 16 * n = t + 4 * (f + 4 * n)" by simp
  show "(t + 4 * f + 16 * n) mod 4 = t" using assms by (simp only: e mod_mult_self2 mod_less)
  have "(t + 4 * f + 16 * n) div 4 = f + 4 * n" using assms by (simp only: e) simp
  then show "(t + 4 * f + 16 * n) div 4 mod 4 = f" using assms by simp
  have "t + 4 * f < 16" using assms by simp
  then show "(t + 4 * f + 16 * n) div 16 = n" by simp
qed

lemma raw_or_rle_header:
  assumes t: "t < 2" and n: "n < 2 ^ 20"
  shows "\<exists>h b0 hs. append_raw_or_rle_literals_header (Growable g) t n = Ok (Growable (g @ h)) \<and> h = b0 # hs
    \<and> length h = raw_or_rle_literals_header_len n \<and> unat (b0 AND 3) = t
    \<and> decode_raw_or_rle_size (h @ rest) (unat (drop_bit 2 b0 AND 3)) = Ok (length h, n)"
proof -
  consider "n \<le> 31" | "31 < n" "n \<le> 0xFFF" | "0xFFF < n" by linarith
  then show ?thesis
  proof cases
    case 1
    let ?b = "word_of_nat t OR push_bit 3 (word_of_nat n) :: u8"
    have "?b = word_of_nat (t OR push_bit 3 n)"
      by (simp only: of_nat_or_eq of_nat_push_bit)
    also have "t OR push_bit 3 n = t + 8 * n" using nat_or_push [of t 3 n] t by simp
    finally have "unat ?b = (t + 8 * n) mod 256" by (simp only: unat_word_of_nat_u8)
    then have b: "unat ?b = t + 8 * n" using 1 t by simp
    have f: "(t + 8 * n) div 4 mod 4 = 0 \<or> (t + 8 * n) div 4 mod 4 = 2"
      using t by (simp add: less_2_cases_iff) presburger
    have m: "(t + 8 * n) mod 4 = t" "(t + 8 * n) div 8 = n" using t by (simp_all add: less_2_cases_iff) presburger+
    have h: "append_raw_or_rle_literals_header (Growable g) t n = Ok (Growable (g @ [?b]))"
      using 1 by (simp add: append_raw_or_rle_literals_header_def raw_or_rle_literals_header_len_def)
    have "decode_raw_or_rle_size ([?b] @ rest) (unat (drop_bit 2 ?b AND 3)) = Ok (length [?b], n)"
      using f unfolding unat_format b decode_raw_or_rle_size_def by (auto simp: slice_get_def unat_drop_bit_div b m)
    moreover have "unat (?b AND 3) = t" unfolding unat_and_3_mod b m(1) ..
    moreover have "length [?b] = raw_or_rle_literals_header_len n" using 1 by (simp add: raw_or_rle_literals_header_len_def)
    ultimately show ?thesis using h by blast
  next
    case 2
    let ?v = "t + 4 + 16 * n"
    have v: "take_bit 32 (t OR push_bit 2 1 OR push_bit 4 (take_bit 32 n)) = ?v"
      using 2 t nat_or_push [of t 2 1] nat_or_push [of "t + 4" 4 n] by (simp add: or.assoc [symmetric] take_bit_nat_eq_self)
    let ?b0 = "word_of_nat (?v mod 256) :: u8" and ?b1 = "word_of_nat (?v div 256 mod 256) :: u8"
    have b: "unat ?b0 = ?v mod 256" "unat ?b1 = ?v div 256" using 2 t by (simp_all add: unat_word_of_nat_u8 less_mult_imp_div_less)
    have h: "append_raw_or_rle_literals_header (Growable g) t n = Ok (Growable (g @ [?b0, ?b1]))"
      using 2 unfolding append_raw_or_rle_literals_header_def raw_or_rle_literals_header_len_def v
      by (simp add: and_ff drop_bit_eq_div Let_def)
    have m: "?v mod 256 mod 4 = t" "?v mod 256 div 4 mod 4 = 1" "?v mod 256 div 16 + 16 * (?v div 256) = n"
      using packed_type_format [OF t, of 1 n] by (simp_all only: low_byte_fields) simp_all
    have "?v mod 256 div 16 < 2 ^ 4" by (simp add: less_mult_imp_div_less)
    from nat_or_push [OF this, of "?v div 256"] have "decode_raw_or_rle_size ([?b0, ?b1] @ rest) 1 = Ok (2, n)"
      using m(3) b by (simp add: decode_raw_or_rle_size_def get_range_def drop_bit_eq_div)
    then have "decode_raw_or_rle_size ([?b0, ?b1] @ rest) (unat (drop_bit 2 ?b0 AND 3)) = Ok (length [?b0, ?b1], n)"
      unfolding unat_format b(1) m(2) by simp
    moreover have "unat (?b0 AND 3) = t" unfolding unat_and_3_mod b(1) by (rule m(1))
    moreover have "length [?b0, ?b1] = raw_or_rle_literals_header_len n" using 2 by (simp add: raw_or_rle_literals_header_len_def)
    ultimately show ?thesis using h by blast
  next
    case 3
    let ?v = "t + 12 + 16 * n"
    have v24: "?v < 2 ^ 24" using n t by simp
    have v: "take_bit 32 (t OR push_bit 2 3 OR push_bit 4 (take_bit 32 n)) = ?v"
      using n t nat_or_push [of t 2 3] nat_or_push [of "t + 12" 4 n] by (simp add: or.assoc [symmetric] take_bit_nat_eq_self)
    let ?b0 = "word_of_nat (?v mod 256) :: u8" and ?b1 = "word_of_nat (?v div 256 mod 256) :: u8"
      and ?b2 = "word_of_nat (?v div 65536 mod 256) :: u8"
    have b: "unat ?b0 = ?v mod 256" by (simp add: unat_word_of_nat_u8)
    have h: "append_raw_or_rle_literals_header (Growable g) t n = Ok (Growable (g @ [?b0, ?b1, ?b2]))"
      using 3 unfolding append_raw_or_rle_literals_header_def raw_or_rle_literals_header_len_def v
      by (simp add: and_ff drop_bit_eq_div Let_def)
    have m: "?v mod 256 mod 4 = t" "?v mod 256 div 4 mod 4 = 3" "?v div 16 = n"
      using packed_type_format [OF t, of 3 n] by (simp_all only: low_byte_fields) simp_all
    have "unat (word_of_nat ?v :: u32) = ?v" unfolding unat_of_nat using v24 by simp
    then have "decode_raw_or_rle_size ([?b0, ?b1, ?b2] @ rest) 3 = Ok (3, n)"
      using three_bytes [OF v24] m(3)
      by (simp add: decode_raw_or_rle_size_def get_range_def read_u24_le_eq drop_bit_eq_div del: le_nat.simps of_nat_add of_nat_mult)
    then have "decode_raw_or_rle_size ([?b0, ?b1, ?b2] @ rest) (unat (drop_bit 2 ?b0 AND 3)) = Ok (length [?b0, ?b1, ?b2], n)"
      unfolding unat_format b m(2) by simp
    moreover have "unat (?b0 AND 3) = t" unfolding unat_and_3_mod b by (rule m(1))
    moreover have "length [?b0, ?b1, ?b2] = raw_or_rle_literals_header_len n" using 3 by (simp add: raw_or_rle_literals_header_len_def)
    ultimately show ?thesis using h by blast
  qed
qed


lemma and_low: "(x :: nat) AND 0x3FF = x mod 2 ^ 10" "x AND 0x3FFF = x mod 2 ^ 14" "x AND 0x3FFFF = x mod 2 ^ 18"
  using and_ones [of x 10] and_ones [of x 14] and_ones [of x 18] by simp_all

text \<open>The fields of a compressed header, packed behind the two low fields.\<close>

lemma packed_fields:
  fixes t f n c :: nat
  assumes "t < 4" and "f < 4" and "n < 2 ^ k" and "c < 2 ^ k"
  defines "v \<equiv> t OR push_bit 2 f OR push_bit 4 n OR push_bit (4 + k) c"
  shows "v < 2 ^ (4 + 2 * k)" and "v mod 4 = t" and "v div 4 mod 4 = f" and "v div 16 mod 2 ^ k = n"
    and "v div 2 ^ (4 + k) mod 2 ^ k = c"
proof -
  let ?l = "t + 4 * f"
  have l: "?l < 16" using assms(1,2) by simp
  have m: "?l + 16 * n < 2 ^ (4 + k)" using l assms(3) by (simp add: power_add)
  have "v = ((t OR push_bit 2 f) OR push_bit 4 n) OR push_bit (4 + k) c" by (simp add: v_def or.assoc)
  also have "t OR push_bit 2 f = ?l" using nat_or_push [of t 2 f] assms(1) by simp
  also have "?l OR push_bit 4 n = ?l + 16 * n" using nat_or_push [of ?l 4 n] l by simp
  also have "(?l + 16 * n) OR push_bit (4 + k) c = ?l + 16 * n + 2 ^ (4 + k) * c" by (rule nat_or_push [OF m])
  finally have v: "v = ?l + 16 * (n + 2 ^ k * c)" by (simp add: power_add)
  have nc: "n + 2 ^ k * c < 2 ^ (2 * k)"
  proof -
    have "n + 2 ^ k * c < 2 ^ k * Suc c" using assms(3) by simp
    also have "\<dots> \<le> 2 ^ k * 2 ^ k" using assms(4) by (intro mult_left_mono) auto
    finally show ?thesis by (simp add: power_add [symmetric] mult_2)
  qed
  then have "16 * (n + 2 ^ k * c) + 16 \<le> 16 * 2 ^ (2 * k)" by simp
  then show "v < 2 ^ (4 + 2 * k)" using l by (simp add: v power_add)
  show "v mod 4 = t" "v div 4 mod 4 = f" using assms(1,2) by (simp_all add: v mod_mult2_eq div_mult2_eq) presburger+
  have d: "v div 16 = n + 2 ^ k * c" using l by (simp add: v)
  show "v div 16 mod 2 ^ k = n" using assms(3) by (simp add: d)
  have "v div 2 ^ (4 + k) = c" using assms(3) by (simp add: power_add div_mult2_eq d)
  then show "v div 2 ^ (4 + k) mod 2 ^ k = c" using assms(4) by simp
qed

lemma five_bytes:
  assumes "length h = 5"
  shows "unat (h ! 0) OR push_bit 8 (unat (h ! 1)) OR push_bit 16 (unat (h ! 2)) OR push_bit 24 (unat (h ! 3))
    OR push_bit 32 (unat (h ! 4)) = le_nat h"
proof -
  obtain a b c d e where h: "h = [a, b, c, d, e]" using assms by (auto simp: eval_nat_numeral length_Suc_conv)
  note u = unat_u8_less [of a] unat_u8_less [of b] unat_u8_less [of c] unat_u8_less [of d]
  show ?thesis
    using nat_or_push [of "unat a" 8 "unat b"] nat_or_push [of "unat a + 256 * unat b" 16 "unat c"]
      nat_or_push [of "unat a + 256 * unat b + 65536 * unat c" 24 "unat d"]
      nat_or_push [of "unat a + 256 * unat b + 65536 * unat c + 16777216 * unat d" 32 "unat e"] u
    by (simp add: h or.assoc [symmetric])
qed

lemma header_appended:
  "k \<le> 8 \<Longrightarrow> and_then (resize (Growable g) (length g + k) 0) (\<lambda>dst. write_at dst (length g) (take k (le_bytes 8 v)))
    = Ok (Growable (g @ le_bytes k v))"
  by (simp add: copy_into_def take_le_bytes)

lemma below_power_256: "v < 2 ^ (8 * k) \<Longrightarrow> (v :: nat) mod 256 ^ k = v"
  using power_mult [of "2 :: nat" 8 k] by simp

lemma small_header:
  assumes f: "f = 0 \<or> f = 1" and t: "t < 4" and n: "n < 2 ^ 10" and c: "1 \<le> c" "f = 1 \<longrightarrow> 10 \<le> c" "c < 2 ^ 10"
  defines "v \<equiv> t OR push_bit 2 f OR push_bit 4 n OR push_bit (4 + 10) c"
  shows "append_compressed_literals_header (Growable g) t f n c = Ok (Growable (g @ le_bytes 3 v))"
    and "decode_compressed_literals_header (le_bytes 3 v @ rest) f
      = Ok \<lparr>cl_header_size = 3, cl_regenerated_size = n, cl_compressed_size = c, cl_four_streams = (f = 1)\<rparr>"
    and "v mod 4 = t" and "v div 4 mod 4 = f"
proof -
  have f4: "f < 4" using f by auto
  note p = packed_fields [OF t f4 n c(3), folded v_def]
  show "v mod 4 = t" "v div 4 mod 4 = f" by (rule p)+
  have v: "v < 2 ^ 24" using p(1) by simp
  have "take_bit 64 v = v" using v by (simp add: take_bit_nat_eq_self)
  then have e: "take_bit 64 (t OR push_bit 2 f OR push_bit 4 n OR push_bit 14 c) = v" by (simp add: v_def)
  show "append_compressed_literals_header (Growable g) t f n c = Ok (Growable (g @ le_bytes 3 v))"
    unfolding append_compressed_literals_header_def Let_def or.assoc e using f header_appended [of 3 g v] by simp
  have "le_nat (le_bytes 3 v) = v" using below_power_256 [of v 3] v by (simp add: le_nat_le_bytes)
  moreover have "unat (word_of_nat v :: u32) = v" using v by (simp add: unat_of_nat)
  ultimately show "decode_compressed_literals_header (le_bytes 3 v @ rest) f
      = Ok \<lparr>cl_header_size = 3, cl_regenerated_size = n, cl_compressed_size = c, cl_four_streams = (f = 1)\<rparr>"
    using f c p(4,5) by (auto simp: decode_compressed_literals_header_def get_range_def read_u24_le_eq drop_bit_eq_div and_low)
qed

lemma middle_header:
  assumes t: "t < 4" and n: "n < 2 ^ 14" and c: "10 \<le> c" "c < 2 ^ 14"
  defines "v \<equiv> t OR push_bit 2 2 OR push_bit 4 n OR push_bit (4 + 14) c"
  shows "append_compressed_literals_header (Growable g) t 2 n c = Ok (Growable (g @ le_bytes 4 v))"
    and "decode_compressed_literals_header (le_bytes 4 v @ rest) 2
      = Ok \<lparr>cl_header_size = 4, cl_regenerated_size = n, cl_compressed_size = c, cl_four_streams = True\<rparr>"
    and "v mod 4 = t" and "v div 4 mod 4 = 2"
proof -
  have f4: "(2 :: nat) < 4" by simp
  note p = packed_fields [OF t f4 n c(2), folded v_def]
  show "v mod 4 = t" "v div 4 mod 4 = 2" by (rule p)+
  have v: "v < 2 ^ 32" using p(1) by simp
  have "take_bit 64 v = v" using v by (simp add: take_bit_nat_eq_self)
  then have e: "take_bit 64 (t OR push_bit 2 2 OR push_bit 4 n OR push_bit 18 c) = v" by (simp add: v_def)
  show "append_compressed_literals_header (Growable g) t 2 n c = Ok (Growable (g @ le_bytes 4 v))"
    unfolding append_compressed_literals_header_def Let_def or.assoc e using header_appended [of 4 g v] by simp
  have "le_nat (le_bytes 4 v) = v" using below_power_256 [of v 4] v by (simp add: le_nat_le_bytes)
  moreover have "unat (word_of_nat v :: u32) = v" using v by (simp add: unat_of_nat)
  ultimately show "decode_compressed_literals_header (le_bytes 4 v @ rest) 2
      = Ok \<lparr>cl_header_size = 4, cl_regenerated_size = n, cl_compressed_size = c, cl_four_streams = True\<rparr>"
    using c p(4,5) by (auto simp: decode_compressed_literals_header_def get_range_def read_u32_le_def drop_bit_eq_div and_low)
qed

lemma large_header_decoded:
  assumes "length h = 5"
  shows "decode_compressed_literals_header (h @ rest) 3 =
    (let n = le_nat h div 16 mod 2 ^ 18; c = le_nat h div 2 ^ 22 mod 2 ^ 18 in
     if c = 0 then Err (Corruption ''compressed literals section has an empty payload'')
     else if c < 10 then Err (Corruption ''4-stream literals section is smaller than the jump-table minimum'')
     else Ok \<lparr>cl_header_size = 5, cl_regenerated_size = n, cl_compressed_size = c, cl_four_streams = True\<rparr>)"
proof -
  obtain a b c d e where h: "h = [a, b, c, d, e]" using assms by (auto simp: eval_nat_numeral length_Suc_conv)
  show ?thesis using five_bytes [OF assms] unfolding h
    by (simp add: decode_compressed_literals_header_def get_range_def idx_def Let_def drop_bit_eq_div and_low del: le_nat.simps)
qed

lemma large_header:
  assumes t: "t < 4" and n: "n < 2 ^ 18" and c: "10 \<le> c" "c < 2 ^ 18"
  defines "v \<equiv> t OR push_bit 2 3 OR push_bit 4 n OR push_bit (4 + 18) c"
  shows "append_compressed_literals_header (Growable g) t 3 n c = Ok (Growable (g @ le_bytes 5 v))"
    and "decode_compressed_literals_header (le_bytes 5 v @ rest) 3
      = Ok \<lparr>cl_header_size = 5, cl_regenerated_size = n, cl_compressed_size = c, cl_four_streams = True\<rparr>"
    and "v mod 4 = t" and "v div 4 mod 4 = 3"
proof -
  have f4: "(3 :: nat) < 4" by simp
  note p = packed_fields [OF t f4 n c(2), folded v_def]
  show "v mod 4 = t" "v div 4 mod 4 = 3" by (rule p)+
  have v: "v < 2 ^ 40" using p(1) by simp
  have "take_bit 64 v = v" using v by (simp add: take_bit_nat_eq_self)
  then have e: "take_bit 64 (t OR push_bit 2 3 OR push_bit 4 n OR push_bit 22 c) = v" by (simp add: v_def)
  show "append_compressed_literals_header (Growable g) t 3 n c = Ok (Growable (g @ le_bytes 5 v))"
    unfolding append_compressed_literals_header_def Let_def or.assoc e using header_appended [of 5 g v] by simp
  have "le_nat (le_bytes 5 v) = v" using below_power_256 [of v 5] v by (simp add: le_nat_le_bytes)
  moreover have "length (le_bytes 5 v) = 5" by simp
  ultimately show "decode_compressed_literals_header (le_bytes 5 v @ rest) 3
      = Ok \<lparr>cl_header_size = 5, cl_regenerated_size = n, cl_compressed_size = c, cl_four_streams = True\<rparr>"
    using large_header_decoded [of "le_bytes 5 v" rest] c p(4,5) by (simp add: Let_def)
qed

lemma first_header_byte:
  assumes "0 < k"
  shows "\<exists>b0 hs. le_bytes k v = b0 # hs \<and> unat (b0 AND 3) = v mod 4 \<and> unat (drop_bit 2 b0 AND 3) = v div 4 mod 4"
proof -
  have "le_bytes k v = word_of_nat v # le_bytes (k - 1) (v div 256)" using assms by (cases k) simp_all
  moreover have "unat (word_of_nat v AND 3 :: u8) = v mod 4" unfolding unat_and_3_mod unat_word_of_nat_u8 by (rule low_byte_fields(1))
  moreover have "unat (drop_bit 2 (word_of_nat v :: u8) AND 3) = v div 4 mod 4"
    unfolding unat_format unat_word_of_nat_u8 by (rule low_byte_fields(2))
  ultimately show ?thesis by blast
qed

text \<open>C39. A compressed literals header written for a section of \<open>n\<close> literals and a payload of \<open>c\<close> bytes is
  read back exactly: whatever layout the encoder chooses for \<open>n\<close>, for every payload size that layout can
  carry (and that the format allows: at least one byte, at least ten in four streams), the section's first byte
  announces the block type and the size format, and the decoder recovers the header length, both sizes and the
  number of streams, whatever follows the header.\<close>

theorem compressed_literals_header_roundtrip:
  assumes t: "t = 2 \<or> t = 3" and n: "n < 2 ^ 18" and l: "l = compressed_layout_for n valid"
    and m: "max_compressed_size l = Ok m" "c \<le> m" and c: "1 \<le> c" "\<not> cll_single_stream l \<longrightarrow> 10 \<le> c"
  shows "\<exists>b0 hs. append_compressed_literals_header (Growable g) t (cll_size_format l) n c = Ok (Growable (g @ b0 # hs))
    \<and> unat (b0 AND 3) = t \<and> unat (drop_bit 2 b0 AND 3) = cll_size_format l
    \<and> decode_compressed_literals_header (b0 # hs @ rest) (cll_size_format l)
      = Ok \<lparr>cl_header_size = cll_header_size l, cl_regenerated_size = n, cl_compressed_size = c,
            cl_four_streams = (\<not> cll_single_stream l)\<rparr>"
proof -
  have t4: "t < 4" using t by auto
  have written: ?thesis
    if "append_compressed_literals_header (Growable g) t f n c = Ok (Growable (g @ le_bytes k v))"
      and "decode_compressed_literals_header (le_bytes k v @ rest) f
        = Ok \<lparr>cl_header_size = k, cl_regenerated_size = n, cl_compressed_size = c, cl_four_streams = (\<not> cll_single_stream l)\<rparr>"
      and "v mod 4 = t" and "v div 4 mod 4 = f" and "0 < k" and "cll_size_format l = f" and "cll_header_size l = k"
    for f k v
  proof -
    from first_header_byte [OF that(5), of v] that(3,4)
    have "\<exists>b0 hs. le_bytes k v = b0 # hs \<and> unat (b0 AND 3) = t \<and> unat (drop_bit 2 b0 AND 3) = f" by simp
    then obtain b0 hs where "le_bytes k v = b0 # hs" "unat (b0 AND 3) = t" "unat (drop_bit 2 b0 AND 3) = f" by blast
    with that(1,2,6,7) show ?thesis by (intro exI [of _ b0] exI [of _ hs]) simp
  qed
  consider (small) "n < 1024" | (middle) "1024 \<le> n" "n < 16 * 1024" | (large) "16 * 1024 \<le> n" by linarith
  then show ?thesis
  proof cases
    case small
    define f where "f = cll_size_format l"
    have lf: "cll_header_size l = 3" "f = of_bool (\<not> cll_single_stream l)"
      using small l by (simp_all add: f_def compressed_layout_for_def Let_def)
    then have f: "f = 0 \<or> f = 1" by auto
    have "c < 2 ^ 10" using m f by (auto simp: max_compressed_size_def f_def)
    moreover have "n < 2 ^ 10" using small by simp
    moreover have "f = 1 \<longrightarrow> 10 \<le> c" "(f = 1) = (\<not> cll_single_stream l)" using c(2) lf(2) by auto
    ultimately show ?thesis using small_header [OF f t4 _ c(1)] lf(1) by (intro written [of f 3]) (simp_all add: f_def)
  next
    case middle
    have lf: "cll_header_size l = 4" "cll_size_format l = 2" "\<not> cll_single_stream l"
      using middle l by (simp_all add: compressed_layout_for_def Let_def)
    have "c < 2 ^ 14" using m by (simp add: max_compressed_size_def lf)
    moreover have "n < 2 ^ 14" using middle by simp
    moreover have "10 \<le> c" using c(2) lf(3) by simp
    ultimately show ?thesis using middle_header [OF t4] lf by (intro written [of 2 4]) simp_all
  next
    case large
    have lf: "cll_header_size l = 5" "cll_size_format l = 3" "\<not> cll_single_stream l"
      using large l by (simp_all add: compressed_layout_for_def Let_def)
    have "c < 2 ^ 18" using m by (simp add: max_compressed_size_def lf)
    moreover have "10 \<le> c" using c(2) lf(3) by simp
    ultimately show ?thesis using large_header [OF t4 n] lf by (intro written [of 3 5]) simp_all
  qed
qed

lemma read_back_raw:
  assumes "decode_raw_or_rle_size (h @ src @ rest) f = Ok (length h, length src)" and "length src \<le> block_size_max"
    and "length h + length src < 2 ^ 64"
  shows "\<exists>l scratch'. decode_raw_literals_into (h @ src @ rest) f state block_size_max scratch
    = Ok (length h + length src, l, state, scratch') \<and> literals_slice l = src"
  using assms
  by (auto simp: decode_raw_literals_into_def ensure_regenerated_size_def demand_def checked_add_def usize_max_def
      idx_range_def decoded_literals_new_def literals_slice_def LITERAL_OVERREAD_HEADROOM_def Let_def)

lemma read_back_rle:
  assumes "decode_raw_or_rle_size (h @ byte # rest) f = Ok (length h, n)" and "n \<le> block_size_max"
  shows "\<exists>l scratch'. decode_rle_literals_into (h @ byte # rest) f state block_size_max
    = Ok (length h + 1, l, state, scratch') \<and> literals_slice l = replicate n byte"
  using assms
  by (auto simp: decode_rle_literals_into_def ensure_regenerated_size_def demand_def slice_get_def
      decoded_literals_new_def literals_slice_def LITERAL_OVERREAD_HEADROOM_def Let_def)

text \<open>C38. A raw literals section, and an RLE section over repeated bytes, decode to the literals they were written
  from: for fewer than \<open>2\<^sup>20\<close> literals within the block limit, the decoder consumes exactly the section the
  encoder wrote, whatever bytes follow it, returns the encoder's literals, and passes on the Huffman table it was
  given.\<close>

theorem raw_and_rle_sections_roundtrip:
  assumes n: "length src < 2 ^ 20" and m: "length src \<le> block_size_max"
  shows "(\<exists>section l scratch'. encode_raw_literals_section_into src = Ok section
      \<and> decode_literals_section_into (section @ rest) state block_size_max scratch = Ok (length section, l, state, scratch')
      \<and> literals_slice l = src)
    \<and> (\<forall>byte. src = replicate (length src) byte \<and> src \<noteq> [] \<longrightarrow>
      (\<exists>section l scratch'. encode_rle_literals_section_into src = Ok section
      \<and> decode_literals_section_into (section @ rest) state block_size_max scratch = Ok (length section, l, state, scratch')
      \<and> literals_slice l = src))"
proof (intro conjI allI impI)
  have "(0 :: nat) < 2" by simp
  from raw_or_rle_header [OF this n, of "[]" "src @ rest"] obtain h b0 hs where
    h: "append_raw_or_rle_literals_header (Growable []) 0 (length src) = Ok (Growable ([] @ h))" "h = b0 # hs"
      "unat (b0 AND 3) = 0" "length h = raw_or_rle_literals_header_len (length src)"
      "decode_raw_or_rle_size (h @ src @ rest) (unat (drop_bit 2 b0 AND 3)) = Ok (length h, length src)" by blast
  have "length h + length src < 2 ^ 64" using n by (simp add: h(4) raw_or_rle_literals_header_len_def)
  from read_back_raw [OF h(5) m this] obtain l scratch' where
    "decode_raw_literals_into (h @ src @ rest) (unat (drop_bit 2 b0 AND 3)) state block_size_max scratch
      = Ok (length h + length src, l, state, scratch')" "literals_slice l = src" by blast
  then show "\<exists>section l scratch'. encode_raw_literals_section_into src = Ok section
      \<and> decode_literals_section_into (section @ rest) state block_size_max scratch = Ok (length section, l, state, scratch')
      \<and> literals_slice l = src"
    using h by (intro exI [of _ "h @ src"] exI [of _ l] exI [of _ scratch'])
      (simp add: encode_raw_literals_section_into_def decode_literals_section_into_def slice_get_def)
next
  fix byte assume r: "src = replicate (length src) byte \<and> src \<noteq> []"
  then have hd: "slice_get src 0 = Some byte" by (cases src) (auto simp: slice_get_def Cons_replicate_eq)
  have "(1 :: nat) < 2" by simp
  from raw_or_rle_header [OF this n, of "[]" "byte # rest"] obtain h b0 hs where
    h: "append_raw_or_rle_literals_header (Growable []) 1 (length src) = Ok (Growable ([] @ h))" "h = b0 # hs"
      "unat (b0 AND 3) = 1"
      "decode_raw_or_rle_size (h @ byte # rest) (unat (drop_bit 2 b0 AND 3)) = Ok (length h, length src)" by blast
  from read_back_rle [OF h(4) m] obtain l scratch' where
    "decode_rle_literals_into (h @ byte # rest) (unat (drop_bit 2 b0 AND 3)) state block_size_max
      = Ok (length h + 1, l, state, scratch')" "literals_slice l = src" using r by metis
  then show "\<exists>section l scratch'. encode_rle_literals_section_into src = Ok section
      \<and> decode_literals_section_into (section @ rest) state block_size_max scratch = Ok (length section, l, state, scratch')
      \<and> literals_slice l = src"
    using h hd by (intro exI [of _ "h @ [byte]"] exI [of _ l] exI [of _ scratch'])
      (simp add: encode_rle_literals_section_into_def decode_literals_section_into_def slice_get_def)
qed

text \<open>C37. Decoding a literals section never faults: on any input, with no table or a well-formed one from an
  earlier block, it reports an error or consumes no more than the input, returns at most the block limit of
  literals with sixteen readable bytes behind them for the executor's wild copies, and leaves a table that the
  next treeless section can use.\<close>

theorem literals_section_safe:
  assumes "\<forall>t. state = Some t \<longrightarrow> usable_table t"
  shows "(\<exists>e. decode_literals_section_into src state block_size_max scratch = Err e)
    \<or> (\<exists>consumed l state' scratch'. decode_literals_section_into src state block_size_max scratch = Ok (consumed, l, state', scratch')
        \<and> consumed \<le> length src \<and> length (literals_slice l) \<le> block_size_max
        \<and> length (literals_slice l) + LITERAL_OVERREAD_HEADROOM \<le> length (padded l)
        \<and> (\<forall>t. state' = Some t \<longrightarrow> usable_table t))"
proof -
  have "meets (decode_literals_section_into src state block_size_max scratch) (literals_ok src block_size_max)"
    using assms by (intro decode_literals_section_meets) (simp add: huffman_state_ok_def)
  then show ?thesis
    by (cases "decode_literals_section_into src state block_size_max scratch")
      (auto simp: literals_ok_def literals_slice_def huffman_state_ok_def)
qed

lemma compressed_literals_header_roundtrip_witness:
  "\<exists>b0 hs. append_compressed_literals_header (Growable []) 2 (cll_size_format (compressed_layout_for 300 False)) 300 100
      = Ok (Growable ([] @ b0 # hs))
    \<and> unat (b0 AND 3) = 2 \<and> unat (drop_bit 2 b0 AND 3) = cll_size_format (compressed_layout_for 300 False)
    \<and> decode_compressed_literals_header (b0 # hs @ [7]) (cll_size_format (compressed_layout_for 300 False))
      = Ok \<lparr>cl_header_size = cll_header_size (compressed_layout_for 300 False), cl_regenerated_size = 300,
            cl_compressed_size = 100, cl_four_streams = (\<not> cll_single_stream (compressed_layout_for 300 False))\<rparr>"
  by (rule compressed_literals_header_roundtrip [of 2 300 _ False "0x3FF" 100])
    (simp_all add: compressed_layout_for_def max_compressed_size_def)

lemma raw_and_rle_sections_roundtrip_witness:
  "(\<exists>section l scratch'. encode_raw_literals_section_into [5, 5, 5] = Ok section
      \<and> decode_literals_section_into (section @ [1, 2]) None 131072 [] = Ok (length section, l, None, scratch')
      \<and> literals_slice l = [5, 5, 5])
    \<and> (\<exists>section l scratch'. encode_rle_literals_section_into [5, 5, 5] = Ok section
      \<and> decode_literals_section_into (section @ [1, 2]) None 131072 [] = Ok (length section, l, None, scratch')
      \<and> literals_slice l = [5, 5, 5])"
proof (intro conjI)
  have p: "length [5, 5, 5 :: u8] < 2 ^ 20" "length [5, 5, 5 :: u8] \<le> 131072" by simp_all
  note r = raw_and_rle_sections_roundtrip [OF p, of "[1, 2]" None "[]"]
  show "\<exists>section l scratch'. encode_raw_literals_section_into [5, 5, 5] = Ok section
      \<and> decode_literals_section_into (section @ [1, 2]) None 131072 [] = Ok (length section, l, None, scratch')
      \<and> literals_slice l = [5, 5, 5]" by (rule r [THEN conjunct1])
  have "[5, 5, 5 :: u8] = replicate (length [5, 5, 5 :: u8]) 5 \<and> [5, 5, 5 :: u8] \<noteq> []" by (simp add: eval_nat_numeral)
  with r show "\<exists>section l scratch'. encode_rle_literals_section_into [5, 5, 5] = Ok section
      \<and> decode_literals_section_into (section @ [1, 2]) None 131072 [] = Ok (length section, l, None, scratch')
      \<and> literals_slice l = [5, 5, 5]" by blast
qed

lemma literals_section_safe_witness:
  "(\<exists>e. decode_literals_section_into [0x1D, 0x41] None 131072 [] = Err e)
    \<or> (\<exists>consumed l state' scratch'. decode_literals_section_into [0x1D, 0x41] None 131072 [] = Ok (consumed, l, state', scratch')
        \<and> consumed \<le> length [0x1D, 0x41 :: u8] \<and> length (literals_slice l) \<le> 131072
        \<and> length (literals_slice l) + LITERAL_OVERREAD_HEADROOM \<le> length (padded l)
        \<and> (\<forall>t. state' = Some t \<longrightarrow> usable_table t))"
  by (rule literals_section_safe) simp

end
