(* ===== verification/SeqExec.thy ===== *)
theory SeqExec
  imports SeqRead Literals SeqHistory
begin

section \<open>Executing sequences as they are decoded (sequence.rs)\<close>

text \<open>
  The fused decoder of \<open>src/src/sequence.rs\<close>: every sequence is executed as soon as it is read. The executor works on
  the destination's memory past its recorded length, with literal and match copies in fixed-size chunks that write past
  the sequence; near the end of a destination that cannot grow it takes the exact appends instead. A pointer
  into the padded literals is an index. The block size limit and the output cap are one budget. An
  error drops the state, which the caller does not use again.
\<close>

definition OFFSET_SENTINEL :: usize where "OFFSET_SENTINEL = 2 ^ 32 - 1"

definition resolve_rep_offset_decode :: "repeat_offsets \<Rightarrow> nat \<Rightarrow> nat \<Rightarrow> usize \<times> repeat_offsets" where
  "resolve_rep_offset_decode r v ll =
     (if v = 0 then (OFFSET_SENTINEL, r) else
      let rep_index = v + of_bool (ll = 0) in
      if rep_index = 2 then (rep2 r, \<lparr>rep1 = rep2 r, rep2 = rep1 r, rep3 = rep3 r\<rparr>)
      else if rep_index = 3 then (rep3 r, \<lparr>rep1 = rep3 r, rep2 = rep1 r, rep3 = rep2 r\<rparr>)
      else if rep1 r \<le> 1 then (OFFSET_SENTINEL, r)
      else (rep1 r - 1, \<lparr>rep1 = rep1 r - 1, rep2 = rep1 r, rep3 = rep2 r\<rparr>))"

definition resolve_offset :: "repeat_offsets \<Rightarrow> sequence_command \<Rightarrow> usize \<times> repeat_offsets" where
  "resolve_offset r c =
     (if 3 < offset_value c
      then (offset_value c - 3, \<lparr>rep1 = offset_value c - 3, rep2 = rep1 r, rep3 = rep2 r\<rparr>)
      else if offset_value c = 1 \<and> literal_length c \<noteq> 0 then (rep1 r, r)
      else resolve_rep_offset_decode r (offset_value c) (literal_length c))"

definition execute_dictionary_match ::
    "decode_out \<Rightarrow> usize \<Rightarrow> usize \<Rightarrow> usize \<Rightarrow> bytes option \<Rightarrow> usize \<Rightarrow> usize \<Rightarrow> (usize \<times> decode_out) result" where
  "execute_dictionary_match out pos frame_start window_size dict offset ml =
     (if offset = OFFSET_SENTINEL then Err (Corruption ''repeat offset 1 minus 1 is zero'')
      else if pos < frame_start then Fault else
      case dict of
        Some d \<Rightarrow>
          if window_size < pos - frame_start then Err offset_exceeds_history_error else
          and_then (ok_or (checked_add (length d) (pos - frame_start)) OutputSizeOverflow) (\<lambda>available_history.
          if available_history < offset then Err offset_exceeds_history_error else
          and_then (dout_set_len out pos) (\<lambda>out.
          and_then (append_match_from_dictionary_history out frame_start d offset ml) (\<lambda>out.
            Ok (dout_len out, out))))
      | None \<Rightarrow> Err offset_exceeds_history_error)"

definition copy_16_from :: "bytes \<Rightarrow> usize \<Rightarrow> bytes \<Rightarrow> usize \<Rightarrow> bytes result" where
  "copy_16_from mem dst lits ip = and_then (idx_range lits ip (ip + 16)) (\<lambda>chunk. copy_into mem dst chunk)"

function wild_literals :: "bytes \<Rightarrow> usize \<Rightarrow> bytes \<Rightarrow> usize \<Rightarrow> usize \<Rightarrow> usize \<Rightarrow> bytes result" where
  "wild_literals mem dst lits ip pos n =
     (if pos < n then
        and_then (copy_16_from mem (dst + pos) lits (ip + pos)) (\<lambda>mem. wild_literals mem dst lits ip (pos + 16) n)
      else Ok mem)"
  by pat_completeness auto
termination by (relation "measure (\<lambda>(mem, dst, lits, ip, pos, n). n - pos)") auto

declare wild_literals.simps [simp del]

definition copy_literals :: "bytes \<Rightarrow> usize \<Rightarrow> bytes \<Rightarrow> usize \<Rightarrow> usize \<Rightarrow> bytes result" where
  "copy_literals mem dst lits ip n =
     and_then (copy_16_from mem dst lits ip) (\<lambda>mem.
       if 16 < n then wild_literals mem dst lits ip 16 n else Ok mem)"

definition execute_sequence_exact ::
    "decode_out \<Rightarrow> usize \<Rightarrow> bytes \<Rightarrow> usize \<Rightarrow> usize \<Rightarrow> usize \<Rightarrow> usize \<Rightarrow> usize \<Rightarrow> usize \<Rightarrow> bytes option \<Rightarrow>
     (usize \<times> decode_out) result" where
  "execute_sequence_exact out pos lits ip ll offset ml frame_start window_size dict =
     (if is_growable out then Fault else
      and_then (dout_set_len out pos) (\<lambda>out.
      and_then (idx_range lits ip (ip + ll)) (\<lambda>literal_run.
      and_then (dout_append out literal_run) (\<lambda>out.
      let pos = dout_len out in
      if pos < frame_start then Fault
      else if offset \<le> pos - frame_start \<and> offset \<le> window_size then
        and_then (append_match_from_history out (pos - offset) ml) (\<lambda>out. Ok (dout_len out, out))
      else execute_dictionary_match out pos frame_start window_size dict offset ml))))"

text \<open>What stays the same for a block, and what a sequence changes.\<close>

record exec_env =
  e_frame_start :: usize
  e_window_size :: usize
  e_dictionary :: "bytes option"
  e_literals :: decoded_literals
  e_limit :: output_limit
  e_wildcopy_end :: usize
  e_block_bytes :: usize
  e_merged_budget :: usize

record exec_state =
  x_out :: decode_out
  x_pos :: usize
  x_reps :: repeat_offsets
  x_ip :: usize
  x_budget :: usize

text \<open>One sequence. The last one of a block is always \<open>checked\<close>.\<close>

definition execute_sequence :: "bool \<Rightarrow> exec_env \<Rightarrow> sequence_command \<Rightarrow> exec_state \<Rightarrow> exec_state result" where
  "execute_sequence checked env c st =
     (let ll = literal_length c; ml = match_length c; total = ll + ml; new_ip = x_ip st + ll;
          lits = e_literals env; frame_start = e_frame_start env; window_size = e_window_size env in
      if x_budget st < total \<or> literals_len lits < new_ip then
        (if literals_len lits < new_ip then Err literal_length_exceeds_buffer_error
         else if e_merged_budget env < x_budget st \<or> e_block_bytes env < e_merged_budget env - x_budget st then Fault
         else Err (sequence_budget_error total (e_block_bytes env - (e_merged_budget env - x_budget st)) (x_pos st) (e_limit env)))
      else
        let (offset, reps) = resolve_offset (x_reps st) c in
        and_then
          (if \<not> checked \<or> x_pos st + total \<le> e_wildcopy_end env then
             and_then (copy_literals (region (region_of (x_out st))) (x_pos st) (padded lits) (x_ip st) ll) (\<lambda>mem.
             let pos = x_pos st + ll; out = put_region (x_out st) mem in
             if pos < frame_start then Fault
             else if offset \<le> pos - frame_start \<and> offset \<le> window_size then
               and_then (copy_match_inline mem pos (pos - offset) ml) (\<lambda>mem. Ok (pos + ml, put_region out mem))
             else execute_dictionary_match out pos frame_start window_size (e_dictionary env) offset ml)
           else execute_sequence_exact (x_out st) (x_pos st) (padded lits) (x_ip st) ll offset ml frame_start window_size
             (e_dictionary env))
          (\<lambda>(pos, out). Ok \<lparr>x_out = out, x_pos = pos, x_reps = reps, x_ip = new_ip, x_budget = x_budget st - total\<rparr>))"

text \<open>The main loop, over all sequences but the last, and the last one.\<close>

fun sequence_loop :: "bool \<Rightarrow> exec_env \<Rightarrow> sequence_tables \<Rightarrow> nat \<Rightarrow> dstream \<Rightarrow> raw_states \<Rightarrow> exec_state \<Rightarrow>
    (dstream \<times> raw_states \<times> exec_state) result" where
  "sequence_loop checked env tables 0 s r st = Ok (s, r, st)"
| "sequence_loop checked env tables (Suc n) s r st =
     and_then (decode_sequence s r) (\<lambda>(c, s).
     and_then (next_raw_states tables s r) (\<lambda>(r, s).
     and_then (execute_sequence checked env c st) (\<lambda>st.
     and_then (reload s) (\<lambda>(status, s).
       if status = Overflow then Err (Corruption ''sequence bitstream overflow'')
       else sequence_loop checked env tables n s r st))))"

definition decode_and_execute_last_sequence ::
    "exec_env \<Rightarrow> dstream \<Rightarrow> raw_states \<Rightarrow> exec_state \<Rightarrow> (dstream \<times> exec_state) result" where
  "decode_and_execute_last_sequence env s r st =
     and_then (decode_sequence s r) (\<lambda>(c, s).
     and_then (execute_sequence True env c st) (\<lambda>st. Ok (s, st)))"

definition execute_block_sequences ::
    "bool \<Rightarrow> exec_env \<Rightarrow> sequence_tables \<Rightarrow> parsed_section \<Rightarrow> decode_out \<Rightarrow> repeat_offsets \<Rightarrow> usize \<Rightarrow>
     (decode_out \<times> repeat_offsets) result" where
  "execute_block_sequences checked env tables p out reps output_bytes =
     and_then (open_states tables (section_bitstream p)) (\<lambda>(r, s).
     and_then (sequence_loop checked env tables (number_of_sequences p - 1) s r
        \<lparr>x_out = out, x_pos = dout_len out, x_reps = reps, x_ip = 0, x_budget = e_merged_budget env\<rparr>) (\<lambda>(s, r, st).
     and_then (decode_and_execute_last_sequence env s r st) (\<lambda>(s, st).
     and_then (dout_set_len (x_out st) (x_pos st)) (\<lambda>out.
     and_then (reload s) (\<lambda>(status, s).
     if status = Overflow \<or> \<not> end_of_stream s
     then Err (Corruption ''sequence bitstream was not fully consumed'') else
     let consumed = e_merged_budget env - x_budget st in
     and_then (append_trailing_literals out (literals_slice (e_literals env)) (x_ip st) (e_block_bytes env - consumed)
         (output_bytes - consumed) (e_limit env)) (\<lambda>out.
       Ok (out, x_reps st)))))))"

definition decode_and_execute_sequences_unified ::
    "parsed_section \<Rightarrow> sequence_tables \<Rightarrow> decode_out \<Rightarrow> usize \<Rightarrow> usize \<Rightarrow> usize \<Rightarrow> bytes option \<Rightarrow> decoded_literals \<Rightarrow>
     repeat_offsets \<Rightarrow> output_limit \<Rightarrow> (sequence_tables \<times> decode_out \<times> repeat_offsets) result" where
  "decode_and_execute_sequences_unified p tables out frame_start window_size block_size_max dict lits reps limit =
     (if number_of_sequences p = 0 then Fault else
      and_then (decode_setup tables out block_size_max limit) (\<lambda>(tables, out, block_bytes, output_bytes).
      let wildcopy_end = dout_capacity out - WILDCOPY_OVERLENGTH; merged = min block_bytes output_bytes;
          env = \<lparr>e_frame_start = frame_start, e_window_size = window_size, e_dictionary = dict, e_literals = lits,
                 e_limit = limit, e_wildcopy_end = wildcopy_end, e_block_bytes = block_bytes, e_merged_budget = merged\<rparr> in
      if usize_max < dout_len out + merged then Fault else
      and_then (execute_block_sequences (wildcopy_end < dout_len out + merged) env tables p out reps output_bytes)
        (\<lambda>(out, reps). Ok (tables, out, reps))))"

definition decode_and_execute_sequences ::
    "parsed_section \<Rightarrow> sequence_tables \<Rightarrow> decode_out \<Rightarrow> usize \<Rightarrow> usize \<Rightarrow> usize \<Rightarrow> bytes option \<Rightarrow> decoded_literals \<Rightarrow>
     repeat_offsets \<Rightarrow> output_limit \<Rightarrow> (sequence_tables \<times> decode_out \<times> repeat_offsets) result" where
  "decode_and_execute_sequences p tables out frame_start window_size block_size_max dict lits reps limit =
     (if number_of_sequences p = 0 then
        and_then (limit_remaining limit (dout_len out)) (\<lambda>output_bytes.
        and_then (append_trailing_literals out (literals_slice lits) 0 block_size_max output_bytes limit) (\<lambda>out.
          Ok (tables, out, reps)))
      else decode_and_execute_sequences_unified p tables out frame_start window_size block_size_max dict lits reps limit)"

subsection \<open>The copies\<close>

lemma copy_16_from_run:
  assumes "ip + 16 \<le> length lits" and "dst + 16 \<le> length mem" and "dst = base + pos"
    and "take dst mem = take base mem0 @ take pos (drop ip0 lits)" and "ip = ip0 + pos" and "base \<le> length mem0"
  shows "\<exists>mem'. copy_16_from mem dst lits ip = Ok mem' \<and> length mem' = length mem
    \<and> take (dst + 16) mem' = take base mem0 @ take (pos + 16) (drop ip0 lits)"
proof -
  let ?mem = "take dst mem @ take 16 (drop ip lits) @ drop (dst + 16) mem"
  have run: "copy_16_from mem dst lits ip = Ok ?mem" "length ?mem = length mem"
    using assms(1,2) by (simp_all add: copy_16_from_def idx_range_def copy_into_def)
  have first: "take (dst + 16) ?mem = take dst mem @ take 16 (drop ip lits)" using assms(1,2) by simp
  have e: "take (pos + 16) (drop ip0 lits) = take pos (drop ip0 lits) @ take 16 (drop ip lits)"
    unfolding take_add [of pos 16 "drop ip0 lits"] drop_drop assms(5) by (simp only: add.commute [of pos ip0])
  note first
  also have "take dst mem @ take 16 (drop ip lits) = (take base mem0 @ take pos (drop ip0 lits)) @ take 16 (drop ip lits)"
    by (simp only: assms(4))
  also have "\<dots> = take base mem0 @ take (pos + 16) (drop ip0 lits)" by (simp only: e append_assoc)
  finally have "take (dst + 16) ?mem = take base mem0 @ take (pos + 16) (drop ip0 lits)" .
  with run show ?thesis by blast
qed

lemma wild_literals_run:
  "pos \<le> n + 15 \<Longrightarrow> base \<le> length mem0 \<Longrightarrow> ip + n + 16 \<le> length lits \<Longrightarrow> base + n + 16 \<le> length mem \<Longrightarrow>
   take (base + pos) mem = take base mem0 @ take pos (drop ip lits) \<Longrightarrow>
   \<exists>mem'. wild_literals mem base lits ip pos n = Ok mem' \<and> length mem' = length mem
     \<and> take (base + n) mem' = take base mem0 @ take n (drop ip lits)"
proof (induction mem base lits ip pos n rule: wild_literals.induct)
  case (1 mem base lits ip pos n)
  show ?case
  proof (cases "pos < n")
    case True
    from copy_16_from_run [of "ip + pos" lits "base + pos" mem base pos mem0 ip] 1(2-) True obtain m where
      m: "copy_16_from mem (base + pos) lits (ip + pos) = Ok m" "length m = length mem"
      "take (base + pos + 16) m = take base mem0 @ take (pos + 16) (drop ip lits)" by auto
    have "\<exists>mem'. wild_literals m base lits ip (pos + 16) n = Ok mem' \<and> length mem' = length m
      \<and> take (base + n) mem' = take base mem0 @ take n (drop ip lits)"
      by (rule 1(1) [OF True]) (use True 1(3-5) m in \<open>simp_all add: add.assoc\<close>)
    then show ?thesis using True m(1,2) by (simp add: wild_literals.simps [of mem])
  next
    case False
    have "take (base + n) mem = take (base + n) (take (base + pos) mem)" using False by (simp add: min_def)
    also have "\<dots> = take base mem0 @ take n (drop ip lits)" unfolding 1(6) using False 1(3) by (simp add: min_def)
    finally show ?thesis using False by (simp add: wild_literals.simps)
  qed
qed

lemma copy_literals_run:
  assumes "ip + n + 16 \<le> length lits" and "dst + n + 16 \<le> length mem"
  shows "\<exists>mem'. copy_literals mem dst lits ip n = Ok mem' \<and> length mem' = length mem
    \<and> take (dst + n) mem' = take dst mem @ take n (drop ip lits)"
proof -
  have l: "dst \<le> length mem" using assms(2) by simp
  from copy_16_from_run [of ip lits dst mem dst 0 mem ip] assms obtain m where
    m: "copy_16_from mem dst lits ip = Ok m" "length m = length mem" "take (dst + 16) m = take dst mem @ take (0 + 16) (drop ip lits)"
    by auto
  show ?thesis
  proof (cases "16 < n")
    case True
    with wild_literals_run [of 16 n dst mem ip lits m] assms l m show ?thesis by (simp add: copy_literals_def)
  next
    case False
    have "take (dst + n) m = take (dst + n) (take (dst + 16) m)" using False by (simp add: min_def)
    also have "\<dots> = take dst mem @ take n (drop ip lits)" unfolding m(3) using False l by (simp add: min_def)
    finally show ?thesis using False m(1,2) by (simp add: copy_literals_def)
  qed
qed

subsection \<open>One sequence\<close>

text \<open>The offset is the one of the reference, or the sentinel where the reference has none.\<close>

lemma resolve_offset_reference:
  assumes "reps_ok r" and "0 < offset_value c" and "resolve_offset r c = (offset, r')"
  shows "resolve_values r (literal_length c) (offset_value c) = Ok (offset, r') \<and> 0 < offset \<and> reps_ok r'
    \<or> offset = OFFSET_SENTINEL \<and> r' = r"
proof -
  let ?l = "literal_length c" and ?v = "offset_value c"
  note r = assms(1) [unfolded reps_ok_def] and e = assms(3) [unfolded resolve_offset_def resolve_rep_offset_decode_def]
  consider "3 < ?v" | "?v = 1" | "?v = 2" | "?v = 3" using assms(2) by linarith
  then show ?thesis
  proof cases
    case 1
    then show ?thesis using r e by (auto simp: resolve_values_def reps_ok_def)
  next
    case 2
    then show ?thesis using r e by (cases "?l = 0") (auto simp: resolve_values_def reps_ok_def rotate_offsets_def)
  next
    case 3
    then show ?thesis using r e by (cases "?l = 0") (auto simp: resolve_values_def reps_ok_def rotate_offsets_def)
  next
    case 4
    then show ?thesis using r e
      by (cases "?l = 0"; cases "rep1 r \<le> 1") (auto simp: resolve_values_def reps_ok_def rotate_offsets_def)
  qed
qed

text \<open>The destination, of which the executor has written the first \<open>pos\<close> bytes.\<close>

definition holds_bytes :: "decode_out \<Rightarrow> usize \<Rightarrow> bytes \<Rightarrow> bool" where
  "holds_bytes out pos bs \<longleftrightarrow> pos \<le> dout_capacity out \<and> take pos (region (region_of out)) = bs"

lemma holds_length: "holds_bytes out pos bs \<Longrightarrow> length bs = pos"
  by (auto simp: holds_bytes_def dout_capacity_def)

lemma holds_set_len:
  assumes "holds_bytes out pos bs"
  shows "\<exists>out'. dout_set_len out pos = Ok out' \<and> keeps out out' \<and> dout_slice out' = bs \<and> dout_len out' = pos"
proof -
  have e: "put_region out (region (region_of out)) = out" by (cases out) (simp_all add: put_region_def)
  have "pos \<le> length (region (region_of out))" "length (region (region_of out)) = dout_capacity out"
    "take pos (region (region_of out)) = bs" using assms by (simp_all add: holds_bytes_def dout_capacity_def)
  from dout_set_len_put [OF this(1,2)] this(3) show ?thesis unfolding e by blast
qed

lemma holds_slice: "dout_ok out \<Longrightarrow> holds_bytes out (dout_len out) (dout_slice out)"
  by (simp add: holds_bytes_def dout_ok_def dout_len_def dout_capacity_def dout_slice_def)

text \<open>What one match makes of the bytes \<open>base @ w\<close>.\<close>

definition matched :: "bytes option \<Rightarrow> usize \<Rightarrow> bytes \<Rightarrow> bytes \<Rightarrow> nat \<Rightarrow> nat \<Rightarrow> decode_out \<Rightarrow> usize \<times> decode_out \<Rightarrow> bool" where
  "matched dict window_size base w offset ml out r \<longleftrightarrow> (case r of (pos, out') \<Rightarrow>
     in_reach dict window_size (length w) offset \<and> keeps out out' \<and> pos = length base + length w + ml
     \<and> holds_bytes out' pos (base @ lz_extend (dict_bytes dict) w offset ml))"

lemma keeps_matched: "keeps a b \<Longrightarrow> matched dict win base w offset ml b r \<Longrightarrow> matched dict win base w offset ml a r"
  by (auto simp: matched_def intro: keeps_trans)

lemma dictionary_match_meets:
  assumes h: "holds_bytes out pos (base @ w)" and b: "length base = frame_start" and o: "offset = OFFSET_SENTINEL \<or> 0 < offset"
  shows "meets (execute_dictionary_match out pos frame_start window_size dict offset ml)
    (\<lambda>r. offset \<noteq> OFFSET_SENTINEL \<and> matched dict window_size base w offset ml out r)"
proof (cases "offset = OFFSET_SENTINEL \<or> dict = None")
  case True
  then show ?thesis using holds_length [OF h] b by (auto simp: execute_dictionary_match_def split: option.splits)
next
  case False
  then obtain d where d: "dict = Some d" and s: "offset \<noteq> OFFSET_SENTINEL" "0 < offset" using o by auto
  have pos: "pos = frame_start + length w" using holds_length [OF h] b by simp
  from holds_set_len [OF h] obtain o1 where o1: "dout_set_len out pos = Ok o1" "keeps out o1" "dout_slice o1 = base @ w"
    "dout_len o1 = pos" by blast
  have rest: "meets (append_match_from_dictionary_history o1 frame_start d offset ml)
      (\<lambda>o2. matched dict window_size base w offset ml out (dout_len o2, o2))"
    if "offset \<le> length d + length w" "length w \<le> window_size"
  proof -
    have run: "if fits (dout_limit o1) (dout_len o1 + ml)
       then \<exists>out'. append_match_from_dictionary_history o1 frame_start d offset ml = Ok out' \<and> keeps o1 out'
         \<and> dout_slice out' = take frame_start (dout_slice o1) @ lz_extend d (drop frame_start (dout_slice o1)) offset ml
       else append_match_from_dictionary_history o1 frame_start d offset ml = Err DstSizeTooSmall"
      using that pos o1(4) s(2) by (intro append_dictionary_match_run keeps_ok [OF o1(2)]) simp_all
    have "matched dict window_size base w offset ml out (dout_len o2, o2)"
      if "keeps o1 o2" "dout_slice o2 = base @ lz_extend d w offset ml" for o2
    proof -
      have k: "keeps out o2" by (rule keeps_trans [OF o1(2) that(1)])
      have "dout_len o2 = length base + length w + ml" using length_dout_slice [OF keeps_ok [OF k]] that(2) by simp
      moreover have "in_reach dict window_size (length w) offset" using \<open>offset \<le> _\<close> \<open>length w \<le> _\<close> by (simp add: in_reach_def d)
      ultimately show ?thesis using k holds_slice [OF keeps_ok [OF k]] that(2) by (simp add: matched_def d)
    qed
    then show ?thesis using run b by (auto simp: o1(3) split: if_splits)
  qed
  have "meets (execute_dictionary_match out pos frame_start window_size dict offset ml)
      (\<lambda>r. matched dict window_size base w offset ml out r)"
    unfolding execute_dictionary_match_def using rest s
    by (auto simp: d pos checked_add_def o1(1) [unfolded pos] split: if_splits)
  then show ?thesis by (rule meets_mono) (use s in simp)
qed

text \<open>The block's fixed part, for a destination that was \<open>out0\<close> when the block began: the literals have their headroom, the
  budget ends at position \<open>P\<close>, a growable destination has the slack behind it, and no offset that is in reach looks
  like the sentinel.\<close>

definition env_ok :: "exec_env \<Rightarrow> decode_out \<Rightarrow> usize \<Rightarrow> bool" where
  "env_ok env out0 P \<longleftrightarrow> literals_len (e_literals env) + 16 \<le> length (padded (e_literals env))
     \<and> e_wildcopy_end env = dout_capacity out0 - 32 \<and> P = dout_len out0 + e_merged_budget env
     \<and> (is_growable out0 \<longrightarrow> P + 32 \<le> dout_capacity out0) \<and> e_frame_start env \<le> dout_len out0
     \<and> dout_ok out0
     \<and> min (P - e_frame_start env) (e_window_size env) < OFFSET_SENTINEL \<and> e_merged_budget env \<le> e_block_bytes env"

definition exec_inv :: "exec_env \<Rightarrow> decode_out \<Rightarrow> usize \<Rightarrow> exec_state \<Rightarrow> bytes \<Rightarrow> bytes \<Rightarrow> bool" where
  "exec_inv env out0 P st w rest \<longleftrightarrow> keeps out0 (x_out st)
     \<and> holds_bytes (x_out st) (x_pos st) (take (e_frame_start env) (dout_slice out0) @ w)
     \<and> x_ip st \<le> literals_len (e_literals env) \<and> rest = drop (x_ip st) (literals_slice (e_literals env))
     \<and> x_pos st + x_budget st = P \<and> x_budget st \<le> e_merged_budget env \<and> reps_ok (x_reps st)"

lemma prefix_matched:
  assumes "0 < offset" and "offset \<le> length w" and "offset \<le> window_size" and "length base + length w + ml \<le> length mem"
    and "take (length base + length w + ml) mem = lz_match (base @ w) offset ml" and "keeps out (put_region out mem)"
  shows "matched dict window_size base w offset ml out (length base + length w + ml, put_region out mem)"
  using assms lz_match_prefix [OF assms(1,2), of base ml]
  by (simp add: matched_def in_reach_def holds_bytes_def lz_extend_prefix dout_capacity_def)

lemma keeps_put: "keeps out0 out \<Longrightarrow> length mem = dout_capacity out \<Longrightarrow> keeps out0 (put_region out mem)"
  by (cases out) (auto simp: keeps_def put_region_def dout_ok_def dout_capacity_def)

lemma keeps_put_put [simp]: "put_region (put_region out mem) mem' = put_region out mem'"
  by (cases out) (simp_all add: put_region_def)

text \<open>The wild copies.\<close>

lemma wild_sequence_meets:
  assumes out: "dout_ok out" and h: "holds_bytes out pos (base @ w)" and b: "length base = frame_start"
    and room: "pos + ll + ml + 32 \<le> dout_capacity out" and lits: "ip + ll + 16 \<le> length lits" and ml: "0 < ml"
    and o: "offset = OFFSET_SENTINEL \<or> 0 < offset"
    and sent: "min (pos + ll - frame_start) window_size < OFFSET_SENTINEL"
  shows "meets (and_then (copy_literals (region (region_of out)) pos lits ip ll) (\<lambda>mem.
       let pos = pos + ll; out = put_region out mem in
       if pos < frame_start then Fault
       else if offset \<le> pos - frame_start \<and> offset \<le> window_size then
         and_then (copy_match_inline mem pos (pos - offset) ml) (\<lambda>mem. Ok (pos + ml, put_region out mem))
       else execute_dictionary_match out pos frame_start window_size dict offset ml))
    (\<lambda>r. offset \<noteq> OFFSET_SENTINEL \<and> matched dict window_size base (w @ take ll (drop ip lits)) offset ml out r)"
proof -
  let ?mem = "region (region_of out)" and ?w = "w @ take ll (drop ip lits)" and ?pos = "pos + ll"
  have pos: "pos = frame_start + length w" using holds_length [OF h] b by simp
  have cap: "length ?mem = dout_capacity out" by (simp add: dout_capacity_def)
  from copy_literals_run [of ip ll lits pos ?mem] lits room cap obtain mem where
    m: "copy_literals ?mem pos lits ip ll = Ok mem" "length mem = dout_capacity out"
    "take ?pos mem = take pos ?mem @ take ll (drop ip lits)" by auto
  let ?out = "put_region out mem"
  have k: "keeps out ?out" by (rule keeps_put [OF keeps_refl [OF out] m(2)])
  have t: "take ?pos mem = base @ ?w" using m(3) h by (simp add: holds_bytes_def)
  have lw: "length ?w = ?pos - frame_start" "frame_start \<le> ?pos" using pos lits by simp_all
  have h1: "holds_bytes ?out ?pos (base @ ?w)" using t room m(2) by (simp add: holds_bytes_def)
  have e: "\<not> ?pos < frame_start" using lw(2) by simp
  show ?thesis
  proof (cases "offset \<le> ?pos - frame_start \<and> offset \<le> window_size")
    case True
    have off: "offset \<noteq> OFFSET_SENTINEL" "0 < offset" using True sent o by auto
    have c: "?pos - offset < ?pos" "?pos - (?pos - offset) = offset" "?pos + ml + WILDCOPY_OVERLENGTH \<le> length mem"
      using conjunct1 [OF True] off(2) lw(2) room m(2) unfolding WILDCOPY_OVERLENGTH_def by linarith+
    from copy_match_reference [OF c(1) ml c(3)] obtain mem' where
      mm: "copy_match_inline mem ?pos (?pos - offset) ml = Ok mem'" "length mem' = length mem"
      "take (?pos + ml) mem' = lz_match (base @ ?w) offset ml" unfolding c(2) t by blast
    have n: "length base + length ?w + ml = ?pos + ml" using lw b by simp
    have "matched dict window_size base ?w offset ml out (length base + length ?w + ml, put_region out mem')"
    proof (rule prefix_matched [OF off(2)])
      show "offset \<le> length ?w" using True lw(1) by simp
      show "offset \<le> window_size" using True by simp
      show "length base + length ?w + ml \<le> length mem'" using n room mm(2) m(2) by simp
      show "take (length base + length ?w + ml) mem' = lz_match (base @ ?w) offset ml" unfolding n by (rule mm(3))
      show "keeps out (put_region out mem')" by (rule keeps_put [OF keeps_refl [OF out]]) (simp add: mm(2) m(2))
    qed
    then show ?thesis unfolding m(1) and_then.simps Let_def if_not_P [OF e] if_P [OF True] mm(1) n
      using off(1) by simp
  next
    case False
    show ?thesis unfolding m(1) and_then.simps Let_def if_not_P [OF e] if_not_P [OF False]
      by (rule meets_mono [OF dictionary_match_meets [OF h1 b o]]) (use keeps_matched [OF k] in blast)
  qed
qed

text \<open>The exact appends.\<close>

lemma exact_sequence_meets:
  assumes h: "holds_bytes out pos (base @ w)" and b: "length base = frame_start" and g: "\<not> is_growable out"
    and lits: "ip + ll \<le> length lits" and o: "offset = OFFSET_SENTINEL \<or> 0 < offset"
    and sent: "min (pos + ll - frame_start) window_size < OFFSET_SENTINEL"
  shows "meets (execute_sequence_exact out pos lits ip ll offset ml frame_start window_size dict)
    (\<lambda>r. offset \<noteq> OFFSET_SENTINEL \<and> matched dict window_size base (w @ take ll (drop ip lits)) offset ml out r)"
proof -
  let ?run = "take ll (drop ip lits)" and ?w = "w @ take ll (drop ip lits)"
  from holds_set_len [OF h] obtain o1 where o1: "dout_set_len out pos = Ok o1" "keeps out o1" "dout_slice o1 = base @ w"
    "dout_len o1 = pos" by blast
  have r: "idx_range lits ip (ip + ll) = Ok ?run" using lits by (simp add: idx_range_def)
  have pos: "pos = frame_start + length w" using holds_length [OF h] b by simp
  show ?thesis
  proof (cases "dout_append o1 ?run")
    case Fault
    then show ?thesis using dout_append_run [OF keeps_ok [OF o1(2)], of ?run] by (auto split: if_splits)
  next
    case (Err e)
    then show ?thesis using g by (simp add: execute_sequence_exact_def o1(1) r)
  next
    case (Ok o2)
    then have o2: "keeps o1 o2" "dout_slice o2 = base @ ?w"
      using dout_append_run [OF keeps_ok [OF o1(2)], of ?run] o1(3) by (auto split: if_splits)
    have k: "keeps out o2" by (rule keeps_trans [OF o1(2) o2(1)])
    have l2: "dout_len o2 = pos + ll" using length_dout_slice [OF keeps_ok [OF k]] o2(2) b pos lits by simp
    have lw: "length ?w = pos + ll - frame_start" "frame_start \<le> pos + ll" using pos lits by simp_all
    have h2: "holds_bytes o2 (pos + ll) (base @ ?w)" using holds_slice [OF keeps_ok [OF k]] by (simp add: o2(2) l2)
    have e: "\<not> pos + ll < frame_start" using lw(2) by simp
    note unf = execute_sequence_exact_def if_not_P [OF g] o1(1) r Ok and_then.simps Let_def l2 if_not_P [OF e]
    show ?thesis
    proof (cases "offset \<le> pos + ll - frame_start \<and> offset \<le> window_size")
      case True
      have off: "offset \<noteq> OFFSET_SENTINEL" "0 < offset" using True sent o by auto
      have c: "frame_start \<le> dout_len o2" "offset \<le> dout_len o2 - frame_start" using True lw l2 by simp_all
      have i: "in_reach dict window_size (length ?w) offset" using True lw(1) by (simp add: in_reach_def)
      have "matched dict window_size base ?w offset ml out (dout_len o3, o3)"
        if "keeps o2 o3" "dout_slice o3 = base @ lz_extend (dict_bytes dict) ?w offset ml" for o3
      proof -
        have k3: "keeps out o3" by (rule keeps_trans [OF k that(1)])
        have "dout_len o3 = length base + length ?w + ml" using length_dout_slice [OF keeps_ok [OF k3]] that(2) by simp
        then show ?thesis using k3 i holds_slice [OF keeps_ok [OF k3]] that(2) by (simp add: matched_def)
      qed
      then have "meets (append_match_from_history o2 (pos + ll - offset) ml) (\<lambda>o3. matched dict window_size base ?w offset ml out (dout_len o3, o3))"
        using prefix_extend [OF keeps_ok [OF k] c(1) off(2) c(2), of ml "dict_bytes dict"] b
        by (auto simp: o2(2) l2 split: if_splits)
      then show ?thesis unfolding unf if_P [OF True] using off(1) by simp
    next
      case False
      show ?thesis unfolding unf if_not_P [OF False]
        by (rule meets_mono [OF dictionary_match_meets [OF h2 b o]]) (use keeps_matched [OF k] in blast)
    qed
  qed
qed

text \<open>One sequence follows the reference: it is accepted, and what it writes is the reference's bytes.\<close>

lemma execute_sequence_meets:
  assumes env: "env_ok env out0 P" and inv: "exec_inv env out0 P st w rest" and c: "command_ok c"
    and ch: "\<not> checked \<Longrightarrow> P \<le> e_wildcopy_end env"
  shows "meets (execute_sequence checked env c st) (\<lambda>st'. \<exists>w' rest'.
    lz_sequences (e_dictionary env) (e_window_size env) w (x_reps st) rest [c] = Some (w', x_reps st', rest')
    \<and> exec_inv env out0 P st' w' rest')"
proof -
  let ?ll = "literal_length c" and ?ml = "match_length c" and ?L = "e_literals env" and ?fs = "e_frame_start env"
    and ?win = "e_window_size env" and ?dict = "e_dictionary env"
  let ?base = "take ?fs (dout_slice out0)" and ?bad = "x_budget st < ?ll + ?ml \<or> literals_len ?L < x_ip st + ?ll"
  have ml: "3 \<le> ?ml" "0 < ?ml" "0 < offset_value c" using c by (auto simp: command_ok_def)
  note e = env [unfolded env_ok_def] and i = inv [unfolded exec_inv_def]
  have k: "keeps out0 (x_out st)" and ok: "dout_ok (x_out st)" and h: "holds_bytes (x_out st) (x_pos st) (?base @ w)"
    using i keeps_ok by auto
  show ?thesis
  proof (cases ?bad)
    case True
    have "\<not> (e_merged_budget env < x_budget st \<or> e_block_bytes env < e_merged_budget env - x_budget st)" using e i by auto
    then show ?thesis using True by (simp add: execute_sequence_def Let_def)
  next
    case good: False
    obtain offset reps where off: "resolve_offset (x_reps st) c = (offset, reps)" by force
    have ro: "resolve_values (x_reps st) ?ll (offset_value c) = Ok (offset, reps) \<and> 0 < offset \<and> reps_ok reps
      \<or> offset = OFFSET_SENTINEL \<and> reps = x_reps st"
      using resolve_offset_reference [OF _ ml(3) off] i by simp
    then have o: "offset = OFFSET_SENTINEL \<or> 0 < offset" by blast
    have pos: "x_pos st + ?ll + ?ml \<le> P" "x_ip st + ?ll \<le> literals_len ?L" using good i by auto
    have lw: "length ?base + length w = x_pos st" using holds_length [OF h] by simp
    have b: "length ?base = ?fs"
      using e length_dout_slice [of out0] by simp
    let ?take = "take ?ll (drop (x_ip st) (padded ?L))"
    have t: "?take = take ?ll rest" using pos(2) i by (simp add: literals_slice_def drop_take min_def)
    let ?wild = "\<not> checked \<or> x_pos st + (?ll + ?ml) \<le> e_wildcopy_end env"
    define act where "act = (if ?wild then
             and_then (copy_literals (region (region_of (x_out st))) (x_pos st) (padded ?L) (x_ip st) ?ll) (\<lambda>mem.
             let pos = x_pos st + ?ll; out = put_region (x_out st) mem in
             if pos < ?fs then Fault
             else if offset \<le> pos - ?fs \<and> offset \<le> ?win then
               and_then (copy_match_inline mem pos (pos - offset) ?ml) (\<lambda>mem. Ok (pos + ?ml, put_region out mem))
             else execute_dictionary_match out pos ?fs ?win ?dict offset ?ml)
           else execute_sequence_exact (x_out st) (x_pos st) (padded ?L) (x_ip st) ?ll offset ?ml ?fs ?win ?dict)"
    have run: "execute_sequence checked env c st = and_then act (\<lambda>(pos, out).
        Ok \<lparr>x_out = out, x_pos = pos, x_reps = reps, x_ip = x_ip st + ?ll, x_budget = x_budget st - (?ll + ?ml)\<rparr>)"
      unfolding execute_sequence_def Let_def if_not_P [OF good] off prod.case act_def ..
    have sent: "min (x_pos st + ?ll - ?fs) ?win < OFFSET_SENTINEL" using e pos(1) by (auto simp: min_less_iff_disj)
    have "meets act (\<lambda>r. offset \<noteq> OFFSET_SENTINEL \<and> matched ?dict ?win ?base (w @ ?take) offset ?ml (x_out st) r)"
    proof (cases ?wild)
      case True
      have "x_pos st + (?ll + ?ml) \<le> dout_capacity out0 - 32" using True ch pos(1) e by auto
      moreover have "dout_capacity out0 \<le> dout_capacity (x_out st)" using k by (simp add: keeps_def)
      ultimately have room: "x_pos st + ?ll + ?ml + 32 \<le> dout_capacity (x_out st)" using ml(1) by linarith
      have lits: "x_ip st + ?ll + 16 \<le> length (padded ?L)" using pos(2) e by linarith
      show ?thesis unfolding act_def if_P [OF True]
        by (rule wild_sequence_meets [OF ok h b room lits ml(2) o sent])
    next
      case False
      have "\<not> is_growable out0" using False e pos(1) by auto
      then have g: "\<not> is_growable (x_out st)" using k by (simp add: keeps_def)
      have lits: "x_ip st + ?ll \<le> length (padded ?L)" using pos(2) e by linarith
      show ?thesis unfolding act_def if_not_P [OF False]
        by (rule exact_sequence_meets [OF h b g lits o sent])
    qed
    then show ?thesis unfolding run meets_and_then
    proof (rule meets_mono)
      fix r assume r: "offset \<noteq> OFFSET_SENTINEL \<and> matched ?dict ?win ?base (w @ ?take) offset ?ml (x_out st) r"
      obtain pos' out' where r': "r = (pos', out')" by force
      let ?w = "lz_extend (dict_bytes ?dict) (w @ take ?ll rest) offset ?ml"
      have m: "in_reach ?dict ?win (length (w @ take ?ll rest)) offset" "keeps (x_out st) out'"
        "pos' = x_pos st + length (take ?ll rest) + ?ml" "holds_bytes out' pos' (?base @ ?w)"
        using r lw b by (auto simp: matched_def r' t)
      have res: "resolve_values (x_reps st) ?ll (offset_value c) = Ok (offset, reps)" "reps_ok reps" using ro r by auto
      have lr: "?ll \<le> length rest" using pos(2) i e by (simp add: literals_slice_def)
      have "lz_sequences ?dict ?win w (x_reps st) rest [c] = Some (?w, reps, drop ?ll rest)"
        using res lr m(1) by simp
      moreover have "x_budget st \<le> e_merged_budget env" using i by blast
      then have bud: "x_budget st - (?ll + ?ml) \<le> e_merged_budget env" by linarith
      have "exec_inv env out0 P \<lparr>x_out = out', x_pos = pos', x_reps = reps, x_ip = x_ip st + ?ll,
          x_budget = x_budget st - (?ll + ?ml)\<rparr> ?w (drop ?ll rest)"
        using m(2-4) res(2) pos i good lr bud keeps_trans [OF k m(2)] by (simp add: exec_inv_def add.commute)
      ultimately show "meets (case r of (pos, out) \<Rightarrow> Ok \<lparr>x_out = out, x_pos = pos, x_reps = reps, x_ip = x_ip st + ?ll,
          x_budget = x_budget st - (?ll + ?ml)\<rparr>) (\<lambda>st'. \<exists>w' rest'.
          lz_sequences ?dict ?win w (x_reps st) rest [c] = Some (w', x_reps st', rest') \<and> exec_inv env out0 P st' w' rest')"
        by (simp add: r')
    qed
  qed
qed

subsection \<open>A block\<close>

lemma lz_step:
  "lz_sequences dict win w reps lits [c] = Some (w1, reps1, lits1) \<Longrightarrow>
   lz_sequences dict win w reps lits (c # cs) = lz_sequences dict win w1 reps1 lits1 cs"
  by (auto simp: Let_def split: result.splits if_splits)

lemma lz_append:
  "lz_sequences dict win w reps lits cs = Some (w1, reps1, lits1) \<Longrightarrow>
   lz_sequences dict win w reps lits (cs @ ds) = lz_sequences dict win w1 reps1 lits1 ds"
proof (induction cs arbitrary: w reps lits)
  case (Cons c cs)
  then show ?case by (auto simp: Let_def split: result.splits if_splits)
qed simp

text \<open>Sequences executed so far, unless the reader has left the stream.\<close>

definition loop_done :: "exec_env \<Rightarrow> decode_out \<Rightarrow> usize \<Rightarrow> sequence_tables \<Rightarrow> bytes \<Rightarrow> nat \<Rightarrow> entries3 \<Rightarrow> nat option \<Rightarrow>
    bytes \<Rightarrow> repeat_offsets \<Rightarrow> bytes \<Rightarrow> dstream \<times> raw_states \<times> exec_state \<Rightarrow> bool" where
  "loop_done env out0 P tables src n es ko w reps rest = (\<lambda>(s', r', st').
     \<exists>es' ko' w' rest'. r' = raws es' \<and> entries_ok tables es' \<and> tracks src ko' 0 s' \<and> exec_inv env out0 P st' w' rest'
       \<and> (\<forall>k'. ko' = Some k' \<longrightarrow> (\<exists>k cs. ko = Some k \<and> ref_sequences tables (le_nat src) n es k = Some (cs, es', k')
            \<and> lz_sequences (e_dictionary env) (e_window_size env) w reps rest cs = Some (w', x_reps st', rest'))))"

lemma sequence_loop_meets:
  assumes t: "exec_tables_ok tables" and env: "env_ok env out0 P" and ch: "\<not> checked \<Longrightarrow> P \<le> e_wildcopy_end env"
  shows "entries_ok tables es \<Longrightarrow> tracks src ko 0 s \<Longrightarrow> exec_inv env out0 P st w rest \<Longrightarrow>
    meets (sequence_loop checked env tables n s (raws es) st) (loop_done env out0 P tables src n es ko w (x_reps st) rest)"
proof (induction n arbitrary: es ko s st w rest)
  case 0
  then show ?case unfolding sequence_loop.simps meets.simps loop_done_def prod.case
    by (intro exI [of _ es] exI [of _ ko] exI [of _ w] exI [of _ rest]) simp
next
  case (Suc n)
  let ?V = "le_nat src"
  show ?case unfolding sequence_loop.simps meets_and_then
  proof (rule meets_mono [OF decode_sequence_follows [OF Suc.prems(1,2)]], goal_cases)
    case (1 a)
    obtain c s1 where a: "a = (c, s1)" by force
    let ?k1 = "Option.bind ko (ref_command ?V es)"
    have c: "command_ok c" "follows src 30 ?k1 c s1" using 1 a by simp_all
    show ?case unfolding a prod.case meets_and_then
    proof (rule meets_mono [OF next_raw_states_follows [OF t Suc.prems(1) follows_tracks [OF c(2)]]], goal_cases)
      case (1 b)
      let ?k2 = "Option.bind (map_option snd ?k1) (ref_states tables ?V es)"
      obtain r s2 where b: "b = (r, s2)" by force
      with 1 obtain es1 where es1: "r = raws es1" "entries_ok tables es1" "follows src 57 ?k2 es1 s2" by auto
      show ?case unfolding b prod.case meets_and_then
      proof (rule meets_mono [OF execute_sequence_meets [OF env Suc.prems(3) c(1) ch]], assumption, goal_cases)
        case (1 st1)
        then obtain w1 rest1 where x: "lz_sequences (e_dictionary env) (e_window_size env) w (x_reps st) rest [c] = Some (w1, x_reps st1, rest1)"
          "exec_inv env out0 P st1 w1 rest1" by blast
        show ?case
        proof (rule meets_mono [OF reload_tracks [OF follows_tracks [OF es1(3)]]], goal_cases)
          case (1 d)
          obtain status s3 where d: "d = (status, s3)" by force
          have s3: "tracks src (map_option snd ?k2) 0 s3" "status = Overflow \<longleftrightarrow> map_option snd ?k2 = None" using 1 d by simp_all
          show ?case
          proof (cases "status = Overflow")
            case True
            then show ?thesis by (simp add: d)
          next
            case False
            then obtain k2 y where k2: "?k2 = Some (y, k2)" using s3(2) by auto
            then have y: "y = es1" using es1(3) by (simp add: follows_def)
            obtain k k1 where k: "ko = Some k" "ref_command ?V es k = Some (c, k1)" "ref_states tables ?V es k1 = Some (es1, k2)"
              using k2 c(2) unfolding y by (cases ko) (auto simp: follows_def split: Option.bind_splits)
            have IH: "meets (sequence_loop checked env tables n s3 (raws es1) st1)
                (loop_done env out0 P tables src n es1 (Some k2) w1 (x_reps st1) rest1)"
              by (rule Suc.IH [OF es1(2) _ x(2)]) (use s3(1) k2 in simp)
            have "loop_done env out0 P tables src (Suc n) es ko w (x_reps st) rest z"
              if z: "loop_done env out0 P tables src n es1 (Some k2) w1 (x_reps st1) rest1 z" for z
            proof -
              obtain s' r' st' where z': "z = (s', r', st')" by (cases z)
              from z obtain es' ko' w' rest' where f: "r' = raws es'" "entries_ok tables es'" "tracks src ko' 0 s'"
                "exec_inv env out0 P st' w' rest'" "\<And>k'. ko' = Some k' \<Longrightarrow> \<exists>cs. ref_sequences tables ?V n es1 k2 = Some (cs, es', k')
                  \<and> lz_sequences (e_dictionary env) (e_window_size env) w1 (x_reps st1) rest1 cs = Some (w', x_reps st', rest')"
                unfolding loop_done_def z' by auto
              have "\<exists>k cs. ko = Some k \<and> ref_sequences tables ?V (Suc n) es k = Some (cs, es', k')
                  \<and> lz_sequences (e_dictionary env) (e_window_size env) w (x_reps st) rest cs = Some (w', x_reps st', rest')"
                if "ko' = Some k'" for k'
              proof -
                from f(5) [OF that] obtain cs where "ref_sequences tables ?V n es1 k2 = Some (cs, es', k')"
                  "lz_sequences (e_dictionary env) (e_window_size env) w1 (x_reps st1) rest1 cs = Some (w', x_reps st', rest')" by blast
                then show ?thesis using k lz_step [OF x(1), of cs] by (intro exI [of _ k] exI [of _ "c # cs"]) simp
              qed
              then show ?thesis using f(1-4) unfolding loop_done_def z' prod.case by blast
            qed
            then show ?thesis using IH False by (auto simp: d es1(1) intro: meets_mono)
          qed
        qed
      qed
    qed
  qed
qed

lemma trailing_literals_meets:
  assumes "dout_ok out" and "cursor \<le> length lits" and "max_output_size limit = None \<longrightarrow> block_left \<le> output_left"
  shows "meets (append_trailing_literals out lits cursor block_left output_left limit) (\<lambda>out'. keeps out out'
    \<and> dout_slice out' = dout_slice out @ drop cursor lits \<and> length lits - cursor \<le> min block_left output_left)"
proof -
  let ?t = "drop cursor lits"
  have g: "get_from lits cursor = Some ?t" using assms(2) by (simp add: get_from_def)
  consider "block_left < length ?t" | "\<not> block_left < length ?t" "output_left < length ?t"
    | "\<not> block_left < length ?t" "\<not> output_left < length ?t" by blast
  then show ?thesis
  proof cases
    case 1
    then show ?thesis by (simp add: append_trailing_literals_def g ensure_decode_output_room_def)
  next
    case 2
    then show ?thesis using assms(3)
      by (auto simp: append_trailing_literals_def g ensure_decode_output_room_def split: option.splits)
  next
    case 3
    then show ?thesis using dout_append_run [OF assms(1), of ?t]
      by (auto simp: append_trailing_literals_def g ensure_decode_output_room_def split: if_splits)
  qed
qed

definition block_done :: "bytes option \<Rightarrow> usize \<Rightarrow> usize \<Rightarrow> sequence_tables \<Rightarrow> parsed_section \<Rightarrow> decode_out \<Rightarrow> repeat_offsets \<Rightarrow> bytes \<Rightarrow>
    usize \<Rightarrow> decode_out \<times> repeat_offsets \<Rightarrow> bool" where
  "block_done dict win frame_start tables p out reps lits budget = (\<lambda>(out', reps').
     keeps out out' \<and> reps_ok reps' \<and> dout_len out' \<le> dout_len out + budget
     \<and> (\<exists>cs w rest. block_commands tables (section_bitstream p) (number_of_sequences p) = Some cs
       \<and> lz_sequences dict win (drop frame_start (dout_slice out)) reps lits cs = Some (w, reps', rest)
       \<and> dout_slice out' = take frame_start (dout_slice out) @ w @ rest))"

lemma length_literals_slice: "literals_len l \<le> length (padded l) \<Longrightarrow> length (literals_slice l) = literals_len l"
  by (simp add: literals_slice_def)

lemma exec_inv_start:
  assumes "env_ok env out P" and "reps_ok reps"
  shows "exec_inv env out P \<lparr>x_out = out, x_pos = dout_len out, x_reps = reps, x_ip = 0, x_budget = e_merged_budget env\<rparr>
    (drop (e_frame_start env) (dout_slice out)) (literals_slice (e_literals env))"
  using assms holds_slice [of out] by (simp add: exec_inv_def env_ok_def keeps_refl)

lemma execute_block_meets:
  assumes t: "exec_tables_ok tables" and env: "env_ok env out P" and ch: "\<not> checked \<Longrightarrow> P \<le> e_wildcopy_end env"
    and r: "reps_ok reps" and n: "0 < number_of_sequences p" and m: "e_merged_budget env = min (e_block_bytes env) output_bytes"
    and nolimit: "max_output_size (e_limit env) = None \<longrightarrow> e_block_bytes env \<le> output_bytes"
  shows "meets (execute_block_sequences checked env tables p out reps output_bytes)
    (block_done (e_dictionary env) (e_window_size env) (e_frame_start env) tables p out reps (literals_slice (e_literals env))
      (e_merged_budget env))"
  unfolding execute_block_sequences_def meets_and_then
proof (rule meets_mono [OF open_states_follows [OF t]], goal_cases)
  case (1 a)
  let ?src = "section_bitstream p" and ?n = "number_of_sequences p" and ?dict = "e_dictionary env" and ?win = "e_window_size env"
  let ?V = "le_nat ?src" and ?fs = "e_frame_start env" and ?lits = "literals_slice (e_literals env)"
  let ?ref = "ref_open tables ?V (log2 ?V)"
  let ?st0 = "\<lparr>x_out = out, x_pos = dout_len out, x_reps = reps, x_ip = 0, x_budget = e_merged_budget env\<rparr>"
  obtain r0 s0 where a: "a = (r0, s0)" by force
  with 1 obtain es where es: "?src \<noteq> []" "last ?src \<noteq> 0" "r0 = raws es" "entries_ok tables es" "follows ?src 0 ?ref es s0" by auto
  note inv0 = exec_inv_start [OF env r]
  show ?case unfolding a prod.case es(3) meets_and_then
  proof (rule meets_mono [OF sequence_loop_meets [OF t env ch es(4) follows_tracks [OF es(5)] inv0]], assumption, goal_cases)
    case (1 b)
    obtain s1 r1 st1 where b: "b = (s1, r1, st1)" by (cases b)
    from 1(2) obtain es1 ko1 w1 rest1 where l: "r1 = raws es1" "entries_ok tables es1" "tracks ?src ko1 0 s1" "exec_inv env out P st1 w1 rest1"
      "\<And>k'. ko1 = Some k' \<Longrightarrow> \<exists>k cs. map_option snd ?ref = Some k \<and> ref_sequences tables ?V (?n - 1) es k = Some (cs, es1, k')
        \<and> lz_sequences ?dict ?win (drop ?fs (dout_slice out)) reps ?lits cs = Some (w1, x_reps st1, rest1)"
      unfolding loop_done_def b by auto
    show ?case unfolding b prod.case l(1) meets_and_then decode_and_execute_last_sequence_def
    proof (rule meets_mono [OF decode_sequence_follows [OF l(2,3)]], goal_cases)
      case (1 d)
      let ?k2 = "Option.bind ko1 (ref_command ?V es1)"
      obtain c s2 where d: "d = (c, s2)" by force
      have c: "command_ok c" "follows ?src 30 ?k2 c s2" using 1 d by simp_all
      show ?case unfolding d prod.case meets_and_then
      proof (rule meets_mono [OF execute_sequence_meets [OF env l(4) c(1)]], goal_cases)
        case (2 st2)
        then obtain w2 rest2 where x: "lz_sequences ?dict ?win w1 (x_reps st1) rest1 [c] = Some (w2, x_reps st2, rest2)"
          "exec_inv env out P st2 w2 rest2" by blast
        note i = x(2) [unfolded exec_inv_def] and e = env [unfolded env_ok_def]
        have h: "holds_bytes (x_out st2) (x_pos st2) (take ?fs (dout_slice out) @ w2)" using i by blast
        from holds_set_len [OF h] obtain o3 where o3: "dout_set_len (x_out st2) (x_pos st2) = Ok o3" "keeps (x_out st2) o3"
          "dout_slice o3 = take ?fs (dout_slice out) @ w2" "dout_len o3 = x_pos st2" by blast
        have k3: "keeps out o3" using keeps_trans [OF _ o3(2)] i by blast
        show ?case unfolding meets.simps prod.case o3(1) and_then.simps meets_and_then
        proof (rule meets_mono [OF reload_tracks [OF follows_tracks [OF c(2)]]], goal_cases)
          case (1 f)
          obtain status s4 where f: "f = (status, s4)" by force
          have s4: "tracks ?src (map_option snd ?k2) 0 s4" using 1 f by simp
          show ?case
          proof (cases "status = Overflow \<or> \<not> end_of_stream s4")
            case True
            then show ?thesis by (simp add: f)
          next
            case False
            then have "map_option snd ?k2 = Some 0" using tracks_end [OF s4] by blast
            then obtain k1 where k1: "ko1 = Some k1" "ref_command ?V es1 k1 = Some (c, 0)"
              using c(2) by (cases ko1) (auto simp: follows_def split: option.splits)
            from l(5) [OF k1(1)] obtain k0 cs where k0: "map_option snd ?ref = Some k0"
              "ref_sequences tables ?V (?n - 1) es k0 = Some (cs, es1, k1)"
              "lz_sequences ?dict ?win (drop ?fs (dout_slice out)) reps ?lits cs = Some (w1, x_reps st1, rest1)" by blast
            have "?ref = Some (es, k0)" using k0(1) es(5) by (auto simp: follows_def)
            then have cs: "block_commands tables ?src ?n = Some (cs @ [c])"
              using es(1,2) n k0(2) k1(2) by (simp add: block_commands_def)
            have lz: "lz_sequences ?dict ?win (drop ?fs (dout_slice out)) reps ?lits (cs @ [c]) = Some (w2, x_reps st2, rest2)"
              unfolding lz_append [OF k0(3)] by (rule x(1))
            let ?used = "e_merged_budget env - x_budget st2"
            have len: "length ?lits = literals_len (e_literals env)" using e by (intro length_literals_slice) simp
            have ip: "x_ip st2 \<le> length ?lits" using i unfolding len by blast
            have bud: "x_budget st2 \<le> e_merged_budget env" "x_pos st2 + x_budget st2 = dout_len out + e_merged_budget env" using i e by auto
            have nl: "max_output_size (e_limit env) = None \<longrightarrow> e_block_bytes env - ?used \<le> output_bytes - ?used" using nolimit by auto
            have "meets (append_trailing_literals o3 ?lits (x_ip st2) (e_block_bytes env - ?used) (output_bytes - ?used) (e_limit env))
              (\<lambda>out'. block_done ?dict ?win ?fs tables p out reps ?lits (e_merged_budget env) (out', x_reps st2))"
            proof (rule meets_mono [OF trailing_literals_meets [OF keeps_ok [OF k3] ip nl]])
              fix o4 assume o4: "keeps o3 o4 \<and> dout_slice o4 = dout_slice o3 @ drop (x_ip st2) ?lits
                \<and> length ?lits - x_ip st2 \<le> min (e_block_bytes env - ?used) (output_bytes - ?used)"
              have k4: "keeps out o4" using keeps_trans [OF k3] o4 by blast
              have "dout_len o4 = x_pos st2 + (length ?lits - x_ip st2)"
                using length_dout_slice [OF keeps_ok [OF k4]] length_dout_slice [OF keeps_ok [OF k3]] o4 o3(4) by simp
              moreover have "length ?lits - x_ip st2 \<le> e_merged_budget env - ?used" using o4 m by (auto simp: min_def split: if_splits)
              ultimately have "dout_len o4 \<le> dout_len out + e_merged_budget env" using bud by linarith
              moreover have "dout_slice o4 = take ?fs (dout_slice out) @ w2 @ rest2" using o4 o3(3) i by simp
              moreover have "reps_ok (x_reps st2)" using i by blast
              ultimately show "block_done ?dict ?win ?fs tables p out reps ?lits (e_merged_budget env) (o4, x_reps st2)"
                using k4 cs lz unfolding block_done_def prod.case by blast
            qed
            then show ?thesis using False by (simp add: f Let_def)
          qed
        qed
      qed simp
    qed
  qed
qed

subsection \<open>Properties\<close>

lemma limit_left_None: "max_output_size limit = None \<Longrightarrow> limit_left limit n = usize_max"
  by (simp add: limit_left_def)

definition exec_result_ok :: "bytes option \<Rightarrow> usize \<Rightarrow> usize \<Rightarrow> parsed_section \<Rightarrow> decode_out \<Rightarrow> repeat_offsets \<Rightarrow> bytes \<Rightarrow>
    usize \<Rightarrow> sequence_tables \<times> decode_out \<times> repeat_offsets \<Rightarrow> bool" where
  "exec_result_ok dict win frame_start p out reps lits budget = (\<lambda>(tables', out', reps').
     tables_ok tables' \<and> reps_ok reps' \<and> keeps out out' \<and> dout_len out' \<le> dout_len out + budget
     \<and> (\<exists>cs w rest. (if number_of_sequences p = 0 then cs = []
           else block_commands tables' (section_bitstream p) (number_of_sequences p) = Some cs)
       \<and> lz_sequences dict win (drop frame_start (dout_slice out)) reps lits cs = Some (w, reps', rest)
       \<and> dout_slice out' = take frame_start (dout_slice out) @ w @ rest))"

lemma unified_meets:
  assumes t: "tables_ok tables" and out: "dout_ok out" and fs: "frame_start \<le> dout_len out" and r: "reps_ok reps"
    and lits: "literals_len lits + 16 \<le> length (padded lits)" and room: "dout_len out + block_size_max + 32 \<le> isize_max"
    and sent: "min (dout_len out + block_size_max - frame_start) window_size < OFFSET_SENTINEL"
    and n: "number_of_sequences p \<noteq> 0"
  shows "meets (decode_and_execute_sequences_unified p tables out frame_start window_size block_size_max dict lits reps limit)
    (exec_result_ok dict window_size frame_start p out reps (literals_slice lits) (min block_size_max (limit_left limit (dout_len out))))"
  unfolding decode_and_execute_sequences_unified_def if_not_P [OF n] meets_and_then
proof (rule meets_mono [OF decode_setup_meets [OF t out]], goal_cases)
  case 1
  then show ?case using room by (simp add: WILDCOPY_OVERLENGTH_def)
next
  case (2 x)
  obtain tables' out1 block_bytes output_bytes where x: "x = (tables', out1, block_bytes, output_bytes)" by (cases x)
  from 2 have s: "tables_ok tables'" "exec_tables_ok tables'" "keeps out out1" "dout_slice out1 = dout_slice out" "dout_len out1 = dout_len out"
    "block_bytes = block_size_max" "output_bytes = limit_left limit (dout_len out)"
    "is_growable out \<longrightarrow> dout_len out + min (limit_left limit (dout_len out)) block_size_max + WILDCOPY_OVERLENGTH \<le> dout_capacity out1"
    by (auto simp: x setup_ok_def exec_tables_ok_def)
  let ?m = "min block_bytes output_bytes" and ?w = "dout_capacity out1 - WILDCOPY_OVERLENGTH"
  let ?env = "\<lparr>e_frame_start = frame_start, e_window_size = window_size, e_dictionary = dict, e_literals = lits, e_limit = limit,
    e_wildcopy_end = ?w, e_block_bytes = block_bytes, e_merged_budget = ?m\<rparr>"
  have "is_growable out1 = is_growable out" using s(3) by (simp add: keeps_def)
  moreover have "min (dout_len out + ?m - frame_start) window_size \<le> min (dout_len out + block_size_max - frame_start) window_size"
    using s(6) by auto
  ultimately have env: "env_ok ?env out1 (dout_len out + ?m)"
    using lits s fs sent keeps_ok [OF s(3)] by (auto simp: env_ok_def WILDCOPY_OVERLENGTH_def min.commute)
  have nl: "max_output_size limit = None \<longrightarrow> block_bytes \<le> output_bytes"
    using room s(6,7) by (auto simp: limit_left_None isize_max_def usize_max_def)
  have u: "\<not> usize_max < dout_len out1 + ?m" using room s(5,6) by (auto simp: isize_max_def usize_max_def)
  have b: "meets (execute_block_sequences (?w < dout_len out1 + ?m) ?env tables' p out1 reps output_bytes)
      (block_done dict window_size frame_start tables' p out1 reps (literals_slice lits) ?m)"
    using execute_block_meets [OF s(2) env _ r, of "?w < dout_len out1 + ?m" p output_bytes] n nl s(5) by auto
  have "exec_result_ok dict window_size frame_start p out reps (literals_slice lits) (min block_size_max (limit_left limit (dout_len out)))
      (tables', o2, reps')"
    if "block_done dict window_size frame_start tables' p out1 reps (literals_slice lits) ?m (o2, reps')" for o2 reps'
    using that n s keeps_trans [OF s(3)] by (auto simp: block_done_def exec_result_ok_def)
  then show ?case using b u by (auto simp: x Let_def intro: meets_mono)
qed

lemma decode_and_execute_meets:
  assumes t: "tables_ok tables" and out: "dout_ok out" and fs: "frame_start \<le> dout_len out" and r: "reps_ok reps"
    and lits: "literals_len lits + 16 \<le> length (padded lits)" and room: "dout_len out + block_size_max + 32 \<le> isize_max"
    and sent: "min (dout_len out + block_size_max - frame_start) window_size < OFFSET_SENTINEL"
  shows "meets (decode_and_execute_sequences p tables out frame_start window_size block_size_max dict lits reps limit)
    (exec_result_ok dict window_size frame_start p out reps (literals_slice lits) (min block_size_max (limit_left limit (dout_len out))))"
proof (cases "number_of_sequences p = 0")
  case False
  then show ?thesis using unified_meets [OF assms False] by (simp add: decode_and_execute_sequences_def)
next
  case True
  have nl: "max_output_size limit = None \<longrightarrow> block_size_max \<le> limit_left limit (dout_len out)"
    using room by (auto simp: limit_left_None isize_max_def usize_max_def)
  have "exec_result_ok dict window_size frame_start p out reps (literals_slice lits) (min block_size_max (limit_left limit (dout_len out)))
      (tables, out', reps)"
    if "keeps out out' \<and> dout_slice out' = dout_slice out @ drop 0 (literals_slice lits)
      \<and> length (literals_slice lits) - 0 \<le> min block_size_max (limit_left limit (dout_len out))" for out'
  proof -
    have "dout_len out' = dout_len out + length (literals_slice lits)"
      using that length_dout_slice [OF out] length_dout_slice [OF keeps_ok, of out out'] by simp
    then show ?thesis using that t r True by (simp add: exec_result_ok_def)
  qed
  then have "meets (append_trailing_literals out (literals_slice lits) 0 block_size_max (limit_left limit (dout_len out)) limit)
      (\<lambda>out'. exec_result_ok dict window_size frame_start p out reps (literals_slice lits) (min block_size_max (limit_left limit (dout_len out)))
        (tables, out', reps))"
    by (intro meets_mono [OF trailing_literals_meets [OF out _ nl]]) auto
  then show ?thesis using limit_remaining_meets [of limit "dout_len out"] True
    by (cases "limit_remaining limit (dout_len out)") (simp_all add: decode_and_execute_sequences_def)
qed

text \<open>C40. The fused sequence decoder is the format's account of a block. On any bitstream, with well-formed tables, literals with their
  headroom and any destination, it does not fault: no wild copy leaves the destination, no state leaves its
  table, and the debug assertion that a growable destination never runs out of slack holds. When it succeeds, the
  bitstream spells a list of sequences and is used up exactly, and the bytes written are those of the literals,
  dictionary and history matches of that list, one byte at a time, followed by the literals that are left; block limit and
  output cap are kept.\<close>

theorem decode_and_execute_reference:
  assumes "tables_ok tables" and "dout_ok out" and "frame_start \<le> dout_len out" and "reps_ok reps"
    and "literals_len lits + 16 \<le> length (padded lits)" and "dout_len out + block_size_max + 32 \<le> isize_max"
    and "min (dout_len out + block_size_max - frame_start) window_size < 4294967295"
  shows "decode_and_execute_sequences p tables out frame_start window_size block_size_max dict lits reps limit \<noteq> Fault
    \<and> (\<forall>tables' out' reps'.
        decode_and_execute_sequences p tables out frame_start window_size block_size_max dict lits reps limit
          = Ok (tables', out', reps') \<longrightarrow>
        tables_ok tables' \<and> reps_ok reps' \<and> dout_ok out'
        \<and> dout_len out' \<le> dout_len out + min block_size_max (limit_left limit (dout_len out))
        \<and> (\<exists>cs w rest. (if number_of_sequences p = 0 then cs = []
              else block_commands tables' (section_bitstream p) (number_of_sequences p) = Some cs)
          \<and> lz_sequences dict window_size (drop frame_start (dout_slice out)) reps (literals_slice lits) cs = Some (w, reps', rest)
          \<and> dout_slice out' = take frame_start (dout_slice out) @ w @ rest))"
proof -
  have "min (dout_len out + block_size_max - frame_start) window_size < OFFSET_SENTINEL"
    using assms(7) by (simp add: OFFSET_SENTINEL_def)
  from decode_and_execute_meets [OF assms(1-6) this, of p dict limit] show ?thesis
    unfolding meets_iff exec_result_ok_def by (auto dest: keeps_ok)
qed

subsection \<open>A block with one sequence\<close>

text \<open>Three tables with a single state: one literal, a match of three bytes at distance one, and a literal that is left.\<close>

definition sample_tables :: sequence_tables where
  "sample_tables = sequence_tables_default
     \<lparr>seq_ll := \<lparr>st_table_log = 0, st_entries = replicate 512 (part_entry LiteralLength 1 0 0)\<rparr>, has_ll := True, ll_dirty := False,
      seq_of := \<lparr>st_table_log = 0, st_entries = replicate 512 (part_entry Offset 0 0 0)\<rparr>, has_of := True, of_dirty := False,
      seq_ml := \<lparr>st_table_log = 0, st_entries = replicate 512 (part_entry MatchLength 0 0 0)\<rparr>, has_ml := True, ml_dirty := False\<rparr>"

definition sample_section :: parsed_section where
  "sample_section = \<lparr>number_of_sequences = 1, section_header_size = 5, section_modes = None, section_bitstream = [1]\<rparr>"

definition sample_literals :: decoded_literals where
  "sample_literals = \<lparr>padded = [97, 98, 0, 0, 0, 0, 0, 0, 0, 0, 0, 0, 0, 0, 0, 0, 0, 0], literals_len = 2\<rparr>"

lemma single_part_ok:
  assumes "symb \<le> max_symbol_value part"
  shows "part_table_ok part \<lparr>st_table_log = 0, st_entries = replicate 512 (part_entry part symb 0 0)\<rparr>"
proof -
  let ?dt = "\<lparr>dt_table_log = 0, dt_fast_mode = False, dt_entries = replicate 512 \<lparr>de_new_state = 0, de_symbol = symb, de_nb_bits = 0\<rparr>\<rparr>"
  have "symb < 256" using assms by (cases part) simp_all
  then have "part_dtable_ok part ?dt" using assms by (simp add: part_dtable_ok_def dtable_ok_def TABLESIZE_MAX_def)
  moreover have "converted part ?dt \<lparr>st_table_log = 0, st_entries = replicate 512 (part_entry part symb 0 0)\<rparr>"
    by (simp add: converted_def TABLESIZE_MAX_def)
  ultimately show ?thesis by (rule part_table_okI)
qed

lemma sample_tables_ok: "tables_ok sample_tables"
  using single_part_ok [of 1 LiteralLength] single_part_ok [of 0 Offset] single_part_ok [of 0 MatchLength]
  by (simp add: tables_ok_def sample_tables_def sequence_tables_default_def TABLESIZE_MAX_def del: part_entry.simps)

lemma sample_setup: "decode_setup sample_tables (decode_growable []) 10 (whole_output None) = Ok (sample_tables,
   GrowableOut \<lparr>region = replicate 42 0, written = 0\<rparr>, 10, usize_max)"
  by (simp add: decode_setup_def setup_table_def sample_tables_def sequence_tables_default_def reserve_block_output_def
     limit_remaining_def whole_output_def decode_growable_def dout_len_def usize_max_def isize_max_def WILDCOPY_OVERLENGTH_def
     vec_reserve_def del: part_entry.simps)

lemma log2_one: "log2 (Suc 0) = 0" by (simp add: log2.simps)

definition sample_entries :: entries3 where
  "sample_entries = (part_entry LiteralLength 1 0 0, part_entry Offset 0 0 0, part_entry MatchLength 0 0 0)"

lemma sample_open: "open_states sample_tables [1] = Ok (raws sample_entries,
  \<lparr>bit_container = 1, bits_consumed = 64, ptr_pos = 0, stream_src = [1]\<rparr>)"
proof -
  let ?s = "\<lparr>bit_container = 1, bits_consumed = 64, ptr_pos = 0, stream_src = [1]\<rparr>"
  have n: "dstream_new [1] = Ok ?s" by (simp add: dstream_new_def idx_def highbit32_def log2_one CONTAINER_BYTES_def)
  have i: "init_dstate_seq t ?s = Ok (0, ?s)" if "st_table_log t = 0" for t
    using that by (simp add: init_dstate_seq_def read_bits_def reload_def reload_at_start_def CONTAINER_BITS_def CONTAINER_BYTES_def)
  have r: "raw_entries sample_tables 0 0 0 = Ok (raws sample_entries)"
    by (simp add: sample_tables_def raw_entries_def get_entry_raw_def get_entry_unchecked_def TABLESIZE_MAX_def raws_def raw_of_def idx_def sample_entries_def
      del: part_entry.simps)
  show ?thesis unfolding open_states_def n and_then.simps using i r by (simp add: sample_tables_def)
qed

lemma sample_decode: "decode_sequence \<lparr>bit_container = 1, bits_consumed = 64, ptr_pos = 0, stream_src = [1]\<rparr>
   (raws sample_entries)
   = Ok (\<lparr>literal_length = 1, match_length = 3, offset_value = 1\<rparr>, \<lparr>bit_container = 1, bits_consumed = 64, ptr_pos = 0, stream_src = [1]\<rparr>)"
proof -
  have e: "entry_ok LiteralLength 0 (part_entry LiteralLength 1 0 0)" "entry_ok Offset 0 (part_entry Offset 0 0 0)" "entry_ok MatchLength 0 (part_entry MatchLength 0 0 0)"
    by (simp_all add: entry_ok_def mk_seq_entry_def mk_offset_entry_def or_zero_def LITERAL_LENGTH_EXTRA_BITS_def LITERAL_LENGTH_BASELINES_def MATCH_LENGTH_EXTRA_BITS_def MATCH_LENGTH_BASELINES_def)
  note r = e [THEN raw_fields(3)] e [THEN raw_fields(4)]
  show ?thesis unfolding decode_sequence_def sample_entries_def raws_def prod.case raw_states.simps r
    by (simp add: mk_seq_entry_def mk_offset_entry_def or_zero_def LITERAL_LENGTH_EXTRA_BITS_def LITERAL_LENGTH_BASELINES_def MATCH_LENGTH_EXTRA_BITS_def MATCH_LENGTH_BASELINES_def
     read_extra_def reload_when_def add_u32_def)
qed

lemma sample_execute:
  "\<exists>out. execute_sequence True \<lparr>e_frame_start = 0, e_window_size = 1000, e_dictionary = None, e_literals = sample_literals,
      e_limit = whole_output None, e_wildcopy_end = 10, e_block_bytes = 10, e_merged_budget = 10\<rparr>
      \<lparr>literal_length = 1, match_length = 3, offset_value = 1\<rparr>
      \<lparr>x_out = GrowableOut \<lparr>region = replicate 42 0, written = 0\<rparr>, x_pos = 0, x_reps = repeat_offsets_default, x_ip = 0, x_budget = 10\<rparr>
    = Ok \<lparr>x_out = GrowableOut out, x_pos = 4, x_reps = repeat_offsets_default, x_ip = 1, x_budget = 6\<rparr> \<and> length (region out) = 42"
proof -
  let ?mem = "replicate 42 0 :: bytes"
  have "0 + 1 + 16 \<le> length (padded sample_literals)" "0 + 1 + 16 \<le> length ?mem" by (simp_all add: sample_literals_def)
  from copy_literals_run [OF this] obtain m where m: "copy_literals ?mem 0 (padded sample_literals) 0 1 = Ok m" "length m = 42" by auto
  have "0 < (1 :: nat)" "0 < (3 :: nat)" "1 + 3 + WILDCOPY_OVERLENGTH \<le> length m" using m(2) by (simp_all add: WILDCOPY_OVERLENGTH_def)
  from copy_match_reference [OF this] obtain m' where m': "copy_match_inline m 1 0 3 = Ok m'" "length m' = 42" using m(2) by auto
  show ?thesis using m m' by (simp add: execute_sequence_def sample_literals_def resolve_offset_def repeat_offsets_default_def Let_def
      put_region_def)
qed

lemma sample_succeeds:
  "\<exists>out. decode_and_execute_sequences sample_section sample_tables (decode_growable []) 0 1000 10 None sample_literals
    repeat_offsets_default (whole_output None) = Ok (sample_tables, out, repeat_offsets_default)"
proof -
  let ?s = "\<lparr>bit_container = 1, bits_consumed = 64, ptr_pos = 0, stream_src = [1]\<rparr>"
  obtain o1 where o1: "execute_sequence True \<lparr>e_frame_start = 0, e_window_size = 1000, e_dictionary = None, e_literals = sample_literals,
      e_limit = whole_output None, e_wildcopy_end = 10, e_block_bytes = 10, e_merged_budget = 10\<rparr>
      \<lparr>literal_length = 1, match_length = 3, offset_value = 1\<rparr>
      \<lparr>x_out = GrowableOut \<lparr>region = replicate 42 0, written = 0\<rparr>, x_pos = 0, x_reps = repeat_offsets_default, x_ip = 0, x_budget = 10\<rparr>
    = Ok \<lparr>x_out = GrowableOut o1, x_pos = 4, x_reps = repeat_offsets_default, x_ip = 1, x_budget = 6\<rparr>" "length (region o1) = 42"
    using sample_execute by blast
  have e: "reload ?s = Ok (Completed, ?s)" "end_of_stream ?s"
    by (simp_all add: reload_def reload_at_start_def end_of_stream_def CONTAINER_BITS_def CONTAINER_BYTES_def)
  have "\<exists>out. append_trailing_literals (GrowableOut (o1\<lparr>written := 4\<rparr>)) (literals_slice sample_literals) 1 6 (usize_max - 4)
      (whole_output None) = Ok out"
    using o1(2) by (simp add: append_trailing_literals_def literals_slice_def sample_literals_def get_from_def ensure_decode_output_room_def
      usize_max_def dout_append_def Let_def dout_len_def copy_into_def dout_set_len_def dout_capacity_def)
  then show ?thesis
    using o1 by (simp add: decode_and_execute_sequences_def decode_and_execute_sequences_unified_def sample_section_def sample_setup
      dout_capacity_def WILDCOPY_OVERLENGTH_def dout_len_def usize_max_def Let_def execute_block_sequences_def sample_open
      decode_and_execute_last_sequence_def sample_decode dout_set_len_def e)
qed

lemma sample_commands:
  "block_commands sample_tables [1] 1 = Some [\<lparr>literal_length = 1, match_length = 3, offset_value = 1\<rparr>]"
  by (simp add: block_commands_def ref_open_def ref_command_def take_field_def sample_tables_def log2_one mk_seq_entry_def mk_offset_entry_def
    or_zero_def LITERAL_LENGTH_EXTRA_BITS_def LITERAL_LENGTH_BASELINES_def MATCH_LENGTH_EXTRA_BITS_def MATCH_LENGTH_BASELINES_def)

theorem decode_and_execute_reference_witness:
  "\<exists>out. decode_and_execute_sequences sample_section sample_tables (decode_growable []) 0 1000 10 None sample_literals
      repeat_offsets_default (whole_output None) = Ok (sample_tables, out, repeat_offsets_default)
    \<and> dout_slice out = [97, 97, 97, 97, 98]"
proof -
  obtain out where out: "decode_and_execute_sequences sample_section sample_tables (decode_growable []) 0 1000 10 None sample_literals
    repeat_offsets_default (whole_output None) = Ok (sample_tables, out, repeat_offsets_default)" using sample_succeeds by blast
  have l: "literals_slice sample_literals = [97, 98]" by (simp add: literals_slice_def sample_literals_def)
  have p: "dout_ok (decode_growable [])" "0 \<le> dout_len (decode_growable [])" "reps_ok repeat_offsets_default"
    "literals_len sample_literals + 16 \<le> length (padded sample_literals)" "dout_len (decode_growable []) + 10 + 32 \<le> isize_max"
    "min (dout_len (decode_growable []) + 10 - 0) 1000 < (4294967295 :: nat)"
    by (simp_all add: dout_ok_def reps_ok_def repeat_offsets_default_def sample_literals_def decode_growable_def dout_len_def isize_max_def)
  have s: "dout_slice (decode_growable []) = []" by (simp add: decode_growable_def dout_slice_def)
  from decode_and_execute_reference [OF sample_tables_ok p, of sample_section None "whole_output None"] out obtain cs w rest where
    "block_commands sample_tables [1] 1 = Some cs" "lz_sequences None 1000 [] repeat_offsets_default [97, 98] cs = Some (w, repeat_offsets_default, rest)"
    "dout_slice out = w @ rest"
    by (auto simp: sample_section_def s l)
  moreover have m: "lz_extend [] [97] 1 3 = [97, 97, 97, 97 :: u8]" by (simp add: lz_extend_def eval_nat_numeral)
  have "resolve_values repeat_offsets_default 1 1 = Ok (1, repeat_offsets_default)"
    by (simp add: resolve_values_def repeat_offsets_default_def rotate_offsets_def)
  then have "lz_sequences None 1000 [] repeat_offsets_default [97, 98] [\<lparr>literal_length = 1, match_length = 3, offset_value = 1\<rparr>]
      = Some ([97, 97, 97, 97], repeat_offsets_default, [98])" using m by (simp add: in_reach_def)
  moreover have "cs = [\<lparr>literal_length = 1, match_length = 3, offset_value = 1\<rparr>]" using calculation(1) unfolding sample_commands by simp
  ultimately have "dout_slice out = [97, 97, 97, 97, 98]" by (simp del: lz_sequences.simps)
  with out show ?thesis by blast
qed

end
