(* ===== verification/Dictionary.thy ===== *)
theory Dictionary
  imports SeqExec
begin

section \<open>Dictionaries for decoding (dictionary.rs)\<close>

text \<open>
  \<open>Dictionary\<close> of \<open>src/src/dictionary.rs\<close> as \<open>DecoderDictionary\<close> uses it: the parser in the decoding
  direction and the accessors of the decoder. A slice without the magic number is raw content and carries no
  tables; a formatted dictionary carries a Huffman table, three FSE tables, three repeat offsets and its content.
  The owned source bytes and the borrowed ones are the same list here. The encoding direction needs the tables of
  the Huffman encoder and is left out. A formatted dictionary without decoding tables is what the source panics on.
\<close>

definition ZSTD_DICTIONARY_MAGIC :: u32 where "ZSTD_DICTIONARY_MAGIC = 0xEC30A437"

record decoder_tables =
  dict_huffman_table :: "huffman_dtable option"
  dict_offset_table :: dtable
  dict_match_length_table :: dtable
  dict_literal_length_table :: dtable

record dictionary =
  dict_id :: u32
  dict_source_size :: usize
  dict_source :: bytes
  content_start :: usize
  raw_content :: bool
  dict_decoder_tables :: "decoder_tables option"
  dict_repeat_offsets :: repeat_offsets

record parsed_counts =
  pc_normalized :: "int list"
  pc_max_symbol_value :: nat
  pc_table_log :: nat

subsection \<open>Parsing\<close>

definition raw_dictionary :: "bytes \<Rightarrow> dictionary" where
  "raw_dictionary src =
     \<lparr>dict_id = 0, dict_source_size = length src, dict_source = src, content_start = 0, raw_content = True,
      dict_decoder_tables = None, dict_repeat_offsets = repeat_offsets_default\<rparr>"

definition read_sequence_counts :: "bytes \<Rightarrow> nat \<Rightarrow> nat \<Rightarrow> (parsed_counts \<times> usize) result" where
  "read_sequence_counts src max_symbol max_table_log =
     and_then (read_ncount (replicate (SYMBOLVALUE_MAX + 1) 0) max_symbol src max_table_log)
       (\<lambda>(normalized, msv, table_log, consumed).
       Ok (\<lparr>pc_normalized = normalized, pc_max_symbol_value = msv, pc_table_log = table_log\<rparr>, consumed))"

definition counts_dtable :: "parsed_counts \<Rightarrow> dtable result" where
  "counts_dtable pc = build_dtable dtable_default (pc_normalized pc) (pc_max_symbol_value pc) (pc_table_log pc)"

text \<open>The three repeat offsets behind the tables; each must point into the content.\<close>

definition read_repeat_offsets :: "bytes \<Rightarrow> usize \<Rightarrow> (repeat_offsets \<times> bytes) result" where
  "read_repeat_offsets src cursor =
     and_then (ok_or (checked_add cursor 12) OutputSizeOverflow) (\<lambda>reps_end.
     if length src < reps_end then Err (Corruption ''dictionary is truncated'') else
     and_then (idx_from src reps_end) (\<lambda>content.
     and_then (idx_range src cursor (cursor + 4)) (\<lambda>b1. and_then (read_u32_le b1) (\<lambda>r1.
     and_then (idx_range src (cursor + 4) (cursor + 8)) (\<lambda>b2. and_then (read_u32_le b2) (\<lambda>r2.
     and_then (idx_range src (cursor + 8) reps_end) (\<lambda>b3. and_then (read_u32_le b3) (\<lambda>r3.
     if \<exists>r \<in> set [r1, r2, r3]. r = 0 \<or> length content < unat r
     then Err (Corruption ''dictionary repeat offset exceeds dictionary content'')
     else Ok (\<lparr>rep1 = unat r1, rep2 = unat r2, rep3 = unat r3\<rparr>, content)))))))))"

text \<open>\<open>Dictionary::parse(src, TableDirection::Decoding)\<close>\<close>

definition parse_decoder_dictionary :: "bytes \<Rightarrow> dictionary result" where
  "parse_decoder_dictionary src =
     (if length src < 8 then Ok (raw_dictionary src) else
      and_then (read_u32_le src) (\<lambda>magic.
      if magic \<noteq> ZSTD_DICTIONARY_MAGIC then Ok (raw_dictionary src) else
      and_then (idx_range src 4 8) (\<lambda>id_bytes. and_then (read_u32_le id_bytes) (\<lambda>dictionary_id.
      let cursor = 8 in
      and_then (idx_from src cursor) (\<lambda>rest. and_then (read_dtable_x2 rest (double_slot None)) (\<lambda>(huffman, huffman_size).
      let cursor = cursor + huffman_size in
      and_then (idx_from src cursor) (\<lambda>rest. and_then (read_sequence_counts rest 31 8) (\<lambda>(offset_counts, offset_size).
      let cursor = cursor + offset_size in
      and_then (idx_from src cursor) (\<lambda>rest. and_then (read_sequence_counts rest 52 9) (\<lambda>(match_length_counts, match_length_size).
      let cursor = cursor + match_length_size in
      and_then (idx_from src cursor) (\<lambda>rest. and_then (read_sequence_counts rest 35 9) (\<lambda>(literal_length_counts, literal_length_size).
      let cursor = cursor + literal_length_size in
      and_then (read_repeat_offsets src cursor) (\<lambda>(reps, content).
      and_then (counts_dtable offset_counts) (\<lambda>offset_table.
      and_then (counts_dtable match_length_counts) (\<lambda>match_length_table.
      and_then (counts_dtable literal_length_counts) (\<lambda>literal_length_table.
        Ok \<lparr>dict_id = dictionary_id, dict_source_size = length src, dict_source = src,
            content_start = length src - length content, raw_content = False,
            dict_decoder_tables = Some \<lparr>dict_huffman_table = Some (Double huffman), dict_offset_table = offset_table,
              dict_match_length_table = match_length_table, dict_literal_length_table = literal_length_table\<rparr>,
            dict_repeat_offsets = reps\<rparr>))))))))))))))))"

subsection \<open>Accessors\<close>

definition dictionary_content :: "dictionary \<Rightarrow> bytes result" where
  "dictionary_content d = idx_from (dict_source d) (content_start d)"

definition decoder_tables_of :: "dictionary \<Rightarrow> decoder_tables option result" where
  "decoder_tables_of d =
     (if raw_content d then Ok None else
      case dict_decoder_tables d of Some t \<Rightarrow> Ok (Some t) | None \<Rightarrow> Fault)"

text \<open>\<open>Dictionary::literals_state\<close> and \<open>Dictionary::sequence_tables\<close>\<close>

definition dictionary_literals_state :: "dictionary \<Rightarrow> huffman_dtable option result" where
  "dictionary_literals_state d =
     and_then (decoder_tables_of d) (\<lambda>ts. Ok (Option.bind ts dict_huffman_table))"

definition dictionary_sequence_tables :: "dictionary \<Rightarrow> sequence_tables result" where
  "dictionary_sequence_tables d =
     and_then (decoder_tables_of d) (\<lambda>ts. Ok (case ts of
        Some t \<Rightarrow> with_tables (Some (dict_literal_length_table t)) (Some (dict_offset_table t))
          (Some (dict_match_length_table t))
      | None \<Rightarrow> with_tables None None None))"

subsection \<open>What a parsed dictionary promises\<close>

definition offsets_within :: "nat \<Rightarrow> repeat_offsets \<Rightarrow> bool" where
  "offsets_within n r \<longleftrightarrow> rep1 r \<le> n \<and> rep2 r \<le> n \<and> rep3 r \<le> n"

definition dictionary_ok :: "dictionary \<Rightarrow> bool" where
  "dictionary_ok d \<longleftrightarrow> content_start d \<le> length (dict_source d) \<and> reps_ok (dict_repeat_offsets d)
     \<and> (raw_content d \<or> offsets_within (length (dict_source d) - content_start d) (dict_repeat_offsets d))
     \<and> (raw_content d \<or> (\<exists>t. dict_decoder_tables d = Some t \<and> huffman_state_ok (dict_huffman_table t)
          \<and> part_dtable_ok LiteralLength (dict_literal_length_table t) \<and> part_dtable_ok Offset (dict_offset_table t)
          \<and> part_dtable_ok MatchLength (dict_match_length_table t)))"


definition counts_ok :: "sequence_part \<Rightarrow> usize \<Rightarrow> parsed_counts \<times> usize \<Rightarrow> bool" where
  "counts_ok part len r \<longleftrightarrow> (case r of (pc, used) \<Rightarrow> used \<le> len
     \<and> counts_valid (pc_table_log pc) (pc_normalized pc) (Suc (pc_max_symbol_value pc))
     \<and> pc_max_symbol_value pc \<le> max_symbol_value part \<and> pc_table_log pc \<le> max_accuracy_log part)"

lemma read_sequence_counts_meets:
  assumes "length src \<le> usize_max"
  shows "meets (read_sequence_counts src (max_symbol_value part) (max_accuracy_log part)) (counts_ok part (length src))"
  unfolding read_sequence_counts_def meets_and_then
  by (rule meets_mono [OF read_ncount_meets [OF assms]]) (auto simp: ncount_ok_def counts_ok_def)

lemma counts_dtable_ok:
  assumes "counts_ok part len (pc, used)"
  shows "\<exists>dt. counts_dtable pc = Ok dt \<and> part_dtable_ok part dt"
proof -
  have l: "length (dt_entries dtable_default) = TABLESIZE_MAX" by (simp add: dtable_default_def)
  show ?thesis
    using assms build_part [OF _ _ _ l length_seq_default, of "pc_table_log pc" "pc_normalized pc" "pc_max_symbol_value pc" part]
    by (auto simp: counts_ok_def counts_dtable_def)
qed

lemma read_repeat_offsets_meets:
  "meets (read_repeat_offsets src cursor) (\<lambda>(reps, content). reps_ok reps \<and> length content \<le> length src
     \<and> content = drop (length src - length content) src \<and> offsets_within (length content) reps)"
  by (auto simp: offsets_within_def read_repeat_offsets_def reps_ok_def unat_gt_0 not_less)

text \<open>Every table and offset of a parsed dictionary is within its limits.\<close>

lemma parse_dictionary_meets:
  assumes u: "length src \<le> usize_max"
  shows "meets (parse_decoder_dictionary src) (\<lambda>d. dictionary_ok d \<and> dict_source d = src)"
proof (cases "length src < 8 \<or> word_of_nat (le_nat (take 4 src)) \<noteq> ZSTD_DICTIONARY_MAGIC")
  case True
  then show ?thesis
    by (auto simp: parse_decoder_dictionary_def raw_dictionary_def dictionary_ok_def reps_ok_def repeat_offsets_default_def)
next
  case False
  then have l: "8 \<le> length src" and m: "read_u32_le src = Ok ZSTD_DICTIONARY_MAGIC" by simp_all
  have x2: "length (x2_entries (double_slot None)) = DTABLE_X2_SIZE" by (simp add: double_slot_def dtable_x2_default_def)
  have h: "meets (read_dtable_x2 (drop 8 src) (double_slot None)) (\<lambda>(t, n). usable_table (Double t) \<and> n \<le> length (drop 8 src))"
    by (rule meets_mono [OF read_dtable_x2_meets [OF x2]]) (auto simp: usable_table_def usable_table_x2 dtable_x2_ok_def)
  have d: "length (drop c src) \<le> usize_max" for c using u by simp
  have c: "meets (and_then (idx_from src c) (\<lambda>rest. and_then (read_sequence_counts rest m l) (\<lambda>(pc, used). f pc used))) Q"
    if "c \<le> length src" "m = max_symbol_value part" "l = max_accuracy_log part"
      "\<And>pc used dt. c + used \<le> length src \<Longrightarrow> counts_dtable pc = Ok dt \<Longrightarrow> part_dtable_ok part dt \<Longrightarrow> meets (f pc used) Q"
    for c m l part f Q
  proof -
    have "meets (read_sequence_counts (drop c src) m l) (counts_ok part (length (drop c src)))"
      using read_sequence_counts_meets [OF d] that(2,3) by simp
    then have "meets (read_sequence_counts (drop c src) m l) (\<lambda>(pc, used). meets (f pc used) Q)"
    proof (rule meets_mono)
      fix x assume "counts_ok part (length (drop c src)) x"
      moreover obtain pc used where x: "x = (pc, used)" by (cases x)
      ultimately have k: "counts_ok part (length (drop c src)) (pc, used)" by simp
      then have "c + used \<le> length src" using that(1) by (auto simp: counts_ok_def)
      moreover from counts_dtable_ok [OF k] obtain dt where "counts_dtable pc = Ok dt" "part_dtable_ok part dt" by blast
      ultimately show "case x of (pc, used) \<Rightarrow> meets (f pc used) Q" unfolding x prod.case by (rule that(4))
    qed
    then show ?thesis using that(1) by (simp add: case_prod_unfold)
  qed
  have "meets (and_then (idx_from src 8) (\<lambda>rest. and_then (read_dtable_x2 rest (double_slot None)) (\<lambda>(huffman, huffman_size). f huffman huffman_size))) Q"
    if "\<And>t n. usable_table (Double t) \<Longrightarrow> 8 + n \<le> length src \<Longrightarrow> meets (f t n) Q" for f Q
    unfolding meets_and_then [of "idx_from _ _"] meets_idx_from
    using l by (intro conjI meets_pair [OF h] that) auto
  note h = this
  have r: "meets (and_then (read_repeat_offsets src cursor) (\<lambda>(reps, content). f reps content)) Q"
    if "\<And>reps content. reps_ok reps \<Longrightarrow> length content \<le> length src \<Longrightarrow> offsets_within (length content) reps \<Longrightarrow>
      meets (f reps content) Q" for f Q cursor
    by (rule meets_pair [OF read_repeat_offsets_meets]) (use that in blast)
  from False have i: "idx_range src 4 8 = Ok (take 4 (drop 4 src))" "read_u32_le (take 4 (drop 4 src)) = Ok (word_of_nat (le_nat (take 4 (drop 4 src))))"
    by (auto simp: idx_range_def)
  have n: "\<not> length src < 8" "\<not> ZSTD_DICTIONARY_MAGIC \<noteq> ZSTD_DICTIONARY_MAGIC" using l by simp_all
  show ?thesis
    unfolding parse_decoder_dictionary_def m i and_then.simps Let_def if_not_P [OF n(1)] if_not_P [OF n(2)]
    by (rule h, rule c [of _ _ Offset], simp, simp, simp,
       rule c [of _ _ MatchLength], simp, simp, simp,
       rule c [of _ _ LiteralLength], simp, simp, simp,
       rule r, auto simp: dictionary_ok_def huffman_state_ok_def)
qed

subsection \<open>Accessors of a parsed dictionary\<close>

lemma slot_ok_given: "slot_ok part (Some dt, seq_dtable_default, True) True \<longleftrightarrow> part_dtable_ok part dt"
  "slot_ok part (None, seq_dtable_default, False) True"
  by simp_all

lemma with_tables_ok:
  assumes "part_dtable_ok LiteralLength ll" "part_dtable_ok Offset off" "part_dtable_ok MatchLength ml"
  shows "tables_ok (with_tables (Some ll) (Some off) (Some ml))"
  using assms by (simp add: tables_ok_def with_tables_def del: slot_ok.simps add: slot_ok_given)

lemma without_tables_ok: "tables_ok (with_tables None None None)"
  by (simp add: tables_ok_def with_tables_def del: slot_ok.simps add: slot_ok_given)

lemma dictionary_accessors:
  assumes "dictionary_ok d"
  shows "\<exists>c st ts. dictionary_content d = Ok c \<and> c = drop (content_start d) (dict_source d)
    \<and> dictionary_literals_state d = Ok st \<and> huffman_state_ok st \<and> dictionary_sequence_tables d = Ok ts \<and> tables_ok ts"
proof (cases "raw_content d")
  case True
  then show ?thesis
    using assms without_tables_ok by (auto simp: dictionary_ok_def dictionary_content_def idx_from_def
        dictionary_literals_state_def dictionary_sequence_tables_def decoder_tables_of_def huffman_state_ok_def)
next
  case False
  then show ?thesis
    using assms with_tables_ok by (auto simp: dictionary_ok_def dictionary_content_def idx_from_def
        dictionary_literals_state_def dictionary_sequence_tables_def decoder_tables_of_def)
qed

subsection \<open>Properties\<close>

text \<open>C4. Parsing a dictionary for decoding never faults, whatever the bytes. A dictionary it accepts has its content at the end of
  the bytes, three repeat offsets that are not zero and, if it is a formatted one, point into the content, and
  tables within the limits of the decoders; none of the accessors that hand these to a frame panics.\<close>

theorem parse_dictionary_safe:
  assumes "length src \<le> usize_max"
  shows "parse_decoder_dictionary src \<noteq> Fault
    \<and> (\<forall>d. parse_decoder_dictionary src = Ok d \<longrightarrow>
        reps_ok (dict_repeat_offsets d)
        \<and> (\<exists>content st ts. dictionary_content d = Ok content \<and> content = drop (length src - length content) src
          \<and> (raw_content d \<or> offsets_within (length content) (dict_repeat_offsets d))
          \<and> dictionary_literals_state d = Ok st \<and> (\<forall>t. st = Some t \<longrightarrow> usable_table t)
          \<and> dictionary_sequence_tables d = Ok ts \<and> tables_ok ts))"
proof -
  have "reps_ok (dict_repeat_offsets d)
        \<and> (\<exists>content st ts. dictionary_content d = Ok content \<and> content = drop (length src - length content) src
          \<and> (raw_content d \<or> offsets_within (length content) (dict_repeat_offsets d))
          \<and> dictionary_literals_state d = Ok st \<and> (\<forall>t. st = Some t \<longrightarrow> usable_table t)
          \<and> dictionary_sequence_tables d = Ok ts \<and> tables_ok ts)"
    if "dictionary_ok d" "dict_source d = src" for d
    using dictionary_accessors [OF that(1)] that by (auto simp: dictionary_ok_def huffman_state_ok_def)
  then show ?thesis using parse_dictionary_meets [OF assms] unfolding meets_iff by blast
qed

theorem parse_dictionary_safe_witness:
  "\<exists>d content. parse_decoder_dictionary [7, 8, 9] = Ok d \<and> dictionary_content d = Ok content \<and> reps_ok (dict_repeat_offsets d)
    \<and> content = drop (3 - length content) [7, 8, 9]"
proof -
  have "length [7, 8, 9 :: u8] \<le> usize_max" by (simp add: usize_max_def)
  from parse_dictionary_safe [OF this] show ?thesis by (auto simp: parse_decoder_dictionary_def eval_nat_numeral)
qed

end
