(* ===== verification/Block.thy ===== *)
theory Block
  imports Mem OutBuf
begin

section \<open>Block headers (block.rs)\<close>

text \<open>
  The three-byte header of \<open>src/src/block.rs\<close>: its parser, its encoder and the two
  ways the encoder stores it. Encoding and parsing are inverse on sizes below
  \<open>2 ^ 21\<close>, the width of the field.
\<close>

definition BLOCK_SIZE_MAX :: usize where
  "BLOCK_SIZE_MAX = 128 * 1024"

definition BLOCK_HEADER_SIZE :: usize where
  "BLOCK_HEADER_SIZE = 3"

datatype block_type = Raw | Rle | Compressed

record block_header =
  last_block :: bool
  block_kind :: block_type
  block_size :: u32

definition parse_block_header :: "bytes \<Rightarrow> block_header result" where
  "parse_block_header src =
     (if length src < BLOCK_HEADER_SIZE then Err UnexpectedEof else
      and_then (idx_range src 0 BLOCK_HEADER_SIZE) (\<lambda>hdr.
      and_then (read_u24_le hdr) (\<lambda>value.
        let last = (value AND 1 \<noteq> 0);
            code = drop_bit 1 value AND 3;
            size = drop_bit 3 value
        in if code = 0 then Ok \<lparr>last_block = last, block_kind = Raw, block_size = size\<rparr>
           else if code = 1 then Ok \<lparr>last_block = last, block_kind = Rle, block_size = size\<rparr>
           else if code = 2 then Ok \<lparr>last_block = last, block_kind = Compressed, block_size = size\<rparr>
           else Err (Corruption ''reserved block type''))))"

fun block_type_bits :: "block_type \<Rightarrow> u32" where
  "block_type_bits Raw = 0"
| "block_type_bits Rle = 1"
| "block_type_bits Compressed = 2"

definition block_header_value :: "block_header \<Rightarrow> u32" where
  "block_header_value h =
     (of_bool (last_block h) OR push_bit 1 (block_type_bits (block_kind h))
      OR push_bit 3 (block_size h))"

definition encode_block_header :: "block_header \<Rightarrow> bytes" where
  "encode_block_header h =
     (let value = block_header_value h
      in [ucast (value AND 0xFF), ucast (drop_bit 8 value AND 0xFF),
          ucast (drop_bit 16 value AND 0xFF)])"

definition write_block_header_to :: "block_header \<Rightarrow> out_buf \<Rightarrow> out_buf result" where
  "write_block_header_to h dst = extend_from_slice dst (encode_block_header h)"

definition write_block_header_at :: "block_header \<Rightarrow> out_buf \<Rightarrow> usize \<Rightarrow> out_buf result" where
  "write_block_header_at h dst pos = write_at dst pos (encode_block_header h)"

definition payload_size :: "block_header \<Rightarrow> usize" where
  "payload_size h = (case block_kind h of Raw \<Rightarrow> unat (block_size h)
     | Compressed \<Rightarrow> unat (block_size h) | Rle \<Rightarrow> 1)"

subsection \<open>Parsing\<close>

lemma length_encode_block_header [simp]: "length (encode_block_header h) = 3"
  by (simp add: encode_block_header_def Let_def)

lemma parse_block_header_no_fault [wp]: "meets (parse_block_header src) (\<lambda>h. 3 \<le> length src)"
  by (auto simp: parse_block_header_def BLOCK_HEADER_SIZE_def Let_def)

lemma parse_block_header_short: "length src < 3 \<Longrightarrow> parse_block_header src = Err UnexpectedEof"
  by (simp add: parse_block_header_def BLOCK_HEADER_SIZE_def)

lemma unat_u24: "unat (word_of_nat (le_nat (take 3 src)) :: u32) = le_nat (take 3 src)"
proof -
  have "le_nat (take 3 src) < 256 ^ length (take 3 src)" by (rule le_nat_less)
  also have "(256::nat) ^ length (take 3 src) \<le> 256 ^ 3" by (rule power_increasing) auto
  finally show ?thesis by (simp add: unat_of_nat)
qed

lemma block_size_bound:
  assumes "parse_block_header src = Ok h"
  shows "unat (block_size h) < 2 ^ 21"
proof -
  have size: "block_size h = drop_bit 3 (word_of_nat (le_nat (take 3 src)))"
    using assms by (auto simp: parse_block_header_def BLOCK_HEADER_SIZE_def Let_def split: if_splits)
  have "le_nat (take 3 src) < 256 ^ length (take 3 src)" by (rule le_nat_less)
  also have "(256::nat) ^ length (take 3 src) \<le> 256 ^ 3" by (rule power_increasing) auto
  finally have "le_nat (take 3 src) < 16777216" by simp
  then show ?thesis
    unfolding size unat_drop_bit_eq unat_u24 by (simp add: drop_bit_eq_div less_mult_imp_div_less)
qed

lemma payload_size_bound: "parse_block_header src = Ok h \<Longrightarrow> payload_size h < 2 ^ 21"
  using block_size_bound [of src h] by (auto simp: payload_size_def split: block_type.split)

subsection \<open>Round trip\<close>

lemma encode_block_header_le: "encode_block_header h = le_bytes 3 (unat (block_header_value h))"
proof -
  let ?v = "block_header_value h"
  have "(ucast (?v AND 0xFF) :: u8) = word_of_nat (unat ?v)"
    using byte_of_word [of 0 ?v] by simp
  moreover have "(ucast (drop_bit 8 ?v AND 0xFF) :: u8) = word_of_nat (unat ?v div 256)"
    using byte_of_word [of 8 ?v] by simp
  moreover have "(ucast (drop_bit 16 ?v AND 0xFF) :: u8) = word_of_nat (unat ?v div 256 div 256)"
    using byte_of_word [of 16 ?v] by (simp add: div_mult2_eq [symmetric])
  ultimately show ?thesis
    by (simp only: encode_block_header_def Let_def numeral_3_eq_3 le_bytes.simps)
qed

lemma bit_block_header_value:
  "bit (block_header_value h) n \<longleftrightarrow> n < 32 \<and> (n = 0 \<and> last_block h
     \<or> 1 \<le> n \<and> bit (block_type_bits (block_kind h)) (n - 1) \<or> 3 \<le> n \<and> bit (block_size h) (n - 3))"
  unfolding block_header_value_def bit_or_iff bit_push_bit_iff
  by (auto simp: bit_simps dest: bit_imp_le_length)

lemma block_type_bits_high: "2 \<le> n \<Longrightarrow> \<not> bit (block_type_bits k) n"
proof -
  have "unat (block_type_bits k) < 2 ^ 2" by (cases k) auto
  then show "2 \<le> n \<Longrightarrow> \<not> bit (block_type_bits k) n" by (rule word_no_high_bits)
qed

lemma block_header_value_bits:
  assumes "unat (block_size h) < 2 ^ 21"
  shows "take_bit 24 (block_header_value h) = block_header_value h"
    and "block_header_value h AND 1 \<noteq> 0 \<longleftrightarrow> last_block h"
    and "drop_bit 1 (block_header_value h) AND 3 = block_type_bits (block_kind h)"
    and "drop_bit 3 (block_header_value h) = block_size h"
proof -
  let ?t = "block_type_bits (block_kind h)" and ?s = "block_size h"
  have sb: "\<not> bit ?s n" if "21 \<le> n" for n
    using word_no_high_bits [OF assms that] .
  have vb: "\<not> bit (block_header_value h) n" if "24 \<le> n" for n
    using that sb [of "n - 3"] by (auto simp: bit_block_header_value block_type_bits_high)
  show "take_bit 24 (block_header_value h) = block_header_value h"
    using vb by (auto simp: bit_eq_iff bit_take_bit_iff) (metis not_le)
  have "n < 21" if "bit ?s n" for n using sb [of n] that by (meson not_le)
  then show "drop_bit 3 (block_header_value h) = ?s"
    by (intro bit_word_eqI) (fastforce simp: bit_simps bit_block_header_value block_type_bits_high)
  show "block_header_value h AND 1 \<noteq> 0 \<longleftrightarrow> last_block h"
    by (simp add: and_one_eq bit_0 [symmetric] bit_block_header_value flip: odd_iff_mod_2_eq_one)
  show "drop_bit 1 (block_header_value h) AND 3 = ?t"
  proof -
    have "n < 2" if "bit ?t n" for n using block_type_bits_high [of n] that by (meson not_le)
    then have "drop_bit 1 (block_header_value h) AND mask 2 = ?t"
      by (intro bit_word_eqI) (fastforce simp: bit_simps bit_block_header_value)
    then show ?thesis by (simp add: mask_eq_exp_minus_1)
  qed
qed


lemma unat_block_header_value:
  assumes "unat (block_size h) < 2 ^ 21"
  shows "unat (block_header_value h) < 256 ^ 3"
proof -
  have "unat (take_bit 24 (block_header_value h)) < 2 ^ 24"
    by (simp only: unsigned_take_bit_eq take_bit_nat_less_exp)
  then show ?thesis by (simp add: block_header_value_bits(1) [OF assms])
qed

lemma parse_encode_block_header:
  assumes "unat (block_size h) < 2 ^ 21"
  shows "parse_block_header (encode_block_header h @ rest) = Ok h"
proof -
  obtain l k s where h: "h = \<lparr>last_block = l, block_kind = k, block_size = s\<rparr>" by (cases h)
  define v where "v = block_header_value h"
  have "read_u24_le (encode_block_header h) = Ok v"
    using unat_block_header_value [OF assms]
    by (simp add: read_u24_le_eq encode_block_header_le bytes_simps v_def)
  moreover have "idx_range (encode_block_header h @ rest) 0 3 = Ok (encode_block_header h)"
    by simp
  moreover have "v AND 1 \<noteq> 0 \<longleftrightarrow> l" "drop_bit 1 v AND 3 = block_type_bits k" "drop_bit 3 v = s"
    using block_header_value_bits(2-4) [OF assms] by (simp_all only: v_def h block_header.simps)
  ultimately show ?thesis
    by (cases k) (simp_all add: parse_block_header_def BLOCK_HEADER_SIZE_def Let_def h del: idx_range_Ok)
qed

lemma block_header_value_unique:
  assumes "v AND 1 \<noteq> 0 \<longleftrightarrow> last_block h" and "drop_bit 1 v AND 3 = block_type_bits (block_kind h)"
    and "drop_bit 3 v = block_size h"
  shows "block_header_value h = v"
proof (rule bit_word_eqI)
  fix n
  assume n: "n < LENGTH(32)"
  have code: "drop_bit 1 v AND mask 2 = block_type_bits (block_kind h)"
    using assms(2) by (simp add: mask_eq_exp_minus_1)
  consider "n = 0" | "n = 1 \<or> n = 2" | "3 \<le> n" by linarith
  then show "bit (block_header_value h) n = bit v n"
  proof cases
    case 1
    have "bit v 0 \<longleftrightarrow> v AND 1 \<noteq> 0" by (simp add: and_one_eq bit_0 flip: odd_iff_mod_2_eq_one)
    then show ?thesis using 1 assms(1) by (simp add: bit_block_header_value)
  next
    case 2
    then have "bit v n = bit (drop_bit 1 v AND mask 2) (n - 1)" by (auto simp: bit_simps numeral_2_eq_2)
    then show ?thesis using 2 code n by (auto simp: bit_block_header_value)
  next
    case 3
    then have "bit v n = bit (block_size h) (n - 3)" using assms(3) [symmetric] by (simp add: bit_simps)
    then show ?thesis using 3 n by (auto simp: bit_block_header_value block_type_bits_high)
  qed
qed

lemma encode_parse_block_header:
  assumes "parse_block_header src = Ok h"
  shows "encode_block_header h = take 3 src"
proof -
  define v where "v = (word_of_nat (le_nat (take 3 src)) :: u32)"
  have len: "3 \<le> length src"
    using parse_block_header_no_fault [of src] assms by simp
  have "v AND 1 \<noteq> 0 \<longleftrightarrow> last_block h" "drop_bit 1 v AND 3 = block_type_bits (block_kind h)"
    "drop_bit 3 v = block_size h"
    using assms by (auto simp: parse_block_header_def BLOCK_HEADER_SIZE_def Let_def v_def split: if_splits)
  then have "block_header_value h = v" by (rule block_header_value_unique)
  then show ?thesis
    using len le_bytes_le_nat [of "take 3 src"] by (simp add: encode_block_header_le unat_u24 v_def)
qed

subsection \<open>Properties\<close>

text \<open>C15. A block header survives encoding and parsing exactly when its size fits the 21 bits of the
  field; whatever follows the three bytes is ignored.\<close>

theorem block_header_roundtrip:
  "parse_block_header (encode_block_header h @ rest) = Ok h \<longleftrightarrow> unat (block_size h) < 2 ^ 21"
  using parse_encode_block_header block_size_bound by blast

text \<open>C16. What the parser accepts is the encoding of the header it returns: encoding gives the same
  three bytes again. The payload it announces is below two megabytes.\<close>

theorem block_header_canonical:
  assumes "parse_block_header src = Ok h"
  shows "encode_block_header h @ drop 3 src = src \<and> payload_size h < 2 ^ 21"
  using encode_parse_block_header [OF assms] payload_size_bound [OF assms] by simp_all

theorem block_header_canonical_witness:
  "encode_block_header \<lparr>last_block = True, block_kind = Rle, block_size = 5\<rparr> @ drop 3 [0x2B, 0, 0, 9] = [0x2B, 0, 0, 9]"
  by (rule block_header_canonical [THEN conjunct1])
    (simp add: parse_block_header_def BLOCK_HEADER_SIZE_def read_u24_le_def idx_range_def idx_def)

end
