(* ===== verification/Frame.thy ===== *)
theory Frame
  imports Block
begin

section \<open>Frame headers (frame.rs)\<close>

text \<open>
  The envelope of \<open>src/src/frame.rs\<close>: the magic number, the frame header's fields and
  their encodings, skippable frames, the walk over a frame's block headers that measures it,
  and the fold over a concatenation of frames. Positions are kept as the code keeps
  them; every read past the input is the error the code returns, and indexing that
  would panic is a \<open>Fault\<close>.
\<close>

definition ZSTD_MAGIC_NUMBER :: u32 where
  "ZSTD_MAGIC_NUMBER = 0xFD2FB528"

definition SKIPPABLE_MAGIC_BASE :: u32 where
  "SKIPPABLE_MAGIC_BASE = 0x184D2A50"

definition RESERVED_BIT :: u8 where
  "RESERVED_BIT = 8"

datatype format = Zstd1 | Zstd1Magicless

fun magic_size :: "format \<Rightarrow> usize" where
  "magic_size Zstd1 = 4"
| "magic_size Zstd1Magicless = 0"

record zstandard_frame_header =
  header_size :: usize
  window_size :: u64
  block_size_max :: u32
  content_size :: "u64 option"
  dictionary_id :: "u32 option"
  checksum :: bool
  single_segment :: bool

record skippable_frame =
  skip_header_size :: usize
  magic_variant :: u8
  skip_size :: u32

datatype frame_header = Zstandard zstandard_frame_header | Skippable skippable_frame

definition write_frame_magic :: "out_buf \<Rightarrow> format \<Rightarrow> out_buf result" where
  "write_frame_magic dst fmt =
     (if magic_size fmt \<noteq> 0 then extend_from_slice dst (le_bytes 4 (unat ZSTD_MAGIC_NUMBER)) else Ok dst)"

subsection \<open>Header fields\<close>

fun frame_content_size_field_size :: "nat \<Rightarrow> bool \<Rightarrow> usize result" where
  "frame_content_size_field_size flag single =
     (if flag = 0 then Ok (of_bool single) else if flag = 1 then Ok 2
      else if flag = 2 then Ok 4 else if flag = 3 then Ok 8 else Fault)"

definition decode_window_descriptor :: "u8 \<Rightarrow> u64" where
  "decode_window_descriptor descriptor =
     (let exponent = drop_bit 3 descriptor;
          mantissa = descriptor AND 7;
          window_log = 10 + (ucast exponent :: u64);
          window_base = push_bit (unat window_log) (1 :: u64);
          window_add = window_base div 8 * ucast mantissa
      in window_base + window_add)"

definition window_candidate :: "nat \<Rightarrow> nat \<Rightarrow> u64" where
  "window_candidate exponent mantissa =
     (let window_base = push_bit (10 + exponent) (1 :: u64);
          window_step = window_base div 8
      in window_base + window_step * word_of_nat mantissa)"

text \<open>The two nested loops, with the return at the first candidate that is large enough.\<close>

definition encode_window_descriptor :: "u64 \<Rightarrow> u8 result" where
  "encode_window_descriptor ws =
     (let requested = max ws 1024 in
      case find (\<lambda>(e, m). requested \<le> window_candidate e m)
             (concat (map (\<lambda>e. map (Pair e) [0..<8]) [0..<32])) of
        Some (e, m) \<Rightarrow> Ok (push_bit 3 (word_of_nat e) OR word_of_nat m)
      | None \<Rightarrow> Err (InvalidParameter ''window_size is too large''))"

definition representable_window_size :: "u64 \<Rightarrow> u64 result" where
  "representable_window_size ws =
     and_then (encode_window_descriptor ws) (\<lambda>d. Ok (decode_window_descriptor d))"

definition decode_frame_content_size :: "bytes \<Rightarrow> u64 result" where
  "decode_frame_content_size field =
     (if length field = 1 then Ok (word_of_nat (le_nat field))
      else if length field = 2 then Ok (word_of_nat (le_nat field) + 256)
      else if length field = 4 then Ok (word_of_nat (le_nat field))
      else if length field = 8 then Ok (word_of_nat (le_nat field))
      else Err (Corruption ''invalid frame content size field length''))"

definition encode_frame_content_size :: "u64 \<Rightarrow> u8 \<times> bytes" where
  "encode_frame_content_size cs =
     (if cs \<le> 255 then (0, [ucast cs])
      else if cs \<le> 65791 then (1, le_bytes 2 (unat (ucast (cs - 256) :: u16)))
      else if cs \<le> 4294967295 then (2, le_bytes 4 (unat (ucast cs :: u32)))
      else (3, le_bytes 8 (unat cs)))"

definition encode_dictionary_id :: "u32 option \<Rightarrow> u8 \<times> bytes" where
  "encode_dictionary_id did =
     (case did of
        None \<Rightarrow> (0, [])
      | Some d \<Rightarrow>
          if d = 0 then (0, [])
          else if d \<le> 255 then (1, [ucast d])
          else if d \<le> 65535 then (2, le_bytes 2 (unat (ucast d :: u16)))
          else (3, le_bytes 4 (unat d)))"

subsection \<open>Writing headers\<close>

definition write_single_segment_header_with_dict ::
    "out_buf \<Rightarrow> u64 \<Rightarrow> bool \<Rightarrow> u32 option \<Rightarrow> format \<Rightarrow> out_buf result" where
  "write_single_segment_header_with_dict dst cs ck did fmt =
     and_then (write_frame_magic dst fmt) (\<lambda>dst.
     let (fcs_flag, encoded_fcs) = encode_frame_content_size cs;
         (dict_id_flag, encoded_dict_id) = encode_dictionary_id did;
         descriptor = push_bit 6 fcs_flag;
         descriptor = descriptor OR push_bit 5 1;
         descriptor = (if ck then descriptor OR push_bit 2 1 else descriptor);
         descriptor = descriptor OR dict_id_flag
     in and_then (push dst descriptor) (\<lambda>dst.
        and_then (extend_from_slice dst encoded_dict_id) (\<lambda>dst.
          extend_from_slice dst encoded_fcs)))"

definition write_windowed_header_with_dict ::
    "out_buf \<Rightarrow> u64 \<Rightarrow> bool \<Rightarrow> u32 option \<Rightarrow> format \<Rightarrow> out_buf result" where
  "write_windowed_header_with_dict dst ws ck did fmt =
     and_then (write_frame_magic dst fmt) (\<lambda>dst.
     let (dict_id_flag, encoded_dict_id) = encode_dictionary_id did;
         descriptor = 0;
         descriptor = (if ck then descriptor OR push_bit 2 1 else descriptor);
         descriptor = descriptor OR dict_id_flag
     in and_then (push dst descriptor) (\<lambda>dst.
        and_then (encode_window_descriptor (max ws 1024)) (\<lambda>wd.
        and_then (push dst wd) (\<lambda>dst.
          extend_from_slice dst encoded_dict_id))))"

definition write_windowed_header_with_content_size ::
    "out_buf \<Rightarrow> u64 \<Rightarrow> u64 \<Rightarrow> bool \<Rightarrow> u32 option \<Rightarrow> format \<Rightarrow> out_buf result" where
  "write_windowed_header_with_content_size dst ws cs ck did fmt =
     and_then (write_frame_magic dst fmt) (\<lambda>dst.
     let (fcs_flag, encoded_fcs) = encode_frame_content_size cs;
         (fcs_flag, encoded_fcs) =
           (if fcs_flag = 0 then (1, le_bytes 2 (unat (ucast (if 256 \<le> cs then cs - 256 else 0) :: u16)))
            else (fcs_flag, encoded_fcs));
         (dict_id_flag, encoded_dict_id) = encode_dictionary_id did;
         descriptor = push_bit 6 fcs_flag;
         descriptor = (if ck then descriptor OR push_bit 2 1 else descriptor);
         descriptor = descriptor OR dict_id_flag
     in and_then (push dst descriptor) (\<lambda>dst.
        and_then (encode_window_descriptor (max ws 1024)) (\<lambda>wd.
        and_then (push dst wd) (\<lambda>dst.
        and_then (extend_from_slice dst encoded_dict_id) (\<lambda>dst.
          extend_from_slice dst encoded_fcs)))))"

definition write_skippable_frame :: "u8 \<Rightarrow> bytes \<Rightarrow> bytes result" where
  "write_skippable_frame variant payload =
     (if 16 \<le> variant then Err (InvalidParameter ''skippable magic variant must be in 0..16'')
      else if 4294967295 < length payload then Err (ContentSizeTooLarge (word_of_nat (length payload)))
      else Ok (le_bytes 4 (unat (SKIPPABLE_MAGIC_BASE + ucast variant)) @ le_bytes 4 (length payload)
               @ payload))"

subsection \<open>Parsing headers\<close>

text \<open>The two optional fields, each with the position after it.\<close>

definition parse_dictionary_id_field :: "bytes \<Rightarrow> usize \<Rightarrow> usize \<Rightarrow> (u32 option \<times> usize) result" where
  "parse_dictionary_id_field src pos field_size =
     (if field_size = 0 then Ok (None, pos) else
      and_then (ok_or (checked_add pos field_size) UnexpectedEof) (\<lambda>end_pos.
      and_then (ok_or (get_range src pos end_pos) UnexpectedEof) (\<lambda>field.
      and_then (if length field = 1 \<or> length field = 2 \<or> length field = 4
                then Ok (word_of_nat (le_nat field) :: u32) else Fault) (\<lambda>value.
        Ok (if value \<noteq> 0 then Some value else None, end_pos)))))"

definition parse_content_size_field :: "bytes \<Rightarrow> usize \<Rightarrow> usize \<Rightarrow> (u64 option \<times> usize) result" where
  "parse_content_size_field src pos field_size =
     (if field_size = 0 then Ok (None, pos) else
      and_then (ok_or (checked_add pos field_size) UnexpectedEof) (\<lambda>end_pos.
      and_then (ok_or (get_range src pos end_pos) UnexpectedEof) (\<lambda>field.
      and_then (decode_frame_content_size field) (\<lambda>value.
        Ok (Some value, end_pos)))))"

definition parse_window_field :: "bytes \<Rightarrow> usize \<Rightarrow> bool \<Rightarrow> (u64 \<times> usize) result" where
  "parse_window_field src pos single =
     (if single then Ok (0, pos) else
      and_then (ok_or (slice_get src pos) UnexpectedEof) (\<lambda>wd.
        Ok (decode_window_descriptor wd, pos + 1)))"

definition dictionary_id_field_size :: "u8 \<Rightarrow> usize" where
  "dictionary_id_field_size descriptor =
     (let code = descriptor AND 3
      in if code = 0 then 0 else if code = 1 then 1 else if code = 2 then 2 else 4)"

definition parse_zstandard_frame_header :: "bytes \<Rightarrow> format \<Rightarrow> frame_header result" where
  "parse_zstandard_frame_header src fmt =
     and_then (ok_or (slice_get src (magic_size fmt)) UnexpectedEof) (\<lambda>descriptor.
     if descriptor AND RESERVED_BIT \<noteq> 0 then Err (Corruption ''frame header reserved bit is set'') else
     let single = (descriptor AND push_bit 5 1 \<noteq> 0);
         ck = (descriptor AND push_bit 2 1 \<noteq> 0)
     in and_then (frame_content_size_field_size (unat (drop_bit 6 descriptor)) single) (\<lambda>fcs_field_size.
        and_then (parse_window_field src (magic_size fmt + 1) single) (\<lambda>(ws, pos).
        and_then (parse_dictionary_id_field src pos (dictionary_id_field_size descriptor)) (\<lambda>(did, pos).
        and_then (parse_content_size_field src pos fcs_field_size) (\<lambda>(cs, pos).
        and_then (if single
                  then ok_or cs (Corruption ''single-segment frames must include a content size'')
                  else Ok ws) (\<lambda>ws.
          Ok (Zstandard \<lparr>header_size = pos, window_size = ws,
                block_size_max = ucast (min ws (word_of_nat BLOCK_SIZE_MAX)), content_size = cs,
                dictionary_id = did, checksum = ck, single_segment = single\<rparr>)))))))"

definition is_skippable_magic :: "u32 \<Rightarrow> bool" where
  "is_skippable_magic magic \<longleftrightarrow> magic AND 0xFFFFFFF0 = SKIPPABLE_MAGIC_BASE"

definition parse_skippable_frame_header :: "bytes \<Rightarrow> u32 \<Rightarrow> frame_header result" where
  "parse_skippable_frame_header src magic =
     (if length src < 8 then Err UnexpectedEof else
      and_then (idx_range src 4 8) (\<lambda>field.
      and_then (read_u32_le field) (\<lambda>size.
        Ok (Skippable \<lparr>skip_header_size = 8, magic_variant = ucast (magic - SKIPPABLE_MAGIC_BASE),
              skip_size = size\<rparr>))))"

definition parse_frame_header_with_format :: "bytes \<Rightarrow> format \<Rightarrow> frame_header result" where
  "parse_frame_header_with_format src fmt =
     (if fmt = Zstd1Magicless then parse_zstandard_frame_header src fmt
      else if length src < 4 then Err UnexpectedEof else
      and_then (idx_range src 0 4) (\<lambda>field.
      and_then (read_u32_le field) (\<lambda>magic.
        if magic = ZSTD_MAGIC_NUMBER then parse_zstandard_frame_header src fmt
        else if is_skippable_magic magic then parse_skippable_frame_header src magic
        else Err (BadMagic magic))))"

definition parse_frame_header :: "bytes \<Rightarrow> frame_header result" where
  "parse_frame_header src = parse_frame_header_with_format src Zstd1"

subsection \<open>Measuring frames\<close>

record frame_size_info =
  compressed_size :: usize
  decompressed_bound :: nat
  declared_size :: "nat option"

text \<open>The loop over the block headers: the position after the last block and the number of blocks.\<close>

function frame_blocks :: "bytes \<Rightarrow> usize \<Rightarrow> nat \<Rightarrow> (usize \<times> nat) result" where
  "frame_blocks src pos blocks =
     and_then (ok_or (get_from src pos) UnexpectedEof) (\<lambda>rest.
     and_then (parse_block_header rest) (\<lambda>bh.
     and_then (ok_or (checked_add BLOCK_HEADER_SIZE (payload_size bh)) OutputSizeOverflow) (\<lambda>advance.
     and_then (ok_or (checked_add pos advance) OutputSizeOverflow) (\<lambda>pos'.
       if length src < pos' then Err UnexpectedEof
       else if last_block bh then Ok (pos', blocks + 1)
       else frame_blocks src pos' (blocks + 1)))))"
  by pat_completeness auto
termination
  by (relation "measure (\<lambda>(src, pos, blocks). length src - pos)") (auto simp: BLOCK_HEADER_SIZE_def)

declare frame_blocks.simps [simp del]

definition measure_frame :: "bytes \<Rightarrow> format \<Rightarrow> frame_size_info result" where
  "measure_frame src fmt =
     and_then (parse_frame_header_with_format src fmt) (\<lambda>header.
     case header of
       Skippable s \<Rightarrow>
         and_then (ok_or (checked_add (skip_header_size s) (unat (skip_size s))) OutputSizeOverflow) (\<lambda>size.
           if length src < size then Err UnexpectedEof
           else Ok \<lparr>compressed_size = size, decompressed_bound = 0, declared_size = Some 0\<rparr>)
     | Zstandard h \<Rightarrow>
         and_then (frame_blocks src (header_size h) 0) (\<lambda>(pos, blocks).
         and_then (if checksum h
                   then and_then (ok_or (checked_add pos 4) OutputSizeOverflow) (\<lambda>pos.
                          if length src < pos then Err UnexpectedEof else Ok pos)
                   else Ok pos) (\<lambda>pos.
           Ok \<lparr>compressed_size = pos,
               decompressed_bound = (case content_size h of Some c \<Rightarrow> unat c
                 | None \<Rightarrow> saturating_mul blocks (unat (block_size_max h))),
               declared_size = map_option unat (content_size h)\<rparr>)))"

text \<open>The fold over the frames, with the \<open>debug_assert!\<close> that every frame is non-empty.\<close>

function each_frame :: "bytes \<Rightarrow> format \<Rightarrow> usize \<Rightarrow> 'a \<Rightarrow> ('a \<Rightarrow> frame_size_info \<Rightarrow> 'a result) \<Rightarrow> 'a result" where
  "each_frame src fmt pos acc f =
     (if pos < length src then
        and_then (idx_from src pos) (\<lambda>rest.
        and_then (measure_frame rest fmt) (\<lambda>info.
        and_then (f acc info) (\<lambda>acc.
          if compressed_size info = 0 then Fault
          else each_frame src fmt (pos + compressed_size info) acc f)))
      else Ok acc)"
  by pat_completeness auto
termination
  by (relation "measure (\<lambda>(src, fmt, pos, acc, f). length src - pos)") auto

declare each_frame.simps [simp del]

definition for_each_frame :: "bytes \<Rightarrow> format \<Rightarrow> 'a \<Rightarrow> ('a \<Rightarrow> frame_size_info \<Rightarrow> 'a result) \<Rightarrow> 'a result" where
  "for_each_frame src fmt acc f =
     (if src = [] then Err UnexpectedEof else each_frame src fmt 0 acc f)"

definition find_frame_compressed_size_with_format :: "bytes \<Rightarrow> format \<Rightarrow> usize result" where
  "find_frame_compressed_size_with_format src fmt =
     and_then (measure_frame src fmt) (\<lambda>info. Ok (compressed_size info))"

definition add_bound :: "nat \<Rightarrow> frame_size_info \<Rightarrow> nat result" where
  "add_bound acc info = ok_or (checked_add acc (decompressed_bound info)) OutputSizeOverflow"

definition decompress_bound_with_format :: "bytes \<Rightarrow> format \<Rightarrow> nat result" where
  "decompress_bound_with_format src fmt = for_each_frame src fmt 0 add_bound"

definition add_declared :: "nat option \<Rightarrow> frame_size_info \<Rightarrow> nat option result" where
  "add_declared acc info =
     (case acc of None \<Rightarrow> Ok None
      | Some t \<Rightarrow>
        (case declared_size info of None \<Rightarrow> Ok None
         | Some d \<Rightarrow> and_then (ok_or (checked_add t d) OutputSizeOverflow) (\<lambda>s. Ok (Some s))))"

definition decompressed_size_with_format :: "bytes \<Rightarrow> format \<Rightarrow> nat option result" where
  "decompressed_size_with_format src fmt = for_each_frame src fmt (Some 0) add_declared"

subsection \<open>Window descriptors\<close>

definition window_bytes :: "nat \<Rightarrow> nat" where
  "window_bytes k = 2 ^ (7 + k div 8) * (8 + k mod 8)"

lemma unat_window_candidate:
  assumes "e < 32" and "m < 8"
  shows "unat (window_candidate e m) = 2 ^ (7 + e) * (8 + m)"
proof -
  have "(2 :: nat) ^ (10 + e) \<le> 2 ^ 41" using assms by (intro power_increasing) auto
  then have small: "(2 :: nat) ^ (10 + e) < 2 ^ 64" by (rule le_less_trans) simp
  have base: "unat (push_bit (10 + e) (1 :: u64)) = 2 ^ (10 + e)"
  proof -
    have "push_bit (10 + e) (1 :: u64) = word_of_nat (2 ^ (10 + e))" by (simp add: push_bit_eq_mult)
    then show ?thesis using small by (simp only: unat_of_nat) simp
  qed
  have step: "unat (push_bit (10 + e) (1 :: u64) div 8) = 2 ^ (7 + e)"
    by (simp add: unat_div base power_add del: push_bit_of_1)
  have um: "unat (word_of_nat m :: u64) = m" using assms(2) by (simp add: unat_of_nat)
  have "(2 :: nat) ^ (7 + e) \<le> 2 ^ 38" using assms by (intro power_increasing) auto
  then have "2 ^ (7 + e) * m \<le> 2 ^ 38 * 8" using assms(2) by (intro mult_mono) auto
  then have prod: "unat (push_bit (10 + e) (1 :: u64) div 8 * word_of_nat m) = 2 ^ (7 + e) * m"
    by (simp only: unat_word_ariths(2) step um) simp
  have "(2 :: nat) ^ (10 + e) + 2 ^ (7 + e) * m < 2 ^ 64"
    using \<open>2 ^ (10 + e) \<le> 2 ^ 41\<close> \<open>2 ^ (7 + e) * m \<le> 2 ^ 38 * 8\<close> by simp
  then have "unat (window_candidate e m) = 2 ^ (10 + e) + 2 ^ (7 + e) * m"
    unfolding window_candidate_def Let_def by (simp only: unat_word_ariths(1) base prod) simp
  then show ?thesis by (simp add: power_add algebra_simps)
qed

lemma decode_window_candidate:
  "decode_window_descriptor d = window_candidate (unat d div 8) (unat d mod 8)"
proof -
  have e: "unat (drop_bit 3 d) = unat d div 8" by (simp only: unat_drop_bit_eq) (simp add: drop_bit_eq_div)
  have "d AND mask 3 = take_bit 3 d" by (simp add: take_bit_eq_mask)
  moreover have "unat (take_bit 3 d) = unat d mod 8"
    by (simp only: unsigned_take_bit_eq) (simp add: take_bit_eq_mod)
  ultimately have m: "unat (d AND 7) = unat d mod 8"
    by (simp add: mask_eq_exp_minus_1)
  have "unat d div 8 < 32" using unat_u8_less [of d] by simp
  then have "unat (10 + (ucast (drop_bit 3 d) :: u64)) = 10 + unat d div 8"
    by (simp add: unat_word_ariths unsigned_ucast_eq take_bit_nat_eq_self e)
  moreover have "(ucast (d AND 7) :: u64) = word_of_nat (unat d mod 8)"
    by (simp add: word_unat_eq_iff unsigned_ucast_eq m unat_of_nat take_bit_eq_mod)
  ultimately show ?thesis by (simp add: decode_window_descriptor_def window_candidate_def Let_def)
qed

lemma unat_decode_window: "unat (decode_window_descriptor d) = window_bytes (unat d)"
proof -
  have "unat d div 8 < 32" using unat_u8_less [of d] by simp
  then show ?thesis by (simp add: decode_window_candidate unat_window_candidate window_bytes_def)
qed

lemma window_bytes_mono: "j \<le> k \<Longrightarrow> window_bytes j \<le> window_bytes k"
proof (cases "j div 8 = k div 8")
  case True
  assume "j \<le> k"
  then have "j mod 8 \<le> k mod 8" using True by (metis add_le_cancel_left div_mult_mod_eq)
  then show ?thesis using True by (simp add: window_bytes_def)
next
  case False
  assume "j \<le> k"
  then have "Suc (j div 8) \<le> k div 8" using False div_le_mono [of j k 8] by linarith
  have "window_bytes j \<le> 2 ^ (7 + j div 8) * 16" by (simp add: window_bytes_def)
  also have "\<dots> = 2 ^ (7 + Suc (j div 8)) * 8" by (simp add: power_add)
  also have "\<dots> \<le> 2 ^ (7 + k div 8) * 8"
    using \<open>Suc (j div 8) \<le> k div 8\<close> by (intro mult_right_mono power_increasing) auto
  also have "\<dots> \<le> window_bytes k" by (simp add: window_bytes_def)
  finally show ?thesis .
qed

lemma window_pairs:
  "concat (map (\<lambda>e. map (Pair e) [0..<8]) [0..<32]) = map (\<lambda>k. (k div 8, k mod 8)) [0..<256 :: nat]"
  by code_simp

lemma find_upt_Some: "find P [0..<n] = Some k \<longleftrightarrow> k < n \<and> P k \<and> (\<forall>j<k. \<not> P j)"
  by (auto simp: find_Some_iff)

lemma find_map: "find P (map f xs) = map_option f (find (P \<circ> f) xs)"
  by (induction xs) auto

lemma descriptor_of_pair: "k < 256 \<Longrightarrow>
  unat (push_bit 3 (word_of_nat (k div 8)) OR word_of_nat (k mod 8) :: u8) = k"
proof -
  assume k: "k < 256"
  have "(push_bit 3 (word_of_nat (k div 8)) OR word_of_nat (k mod 8) :: u8)
      = word_of_nat (k mod 8) OR push_bit 3 (word_of_nat (k div 8))" by (simp only: or.commute)
  also have "\<dots> = word_of_nat (k mod 8) + push_bit 3 (word_of_nat (k div 8))"
  proof (rule or_push_bit_add, rule take_bit_word_self)
    have "k mod 8 mod 256 = k mod 8" by simp
    then show "unat (word_of_nat (k mod 8) :: u8) < 2 ^ 3" by (simp add: unat_word_of_nat_u8)
  qed
  also have "\<dots> = word_of_nat (k mod 8 + 8 * (k div 8))"
    by (simp only: push_bit_eq_mult of_nat_add of_nat_mult) simp
  finally show ?thesis using k by (simp add: unat_of_nat)
qed

lemma encode_window_find:
  "encode_window_descriptor ws =
     (case find (\<lambda>k. max (unat ws) 1024 \<le> window_bytes k) [0..<256] of
        Some k \<Rightarrow> Ok (word_of_nat k)
      | None \<Rightarrow> Err (InvalidParameter ''window_size is too large''))"
proof -
  have cand: "unat (window_candidate (k div 8) (k mod 8)) = window_bytes k" if "k < 256" for k
    using that by (simp add: unat_window_candidate window_bytes_def)
  have "max ws 1024 \<le> window_candidate (k div 8) (k mod 8) \<longleftrightarrow> max (unat ws) 1024 \<le> window_bytes k"
    if "k < 256" for k
    using cand [OF that] by (auto simp: word_le_nat_alt max_def)
  then have "find ((\<lambda>(e, m). max ws 1024 \<le> window_candidate e m) \<circ> (\<lambda>k. (k div 8, k mod 8))) [0..<256]
      = find (\<lambda>k. max (unat ws) 1024 \<le> window_bytes k) [0..<256]"
    by (intro find_cong) (auto simp del: upt_rec_numeral)
  moreover have "push_bit 3 (word_of_nat (k div 8)) OR word_of_nat (k mod 8) = (word_of_nat k :: u8)"
    if "find (\<lambda>k. max (unat ws) 1024 \<le> window_bytes k) [0..<256] = Some k" for k
  proof -
    have "k < 256" using that by (simp only: find_upt_Some)
    then show ?thesis using descriptor_of_pair [of k] by (simp only: word_unat_eq_iff unat_word_of_nat_u8) simp
  qed
  ultimately show ?thesis
    unfolding encode_window_descriptor_def Let_def window_pairs find_map
    by (simp del: upt_rec_numeral split: option.split)
qed

text \<open>The descriptor written is the smallest representable window that is large enough.\<close>

lemma encode_window_least:
  assumes "encode_window_descriptor ws = Ok d"
  shows "max (unat ws) 1024 \<le> unat (decode_window_descriptor d)"
    and "max (unat ws) 1024 \<le> unat (decode_window_descriptor d') \<Longrightarrow>
      unat (decode_window_descriptor d) \<le> unat (decode_window_descriptor d')"
proof -
  from assms obtain k where
    k: "find (\<lambda>k. max (unat ws) 1024 \<le> window_bytes k) [0..<256] = Some k" "d = word_of_nat k"
    by (auto simp: encode_window_find simp del: upt_rec_numeral split: option.splits)
  then have k': "k < 256" "max (unat ws) 1024 \<le> window_bytes k"
    "\<And>j. j < k \<Longrightarrow> \<not> max (unat ws) 1024 \<le> window_bytes j"
    by (simp_all only: find_upt_Some simp_thms)
  have d: "unat d = k" using k' by (simp add: k unat_of_nat)
  then show "max (unat ws) 1024 \<le> unat (decode_window_descriptor d)"
    using k' by (simp only: unat_decode_window)
  assume "max (unat ws) 1024 \<le> unat (decode_window_descriptor d')"
  then have "k \<le> unat d'" using k'(3) [of "unat d'"] by (simp only: unat_decode_window) (meson not_le)
  then show "unat (decode_window_descriptor d) \<le> unat (decode_window_descriptor d')"
    by (simp only: unat_decode_window d window_bytes_mono)
qed

lemma encode_window_Ok_iff: "(\<exists>d. encode_window_descriptor ws = Ok d) \<longleftrightarrow> unat ws \<le> 15 * 2 ^ 38"
proof -
  have top: "window_bytes 255 = 15 * 2 ^ 38" by (simp add: window_bytes_def)
  show ?thesis
  proof
    assume "\<exists>d. encode_window_descriptor ws = Ok d"
    then obtain d where "max (unat ws) 1024 \<le> window_bytes (unat (d :: u8))"
      using encode_window_least(1) [of ws] by (metis unat_decode_window)
    moreover have "window_bytes (unat d) \<le> window_bytes 255"
      using unat_u8_less [of d] by (intro window_bytes_mono) simp
    ultimately show "unat ws \<le> 15 * 2 ^ 38" by (simp add: top)
  next
    assume "unat ws \<le> 15 * 2 ^ 38"
    then have "max (unat ws) 1024 \<le> window_bytes 255" by (simp add: top)
    then have "find (\<lambda>k. max (unat ws) 1024 \<le> window_bytes k) [0..<256] \<noteq> None"
      by (auto simp: find_None_iff simp del: upt_rec_numeral)
    then show "\<exists>d. encode_window_descriptor ws = Ok d"
      by (auto simp: encode_window_find simp del: upt_rec_numeral)
  qed
qed

lemma encode_window_no_fault: "encode_window_descriptor ws \<noteq> Fault"
  by (simp add: encode_window_find del: upt_rec_numeral split: option.split)

end
