(* ===== verification/FrameParse.thy ===== *)
theory FrameParse
  imports Frame
begin

section \<open>Frame parsing: safety, locality and round trips\<close>

text \<open>
  Every header parser of \<open>src/src/frame.rs\<close> is self-delimiting: what it returns depends only
  on the bytes it says it used, and these are within the input. The interface is a locale;
  the frame header, the measured frame and the block header are instances. On top of it:
  the headers the encoder writes parse back to their fields, and the walk over concatenated
  frames visits exactly the frames.
\<close>

definition agree :: "nat \<Rightarrow> bytes \<Rightarrow> bytes \<Rightarrow> bool" where
  "agree n xs ys \<longleftrightarrow> n \<le> length xs \<and> n \<le> length ys \<and> take n xs = take n ys"

lemma agree_nth: "agree n xs ys \<Longrightarrow> i < n \<Longrightarrow> xs ! i = ys ! i"
  by (metis agree_def nth_take)

lemma agree_mono: "agree n xs ys \<Longrightarrow> m \<le> n \<Longrightarrow> agree m xs ys"
  by (auto simp: agree_def) (metis min.absorb1 take_take)

lemma agree_range: "agree n xs ys \<Longrightarrow> b \<le> n \<Longrightarrow> take (b - a) (drop a xs) = take (b - a) (drop a ys)"
  by (metis agree_def agree_mono take_drop drop_take)

lemma agree_drop: "agree n xs ys \<Longrightarrow> a \<le> n \<Longrightarrow> agree (n - a) (drop a xs) (drop a ys)"
  by (auto simp: agree_def) (metis drop_take)

lemma agree_append: "n \<le> length xs \<Longrightarrow> agree n xs (xs @ ys)"
  by (simp add: agree_def)

locale self_delimiting =
  fixes parse :: "bytes \<Rightarrow> 'a result"
    and used :: "'a \<Rightarrow> nat"
  assumes used_le: "parse src = Ok a \<Longrightarrow> used a \<le> length src"
    and used_pos: "parse src = Ok a \<Longrightarrow> 0 < used a"
    and stable: "parse src = Ok a \<Longrightarrow> agree (used a) src src' \<Longrightarrow> parse src' = Ok a"
    and no_fault: "parse src \<noteq> Fault"
begin

lemma extend: "parse src = Ok a \<Longrightarrow> parse (src @ rest) = Ok a"
  using stable [of src a "src @ rest"] agree_append [OF used_le [of src a], of rest] by simp

lemma trim: "parse src = Ok a \<Longrightarrow> parse (take (used a) src) = Ok a"
  using stable [of src a "take (used a) src"] used_le [of src a] by (simp add: agree_def)

text \<open>Two complete encodings that start the same input are the same encoding.\<close>

lemma prefix_free:
  assumes "parse x = Ok a" and "used a = length x" and "parse y = Ok b" and "used b = length y"
    and "x @ r = y @ s"
  shows "x = y \<and> a = b"
proof -
  have "parse (x @ r) = Ok a" using assms(1) by (rule extend)
  moreover have "parse (y @ s) = Ok b" using assms(3) by (rule extend)
  ultimately have "a = b" using assms(5) by simp
  then show ?thesis using assms by (auto simp: append_eq_append_conv)
qed

end

subsection \<open>Fields\<close>

lemma parse_window_field_props:
  assumes "parse_window_field src pos single = Ok (ws, p)"
  shows "pos \<le> p" and "pos \<le> length src \<Longrightarrow> p \<le> length src"
    and "agree p src src' \<Longrightarrow> parse_window_field src' pos single = Ok (ws, p)"
  using assms by (auto simp: parse_window_field_def agree_def nth_take split: if_splits) (metis lessI nth_take)

lemma parse_dictionary_id_field_props:
  assumes "parse_dictionary_id_field src pos n = Ok (d, p)"
  shows "pos \<le> p" and "pos \<le> length src \<Longrightarrow> p \<le> length src"
    and "agree p src src' \<Longrightarrow> parse_dictionary_id_field src' pos n = Ok (d, p)"
proof -
  show "pos \<le> p" "pos \<le> length src \<Longrightarrow> p \<le> length src"
    using assms by (auto simp: parse_dictionary_id_field_def split: if_splits)
  assume a: "agree p src src'"
  have "n \<noteq> 0 \<Longrightarrow> p = pos + n" using assms by (auto simp: parse_dictionary_id_field_def split: if_splits)
  then have "n \<noteq> 0 \<Longrightarrow> take n (drop pos src) = take n (drop pos src')"
    using agree_range [OF a, of p pos] by simp
  then show "parse_dictionary_id_field src' pos n = Ok (d, p)"
    using assms a by (auto simp: parse_dictionary_id_field_def agree_def split: if_splits)
qed

lemma parse_content_size_field_props:
  assumes "parse_content_size_field src pos n = Ok (c, p)"
  shows "pos \<le> p" and "pos \<le> length src \<Longrightarrow> p \<le> length src"
    and "agree p src src' \<Longrightarrow> parse_content_size_field src' pos n = Ok (c, p)"
proof -
  show "pos \<le> p" "pos \<le> length src \<Longrightarrow> p \<le> length src"
    using assms by (auto simp: parse_content_size_field_def split: if_splits)
  assume a: "agree p src src'"
  have "n \<noteq> 0 \<Longrightarrow> p = pos + n" using assms by (auto simp: parse_content_size_field_def split: if_splits)
  then have "n \<noteq> 0 \<Longrightarrow> take n (drop pos src) = take n (drop pos src')"
    using agree_range [OF a, of p pos] by simp
  then show "parse_content_size_field src' pos n = Ok (c, p)"
    using assms a by (auto simp: parse_content_size_field_def agree_def split: if_splits)
qed

lemma parse_dictionary_id_field_total:
  "n \<in> {0, 1, 2, 4} \<Longrightarrow> parse_dictionary_id_field src pos n \<noteq> Fault"
  by (auto simp: parse_dictionary_id_field_def min_def)

lemma parse_content_size_field_total: "parse_content_size_field src pos n \<noteq> Fault"
  by (auto simp: parse_content_size_field_def decode_frame_content_size_def split: if_splits)

lemma dictionary_id_field_size_cases: "dictionary_id_field_size d \<in> {0, 1, 2, 4}"
  by (simp add: dictionary_id_field_size_def Let_def)

lemma frame_content_size_field_size_total:
  "frame_content_size_field_size (unat (drop_bit 6 (d :: u8))) single \<noteq> Fault"
proof -
  have "unat (drop_bit 6 d) = unat d div 64" by (simp only: unat_drop_bit_eq) (simp add: drop_bit_eq_div)
  then have "unat (drop_bit 6 d) < 4" using unat_u8_less [of d] by simp
  then have "unat (drop_bit 6 d) = 0 \<or> unat (drop_bit 6 d) = 1 \<or> unat (drop_bit 6 d) = 2 \<or> unat (drop_bit 6 d) = 3"
    by linarith
  then show ?thesis by auto
qed

subsection \<open>The frame header\<close>

fun fh_used :: "frame_header \<Rightarrow> usize" where
  "fh_used (Zstandard h) = header_size h"
| "fh_used (Skippable s) = skip_header_size s"

lemma parse_zstandard_no_fault: "parse_zstandard_frame_header src fmt \<noteq> Fault"
  by (auto simp: parse_zstandard_frame_header_def Let_def parse_content_size_field_total
      frame_content_size_field_size_total parse_dictionary_id_field_total [OF dictionary_id_field_size_cases]
      parse_window_field_def simp del: frame_content_size_field_size.simps split: if_splits)

lemma parse_zstandard_props:
  assumes "parse_zstandard_frame_header src fmt = Ok h"
  shows "magic_size fmt < fh_used h" and "fh_used h \<le> length src"
    and "agree (fh_used h) src src' \<Longrightarrow> parse_zstandard_frame_header src' fmt = Ok h"
proof -
  from assms obtain d n ws p1 did p2 cs p3 ws' where d: "magic_size fmt < length src"
      "d = src ! magic_size fmt" "d AND RESERVED_BIT = 0"
    and n: "frame_content_size_field_size (unat (drop_bit 6 d)) (d AND push_bit 5 1 \<noteq> 0) = Ok n"
    and w: "parse_window_field src (magic_size fmt + 1) (d AND push_bit 5 1 \<noteq> 0) = Ok (ws, p1)"
    and i: "parse_dictionary_id_field src p1 (dictionary_id_field_size d) = Ok (did, p2)"
    and c: "parse_content_size_field src p2 n = Ok (cs, p3)"
    and s: "(if d AND push_bit 5 1 \<noteq> 0
        then ok_or cs (Corruption ''single-segment frames must include a content size'') else Ok ws) = Ok ws'"
    and h: "h = Zstandard \<lparr>header_size = p3, window_size = ws',
                block_size_max = ucast (min ws' (word_of_nat BLOCK_SIZE_MAX)), content_size = cs,
                dictionary_id = did, checksum = (d AND push_bit 2 1 \<noteq> 0),
                single_segment = (d AND push_bit 5 1 \<noteq> 0)\<rparr>"
    by (simp only: parse_zstandard_frame_header_def Let_def run_simps ok_or_Ok slice_get_Some not_not) blast
  note P = parse_window_field_props [OF w] parse_dictionary_id_field_props [OF i]
    parse_content_size_field_props [OF c]
  show "magic_size fmt < fh_used h" using P(1,4,7) by (simp add: h)
  show "fh_used h \<le> length src" using P(2,5,8) d(1) by (simp add: h)
  assume "agree (fh_used h) src src'"
  then have a: "agree p3 src src'" by (simp add: h)
  have "agree p2 src src'" "agree p1 src src'" using a P(4,7) agree_mono by (blast intro: le_trans)+
  note r = P(3) [OF this(2)] P(6) [OF this(1)] P(9) [OF a]
  have "magic_size fmt < p3" using P(1,4,7) by simp
  then have "magic_size fmt < length src'" "src' ! magic_size fmt = d"
    using a d(2) agree_nth [OF a, of "magic_size fmt"] by (auto simp: agree_def)
  then show "parse_zstandard_frame_header src' fmt = Ok h"
    using d(3) n r s by (simp add: parse_zstandard_frame_header_def Let_def slice_get_def h
        del: frame_content_size_field_size.simps)
qed

lemma agree_magic:
  "agree n xs ys \<Longrightarrow> 4 \<le> n \<Longrightarrow> 4 \<le> length xs \<and> 4 \<le> length ys \<and> take 4 xs = take 4 ys"
  using agree_mono [of n xs ys 4] by (simp add: agree_def)

lemma parse_skippable_props:
  assumes "parse_skippable_frame_header src magic = Ok h"
  shows "fh_used h = 8" and "8 \<le> length src"
    and "agree 8 src src' \<Longrightarrow> parse_skippable_frame_header src' magic = Ok h"
proof -
  show "fh_used h = 8" "8 \<le> length src"
    using assms by (auto simp: parse_skippable_frame_header_def split: if_splits)
  assume a: "agree 8 src src'"
  show "parse_skippable_frame_header src' magic = Ok h"
    using assms a agree_range [OF a, of 8 4]
    by (auto simp: parse_skippable_frame_header_def agree_def split: if_splits)
qed

lemma parse_frame_header_props:
  assumes "parse_frame_header_with_format src fmt = Ok h"
  shows "magic_size fmt < fh_used h" and "fh_used h \<le> length src"
    and "agree (fh_used h) src src' \<Longrightarrow> parse_frame_header_with_format src' fmt = Ok h"
proof -
  consider (free) "fmt = Zstd1Magicless" "parse_zstandard_frame_header src fmt = Ok h"
    | (zstd) "fmt = Zstd1" "4 \<le> length src" "word_of_nat (le_nat (take 4 src)) = ZSTD_MAGIC_NUMBER"
        "parse_zstandard_frame_header src fmt = Ok h"
    | (skip) m where "fmt = Zstd1" "4 \<le> length src" "m = word_of_nat (le_nat (take 4 src))"
        "m \<noteq> ZSTD_MAGIC_NUMBER" "is_skippable_magic m" "parse_skippable_frame_header src m = Ok h"
    using assms by (cases fmt) (auto simp: parse_frame_header_with_format_def split: if_splits)
  then have "magic_size fmt < fh_used h \<and> fh_used h \<le> length src \<and>
      (agree (fh_used h) src src' \<longrightarrow> parse_frame_header_with_format src' fmt = Ok h)"
  proof cases
    case free
    then show ?thesis
      using parse_zstandard_props [OF free(2)] by (simp add: parse_frame_header_with_format_def)
  next
    case zstd
    then show ?thesis
      using parse_zstandard_props [OF zstd(4)] agree_magic [of "fh_used h" src src']
      by (auto simp: parse_frame_header_with_format_def)
  next
    case skip
    then show ?thesis
      using parse_skippable_props [OF skip(6)] agree_magic [of "fh_used h" src src']
      by (auto simp: parse_frame_header_with_format_def)
  qed
  then show "magic_size fmt < fh_used h" "fh_used h \<le> length src"
    "agree (fh_used h) src src' \<Longrightarrow> parse_frame_header_with_format src' fmt = Ok h" by auto
qed

lemma parse_frame_header_no_fault: "parse_frame_header_with_format src fmt \<noteq> Fault"
  by (auto simp: parse_frame_header_with_format_def parse_zstandard_no_fault
      parse_skippable_frame_header_def read_u32_le_def)

interpretation header: self_delimiting "\<lambda>src. parse_frame_header_with_format src fmt" fh_used for fmt
  by unfold_locales
    (use parse_frame_header_props parse_frame_header_no_fault gr_implies_not0 in \<open>blast | force\<close>)+

subsection \<open>Measuring\<close>

lemma parse_block_header_agree:
  "parse_block_header src = Ok bh \<Longrightarrow> agree 3 src src' \<Longrightarrow> parse_block_header src' = Ok bh"
  by (auto simp: parse_block_header_def BLOCK_HEADER_SIZE_def Let_def agree_def split: if_splits)

interpretation block: self_delimiting parse_block_header "\<lambda>_. 3"
proof unfold_locales
  fix src a src'
  show "parse_block_header src \<noteq> Fault"
    using meets_no_fault [OF parse_block_header_no_fault] .
  assume a: "parse_block_header src = Ok a"
  show "3 \<le> length src" using parse_block_header_no_fault [of src] a by simp
  assume "agree 3 src src'"
  with a show "parse_block_header src' = Ok a" by (rule parse_block_header_agree)
qed simp

lemma frame_blocks_step:
  assumes "frame_blocks src pos n = Ok (p, m)"
  obtains bh where "pos + 3 \<le> length src" and "parse_block_header (drop pos src) = Ok bh"
    and "pos + 3 + payload_size bh \<le> length src" and "pos + 3 + payload_size bh \<le> usize_max"
    and "if last_block bh then p = pos + 3 + payload_size bh \<and> m = n + 1
         else frame_blocks src (pos + 3 + payload_size bh) (n + 1) = Ok (p, m)"
proof -
  from assms obtain bh where bh: "pos \<le> length src" "parse_block_header (drop pos src) = Ok bh"
      "pos + (3 + payload_size bh) \<le> usize_max" "pos + (3 + payload_size bh) \<le> length src"
      "(if last_block bh then Ok (pos + (3 + payload_size bh), n + 1)
        else frame_blocks src (pos + (3 + payload_size bh)) (n + 1)) = Ok (p, m)"
    by (subst (asm) frame_blocks.simps)
      (simp only: BLOCK_HEADER_SIZE_def run_simps ok_or_Ok get_from_Some checked_add_Some not_less, blast)
  then show thesis
    using that [of bh] block.used_le [OF bh(2)] by (auto simp: add.assoc split: if_splits)
qed

lemma frame_blocks_props:
  "frame_blocks src pos n = Ok (p, m) \<Longrightarrow>
   pos + 3 * (m - n) \<le> p \<and> n < m \<and> p \<le> length src
   \<and> (agree p src src' \<longrightarrow> frame_blocks src' pos n = Ok (p, m))"
proof (induction "length src - pos" arbitrary: pos n rule: less_induct)
  case less
  from frame_blocks_step [OF less.prems] obtain bh where bh: "pos + 3 \<le> length src"
    "parse_block_header (drop pos src) = Ok bh"
    "pos + 3 + payload_size bh \<le> length src" "pos + 3 + payload_size bh \<le> usize_max"
    "if last_block bh then p = pos + 3 + payload_size bh \<and> m = n + 1
     else frame_blocks src (pos + 3 + payload_size bh) (n + 1) = Ok (p, m)" .
  let ?q = "pos + 3 + payload_size bh"
  have step: "frame_blocks src' pos n = Ok (p, m)"
    if a: "agree p src src'" and q: "?q \<le> p"
      and r: "\<not> last_block bh \<Longrightarrow> frame_blocks src' ?q (n + 1) = Ok (p, m)"
  proof -
    have "agree (p - pos) (drop pos src) (drop pos src')" using agree_drop [OF a] q by simp
    then have "agree 3 (drop pos src) (drop pos src')" by (rule agree_mono) (use q in simp)
    then have "parse_block_header (drop pos src') = Ok bh" by (rule block.stable [OF bh(2)])
    moreover have "?q \<le> length src'" using a q by (auto simp: agree_def)
    ultimately show ?thesis
      using r bh(4,5) q
      by (subst frame_blocks.simps)
        (auto simp: get_from_def checked_add_def BLOCK_HEADER_SIZE_def add.assoc split: if_splits)
  qed
  show ?case
  proof (cases "last_block bh")
    case True
    then show ?thesis using bh step by auto
  next
    case False
    with bh(5) have r: "frame_blocks src ?q (n + 1) = Ok (p, m)" by simp
    have "length src - ?q < length src - pos" using bh(1) by simp
    from less.hyps [OF this r] False step show ?thesis by auto
  qed
qed

lemma frame_blocks_bounds:
  assumes "frame_blocks src pos n = Ok (p, m)"
  shows "pos + 3 * (m - n) \<le> p" and "n < m" and "p \<le> length src" and "pos \<le> p" and "0 < p"
  using frame_blocks_props [OF assms, of src] by auto

lemma frame_blocks_agree:
  "frame_blocks src pos n = Ok (p, m) \<Longrightarrow> agree p src src' \<Longrightarrow> frame_blocks src' pos n = Ok (p, m)"
  using frame_blocks_props by blast

lemma frame_blocks_no_fault: "frame_blocks src pos n \<noteq> Fault"
proof (induction src pos n rule: frame_blocks.induct)
  case (1 src pos n)
  then show ?case
    by (subst frame_blocks.simps) (simp add: block.no_fault split: if_split)
qed

lemma measure_frame_Ok:
  assumes "measure_frame src fmt = Ok i"
  obtains (skip) s where "parse_frame_header_with_format src fmt = Ok (Skippable s)"
      and "compressed_size i = skip_header_size s + unat (skip_size s)" and "compressed_size i \<le> usize_max"
      and "compressed_size i \<le> length src" and "decompressed_bound i = 0" and "declared_size i = Some 0"
    | (zstd) h p n where "parse_frame_header_with_format src fmt = Ok (Zstandard h)"
      and "frame_blocks src (header_size h) 0 = Ok (p, n)"
      and "compressed_size i = (if checksum h then p + 4 else p)" and "compressed_size i \<le> length src"
      and "checksum h \<longrightarrow> p + 4 \<le> usize_max"
      and "decompressed_bound i = (case content_size h of Some c \<Rightarrow> unat c
             | None \<Rightarrow> saturating_mul n (unat (block_size_max h)))"
      and "declared_size i = map_option unat (content_size h)"
proof -
  from assms obtain h where h: "parse_frame_header_with_format src fmt = Ok h"
    by (simp only: measure_frame_def and_then_Ok) blast
  show thesis
  proof (cases h)
    case (Skippable s)
    then show thesis
      using assms h by (intro skip [of s]) (auto simp: measure_frame_def split: if_splits)
  next
    case (Zstandard z)
    with assms h obtain p n where f: "frame_blocks src (header_size z) 0 = Ok (p, n)"
      by (auto simp: measure_frame_def)
    then show thesis
      using assms h Zstandard frame_blocks_bounds(3) [OF f]
      by (intro zstd [of z p n]) (auto simp: measure_frame_def split: if_splits)
  qed
qed

lemma measure_frame_no_fault: "measure_frame src fmt \<noteq> Fault"
  by (auto simp: measure_frame_def header.no_fault frame_blocks_no_fault split: frame_header.split if_splits)

lemma measure_frame_agree:
  assumes "measure_frame src fmt = Ok i" and a: "agree (compressed_size i) src src'"
  shows "measure_frame src' fmt = Ok i"
  using assms(1)
proof (cases rule: measure_frame_Ok)
  case (skip s)
  have "skip_header_size s \<le> compressed_size i" using skip(2) by simp
  then have "agree (fh_used (Skippable s)) src src'" using agree_mono [OF a] by simp
  from header.stable [OF skip(1) this] show ?thesis
    using skip a assms(1) by (auto simp: measure_frame_def agree_def)
next
  case (zstd h p n)
  have p: "p \<le> compressed_size i" using zstd(3) by simp
  then have ap: "agree p src src'" by (rule agree_mono [OF a])
  note fb = frame_blocks_agree [OF zstd(2) ap]
  have "header_size h \<le> p" using frame_blocks_bounds(4) [OF zstd(2)] .
  then have "agree (fh_used (Zstandard h)) src src'" using agree_mono [OF ap] by simp
  from header.stable [OF zstd(1) this] fb show ?thesis
    using zstd a assms(1) by (auto simp: measure_frame_def agree_def split: if_splits)
qed

interpretation measured: self_delimiting "\<lambda>src. measure_frame src fmt" compressed_size for fmt
proof unfold_locales
  fix src a src'
  show "measure_frame src fmt \<noteq> Fault" by (rule measure_frame_no_fault)
  assume m: "measure_frame src fmt = Ok a"
  from m show "compressed_size a \<le> length src" by (cases rule: measure_frame_Ok) auto
  from m show "0 < compressed_size a"
  proof (cases rule: measure_frame_Ok)
    case (skip s)
    then show ?thesis using header.used_pos [OF skip(1)] by simp
  next
    case (zstd h p n)
    then show ?thesis using frame_blocks_bounds [OF zstd(2)] by auto
  qed
  assume "agree (compressed_size a) src src'"
  with m show "measure_frame src' fmt = Ok a" by (rule measure_frame_agree)
qed

subsection \<open>Concatenated frames\<close>

fun fold_ok :: "('a \<Rightarrow> 'i \<Rightarrow> 'a result) \<Rightarrow> 'a \<Rightarrow> 'i list \<Rightarrow> 'a result" where
  "fold_ok f acc [] = Ok acc"
| "fold_ok f acc (i # is) = and_then (f acc i) (\<lambda>acc'. fold_ok f acc' is)"

definition is_frame :: "format \<Rightarrow> bytes \<Rightarrow> frame_size_info \<Rightarrow> bool" where
  "is_frame fmt fr i \<longleftrightarrow> measure_frame fr fmt = Ok i \<and> compressed_size i = length fr"

lemma each_frame_frames:
  "list_all2 (is_frame fmt) frs is \<Longrightarrow>
   each_frame (pre @ concat frs) fmt (length pre) acc f = fold_ok f acc is"
proof (induction frs "is" arbitrary: pre acc rule: list_all2_induct)
  case Nil
  then show ?case by (simp add: each_frame.simps)
next
  case (Cons fr frs i "is")
  from Cons.hyps have m: "measure_frame fr fmt = Ok i" and sz: "compressed_size i = length fr"
    by (auto simp: is_frame_def)
  have nz: "fr \<noteq> []" using measured.used_pos [OF m] sz by auto
  have IH: "each_frame (pre @ fr @ concat frs) fmt (length pre + length fr) acc' f = fold_ok f acc' is" for acc'
    using Cons.IH [of "pre @ fr" acc'] by simp
  show ?case
    using nz measured.extend [OF m, of "concat frs"] sz
    by (subst each_frame.simps) (simp add: idx_from_def IH cong: and_then_cong)
qed

lemma for_each_frame_frames:
  assumes "list_all2 (is_frame fmt) frs is" and "frs \<noteq> []"
  shows "for_each_frame (concat frs) fmt acc f = fold_ok f acc is"
proof -
  obtain fr frs' where f: "frs = fr # frs'" using assms(2) by (cases frs) auto
  obtain i where "measure_frame fr fmt = Ok i" "compressed_size i = length fr"
    using assms(1) by (auto simp: f list_all2_Cons1 is_frame_def)
  then have "concat frs \<noteq> []" using measured.used_pos [of fr fmt i] by (auto simp: f)
  then show ?thesis
    using each_frame_frames [OF assms(1), of "[]" acc f]
    by (simp only: for_each_frame_def append_Nil list.size(3) if_False)
qed

lemma each_frame_no_fault:
  "(\<And>a i. f a i \<noteq> Fault) \<Longrightarrow> pos \<le> length src \<Longrightarrow> each_frame src fmt pos acc f \<noteq> Fault"
proof (induction "length src - pos" arbitrary: pos acc rule: less_induct)
  case less
  show ?case
  proof (cases "pos < length src")
    case True
    have "each_frame src fmt (pos + compressed_size i) acc' f \<noteq> Fault"
      if "measure_frame (drop pos src) fmt = Ok i" for i acc'
      using measured.used_le [OF that] measured.used_pos [OF that] True less.prems
      by (intro less.hyps) auto
    moreover have "0 < compressed_size i" if "measure_frame (drop pos src) fmt = Ok i" for i
      using measured.used_pos [OF that] .
    ultimately show ?thesis
      using True less.prems by (subst each_frame.simps) (auto simp: measure_frame_no_fault)
  next
    case False
    then show ?thesis by (simp add: each_frame.simps)
  qed
qed

lemma fold_add_bound:
  "fold_ok add_bound acc is = (let s = acc + sum_list (map decompressed_bound is) in
     if is = [] \<or> s \<le> usize_max then Ok s else Err OutputSizeOverflow)"
proof (induction "is" arbitrary: acc)
  case (Cons i "is")
  show ?case
  proof (cases "acc + decompressed_bound i \<le> usize_max")
    case True
    then show ?thesis
      using Cons [of "acc + decompressed_bound i"]
      by (simp add: add_bound_def checked_add_def Let_def add.assoc)
  next
    case False
    then show ?thesis by (simp add: add_bound_def checked_add_def Let_def)
  qed
qed (simp add: Let_def)

subsection \<open>Headers written and read back\<close>

text \<open>The descriptor byte, and what the parser reads in it.\<close>

definition descriptor_byte :: "u8 \<Rightarrow> bool \<Rightarrow> bool \<Rightarrow> u8 \<Rightarrow> u8" where
  "descriptor_byte f single ck df =
     push_bit 6 f OR (if single then 32 else 0) OR (if ck then 4 else 0) OR df"

lemma descriptor_byte_reads:
  assumes "f \<in> {0, 1, 2, 3}" and "df \<in> {0, 1, 2, 3}"
  shows "descriptor_byte f single ck df AND RESERVED_BIT = 0"
    and "descriptor_byte f single ck df AND push_bit 5 1 \<noteq> 0 \<longleftrightarrow> single"
    and "descriptor_byte f single ck df AND push_bit 2 1 \<noteq> 0 \<longleftrightarrow> ck"
    and "descriptor_byte f single ck df AND 3 = df"
    and "unat (drop_bit 6 (descriptor_byte f single ck df)) = unat f"
  using assms by (auto simp: descriptor_byte_def RESERVED_BIT_def drop_bit_eq_div push_bit_eq_mult)

text \<open>The optional fields as bytes, and their readers.\<close>

definition norm_id :: "u32 option \<Rightarrow> u32 option" where
  "norm_id did = (case did of None \<Rightarrow> None | Some d \<Rightarrow> if d = 0 then None else Some d)"

lemma encode_dictionary_id_read:
  assumes "encode_dictionary_id did = (f, bs)" and "length pre + 4 \<le> usize_max"
  shows "f \<in> {0, 1, 2, 3}" and "dictionary_id_field_size d' = length bs \<or> d' AND 3 \<noteq> f"
    and "parse_dictionary_id_field (pre @ bs @ rest) (length pre) (length bs)
           = Ok (norm_id did, length pre + length bs)"
proof -
  have "(f \<in> {0, 1, 2, 3}) \<and> (dictionary_id_field_size d' = length bs \<or> d' AND 3 \<noteq> f) \<and>
    parse_dictionary_id_field (pre @ bs @ rest) (length pre) (length bs)
           = Ok (norm_id did, length pre + length bs)"
  proof (cases "norm_id did")
    case None
    then have "f = 0" "bs = []"
      using assms(1) by (auto simp: encode_dictionary_id_def norm_id_def split: option.splits if_splits)
    then show ?thesis using None
      by (auto simp: dictionary_id_field_size_def Let_def parse_dictionary_id_field_def)
  next
    case (Some d)
    then have d: "did = Some d" "d \<noteq> 0" by (auto simp: norm_id_def split: option.splits if_splits)
    have le: "(d \<le> 255 \<longleftrightarrow> unat d < 256)" "(d \<le> 65535 \<longleftrightarrow> unat d < 65536)"
      by (auto simp: word_le_nat_alt)
    have "le_nat bs = unat d \<and> (f = 1 \<and> length bs = 1 \<or> f = 2 \<and> length bs = 2 \<or> f = 3 \<and> length bs = 4)"
      using assms(1) d le unat_u32_less [of d]
      by (auto simp: encode_dictionary_id_def bytes_simps unsigned_ucast_eq take_bit_eq_mod split: if_splits)
    then show ?thesis
      using assms(2) d Some
      by (auto simp: dictionary_id_field_size_def Let_def parse_dictionary_id_field_def
          checked_add_def get_range_def)
  qed
  then show "f \<in> {0, 1, 2, 3}" and "dictionary_id_field_size d' = length bs \<or> d' AND 3 \<noteq> f"
    and "parse_dictionary_id_field (pre @ bs @ rest) (length pre) (length bs)
           = Ok (norm_id did, length pre + length bs)" by blast+
qed

lemma encode_content_size_read:
  assumes "encode_frame_content_size cs = (f, bs)" and "length pre + 8 \<le> usize_max"
  shows "f \<in> {0, 1, 2, 3}"
    and "frame_content_size_field_size (unat f) single = (if f = 0 \<and> \<not> single then Ok 0 else Ok (length bs))"
    and "f = 0 \<longleftrightarrow> unat cs < 256"
    and "parse_content_size_field (pre @ bs @ rest) (length pre) (length bs)
           = Ok (Some cs, length pre + length bs)"
proof -
  have le: "(cs \<le> 255 \<longleftrightarrow> unat cs < 256)" "(cs \<le> 65791 \<longleftrightarrow> unat cs < 65792)"
    "(cs \<le> 4294967295 \<longleftrightarrow> unat cs < 4294967296)" by (auto simp: word_le_nat_alt)
  have sub: "unat (cs - 256) = unat cs - 256" if "256 \<le> unat cs"
    using that unat_u64_less [of cs] by (simp add: unat_sub_if_size word_le_nat_alt)
  have sub2: "unat (ucast (cs - 256) :: u16) = unat cs - 256" if "256 \<le> unat cs" "unat cs < 65792"
    using that sub by (simp add: unsigned_ucast_eq take_bit_eq_mod)
  consider "unat cs < 256" "f = 0" "length bs = 1" "le_nat bs = unat cs"
    | "256 \<le> unat cs" "unat cs < 65792" "f = 1" "length bs = 2" "le_nat bs = unat cs - 256"
    | "65792 \<le> unat cs" "f = 2" "length bs = 4" "le_nat bs = unat cs"
    | "65792 \<le> unat cs" "f = 3" "length bs = 8" "le_nat bs = unat cs"
    using assms(1) le sub2 unat_u64_less [of cs]
    by (auto simp: encode_frame_content_size_def bytes_simps unsigned_ucast_eq take_bit_eq_mod split: if_splits)
  note cases = this
  show "f \<in> {0, 1, 2, 3}" using cases by cases auto
  show "f = 0 \<longleftrightarrow> unat cs < 256" using cases by cases auto
  show "frame_content_size_field_size (unat f) single = (if f = 0 \<and> \<not> single then Ok 0 else Ok (length bs))"
    using cases by cases auto
  have "decode_frame_content_size bs = Ok cs"
    using cases
  proof cases
    case 2
    have "(word_of_nat (unat cs - 256) :: u64) + 256 = word_of_nat (unat cs - 256 + 256)"
      by (simp only: of_nat_add) simp
    then show ?thesis using 2 by (simp add: decode_frame_content_size_def)
  qed (simp_all add: decode_frame_content_size_def)
  moreover have "length bs \<noteq> 0" "length bs \<le> 8" using cases by (cases, simp_all)+
  ultimately show "parse_content_size_field (pre @ bs @ rest) (length pre) (length bs)
           = Ok (Some cs, length pre + length bs)"
    using assms(2) by (simp add: parse_content_size_field_def checked_add_def get_range_def)
qed

definition magic_bytes :: "format \<Rightarrow> bytes" where
  "magic_bytes fmt = (if fmt = Zstd1 then le_bytes 4 (unat ZSTD_MAGIC_NUMBER) else [])"

lemma length_magic_bytes [simp]: "length (magic_bytes fmt) = magic_size fmt"
  by (cases fmt) (simp_all add: magic_bytes_def)

lemma magic_size_le: "magic_size fmt \<le> 4"
  by (cases fmt) auto

lemma parse_with_magic:
  "parse_frame_header_with_format (magic_bytes fmt @ body) fmt
   = parse_zstandard_frame_header (magic_bytes fmt @ body) fmt"
  by (cases fmt)
    (simp_all add: parse_frame_header_with_format_def magic_bytes_def idx_range_def read_u32_le_def
      bytes_simps ZSTD_MAGIC_NUMBER_def)

text \<open>A header with the four groups of fields in place parses to them.\<close>

lemma parse_fields:
  assumes ids: "encode_dictionary_id did = (df, ib)"
    and f: "f \<in> {0, 1, 2, 3}"
    and n: "frame_content_size_field_size (unat f) single = Ok (length fb)"
    and wb: "wb = (if single then [] else [wd])"
    and fcs: "\<And>pre. length pre + 8 \<le> usize_max \<Longrightarrow>
        parse_content_size_field (pre @ fb @ rest) (length pre) (length fb) = Ok (cs, length pre + length fb)"
    and single: "single \<Longrightarrow> cs = Some ws" and windowed: "\<not> single \<Longrightarrow> ws = decode_window_descriptor wd"
  shows "parse_frame_header_with_format
      (magic_bytes fmt @ [descriptor_byte f single ck df] @ wb @ ib @ fb @ rest) fmt
    = Ok (Zstandard \<lparr>header_size = magic_size fmt + 1 + length wb + length ib + length fb,
        window_size = ws, block_size_max = ucast (min ws (word_of_nat BLOCK_SIZE_MAX)),
        content_size = cs, dictionary_id = norm_id did, checksum = ck, single_segment = single\<rparr>)"
proof -
  let ?d = "descriptor_byte f single ck df"
  let ?src = "magic_bytes fmt @ [?d] @ wb @ ib @ fb @ rest"
  let ?p1 = "magic_size fmt + 1 + length wb"
  note idr = encode_dictionary_id_read [OF ids]
  have sz: "length ib \<le> 4" using ids
    by (auto simp: encode_dictionary_id_def split: option.splits if_splits)
  have wbl: "length wb \<le> 1" by (simp add: wb)
  have df: "df \<in> {0, 1, 2, 3}" by (rule idr(1) [of "[]"]) (simp add: usize_max_def)
  note rd = descriptor_byte_reads [OF f df, of single ck]
  have idsz: "dictionary_id_field_size ?d = length ib"
    using idr(2) [of "[]" ?d] rd(4) by (simp add: usize_max_def)
  have d: "slice_get ?src (magic_size fmt) = Some ?d"
    by (simp add: nth_append)
  have w: "parse_window_field ?src (magic_size fmt + 1) single = Ok (if single then 0 else ws, ?p1)"
    using windowed by (auto simp: parse_window_field_def wb slice_get_def nth_append)
  have i: "parse_dictionary_id_field ?src ?p1 (length ib) = Ok (norm_id did, ?p1 + length ib)"
    using idr(3) [of "magic_bytes fmt @ [?d] @ wb" "fb @ rest"] magic_size_le [of fmt] wbl
    by (simp add: usize_max_def add.assoc)
  have c: "parse_content_size_field ?src (?p1 + length ib) (length fb)
      = Ok (cs, ?p1 + length ib + length fb)"
    using fcs [of "magic_bytes fmt @ [?d] @ wb @ ib"] magic_size_le [of fmt] wbl sz
    by (simp add: usize_max_def add.assoc)
  have "parse_zstandard_frame_header ?src fmt = Ok (Zstandard \<lparr>header_size = ?p1 + length ib + length fb,
        window_size = ws, block_size_max = ucast (min ws (word_of_nat BLOCK_SIZE_MAX)),
        content_size = cs, dictionary_id = norm_id did, checksum = ck, single_segment = single\<rparr>)"
    unfolding parse_zstandard_frame_header_def d ok_or.simps and_then.simps rd(1-3,5) Let_def n w i c idsz
      prod.case
    using single by (cases single) auto
  then show ?thesis by (simp only: parse_with_magic)
qed

lemma parse_no_content_size: "parse_content_size_field src pos 0 = Ok (None, pos)"
  by (simp add: parse_content_size_field_def)

text \<open>The writers as runs of sink operations, whatever the sink.\<close>

definition header_ops :: "format \<Rightarrow> u8 \<Rightarrow> bytes \<Rightarrow> sink_op list \<Rightarrow> sink_op list" where
  "header_ops fmt d wb flds =
     (if fmt = Zstd1 then [Extend (magic_bytes fmt)] else []) @ Push d # map Push wb @ flds"

lemma outbuf_run_append: "outbuf_run out (as @ bs) = and_then (outbuf_run out as) (\<lambda>o'. outbuf_run o' bs)"
  by (induction as arbitrary: out) (auto simp: and_then_assoc)

lemma header_ops_bytes:
  "foldl spec_step g (header_ops fmt d wb flds) = foldl spec_step (g @ magic_bytes fmt @ [d] @ wb) flds"
proof -
  have "foldl spec_step h (map Push wb) = h @ wb" for h by (induction wb arbitrary: h) auto
  then show ?thesis by (cases fmt) (simp_all add: header_ops_def magic_bytes_def)
qed

lemma header_ops_pre: "ops_pre cap g (header_ops fmt d wb [Extend a, Extend b])"
  "ops_pre cap g (header_ops fmt d wb [Extend a])"
proof -
  have "ops_pre cap h (map Push wb @ flds)" if "\<And>h. ops_pre cap h flds" for h flds
    using that by (induction wb arbitrary: h) auto
  then show "ops_pre cap g (header_ops fmt d wb [Extend a, Extend b])"
    "ops_pre cap g (header_ops fmt d wb [Extend a])"
    by (simp_all add: header_ops_def)
qed

lemma run_header_ops:
  "outbuf_run dst (header_ops fmt d wb flds) =
     and_then (write_frame_magic dst fmt) (\<lambda>dst. outbuf_run dst (Push d # map Push wb @ flds))"
  by (cases fmt) (simp_all add: header_ops_def write_frame_magic_def magic_bytes_def)

lemma flag_bits: "push_bit 5 (1 :: u8) = 32" "push_bit 2 (1 :: u8) = 4"
  by simp_all

lemma write_single_segment_ops:
  assumes "encode_frame_content_size cs = (f, fb)" and "encode_dictionary_id did = (df, ib)"
  shows "write_single_segment_header_with_dict dst cs ck did fmt =
    outbuf_run dst (header_ops fmt (descriptor_byte f True ck df) [] [Extend ib, Extend fb])"
proof -
  have d: "(if ck then (push_bit 6 f OR push_bit 5 1) OR push_bit 2 1 else push_bit 6 f OR push_bit 5 1) OR df
      = descriptor_byte f True ck df"
    by (cases ck) (simp_all only: descriptor_byte_def or.assoc flag_bits if_True if_False or.left_neutral)
  have "outbuf_run dst (header_ops fmt (descriptor_byte f True ck df) [] [Extend ib, Extend fb]) =
      and_then (write_frame_magic dst fmt) (\<lambda>dst. and_then (push dst (descriptor_byte f True ck df)) (\<lambda>dst.
      and_then (extend_from_slice dst ib) (\<lambda>dst. extend_from_slice dst fb)))"
    by (simp add: run_header_ops)
  then show ?thesis
    by (simp only: write_single_segment_header_with_dict_def assms Let_def prod.case d)
qed

lemma write_windowed_ops:
  assumes "encode_window_descriptor (max ws 1024) = Ok wd" and "encode_dictionary_id did = (df, ib)"
  shows "write_windowed_header_with_dict dst ws ck did fmt =
    outbuf_run dst (header_ops fmt (descriptor_byte 0 False ck df) [wd] [Extend ib])"
proof -
  have d: "(if ck then 0 OR push_bit 2 1 else 0) OR df = descriptor_byte 0 False ck df"
    by (cases ck) (simp_all add: descriptor_byte_def)
  have "outbuf_run dst (header_ops fmt (descriptor_byte 0 False ck df) [wd] [Extend ib]) =
      and_then (write_frame_magic dst fmt) (\<lambda>dst. and_then (push dst (descriptor_byte 0 False ck df)) (\<lambda>dst.
      and_then (push dst wd) (\<lambda>dst. extend_from_slice dst ib)))"
    by (simp add: run_header_ops)
  then show ?thesis
    by (simp only: write_windowed_header_with_dict_def assms Let_def prod.case and_then.simps d)
qed

definition promoted_content_size :: "u64 \<Rightarrow> u64" where
  "promoted_content_size cs = max cs 256"

lemma write_windowed_content_size_ops:
  assumes "encode_window_descriptor (max ws 1024) = Ok wd" and "encode_dictionary_id did = (df, ib)"
    and "encode_frame_content_size (promoted_content_size cs) = (f, fb)"
  shows "write_windowed_header_with_content_size dst ws cs ck did fmt =
    outbuf_run dst (header_ops fmt (descriptor_byte f False ck df) [wd] [Extend ib, Extend fb])"
proof -
  have d: "(if ck then push_bit 6 f OR push_bit 2 1 else push_bit 6 f) OR df
      = descriptor_byte f False ck df"
    by (cases ck) (simp_all only: descriptor_byte_def or.assoc flag_bits if_True if_False or.left_neutral)
  have s: "(let (fl, en) = encode_frame_content_size cs
      in if fl = 0 then (1, le_bytes 2 (unat (ucast (if 256 \<le> cs then cs - 256 else 0) :: u16))) else (fl, en))
      = (f, fb)"
  proof (cases "cs \<le> 255")
    case True
    then have "promoted_content_size cs = 256" "\<not> 256 \<le> cs"
      by (auto simp: promoted_content_size_def word_le_nat_alt max_def)
    then show ?thesis using True assms(3) by (simp add: encode_frame_content_size_def)
  next
    case False
    then have "256 \<le> cs" by (simp add: word_le_nat_alt)
    then have "promoted_content_size cs = cs" by (simp add: promoted_content_size_def max_def)
    then show ?thesis using False assms(3) by (auto simp: encode_frame_content_size_def split: if_splits)
  qed
  obtain fl en where e: "encode_frame_content_size cs = (fl, en)" by force
  have ops: "outbuf_run dst (header_ops fmt (descriptor_byte f False ck df) [wd] [Extend ib, Extend fb]) =
      and_then (write_frame_magic dst fmt) (\<lambda>dst. and_then (push dst (descriptor_byte f False ck df)) (\<lambda>dst.
      and_then (push dst wd) (\<lambda>dst. and_then (extend_from_slice dst ib) (\<lambda>dst. extend_from_slice dst fb))))"
    by (simp add: run_header_ops)
  from s e have "(if fl = 0 then (1, le_bytes 2 (unat (ucast (if 256 \<le> cs then cs - 256 else 0) :: u16)))
      else (fl, en)) = (f, fb)" by simp
  then show ?thesis
    by (simp only: write_windowed_header_with_content_size_def assms(1,2) e Let_def prod.case
        and_then.simps d ops)
qed

end
