(* ===== verification/FrameProps.thy ===== *)
theory FrameProps
  imports FrameParse
begin

section \<open>Properties of frames\<close>

text \<open>Skippable frames, and the properties of \<open>src/src/frame.rs\<close> as a whole.\<close>

lemmas frame_eval = measure_frame_def parse_frame_header_with_format_def idx_range_def read_u32_le_def
  ZSTD_MAGIC_NUMBER_def parse_zstandard_frame_header_def slice_get_def RESERVED_BIT_def
  dictionary_id_field_size_def parse_window_field_def parse_dictionary_id_field_def
  parse_content_size_field_def decode_frame_content_size_def get_range_def checked_add_def usize_max_def
  get_from_def parse_block_header_def BLOCK_HEADER_SIZE_def payload_size_def drop_bit_eq_div

subsection \<open>Skippable frames\<close>

lemma skippable_magic_variant:
  assumes "(v :: u8) < 16"
  shows "is_skippable_magic (SKIPPABLE_MAGIC_BASE + ucast v)"
    and "SKIPPABLE_MAGIC_BASE + ucast v \<noteq> ZSTD_MAGIC_NUMBER"
    and "(ucast (SKIPPABLE_MAGIC_BASE + ucast v - SKIPPABLE_MAGIC_BASE) :: u8) = v"
proof -
  have "unat v < 16" using assms by (simp add: word_less_nat_alt)
  then have "unat v \<in> set [0..<16]" by simp
  moreover have "v = word_of_nat (unat v)" by simp
  ultimately have "v \<in> set (map word_of_nat [0..<16])" by (metis image_eqI list.set_map)
  then have "v \<in> {0, 1, 2, 3, 4, 5, 6, 7, 8, 9, 10, 11, 12, 13, 14, 15}"
    by (simp add: upt_rec del: set_upt)
  then show "is_skippable_magic (SKIPPABLE_MAGIC_BASE + ucast v)"
    and "SKIPPABLE_MAGIC_BASE + ucast v \<noteq> ZSTD_MAGIC_NUMBER"
    and "(ucast (SKIPPABLE_MAGIC_BASE + ucast v - SKIPPABLE_MAGIC_BASE) :: u8) = v"
    by (elim insertE emptyE; simp add: is_skippable_magic_def SKIPPABLE_MAGIC_BASE_def ZSTD_MAGIC_NUMBER_def)+
qed

lemma parse_written_skippable:
  assumes "write_skippable_frame v payload = Ok fr"
  shows "fr = le_bytes 4 (unat (SKIPPABLE_MAGIC_BASE + ucast v)) @ le_bytes 4 (length payload) @ payload"
    and "parse_frame_header_with_format (fr @ rest) Zstd1 = Ok (Skippable \<lparr>skip_header_size = 8,
      magic_variant = v, skip_size = word_of_nat (length payload)\<rparr>)"
    and "length payload \<le> 4294967295"
proof -
  let ?m = "SKIPPABLE_MAGIC_BASE + ucast v"
  have v: "v < 16" and len: "length payload \<le> 4294967295"
    and fr: "fr = le_bytes 4 (unat ?m) @ le_bytes 4 (length payload) @ payload"
    using assms by (auto simp: write_skippable_frame_def split: if_splits)
  then show "fr = le_bytes 4 (unat ?m) @ le_bytes 4 (length payload) @ payload"
    "length payload \<le> 4294967295" by simp_all
  have m: "read_u32_le (take 4 (fr @ rest)) = Ok ?m"
    using unat_u32_less [of ?m] by (simp add: fr read_u32_le_def idx_range_def bytes_simps)
  have z: "read_u32_le (take 4 (drop 4 (fr @ rest))) = Ok (word_of_nat (length payload))"
    using len by (simp add: fr read_u32_le_def idx_range_def bytes_simps)
  have l: "\<not> length (fr @ rest) < 8" "\<not> length (fr @ rest) < 4" by (simp_all add: fr)
  then have i: "idx_range (fr @ rest) 0 4 = Ok (take 4 (fr @ rest))"
    "idx_range (fr @ rest) 4 8 = Ok (take 4 (drop 4 (fr @ rest)))"
    unfolding idx_range_def by auto
  show "parse_frame_header_with_format (fr @ rest) Zstd1 = Ok (Skippable \<lparr>skip_header_size = 8,
      magic_variant = v, skip_size = word_of_nat (length payload)\<rparr>)"
    unfolding parse_frame_header_with_format_def parse_skippable_frame_header_def i m z and_then.simps
    using l skippable_magic_variant [OF v] by simp
qed

text \<open>A single-segment header, by the bytes the writer appends.\<close>

lemma single_segment_written:
  "\<exists>hdr. (\<forall>g. write_single_segment_header_with_dict (growable g) cs ck did fmt = Ok (growable (g @ hdr)))
     \<and> (\<forall>rest. parse_frame_header_with_format (hdr @ rest) fmt = Ok (Zstandard
          \<lparr>header_size = length hdr, window_size = cs,
           block_size_max = ucast (min cs (word_of_nat BLOCK_SIZE_MAX)), content_size = Some cs,
           dictionary_id = norm_id did, checksum = ck, single_segment = True\<rparr>))
     \<and> hdr \<noteq> [] \<and> length hdr \<le> 18"
proof -
  obtain f fb where f: "encode_frame_content_size cs = (f, fb)" by force
  obtain df ib where d: "encode_dictionary_id did = (df, ib)" by force
  let ?hdr = "magic_bytes fmt @ [descriptor_byte f True ck df] @ [] @ ib @ fb"
  have w: "write_single_segment_header_with_dict (growable g) cs ck did fmt = Ok (growable (g @ ?hdr))" for g
    unfolding write_single_segment_ops [OF f d]
    using growing.run_rel [of g "growable g" "header_ops fmt (descriptor_byte f True ck df) [] [Extend ib, Extend fb]"]
    by (simp add: header_ops_pre header_ops_bytes grow_rel_def growable_def)
  have z: "length ([] :: bytes) + 8 \<le> usize_max" by (simp add: usize_max_def)
  note r = encode_content_size_read [OF f]
  have n: "frame_content_size_field_size (unat f) True = Ok (length fb)"
    using r(2) [OF z, of True] by simp
  have "parse_frame_header_with_format (?hdr @ rest) fmt = Ok (Zstandard
          \<lparr>header_size = length ?hdr, window_size = cs,
           block_size_max = ucast (min cs (word_of_nat BLOCK_SIZE_MAX)), content_size = Some cs,
           dictionary_id = norm_id did, checksum = ck, single_segment = True\<rparr>)" for rest
    using parse_fields [OF d r(1) [OF z] n, where wb = "[]" and rest = rest and cs = "Some cs" and ws = cs
        and fmt = fmt and ck = ck] r(4)
    by (simp add: add.assoc)
  moreover have "length ?hdr \<le> 18"
    using n d by (cases fmt) (auto simp: magic_bytes_def encode_dictionary_id_def split: if_splits option.splits)
  ultimately show ?thesis using w by (intro exI [of _ ?hdr]) simp
qed

subsection \<open>Properties\<close>

text \<open>C8. A single-segment frame header written to a vector, with any content size, checksum flag,
  dictionary id and format, parses back to exactly these fields, whatever follows it; the window
  is the content size and the dictionary id 0 reads as absent.\<close>

theorem single_segment_header_roundtrip:
  "\<exists>hdr. (\<forall>g. write_single_segment_header_with_dict (growable g) cs ck did fmt = Ok (growable (g @ hdr)))
     \<and> (\<forall>rest. parse_frame_header_with_format (hdr @ rest) fmt = Ok (Zstandard
          \<lparr>header_size = length hdr, window_size = cs,
           block_size_max = ucast (min cs (word_of_nat BLOCK_SIZE_MAX)), content_size = Some cs,
           dictionary_id = norm_id did, checksum = ck, single_segment = True\<rparr>))"
  using single_segment_written [of cs ck did fmt] by blast

text \<open>C9. A windowed header for a window of at most 3.75 TiB parses back to the fields written, and
  the window it declares is the smallest that a descriptor can express and that is no smaller
  than the one asked for (and than 1 KiB). A larger window is refused.\<close>

theorem windowed_header_roundtrip:
  assumes "unat ws \<le> 15 * 2 ^ 38"
  shows "\<exists>hdr w. (\<forall>g. write_windowed_header_with_dict (growable g) ws ck did fmt = Ok (growable (g @ hdr)))
     \<and> (\<forall>rest. parse_frame_header_with_format (hdr @ rest) fmt = Ok (Zstandard
          \<lparr>header_size = length hdr, window_size = w,
           block_size_max = ucast (min w (word_of_nat BLOCK_SIZE_MAX)), content_size = None,
           dictionary_id = norm_id did, checksum = ck, single_segment = False\<rparr>))
     \<and> max (unat ws) 1024 \<le> unat w
     \<and> (\<forall>d. max (unat ws) 1024 \<le> unat (decode_window_descriptor d) \<longrightarrow>
           unat w \<le> unat (decode_window_descriptor d))"
proof -
  have mx: "unat (max ws 1024) = max (unat ws) 1024" by (simp add: max_def word_le_nat_alt)
  with assms obtain wd where wd: "encode_window_descriptor (max ws 1024) = Ok wd"
    using encode_window_Ok_iff [of "max ws 1024"] by auto
  obtain df ib where d: "encode_dictionary_id did = (df, ib)" by force
  let ?hdr = "magic_bytes fmt @ [descriptor_byte 0 False ck df] @ [wd] @ ib @ []"
  have w: "write_windowed_header_with_dict (growable g) ws ck did fmt = Ok (growable (g @ ?hdr))" for g
    unfolding write_windowed_ops [OF wd d]
    using growing.run_rel [of g "growable g" "header_ops fmt (descriptor_byte 0 False ck df) [wd] [Extend ib]"]
    by (simp add: header_ops_pre header_ops_bytes grow_rel_def growable_def)
  let ?w = "decode_window_descriptor wd"
  have "parse_frame_header_with_format (?hdr @ rest) fmt = Ok (Zstandard
          \<lparr>header_size = length ?hdr, window_size = ?w,
           block_size_max = ucast (min ?w (word_of_nat BLOCK_SIZE_MAX)), content_size = None,
           dictionary_id = norm_id did, checksum = ck, single_segment = False\<rparr>)" for rest
    using parse_fields [OF d, where f = 0 and fb = "[]" and single = False and wb = "[wd]" and wd = wd
        and rest = rest and cs = None and ws = ?w and fmt = fmt and ck = ck] parse_no_content_size
    by simp
  moreover have "max (unat ws) 1024 \<le> unat ?w" and "max (unat ws) 1024 \<le> unat (decode_window_descriptor d')
      \<Longrightarrow> unat ?w \<le> unat (decode_window_descriptor d')" for d'
    using encode_window_least [OF wd] mx by simp_all
  ultimately show ?thesis using w by blast
qed

theorem windowed_header_roundtrip_witness:
  "\<exists>hdr (w :: u64). (\<forall>g. write_windowed_header_with_dict (growable g) 5000 True (Some 7) Zstd1 = Ok (growable (g @ hdr)))
     \<and> 5000 \<le> unat w"
proof -
  have "unat (5000 :: u64) \<le> 15 * 2 ^ 38" by simp
  from windowed_header_roundtrip [OF this, of True "Some 7" Zstd1] obtain hdr and w :: u64 where
    "\<forall>g. write_windowed_header_with_dict (growable g) 5000 True (Some 7) Zstd1 = Ok (growable (g @ hdr))"
    and "max (unat (5000 :: u64)) 1024 \<le> unat w" by blast
  then show ?thesis by auto
qed



text \<open>C11. Parsing a frame header never panics; a header it accepts lies within the input, is longer than
  the magic number, and is determined by its own bytes alone.\<close>

theorem frame_header_parse_safe:
  "parse_frame_header_with_format src fmt \<noteq> Fault
   \<and> (\<forall>h. parse_frame_header_with_format src fmt = Ok h \<longrightarrow>
        magic_size fmt < fh_used h \<and> fh_used h \<le> length src
        \<and> (\<forall>rest. parse_frame_header_with_format (take (fh_used h) src @ rest) fmt = Ok h))"
  using parse_frame_header_props(1,2) header.no_fault header.extend header.trim by blast

theorem frame_header_parse_safe_witness:
  "parse_frame_header_with_format [0x28, 0xB5, 0x2F, 0xFD, 0x20, 0x05, 1, 2] Zstd1 \<noteq> Fault
   \<and> (\<exists>h. parse_frame_header_with_format [0x28, 0xB5, 0x2F, 0xFD, 0x20, 0x05, 1, 2] Zstd1 = Ok h \<and> fh_used h \<le> 8)"
proof -
  have "\<exists>h. parse_frame_header_with_format [0x28, 0xB5, 0x2F, 0xFD, 0x20, 0x05, 1, 2] Zstd1 = Ok h"
    by (simp add: frame_eval)
  then show ?thesis
    using frame_header_parse_safe [of "[0x28, 0xB5, 0x2F, 0xFD, 0x20, 0x05, 1, 2]" Zstd1] by auto
qed

text \<open>C12. A skippable frame written around a payload parses back to its variant and size, and the
  measured size of the frame is its length, whatever follows it.\<close>

theorem skippable_frame_roundtrip:
  assumes "write_skippable_frame v payload = Ok fr"
  shows "parse_frame_header (fr @ rest) = Ok (Skippable \<lparr>skip_header_size = 8,
      magic_variant = v, skip_size = word_of_nat (length payload)\<rparr>)
    \<and> find_frame_compressed_size_with_format (fr @ rest) Zstd1 = Ok (length fr)"
proof -
  note p = parse_written_skippable [OF assms]
  have "unat (word_of_nat (length payload) :: u32) = length payload"
    using p(3) by (simp add: unat_of_nat)
  moreover have "length fr = 8 + length payload" by (simp add: p(1))
  ultimately show ?thesis
    using p(3) by (simp add: find_frame_compressed_size_with_format_def measure_frame_def
        parse_frame_header_def p(2) checked_add_def usize_max_def)
qed

theorem skippable_frame_roundtrip_witness:
  "find_frame_compressed_size_with_format ([0x53, 0x2A, 0x4D, 0x18, 2, 0, 0, 0, 9, 9] @ [1]) Zstd1 = Ok 10"
proof -
  have "write_skippable_frame 3 [9, 9] = Ok [0x53, 0x2A, 0x4D, 0x18, 2, 0, 0, 0, 9, 9]"
    by (simp add: write_skippable_frame_def SKIPPABLE_MAGIC_BASE_def le_bytes_4)
  from skippable_frame_roundtrip [OF this, of "[1]"] show ?thesis by simp
qed

text \<open>C13. On a concatenation of frames the walk visits exactly these frames: the decompression bound is
  the sum of their bounds, or the overflow error when that exceeds 64 bits, and the first frame's
  compressed size is its length.\<close>

theorem decompress_bound_of_frames:
  assumes "list_all2 (is_frame fmt) frs is" and "frs \<noteq> []"
  shows "decompress_bound_with_format (concat frs) fmt =
       (let s = sum_list (map decompressed_bound is)
        in if s \<le> usize_max then Ok s else Err OutputSizeOverflow)
     \<and> find_frame_compressed_size_with_format (concat frs) fmt = Ok (length (hd frs))"
proof -
  have ne: "is \<noteq> []" using assms by auto
  obtain fr frs' where f: "frs = fr # frs'" using assms(2) by (cases frs) auto
  then obtain i where i: "measure_frame fr fmt = Ok i" "compressed_size i = length fr"
    using assms(1) by (auto simp: list_all2_Cons1 is_frame_def)
  have "find_frame_compressed_size_with_format (concat frs) fmt = Ok (length (hd frs))"
    using measured.extend [OF i(1), of "concat frs'"] i(2)
    by (simp add: find_frame_compressed_size_with_format_def f)
  then show ?thesis
    using for_each_frame_frames [OF assms, of 0 add_bound] ne
    by (simp add: decompress_bound_with_format_def fold_add_bound Let_def)
qed

definition sample_frame :: bytes where
  "sample_frame = [0x28, 0xB5, 0x2F, 0xFD, 0x20, 0x02, 0x11, 0, 0, 7, 8]"

lemma sample_frame_measured:
  "measure_frame sample_frame Zstd1 = Ok \<lparr>compressed_size = 11, decompressed_bound = 2, declared_size = Some 2\<rparr>"
proof -
  have "frame_blocks sample_frame 6 0 = Ok (11, 1)"
    by (subst frame_blocks.simps) (simp add: frame_eval sample_frame_def read_u24_le_eq)
  moreover have "parse_frame_header_with_format sample_frame Zstd1 = Ok (Zstandard
      \<lparr>header_size = 6, window_size = 2, block_size_max = 2, content_size = Some 2, dictionary_id = None,
       checksum = False, single_segment = True\<rparr>)"
    by (simp add: frame_eval sample_frame_def BLOCK_SIZE_MAX_def)
  ultimately show ?thesis by (simp add: measure_frame_def)
qed

theorem decompress_bound_of_frames_witness:
  "decompress_bound_with_format (concat [sample_frame, sample_frame]) Zstd1 = Ok 4"
proof -
  let ?i = "\<lparr>compressed_size = 11, decompressed_bound = 2, declared_size = Some 2\<rparr>"
  have "list_all2 (is_frame Zstd1) [sample_frame, sample_frame] [?i, ?i]"
    by (simp add: is_frame_def sample_frame_measured) (simp add: sample_frame_def)
  from decompress_bound_of_frames [OF this] show ?thesis by (simp add: usize_max_def Let_def)
qed

text \<open>C14. Measuring a frame and folding over frames never panic, and every frame measured is non-empty
  and within the input, so the fold ends.\<close>

theorem measuring_safe:
  "measure_frame src fmt \<noteq> Fault \<and> decompress_bound_with_format src fmt \<noteq> Fault
   \<and> decompressed_size_with_format src fmt \<noteq> Fault
   \<and> (\<forall>n. find_frame_compressed_size_with_format src fmt = Ok n \<longrightarrow> 0 < n \<and> n \<le> length src)"
proof -
  have "each_frame src fmt 0 0 add_bound \<noteq> Fault"
    by (rule each_frame_no_fault) (simp_all add: add_bound_def)
  moreover have "each_frame src fmt 0 (Some 0) add_declared \<noteq> Fault"
    by (rule each_frame_no_fault) (simp_all add: add_declared_def split: option.split)
  moreover have "0 < n \<and> n \<le> length src" if "find_frame_compressed_size_with_format src fmt = Ok n" for n
    using that measured.used_le measured.used_pos
    by (fastforce simp: find_frame_compressed_size_with_format_def)
  ultimately show ?thesis
    by (auto simp: measure_frame_no_fault decompress_bound_with_format_def
        decompressed_size_with_format_def for_each_frame_def)
qed

theorem measuring_safe_witness:
  "find_frame_compressed_size_with_format (sample_frame @ [1, 2]) Zstd1 = Ok 11 \<and> (11 :: nat) \<le> 13"
proof -
  have "find_frame_compressed_size_with_format (sample_frame @ [1, 2]) Zstd1 = Ok 11"
    using measured.extend [OF sample_frame_measured, of "[1, 2]"]
    by (simp add: find_frame_compressed_size_with_format_def)
  with measuring_safe [of "sample_frame @ [1, 2]" Zstd1] show ?thesis by (auto simp: sample_frame_def)
qed

end
