(* ===== verification/XxHash.thy ===== *)
theory XxHash
  imports Results
begin

section \<open>The streaming XXH64 checksum (xxhash.rs)\<close>

text \<open>
  \<open>Xxh64State\<close> of \<open>src/src/xxhash.rs\<close>: the four lanes, the 32-byte buffer of the bytes
  that do not fill a stripe yet, and the digest. Arithmetic is on 64-bit words, as the
  source's \<open>wrapping_*\<close> operations. The state after any sequence of updates represents
  the concatenation of their inputs, so hashing in pieces is hashing at once.
\<close>

definition PRIME64_1 :: u64 where "PRIME64_1 = 0x9E3779B185EBCA87"
definition PRIME64_2 :: u64 where "PRIME64_2 = 0xC2B2AE3D27D4EB4F"
definition PRIME64_3 :: u64 where "PRIME64_3 = 0x165667B19E3779F9"
definition PRIME64_4 :: u64 where "PRIME64_4 = 0x85EBCA77C2B2AE63"
definition PRIME64_5 :: u64 where "PRIME64_5 = 0x27D4EB2F165667C5"

record xxh64_state =
  seed :: u64
  total_len :: u64
  v1 :: u64
  v2 :: u64
  v3 :: u64
  v4 :: u64
  buffered :: bytes
  buffered_len :: usize

definition round64 :: "u64 \<Rightarrow> u64 \<Rightarrow> u64" where
  "round64 acc lane = word_rotl 31 (acc + lane * PRIME64_2) * PRIME64_1"

definition merge_round :: "u64 \<Rightarrow> u64 \<Rightarrow> u64" where
  "merge_round acc value = (acc XOR round64 0 value) * PRIME64_1 + PRIME64_4"

definition avalanche :: "u64 \<Rightarrow> u64" where
  "avalanche hash =
     (let hash = hash XOR drop_bit 33 hash;
          hash = hash * PRIME64_2;
          hash = hash XOR drop_bit 29 hash;
          hash = hash * PRIME64_3
      in hash XOR drop_bit 32 hash)"

definition xxh_read_u64_le :: "bytes \<Rightarrow> u64" where
  "xxh_read_u64_le src = word_of_nat (le_nat (take 8 src))"

definition xxh_read_u32_le :: "bytes \<Rightarrow> u32" where
  "xxh_read_u32_le src = word_of_nat (le_nat (take 4 src))"

definition xxh_new :: "u64 \<Rightarrow> xxh64_state" where
  "xxh_new s = \<lparr>seed = s, total_len = 0, v1 = s + PRIME64_1 + PRIME64_2, v2 = s + PRIME64_2,
     v3 = s, v4 = s - PRIME64_1, buffered = replicate 32 0, buffered_len = 0\<rparr>"

definition consume_chunk :: "xxh64_state \<Rightarrow> bytes \<Rightarrow> xxh64_state" where
  "consume_chunk st input = st\<lparr>
     v1 := round64 (v1 st) (xxh_read_u64_le input),
     v2 := round64 (v2 st) (xxh_read_u64_le (drop 8 input)),
     v3 := round64 (v3 st) (xxh_read_u64_le (drop 16 input)),
     v4 := round64 (v4 st) (xxh_read_u64_le (drop 24 input))\<rparr>"

text \<open>The loop \<open>while input.len() >= 32\<close>, returning the state and what is left.\<close>

function consume_chunks :: "xxh64_state \<Rightarrow> bytes \<Rightarrow> xxh64_state \<times> bytes" where
  "consume_chunks st input =
     (if 32 \<le> length input then consume_chunks (consume_chunk st (take 32 input)) (drop 32 input)
      else (st, input))"
  by pat_completeness auto
termination by (relation "measure (\<lambda>(st, input). length input)") auto

declare consume_chunks.simps [simp del]

definition xxh_update :: "xxh64_state \<Rightarrow> bytes \<Rightarrow> xxh64_state result" where
  "xxh_update self input =
     (let self = self\<lparr>total_len := total_len self + word_of_nat (length input)\<rparr> in
      if buffered_len self + length input < 32 then
        and_then (copy_into (buffered self) (buffered_len self) input) (\<lambda>b.
          Ok (self\<lparr>buffered := b, buffered_len := buffered_len self + length input\<rparr>))
      else
        and_then
          (if buffered_len self \<noteq> 0 then
             let fill = 32 - buffered_len self in
             and_then (idx_range input 0 fill) (\<lambda>head.
             and_then (copy_into (buffered self) (buffered_len self) head) (\<lambda>b.
             and_then (idx_from input fill) (\<lambda>rest.
               Ok (consume_chunk (self\<lparr>buffered := b\<rparr>) b \<lparr>buffered_len := 0\<rparr>, rest))))
           else Ok (self, input)) (\<lambda>(self, input).
        let (self, input) = consume_chunks self input in
        and_then (copy_into (buffered self) 0 input) (\<lambda>b.
          Ok (self\<lparr>buffered := b, buffered_len := length input\<rparr>))))"

function mix8 :: "u64 \<Rightarrow> bytes \<Rightarrow> u64 \<times> bytes" where
  "mix8 hash input =
     (if 8 \<le> length input then
        mix8 (word_rotl 27 (hash XOR round64 0 (xxh_read_u64_le input)) * PRIME64_1 + PRIME64_4)
          (drop 8 input)
      else (hash, input))"
  by pat_completeness auto
termination by (relation "measure (\<lambda>(h, input). length input)") auto

declare mix8.simps [simp del]

definition mix4 :: "u64 \<Rightarrow> bytes \<Rightarrow> u64 \<times> bytes" where
  "mix4 hash input =
     (if 4 \<le> length input then
        (word_rotl 23 (hash XOR ucast (xxh_read_u32_le input) * PRIME64_1) * PRIME64_2 + PRIME64_3,
         drop 4 input)
      else (hash, input))"

fun mix1 :: "u64 \<Rightarrow> bytes \<Rightarrow> u64" where
  "mix1 hash [] = hash"
| "mix1 hash (b # rest) = mix1 (word_rotl 11 (hash XOR ucast b * PRIME64_5) * PRIME64_1) rest"

definition xxh_digest :: "xxh64_state \<Rightarrow> u64 result" where
  "xxh_digest self =
     (let hash = (if 32 \<le> total_len self then
            let value = word_rotl 1 (v1 self) + word_rotl 7 (v2 self) + word_rotl 12 (v3 self)
                        + word_rotl 18 (v4 self);
                value = merge_round value (v1 self);
                value = merge_round value (v2 self);
                value = merge_round value (v3 self)
            in merge_round value (v4 self)
          else seed self + PRIME64_5);
          hash = hash + total_len self
      in and_then (idx_range (buffered self) 0 (buffered_len self)) (\<lambda>input.
         let (hash, input) = mix8 hash input;
             (hash, input) = mix4 hash input
         in Ok (avalanche (mix1 hash input))))"

definition xxh64 :: "bytes \<Rightarrow> u64 \<Rightarrow> u64 result" where
  "xxh64 input s = and_then (xxh_update (xxh_new s) input) xxh_digest"

text \<open>Feeding a list of pieces.\<close>

fun xxh_updates :: "xxh64_state \<Rightarrow> bytes list \<Rightarrow> xxh64_state result" where
  "xxh_updates st [] = Ok st"
| "xxh_updates st (p # ps) = and_then (xxh_update st p) (\<lambda>st'. xxh_updates st' ps)"

subsection \<open>The state represents the message\<close>

definition lanes :: "xxh64_state \<Rightarrow> u64 \<times> u64 \<times> u64 \<times> u64" where
  "lanes st = (v1 st, v2 st, v3 st, v4 st)"

text \<open>The lanes after all full stripes of the message, and the bytes after them.\<close>

definition stripes :: "bytes \<Rightarrow> bytes" where
  "stripes m = take (32 * (length m div 32)) m"

definition tail_bytes :: "bytes \<Rightarrow> bytes" where
  "tail_bytes m = drop (32 * (length m div 32)) m"

definition represents :: "u64 \<Rightarrow> bytes \<Rightarrow> xxh64_state \<Rightarrow> bool" where
  "represents s m st \<longleftrightarrow> seed st = s \<and> total_len st = word_of_nat (length m)
     \<and> lanes st = lanes (fst (consume_chunks (xxh_new s) m))
     \<and> length (buffered st) = 32 \<and> buffered_len st = length m mod 32
     \<and> take (buffered_len st) (buffered st) = tail_bytes m"

lemma consume_chunks_short [simp]: "length input < 32 \<Longrightarrow> consume_chunks st input = (st, input)"
  by (simp add: consume_chunks.simps)

lemma consume_chunks_step:
  "length a = 32 \<Longrightarrow> consume_chunks st (a @ b) = consume_chunks (consume_chunk st a) b"
  by (subst consume_chunks.simps) simp

lemma consume_chunks_append:
  "32 dvd length a \<Longrightarrow> consume_chunks st (a @ b) = consume_chunks (fst (consume_chunks st a)) b"
proof (induction st a rule: consume_chunks.induct)
  case (1 st a)
  show ?case
  proof (cases "32 \<le> length a")
    case True
    have "consume_chunks st (a @ b) = consume_chunks (consume_chunk st (take 32 a)) (drop 32 a @ b)"
      using consume_chunks_step [of "take 32 a" st "drop 32 a @ b"] True
      by (simp only: append_assoc [symmetric] append_take_drop_id length_take min.absorb2)
    also have "\<dots> = consume_chunks (fst (consume_chunks (consume_chunk st (take 32 a)) (drop 32 a))) b"
      using "1.IH" [OF True] "1.prems" True by simp
    also have "consume_chunks (consume_chunk st (take 32 a)) (drop 32 a) = consume_chunks st a"
      using True by (simp add: consume_chunks.simps [of st a])
    finally show ?thesis .
  next
    case False
    with "1.prems" have "a = []" by (auto dest: dvd_imp_le)
    then show ?thesis by simp
  qed
qed

lemma consume_chunks_rest: "snd (consume_chunks st a) = tail_bytes a"
proof (induction st a rule: consume_chunks.induct)
  case (1 st a)
  show ?case
  proof (cases "32 \<le> length a")
    case True
    have "tail_bytes (drop 32 a) = tail_bytes a"
      using True by (simp add: tail_bytes_def le_div_geq algebra_simps)
    with "1.IH" [OF True] True show ?thesis by (simp add: consume_chunks.simps [of st a])
  next
    case False
    then show ?thesis by (simp add: tail_bytes_def)
  qed
qed

lemma lanes_consume_chunk: "lanes st = lanes st' \<Longrightarrow> lanes (consume_chunk st c) = lanes (consume_chunk st' c)"
  by (simp add: lanes_def consume_chunk_def)

lemma lanes_consume_chunks:
  "lanes st = lanes st' \<Longrightarrow> lanes (fst (consume_chunks st m)) = lanes (fst (consume_chunks st' m))"
proof (induction st m arbitrary: st' rule: consume_chunks.induct)
  case (1 st m)
  show ?case
  proof (cases "32 \<le> length m")
    case True
    then show ?thesis
      using "1.IH" [OF True lanes_consume_chunk [OF "1.prems", of "take 32 m"]]
      by (simp add: consume_chunks.simps [of _ m])
  next
    case False
    then show ?thesis using "1.prems" by simp
  qed
qed

lemma consume_chunks_frame:
  "buffered (fst (consume_chunks st m)) = buffered st \<and> seed (fst (consume_chunks st m)) = seed st
   \<and> total_len (fst (consume_chunks st m)) = total_len st"
proof (induction st m rule: consume_chunks.induct)
  case (1 st m)
  then show ?case
    by (cases "32 \<le> length m") (simp_all add: consume_chunks.simps [of st m] consume_chunk_def)
qed

lemma stripes_dvd: "32 dvd length (stripes m)"
proof -
  have "length (stripes m) = 32 * (length m div 32)"
    by (simp add: stripes_def)
  then show ?thesis by simp
qed

lemma length_tail_bytes: "length (tail_bytes m) = length m mod 32"
  by (simp add: tail_bytes_def minus_mult_div_eq_mod)

lemma stripes_tail: "stripes m @ tail_bytes m = m"
  by (simp add: stripes_def tail_bytes_def)

lemma consume_chunks_stripes: "fst (consume_chunks st m) = fst (consume_chunks st (stripes m))"
  using consume_chunks_append [OF stripes_dvd, of st m "tail_bytes m"]
  by (simp add: stripes_tail length_tail_bytes)

lemma tail_drop_whole: "32 dvd length a \<Longrightarrow> tail_bytes (a @ b) = tail_bytes b"
  by (auto simp: tail_bytes_def elim!: dvdE)

lemma tail_append: "tail_bytes (m @ x) = tail_bytes (tail_bytes m @ x)"
proof -
  from tail_drop_whole [OF stripes_dvd, of m "tail_bytes m @ x"] show ?thesis
    by (simp add: stripes_tail flip: append_assoc)
qed

lemma lanes_append:
  "lanes (fst (consume_chunks st (m @ x))) =
   lanes (fst (consume_chunks (fst (consume_chunks st m)) (tail_bytes m @ x)))"
proof -
  have "consume_chunks st (stripes m @ (tail_bytes m @ x)) =
      consume_chunks (fst (consume_chunks st (stripes m))) (tail_bytes m @ x)"
    by (rule consume_chunks_append [OF stripes_dvd])
  then show ?thesis
    by (simp add: stripes_tail consume_chunks_stripes [of st m, symmetric] flip: append_assoc)
qed

lemma tail_short: "length m < 32 \<Longrightarrow> tail_bytes m = m"
  by (simp add: tail_bytes_def)

lemma represents_new: "represents s [] (xxh_new s)"
  by (simp add: represents_def xxh_new_def tail_bytes_def)

text \<open>Running the loop on a state whose lanes are those of \<open>m\<close> with its tail put back.\<close>

lemma represents_after_loop:
  assumes "lanes (fst (consume_chunks st rest)) = lanes (fst (consume_chunks (xxh_new s) (m @ x)))"
    and "tail_bytes rest = tail_bytes (m @ x)"
    and "seed st = s" and "total_len st = word_of_nat (length (m @ x))" and "length b = 32"
    and "take (length (tail_bytes rest)) b = tail_bytes rest"
  shows "represents s (m @ x)
    (fst (consume_chunks st rest)\<lparr>buffered := b, buffered_len := length (tail_bytes rest)\<rparr>)"
  using assms consume_chunks_frame [of st rest] length_tail_bytes [of "m @ x"]
  by (simp add: represents_def lanes_def)

lemma xxh_update_whole:
  assumes "buffered_len st = 0" and "32 \<le> length x"
    and "consume_chunks (st\<lparr>total_len := total_len st + word_of_nat (length x)\<rparr>) x = (s2, rest)"
    and "length rest \<le> length (buffered s2)"
  shows "xxh_update st x = Ok (s2\<lparr>buffered := rest @ drop (length rest) (buffered s2),
    buffered_len := length rest\<rparr>)"
  using assms by (simp add: xxh_update_def copy_into_def)

lemma xxh_update_filled:
  assumes n: "buffered_len st \<noteq> 0" "32 - buffered_len st \<le> length x" "\<not> buffered_len st + length x < 32"
    and cp: "copy_into (buffered st) (buffered_len st) (take (32 - buffered_len st) x) = Ok b"
    and c: "consume_chunks (consume_chunk (st\<lparr>total_len := total_len st + word_of_nat (length x),
        buffered := b\<rparr>) b \<lparr>buffered_len := 0\<rparr>) (drop (32 - buffered_len st) x) = (s2, rest)"
    and r: "length rest \<le> length (buffered s2)"
  shows "xxh_update st x = Ok (s2\<lparr>buffered := rest @ drop (length rest) (buffered s2),
    buffered_len := length rest\<rparr>)"
  using n c r
  by (simp add: xxh_update_def Let_def idx_range_def idx_from_def cp copy_into_def [of "buffered s2"]
      del: copy_into_Ok)

lemma xxh_update_represents:
  assumes r: "represents s m st"
  shows "\<exists>st'. xxh_update st x = Ok st' \<and> represents s (m @ x) st'"
proof -
  let ?n = "buffered_len st" and ?t = "tail_bytes m"
  let ?st = "st\<lparr>total_len := total_len st + word_of_nat (length x)\<rparr>"
  have n: "?n = length m mod 32" "?n < 32" "length ?t = ?n" and b: "length (buffered st) = 32"
    "take ?n (buffered st) = ?t" and sd: "seed st = s"
    and tl: "total_len st = word_of_nat (length m)"
    using r by (auto simp only: represents_def length_tail_bytes mod_less_divisor zero_less_numeral)
  have Lm: "lanes st = lanes (fst (consume_chunks (xxh_new s) m))"
    using r by (simp only: represents_def)
  have L: "lanes (fst (consume_chunks (xxh_new s) (m @ x))) = lanes (fst (consume_chunks st (?t @ x)))"
    by (simp only: lanes_append [of _ m x] lanes_consume_chunks [OF Lm])
  show ?thesis
  proof (cases "?n + length x < 32")
    case True
    then have "tail_bytes (m @ x) = ?t @ x"
      using n by (simp add: tail_append [of m x] tail_short)
    moreover have "length (m @ x) mod 32 = ?n + length x"
      using n True length_tail_bytes [of "m @ x"] calculation by simp
    ultimately show ?thesis
      using True b n L sd tl
      by (simp add: xxh_update_def copy_into_def represents_def Let_def) (simp add: lanes_def)
  next
    case big: False
    let ?fill = "32 - ?n"
    let ?st2 = "if ?n \<noteq> 0 then consume_chunk (?st\<lparr>buffered := ?t @ take ?fill x\<rparr>)
        (?t @ take ?fill x) \<lparr>buffered_len := 0\<rparr> else ?st"
    let ?rest = "if ?n \<noteq> 0 then drop ?fill x else x"
    have fl: "?fill \<le> length x" using big by simp
    let ?st1 = "if ?n \<noteq> 0 then consume_chunk st (?t @ take ?fill x) else st"
    have step: "consume_chunks st (?t @ x) = consume_chunks ?st1 ?rest"
      using consume_chunks_step [of "?t @ take ?fill x" st "drop ?fill x"] n fl by auto
    have L1: "lanes ?st2 = lanes ?st1"
      by (auto simp: lanes_def consume_chunk_def)
    have L2: "lanes (fst (consume_chunks ?st2 ?rest)) =
        lanes (fst (consume_chunks (xxh_new s) (m @ x)))"
      by (simp only: lanes_consume_chunks [OF L1] L step)
    have "tail_bytes (?t @ x) = tail_bytes ?rest"
    proof (cases "?n = 0")
      case False
      have "tail_bytes ((?t @ take ?fill x) @ drop ?fill x) = tail_bytes (drop ?fill x)"
        using n fl by (intro tail_drop_whole) auto
      then show ?thesis using False by simp
    qed (use n in simp)
    then have T2: "tail_bytes ?rest = tail_bytes (m @ x)" by (simp add: tail_append [of m x])
    let ?b = "tail_bytes ?rest @ drop (length (tail_bytes ?rest)) (if ?n \<noteq> 0 then ?t @ take ?fill x else buffered st)"
    have lt: "length (tail_bytes ?rest) < 32" by (simp add: length_tail_bytes)
    have lb: "length ?b = 32" using lt n fl b by auto
    have up: "xxh_update st x = Ok (fst (consume_chunks ?st2 ?rest)
        \<lparr>buffered := ?b, buffered_len := length (tail_bytes ?rest)\<rparr>)"
    proof -
      have "consume_chunks ?st2 ?rest = (fst (consume_chunks ?st2 ?rest), tail_bytes ?rest)"
        using consume_chunks_rest [of ?st2 ?rest] by (metis prod.collapse)
      note c = this
      have bb: "buffered (fst (consume_chunks ?st2 ?rest)) =
          (if ?n \<noteq> 0 then ?t @ take ?fill x else buffered st)"
        using consume_chunks_frame [of ?st2 ?rest] by (simp add: consume_chunk_def)
      then have r: "length (tail_bytes ?rest) \<le> length (buffered (fst (consume_chunks ?st2 ?rest)))"
        using lt n fl b by auto
      show ?thesis
      proof (cases "?n = 0")
        case True
        then show ?thesis
          using xxh_update_whole [OF True _ _ r] big c bb by simp
      next
        case False
        have "32 \<le> ?n + length x" using big by simp
        then have "copy_into (buffered st) ?n (take ?fill x) = Ok (?t @ take ?fill x)"
          using b n fl by simp
        from xxh_update_filled [OF False fl big this _ r] False c bb
        show ?thesis by simp
      qed
    qed
    have "represents s (m @ x) (fst (consume_chunks ?st2 ?rest)
        \<lparr>buffered := ?b, buffered_len := length (tail_bytes ?rest)\<rparr>)"
      using L2 T2 lb sd tl by (intro represents_after_loop) (auto simp: consume_chunk_def)
    with up show ?thesis by blast
  qed
qed

lemma xxh_updates_represent:
  "represents s m st \<Longrightarrow>
   \<exists>st'. xxh_updates st ps = Ok st' \<and> represents s (m @ concat ps) st'"
proof (induction ps arbitrary: m st)
  case (Cons p ps)
  from xxh_update_represents [OF Cons.prems, of p] obtain st1
    where "xxh_update st p = Ok st1" "represents s (m @ p) st1" by blast
  with Cons.IH [OF this(2)] show ?case by simp
qed simp

lemma represents_digest:
  assumes "represents s m st" and "represents s m st'"
  shows "xxh_digest st = xxh_digest st'" and "\<exists>h. xxh_digest st = Ok h"
proof -
  have n: "buffered_len st \<le> length (buffered st)" "buffered_len st' \<le> length (buffered st')"
    using assms by (simp_all add: represents_def)
  have eq: "seed st = seed st'" "total_len st = total_len st'" "v1 st = v1 st'" "v2 st = v2 st'"
      "v3 st = v3 st'" "v4 st = v4 st'" "buffered_len st = buffered_len st'"
      "take (buffered_len st') (buffered st) = take (buffered_len st') (buffered st')"
    using assms by (auto simp only: represents_def lanes_def prod.inject)
  show "xxh_digest st = xxh_digest st'"
    using n unfolding xxh_digest_def eq idx_range_def drop_0 diff_zero by (simp only: simp_thms le0 if_True)
  show "\<exists>h. xxh_digest st = Ok h"
    using n by (simp add: xxh_digest_def idx_range_def Let_def split_beta)
qed

text \<open>Hashing in pieces is hashing at once, and never faults.\<close>

lemma xxh_pieces:
  "\<exists>h. xxh64 (concat ps) s = Ok h \<and> and_then (xxh_updates (xxh_new s) ps) xxh_digest = Ok h"
proof -
  obtain a where a: "xxh_update (xxh_new s) (concat ps) = Ok a" "represents s (concat ps) a"
    using xxh_update_represents [OF represents_new] by force
  obtain b where b: "xxh_updates (xxh_new s) ps = Ok b" "represents s (concat ps) b"
    using xxh_updates_represent [OF represents_new] by force
  obtain h where "xxh_digest b = Ok h" using represents_digest(2) [OF b(2) b(2)] by blast
  with represents_digest(1) [OF a(2) b(2)] show ?thesis by (auto simp: xxh64_def a b)
qed

text \<open>C7. The streaming checksum: for every way of cutting the input into pieces, feeding the pieces one
  after the other and taking the digest gives the one-shot hash of the whole input, and no update
  faults whatever the piece boundaries are.\<close>

theorem xxh64_pieces:
  "\<exists>h. xxh64 (concat ps) s = Ok h \<and> and_then (xxh_updates (xxh_new s) ps) xxh_digest = Ok h"
  by (rule xxh_pieces)

end
