(* ===== verification/Decode.thy ===== *)
theory Decode
  imports Dictionary FrameProps XxHash
begin

section \<open>The one-shot decoder (decode.rs)\<close>

text \<open>
  \<open>src/src/decode.rs\<close>: the cursor over the input, blocks, frames, and the walk over concatenated frames into a
  growable vector or a fixed slice. What a frame carries from block to block (the Huffman table, the sequence
  tables, the repeat offsets, the output, which is the match history) and the literals scratch that every block reuses
  are one record, \<open>frame_state\<close>. The profiled variants, which time the same steps with another sequence
  decoder, are left out: \<open>profiler\<close> is \<open>None\<close>. An error drops the state; what the caller still holds of it is unspecified.
\<close>

record decoder_options =
  opt_max_window_size :: "u64 option"
  opt_max_output_size :: "usize option"
  opt_verify_checksum :: bool
  opt_single_frame :: bool
  opt_format :: format

definition DEFAULT_MAX_WINDOW_SIZE :: u64 where "DEFAULT_MAX_WINDOW_SIZE = 2 ^ 27"

definition decoder_options_default :: decoder_options where
  "decoder_options_default =
     \<lparr>opt_max_window_size = Some DEFAULT_MAX_WINDOW_SIZE, opt_max_output_size = None, opt_verify_checksum = True,
      opt_single_frame = False, opt_format = Zstd1\<rparr>"

subsection \<open>Cursor\<close>

record cursor =
  cur_src :: bytes
  cur_pos :: usize

definition cursor_new :: "bytes \<Rightarrow> cursor" where
  "cursor_new src = \<lparr>cur_src = src, cur_pos = 0\<rparr>"

definition cursor_is_empty :: "cursor \<Rightarrow> bool" where
  "cursor_is_empty c \<longleftrightarrow> cur_pos c = length (cur_src c)"

definition cursor_remaining :: "cursor \<Rightarrow> bytes result" where
  "cursor_remaining c = idx_from (cur_src c) (cur_pos c)"

definition cursor_read_u8 :: "cursor \<Rightarrow> (u8 \<times> cursor) result" where
  "cursor_read_u8 c =
     and_then (ok_or (slice_get (cur_src c) (cur_pos c)) UnexpectedEof) (\<lambda>byte. Ok (byte, c\<lparr>cur_pos := cur_pos c + 1\<rparr>))"

definition cursor_read_exact :: "cursor \<Rightarrow> usize \<Rightarrow> (bytes \<times> cursor) result" where
  "cursor_read_exact c n =
     and_then (ok_or (checked_add (cur_pos c) n) UnexpectedEof) (\<lambda>end_pos.
     and_then (ok_or (get_range (cur_src c) (cur_pos c) end_pos) UnexpectedEof) (\<lambda>bs.
       Ok (bs, c\<lparr>cur_pos := end_pos\<rparr>)))"

definition cursor_read_u32_le :: "cursor \<Rightarrow> (u32 \<times> cursor) result" where
  "cursor_read_u32_le c =
     and_then (cursor_read_exact c 4) (\<lambda>(bs, c).
     and_then (idx bs 0) (\<lambda>b0. and_then (idx bs 1) (\<lambda>b1. and_then (idx bs 2) (\<lambda>b2. and_then (idx bs 3) (\<lambda>b3.
       Ok (word_of_nat (le_nat [b0, b1, b2, b3]), c))))))"

subsection \<open>Output\<close>

definition checked_output_len :: "usize \<Rightarrow> usize \<Rightarrow> usize result" where
  "checked_output_len current add = ok_or (checked_add current add) OutputSizeOverflow"

definition append_bytes :: "decode_out \<Rightarrow> bytes \<Rightarrow> output_limit \<Rightarrow> decode_out result" where
  "append_bytes out bs limit =
     and_then (checked_output_len (dout_len out) (length bs)) (\<lambda>new_len.
     and_then (check_total limit new_len) (\<lambda>_. dout_append out bs))"

definition append_repeated :: "decode_out \<Rightarrow> u8 \<Rightarrow> usize \<Rightarrow> output_limit \<Rightarrow> decode_out result" where
  "append_repeated out byte n limit =
     and_then (checked_output_len (dout_len out) n) (\<lambda>new_len.
     and_then (check_total limit new_len) (\<lambda>_. dout_append_repeated out byte n))"

definition ensure_total_size_limit :: "usize \<Rightarrow> u64 \<Rightarrow> usize option \<Rightarrow> unit result" where
  "ensure_total_size_limit current declared max_output =
     (case max_output of None \<Rightarrow> Ok ()
      | Some limit \<Rightarrow>
          if 2 ^ 64 \<le> current + unat declared then Err OutputSizeOverflow
          else if limit < current + unat declared
          then Err (OutputSizeTooLarge (word_of_nat (current + unat declared)) limit) else Ok ())"

subsection \<open>Blocks\<close>

record frame_state =
  fs_cursor :: cursor
  fs_literals_state :: "huffman_dtable option"
  fs_tables :: sequence_tables
  fs_reps :: repeat_offsets
  fs_scratch :: bytes
  fs_out :: decode_out

type_synonym block_result = "huffman_dtable option \<times> sequence_tables \<times> repeat_offsets \<times> bytes \<times> decode_out"

definition decode_compressed_block_into ::
    "bytes \<Rightarrow> usize \<Rightarrow> usize \<Rightarrow> usize \<Rightarrow> bytes option \<Rightarrow> huffman_dtable option \<Rightarrow> sequence_tables \<Rightarrow> repeat_offsets \<Rightarrow>
     bytes \<Rightarrow> decode_out \<Rightarrow> output_limit \<Rightarrow> block_result result" where
  "decode_compressed_block_into src bsm frame_start win dict literals_state tables reps scratch out limit =
     and_then (decode_literals_section_into src literals_state bsm scratch)
       (\<lambda>(literals_size, literals, literals_state, scratch).
     if bsm < literals_len literals
     then Err (Corruption ''compressed block literals exceed the frame block size limit'') else
     and_then (ok_or (get_from src literals_size) UnexpectedEof) (\<lambda>sequence_section.
     and_then (parse_sequence_section sequence_section tables SequenceOnly) (\<lambda>(parsed, tables).
     if number_of_sequences parsed = 0 \<and> section_header_size parsed \<noteq> length sequence_section
     then Err (Corruption ''zero-sequence blocks must not contain additional sequence payload'') else
     and_then (decode_and_execute_sequences parsed tables out frame_start win bsm dict literals reps limit)
       (\<lambda>(tables, out, reps). Ok (literals_state, tables, reps, scratch, out)))))"

text \<open>\<open>dictionary.map(Dictionary::content)\<close>\<close>

fun map_content :: "dictionary option \<Rightarrow> bytes option result" where
  "map_content None = Ok None"
| "map_content (Some d) = and_then (dictionary_content d) (\<lambda>c. Ok (Some c))"

text \<open>A block behind its header, with the cursor there.\<close>

definition decode_block_payload ::
    "zstandard_frame_header \<Rightarrow> decoder_options \<Rightarrow> dictionary option \<Rightarrow> usize \<Rightarrow> block_header \<Rightarrow> frame_state \<Rightarrow> frame_state result" where
  "decode_block_payload h opts dict frame_start bh st =
     (case block_kind bh of
         Raw \<Rightarrow>
           if block_size_max h < block_size bh then Err (Corruption ''block size exceeds frame block size limit'') else
           and_then (cursor_read_exact (fs_cursor st) (payload_size bh)) (\<lambda>(data, c).
           and_then (append_bytes (fs_out st) data (whole_output (opt_max_output_size opts))) (\<lambda>out.
             Ok (st\<lparr>fs_cursor := c, fs_out := out\<rparr>)))
       | Rle \<Rightarrow>
           if block_size_max h < block_size bh then Err (Corruption ''block size exceeds frame block size limit'') else
           and_then (cursor_read_u8 (fs_cursor st)) (\<lambda>(byte, c).
           and_then (append_repeated (fs_out st) byte (unat (block_size bh)) (whole_output (opt_max_output_size opts))) (\<lambda>out.
             Ok (st\<lparr>fs_cursor := c, fs_out := out\<rparr>)))
       | Compressed \<Rightarrow>
           and_then (cursor_read_exact (fs_cursor st) (payload_size bh)) (\<lambda>(data, c).
           and_then (map_content dict) (\<lambda>content.
           and_then (decode_compressed_block_into data (unat (block_size_max h)) frame_start (unat (window_size h)) content
               (fs_literals_state st) (fs_tables st) (fs_reps st) (fs_scratch st) (fs_out st)
               (whole_output (opt_max_output_size opts))) (\<lambda>(literals_state, tables, reps, scratch, out).
             Ok \<lparr>fs_cursor = c, fs_literals_state = literals_state, fs_tables = tables, fs_reps = reps,
                 fs_scratch = scratch, fs_out = out\<rparr>))))"

text \<open>The body of the block loop; the flag says whether the block is the last.\<close>

definition decode_frame_block ::
    "zstandard_frame_header \<Rightarrow> decoder_options \<Rightarrow> dictionary option \<Rightarrow> usize \<Rightarrow> frame_state \<Rightarrow> (bool \<times> frame_state) result" where
  "decode_frame_block h opts dict frame_start st =
     and_then (cursor_read_exact (fs_cursor st) BLOCK_HEADER_SIZE) (\<lambda>(header_bytes, c).
     and_then (parse_block_header header_bytes) (\<lambda>bh.
     and_then (decode_block_payload h opts dict frame_start bh (st\<lparr>fs_cursor := c\<rparr>)) (\<lambda>st.
       Ok (last_block bh, st))))"

lemma cursor_read_exact_Ok:
  "cursor_read_exact c n = Ok (bs, c') \<longleftrightarrow> cur_pos c + n \<le> usize_max \<and> cur_pos c + n \<le> length (cur_src c)
     \<and> bs = take n (drop (cur_pos c) (cur_src c)) \<and> c' = c\<lparr>cur_pos := cur_pos c + n\<rparr>"
  by (auto simp: cursor_read_exact_def)

lemma cursor_read_u8_Ok:
  "cursor_read_u8 c = Ok (b, c') \<longleftrightarrow> cur_pos c < length (cur_src c) \<and> b = cur_src c ! cur_pos c
     \<and> c' = c\<lparr>cur_pos := cur_pos c + 1\<rparr>"
  by (auto simp: cursor_read_u8_def)

text \<open>Every block reads its header, so the loop ends.\<close>

lemma decode_block_payload_advances:
  assumes "decode_block_payload h opts dict frame_start bh st = Ok st'" and "cur_pos (fs_cursor st) \<le> length (cur_src (fs_cursor st))"
  shows "cur_src (fs_cursor st') = cur_src (fs_cursor st) \<and> cur_pos (fs_cursor st') = cur_pos (fs_cursor st) + payload_size bh
    \<and> cur_pos (fs_cursor st') \<le> length (cur_src (fs_cursor st))"
  using assms by (cases "block_kind bh") (auto simp: decode_block_payload_def cursor_read_exact_Ok cursor_read_u8_Ok
      payload_size_def split: if_splits)

lemma decode_frame_block_advances:
  assumes "decode_frame_block h opts dict frame_start st = Ok (fin, st')"
  shows "cur_src (fs_cursor st') = cur_src (fs_cursor st) \<and> cur_pos (fs_cursor st) + 3 \<le> cur_pos (fs_cursor st')
    \<and> cur_pos (fs_cursor st') \<le> length (cur_src (fs_cursor st))"
  using assms by (auto simp: decode_frame_block_def BLOCK_HEADER_SIZE_def cursor_read_exact_Ok
      dest!: decode_block_payload_advances)

function decode_frame_blocks ::
    "zstandard_frame_header \<Rightarrow> decoder_options \<Rightarrow> dictionary option \<Rightarrow> usize \<Rightarrow> frame_state \<Rightarrow> frame_state result" where
  "decode_frame_blocks h opts dict frame_start st =
     and_then (decode_frame_block h opts dict frame_start st) (\<lambda>(fin, st).
       if fin then Ok st else decode_frame_blocks h opts dict frame_start st)"
  by pat_completeness auto
termination
  by (relation "measure (\<lambda>(h, opts, dict, frame_start, st). length (cur_src (fs_cursor st)) - cur_pos (fs_cursor st))")
    (auto dest!: decode_frame_block_advances)

declare decode_frame_blocks.simps [simp del]

lemma decode_frame_blocks_advances:
  "decode_frame_blocks h opts dict frame_start st = Ok st' \<Longrightarrow>
   cur_src (fs_cursor st') = cur_src (fs_cursor st) \<and> cur_pos (fs_cursor st) + 3 \<le> cur_pos (fs_cursor st')
    \<and> cur_pos (fs_cursor st') \<le> length (cur_src (fs_cursor st))"
proof (induction h opts dict frame_start st rule: decode_frame_blocks.induct)
  case (1 h opts dict frame_start st)
  from "1.prems" obtain fin st1 where b: "decode_frame_block h opts dict frame_start st = Ok (fin, st1)"
    and r: "(if fin then Ok st1 else decode_frame_blocks h opts dict frame_start st1) = Ok st'"
    by (subst (asm) decode_frame_blocks.simps) auto
  show ?case
  proof (cases fin)
    case True
    then show ?thesis using decode_frame_block_advances [OF b] r by simp
  next
    case False
    with "1.IH" [OF b refl False] r decode_frame_block_advances [OF b] show ?thesis by simp
  qed
qed

subsection \<open>Frames\<close>

text \<open>The dictionary a frame is decoded with: none is needed, or the one given fits.\<close>

definition frame_dictionary :: "dictionary option \<Rightarrow> u32 option \<Rightarrow> dictionary option result" where
  "frame_dictionary dict declared =
     (case (dict, declared) of
        (None, Some i) \<Rightarrow> Err (DictionaryRequired (Some i))
      | (Some d, Some i) \<Rightarrow> if dict_id d \<noteq> i then Err (DictionaryMismatch i (dict_id d)) else Ok dict
      | _ \<Rightarrow> Ok dict)"

definition check_window_size :: "u64 \<Rightarrow> u64 option \<Rightarrow> unit result" where
  "check_window_size w limit =
     (case limit of Some m \<Rightarrow> if m < w then Err (WindowSizeTooLarge w m) else Ok () | None \<Rightarrow> Ok ())"

text \<open>What the dictionary, or its absence, gives the frame to begin with.\<close>

definition frame_start_state :: "dictionary option \<Rightarrow> cursor \<Rightarrow> bytes \<Rightarrow> decode_out \<Rightarrow> frame_state result" where
  "frame_start_state dict c scratch out =
     (case dict of
        None \<Rightarrow> Ok \<lparr>fs_cursor = c, fs_literals_state = None, fs_tables = sequence_tables_default,
            fs_reps = repeat_offsets_default, fs_scratch = scratch, fs_out = out\<rparr>
      | Some d \<Rightarrow>
          and_then (dictionary_literals_state d) (\<lambda>literals_state.
          and_then (dictionary_sequence_tables d) (\<lambda>tables.
            Ok \<lparr>fs_cursor = c, fs_literals_state = literals_state, fs_tables = tables,
                fs_reps = dict_repeat_offsets d, fs_scratch = scratch, fs_out = out\<rparr>)))"

definition reserve_content :: "zstandard_frame_header \<Rightarrow> decoder_options \<Rightarrow> cursor \<Rightarrow> decode_out \<Rightarrow> decode_out result" where
  "reserve_content h opts c out =
     (case content_size h of
        None \<Rightarrow> Ok out
      | Some declared \<Rightarrow>
          and_then (ensure_total_size_limit (dout_len out) declared (opt_max_output_size opts)) (\<lambda>_.
          and_then (cursor_remaining c) (\<lambda>rest.
          let reserve = unat declared;
              expansion_bound = saturating_mul (length rest div (BLOCK_HEADER_SIZE + 1)) (unat (block_size_max h))
          in dout_try_reserve out (saturating_add (min reserve expansion_bound) 32))))"

definition check_checksum :: "zstandard_frame_header \<Rightarrow> decoder_options \<Rightarrow> usize \<Rightarrow> frame_state \<Rightarrow> frame_state result" where
  "check_checksum h opts frame_start st =
     (if checksum h then
        and_then (cursor_read_u32_le (fs_cursor st)) (\<lambda>(expected, c).
        and_then (if opt_verify_checksum opts then
            and_then (idx_from (dout_slice (fs_out st)) frame_start) (\<lambda>content.
            and_then (xxh64 content 0) (\<lambda>hash.
            let actual = (ucast hash :: u32) in
            if actual \<noteq> expected then Err (ChecksumMismatch expected actual) else Ok ()))
          else Ok ()) (\<lambda>_. Ok (st\<lparr>fs_cursor := c\<rparr>)))
      else Ok st)"

definition check_content_size :: "zstandard_frame_header \<Rightarrow> usize \<Rightarrow> decode_out \<Rightarrow> unit result" where
  "check_content_size h frame_start out =
     (case content_size h of
        None \<Rightarrow> Ok ()
      | Some expected \<Rightarrow>
          if dout_len out < frame_start then Fault else
          let actual = word_of_nat (dout_len out - frame_start) in
          if actual \<noteq> expected then Err (ContentSizeMismatch expected actual) else Ok ())"

definition decode_zstandard_frame ::
    "cursor \<Rightarrow> zstandard_frame_header \<Rightarrow> decoder_options \<Rightarrow> dictionary option \<Rightarrow> bytes \<Rightarrow> decode_out \<Rightarrow>
     (cursor \<times> bytes \<times> decode_out) result" where
  "decode_zstandard_frame c h opts dict scratch out =
     and_then (cursor_read_exact c (header_size h)) (\<lambda>(_, c).
     and_then (frame_dictionary dict (dictionary_id h)) (\<lambda>dict.
     and_then (check_window_size (window_size h) (opt_max_window_size opts)) (\<lambda>_.
     let frame_start = dout_len out in
     and_then (frame_start_state dict c scratch out) (\<lambda>st.
     and_then (reserve_content h opts c out) (\<lambda>out.
     and_then (decode_frame_blocks h opts dict frame_start (st\<lparr>fs_out := out\<rparr>)) (\<lambda>st.
     and_then (check_checksum h opts frame_start st) (\<lambda>st.
     and_then (check_content_size h frame_start (fs_out st)) (\<lambda>_.
       Ok (fs_cursor st, fs_scratch st, fs_out st)))))))))"

definition skip_skippable_frame :: "cursor \<Rightarrow> skippable_frame \<Rightarrow> cursor result" where
  "skip_skippable_frame c f =
     and_then (ok_or (checked_add (skip_header_size f) (unat (skip_size f))) OutputSizeOverflow) (\<lambda>total_size.
     and_then (cursor_read_exact c total_size) (\<lambda>(_, c). Ok c))"

subsection \<open>The walk over the input\<close>

definition cursor_after :: "cursor \<Rightarrow> cursor \<Rightarrow> bool" where
  "cursor_after c c' \<longleftrightarrow> cur_src c' = cur_src c \<and> cur_pos c \<le> cur_pos c' \<and> cur_pos c' \<le> length (cur_src c)"

lemma read_u32_after: "cursor_read_u32_le c = Ok (v, c') \<Longrightarrow> cursor_after c c'"
  by (auto simp: cursor_read_u32_le_def cursor_read_exact_Ok cursor_after_def)

lemma check_checksum_after:
  "check_checksum h opts frame_start st = Ok st' \<Longrightarrow> cur_pos (fs_cursor st) \<le> length (cur_src (fs_cursor st)) \<Longrightarrow>
   cursor_after (fs_cursor st) (fs_cursor st')"
  by (auto simp: check_checksum_def cursor_after_def dest!: read_u32_after split: if_splits)

lemma frame_start_cursor: "frame_start_state dict c scratch out = Ok st \<Longrightarrow> fs_cursor st = c"
  by (auto simp: frame_start_state_def split: option.splits)

lemma decode_zstandard_frame_advances:
  assumes "decode_zstandard_frame c h opts dict scratch out = Ok (c', scratch', out')"
  shows "cur_src c' = cur_src c \<and> cur_pos c < cur_pos c' \<and> cur_pos c' \<le> length (cur_src c)"
proof -
  from assms obtain bs c1 dict' st out1 st1 st2 where "cursor_read_exact c (header_size h) = Ok (bs, c1)"
    and "frame_start_state dict' c1 scratch out = Ok st"
    and b: "decode_frame_blocks h opts dict' (dout_len out) (st\<lparr>fs_out := out1\<rparr>) = Ok st1"
    and c: "check_checksum h opts (dout_len out) st1 = Ok st2" and "fs_cursor st2 = c'"
    by (simp only: decode_zstandard_frame_def Let_def run_simps) blast
  with decode_frame_blocks_advances [OF b] check_checksum_after [OF c] show ?thesis
    by (auto simp: cursor_read_exact_Ok cursor_after_def dest!: frame_start_cursor)
qed

lemma skip_advances:
  assumes "cursor_remaining c = Ok rest" and "parse_frame_header_with_format rest fmt = Ok (Skippable f)"
    and "skip_skippable_frame c f = Ok c'"
  shows "cur_src c' = cur_src c \<and> cur_pos c < cur_pos c' \<and> cur_pos c' \<le> length (cur_src c)"
  using header.used_pos [OF assms(2)] assms(1,3)
  by (auto simp: cursor_remaining_def skip_skippable_frame_def cursor_read_exact_Ok)

function decode_frames ::
    "decoder_options \<Rightarrow> dictionary option \<Rightarrow> cursor \<Rightarrow> bytes \<Rightarrow> decode_out \<Rightarrow> (bytes \<times> decode_out) result" where
  "decode_frames opts dict c scratch out =
     (if cursor_is_empty c then Ok (scratch, out) else
      and_then (cursor_remaining c) (\<lambda>rest.
      and_then (parse_frame_header_with_format rest (opt_format opts)) (\<lambda>fh. case fh of
         Skippable f \<Rightarrow>
           if opt_single_frame opts then Err (TrailingInput (cur_pos c)) else
           and_then (skip_skippable_frame c f) (\<lambda>c. decode_frames opts dict c scratch out)
       | Zstandard h \<Rightarrow>
           and_then (decode_zstandard_frame c h opts dict scratch out) (\<lambda>(c, scratch, out).
           if opt_single_frame opts \<and> \<not> cursor_is_empty c then Err (TrailingInput (cur_pos c))
           else decode_frames opts dict c scratch out))))"
  by pat_completeness auto

termination
  by (relation "measure (\<lambda>(opts, dict, c, scratch, out). length (cur_src c) - cur_pos c)")
    (auto dest!: decode_zstandard_frame_advances dest: skip_advances)

declare decode_frames.simps [simp del]

definition decode_into_with_scratch ::
    "bytes \<Rightarrow> decoder_options \<Rightarrow> dictionary option \<Rightarrow> bytes \<Rightarrow> decode_out \<Rightarrow> (bytes \<times> decode_out) result" where
  "decode_into_with_scratch src opts dict scratch out =
     (let out = dout_clear out in
      if src = [] then Err UnexpectedEof else decode_frames opts dict (cursor_new src) scratch out)"

definition decode_all_with_scratch ::
    "bytes \<Rightarrow> decoder_options \<Rightarrow> dictionary option \<Rightarrow> bytes \<Rightarrow> (bytes \<times> bytes) result" where
  "decode_all_with_scratch src opts dict scratch =
     and_then (decode_into_with_scratch src opts dict scratch (decode_growable [])) (\<lambda>(scratch, out).
       Ok (dout_slice out, scratch))"

text \<open>Into a slice: the number of bytes filled and the slice.\<close>

definition decode_into_slice_with_scratch ::
    "bytes \<Rightarrow> decoder_options \<Rightarrow> dictionary option \<Rightarrow> bytes \<Rightarrow> bytes \<Rightarrow> (usize \<times> bytes \<times> bytes) result" where
  "decode_into_slice_with_scratch src opts dict scratch dst =
     and_then (decode_into_with_scratch src opts dict scratch (decode_fixed dst)) (\<lambda>(scratch, out).
       Ok (dout_len out, region (region_of out), scratch))"

subsection \<open>Entry points\<close>

definition decode_all_with_options :: "bytes \<Rightarrow> decoder_options \<Rightarrow> bytes result" where
  "decode_all_with_options src opts =
     and_then (decode_all_with_scratch src opts None []) (\<lambda>(content, _). Ok content)"

definition decode_all :: "bytes \<Rightarrow> bytes result" where
  "decode_all src = decode_all_with_options src decoder_options_default"

definition decode_all_with_prepared_dict_and_options :: "bytes \<Rightarrow> dictionary \<Rightarrow> decoder_options \<Rightarrow> bytes result" where
  "decode_all_with_prepared_dict_and_options src dict opts =
     and_then (decode_all_with_scratch src opts (Some dict) []) (\<lambda>(content, _). Ok content)"

definition decode_all_with_dict_and_options :: "bytes \<Rightarrow> bytes \<Rightarrow> decoder_options \<Rightarrow> bytes result" where
  "decode_all_with_dict_and_options src dict opts =
     and_then (parse_decoder_dictionary dict) (\<lambda>dictionary.
       decode_all_with_prepared_dict_and_options src dictionary opts)"

definition decode_into_slice_with_options :: "bytes \<Rightarrow> bytes \<Rightarrow> decoder_options \<Rightarrow> (usize \<times> bytes) result" where
  "decode_into_slice_with_options src dst opts =
     and_then (decode_into_slice_with_scratch src opts None [] dst) (\<lambda>(n, dst, _). Ok (n, dst))"

end
