(* ===== verification/DecodeProps.thy ===== *)
theory DecodeProps
  imports Decode
begin

section \<open>What a frame says, and the decoder\<close>

text \<open>
  The abstract account of frames that \<open>src/src/decode.rs\<close> implements: relations that say which content the bytes
  of a block, of a frame and of an input spell, without any output buffer, limit or wild copy. The content of a
  compressed block is its literals and the sequences of its bitstream, executed one byte at a time. The
  one-shot decoder never faults, and what it returns is what the input spells.
\<close>

subsection \<open>The account\<close>

record coding =
  cd_table :: "huffman_dtable option"
  cd_tables :: sequence_tables
  cd_reps :: repeat_offsets
  cd_content :: bytes

text \<open>The tables with baselines that a block uses, built from the plain ones where these are newer.\<close>

definition ready_tables :: "sequence_tables \<Rightarrow> sequence_tables result" where
  "ready_tables tables =
     and_then (setup_table (\<lambda>dt. build_sequence_dtable_from dt LITERAL_LENGTH_BASELINES LITERAL_LENGTH_EXTRA_BITS)
         (Corruption ''missing literal-length FSE table'') (literal_lengths tables) (seq_ll tables) (ll_dirty tables)
         (has_ll tables)) (\<lambda>(t, dirty, has).
     let tables = tables\<lparr>seq_ll := t, ll_dirty := dirty, has_ll := has\<rparr> in
     and_then (setup_table build_offset_sequence_dtable_from
         (Corruption ''missing offset FSE table'') (offsets tables) (seq_of tables) (of_dirty tables)
         (has_of tables)) (\<lambda>(t, dirty, has).
     let tables = tables\<lparr>seq_of := t, of_dirty := dirty, has_of := has\<rparr> in
     and_then (setup_table (\<lambda>dt. build_sequence_dtable_from dt MATCH_LENGTH_BASELINES MATCH_LENGTH_EXTRA_BITS)
         (Corruption ''missing match-length FSE table'') (match_lengths tables) (seq_ml tables) (ml_dirty tables)
         (has_ml tables)) (\<lambda>(t, dirty, has).
       Ok (tables\<lparr>seq_ml := t, ml_dirty := dirty, has_ml := has\<rparr>))))"

text \<open>The sequences of a parsed section, and the tables it leaves.\<close>

definition section_sequences :: "parsed_section \<Rightarrow> sequence_tables \<Rightarrow> sequence_tables \<Rightarrow> sequence_command list \<Rightarrow> bool" where
  "section_sequences p tables tables' cs \<longleftrightarrow>
     (if number_of_sequences p = 0 then tables' = tables \<and> cs = []
      else ready_tables tables = Ok tables'
        \<and> block_commands tables' (section_bitstream p) (number_of_sequences p) = Some cs)"

inductive block_spells :: "bytes option \<Rightarrow> usize \<Rightarrow> usize \<Rightarrow> block_header \<Rightarrow> bytes \<Rightarrow> coding \<Rightarrow> coding \<Rightarrow> bool"
  for dict win bsm where
  raw: "block_kind bh = Raw \<Longrightarrow> length data = unat (block_size bh) \<Longrightarrow> length data \<le> bsm \<Longrightarrow>
    block_spells dict win bsm bh data s (s\<lparr>cd_content := cd_content s @ data\<rparr>)"
| rle: "block_kind bh = Rle \<Longrightarrow> unat (block_size bh) \<le> bsm \<Longrightarrow>
    block_spells dict win bsm bh [b] s (s\<lparr>cd_content := cd_content s @ replicate (unat (block_size bh)) b\<rparr>)"
| compressed: "block_kind bh = Compressed \<Longrightarrow> length data = unat (block_size bh) \<Longrightarrow>
    decode_literals_section_into data (cd_table s) bsm scratch = Ok (n, lits, table', scratch') \<Longrightarrow>
    parse_sequence_section (drop n data) (cd_tables s) SequenceOnly = Ok (p, tables1) \<Longrightarrow>
    section_sequences p tables1 tables' cs \<Longrightarrow>
    lz_sequences dict win (cd_content s) (cd_reps s) (literals_slice lits) cs = Some (w, reps', rest) \<Longrightarrow>
    length (w @ rest) \<le> length (cd_content s) + bsm \<Longrightarrow>
    block_spells dict win bsm bh data s \<lparr>cd_table = table', cd_tables = tables', cd_reps = reps', cd_content = w @ rest\<rparr>"

text \<open>The block that begins at a position, and where the next one does.\<close>

definition block_at :: "bytes \<Rightarrow> usize \<Rightarrow> block_header \<Rightarrow> bytes \<Rightarrow> usize \<Rightarrow> bool" where
  "block_at src pos bh data pos' \<longleftrightarrow> parse_block_header (take 3 (drop pos src)) = Ok bh
     \<and> pos' = pos + 3 + payload_size bh \<and> pos' \<le> length src \<and> data = take (payload_size bh) (drop (pos + 3) src)"

inductive blocks_spell :: "bytes option \<Rightarrow> usize \<Rightarrow> usize \<Rightarrow> bytes \<Rightarrow> usize \<Rightarrow> coding \<Rightarrow> usize \<Rightarrow> coding \<Rightarrow> bool"
  for dict win bsm src where
  final: "block_at src pos bh data pos' \<Longrightarrow> block_spells dict win bsm bh data s s' \<Longrightarrow> last_block bh \<Longrightarrow>
    blocks_spell dict win bsm src pos s pos' s'"
| more: "block_at src pos bh data pos1 \<Longrightarrow> block_spells dict win bsm bh data s s1 \<Longrightarrow> \<not> last_block bh \<Longrightarrow>
    blocks_spell dict win bsm src pos1 s1 pos' s' \<Longrightarrow> blocks_spell dict win bsm src pos s pos' s'"

text \<open>What the frame starts with, and its trailer.\<close>

definition first_coding :: "dictionary option \<Rightarrow> coding result" where
  "first_coding dict =
     and_then (frame_start_state dict (cursor_new []) [] (decode_growable [])) (\<lambda>st.
       Ok \<lparr>cd_table = fs_literals_state st, cd_tables = fs_tables st, cd_reps = fs_reps st, cd_content = []\<rparr>)"

definition trailer_ok :: "zstandard_frame_header \<Rightarrow> bool \<Rightarrow> bytes \<Rightarrow> usize \<Rightarrow> bytes \<Rightarrow> usize \<Rightarrow> bool" where
  "trailer_ok h verify src pos content pos' \<longleftrightarrow>
     (if checksum h then pos' = pos + 4 \<and> pos + 4 \<le> length src
        \<and> (verify \<longrightarrow> (\<exists>hash. xxh64 content 0 = Ok hash \<and> ucast hash = (word_of_nat (le_nat (take 4 (drop pos src))) :: u32)))
      else pos' = pos)"

definition frame_spells :: "decoder_options \<Rightarrow> dictionary option \<Rightarrow> bytes \<Rightarrow> usize \<Rightarrow> usize \<Rightarrow> bytes \<Rightarrow> bool" where
  "frame_spells opts dict src pos pos' content \<longleftrightarrow> (\<exists>h d dc s s' p.
     parse_frame_header_with_format (drop pos src) (opt_format opts) = Ok (Zstandard h)
     \<and> frame_dictionary dict (dictionary_id h) = Ok d \<and> map_content d = Ok dc
     \<and> (\<forall>m. opt_max_window_size opts = Some m \<longrightarrow> window_size h \<le> m)
     \<and> first_coding d = Ok s
     \<and> blocks_spell dc (unat (window_size h)) (unat (block_size_max h)) src (pos + header_size h) s p s'
     \<and> content = cd_content s'
     \<and> trailer_ok h (opt_verify_checksum opts) src p content pos'
     \<and> (\<forall>n. content_size h = Some n \<longrightarrow> length content = unat n))"

inductive frames_spell :: "decoder_options \<Rightarrow> dictionary option \<Rightarrow> bytes \<Rightarrow> usize \<Rightarrow> bytes \<Rightarrow> bool"
  for opts dict src where
  at_end: "frames_spell opts dict src (length src) []"
| skip: "parse_frame_header_with_format (drop pos src) (opt_format opts) = Ok (Skippable f) \<Longrightarrow> \<not> opt_single_frame opts \<Longrightarrow>
    frames_spell opts dict src (pos + (skip_header_size f + unat (skip_size f))) w \<Longrightarrow> frames_spell opts dict src pos w"
| frame: "frame_spells opts dict src pos pos' content \<Longrightarrow> (opt_single_frame opts \<Longrightarrow> pos' = length src) \<Longrightarrow>
    frames_spell opts dict src pos' w \<Longrightarrow> frames_spell opts dict src pos (content @ w)"

subsection \<open>Blocks\<close>

lemma decode_setup_ready: "decode_setup tables out bsm limit = Ok (tables', out', a, b) \<Longrightarrow> ready_tables tables = Ok tables'"
  by (auto simp: decode_setup_def ready_tables_def Let_def)

lemma decode_and_execute_ready:
  assumes "decode_and_execute_sequences p tables out fs win bsm dict lits reps limit = Ok (tables', out', reps')"
  shows "if number_of_sequences p = 0 then tables' = tables else ready_tables tables = Ok tables'"
  using assms
  by (auto simp: decode_and_execute_sequences_def decode_and_execute_sequences_unified_def Let_def dest: decode_setup_ready
      split: if_splits)

definition cap_ok :: "usize option \<Rightarrow> usize \<Rightarrow> bool" where
  "cap_ok cap n \<longleftrightarrow> (\<forall>m. cap = Some m \<longrightarrow> n \<le> m)"

abbreviation limit_ok :: "output_limit \<Rightarrow> usize \<Rightarrow> bool" where
  "limit_ok lim n \<equiv> cap_ok (max_output_size lim) (produced_before lim + n)"

lemma whole_output_fields [simp]: "produced_before (whole_output cap) = 0" "max_output_size (whole_output cap) = cap"
  by (simp_all add: whole_output_def)

lemma cap_left: "limit_ok lim n \<Longrightarrow> produced_before lim + n \<le> usize_max \<Longrightarrow> n' \<le> n + limit_left lim n \<Longrightarrow> limit_ok lim n'"
  by (auto simp: cap_ok_def limit_left_def produced_def saturating_add_def split: option.splits)

text \<open>The output after a block, in terms of the account.\<close>

definition out_spells :: "bytes option \<Rightarrow> usize \<Rightarrow> usize \<Rightarrow> usize \<Rightarrow> block_header \<Rightarrow> bytes \<Rightarrow> coding \<Rightarrow> decode_out \<Rightarrow> coding \<Rightarrow> decode_out \<Rightarrow> bool" where
  "out_spells dict win bsm fs bh data s out s' out' \<longleftrightarrow> keeps out out' \<and> dout_len out' \<le> dout_len out + bsm
     \<and> dout_slice out' = take fs (dout_slice out) @ cd_content s' \<and> huffman_state_ok (cd_table s') \<and> tables_ok (cd_tables s')
     \<and> reps_ok (cd_reps s') \<and> block_spells dict win bsm bh data s s'"

lemma decode_compressed_block_meets:
  assumes st: "huffman_state_ok lit" and t: "tables_ok tables" and r: "reps_ok reps" and out: "dout_ok out" and fs: "fs \<le> dout_len out"
    and u: "length src \<le> usize_max" and room: "produced_before lim + dout_len out + bsm + 32 \<le> isize_max" and w: "win < OFFSET_SENTINEL"
    and bh: "block_kind bh = Compressed" "length src = unat (block_size bh)"
  shows "meets (decode_compressed_block_into src bsm fs win dict lit tables reps scratch out lim)
    (\<lambda>(lit', tables', reps', scratch', out'). dout_len out' \<le> dout_len out + limit_left lim (dout_len out) \<and> (\<exists>content.
       out_spells dict win bsm fs bh src \<lparr>cd_table = lit, cd_tables = tables, cd_reps = reps, cd_content = drop fs (dout_slice out)\<rparr> out
         \<lparr>cd_table = lit', cd_tables = tables', cd_reps = reps', cd_content = content\<rparr> out'))"
proof -
  let ?P = "\<lambda>(lit', tables', reps', scratch', out'). dout_len out' \<le> dout_len out + limit_left lim (dout_len out) \<and> (\<exists>content.
       out_spells dict win bsm fs bh src \<lparr>cd_table = lit, cd_tables = tables, cd_reps = reps, cd_content = drop fs (dout_slice out)\<rparr> out
         \<lparr>cd_table = lit', cd_tables = tables', cd_reps = reps', cd_content = content\<rparr> out')"
  have here: "dout_len out + bsm + 32 \<le> isize_max" using room by simp
  have exec: "meets (decode_and_execute_sequences p tables1 out fs win bsm dict l reps lim)
      (\<lambda>(tables', out', reps'). ?P (lit', tables', reps', scratch', out'))"
    if L: "decode_literals_section_into src lit bsm scratch = Ok (k, l, lit', scratch')" "literals_ok src bsm (k, l, lit', scratch')"
      and S: "parse_sequence_section (drop k src) tables SequenceOnly = Ok (p, tables1)" "tables_ok tables1"
    for k l lit' scratch' p tables1
  proof -
    have l: "literals_len l + 16 \<le> length (padded l)" "huffman_state_ok lit'"
      using L(2) by (simp_all add: literals_ok_def LITERAL_OVERREAD_HEADROOM_def)
    have sent: "min (dout_len out + bsm - fs) win < OFFSET_SENTINEL" using w by simp
    show ?thesis
    proof (rule meets_mono [OF decode_and_execute_meets [OF S(2) out fs r l(1) here sent]])
      fix x assume x: "decode_and_execute_sequences p tables1 out fs win bsm dict l reps lim = Ok x"
        and ok: "exec_result_ok dict win fs p out reps (literals_slice l) (min bsm (limit_left lim (dout_len out))) x"
      obtain tables' out' reps' where e: "x = (tables', out', reps')" by (cases x)
      from ok obtain cs w' rest where R: "tables_ok tables'" "reps_ok reps'" "keeps out out'"
          "dout_len out' \<le> dout_len out + min bsm (limit_left lim (dout_len out))"
          "if number_of_sequences p = 0 then cs = [] else block_commands tables' (section_bitstream p) (number_of_sequences p) = Some cs"
          "lz_sequences dict win (drop fs (dout_slice out)) reps (literals_slice l) cs = Some (w', reps', rest)"
          "dout_slice out' = take fs (dout_slice out) @ w' @ rest"
        by (auto simp: exec_result_ok_def e)
      have sq: "section_sequences p tables1 tables' cs"
        using R(5) decode_and_execute_ready [OF x [unfolded e]] by (auto simp: section_sequences_def split: if_splits)
      have "length (w' @ rest) \<le> length (drop fs (dout_slice out)) + bsm"
        using R(4,7) fs length_dout_slice [OF out] length_dout_slice [OF keeps_ok [OF R(3)]] by simp
      then have "block_spells dict win bsm bh src
          \<lparr>cd_table = lit, cd_tables = tables, cd_reps = reps, cd_content = drop fs (dout_slice out)\<rparr>
          \<lparr>cd_table = lit', cd_tables = tables', cd_reps = reps', cd_content = w' @ rest\<rparr>"
        using L(1) S(1) sq R(6) by (intro block_spells.compressed [OF bh]) simp_all
      then show "(\<lambda>(tables', out', reps'). ?P (lit', tables', reps', scratch', out')) x"
        using R l(2) by (auto simp: e out_spells_def)
    qed
  qed
  define P :: "block_result \<Rightarrow> bool" where "P = ?P"
  show ?thesis unfolding P_def [symmetric] decode_compressed_block_into_def meets_and_then [of "decode_literals_section_into _ _ _ _"]
  proof (rule meets_mono [OF decode_literals_section_meets [OF st]])
    fix x assume L: "decode_literals_section_into src lit bsm scratch = Ok x" "literals_ok src bsm x"
    obtain k l lit' scratch' where e: "x = (k, l, lit', scratch')" by (cases x)
    have k: "k \<le> length src" using L(2) by (simp add: literals_ok_def e)
    have u': "length (drop k src) \<le> usize_max" using u by simp
    have "meets (parse_sequence_section (drop k src) tables SequenceOnly) (\<lambda>(p, tables1). 
      meets (if number_of_sequences p = 0 \<and> section_header_size p \<noteq> length (drop k src)
        then Err (Corruption ''zero-sequence blocks must not contain additional sequence payload'') else
        and_then (decode_and_execute_sequences p tables1 out fs win bsm dict l reps lim)
       (\<lambda>(tables, out, reps). Ok (lit', tables, reps, scratch', out))) P)"
    proof (rule meets_mono [OF parse_sequence_section_meets [OF t u']])
      fix y assume S: "parse_sequence_section (drop k src) tables SequenceOnly = Ok y" "section_ok (drop k src) y"
      obtain p tables1 where y: "y = (p, tables1)" by (cases y)
      have "tables_ok tables1" using S(2) by (simp add: section_ok_def y)
      from exec [OF L(1) [unfolded e] L(2) [unfolded e] S(1) [unfolded y] this, folded P_def]
      show "case y of (p, tables1) \<Rightarrow> meets (if number_of_sequences p = 0 \<and> section_header_size p \<noteq> length (drop k src)
        then Err (Corruption ''zero-sequence blocks must not contain additional sequence payload'') else
        and_then (decode_and_execute_sequences p tables1 out fs win bsm dict l reps lim)
       (\<lambda>(tables, out, reps). Ok (lit', tables, reps, scratch', out))) P"
        by (auto simp: y elim!: meets_mono)
    qed
    then show "meets (case x of (literals_size, literals, literals_state, scratch) \<Rightarrow>
       if bsm < literals_len literals
       then Err (Corruption ''compressed block literals exceed the frame block size limit'') else
       and_then (ok_or (get_from src literals_size) UnexpectedEof) (\<lambda>sequence_section.
       and_then (parse_sequence_section sequence_section tables SequenceOnly) (\<lambda>(parsed, tables).
       if number_of_sequences parsed = 0 \<and> section_header_size parsed \<noteq> length sequence_section
       then Err (Corruption ''zero-sequence blocks must not contain additional sequence payload'') else
       and_then (decode_and_execute_sequences parsed tables out fs win bsm dict literals reps lim)
         (\<lambda>(tables, out, reps). Ok (literals_state, tables, reps, scratch, out))))) P"
      using k
      by (cases "bsm < literals_len l") (simp_all add: e get_from_def case_prod_unfold, erule meets_mono,
          simp add: case_prod_unfold split: if_split_asm)
  qed
qed

text \<open>Blocks that are not compressed.\<close>

lemma dout_append_repeated_keeps:
  assumes "dout_append_repeated out byte n = Ok out'" and "dout_ok out"
  shows "keeps out out'"
proof (cases "n = 0")
  case True
  then show ?thesis using assms by (simp add: dout_append_repeated_def keeps_refl)
next
  case False
  with assms(1) obtain o1 where o1: "ensure_room out n = Ok o1" "dout_fill o1 (dout_len o1) byte n = Ok out'"
    by (auto simp: dout_append_repeated_def)
  note k = ensure_room_keeps [OF o1(1) assms(2)]
  have "keeps o1 out'"
    using o1(2) keeps_ok [OF k] by (cases o1) (auto simp: keeps_def dout_ok_def dout_len_def dout_capacity_def Let_def)
  with k show ?thesis by (rule keeps_trans)
qed

lemma checked_total:
  "meets (and_then (checked_output_len n k) (\<lambda>new_len. and_then (check_total lim new_len) (\<lambda>_. m))) P"
  if "limit_ok lim (n + k) \<Longrightarrow> meets m P" and "n + k \<le> usize_max \<Longrightarrow> produced_before lim + (n + k) \<le> usize_max"
  using that by (auto simp: checked_output_len_def check_total_def produced_def saturating_add_def cap_ok_def
      split: option.splits)

lemma append_bytes_meets:
  assumes "dout_ok out" and "dout_len out + length bs \<le> usize_max \<Longrightarrow> produced_before lim + (dout_len out + length bs) \<le> usize_max"
  shows "meets (append_bytes out bs lim) (\<lambda>out'. keeps out out' \<and> dout_slice out' = dout_slice out @ bs
    \<and> dout_len out' = dout_len out + length bs \<and> limit_ok lim (dout_len out'))"
  unfolding append_bytes_def
proof (rule checked_total [OF _ assms(2)])
  assume "limit_ok lim (dout_len out + length bs)"
  then show "meets (dout_append out bs) (\<lambda>out'. keeps out out' \<and> dout_slice out' = dout_slice out @ bs
    \<and> dout_len out' = dout_len out + length bs \<and> limit_ok lim (dout_len out'))"
    using dout_append_run [OF assms(1), of bs] length_dout_slice [OF assms(1)] length_dout_slice [OF keeps_ok, of out]
    by (fastforce split: if_splits)
qed

lemma append_repeated_meets:
  assumes "dout_ok out" and "dout_len out + n \<le> usize_max \<Longrightarrow> produced_before lim + (dout_len out + n) \<le> usize_max"
  shows "meets (append_repeated out b n lim) (\<lambda>out'. keeps out out' \<and> dout_slice out' = dout_slice out @ replicate n b
    \<and> dout_len out' = dout_len out + n \<and> limit_ok lim (dout_len out'))"
  unfolding append_repeated_def
proof (rule checked_total [OF _ assms(2)])
  assume c: "limit_ok lim (dout_len out + n)"
  show "meets (dout_append_repeated out b n) (\<lambda>out'. keeps out out' \<and> dout_slice out' = dout_slice out @ replicate n b
    \<and> dout_len out' = dout_len out + n \<and> limit_ok lim (dout_len out'))"
  proof (cases "dout_append_repeated out b n")
    case (Ok out')
    have k: "keeps out out'" using dout_append_repeated_keeps [OF Ok assms(1)] .
    have "dout_slice out' = dout_slice out @ replicate n b"
      using dout_append_repeated_spec [OF assms(1), of n b] Ok by (auto simp: dout_append_repeated_def split: if_splits)
    with k c Ok length_dout_slice [OF assms(1)] length_dout_slice [OF keeps_ok [OF k]] show ?thesis by simp
  next
    case Fault
    then show ?thesis using dout_append_repeated_spec [OF assms(1), of n b] by (auto simp: dout_append_repeated_def split: if_splits)
  qed simp
qed

definition coding_of :: "usize \<Rightarrow> frame_state \<Rightarrow> coding" where
  "coding_of fs st = \<lparr>cd_table = fs_literals_state st, cd_tables = fs_tables st, cd_reps = fs_reps st,
     cd_content = drop fs (dout_slice (fs_out st))\<rparr>"

text \<open>Every block takes at least three bytes and adds at most the largest block, so the output is bounded by the input.\<close>

definition frame_inv :: "bytes \<Rightarrow> usize \<Rightarrow> usize option \<Rightarrow> usize \<Rightarrow> frame_state \<Rightarrow> bool" where
  "frame_inv src fs cap pos st \<longleftrightarrow> cur_src (fs_cursor st) = src \<and> cur_pos (fs_cursor st) \<le> length src
     \<and> dout_ok (fs_out st) \<and> fs \<le> dout_len (fs_out st) \<and> dout_len (fs_out st) \<le> pos * 2 ^ 17
     \<and> huffman_state_ok (fs_literals_state st) \<and> tables_ok (fs_tables st) \<and> reps_ok (fs_reps st)
     \<and> cap_ok cap (dout_len (fs_out st))"

definition block_done_ok :: "bytes option \<Rightarrow> usize \<Rightarrow> usize \<Rightarrow> usize \<Rightarrow> bytes \<Rightarrow> usize option \<Rightarrow> block_header \<Rightarrow> frame_state \<Rightarrow> frame_state \<Rightarrow> bool" where
  "block_done_ok dc win bsm fs src cap bh st st' \<longleftrightarrow>
     (let pos = cur_pos (fs_cursor st) in
      cur_pos (fs_cursor st') = pos + payload_size bh \<and> frame_inv src fs cap (pos + payload_size bh) st'
      \<and> keeps (fs_out st) (fs_out st') \<and> take fs (dout_slice (fs_out st')) = take fs (dout_slice (fs_out st))
      \<and> block_spells dc win bsm bh (take (payload_size bh) (drop pos src)) (coding_of fs st) (coding_of fs st'))"

lemma decode_block_payload_meets:
  assumes inv: "frame_inv src fs cap (cur_pos (fs_cursor st) - 1) st" and pos: "1 \<le> cur_pos (fs_cursor st)"
    and b: "unat (block_size_max h) \<le> 2 ^ 17" and w: "unat (window_size h) < OFFSET_SENTINEL"
    and u: "length src \<le> 2 ^ 45" and d: "map_content dict = Ok dc" and cap: "opt_max_output_size opts = cap"
  shows "meets (decode_block_payload h opts dict fs bh st)
    (block_done_ok dc (unat (window_size h)) (unat (block_size_max h)) fs src cap bh st)"
proof -
  let ?out = "fs_out st" and ?pos = "cur_pos (fs_cursor st)" and ?bsm = "unat (block_size_max h)"
  have I: "cur_src (fs_cursor st) = src" "dout_ok ?out" "fs \<le> dout_len ?out" "dout_len ?out + 2 ^ 17 \<le> ?pos * 2 ^ 17"
    "?pos \<le> length src" "cap_ok cap (dout_len ?out)" "huffman_state_ok (fs_literals_state st)" "tables_ok (fs_tables st)" "reps_ok (fs_reps st)"
    using inv pos by (auto simp: frame_inv_def algebra_simps)
  have sl: "length (dout_slice ?out) = dout_len ?out" using I(2) by (rule length_dout_slice)
  have grown: "dout_len ?out + n \<le> (?pos + k) * 2 ^ 17" if "n \<le> ?bsm" for n k
    using I(4) that b by (simp add: algebra_simps)
  show ?thesis
  proof (cases "block_kind bh")
    case Raw
    let ?n = "unat (block_size bh)"
    let ?data = "take ?n (drop ?pos src)" and ?c = "(fs_cursor st)\<lparr>cur_pos := ?pos + ?n\<rparr>"
    have p: "payload_size bh = ?n" by (simp add: payload_size_def Raw)
    have "block_done_ok dc (unat (window_size h)) ?bsm fs src cap bh st (st\<lparr>fs_cursor := ?c, fs_out := out'\<rparr>)"
      if n: "?n \<le> ?bsm" "?pos + ?n \<le> length src"
        and o: "keeps ?out out'" "dout_slice out' = dout_slice ?out @ ?data" "dout_len out' = dout_len ?out + ?n" "cap_ok cap (dout_len out')"
      for out'
    proof -
      have "block_spells dc (unat (window_size h)) ?bsm bh ?data (coding_of fs st)
          ((coding_of fs st)\<lparr>cd_content := cd_content (coding_of fs st) @ ?data\<rparr>)"
        using n by (intro block_spells.raw [OF Raw]) simp_all
      moreover have "(coding_of fs st)\<lparr>cd_content := cd_content (coding_of fs st) @ ?data\<rparr>
          = coding_of fs (st\<lparr>fs_cursor := ?c, fs_out := out'\<rparr>)"
        using o(2) I(3) sl by (simp add: coding_of_def)
      ultimately show ?thesis
        using I n o grown [OF n(1), of ?n] keeps_ok [OF o(1)] sl by (simp add: block_done_ok_def frame_inv_def p)
    qed
    then show ?thesis
      using I(1,2) by (auto simp: decode_block_payload_def Raw cap p cursor_read_exact_def word_le_nat_alt not_less
          intro!: meets_mono [OF append_bytes_meets [OF I(2)]])
  next
    case Rle
    let ?n = "unat (block_size bh)" and ?b = "src ! ?pos"
    let ?c = "(fs_cursor st)\<lparr>cur_pos := ?pos + 1\<rparr>"
    have p: "payload_size bh = 1" by (simp add: payload_size_def Rle)
    have "block_done_ok dc (unat (window_size h)) ?bsm fs src cap bh st (st\<lparr>fs_cursor := ?c, fs_out := out'\<rparr>)"
      if n: "?n \<le> ?bsm" "?pos < length src"
        and o: "keeps ?out out'" "dout_slice out' = dout_slice ?out @ replicate ?n ?b" "dout_len out' = dout_len ?out + ?n"
          "cap_ok cap (dout_len out')"
      for out'
    proof -
      have "block_spells dc (unat (window_size h)) ?bsm bh [?b] (coding_of fs st)
          ((coding_of fs st)\<lparr>cd_content := cd_content (coding_of fs st) @ replicate ?n ?b\<rparr>)"
        using n by (intro block_spells.rle [OF Rle])
      moreover have "(coding_of fs st)\<lparr>cd_content := cd_content (coding_of fs st) @ replicate ?n ?b\<rparr>
          = coding_of fs (st\<lparr>fs_cursor := ?c, fs_out := out'\<rparr>)"
        using o(2) I(3) sl by (simp add: coding_of_def)
      moreover have "take 1 (drop ?pos src) = [?b]" using n(2) by (simp add: take_Suc_conv_app_nth)
      ultimately show ?thesis
        using I n o grown [OF n(1), of 1] keeps_ok [OF o(1)] sl by (simp add: block_done_ok_def frame_inv_def p)
    qed
    then show ?thesis
      using I(1,2) by (auto simp: decode_block_payload_def Rle cap p cursor_read_u8_def word_le_nat_alt not_less
          intro!: meets_mono [OF append_repeated_meets [OF I(2)]])
  next
    case Compressed
    let ?n = "unat (block_size bh)"
    let ?data = "take ?n (drop ?pos src)" and ?c = "(fs_cursor st)\<lparr>cur_pos := ?pos + ?n\<rparr>"
    have p: "payload_size bh = ?n" by (simp add: payload_size_def Compressed)
    have room: "dout_len ?out + ?bsm + 32 \<le> isize_max"
    proof -
      have "?pos * 2 ^ 17 \<le> 2 ^ 45 * 2 ^ 17" using I(5) u by simp
      then have "dout_len ?out + 2 ^ 17 \<le> 2 ^ 62" using I(4) by simp
      then show ?thesis using b by (simp add: isize_max_def)
    qed
    have left: "cap_ok cap n" if "n \<le> dout_len ?out + limit_left (whole_output cap) (dout_len ?out)" for n
      using cap_left [of "whole_output cap" "dout_len ?out" n] that I(6) room by (simp add: isize_max_def usize_max_def)
    have okay: "block_done_ok dc (unat (window_size h)) ?bsm fs src cap bh st
        \<lparr>fs_cursor = ?c, fs_literals_state = lit', fs_tables = tables', fs_reps = reps', fs_scratch = scratch', fs_out = out'\<rparr>"
      if n: "?pos + ?n \<le> length src" and c: "cap_ok cap (dout_len out')"
        and o: "out_spells dc (unat (window_size h)) ?bsm fs bh ?data (coding_of fs st) ?out
          \<lparr>cd_table = lit', cd_tables = tables', cd_reps = reps', cd_content = content\<rparr> out'"
      for lit' tables' reps' scratch' out' content
    proof -
      have k: "keeps ?out out'" "dout_slice out' = take fs (dout_slice ?out) @ content" "dout_len out' \<le> dout_len ?out + ?bsm"
        using o by (simp_all add: out_spells_def)
      have "length (dout_slice out') = dout_len out'" using keeps_ok [OF k(1)] by (rule length_dout_slice)
      then have "fs \<le> dout_len out'" "drop fs (dout_slice out') = content" using k(2) I(3) sl by auto
      then show ?thesis
        using I n c k o grown [OF order_refl, of ?n] keeps_ok [OF k(1)] sl
        by (simp add: block_done_ok_def frame_inv_def p out_spells_def coding_of_def)
    qed
    show ?thesis
    proof (cases "?pos + ?n \<le> length src")
      case True
      have l: "length ?data = ?n" using True by simp
      have "length ?data \<le> usize_max" using u by (simp add: usize_max_def)
      from decode_compressed_block_meets [where lim = "whole_output cap" and bsm = ?bsm and dict = dc and scratch = "fs_scratch st",
          OF I(7,8,9,2,3) this _ w Compressed l] room True I(1) d
      show ?thesis
        unfolding decode_block_payload_def
        by (auto simp: Compressed cap p cursor_read_exact_def case_prod_unfold coding_of_def
            intro: okay [unfolded coding_of_def, folded I(1)] left elim!: meets_mono)
    next
      case False
      then show ?thesis using I(1) by (simp add: decode_block_payload_def Compressed p cursor_read_exact_def)
    qed
  qed
qed

lemma decode_frame_block_meets:
  assumes inv: "frame_inv src fs cap (cur_pos (fs_cursor st)) st"
    and b: "unat (block_size_max h) \<le> 2 ^ 17" and w: "unat (window_size h) < OFFSET_SENTINEL"
    and u: "length src \<le> 2 ^ 45" and d: "map_content dict = Ok dc" and cap: "opt_max_output_size opts = cap"
  shows "meets (decode_frame_block h opts dict fs st) (\<lambda>(fin, st'). \<exists>bh data.
     block_at src (cur_pos (fs_cursor st)) bh data (cur_pos (fs_cursor st')) \<and> fin = last_block bh
     \<and> block_spells dc (unat (window_size h)) (unat (block_size_max h)) bh data (coding_of fs st) (coding_of fs st')
     \<and> frame_inv src fs cap (cur_pos (fs_cursor st')) st' \<and> keeps (fs_out st) (fs_out st')
     \<and> take fs (dout_slice (fs_out st')) = take fs (dout_slice (fs_out st)))"
proof -
  let ?pos = "cur_pos (fs_cursor st)"
  let ?st = "st\<lparr>fs_cursor := (fs_cursor st)\<lparr>cur_pos := ?pos + 3\<rparr>\<rparr>"
  have s: "cur_src (fs_cursor st) = src" using inv by (simp add: frame_inv_def)
  show ?thesis
  proof (cases "?pos + 3 \<le> length src")
    case True
    have u3: "?pos + 3 \<le> usize_max" using True u by (simp add: usize_max_def)
    have hdr: "cursor_read_exact (fs_cursor st) BLOCK_HEADER_SIZE = Ok (take 3 (drop ?pos src), (fs_cursor st)\<lparr>cur_pos := ?pos + 3\<rparr>)"
      using True u3 s by (simp add: cursor_read_exact_Ok BLOCK_HEADER_SIZE_def)
    have i: "frame_inv src fs cap (cur_pos (fs_cursor ?st) - 1) ?st" "1 \<le> cur_pos (fs_cursor ?st)"
      using inv True by (auto simp: frame_inv_def)
    have co: "coding_of fs ?st = coding_of fs st" by (simp add: coding_of_def)
    have body: "meets (decode_block_payload h opts dict fs bh ?st) (\<lambda>st'. \<exists>bh' data.
       block_at src ?pos bh' data (cur_pos (fs_cursor st')) \<and> last_block bh = last_block bh'
       \<and> block_spells dc (unat (window_size h)) (unat (block_size_max h)) bh' data (coding_of fs st) (coding_of fs st')
       \<and> frame_inv src fs cap (cur_pos (fs_cursor st')) st' \<and> keeps (fs_out st) (fs_out st')
       \<and> take fs (dout_slice (fs_out st')) = take fs (dout_slice (fs_out st)))"
      if p: "parse_block_header (take 3 (drop ?pos src)) = Ok bh" for bh
    proof (rule meets_mono [OF decode_block_payload_meets [OF i b w u d cap, of bh]])
      fix st' assume k: "block_done_ok dc (unat (window_size h)) (unat (block_size_max h)) fs src cap bh ?st st'"
      then have "block_at src ?pos bh (take (payload_size bh) (drop (?pos + 3) src)) (cur_pos (fs_cursor st'))"
        using p by (auto simp: block_at_def block_done_ok_def frame_inv_def Let_def)
      then show "\<exists>bh' data. block_at src ?pos bh' data (cur_pos (fs_cursor st')) \<and> last_block bh = last_block bh'
       \<and> block_spells dc (unat (window_size h)) (unat (block_size_max h)) bh' data (coding_of fs st) (coding_of fs st')
       \<and> frame_inv src fs cap (cur_pos (fs_cursor st')) st' \<and> keeps (fs_out st) (fs_out st')
       \<and> take fs (dout_slice (fs_out st')) = take fs (dout_slice (fs_out st))"
        by (intro exI [of _ bh] exI [of _ "take (payload_size bh) (drop (?pos + 3) src)"]) (use k in \<open>auto simp: block_done_ok_def co Let_def\<close>)
    qed
    have "meets (parse_block_header (take 3 (drop ?pos src))) (\<lambda>bh. parse_block_header (take 3 (drop ?pos src)) = Ok bh)"
      using block.no_fault by (simp add: meets_iff)
    then show ?thesis unfolding decode_frame_block_def hdr and_then.simps prod.case meets_and_then
      by (rule meets_mono) (use body in \<open>auto elim!: meets_mono\<close>)
  next
    case False
    then show ?thesis using s by (simp add: decode_frame_block_def BLOCK_HEADER_SIZE_def cursor_read_exact_def)
  qed
qed

lemma decode_frame_blocks_meets:
  assumes "frame_inv src fs cap (cur_pos (fs_cursor st)) st"
    and b: "unat (block_size_max h) \<le> 2 ^ 17" and w: "unat (window_size h) < OFFSET_SENTINEL"
    and u: "length src \<le> 2 ^ 45" and d: "map_content dict = Ok dc" and cap: "opt_max_output_size opts = cap"
  shows "meets (decode_frame_blocks h opts dict fs st) (\<lambda>st'.
     blocks_spell dc (unat (window_size h)) (unat (block_size_max h)) src (cur_pos (fs_cursor st)) (coding_of fs st)
       (cur_pos (fs_cursor st')) (coding_of fs st')
     \<and> frame_inv src fs cap (cur_pos (fs_cursor st')) st' \<and> keeps (fs_out st) (fs_out st')
     \<and> take fs (dout_slice (fs_out st')) = take fs (dout_slice (fs_out st)))"
  using assms
proof (induction h opts dict fs st rule: decode_frame_blocks.induct)
  case (1 h opts dict fs st)
  let ?pos = "cur_pos (fs_cursor st)" and ?S = "blocks_spell dc (unat (window_size h)) (unat (block_size_max h)) src"
  let ?P = "\<lambda>st'. ?S ?pos (coding_of fs st) (cur_pos (fs_cursor st')) (coding_of fs st')
     \<and> frame_inv src fs cap (cur_pos (fs_cursor st')) st' \<and> keeps (fs_out st) (fs_out st')
     \<and> take fs (dout_slice (fs_out st')) = take fs (dout_slice (fs_out st))"
  show ?case unfolding decode_frame_blocks.simps [of h opts dict fs st] meets_and_then
  proof (rule meets_mono [OF decode_frame_block_meets [OF "1.prems"]], goal_cases)
    case (1 x)
    obtain fin st1 where x: "x = (fin, st1)" by (cases x)
    from 1 obtain bh data where r: "block_at src ?pos bh data (cur_pos (fs_cursor st1))" "fin = last_block bh"
      "block_spells dc (unat (window_size h)) (unat (block_size_max h)) bh data (coding_of fs st) (coding_of fs st1)"
      "frame_inv src fs cap (cur_pos (fs_cursor st1)) st1" "keeps (fs_out st) (fs_out st1)"
      "take fs (dout_slice (fs_out st1)) = take fs (dout_slice (fs_out st))" by (auto simp: x)
    show ?case
    proof (cases fin)
      case True
      then have "?P st1" using r blocks_spell.final [OF r(1,3)] by simp
      then show ?thesis using True by (simp add: x)
    next
      case False
      from "1.IH" [OF _ x [symmetric] False r(4) "1.prems"(2-)] 1(1)
      have "meets (decode_frame_blocks h opts dict fs st1) (\<lambda>st'. ?S (cur_pos (fs_cursor st1)) (coding_of fs st1)
         (cur_pos (fs_cursor st')) (coding_of fs st')
         \<and> frame_inv src fs cap (cur_pos (fs_cursor st')) st' \<and> keeps (fs_out st1) (fs_out st')
         \<and> take fs (dout_slice (fs_out st')) = take fs (dout_slice (fs_out st1)))" by blast
      then have "meets (decode_frame_blocks h opts dict fs st1) ?P"
        by (rule meets_mono) (use r False blocks_spell.more [OF r(1,3)] keeps_trans [OF r(5)] in auto)
      then show ?thesis using False by (simp add: x)
    qed
  qed
qed

subsection \<open>Frames\<close>

lemma meets_bind: "meets m P \<Longrightarrow> (\<And>x. P x \<Longrightarrow> meets (f x) Q) \<Longrightarrow> meets (and_then m f) Q"
  by (cases m) auto

lemma parse_frame_block_size:
  assumes "parse_frame_header_with_format src fmt = Ok (Zstandard h)"
  shows "unat (block_size_max h) \<le> 2 ^ 17"
proof -
  have "parse_zstandard_frame_header src fmt = Ok (Zstandard h)"
    using assms by (cases fmt) (auto simp: parse_frame_header_with_format_def parse_skippable_frame_header_def split: if_splits)
  then obtain w where w: "block_size_max h = ucast (min (w :: u64) (word_of_nat BLOCK_SIZE_MAX))"
    by (simp only: parse_zstandard_frame_header_def Let_def run_simps ok_or_Ok) auto
  have "unat (min w (word_of_nat BLOCK_SIZE_MAX)) \<le> 2 ^ 17"
    by (simp add: min_def word_le_nat_alt BLOCK_SIZE_MAX_def)
  then show ?thesis unfolding w unsigned_ucast_eq using take_bit_nat_less_eq_self le_trans by blast
qed

lemma try_reserve_meets:
  assumes "dout_ok out"
  shows "meets (dout_try_reserve out n) (\<lambda>out'. keeps out out' \<and> dout_slice out' = dout_slice out \<and> dout_len out' = dout_len out)"
proof (cases "dout_len out + n \<le> isize_max \<or> \<not> is_growable out")
  case True
  then show ?thesis using try_reserve_run [OF assms, of n] keeps_refl [OF assms] by (cases out) auto
next
  case False
  then show ?thesis by (cases out) (auto simp: dout_len_def)
qed

lemma reserve_content_meets:
  assumes "dout_ok out" and "cur_pos c \<le> length (cur_src c)"
  shows "meets (reserve_content h opts c out) (\<lambda>out'. keeps out out' \<and> dout_slice out' = dout_slice out \<and> dout_len out' = dout_len out)"
  using assms try_reserve_meets [OF assms(1)] keeps_refl [OF assms(1)]
  by (auto simp: reserve_content_def ensure_total_size_limit_def cursor_remaining_def Let_def split: option.splits)

lemma frame_dictionary_meets: "meets (frame_dictionary dict i) (\<lambda>d. d = dict)"
  by (simp add: frame_dictionary_def split: option.splits)

lemma frame_start_ok:
  assumes "\<forall>d. dict = Some d \<longrightarrow> dictionary_ok d"
  shows "\<exists>lit tables reps. (\<forall>c scratch out. frame_start_state dict c scratch out = Ok \<lparr>fs_cursor = c, fs_literals_state = lit,
      fs_tables = tables, fs_reps = reps, fs_scratch = scratch, fs_out = out\<rparr>)
    \<and> first_coding dict = Ok \<lparr>cd_table = lit, cd_tables = tables, cd_reps = reps, cd_content = []\<rparr>
    \<and> huffman_state_ok lit \<and> tables_ok tables \<and> reps_ok reps"
proof (cases dict)
  case None
  then show ?thesis
    by (simp add: frame_start_state_def first_coding_def huffman_state_ok_def tables_ok_default reps_ok_def repeat_offsets_default_def)
next
  case (Some d)
  then show ?thesis
    using dictionary_accessors [of d] assms by (auto simp: frame_start_state_def first_coding_def dictionary_ok_def)
qed

lemma map_content_ok: "\<forall>d. dict = Some d \<longrightarrow> dictionary_ok d \<Longrightarrow> \<exists>dc. map_content dict = Ok dc"
  using dictionary_accessors by (cases dict) force+

lemma read_u32_meets:
  "meets (cursor_read_u32_le c) (\<lambda>(v, c'). cur_pos c + 4 \<le> length (cur_src c) \<and> c' = c\<lparr>cur_pos := cur_pos c + 4\<rparr>
     \<and> v = word_of_nat (le_nat (take 4 (drop (cur_pos c) (cur_src c)))))"
proof -
  have "[bs ! 0, bs ! 1, bs ! 2, bs ! 3] = bs" if "length bs = 4" for bs :: bytes
    using that by (auto simp: length_Suc_conv eval_nat_numeral)
  from this [of "take 4 (drop (cur_pos c) (cur_src c))"] show ?thesis
    by (auto simp: cursor_read_u32_le_def cursor_read_exact_def simp del: le_nat.simps)
qed

lemma check_checksum_meets:
  assumes "fs \<le> dout_len (fs_out st)" and "dout_ok (fs_out st)" and "cur_pos (fs_cursor st) \<le> length (cur_src (fs_cursor st))"
  shows "meets (check_checksum h opts fs st) (\<lambda>st'. fs_out st' = fs_out st \<and> cursor_after (fs_cursor st) (fs_cursor st')
    \<and> trailer_ok h (opt_verify_checksum opts) (cur_src (fs_cursor st)) (cur_pos (fs_cursor st)) (drop fs (dout_slice (fs_out st)))
        (cur_pos (fs_cursor st')))"
proof (cases "checksum h")
  case True
  obtain hash where "xxh64 (drop fs (dout_slice (fs_out st))) 0 = Ok hash" using xxh_pieces [of "[drop fs (dout_slice (fs_out st))]"] by auto
  with assms True show ?thesis unfolding check_checksum_def if_P [OF True] meets_and_then
    by (intro meets_mono [OF read_u32_meets]) (auto simp: idx_from_def length_dout_slice trailer_ok_def cursor_after_def Let_def)
next
  case False
  then show ?thesis using assms by (simp add: check_checksum_def trailer_ok_def cursor_after_def)
qed

lemma check_content_size_meets:
  assumes "fs \<le> dout_len out" and "dout_len out < 2 ^ 64"
  shows "meets (check_content_size h fs out) (\<lambda>_. \<forall>n. content_size h = Some n \<longrightarrow> dout_len out - fs = unat n)"
proof -
  have "unat (word_of_nat (dout_len out - fs) :: u64) = dout_len out - fs"
    using assms(2) by (simp add: unat_of_nat del: of_nat_diff)
  then show ?thesis using assms(1)
    by (auto simp: check_content_size_def Let_def simp del: of_nat_diff split: option.splits)
qed

definition frame_done :: "decoder_options \<Rightarrow> dictionary option \<Rightarrow> bytes \<Rightarrow> usize \<Rightarrow> decode_out \<Rightarrow> cursor \<times> bytes \<times> decode_out \<Rightarrow> bool" where
  "frame_done opts dict src pos out r \<longleftrightarrow> (case r of (c', scratch', out') \<Rightarrow>
     \<exists>content. frame_spells opts dict src pos (cur_pos c') content \<and> keeps out out'
       \<and> dout_slice out' = dout_slice out @ content \<and> dout_len out' \<le> cur_pos c' * 2 ^ 17
       \<and> cap_ok (opt_max_output_size opts) (dout_len out') \<and> cur_src c' = src \<and> cur_pos c' \<le> length src)"


lemma decode_zstandard_frame_meets:
  assumes hdr: "parse_frame_header_with_format (drop (cur_pos c) src) (opt_format opts) = Ok (Zstandard h)"
    and s: "cur_src c = src" "cur_pos c \<le> length src" and out: "dout_ok out" and len: "dout_len out \<le> cur_pos c * 2 ^ 17"
    and cap: "cap_ok (opt_max_output_size opts) (dout_len out)" and u: "length src \<le> 2 ^ 45"
    and w: "opt_max_window_size opts = Some m" "unat m < OFFSET_SENTINEL" and d: "\<forall>d. dict = Some d \<longrightarrow> dictionary_ok d"
  shows "meets (decode_zstandard_frame c h opts dict scratch out) (frame_done opts dict src (cur_pos c) out)"
proof -
  let ?pos = "cur_pos c" and ?fs = "dout_len out"
  have fit: "?pos + header_size h \<le> length src" using header.used_le [OF hdr] s(2) by simp
  let ?c = "c\<lparr>cur_pos := ?pos + header_size h\<rparr>"
  have rd: "cursor_read_exact c (header_size h) = Ok (take (header_size h) (drop ?pos src), ?c)"
    using fit u s(1) by (simp add: cursor_read_exact_Ok usize_max_def)
  obtain dc where dc: "map_content dict = Ok dc" using map_content_ok [OF d] by blast
  obtain lit tables reps where st0: "\<And>c scratch out. frame_start_state dict c scratch out = Ok \<lparr>fs_cursor = c,
      fs_literals_state = lit, fs_tables = tables, fs_reps = reps, fs_scratch = scratch, fs_out = out\<rparr>"
    "first_coding dict = Ok \<lparr>cd_table = lit, cd_tables = tables, cd_reps = reps, cd_content = []\<rparr>"
    "huffman_state_ok lit" "tables_ok tables" "reps_ok reps" using frame_start_ok [OF d] by blast
  let ?S0 = "\<lparr>cd_table = lit, cd_tables = tables, cd_reps = reps, cd_content = []\<rparr>"
  let ?st = "\<lambda>o1. \<lparr>fs_cursor = ?c, fs_literals_state = lit, fs_tables = tables, fs_reps = reps, fs_scratch = scratch, fs_out = o1\<rparr>"
  note sl = length_dout_slice [OF out]
  have blocks: "meets (and_then (decode_frame_blocks h opts dict ?fs (?st o1)) (\<lambda>st.
      and_then (check_checksum h opts ?fs st) (\<lambda>st. and_then (check_content_size h ?fs (fs_out st)) (\<lambda>_.
        Ok (fs_cursor st, fs_scratch st, fs_out st))))) (frame_done opts dict src ?pos out)"
    if o1: "keeps out o1" "dout_slice o1 = dout_slice out" "dout_len o1 = dout_len out"
      and did: "frame_dictionary dict (dictionary_id h) = Ok dict" and win: "window_size h \<le> m" for o1
  proof -
    have inv: "frame_inv src ?fs (opt_max_output_size opts) (cur_pos (fs_cursor (?st o1))) (?st o1)"
      using o1 st0 s fit keeps_ok [OF o1(1)] len cap by (simp add: frame_inv_def algebra_simps)
    have co: "coding_of ?fs (?st o1) = ?S0" using o1(2) sl by (simp add: coding_of_def)
    have ww: "unat (window_size h) < OFFSET_SENTINEL" using win w(2) by (simp add: word_le_nat_alt)
    show ?thesis unfolding meets_and_then [of "decode_frame_blocks _ _ _ _ _"]
    proof (rule meets_mono [OF decode_frame_blocks_meets [OF inv parse_frame_block_size [OF hdr] ww u dc refl]])
      fix st1 assume b: "blocks_spell dc (unat (window_size h)) (unat (block_size_max h)) src (cur_pos (fs_cursor (?st o1)))
          (coding_of ?fs (?st o1)) (cur_pos (fs_cursor st1)) (coding_of ?fs st1)
        \<and> frame_inv src ?fs (opt_max_output_size opts) (cur_pos (fs_cursor st1)) st1 \<and> keeps (fs_out (?st o1)) (fs_out st1)
        \<and> take ?fs (dout_slice (fs_out st1)) = take ?fs (dout_slice (fs_out (?st o1)))"
      let ?content = "drop ?fs (dout_slice (fs_out st1))" and ?p = "cur_pos (fs_cursor st1)"
      have i: "cur_src (fs_cursor st1) = src" "?p \<le> length src" "dout_ok (fs_out st1)" "?fs \<le> dout_len (fs_out st1)"
          "dout_len (fs_out st1) \<le> ?p * 2 ^ 17" "cap_ok (opt_max_output_size opts) (dout_len (fs_out st1))"
        using b by (simp_all add: frame_inv_def)
      have pre: "dout_slice (fs_out st1) = dout_slice out @ ?content"
        using b o1(2) sl append_take_drop_id [of ?fs "dout_slice (fs_out st1)"] by simp
      have k: "keeps out (fs_out st1)" using b keeps_trans [OF o1(1)] by simp
      have "?p * 2 ^ 17 \<le> 2 ^ 45 * 2 ^ 17" using i(2) u by simp
      then have big: "dout_len (fs_out st1) < 2 ^ 64" using i(5) by simp
      have cl: "length ?content = dout_len (fs_out st1) - ?fs" using length_dout_slice [OF i(3)] by simp
      have cp: "cur_pos (fs_cursor st1) \<le> length (cur_src (fs_cursor st1))" using i by simp
      show "meets (and_then (check_checksum h opts ?fs st1) (\<lambda>st. and_then (check_content_size h ?fs (fs_out st)) (\<lambda>_.
        Ok (fs_cursor st, fs_scratch st, fs_out st)))) (frame_done opts dict src ?pos out)"
        unfolding meets_and_then [of "check_checksum _ _ _ _"]
      proof (rule meets_mono [OF check_checksum_meets [OF i(4,3) cp]])
        fix st2 assume e: "fs_out st2 = fs_out st1 \<and> cursor_after (fs_cursor st1) (fs_cursor st2)
          \<and> trailer_ok h (opt_verify_checksum opts) (cur_src (fs_cursor st1)) ?p ?content (cur_pos (fs_cursor st2))"
        have fin: "frame_done opts dict src ?pos out (fs_cursor st2, fs_scratch st2, fs_out st2)"
          if z: "\<forall>n. content_size h = Some n \<longrightarrow> dout_len (fs_out st1) - ?fs = unat n"
        proof -
          have "frame_spells opts dict src ?pos (cur_pos (fs_cursor st2)) ?content"
            unfolding frame_spells_def
            by (rule exI [of _ h], rule exI [of _ dict], rule exI [of _ dc], rule exI [of _ ?S0],
                rule exI [of _ "coding_of ?fs st1"], rule exI [of _ ?p])
              (use hdr did dc w(1) win st0(2) b co e i z cl in \<open>simp add: coding_of_def\<close>)
          then show ?thesis using e i k pre
            by (auto simp: frame_done_def cursor_after_def intro: le_trans)
        qed
        show "meets (and_then (check_content_size h ?fs (fs_out st2)) (\<lambda>_. Ok (fs_cursor st2, fs_scratch st2, fs_out st2)))
            (frame_done opts dict src ?pos out)"
          unfolding meets_and_then
          by (rule meets_mono [OF check_content_size_meets]) (use e i big fin in auto)
      qed
    qed
  qed
  have "meets (frame_dictionary dict (dictionary_id h)) (\<lambda>d. d = dict \<and> frame_dictionary dict (dictionary_id h) = Ok dict)"
    using frame_dictionary_meets [of dict "dictionary_id h"] by (cases "frame_dictionary dict (dictionary_id h)") auto
  moreover have "meets (check_window_size (window_size h) (opt_max_window_size opts)) (\<lambda>_. window_size h \<le> m)"
    by (simp add: check_window_size_def w(1) not_less)
  moreover have "meets (reserve_content h opts ?c out) (\<lambda>o1. keeps out o1 \<and> dout_slice o1 = dout_slice out \<and> dout_len o1 = dout_len out)"
    using reserve_content_meets [OF out, of ?c] fit s(1) by simp
  ultimately show ?thesis
    unfolding decode_zstandard_frame_def rd and_then.simps prod.case Let_def
    by (elim meets_bind) (use blocks in \<open>auto simp: st0(1) simp del: meets_and_then elim!: meets_bind\<close>)
qed

subsection \<open>Whole inputs\<close>

definition frames_done :: "decoder_options \<Rightarrow> dictionary option \<Rightarrow> bytes \<Rightarrow> usize \<Rightarrow> decode_out \<Rightarrow> bytes \<times> decode_out \<Rightarrow> bool" where
  "frames_done opts dict src pos out r \<longleftrightarrow> (case r of (scratch', out') \<Rightarrow>
     \<exists>w. frames_spell opts dict src pos w \<and> keeps out out' \<and> dout_slice out' = dout_slice out @ w
       \<and> cap_ok (opt_max_output_size opts) (dout_len out'))"

lemma decode_frames_meets:
  assumes "cur_src c = src" and "cur_pos c \<le> length src" and "dout_ok out" and "dout_len out \<le> cur_pos c * 2 ^ 17"
    and "cap_ok (opt_max_output_size opts) (dout_len out)" and "length src \<le> 2 ^ 45"
    and "opt_max_window_size opts = Some m" and "unat m < OFFSET_SENTINEL" and "\<forall>d. dict = Some d \<longrightarrow> dictionary_ok d"
  shows "meets (decode_frames opts dict c scratch out) (frames_done opts dict src (cur_pos c) out)"
  using assms
proof (induction opts dict c scratch out rule: decode_frames.induct)
  case (1 opts dict c scratch out)
  note P = "1.prems" and IH = "1.IH"
  show ?case
  proof (cases "cursor_is_empty c")
    case True
    then have "cur_pos c = length src" using P(1) by (simp add: cursor_is_empty_def)
    then show ?thesis using True P keeps_refl frames_spell.at_end [of opts dict src]
      by (simp add: decode_frames.simps [of opts dict c] frames_done_def)
  next
    case False
    let ?rest = "drop (cur_pos c) src"
    have rest: "cursor_remaining c = Ok ?rest" using P(1,2) by (simp add: cursor_remaining_def idx_from_def)
    show ?thesis
    proof (cases "parse_frame_header_with_format ?rest (opt_format opts)")
      case (Ok fh)
      show ?thesis
      proof (cases fh)
        case (Skippable f)
        note hdr = Ok [unfolded Skippable]
        show ?thesis
        proof (cases "opt_single_frame opts")
          case True
          then show ?thesis using False rest hdr by (simp add: decode_frames.simps [of opts dict c])
        next
          case nosingle: False
          have "meets (skip_skippable_frame c f) (\<lambda>c'. skip_skippable_frame c f = Ok c' \<and> cur_src c' = src
              \<and> cur_pos c' = cur_pos c + (skip_header_size f + unat (skip_size f)) \<and> cur_pos c' \<le> length src)"
            using P(1) by (auto simp: skip_skippable_frame_def cursor_read_exact_def)
          then have "meets (and_then (skip_skippable_frame c f) (\<lambda>c. decode_frames opts dict c scratch out))
              (frames_done opts dict src (cur_pos c) out)"
          proof (rule meets_bind)
            fix c' assume c': "skip_skippable_frame c f = Ok c' \<and> cur_src c' = src
              \<and> cur_pos c' = cur_pos c + (skip_header_size f + unat (skip_size f)) \<and> cur_pos c' \<le> length src"
            have "meets (decode_frames opts dict c' scratch out) (frames_done opts dict src (cur_pos c') out)"
              using c' P(4) by (intro IH(2) [OF False rest Ok Skippable nosingle _ _ _ P(3) _ P(5-)]) (auto simp: algebra_simps)
            then show "meets (decode_frames opts dict c' scratch out) (frames_done opts dict src (cur_pos c) out)"
              by (rule meets_mono) (use c' frames_spell.skip [OF hdr nosingle] in \<open>auto simp: frames_done_def\<close>)
          qed
          then show ?thesis using False rest hdr nosingle by (simp add: decode_frames.simps [of opts dict c] del: meets_and_then)
        qed
      next
        case (Zstandard h)
        note hdr = Ok [unfolded Zstandard]
        have "meets (decode_zstandard_frame c h opts dict scratch out) (\<lambda>r. decode_zstandard_frame c h opts dict scratch out = Ok r
            \<and> frame_done opts dict src (cur_pos c) out r)"
          using decode_zstandard_frame_meets [OF hdr P(1-9)] by (auto simp: meets_iff)
        then have "meets (and_then (decode_zstandard_frame c h opts dict scratch out) (\<lambda>(c, scratch, out).
             if opt_single_frame opts \<and> \<not> cursor_is_empty c then Err (TrailingInput (cur_pos c))
             else decode_frames opts dict c scratch out)) (frames_done opts dict src (cur_pos c) out)"
        proof (rule meets_bind)
          fix r assume r: "decode_zstandard_frame c h opts dict scratch out = Ok r \<and> frame_done opts dict src (cur_pos c) out r"
          obtain c' scratch' out' where e: "r = (c', scratch', out')" by (cases r)
          from r obtain content where f: "frame_spells opts dict src (cur_pos c) (cur_pos c') content" "keeps out out'"
            "dout_slice out' = dout_slice out @ content" "dout_len out' \<le> cur_pos c' * 2 ^ 17"
            "cap_ok (opt_max_output_size opts) (dout_len out')" "cur_src c' = src" "cur_pos c' \<le> length src"
            by (auto simp: frame_done_def e)
          have "meets (decode_frames opts dict c' scratch' out') (frames_done opts dict src (cur_pos c) out)"
            if g: "\<not> (opt_single_frame opts \<and> \<not> cursor_is_empty c')"
          proof -
            have one: "opt_single_frame opts \<Longrightarrow> cur_pos c' = length src" using g f(6) by (simp add: cursor_is_empty_def)
            have "meets (decode_frames opts dict c' scratch' out') (frames_done opts dict src (cur_pos c') out')"
              by (rule IH(1) [OF False rest Ok Zstandard conjunct1 [OF r] e [symmetric] refl g f(6,7) keeps_ok [OF f(2)] f(4,5) P(6-)])
            then show ?thesis
              by (rule meets_mono) (use f frames_spell.frame [OF f(1) one] keeps_trans [OF f(2)] in \<open>auto simp: frames_done_def\<close>)
          qed
          then show "meets (case r of (c, scratch, out) \<Rightarrow> if opt_single_frame opts \<and> \<not> cursor_is_empty c
              then Err (TrailingInput (cur_pos c)) else decode_frames opts dict c scratch out) (frames_done opts dict src (cur_pos c) out)"
            by (simp add: e)
        qed
        then show ?thesis using False rest hdr by (simp add: decode_frames.simps [of opts dict c] del: meets_and_then)
      qed
    qed (use False rest header.no_fault in \<open>simp_all add: decode_frames.simps [of opts dict c]\<close>)
  qed
qed

definition input_done :: "decoder_options \<Rightarrow> dictionary option \<Rightarrow> bytes \<Rightarrow> bytes \<Rightarrow> bool" where
  "input_done opts dict src content \<longleftrightarrow> src \<noteq> [] \<and> frames_spell opts dict src 0 content
     \<and> cap_ok (opt_max_output_size opts) (length content)"

lemma dout_clear_ok:
  "dout_ok (dout_clear out)" "dout_len (dout_clear out) = 0" "dout_slice (dout_clear out) = []"
  "dout_limit (dout_clear out) = dout_limit out" "is_growable (dout_clear out) = is_growable out"
  by (cases out; simp add: dout_ok_def dout_len_def dout_slice_def)+

lemma decode_into_meets:
  assumes "length src \<le> 2 ^ 45" and "opt_max_window_size opts = Some m" and "unat m < OFFSET_SENTINEL"
    and "\<forall>d. dict = Some d \<longrightarrow> dictionary_ok d"
  shows "meets (decode_into_with_scratch src opts dict scratch out) (\<lambda>(scratch', out'). dout_ok out' \<and> dout_limit out' = dout_limit out
     \<and> is_growable out' = is_growable out \<and> input_done opts dict src (dout_slice out'))"
proof (cases "src = []")
  case True
  then show ?thesis by (simp add: decode_into_with_scratch_def)
next
  case False
  have c: "cur_src (cursor_new src) = src" "cur_pos (cursor_new src) \<le> length src" by (simp_all add: cursor_new_def)
  have o: "dout_len (dout_clear out) \<le> cur_pos (cursor_new src) * 2 ^ 17" "cap_ok (opt_max_output_size opts) (dout_len (dout_clear out))"
    by (simp_all add: dout_clear_ok cap_ok_def)
  have "meets (decode_frames opts dict (cursor_new src) scratch (dout_clear out)) (\<lambda>(scratch', out'). dout_ok out' \<and> dout_limit out' = dout_limit out
     \<and> is_growable out' = is_growable out \<and> input_done opts dict src (dout_slice out'))"
    by (rule meets_mono [OF decode_frames_meets [OF c dout_clear_ok(1) o assms]])
      (use False in \<open>auto simp: frames_done_def input_done_def keeps_def dout_clear_ok length_dout_slice cursor_new_def\<close>)
  then show ?thesis using False by (simp add: decode_into_with_scratch_def Let_def)
qed

lemma default_window: "opt_max_window_size decoder_options_default = Some 134217728" "unat (134217728 :: u64) < 4294967295"
  by (simp_all add: decoder_options_default_def DEFAULT_MAX_WINDOW_SIZE_def)

lemma decode_all_meets:
  assumes "length src \<le> 2 ^ 45" and "opt_max_window_size opts = Some m" and "unat m < OFFSET_SENTINEL"
    and "\<forall>d. dict = Some d \<longrightarrow> dictionary_ok d"
  shows "meets (decode_all_with_scratch src opts dict scratch) (\<lambda>(content, scratch'). input_done opts dict src content)"
  unfolding decode_all_with_scratch_def meets_and_then
  by (rule meets_mono [OF decode_into_meets [OF assms]]) auto

lemma decode_into_slice_meets:
  assumes "length src \<le> 2 ^ 45" and "opt_max_window_size opts = Some m" and "unat m < OFFSET_SENTINEL"
    and "\<forall>d. dict = Some d \<longrightarrow> dictionary_ok d"
  shows "meets (decode_into_slice_with_scratch src opts dict scratch dst) (\<lambda>(n, dst', scratch').
     n \<le> length dst' \<and> length dst' = length dst \<and> input_done opts dict src (take n dst'))"
proof -
  have "dout_len out' \<le> length dst \<and> length (region (region_of out')) = length dst
      \<and> input_done opts dict src (take (dout_len out') (region (region_of out')))"
    if "dout_ok out'" "dout_limit out' = dout_limit (decode_fixed dst)" "is_growable out' = is_growable (decode_fixed dst)"
      "input_done opts dict src (dout_slice out')" for out'
    using that by (cases out') (auto simp: decode_fixed_def dout_ok_def dout_len_def dout_slice_def)
  then show ?thesis unfolding decode_into_slice_with_scratch_def meets_and_then
    by (intro meets_mono [OF decode_into_meets [OF assms]]) auto
qed

subsection \<open>Properties\<close>

text \<open>C2. Decoding never faults. For every input of up to 2 to the 45 bytes, with a window limit below four
  gigabytes (the default is 128 MiB), no index, slice, table access, unchecked copy, subtraction or assertion of the decoder fails, into a
  vector or into a slice of any size, and with the bytes of any dictionary.\<close>

theorem decoding_never_faults:
  assumes "length src \<le> 2 ^ 45" and "opt_max_window_size opts = Some m" and "unat m < 4294967295"
  shows "decode_all_with_options src opts \<noteq> Fault \<and> decode_into_slice_with_options src dst opts \<noteq> Fault
    \<and> (length dict \<le> usize_max \<longrightarrow> decode_all_with_dict_and_options src dict opts \<noteq> Fault)"
proof -
  have m: "unat m < OFFSET_SENTINEL" using assms(3) by (simp add: OFFSET_SENTINEL_def)
  have "decode_all_with_options src opts \<noteq> Fault"
    using decode_all_meets [OF assms(1,2) m, of None "[]"] by (auto simp: decode_all_with_options_def meets_iff)
  moreover have "decode_into_slice_with_options src dst opts \<noteq> Fault"
    using decode_into_slice_meets [OF assms(1,2) m, of None "[]" dst] by (auto simp: decode_into_slice_with_options_def meets_iff)
  moreover have "decode_all_with_prepared_dict_and_options src d opts \<noteq> Fault" if "dictionary_ok d" for d
    using decode_all_meets [OF assms(1,2) m, of "Some d" "[]"] that
    by (auto simp: decode_all_with_prepared_dict_and_options_def meets_iff)
  ultimately show ?thesis
    using parse_dictionary_meets [of dict] by (auto simp: decode_all_with_dict_and_options_def meets_iff)
qed

theorem decoding_never_faults_witness:
  "decode_into_slice_with_options [0x28, 0xB5, 0x2F, 0xFD, 0x20, 0x05, 1, 2] [0, 0, 0] decoder_options_default \<noteq> Fault"
  by (rule decoding_never_faults [OF _ default_window, THEN conjunct2, THEN conjunct1]) simp

end
