(* ===== verification/StoredFrames.thy ===== *)
theory StoredFrames
  imports DecodeProps
begin

section \<open>Frames of stored blocks (encode.rs)\<close>

text \<open>
  The blocks that \<open>src/src/encode.rs\<close> writes without compression: empty ones, those too short to compress, runs of
  one byte, and those on which compression does not win; and the bound on the size of a frame. A frame of
  such blocks decodes to its chunks, whatever the match finder would have made of them.
\<close>

definition MIN_COMPRESSIBLE_BLOCK_SIZE :: usize where "MIN_COMPRESSIBLE_BLOCK_SIZE = 7"
definition FRAME_HEADER_MAX :: usize where "FRAME_HEADER_MAX = 18"
definition CHECKSUM_SIZE :: usize where "CHECKSUM_SIZE = 4"
definition UPSTREAM_SPLIT_CHUNK_SIZE :: usize where "UPSTREAM_SPLIT_CHUNK_SIZE = 8 * 1024"
definition UPSTREAM_SPLIT_FULL_BLOCK_SIZE :: usize where "UPSTREAM_SPLIT_FULL_BLOCK_SIZE = 128 * 1024"

definition should_emit_raw_block_without_compression :: "usize \<Rightarrow> bool" where
  "should_emit_raw_block_without_compression raw_size \<longleftrightarrow> raw_size < MIN_COMPRESSIBLE_BLOCK_SIZE"

definition all_bytes_equal :: "bytes \<Rightarrow> bool result" where
  "all_bytes_equal src =
     and_then (idx src 0) (\<lambda>first. and_then (idx_from src 1) (\<lambda>rest. Ok (list_all (\<lambda>byte. byte = first) rest)))"

definition emit_block :: "block_type \<Rightarrow> bytes \<Rightarrow> bytes \<Rightarrow> bool \<Rightarrow> out_buf \<Rightarrow> out_buf result" where
  "emit_block kind chunk payload is_last out =
     and_then (write_block_header_to \<lparr>last_block = is_last, block_kind = kind, block_size = word_of_nat (length chunk)\<rparr> out)
       (\<lambda>out. extend_from_slice out payload)"

text \<open>\<open>encode_block_into_with_prefixes\<close> where \<open>encode_best_compressed_block_direct\<close> finds nothing that is smaller.\<close>

definition store_block :: "out_buf \<Rightarrow> bytes \<Rightarrow> bool \<Rightarrow> out_buf result" where
  "store_block out chunk is_last =
     (if chunk = [] then write_block_header_to \<lparr>last_block = is_last, block_kind = Raw, block_size = 0\<rparr> out
      else if should_emit_raw_block_without_compression (length chunk) then emit_block Raw chunk chunk is_last out
      else and_then (if 2 \<le> length chunk then all_bytes_equal chunk else Ok False) (\<lambda>run.
        if run then and_then (write_block_header_to
            \<lparr>last_block = is_last, block_kind = Rle, block_size = word_of_nat (length chunk)\<rparr> out) (\<lambda>out.
          and_then (idx chunk 0) (\<lambda>byte. push out byte))
        else emit_block Raw chunk chunk is_last out))"

fun store_blocks :: "out_buf \<Rightarrow> bytes list \<Rightarrow> out_buf result" where
  "store_blocks out [] = Ok out"
| "store_blocks out (c # cs) = and_then (store_block out c (cs = [])) (\<lambda>out. store_blocks out cs)"

definition append_checksum :: "out_buf \<Rightarrow> bool \<Rightarrow> bytes \<Rightarrow> out_buf result" where
  "append_checksum out ck src =
     (if ck then and_then (xxh64 src 0) (\<lambda>hash. extend_from_slice out (le_bytes 4 (unat (ucast hash :: u32)))) else Ok out)"

definition compress_bound :: "usize \<Rightarrow> usize \<Rightarrow> bool \<Rightarrow> usize result" where
  "compress_bound src_len option_block_size ck =
     (let bs = max 1 (min option_block_size BLOCK_SIZE_MAX);
          smallest = (if bs < UPSTREAM_SPLIT_FULL_BLOCK_SIZE then bs else UPSTREAM_SPLIT_CHUNK_SIZE);
          block_count = max 1 ((src_len + smallest - 1) div smallest);
          bound = FRAME_HEADER_MAX + block_count * BLOCK_HEADER_SIZE + src_len + (if ck then CHECKSUM_SIZE else 0)
      in if usize_max < bound then Fault else Ok bound)"

text \<open>The frame \<open>encode_all_into_scratch\<close> makes of chunks that do not compress, when the content fits the window.\<close>

definition store_frame :: "bytes list \<Rightarrow> bool \<Rightarrow> format \<Rightarrow> out_buf result" where
  "store_frame cs ck fmt =
     and_then (write_single_segment_header_with_dict (growable []) (word_of_nat (length (concat cs))) ck None fmt) (\<lambda>out.
     and_then (store_blocks out cs) (\<lambda>out. append_checksum out ck (concat cs)))"


subsection \<open>What is stored\<close>

definition stores_chunk :: "block_header \<Rightarrow> bytes \<Rightarrow> bytes \<Rightarrow> bool \<Rightarrow> bool" where
  "stores_chunk bh payload chunk is_last \<longleftrightarrow> last_block bh = is_last \<and> unat (block_size bh) = length chunk
     \<and> length chunk \<le> 2 ^ 17 \<and> length payload = payload_size bh \<and> length payload \<le> length chunk
     \<and> (block_kind bh = Raw \<and> payload = chunk
        \<or> block_kind bh = Rle \<and> (\<exists>b. payload = [b] \<and> chunk = replicate (length chunk) b))"

lemma store_block_stores:
  assumes "length chunk \<le> 2 ^ 17"
  shows "\<exists>bh payload. store_block (growable g) chunk is_last = Ok (growable (g @ encode_block_header bh @ payload))
    \<and> stores_chunk bh payload chunk is_last"
proof -
  have u: "unat (word_of_nat (length chunk) :: u32) = length chunk" using assms by (simp add: unat_of_nat)
  let ?h = "\<lambda>k. \<lparr>last_block = is_last, block_kind = k, block_size = word_of_nat (length chunk)\<rparr>"
  have raw: "emit_block Raw chunk chunk is_last (growable g) = Ok (growable (g @ encode_block_header (?h Raw) @ chunk))"
    "stores_chunk (?h Raw) chunk chunk is_last"
    using u assms by (simp_all add: emit_block_def write_block_header_to_def growable_def stores_chunk_def payload_size_def)
  show ?thesis
  proof (cases "2 \<le> length chunk \<and> all_bytes_equal chunk = Ok True \<and> \<not> should_emit_raw_block_without_compression (length chunk)")
    case True
    then obtain b rest where c: "chunk = b # rest" by (cases chunk) auto
    with True have r: "\<forall>x \<in> set rest. x = b" by (auto simp: all_bytes_equal_def idx_from_def idx_def list_all_iff)
    then have "rest = replicate (length rest) b" by (simp add: replicate_length_same)
    then have "chunk = replicate (length chunk) b" using c by simp
    then have "stores_chunk (?h Rle) [b] chunk is_last"
      using u assms True by (simp add: stores_chunk_def payload_size_def)
    moreover have "store_block (growable g) chunk is_last = Ok (growable (g @ encode_block_header (?h Rle) @ [b]))"
      using True c by (simp add: store_block_def write_block_header_to_def growable_def idx_def)
    ultimately show ?thesis by blast
  next
    case False
    have "\<exists>v. all_bytes_equal chunk = Ok v" if "chunk \<noteq> []"
      using that by (cases chunk) (simp_all add: all_bytes_equal_def idx_def idx_from_def)
    then obtain v where v: "chunk \<noteq> [] \<Longrightarrow> all_bytes_equal chunk = Ok v" by blast
    have "store_block (growable g) chunk is_last = Ok (growable (g @ encode_block_header (?h Raw) @ chunk))"
    proof (cases "chunk = [] \<or> should_emit_raw_block_without_compression (length chunk)")
      case True
      then show ?thesis using raw(1) by (auto simp: store_block_def write_block_header_to_def growable_def)
    next
      case c: False
      then have "(if 2 \<le> length chunk then all_bytes_equal chunk else Ok False) = Ok False" using False v by auto
      then show ?thesis using c raw(1) by (simp add: store_block_def)
    qed
    with raw(2) show ?thesis by blast
  qed
qed

subsection \<open>Decoding it\<close>

definition growing :: "decode_out \<Rightarrow> bool" where
  "growing out \<longleftrightarrow> dout_ok out \<and> is_growable out"

lemma growable_limit: "is_growable out \<Longrightarrow> dout_limit out = None"
  by (cases out) auto

lemma append_bytes_growing:
  assumes "growing out" and "dout_len out + length bs \<le> usize_max"
  shows "\<exists>out'. append_bytes out bs (whole_output None) = Ok out' \<and> growing out' \<and> dout_slice out' = dout_slice out @ bs"
  using assms dout_append_run [of out bs]
  by (auto simp: growing_def append_bytes_def checked_output_len_def checked_add_def check_total_def whole_output_def
      growable_limit fits_def keeps_def)

lemma append_repeated_growing:
  assumes "growing out" and "dout_len out + n \<le> usize_max"
  shows "\<exists>out'. append_repeated out b n (whole_output None) = Ok out' \<and> growing out' \<and> dout_slice out' = dout_slice out @ replicate n b"
proof -
  obtain out' where o: "dout_append_repeated out b n = Ok out'" "dout_slice out' = dout_slice out @ replicate n b"
    using assms(1) dout_append_repeated_spec [of out n b] by (auto simp: growing_def growable_limit fits_def)
  have "keeps out out'" using dout_append_repeated_keeps [OF o(1)] assms(1) by (simp add: growing_def)
  then show ?thesis using assms o
    by (auto simp: growing_def append_repeated_def checked_output_len_def checked_add_def check_total_def whole_output_def keeps_def)
qed

lemma decode_stored_block:
  assumes src: "cur_src (fs_cursor st) = pre @ encode_block_header bh @ payload @ post" "cur_pos (fs_cursor st) = length pre"
    and sc: "stores_chunk bh payload chunk is_last" and bs: "length chunk \<le> unat (block_size_max h)"
    and g: "growing (fs_out st)" and room: "dout_len (fs_out st) + length chunk \<le> usize_max"
    and u: "length (cur_src (fs_cursor st)) \<le> usize_max" and cap: "opt_max_output_size opts = None"
  shows "\<exists>st'. decode_frame_block h opts dict fs st = Ok (is_last, st') \<and> growing (fs_out st')
    \<and> fs_cursor st' = (fs_cursor st)\<lparr>cur_pos := length pre + 3 + length payload\<rparr>
    \<and> dout_slice (fs_out st') = dout_slice (fs_out st) @ chunk"
proof -
  let ?c = "(fs_cursor st)\<lparr>cur_pos := length pre + 3\<rparr>"
  have S: "unat (block_size bh) = length chunk" "last_block bh = is_last" "length payload = payload_size bh"
    using sc by (simp_all add: stores_chunk_def)
  have l3: "length (encode_block_header bh) = 3" by simp
  have hdr: "cursor_read_exact (fs_cursor st) BLOCK_HEADER_SIZE = Ok (encode_block_header bh, ?c)"
    using src u by (simp add: cursor_read_exact_Ok BLOCK_HEADER_SIZE_def)
  have "unat (block_size bh) < 2 ^ 21" using S(1) sc by (simp add: stores_chunk_def)
  from parse_encode_block_header [OF this, of "[]"] have p: "parse_block_header (encode_block_header bh) = Ok bh" by simp
  have le: "\<not> block_size_max h < block_size bh" using bs S(1) by (simp add: word_less_nat_alt)
  have "\<exists>st'. decode_block_payload h opts dict fs bh (st\<lparr>fs_cursor := ?c\<rparr>) = Ok st' \<and> growing (fs_out st')
    \<and> fs_cursor st' = (fs_cursor st)\<lparr>cur_pos := length pre + 3 + length payload\<rparr>
    \<and> dout_slice (fs_out st') = dout_slice (fs_out st) @ chunk"
  proof (cases "block_kind bh = Raw")
    case True
    then have pc: "payload = chunk" "payload_size bh = length chunk" using sc S(3) by (auto simp: stores_chunk_def)
    have "cursor_read_exact ?c (length chunk) = Ok (chunk, ?c\<lparr>cur_pos := length pre + 3 + length chunk\<rparr>)"
      using src u l3 by (simp add: cursor_read_exact_Ok pc)
    moreover obtain out' where "append_bytes (fs_out st) chunk (whole_output None) = Ok out'" "growing out'"
      "dout_slice out' = dout_slice (fs_out st) @ chunk" using append_bytes_growing [OF g room] by blast
    ultimately show ?thesis using True le pc cap by (simp add: decode_block_payload_def)
  next
    case False
    then obtain b where k: "block_kind bh = Rle" "payload = [b]" "chunk = replicate (length chunk) b"
      using sc by (auto simp: stores_chunk_def)
    have "cursor_read_u8 ?c = Ok (b, ?c\<lparr>cur_pos := length pre + 3 + 1\<rparr>)"
      using src l3 by (simp add: cursor_read_u8_Ok k(2) nth_append)
    moreover obtain out' where "append_repeated (fs_out st) b (length chunk) (whole_output None) = Ok out'" "growing out'"
      "dout_slice out' = dout_slice (fs_out st) @ replicate (length chunk) b" using append_repeated_growing [OF g room] by blast
    ultimately show ?thesis using k le cap S(1) by (simp add: decode_block_payload_def k(3) [symmetric])
  qed
  then show ?thesis using S(2) by (auto simp: decode_frame_block_def hdr p)
qed


text \<open>The bytes of a list of stored blocks.\<close>

fun stores :: "bytes list \<Rightarrow> bytes \<Rightarrow> bool" where
  "stores [] bs \<longleftrightarrow> bs = []"
| "stores (c # cs) bs \<longleftrightarrow> (\<exists>bh payload rest. stores_chunk bh payload c (cs = [])
     \<and> bs = encode_block_header bh @ payload @ rest \<and> stores cs rest)"

lemma store_blocks_stores:
  "\<forall>c \<in> set cs. length c \<le> 2 ^ 17 \<Longrightarrow> \<exists>bs. store_blocks (growable g) cs = Ok (growable (g @ bs)) \<and> stores cs bs"
proof (induction cs arbitrary: g)
  case (Cons c cs)
  from store_block_stores [of c g "cs = []"] Cons.prems obtain bh payload where
    "store_block (growable g) c (cs = []) = Ok (growable (g @ encode_block_header bh @ payload))" "stores_chunk bh payload c (cs = [])"
    by auto
  moreover from Cons.IH [of "g @ encode_block_header bh @ payload"] Cons.prems obtain bs where
    "store_blocks (growable (g @ encode_block_header bh @ payload)) cs = Ok (growable ((g @ encode_block_header bh @ payload) @ bs))"
    "stores cs bs" by auto
  ultimately show ?case by (intro exI [of _ "encode_block_header bh @ payload @ bs"]) auto
qed simp

lemma stores_length: "stores cs bs \<Longrightarrow> length bs \<le> length (concat cs) + 3 * length cs"
proof (induction cs arbitrary: bs)
  case (Cons c cs)
  then obtain bh payload rest where "stores_chunk bh payload c (cs = [])" "bs = encode_block_header bh @ payload @ rest" "stores cs rest"
    by auto
  with Cons.IH [of rest] show ?case by (simp add: stores_chunk_def)
qed simp

lemma decode_stored_blocks:
  assumes "stores cs bs" and "cs \<noteq> []" and "cur_src (fs_cursor st) = pre @ bs @ post" and "cur_pos (fs_cursor st) = length pre"
    and "\<forall>c \<in> set cs. length c \<le> unat (block_size_max h)"
    and "growing (fs_out st)" and "dout_len (fs_out st) + length (concat cs) \<le> usize_max"
    and "length (cur_src (fs_cursor st)) \<le> usize_max" and "opt_max_output_size opts = None"
  shows "\<exists>st'. decode_frame_blocks h opts dict fs st = Ok st' \<and> growing (fs_out st')
    \<and> fs_cursor st' = (fs_cursor st)\<lparr>cur_pos := length pre + length bs\<rparr>
    \<and> dout_slice (fs_out st') = dout_slice (fs_out st) @ concat cs"
  using assms
proof (induction cs arbitrary: bs st pre)
  case (Cons c cs)
  from Cons.prems(1) obtain bh payload rest where sc: "stores_chunk bh payload c (cs = [])"
    and bs: "bs = encode_block_header bh @ payload @ rest" and rest: "stores cs rest" by auto
  have src: "cur_src (fs_cursor st) = pre @ encode_block_header bh @ payload @ (rest @ post)" using Cons.prems(3) bs by simp
  have b: "length c \<le> unat (block_size_max h)" and room: "dout_len (fs_out st) + length c \<le> usize_max" using Cons.prems(5,7) by auto
  from decode_stored_block [OF src Cons.prems(4) sc b Cons.prems(6) room Cons.prems(8,9)] obtain st1 where
    st1: "decode_frame_block h opts dict fs st = Ok (cs = [], st1)" "growing (fs_out st1)"
    "fs_cursor st1 = (fs_cursor st)\<lparr>cur_pos := length pre + 3 + length payload\<rparr>"
    "dout_slice (fs_out st1) = dout_slice (fs_out st) @ c" by blast
  show ?case
  proof (cases "cs = []")
    case True
    then show ?thesis using st1 rest bs by (subst decode_frame_blocks.simps) (simp add: add.assoc)
  next
    case False
    have l: "length (encode_block_header bh) = 3" by simp
    have s: "cur_src (fs_cursor st1) = (pre @ encode_block_header bh @ payload) @ rest @ post"
      "cur_pos (fs_cursor st1) = length (pre @ encode_block_header bh @ payload)"
      using st1(3) src l by (simp_all add: add.assoc)
    have "length (dout_slice (fs_out st1)) = dout_len (fs_out st1)" "length (dout_slice (fs_out st)) = dout_len (fs_out st)"
      using length_dout_slice st1(2) Cons.prems(6) by (simp_all add: growing_def)
    then have "dout_len (fs_out st1) + length (concat cs) \<le> usize_max" using st1(4) Cons.prems(7) by simp
    moreover have "length (cur_src (fs_cursor st1)) \<le> usize_max" using st1(3) Cons.prems(8) by simp
    moreover have "\<forall>c \<in> set cs. length c \<le> unat (block_size_max h)" using Cons.prems(5) by simp
    ultimately obtain st' where "decode_frame_blocks h opts dict fs st1 = Ok st'" "growing (fs_out st')"
      "fs_cursor st' = (fs_cursor st1)\<lparr>cur_pos := length (pre @ encode_block_header bh @ payload) + length rest\<rparr>"
      "dout_slice (fs_out st') = dout_slice (fs_out st1) @ concat cs"
      using Cons.IH [OF rest False s _ st1(2)] Cons.prems(9) by blast
    then show ?thesis using False st1 bs l by (subst decode_frame_blocks.simps) (simp add: add.assoc)
  qed
qed simp

subsection \<open>The frame\<close>

lemma checksum_word: "word_of_nat (le_nat (le_bytes 4 (unat (w :: u32)))) = w"
  using unat_u32_less [of w] by (simp add: le_nat_le_bytes)

lemma store_frame_bytes:
  assumes "length (concat cs) \<le> 2 ^ 27" and "\<forall>c \<in> set cs. length c \<le> 2 ^ 17"
  shows "\<exists>hdr bs ckb. store_frame cs ck fmt = Ok (growable (hdr @ bs @ ckb)) \<and> stores cs bs
    \<and> (\<forall>rest. parse_frame_header_with_format (hdr @ rest) fmt = Ok (Zstandard
          \<lparr>header_size = length hdr, window_size = word_of_nat (length (concat cs)),
           block_size_max = ucast (min (word_of_nat (length (concat cs))) (word_of_nat BLOCK_SIZE_MAX) :: u64),
           content_size = Some (word_of_nat (length (concat cs))),
           dictionary_id = None, checksum = ck, single_segment = True\<rparr>))
    \<and> (if ck then \<exists>hash. xxh64 (concat cs) 0 = Ok hash \<and> ckb = le_bytes 4 (unat (ucast hash :: u32)) else ckb = [])
    \<and> hdr \<noteq> [] \<and> length hdr \<le> 18"
proof -
  obtain hdr where h: "\<And>g. write_single_segment_header_with_dict (growable g) (word_of_nat (length (concat cs))) ck None fmt
      = Ok (growable (g @ hdr))"
    "\<And>rest. parse_frame_header_with_format (hdr @ rest) fmt = Ok (Zstandard
          \<lparr>header_size = length hdr, window_size = word_of_nat (length (concat cs)),
           block_size_max = ucast (min (word_of_nat (length (concat cs))) (word_of_nat BLOCK_SIZE_MAX) :: u64),
           content_size = Some (word_of_nat (length (concat cs))),
           dictionary_id = None, checksum = ck, single_segment = True\<rparr>)" "hdr \<noteq> []" "length hdr \<le> 18"
    using single_segment_written [of "word_of_nat (length (concat cs))" ck None fmt] by (auto simp: norm_id_def)
  obtain bs where b: "store_blocks (growable hdr) cs = Ok (growable (hdr @ bs))" "stores cs bs"
    using store_blocks_stores [OF assms(2)] by blast
  obtain hash where x: "xxh64 (concat cs) 0 = Ok hash" using xxh_pieces [of cs] by blast
  have c: "append_checksum (growable (hdr @ bs)) ck (concat cs)
      = Ok (growable (hdr @ bs @ (if ck then le_bytes 4 (unat (ucast hash :: u32)) else [])))"
    by (simp add: append_checksum_def x growable_def)
  have "store_frame cs ck fmt = Ok (growable (hdr @ bs @ (if ck then le_bytes 4 (unat (ucast hash :: u32)) else [])))"
    using h(1) [of "[]"] by (simp add: store_frame_def b c)
  then show ?thesis
    by (intro exI [of _ hdr] exI [of _ bs] exI [of _ "if ck then le_bytes 4 (unat (ucast hash :: u32)) else []"])
      (use h(2-) b x in auto)
qed

text \<open>Decoding such a frame.\<close>

lemma decode_stored_frame:
  fixes cs :: "bytes list"
  defines "n \<equiv> length (concat cs)"
  assumes H: "H = \<lparr>header_size = length hdr, window_size = word_of_nat n,
           block_size_max = ucast (min (word_of_nat n) (word_of_nat BLOCK_SIZE_MAX) :: u64),
           content_size = Some (word_of_nat n), dictionary_id = None, checksum = ck, single_segment = True\<rparr>"
    and ne: "cs \<noteq> []" and len: "n \<le> 2 ^ 27" and c: "\<forall>c \<in> set cs. length c \<le> 2 ^ 17" and st: "stores cs bs"
    and ckb: "if ck then \<exists>hash. xxh64 (concat cs) 0 = Ok hash \<and> ckb = le_bytes 4 (unat (ucast hash :: u32)) else ckb = []"
    and src: "src = hdr @ bs @ ckb" and u: "length src \<le> usize_max"
    and opts: "opt_max_window_size opts = Some 134217728" "opt_max_output_size opts = None"
  shows "\<exists>scratch' out'. decode_zstandard_frame (cursor_new src) H opts None [] (decode_growable [])
    = Ok (\<lparr>cur_src = src, cur_pos = length src\<rparr>, scratch', out') \<and> dout_slice out' = concat cs"
proof -
  let ?o = "decode_growable []" and ?c = "\<lparr>cur_src = src, cur_pos = length hdr\<rparr>"
  have un: "unat (word_of_nat n :: u64) = n" using len by (simp add: unat_of_nat)
  have bsm: "unat (block_size_max H) = min n (2 ^ 17)"
  proof -
    have m: "unat (min (word_of_nat n) (word_of_nat BLOCK_SIZE_MAX) :: u64) = min n (2 ^ 17)"
      using un by (simp add: min_def word_le_nat_alt BLOCK_SIZE_MAX_def)
    then show ?thesis by (simp add: H unsigned_ucast_eq take_bit_nat_eq_self_iff)
  qed
  have rd: "cursor_read_exact (cursor_new src) (header_size H) = Ok (hdr, ?c)"
    using u by (simp add: cursor_read_exact_Ok cursor_new_def H src)
  have win: "check_window_size (window_size H) (opt_max_window_size opts) = Ok ()"
    using un len by (simp add: check_window_size_def opts H word_less_nat_alt)
  have o: "growing ?o" "dout_len ?o = 0" "dout_slice ?o = []"
    by (simp_all add: growing_def decode_growable_def dout_ok_def dout_len_def dout_slice_def)
  obtain o1 where o1: "reserve_content H opts ?c ?o = Ok o1" "keeps ?o o1" "dout_slice o1 = []" "dout_len o1 = 0"
  proof -
    have "saturating_add (min n x) 32 \<le> isize_max" for x using len by (simp add: saturating_add_def isize_max_def)
    moreover have "idx_from src (length hdr) = Ok (bs @ ckb)" by (simp add: src idx_from_def)
    ultimately show thesis
      using try_reserve_run [of ?o] o un that
      by (simp add: reserve_content_def ensure_total_size_limit_def opts H cursor_remaining_def growing_def Let_def) blast
  qed
  have g: "growing o1" using o1(2) o(1) by (simp add: keeps_def growing_def)
  let ?st = "\<lparr>fs_cursor = ?c, fs_literals_state = None, fs_tables = sequence_tables_default,
      fs_reps = repeat_offsets_default, fs_scratch = [], fs_out = o1\<rparr>"
  have cb: "\<forall>c \<in> set cs. length c \<le> unat (block_size_max H)"
    using c split_list by (fastforce simp: bsm n_def)
  obtain st1 where st1: "decode_frame_blocks H opts None 0 ?st = Ok st1" "growing (fs_out st1)"
    "fs_cursor st1 = ?c\<lparr>cur_pos := length hdr + length bs\<rparr>" "dout_slice (fs_out st1) = concat cs"
    using decode_stored_blocks [OF st ne, of ?st hdr ckb H opts None 0] cb g o1 u opts len
    by (auto simp: src n_def usize_max_def)
  have dl: "dout_len (fs_out st1) = n" using length_dout_slice [of "fs_out st1"] st1(2,4) by (simp add: growing_def n_def)
  obtain st2 where st2: "check_checksum H opts 0 st1 = Ok st2" "fs_cursor st2 = \<lparr>cur_src = src, cur_pos = length src\<rparr>"
    "fs_out st2 = fs_out st1"
  proof (cases ck)
    case True
    then obtain hash where x: "xxh64 (concat cs) 0 = Ok hash" "ckb = le_bytes 4 (unat (ucast hash :: u32))" using ckb by auto
    have l4: "length ckb = 4" by (simp add: x)
    then have four: "[ckb ! 0, ckb ! 1, ckb ! 2, ckb ! 3] = ckb" by (auto simp: length_Suc_conv eval_nat_numeral)
    have "cursor_read_exact (fs_cursor st1) 4 = Ok (ckb, \<lparr>cur_src = src, cur_pos = length src\<rparr>)"
      using u l4 by (simp add: cursor_read_exact_Ok st1(3) src)
    then have "cursor_read_u32_le (fs_cursor st1) = Ok (ucast hash, \<lparr>cur_src = src, cur_pos = length src\<rparr>)"
      using l4 four checksum_word [of "ucast hash", folded x(2)]
      by (auto simp: cursor_read_u32_le_def idx_def simp del: le_nat.simps)
    then show thesis using that [of "st1\<lparr>fs_cursor := \<lparr>cur_src = src, cur_pos = length src\<rparr>\<rparr>"] True x(1) st1(4)
      by (simp add: check_checksum_def H idx_from_def)
  next
    case False
    then show thesis using that [of st1] st1(3) ckb by (simp add: check_checksum_def H src)
  qed
  have "check_content_size H 0 (fs_out st2) = Ok ()" using dl by (simp add: check_content_size_def st2(3) H)
  then show ?thesis
    using st2 st1 o(2)
    by (simp add: decode_zstandard_frame_def rd win frame_dictionary_def H [symmetric] frame_start_state_def o1(1) Let_def)
      (simp add: H)
qed

text \<open>The bound counts no fewer blocks than there are at the block size asked for.\<close>

lemma ceil_antimono:
  assumes "0 < s" and "s \<le> b"
  shows "(n + b - 1) div b \<le> (n + s - 1) div (s :: nat)"
proof -
  let ?q = "(n + s - 1) div s"
  have "n + s - 1 < (?q + 1) * s" using assms(1) by (metis Suc_eq_plus1 dividend_less_div_times mult.commute mult_Suc add.commute)
  then have "n \<le> ?q * s" using assms(1) by (simp add: algebra_simps)
  also have "\<dots> \<le> ?q * b" using assms(2) by simp
  finally have "n + b - 1 \<le> ?q * b + (b - 1)" using assms by simp
  then have "(n + b - 1) div b \<le> (?q * b + (b - 1)) div b" by (rule div_le_mono)
  also have "\<dots> = ?q" by (rule div_nat_eqI) (use assms in \<open>auto simp: mult.commute\<close>)
  finally show ?thesis .
qed

lemma compress_bound_Ok:
  assumes "compress_bound n block ck = Ok bound" and "block \<noteq> 0"
  shows "\<exists>s. 0 < s \<and> s \<le> block \<and> bound = 18 + max 1 ((n + s - 1) div s) * 3 + n + (if ck then 4 else 0)"
proof -
  let ?bs = "max 1 (min block BLOCK_SIZE_MAX)"
  define s where "s = (if ?bs < UPSTREAM_SPLIT_FULL_BLOCK_SIZE then ?bs else UPSTREAM_SPLIT_CHUNK_SIZE)"
  have "0 < s" "s \<le> block" using assms(2)
    by (auto simp: s_def UPSTREAM_SPLIT_CHUNK_SIZE_def UPSTREAM_SPLIT_FULL_BLOCK_SIZE_def BLOCK_SIZE_MAX_def)
  moreover have "bound = 18 + max 1 ((n + s - 1) div s) * 3 + n + (if ck then 4 else 0)"
    using assms(1) unfolding compress_bound_def Let_def s_def [symmetric]
    by (simp add: FRAME_HEADER_MAX_def CHECKSUM_SIZE_def BLOCK_HEADER_SIZE_def split: if_split_asm)
  ultimately show ?thesis by blast
qed

lemma stored_frame_decodes:
  assumes "cs = [[]] \<or> cs \<noteq> [] \<and> [] \<notin> set cs" and "length (concat cs) \<le> 2 ^ 27" and "\<forall>c \<in> set cs. length c \<le> 2 ^ 17"
  shows "\<exists>frame. store_frame cs ck fmt = Ok (growable frame)
    \<and> decode_all_with_options frame (decoder_options_default\<lparr>opt_format := fmt\<rparr>) = Ok (concat cs)
    \<and> length frame \<le> 18 + length (concat cs) + 3 * length cs + (if ck then 4 else 0)"
proof -
  obtain hdr bs ckb where f: "store_frame cs ck fmt = Ok (growable (hdr @ bs @ ckb))" "stores cs bs" and
    h: "\<And>rest. parse_frame_header_with_format (hdr @ rest) fmt = Ok (Zstandard
          \<lparr>header_size = length hdr, window_size = word_of_nat (length (concat cs)),
           block_size_max = ucast (min (word_of_nat (length (concat cs))) (word_of_nat BLOCK_SIZE_MAX) :: u64),
           content_size = Some (word_of_nat (length (concat cs))),
           dictionary_id = None, checksum = ck, single_segment = True\<rparr>)"
    and ckb: "if ck then \<exists>hash. xxh64 (concat cs) 0 = Ok hash \<and> ckb = le_bytes 4 (unat (ucast hash :: u32)) else ckb = []"
    and l: "hdr \<noteq> []" "length hdr \<le> 18"
    using store_frame_bytes [OF assms(2,3), of ck fmt] by blast
  define frame where "frame = hdr @ bs @ ckb"
  let ?opts = "decoder_options_default\<lparr>opt_format := fmt\<rparr>"
  have cl: "length ckb \<le> (if ck then 4 else 0)" using ckb by (auto split: if_splits)
  have count: "length cs \<le> max 1 (length (concat cs))"
  proof (cases "cs = [[]]")
    case False
    then have "\<forall>c \<in> set cs. 1 \<le> length c" using assms(1) by (auto simp: Suc_le_eq)
    then have "length cs \<le> length (concat cs)" by (induction cs) auto
    then show ?thesis by simp
  qed simp
  have fl: "length frame \<le> 18 + length (concat cs) + 3 * length cs + (if ck then 4 else 0)"
    using stores_length [OF f(2)] l(2) cl by (simp add: frame_def)
  then have u: "length frame \<le> usize_max" using count assms(2) by (auto simp: usize_max_def split: if_splits)
  have ne: "cs \<noteq> []" using assms(1) by auto
  obtain scratch' out' where dec: "decode_zstandard_frame (cursor_new frame) \<lparr>header_size = length hdr,
           window_size = word_of_nat (length (concat cs)),
           block_size_max = ucast (min (word_of_nat (length (concat cs))) (word_of_nat BLOCK_SIZE_MAX) :: u64),
           content_size = Some (word_of_nat (length (concat cs))), dictionary_id = None, checksum = ck, single_segment = True\<rparr>
        ?opts None [] (decode_growable []) = Ok (\<lparr>cur_src = frame, cur_pos = length frame\<rparr>, scratch', out')"
      "dout_slice out' = concat cs"
    using decode_stored_frame [OF refl ne assms(2,3) f(2) ckb frame_def u, of ?opts] default_window
    by (auto simp: decoder_options_default_def)
  have e: "frame \<noteq> []" "length frame \<noteq> 0" using l(1) by (simp_all add: frame_def)
  have z: "dout_clear (decode_growable []) = decode_growable []" by (simp add: decode_growable_def)
  have "decode_frames ?opts None \<lparr>cur_src = frame, cur_pos = length frame\<rparr> scratch' out' = Ok (scratch', out')"
    by (simp add: decode_frames.simps cursor_is_empty_def)
  then have "decode_frames ?opts None (cursor_new frame) [] (decode_growable []) = Ok (scratch', out')"
    using e dec(1) h [of "bs @ ckb", folded frame_def]
    by (subst decode_frames.simps)
      (simp add: cursor_is_empty_def cursor_new_def cursor_remaining_def idx_from_def decoder_options_default_def)
  then have d: "decode_all_with_options frame ?opts = Ok (concat cs)"
    using e(1) dec(2) z by (simp add: decode_all_with_options_def decode_all_with_scratch_def decode_into_with_scratch_def Let_def)
  with f(1) fl show ?thesis by (auto simp: frame_def)
qed

subsection \<open>Properties\<close>



text \<open>C1. What decoding returns is what the input spells. The input is a sequence of frames, and the bytes returned are the contents
  of the Zstandard frames among them, in order: each frame names this dictionary or none, stays within the window
  limit, its blocks spell the content under the format's own account of literals, sequences and matches, its length is the one
  declared and its checksum, if it has one, is that of the content. The output cap is kept. The same holds of the filled part of
  a slice, which keeps its length.\<close>

theorem decoding_reference:
  assumes "length src \<le> 2 ^ 45" and "opt_max_window_size opts = Some m" and "unat m < 4294967295"
  shows "(\<forall>content. decode_all_with_options src opts = Ok content \<longrightarrow>
      src \<noteq> [] \<and> frames_spell opts None src 0 content
      \<and> (\<forall>cap. opt_max_output_size opts = Some cap \<longrightarrow> length content \<le> cap))
    \<and> (\<forall>n dst'. decode_into_slice_with_options src dst opts = Ok (n, dst') \<longrightarrow>
      src \<noteq> [] \<and> frames_spell opts None src 0 (take n dst') \<and> n \<le> length dst' \<and> length dst' = length dst
      \<and> (\<forall>cap. opt_max_output_size opts = Some cap \<longrightarrow> n \<le> cap))
    \<and> (\<forall>content. length dict \<le> usize_max \<longrightarrow> decode_all_with_dict_and_options src dict opts = Ok content \<longrightarrow>
      src \<noteq> [] \<and> (\<exists>d. parse_decoder_dictionary dict = Ok d \<and> frames_spell opts (Some d) src 0 content)
      \<and> (\<forall>cap. opt_max_output_size opts = Some cap \<longrightarrow> length content \<le> cap))"
proof -
  have m: "unat m < OFFSET_SENTINEL" using assms(3) by (simp add: OFFSET_SENTINEL_def)
  note A = decode_all_meets [OF assms(1,2) m] and B = decode_into_slice_meets [OF assms(1,2) m, of None "[]" dst]
  have "input_done opts None src content" if "decode_all_with_options src opts = Ok content" for content
    using A [of None "[]"] that by (auto simp: decode_all_with_options_def meets_iff)
  moreover have "\<exists>d. parse_decoder_dictionary dict = Ok d \<and> input_done opts (Some d) src content"
    if "length dict \<le> usize_max" "decode_all_with_dict_and_options src dict opts = Ok content" for content
  proof -
    from that(2) obtain d where d: "parse_decoder_dictionary dict = Ok d"
      "decode_all_with_prepared_dict_and_options src d opts = Ok content" by (auto simp: decode_all_with_dict_and_options_def)
    have "dictionary_ok d" using parse_dictionary_meets [OF that(1)] d(1) by simp
    then show ?thesis using A [of "Some d" "[]"] d by (auto simp: decode_all_with_prepared_dict_and_options_def meets_iff)
  qed
  moreover have "n \<le> length dst' \<and> length dst' = length dst \<and> input_done opts None src (take n dst')"
    if "decode_into_slice_with_options src dst opts = Ok (n, dst')" for n dst'
    using B that by (auto simp: decode_into_slice_with_options_def meets_iff)
  ultimately show ?thesis by (fastforce simp: input_done_def cap_ok_def)
qed

theorem decoding_reference_witness:
  "\<exists>frame. decode_all_with_options frame decoder_options_default = Ok [1, 2, 3]
    \<and> frames_spell decoder_options_default None frame 0 [1, 2, 3]"
proof -
  have "[[1, 2, 3]] = [[] :: bytes] \<or> [[1, 2, 3]] \<noteq> ([] :: bytes list) \<and> [] \<notin> set [[1, 2, 3 :: u8]]"
    "length (concat [[1, 2, 3 :: u8]]) \<le> 2 ^ 27" "\<forall>c \<in> set [[1, 2, 3 :: u8]]. length c \<le> 2 ^ 17" by simp_all
  moreover have o: "decoder_options_default\<lparr>opt_format := Zstd1\<rparr> = decoder_options_default"
    by (simp add: decoder_options_default_def)
  ultimately obtain frame where f: "decode_all_with_options frame decoder_options_default = Ok [1, 2, 3]" "length frame \<le> 2 ^ 45"
    using stored_frame_decodes [of "[[1, 2, 3]]" True Zstd1] by fastforce
  with decoding_reference [OF f(2) default_window] show ?thesis by blast
qed

end
