(* ===== verification/Spec2Isabelle.thy ===== *)
theory Spec2Isabelle
  imports FsePipeline FseWrite StoredFrames
begin

text \<open>
  A verification development for the Rust implementation of Zstandard in \<open>src/src\<close>.

  \<^bold>\<open>The program.\<close> A frame (\<open>frame.rs\<close>) is a header, blocks and an optional checksum (\<open>xxhash.rs\<close>). A block
  (\<open>block.rs\<close>) is stored, repeated or compressed. A compressed block is a literals section (\<open>literals.rs\<close>),
  whose bytes may be Huffman coded (\<open>entropy/huff0.rs\<close>), and a sequences section (\<open>sequence.rs\<close>), whose three
  streams of codes are FSE coded (\<open>entropy/fse.rs\<close>) in one bitstream (\<open>entropy/bitstream.rs\<close>). The decoder
  executes the sequences on its output (\<open>decode_out.rs\<close>), which is the match history, with an optional
  dictionary in front. The encoder (\<open>encode.rs\<close>) finds matches (\<open>window/\<close>) and writes to an \<open>OutBuf\<close>
  (\<open>outbuf.rs\<close>).

  \<^bold>\<open>Conventions.\<close> Bytes and accumulators are words. A \<open>usize\<close>, and a \<open>u32\<close> that only counts, is a natural
  number, with each addition, subtraction and conversion that could leave its range written out; \<open>usize\<close> has 64 bits.
  An operation returns \<open>'a result\<close> (theory \<open>Results\<close>): \<open>Ok\<close>, \<open>Err\<close> with the error of \<open>error.rs\<close>, or
  \<open>Fault\<close>, which stands for a panic, a failed \<open>debug_assert!\<close>, an overflow in a checked build, or a broken
  contract of an \<open>unsafe\<close> operation. So \<open>\<noteq> Fault\<close> is memory safety and absence of panics. \<open>meets m P\<close> is the weakest
  precondition: no fault, and \<open>P\<close> of the value returned. State is passed explicitly, in records with the
  fields of the source's structs.

  \<^bold>\<open>Theories and sources.\<close>
  \<^item> \<open>Prelude\<close>, \<open>Results\<close>: words, little-endian numbers, errors, the \<open>?\<close> operator, \<open>meets\<close>, loops over lists.
  \<^item> \<open>Mem\<close>: \<open>entropy/mem.rs\<close>. \<open>OutBuf\<close>: \<open>outbuf.rs\<close>, both sinks as instances of the locale \<open>byte_sink\<close>.
    \<open>DecodeOut\<close>: \<open>decode_out.rs\<close>.
  \<^item> \<open>Frame\<close>, \<open>FrameParse\<close>, \<open>FrameProps\<close>: \<open>frame.rs\<close>, header round trips, parsers depend on what they
    consume only, measuring a frame. \<open>Block\<close>: \<open>block.rs\<close>. \<open>XxHash\<close>: \<open>xxhash.rs\<close>, pieces hash like the whole.
  \<^item> \<open>BitStream\<close> (writer and reader), \<open>BitStack\<close> (the writer's stream as a stack of fields), \<open>BitReader\<close> (the
    reader pops that stack; no load leaves the slice): \<open>entropy/bitstream.rs\<close>.
  \<^item> \<open>Hist\<close>: \<open>entropy/hist.rs\<close>, the parallel histogram is the simple one.
  \<^item> \<open>FseSpread\<close>, \<open>FseTable\<close>, \<open>FseBuild\<close> (decoding tables from valid counts), \<open>FseCount\<close>, \<open>FseCountProps\<close> (the
    table description on arbitrary input), \<open>FseNorm\<close>, \<open>FseNormProps\<close> (normalization fills the table), \<open>FseWrite\<close>,
    \<open>FseDecode\<close>, \<open>FseEncode\<close>, \<open>FseTans\<close> (the two tables are inverse), \<open>FseRoundtrip\<close>, \<open>FseTotal\<close>,
    \<open>FsePipeline\<close> (histogram to decompression): \<open>entropy/fse.rs\<close>.
  \<^item> \<open>Huff0Table\<close>, \<open>Huff0Decode\<close>, \<open>Huff0Pairs\<close> (definitions), \<open>Huff0Stats\<close>, \<open>Huff0X1\<close>, \<open>Huff0X2\<close> (the tables
    built from accepted weights), \<open>Huff0Lanes\<close> (four streams over the locale \<open>entry_decoder\<close>), \<open>Huff0Safe\<close> (whole
    sections on arbitrary input): the decoder of \<open>entropy/huff0.rs\<close>.
  \<^item> \<open>Literals\<close>: \<open>literals.rs\<close> and the section writers of \<open>encode.rs\<close>.
  \<^item> \<open>SeqCodes\<close> (codes, repeat offsets, the count), \<open>SeqCopy\<close> (the wild match copies against copying byte by
    byte), \<open>SeqHistory\<close> (exact appends, limits, and the two-pass executors as instances of the locale
    \<open>sequence_executor\<close> against the reference \<open>lz_sequences\<close>), \<open>SeqTables\<close> (the section header and its
    tables), \<open>SeqRead\<close> (the reader against the reference \<open>block_commands\<close>), \<open>SeqExec\<close> (the fused decoder, which
    executes each sequence as it is read, against both references): \<open>sequence.rs\<close>.
  \<^item> \<open>Dictionary\<close>: \<open>dictionary.rs\<close> as a decoder uses it. \<open>Decode\<close>: \<open>decode.rs\<close>, from the cursor to the entry
    points. \<open>DecodeProps\<close>: the account of blocks, frames and inputs (\<open>block_spells\<close>, \<open>frame_spells\<close>,
    \<open>frames_spell\<close>), and the decoder against it. \<open>StoredFrames\<close>: the blocks \<open>encode.rs\<close> writes without
    compression, \<open>compress_bound\<close>, and the properties of decoding as a whole.

  \<^bold>\<open>What is shown.\<close> Round trips of every header and coder that has both directions; absence of faults on arbitrary
  input for every decoder modelled, with the invariant its successor needs; agreement of each optimised routine (wild
  copies, doubling copies, parallel histogram, unchecked FSE step, raw table entries) with a plain reference; and
  refinement of the format's account of a block, a frame and an input: decoding never faults on any input, what it returns is
  what the input spells, and a frame of stored blocks decodes to its content.

  \<^bold>\<open>Loops.\<close> Recursion is structural or has a measure; the loops of the Huffman decoders count down fuel that is the
  number of output bytes left, and each round produces one or more. No result depends on running out of fuel: that is
  a \<open>Fault\<close>, which the safety theorems exclude. The block and frame loops of the decoder end because each round
  consumes input; a block consumes at least three bytes and adds at most 128 KiB, so inputs of up to \<open>2 ^ 45\<close> bytes keep the
  output below \<open>isize::MAX\<close>.

  \<^bold>\<open>Not modelled.\<close> Match finding and parsing (\<open>window/\<close>), the block compressor and its heuristics (\<open>encode.rs\<close>
  but for the writers above), the streaming front ends (\<open>streaming.rs\<close>, \<open>io.rs\<close>) and dictionary training
  (\<open>dict_builder.rs\<close>): they choose among encodings or move bytes, and are large; the development takes the
  decoder and the entropy coders first. The Huffman encoder, the encoding direction of dictionaries and the profiled
  variants of the decoder are not modelled. Allocation never fails. Prefetches, capacity hints and timings have
  no effect on results and are left out. Tests, fuzz drivers, benchmarks and the bindings to the C library are not part of
  the codec.
\<close>

end
